(* ===== verification/Prelude.thy ===== *)
theory Prelude
  imports Main "HOL-Library.Word"
begin

text \<open>
  Shared vocabulary of the development: the machine integers of the kernel, the effect and
  outcome types that stand for \<open>sched_wake\<close> and \<open>sched_block\<close>, the contents of a circular
  buffer as a list, and the generic lemmas on words and lists the components use.

  A C \<open>uint8_t\<close>, \<open>uint16_t\<close>, \<open>uint32_t\<close> or \<open>uint64_t\<close> whose wrap-around matters is a word
  of that width. A ring index or a count that an invariant keeps far below its width is a
  \<open>nat\<close>; a C \<open>int\<close> is an \<open>int\<close>, since its overflow is undefined in C.
\<close>

unbundle bit_operations_syntax

type_synonym u8 = "8 word"
type_synonym u16 = "16 word"
type_synonym u32 = "32 word"
type_synonym u64 = "64 word"

named_theorems ring_simps "rewrite rules for the contents of circular buffers"
named_theorems kdefs "definitions of the small C helpers"

subsection \<open>Words\<close>

text \<open>The cast of a \<open>uint32_t\<close> to \<open>int32_t\<close>.\<close>

lemma sint_u32: "sint (d :: u32) = (if uint d < 2147483648 then uint d else uint d - 4294967296)"
proof -
  have r: "uint d < 4294967296" "0 \<le> uint d" using uint_lt2p [of d] by simp_all
  have "sint d = (uint d + 2147483648) mod 4294967296 - 2147483648"
    by (simp add: sint_uint signed_take_bit_eq_take_bit_shift take_bit_eq_mod)
  moreover have "(uint d + 2147483648) mod 4294967296 =
      (if uint d < 2147483648 then uint d + 2147483648 else uint d - 2147483648)"
  proof (cases "uint d < 2147483648")
    case False
    then have "(uint d + 2147483648) mod 4294967296 = (uint d - 2147483648) mod 4294967296"
      using mod_add_self2 [of "uint d - 2147483648" 4294967296] by (simp add: add.commute)
    with False r show ?thesis by simp
  qed (use r in simp)
  ultimately show ?thesis by simp
qed

lemma unat_u8_less: "unat (b :: u8) < 256"
proof -
  have "unat b < 2 ^ LENGTH(8)" by (rule unsigned_less)
  then show ?thesis by simp
qed

lemma unat_u16_less: "unat (b :: u16) < 65536"
proof -
  have "unat b < 2 ^ LENGTH(16)" by (rule unsigned_less)
  then show ?thesis by simp
qed

lemma unat_u32_less: "unat (b :: u32) < 4294967296"
proof -
  have "unat b < 2 ^ LENGTH(32)" by (rule unsigned_less)
  then show ?thesis by simp
qed

lemma unat_of_nat_u32: "n < 4294967296 \<Longrightarrow> unat (of_nat n :: u32) = n"
  by (simp add: unat_of_nat)

text \<open>The cast of a \<open>uint64_t\<close> to \<open>int\<close>, as the calls that count bytes return it.\<close>

definition int_of_u64 :: "u64 \<Rightarrow> int" where "int_of_u64 w = sint (ucast w :: u32)"

lemma int_of_u64_small: "n < 2 ^ 31 \<Longrightarrow> int_of_u64 (of_nat n) = int n"
proof -
  assume n: "n < 2 ^ 31"
  have "(ucast (of_nat n :: u64) :: u32) = of_nat n"
    using n by (simp add: word_unat_eq_iff unsigned_ucast_eq unsigned_take_bit_eq unat_of_nat take_bit_eq_mod)
  moreover have "uint (of_nat n :: u32) = int n" using n by (simp add: uint_nat unat_of_nat)
  ultimately show ?thesis using n by (simp add: int_of_u64_def sint_u32)
qed

text \<open>Rounding an address down to its page.\<close>

lemma page_mask: "x AND NOT 4095 = push_bit 12 (drop_bit 12 (x :: u64))"
proof -
  have m: "(4095 :: u64) = mask 12" by (simp add: mask_numeral)
  show ?thesis unfolding m by (rule bit_word_eqI) (auto simp: bit_simps)
qed

lemma unat_page_mask: "unat (x AND NOT 4095 :: u64) = unat x div 4096 * 4096"
proof -
  have "unat x < 2 ^ LENGTH(64)" by (rule unsigned_less)
  then have "unat x div 4096 * 4096 < 2 ^ 64" by simp
  moreover have "unat (drop_bit 12 x) = unat x div 4096"
    using \<open>unat x < 2 ^ LENGTH(64)\<close>
    by (simp add: unsigned_drop_bit_eq take_bit_eq_mod drop_bit_eq_div [where 'a = nat])
  ultimately show ?thesis
    unfolding page_mask push_bit_eq_mult by (simp add: unat_word_ariths)
qed

lemma unat_slice: "unat (take_bit k (drop_bit n (w :: u64))) = unat w div 2 ^ n mod 2 ^ k"
proof -
  have l: "unat w < 2 ^ LENGTH(64)" by (rule unsigned_less)
  then have "unat w div 2 ^ n < 2 ^ LENGTH(64)" using div_le_dividend le_less_trans by blast
  with l show ?thesis
    by (simp only: unsigned_take_bit_eq unsigned_drop_bit_eq)
      (simp add: take_bit_eq_mod drop_bit_eq_div [where 'a = nat])
qed

subsection \<open>Calls that may sleep\<close>

text \<open>
  A kernel operation that calls \<open>sched_block\<close> stops there: the model returns \<open>Sleep x\<close> with the
  loop variables \<open>x\<close> the C function keeps on its stack, and the operation continues from the loop
  head when the thread is woken. \<open>Done y\<close> is a return with value \<open>y\<close>.
\<close>

datatype ('x, 'y) outcome = Sleep 'x | Done 'y

text \<open>The invariant of a counting loop.\<close>

lemma fold_upt_inv:
  "I 0 s \<Longrightarrow> (\<And>n s. n < N \<Longrightarrow> I n s \<Longrightarrow> I (Suc n) (f n s)) \<Longrightarrow> I N (fold f [0..<N] s)"
  by (induction N) auto

text \<open>A loop over a list whose body may not return.\<close>

primrec fold_option :: "('a \<Rightarrow> 's \<Rightarrow> 's option) \<Rightarrow> 'a list \<Rightarrow> 's \<Rightarrow> 's option" where
  "fold_option f [] s = Some s"
| "fold_option f (x # xs) s = (case f x s of None \<Rightarrow> None | Some s \<Rightarrow> fold_option f xs s)"

subsection \<open>Circular buffers as lists\<close>

definition ring_contents :: "'a list \<Rightarrow> nat \<Rightarrow> nat \<Rightarrow> 'a list" where
  "ring_contents b r n = map (\<lambda>i. b ! ((r + i) mod length b)) [0..<n]"

lemma length_ring_contents [simp]: "length (ring_contents b r n) = n"
  by (simp add: ring_contents_def)

lemma ring_contents_0 [simp]: "ring_contents b r 0 = []"
  by (simp add: ring_contents_def)

lemma ring_contents_eq_Nil [simp]: "ring_contents b r n = [] \<longleftrightarrow> n = 0"
  by (simp add: ring_contents_def)

lemma ring_contents_pop [ring_simps]:
  assumes "r < length b"
  shows "ring_contents b r (Suc n) = b ! r # ring_contents b (Suc r mod length b) n"
proof -
  have "map (\<lambda>i. b ! ((r + i) mod length b)) [1..<Suc n] =
        map (\<lambda>i. b ! ((Suc r mod length b + i) mod length b)) [0..<n]"
    by (simp add: map_Suc_upt [symmetric] mod_add_left_eq del: upt_Suc)
  with assms show ?thesis
    by (simp add: ring_contents_def upt_conv_Cons del: upt_Suc)
qed

lemma ring_slot_inj:
  assumes "i < n" "n < m" shows "(r + i) mod m \<noteq> (r + n) mod (m::nat)"
proof
  assume "(r + i) mod m = (r + n) mod m"
  then have "int ((r + i) mod m) = int ((r + n) mod m)" by simp
  then have "(int r + int i) mod int m = (int r + int n) mod int m" by (simp add: zmod_int)
  then have "int i mod int m = int n mod int m"
    by (metis add_diff_cancel_left' mod_diff_left_eq)
  with assms show False by simp
qed

lemma ring_contents_push [ring_simps]:
  assumes "n < length b" "w = (r + n) mod length b"
  shows "ring_contents (b[w := x]) r (Suc n) = ring_contents b r n @ [x]"
proof -
  have len: "0 < length b" using assms by linarith
  have "map (\<lambda>i. b[w := x] ! ((r + i) mod length b)) [0..<n] =
        map (\<lambda>i. b ! ((r + i) mod length b)) [0..<n]"
  proof (rule map_cong [OF refl])
    fix i assume "i \<in> set [0..<n]"
    then have "(r + i) mod length b \<noteq> w"
      using ring_slot_inj [of i n "length b" r] assms by simp
    then show "b[w := x] ! ((r + i) mod length b) = b ! ((r + i) mod length b)" by simp
  qed
  with assms len show ?thesis
    by (simp add: ring_contents_def)
qed

subsection \<open>Bounded first-in first-out buffers\<close>

text \<open>
  The contract a bounded byte queue gives its clients: pushing appends while there is room and
  changes nothing when the queue is full, popping takes the oldest element. The ring buffers of
  \<open>pipe.c\<close>, \<open>pty.c\<close> and \<open>tcp.c\<close> are its instances.
\<close>

locale bounded_fifo =
  fixes push :: "'q \<Rightarrow> 'a \<Rightarrow> 'q"
    and pop :: "'q \<Rightarrow> ('a \<times> 'q) option"
    and contents :: "'q \<Rightarrow> 'a list"
    and inv :: "'q \<Rightarrow> bool"
    and cap :: nat
  assumes inv_push: "inv q \<Longrightarrow> inv (push q x)"
    and push_room: "inv q \<Longrightarrow> length (contents q) < cap \<Longrightarrow> contents (push q x) = contents q @ [x]"
    and push_full: "inv q \<Longrightarrow> length (contents q) = cap \<Longrightarrow> push q x = q"
    and bounded: "inv q \<Longrightarrow> length (contents q) \<le> cap"
    and pop_empty: "inv q \<Longrightarrow> contents q = [] \<Longrightarrow> pop q = None"
    and pop_cons: "inv q \<Longrightarrow> contents q = x # xs \<Longrightarrow>
        \<exists>q'. pop q = Some (x, q') \<and> inv q' \<and> contents q' = xs"
begin

primrec pushes :: "'q \<Rightarrow> 'a list \<Rightarrow> 'q" where
  "pushes q [] = q"
| "pushes q (x # xs) = pushes (push q x) xs"

primrec pops :: "nat \<Rightarrow> 'q \<Rightarrow> 'a list \<times> 'q" where
  "pops 0 q = ([], q)"
| "pops (Suc n) q = (case pop q of None \<Rightarrow> ([], q)
     | Some (x, q') \<Rightarrow> (case pops n q' of (xs, q'') \<Rightarrow> (x # xs, q'')))"

lemma pushes_append: "pushes q (xs @ ys) = pushes (pushes q xs) ys"
  by (induction xs arbitrary: q) auto

lemma pushes_inv: "inv q \<Longrightarrow> inv (pushes q xs)"
  by (induction xs arbitrary: q) (auto simp: inv_push)

lemma pushes_full: "inv q \<Longrightarrow> length (contents q) = cap \<Longrightarrow> pushes q xs = q"
  by (induction xs arbitrary: q) (auto simp: push_full)

lemma pushes_contents:
  "inv q \<Longrightarrow> contents (pushes q xs) = contents q @ take (cap - length (contents q)) xs"
proof (induction xs arbitrary: q)
  case (Cons x xs)
  show ?case
  proof (cases "length (contents q) < cap")
    case True
    with Cons.IH [OF inv_push [OF Cons.prems]] Cons.prems show ?thesis
      by (simp add: push_room take_Cons' Suc_diff_Suc)
  next
    case False
    with bounded [OF Cons.prems] have "length (contents q) = cap" by simp
    with Cons.prems show ?thesis by (simp add: push_full pushes_full)
  qed
qed simp

lemma pushes_fit:
  "inv q \<Longrightarrow> length (contents q) + length xs \<le> cap \<Longrightarrow> contents (pushes q xs) = contents q @ xs"
  by (simp add: pushes_contents)

lemma pops_spec:
  "inv q \<Longrightarrow> fst (pops n q) = take n (contents q) \<and>
    contents (snd (pops n q)) = drop n (contents q) \<and> inv (snd (pops n q))"
proof (induction n arbitrary: q)
  case (Suc n)
  show ?case
  proof (cases "contents q")
    case Nil
    with Suc.prems show ?thesis by (simp add: pop_empty)
  next
    case (Cons x xs)
    with pop_cons [OF Suc.prems Cons] obtain q' where
      q': "pop q = Some (x, q')" "inv q'" "contents q' = xs" by blast
    from Suc.IH [OF q'(2)] show ?thesis
      by (auto simp: q' Cons split: prod.split)
  qed
qed simp

lemma fifo_transfer:
  assumes "inv q" "contents q = []" "length xs \<le> cap" "length xs \<le> n"
  shows "fst (pops n (pushes q xs)) = xs"
  using assms pops_spec [OF pushes_inv [OF assms(1)]] by (simp add: pushes_fit)

end

end
