(* ===== verification/Pipe.thy ===== *)
theory Pipe
  imports Prelude
begin

text \<open>
  The pipe of \<open>src/pipe.c\<close> and \<open>src/pipe.h\<close>: a ring of \<open>PIPE_SIZE\<close> bytes with the read position
  \<open>p_r\<close>, the write position \<open>p_w\<close> and the count \<open>p_count\<close>, and the numbers of open read and
  write ends. The invariant \<open>pipe_ok\<close> says that the positions stay in range and agree with the
  count; \<open>pipe_data\<close> is the byte sequence in flight. The lemmas show that a pipe is a bounded
  first-in first-out buffer, what a read and a write do on every branch, and that no run of reads
  and writes loses, repeats or reorders a byte.
\<close>

subsection \<open>State and operations\<close>

definition PIPE_SIZE :: nat where "PIPE_SIZE = 16384"

record pipe =
  p_buf :: "u8 list"
  p_r :: nat
  p_w :: nat
  p_count :: nat
  p_readers :: int
  p_writers :: int

text \<open>The buffer is not cleared by \<open>kmalloc\<close>: its first contents are a parameter.\<close>

definition pipe_alloc :: "u8 list \<Rightarrow> pipe" where
  "pipe_alloc raw = \<lparr>p_buf = raw, p_r = 0, p_w = 0, p_count = 0, p_readers = 1, p_writers = 1\<rparr>"

text \<open>The bodies of the two copy loops.\<close>

definition pipe_getc :: "pipe \<Rightarrow> u8 \<times> pipe" where
  "pipe_getc p = (p_buf p ! p_r p, p\<lparr>p_r := (p_r p + 1) mod PIPE_SIZE, p_count := p_count p - 1\<rparr>)"

definition pipe_putc :: "pipe \<Rightarrow> u8 \<Rightarrow> pipe" where
  "pipe_putc p c = p\<lparr>p_buf := (p_buf p)[p_w p := c], p_w := (p_w p + 1) mod PIPE_SIZE,
     p_count := p_count p + 1\<rparr>"

fun pipe_drain :: "nat \<Rightarrow> pipe \<Rightarrow> u8 list \<times> pipe" where
  "pipe_drain 0 p = ([], p)"
| "pipe_drain (Suc k) p =
     (if p_count p > 0
      then (case pipe_getc p of (c, p') \<Rightarrow> (case pipe_drain k p' of (cs, p'') \<Rightarrow> (c # cs, p'')))
      else ([], p))"

fun pipe_fill :: "pipe \<Rightarrow> u8 list \<Rightarrow> pipe \<times> u8 list" where
  "pipe_fill p [] = (p, [])"
| "pipe_fill p (c # cs) =
     (if p_count p < PIPE_SIZE then pipe_fill (pipe_putc p c) cs else (p, c # cs))"

text \<open>
  \<open>pipe_read\<close>: the reader sleeps while the ring is empty and a writer is left; the result is the
  bytes copied out (none at end of file) and whether the pipe's sleepers are woken.
\<close>

definition pipe_read :: "pipe \<Rightarrow> nat \<Rightarrow> (unit, u8 list) outcome \<times> bool \<times> pipe" where
  "pipe_read p len =
     (if p_count p = 0 \<and> p_writers p > 0 then (Sleep (), False, p)
      else if p_count p = 0 then (Done [], False, p)
      else (case pipe_drain len p of (cs, p') \<Rightarrow> (Done cs, True, p')))"

text \<open>
  \<open>pipe_write\<close>: \<open>n\<close> counts the bytes already copied, \<open>bs\<close> are those still to copy. It sleeps in
  the middle with both, and continues from them when it is woken. With a negative number of
  readers and a full ring the C loop spins, which is the result \<open>None\<close>.
\<close>

partial_function (option) pipe_write_loop ::
  "pipe \<Rightarrow> nat \<Rightarrow> u8 list \<Rightarrow> ((nat \<times> u8 list, int) outcome \<times> pipe) option" where
  "pipe_write_loop p n bs =
     (if bs = [] then Some (Done (int n), p)
      else if p_count p = PIPE_SIZE \<and> p_readers p > 0 then Some (Sleep (n, bs), p)
      else if p_readers p = 0 then Some (Done (if n \<noteq> 0 then int n else -1), p)
      else (case pipe_fill p bs of (p', rest) \<Rightarrow>
              pipe_write_loop p' (n + (length bs - length rest)) rest))"

definition pipe_write :: "pipe \<Rightarrow> u8 list \<Rightarrow> ((nat \<times> u8 list, int) outcome \<times> pipe) option" where
  "pipe_write p bs = pipe_write_loop p 0 bs"

text \<open>Readiness for \<open>poll\<close>; \<open>wr\<close> is the \<open>writable\<close> field of the file.\<close>

definition pipe_readable :: "bool \<Rightarrow> pipe \<Rightarrow> bool" where
  "pipe_readable wr p = (if wr then False else p_count p > 0 \<or> p_writers p = 0)"

definition pipe_writable :: "bool \<Rightarrow> pipe \<Rightarrow> bool" where
  "pipe_writable wr p = (if \<not> wr then False else p_count p < PIPE_SIZE \<or> p_readers p = 0)"

definition pipe_hangup :: "bool \<Rightarrow> pipe \<Rightarrow> bool" where
  "pipe_hangup wr p \<longleftrightarrow> \<not> wr \<and> p_writers p = 0 \<and> p_count p = 0"

text \<open>\<open>pipe_close\<close> returns the pipe, or \<open>None\<close> when it was the last end and the pipe is freed.\<close>

definition pipe_close :: "bool \<Rightarrow> pipe \<Rightarrow> pipe option" where
  "pipe_close wr p =
     (let p' = (if wr then p\<lparr>p_writers := p_writers p - 1\<rparr> else p\<lparr>p_readers := p_readers p - 1\<rparr>)
      in if p_readers p' = 0 \<and> p_writers p' = 0 then None else Some p')"

subsection \<open>Invariant and abstraction\<close>

definition pipe_ok :: "pipe \<Rightarrow> bool" where
  "pipe_ok p \<longleftrightarrow> length (p_buf p) = PIPE_SIZE \<and> p_r p < PIPE_SIZE \<and> p_count p \<le> PIPE_SIZE \<and>
     p_w p = (p_r p + p_count p) mod PIPE_SIZE \<and> p_readers p \<ge> 0 \<and> p_writers p \<ge> 0"

definition pipe_data :: "pipe \<Rightarrow> u8 list" where
  "pipe_data p = ring_contents (p_buf p) (p_r p) (p_count p)"

definition pipe_push :: "pipe \<Rightarrow> u8 \<Rightarrow> pipe" where
  "pipe_push p c = (if p_count p < PIPE_SIZE then pipe_putc p c else p)"

definition pipe_pop :: "pipe \<Rightarrow> (u8 \<times> pipe) option" where
  "pipe_pop p = (if p_count p > 0 then Some (pipe_getc p) else None)"

lemma PIPE_SIZE_pos [simp]: "0 < PIPE_SIZE" by (simp add: PIPE_SIZE_def)

lemma length_pipe_data [simp]: "length (pipe_data p) = p_count p"
  by (simp add: pipe_data_def)

lemma pipe_data_Nil [simp]: "pipe_data p = [] \<longleftrightarrow> p_count p = 0"
  "[] = pipe_data p \<longleftrightarrow> p_count p = 0"
  by (simp_all add: pipe_data_def eq_commute [of "[]"])

lemma pipe_ok_bound: "pipe_ok p \<Longrightarrow> p_count p \<le> PIPE_SIZE"
  by (simp add: pipe_ok_def)

lemma pipe_putc_ok:
  assumes "pipe_ok p" "p_count p < PIPE_SIZE"
  shows "pipe_ok (pipe_putc p c)" "pipe_data (pipe_putc p c) = pipe_data p @ [c]"
  using assms
  by (auto simp: pipe_ok_def pipe_putc_def pipe_data_def ring_contents_push mod_Suc_eq)

lemma pipe_getc_ok:
  assumes "pipe_ok p" "0 < p_count p"
  shows "pipe_ok (snd (pipe_getc p))"
    "pipe_data p = fst (pipe_getc p) # pipe_data (snd (pipe_getc p))"
proof -
  obtain k where k: "p_count p = Suc k" using assms(2) by (cases "p_count p") auto
  show "pipe_ok (snd (pipe_getc p))"
    using assms(1) k by (auto simp: pipe_ok_def pipe_getc_def mod_simps)
  show "pipe_data p = fst (pipe_getc p) # pipe_data (snd (pipe_getc p))"
    using assms(1) k by (simp add: pipe_ok_def pipe_getc_def pipe_data_def ring_contents_pop)
qed

interpretation pf: bounded_fifo pipe_push pipe_pop pipe_data pipe_ok PIPE_SIZE
proof unfold_locales
  fix p :: pipe and x xs assume "pipe_ok p" "pipe_data p = x # xs"
  then show "\<exists>q'. pipe_pop p = Some (x, q') \<and> pipe_ok q' \<and> pipe_data q' = xs"
    using pipe_getc_ok [of p]
    by (cases "pipe_getc p") (auto simp: pipe_pop_def dest: arg_cong [where f = length])
qed (auto simp: pipe_push_def pipe_pop_def pipe_putc_ok dest: pipe_ok_bound)

subsection \<open>Functional behaviour\<close>

lemma pipe_drain_pops: "pipe_drain k p = pf.pops k p"
proof (induction k arbitrary: p)
  case (Suc k)
  have "pipe_pop p = (if p_count p > 0 then Some (pipe_getc p) else None)"
    by (rule pipe_pop_def)
  then show ?case by (cases "pipe_getc p") (simp add: Suc)
qed simp

lemma pipe_drain_spec:
  assumes "pipe_ok p"
  shows "fst (pipe_drain k p) = take k (pipe_data p)"
    "pipe_data (snd (pipe_drain k p)) = drop k (pipe_data p)"
    "pipe_ok (snd (pipe_drain k p))"
  using pf.pops_spec [OF assms, of k] by (simp_all add: pipe_drain_pops)

lemma pipe_drain_ends [simp]:
  "p_readers (snd (pipe_drain k p)) = p_readers p"
  "p_writers (snd (pipe_drain k p)) = p_writers p"
  by (induction k arbitrary: p) (simp_all add: pipe_getc_def case_prod_unfold)

lemma pipe_fill_pushes:
  "pipe_ok p \<Longrightarrow> fst (pipe_fill p bs) = pf.pushes p bs \<and>
     snd (pipe_fill p bs) = drop (PIPE_SIZE - p_count p) bs"
proof (induction bs arbitrary: p)
  case (Cons b bs)
  show ?case
  proof (cases "p_count p < PIPE_SIZE")
    case True
    then have "PIPE_SIZE - p_count p = Suc (PIPE_SIZE - p_count (pipe_putc p b))"
      by (simp add: pipe_putc_def)
    moreover have "pipe_push p b = pipe_putc p b" using True by (simp add: pipe_push_def)
    ultimately show ?thesis using True Cons by (simp add: pipe_putc_ok)
  next
    case False
    with Cons.prems have "p_count p = PIPE_SIZE" by (simp add: pipe_ok_def)
    moreover have "pipe_push p b = p" using False by (simp add: pipe_push_def)
    ultimately show ?thesis using pf.pushes_full [OF Cons.prems, of bs] by simp
  qed
qed simp

lemma pipe_fill_spec:
  assumes "pipe_ok p"
  shows "pipe_ok (fst (pipe_fill p bs))"
    "pipe_data (fst (pipe_fill p bs)) = pipe_data p @ take (PIPE_SIZE - p_count p) bs"
    "snd (pipe_fill p bs) = drop (PIPE_SIZE - p_count p) bs"
  using pipe_fill_pushes [OF assms, of bs] pf.pushes_inv [OF assms]
    pf.pushes_contents [OF assms, of bs] by simp_all

lemma pipe_fill_ends [simp]:
  "p_readers (fst (pipe_fill p bs)) = p_readers p"
  "p_writers (fst (pipe_fill p bs)) = p_writers p"
  by (induction p bs rule: pipe_fill.induct) (auto simp: pipe_putc_def)

lemma pipe_fill_count:
  assumes "pipe_ok p"
  shows "p_count (fst (pipe_fill p bs)) = p_count p + min (length bs) (PIPE_SIZE - p_count p)"
  using arg_cong [OF pipe_fill_spec(2) [OF assms, of bs], of length] by simp

text \<open>A write to a pipe nobody reads any more is refused; nothing is stored.\<close>

lemma pipe_write_loop_broken:
  "p_readers p = 0 \<Longrightarrow> bs \<noteq> [] \<Longrightarrow>
     pipe_write_loop p n bs = Some (Done (if n \<noteq> 0 then int n else -1), p)"
  by (subst pipe_write_loop.simps) simp

text \<open>
  With a reader, everything that fits is stored, and the call returns exactly when nothing is left;
  otherwise it sleeps with the rest.
\<close>

lemma pipe_write_loop_spec:
  assumes ok: "pipe_ok p" and rd: "0 < p_readers p"
  defines "room \<equiv> PIPE_SIZE - p_count p"
  shows "pipe_write_loop p n bs =
    Some (if length bs \<le> room then Done (int (n + length bs)) else Sleep (n + room, drop room bs),
      fst (pipe_fill p bs))"
proof (cases "bs = []")
  case True
  then show ?thesis by (subst pipe_write_loop.simps) (simp add: room_def)
next
  case ne: False
  show ?thesis
  proof (cases "p_count p = PIPE_SIZE")
    case True
    with ne rd have "fst (pipe_fill p bs) = p" by (cases bs) auto
    with True ne rd show ?thesis by (subst pipe_write_loop.simps) (simp add: room_def)
  next
    case False
    define p' where "p' = fst (pipe_fill p bs)"
    have step: "pipe_write_loop p n bs =
        pipe_write_loop p' (n + (length bs - length (drop room bs))) (drop room bs)"
      using ne rd False pipe_fill_spec(3) [OF ok, of bs]
      by (subst pipe_write_loop.simps) (auto simp: room_def p'_def split: prod.split)
    have ends: "p_readers p' > 0" using rd by (simp add: p'_def)
    show ?thesis
    proof (cases "length bs \<le> room")
      case True
      then show ?thesis
        by (simp add: step) (subst pipe_write_loop.simps, simp add: p'_def)
    next
      case more: False
      then have "p_count p' = PIPE_SIZE"
        using pipe_fill_count [OF ok, of bs] ok by (simp add: room_def p'_def pipe_ok_def)
      with more ends show ?thesis
        by (simp add: step) (subst pipe_write_loop.simps, simp add: p'_def)
    qed
  qed
qed

lemma pipe_write_total: "pipe_ok p \<Longrightarrow> \<exists>res. pipe_write_loop p n bs = Some res"
proof -
  assume ok: "pipe_ok p"
  consider "bs = []" | "bs \<noteq> []" "p_readers p = 0" | "0 < p_readers p"
    using ok by (fastforce simp: pipe_ok_def)
  then show ?thesis
  proof cases
    case 1
    then show ?thesis by (subst pipe_write_loop.simps) simp
  qed (simp_all add: pipe_write_loop_spec [OF ok] pipe_write_loop_broken)
qed

subsection \<open>Runs of a pipe\<close>

text \<open>
  \<open>pipe_trace sent got p\<close>: from a fresh pipe, some interleaving of calls accepted the bytes \<open>sent\<close>
  (counted by what each write reports before it returns or sleeps) and delivered the bytes \<open>got\<close>.
  A write may start or continue a sleeping call (\<open>n\<close> bytes were copied before).
\<close>

definition taken :: "nat \<Rightarrow> (nat \<times> u8 list, int) outcome \<Rightarrow> nat" where
  "taken n out = (case out of Sleep (n', _) \<Rightarrow> n' - n | Done v \<Rightarrow> nat (v - int n))"

inductive pipe_trace :: "u8 list \<Rightarrow> u8 list \<Rightarrow> pipe \<Rightarrow> bool" where
  tr_start: "length raw = PIPE_SIZE \<Longrightarrow> pipe_trace [] [] (pipe_alloc raw)"
| tr_write: "pipe_trace sent got p \<Longrightarrow> pipe_write_loop p n bs = Some (out, p') \<Longrightarrow>
    pipe_trace (sent @ take (taken n out) bs) got p'"
| tr_read: "pipe_trace sent got p \<Longrightarrow> pipe_read p len = (Done cs, wk, p') \<Longrightarrow>
    pipe_trace sent (got @ cs) p'"
| tr_open: "pipe_trace sent got p \<Longrightarrow> 0 \<le> dr \<Longrightarrow> 0 \<le> dw \<Longrightarrow>
    pipe_trace sent got (p\<lparr>p_readers := p_readers p + dr, p_writers := p_writers p + dw\<rparr>)"
| tr_close: "pipe_trace sent got p \<Longrightarrow> (if wr then p_writers p else p_readers p) > 0 \<Longrightarrow>
    pipe_close wr p = Some p' \<Longrightarrow> pipe_trace sent got p'"

inductive_cases pipe_trace_elims: "pipe_trace sent got p"

lemma pipe_alloc_ok: "length raw = PIPE_SIZE \<Longrightarrow> pipe_ok (pipe_alloc raw)"
  by (simp add: pipe_ok_def pipe_alloc_def)

lemma pipe_data_ends [simp]: "pipe_data (p\<lparr>p_readers := a\<rparr>) = pipe_data p"
  "pipe_data (p\<lparr>p_writers := a\<rparr>) = pipe_data p"
  by (simp_all add: pipe_data_def)

lemma pipe_read_spec:
  assumes "pipe_ok p" "pipe_read p len = (Done cs, wk, p')"
  shows "pipe_ok p'" "pipe_data p = cs @ pipe_data p'" "length cs = min len (p_count p)"
    "cs = take len (pipe_data p)"
  using assms pipe_drain_spec [OF assms(1), of len]
  by (auto simp: pipe_read_def split: if_splits prod.splits)

lemma pipe_write_loop_step:
  assumes ok: "pipe_ok p" and w: "pipe_write_loop p n bs = Some (out, p')"
  shows "pipe_ok p'" "pipe_data p' = pipe_data p @ take (taken n out) bs"
proof -
  have "pipe_ok p' \<and> pipe_data p' = pipe_data p @ take (taken n out) bs"
  proof (cases "p_readers p = 0")
    case True
    then show ?thesis using w ok
      by (cases "bs = []")
        (auto simp: pipe_write_loop.simps [of p n "[]"] pipe_write_loop_broken taken_def split: if_splits)
  next
    case False
    with ok have "0 < p_readers p" by (simp add: pipe_ok_def)
    from w [unfolded pipe_write_loop_spec [OF ok this]] show ?thesis
      using pipe_fill_spec(1,2) [OF ok, of bs] by (auto simp: taken_def)
  qed
  then show "pipe_ok p'" "pipe_data p' = pipe_data p @ take (taken n out) bs" by auto
qed

lemma pipe_close_step:
  assumes "pipe_ok p" "(if wr then p_writers p else p_readers p) > 0" "pipe_close wr p = Some p'"
  shows "pipe_ok p'" "pipe_data p' = pipe_data p"
  using assms by (auto simp: pipe_close_def pipe_ok_def Let_def split: if_splits)

lemma pipe_trace_inv: "pipe_trace sent got p \<Longrightarrow> pipe_ok p \<and> sent = got @ pipe_data p"
proof (induction rule: pipe_trace.induct)
  case (tr_start raw)
  from pipe_alloc_ok [OF this] show ?case by (simp add: pipe_alloc_def pipe_data_def)
next
  case (tr_write sent got p n bs out p')
  then show ?case using pipe_write_loop_step [of p n bs out p'] by auto
next
  case (tr_read sent got p len cs wk p')
  then show ?case using pipe_read_spec [of p len cs wk p'] by auto
next
  case (tr_open sent got p dr dw)
  then show ?case by (simp add: pipe_ok_def)
next
  case (tr_close sent got p wr p')
  then show ?case using pipe_close_step by metis
qed

text \<open>
  C4. A pipe loses, repeats and reorders nothing: after any interleaving of writes (also partial
  and resumed ones), reads, dups and closes, the bytes accepted from the writers are exactly the
  bytes delivered to the readers followed by the bytes still buffered, of which there are at most
  \<open>PIPE_SIZE\<close>.
\<close>
theorem pipe_fifo:
  assumes "pipe_trace sent got p"
  shows "sent = got @ pipe_data p \<and> length (pipe_data p) \<le> PIPE_SIZE"
  using pipe_trace_inv [OF assms] by (simp add: pipe_ok_bound)

definition demo_pipe :: pipe where
  "demo_pipe = fst (pipe_fill (pipe_alloc (replicate PIPE_SIZE 0)) [7, 8, 9])"

lemma demo_trace: "pipe_trace [7, 8, 9] [] demo_pipe"
proof -
  let ?p = "pipe_alloc (replicate PIPE_SIZE 0)"
  have ok: "pipe_ok ?p" by (simp add: pipe_alloc_ok)
  have "pipe_write_loop ?p 0 [7, 8, 9] = Some (Done 3, demo_pipe)"
    using pipe_write_loop_spec [OF ok, of 0 "[7, 8, 9]"]
    by (simp add: demo_pipe_def pipe_alloc_def PIPE_SIZE_def)
  from pipe_trace.tr_write [OF pipe_trace.tr_start this] show ?thesis by (simp add: taken_def)
qed

lemma demo_data: "pipe_data demo_pipe = [7, 8, 9]"
  using pipe_trace_inv [OF demo_trace] by simp

theorem pipe_fifo_witness:
  "[7, 8, 9] = [] @ pipe_data demo_pipe \<and> length (pipe_data demo_pipe) \<le> PIPE_SIZE"
  by (rule pipe_fifo [OF demo_trace])

text \<open>
  End of file means the end: when a read of at least one byte returns 0 bytes, every write
  end has been closed and everything ever accepted has already been delivered; and a reader is put
  to sleep only while the pipe is empty and a writer is left.
\<close>
theorem pipe_eof:
  assumes "pipe_trace sent got p" "0 < len"
  shows "(fst (pipe_read p len) = Done [] \<longleftrightarrow> p_writers p = 0 \<and> sent = got) \<and>
    (fst (pipe_read p len) = Sleep () \<longleftrightarrow> p_writers p > 0 \<and> sent = got)"
proof (intro conjI)
  have ok: "pipe_ok p" and s: "sent = got @ pipe_data p"
    using pipe_trace_inv [OF assms(1)] by auto
  have "fst (pipe_drain len p) = take len (pipe_data p)" by (rule pipe_drain_spec(1) [OF ok])
  then have ne: "p_count p \<noteq> 0 \<Longrightarrow> fst (pipe_drain len p) \<noteq> []" using assms(2) by simp
  have w: "p_writers p = 0 \<or> p_writers p > 0" using ok by (auto simp: pipe_ok_def)
  show "fst (pipe_read p len) = Done [] \<longleftrightarrow> p_writers p = 0 \<and> sent = got"
    using ne w by (cases "pipe_drain len p") (auto simp: pipe_read_def s)
  show "fst (pipe_read p len) = Sleep () \<longleftrightarrow> p_writers p > 0 \<and> sent = got"
    using w by (cases "pipe_drain len p") (auto simp: pipe_read_def s)
qed

theorem pipe_eof_witness:
  "(fst (pipe_read demo_pipe 4) = Done [] \<longleftrightarrow> p_writers demo_pipe = 0 \<and> [7, 8, 9::u8] = []) \<and>
   (fst (pipe_read demo_pipe 4) = Sleep () \<longleftrightarrow> p_writers demo_pipe > 0 \<and> [7, 8, 9::u8] = [])"
  using pipe_eof [OF demo_trace, of 4] by simp

text \<open>
  A write with a reader present stores exactly what fits, in order. It returns the number of
  bytes written once none is left, and otherwise sleeps with the ring full and the rest in hand;
  it never returns early. It always comes back, and a pipe with no readers refuses the write with
  -1 (or with the count already written) and is left unchanged.
\<close>
theorem pipe_write_spec:
  assumes "pipe_ok p"
  shows "\<exists>out p'. pipe_write p bs = Some (out, p') \<and> pipe_ok p' \<and>
    (if p_readers p = 0 \<and> bs \<noteq> [] then out = Done (-1) \<and> p' = p
     else if length bs \<le> PIPE_SIZE - p_count p
     then out = Done (int (length bs)) \<and> pipe_data p' = pipe_data p @ bs
     else out = Sleep (PIPE_SIZE - p_count p, drop (PIPE_SIZE - p_count p) bs) \<and>
       pipe_data p' = pipe_data p @ take (PIPE_SIZE - p_count p) bs \<and> p_count p' = PIPE_SIZE)"
proof (cases "p_readers p = 0")
  case True
  with assms show ?thesis
    by (cases "bs = []") (simp_all add: pipe_write_def pipe_write_loop.simps)
next
  case False
  with assms have "0 < p_readers p" by (simp add: pipe_ok_def)
  with assms False show ?thesis
    using pipe_fill_spec(1,2) [OF assms, of bs] pipe_fill_count [OF assms, of bs]
    by (auto simp: pipe_write_def pipe_write_loop_spec pipe_ok_bound)
qed

theorem pipe_write_spec_witness:
  "\<exists>out p'. pipe_write demo_pipe [1] = Some (out, p') \<and> pipe_ok p'"
  using pipe_write_spec [of demo_pipe "[1]"] pipe_trace_inv [OF demo_trace] by blast

text \<open>
  The \<open>poll\<close> predicates of a pipe promise exactly that the call will not sleep: a read end is
  readable iff a read returns at once, a write end is writable iff a one-byte write returns at
  once, and hang-up is reported iff a read would return end of file.
\<close>
theorem pipe_poll_exact:
  assumes "pipe_ok p" "0 < len"
  shows "(pipe_readable False p \<longleftrightarrow> fst (pipe_read p len) \<noteq> Sleep ()) \<and>
    (pipe_writable True p \<longleftrightarrow> (\<exists>v p'. pipe_write p [c] = Some (Done v, p'))) \<and>
    (pipe_hangup False p \<longleftrightarrow> fst (pipe_read p len) = Done [])"
proof (intro conjI)
  have ne: "p_count p \<noteq> 0 \<Longrightarrow> fst (pipe_drain len p) \<noteq> []"
    using pipe_drain_spec(1) [OF assms(1), of len] assms(2) by simp
  show "pipe_readable False p \<longleftrightarrow> fst (pipe_read p len) \<noteq> Sleep ()"
    using assms(1) by (auto simp: pipe_readable_def pipe_read_def pipe_ok_def split: prod.splits)
  show "pipe_hangup False p \<longleftrightarrow> fst (pipe_read p len) = Done []"
    using assms(1) ne by (auto simp: pipe_hangup_def pipe_read_def pipe_ok_def split: prod.splits)
  show "pipe_writable True p \<longleftrightarrow> (\<exists>v p'. pipe_write p [c] = Some (Done v, p'))"
  proof (cases "p_readers p = 0")
    case True
    then show ?thesis
      by (simp add: pipe_writable_def pipe_write_def pipe_write_loop_broken)
  next
    case False
    with assms(1) have "0 < p_readers p" by (simp add: pipe_ok_def)
    with assms(1) False show ?thesis
      using pipe_ok_bound [OF assms(1)]
      by (auto simp: pipe_writable_def pipe_write_def pipe_write_loop_spec)
  qed
qed

theorem pipe_poll_exact_witness:
  "pipe_readable False demo_pipe \<longleftrightarrow> fst (pipe_read demo_pipe 1) \<noteq> Sleep ()"
  using pipe_poll_exact [of demo_pipe 1] pipe_trace_inv [OF demo_trace] by simp

end
