(* ===== verification/Pty.thy ===== *)
theory Pty
  imports Prelude
begin

text \<open>
  The pseudo-terminal of \<open>src/pty.c\<close> and \<open>src/pty.h\<close>: two byte rings, the edit buffer of the
  current line and the line discipline on the way from the master to the slave. \<open>pty_ok\<close> is the
  invariant of the rings and of the edit buffer. The lemmas give the discipline on byte lists
  (\<open>ld_step\<close>) and show that the code implements it, what a reader gets, and that a sleeping reader
  is woken whenever its ring gets a byte.
\<close>

subsection \<open>State\<close>

definition PTY_BUF :: nat where "PTY_BUF = 4096"
definition PTY_LINE :: nat where "PTY_LINE = 256"

definition T_ISIG :: u32 where "T_ISIG = 0x0001"
definition T_ICANON :: u32 where "T_ICANON = 0x0002"
definition T_ECHO :: u32 where "T_ECHO = 0x0008"
definition I_ICRNL :: u32 where "I_ICRNL = 0x0100"
definition O_OPOST :: u32 where "O_OPOST = 0x0001"
definition O_ONLCR :: u32 where "O_ONLCR = 0x0004"

definition VINTR :: nat where "VINTR = 0"
definition VQUIT :: nat where "VQUIT = 1"
definition VERASE :: nat where "VERASE = 2"
definition VEOF :: nat where "VEOF = 4"
definition VSUSP :: nat where "VSUSP = 10"

record pty_termios =
  c_iflag :: u32
  c_oflag :: u32
  c_cflag :: u32
  c_lflag :: u32
  c_line :: u8
  c_cc :: "u8 list"
  c_ispeed :: u32
  c_ospeed :: u32

record pty_winsize =
  ws_row :: u16
  ws_col :: u16
  ws_xpix :: u16
  ws_ypix :: u16

text \<open>One direction: the fields \<open>buf, r, w, count\<close> that the ring helpers take.\<close>

record pty_ring =
  r_buf :: "u8 list"
  r_r :: nat
  r_w :: nat
  r_count :: nat

record pty =
  t_out :: pty_ring
  t_in :: pty_ring
  t_line :: "u8 list"
  t_line_len :: nat
  t_tio :: pty_termios
  t_ws :: pty_winsize
  t_fg_pgrp :: int
  t_master_open :: bool
  t_slave_open :: bool

text \<open>The calls into the scheduler: a wake of the input or output sleepers, a signal to a group.\<close>

datatype pty_event = WakeIn | WakeOut | Kill int nat

definition SIGINT :: nat where "SIGINT = 2"

definition NL :: u8 where "NL = 10"
definition CR :: u8 where "CR = 13"
definition BS :: u8 where "BS = 8"
definition SPC :: u8 where "SPC = 32"

subsection \<open>Operations\<close>

definition ring_push :: "pty_ring \<Rightarrow> u8 \<Rightarrow> pty_ring" where
  "ring_push q c = (if r_count q = PTY_BUF then q
     else q\<lparr>r_buf := (r_buf q)[r_w q := c], r_w := (r_w q + 1) mod PTY_BUF, r_count := r_count q + 1\<rparr>)"

definition ring_pop :: "pty_ring \<Rightarrow> (u8 \<times> pty_ring) option" where
  "ring_pop q = (if r_count q = 0 then None
     else Some (r_buf q ! r_r q, q\<lparr>r_r := (r_r q + 1) mod PTY_BUF, r_count := r_count q - 1\<rparr>))"

text \<open>\<open>kmalloc\<close> does not clear the three buffers: their first contents are parameters.\<close>

definition pty_alloc :: "u8 list \<Rightarrow> u8 list \<Rightarrow> u8 list \<Rightarrow> pty" where
  "pty_alloc rawo rawi rawl =
     \<lparr>t_out = \<lparr>r_buf = rawo, r_r = 0, r_w = 0, r_count = 0\<rparr>,
      t_in = \<lparr>r_buf = rawi, r_r = 0, r_w = 0, r_count = 0\<rparr>,
      t_line = rawl, t_line_len = 0,
      t_tio = \<lparr>c_iflag = I_ICRNL, c_oflag = O_OPOST OR O_ONLCR, c_cflag = 0,
        c_lflag = T_ISIG OR T_ICANON OR T_ECHO, c_line = 0,
        c_cc = ((((replicate 19 0)[VINTR := 3])[VQUIT := 28])[VERASE := 127])[VEOF := 4, VSUSP := 26],
        c_ispeed = 0, c_ospeed = 0\<rparr>,
      t_ws = \<lparr>ws_row = 0, ws_col = 0, ws_xpix = 0, ws_ypix = 0\<rparr>,
      t_fg_pgrp = 0, t_master_open = True, t_slave_open = True\<rparr>"

definition echo :: "pty \<Rightarrow> u8 \<Rightarrow> pty \<times> pty_event list" where
  "echo p c =
     (if c = NL then (p\<lparr>t_out := ring_push (ring_push (t_out p) CR) NL\<rparr>, [WakeOut])
      else (p\<lparr>t_out := ring_push (t_out p) c\<rparr>, [WakeOut]))"

definition commit_line :: "pty \<Rightarrow> pty \<times> pty_event list" where
  "commit_line p =
     (p\<lparr>t_in := foldl ring_push (t_in p) (take (t_line_len p) (t_line p)), t_line_len := 0\<rparr>, [WakeIn])"

definition echo_if :: "bool \<Rightarrow> u8 list \<Rightarrow> pty \<Rightarrow> pty \<times> pty_event list" where
  "echo_if b cs p = (if b then foldl (\<lambda>(p, ev) c. case echo p c of (p', ev') \<Rightarrow> (p', ev @ ev')) (p, []) cs else (p, []))"

definition tio_on :: "u32 \<Rightarrow> u32 \<Rightarrow> bool" where "tio_on w f \<longleftrightarrow> w AND f \<noteq> 0"

text \<open>The body of the loop of \<open>pty_master_write\<close>; every \<open>continue\<close> is a result.\<close>

definition master_byte :: "pty \<Rightarrow> u8 \<Rightarrow> pty \<times> pty_event list" where
  "master_byte p c0 =
     (let lflag = c_lflag (t_tio p); iflag = c_iflag (t_tio p); cc = c_cc (t_tio p);
          c = (if c0 = CR \<and> tio_on iflag I_ICRNL then NL else c0) in
      if tio_on lflag T_ISIG \<and> c = cc ! VINTR then
        (p, if t_fg_pgrp p > 0 then [Kill (- t_fg_pgrp p) SIGINT] else [])
      else if tio_on lflag T_ICANON then
        if c = cc ! VERASE \<or> c = BS then
          if t_line_len p > 0
          then echo_if (tio_on lflag T_ECHO) [BS, SPC, BS] (p\<lparr>t_line_len := t_line_len p - 1\<rparr>)
          else (p, [])
        else if c = cc ! VEOF then commit_line p
        else if c = NL then
          let p = (if t_line_len p < PTY_LINE
                   then p\<lparr>t_line := (t_line p)[t_line_len p := NL], t_line_len := t_line_len p + 1\<rparr> else p)
          in case echo_if (tio_on lflag T_ECHO) [NL] p of (p, ev) \<Rightarrow>
             case commit_line p of (p, ev') \<Rightarrow> (p, ev @ ev')
        else if t_line_len p < PTY_LINE - 1 then
          echo_if (tio_on lflag T_ECHO) [c] (p\<lparr>t_line := (t_line p)[t_line_len p := c], t_line_len := t_line_len p + 1\<rparr>)
        else (p, [])
      else
        case echo_if (tio_on lflag T_ECHO) [c] (p\<lparr>t_in := ring_push (t_in p) c\<rparr>) of (p, ev) \<Rightarrow> (p, ev @ [WakeIn]))"

fun master_bytes :: "pty \<Rightarrow> u8 list \<Rightarrow> pty \<times> pty_event list" where
  "master_bytes p [] = (p, [])"
| "master_bytes p (c # cs) =
     (case master_byte p c of (p, ev) \<Rightarrow> case master_bytes p cs of (p, ev') \<Rightarrow> (p, ev @ ev'))"

definition pty_master_write :: "pty \<Rightarrow> u8 list \<Rightarrow> nat \<times> pty \<times> pty_event list" where
  "pty_master_write p bs = (case master_bytes p bs of (p, ev) \<Rightarrow> (length bs, p, ev))"

fun ring_drain :: "nat \<Rightarrow> pty_ring \<Rightarrow> u8 list \<times> pty_ring" where
  "ring_drain 0 q = ([], q)"
| "ring_drain (Suc n) q =
     (case ring_pop q of None \<Rightarrow> ([], q)
      | Some (c, q) \<Rightarrow> (case ring_drain n q of (cs, q) \<Rightarrow> (c # cs, q)))"

definition pty_slave_read :: "pty \<Rightarrow> nat \<Rightarrow> (unit, u8 list) outcome \<times> pty" where
  "pty_slave_read p len =
     (if r_count (t_in p) = 0 \<and> t_master_open p then (Sleep (), p)
      else case ring_drain len (t_in p) of (cs, q) \<Rightarrow> (Done cs, p\<lparr>t_in := q\<rparr>))"

fun slave_bytes :: "bool \<Rightarrow> pty_ring \<Rightarrow> u8 list \<Rightarrow> pty_ring" where
  "slave_bytes post q [] = q"
| "slave_bytes post q (c # cs) =
     slave_bytes post (ring_push (if c = NL \<and> post then ring_push q CR else q) c) cs"

definition pty_slave_write :: "pty \<Rightarrow> u8 list \<Rightarrow> nat \<times> pty \<times> pty_event list" where
  "pty_slave_write p bs =
     (let post = tio_on (c_oflag (t_tio p)) O_OPOST \<and> tio_on (c_oflag (t_tio p)) O_ONLCR
      in (length bs, p\<lparr>t_out := slave_bytes post (t_out p) bs\<rparr>, [WakeOut]))"

definition pty_master_read :: "pty \<Rightarrow> nat \<Rightarrow> (unit, u8 list) outcome \<times> pty" where
  "pty_master_read p len =
     (if r_count (t_out p) = 0 \<and> t_slave_open p then (Sleep (), p)
      else case ring_drain len (t_out p) of (cs, q) \<Rightarrow> (Done cs, p\<lparr>t_out := q\<rparr>))"

definition pty_master_readable :: "pty \<Rightarrow> bool" where
  "pty_master_readable p \<longleftrightarrow> r_count (t_out p) > 0 \<or> \<not> t_slave_open p"

definition pty_slave_readable :: "pty \<Rightarrow> bool" where
  "pty_slave_readable p \<longleftrightarrow> r_count (t_in p) > 0 \<or> \<not> t_master_open p"

text \<open>\<open>None\<close>: both ends are closed and the pty is freed.\<close>

definition pty_close :: "bool \<Rightarrow> pty \<Rightarrow> pty option \<times> pty_event list" where
  "pty_close is_master p =
     (case (if is_master then (p\<lparr>t_master_open := False\<rparr>, [WakeIn]) else (p\<lparr>t_slave_open := False\<rparr>, [WakeOut])) of
        (p, ev) \<Rightarrow> (if \<not> t_master_open p \<and> \<not> t_slave_open p then None else Some p, ev))"

subsection \<open>The rings are bounded queues\<close>

definition ring_ok :: "pty_ring \<Rightarrow> bool" where
  "ring_ok q \<longleftrightarrow> length (r_buf q) = PTY_BUF \<and> r_r q < PTY_BUF \<and> r_count q \<le> PTY_BUF \<and>
     r_w q = (r_r q + r_count q) mod PTY_BUF"

definition ring_bytes :: "pty_ring \<Rightarrow> u8 list" where
  "ring_bytes q = ring_contents (r_buf q) (r_r q) (r_count q)"

lemma PTY_BUF_pos [simp]: "0 < PTY_BUF" by (simp add: PTY_BUF_def)

lemma length_ring_bytes [simp]: "length (ring_bytes q) = r_count q" by (simp add: ring_bytes_def)

lemma ring_bytes_Nil [simp]: "ring_bytes q = [] \<longleftrightarrow> r_count q = 0" by (simp add: ring_bytes_def)

lemma pring_push_ok: "ring_ok q \<Longrightarrow> ring_ok (ring_push q c)"
  by (auto simp: ring_ok_def ring_push_def mod_Suc_eq)

lemma pring_push_room: "ring_ok q \<Longrightarrow> r_count q < PTY_BUF \<Longrightarrow> ring_bytes (ring_push q c) = ring_bytes q @ [c]"
  by (simp add: ring_ok_def ring_push_def ring_bytes_def ring_contents_push)

lemma pring_pop_ok:
  assumes "ring_ok q" "ring_bytes q = x # xs"
  shows "\<exists>q'. ring_pop q = Some (x, q') \<and> ring_ok q' \<and> ring_bytes q' = xs"
proof -
  have n: "r_count q = Suc (length xs)" using assms(2) length_ring_bytes [of q] by simp
  have "x # xs = r_buf q ! r_r q # ring_contents (r_buf q) (Suc (r_r q) mod PTY_BUF) (length xs)"
    using assms n ring_contents_pop [of "r_r q" "r_buf q" "length xs"] by (simp add: ring_bytes_def ring_ok_def)
  with assms(1) n show ?thesis
    by (auto simp: ring_pop_def ring_ok_def ring_bytes_def mod_simps)
qed

interpretation rf: bounded_fifo ring_push ring_pop ring_bytes ring_ok PTY_BUF
  by unfold_locales (simp_all add: pring_push_ok pring_push_room pring_pop_ok, simp_all add: ring_push_def ring_pop_def ring_ok_def)

lemma ring_drain_pops: "ring_drain n q = rf.pops n q"
  by (induction n arbitrary: q) (simp_all split: option.split)

lemma foldl_pushes: "foldl ring_push q bs = rf.pushes q bs"
  by (induction bs arbitrary: q) simp_all

subsection \<open>The line discipline on byte lists\<close>

text \<open>What a byte means under the current settings.\<close>

datatype key = Intr | Erase | Eof | Newline | Plain u8 | Raw u8

definition key_of :: "pty_termios \<Rightarrow> u8 \<Rightarrow> key" where
  "key_of tio c0 =
     (let c = (if c0 = CR \<and> tio_on (c_iflag tio) I_ICRNL then NL else c0) in
      if tio_on (c_lflag tio) T_ISIG \<and> c = c_cc tio ! VINTR then Intr
      else if \<not> tio_on (c_lflag tio) T_ICANON then Raw c
      else if c = c_cc tio ! VERASE \<or> c = BS then Erase
      else if c = c_cc tio ! VEOF then Eof
      else if c = NL then Newline
      else Plain c)"

text \<open>The edited line, what is delivered to the slave, and what is shown, for one key.\<close>

fun ld_line :: "u8 list \<Rightarrow> key \<Rightarrow> u8 list" where
  "ld_line l Erase = butlast l"
| "ld_line l Eof = []"
| "ld_line l Newline = []"
| "ld_line l (Plain c) = (if length l < PTY_LINE - 1 then l @ [c] else l)"
| "ld_line l _ = l"

fun ld_commit :: "u8 list \<Rightarrow> key \<Rightarrow> u8 list" where
  "ld_commit l Eof = l"
| "ld_commit l Newline = l @ [NL]"
| "ld_commit l (Raw c) = [c]"
| "ld_commit l _ = []"

fun ld_show :: "u8 list \<Rightarrow> key \<Rightarrow> u8 list" where
  "ld_show l Erase = (if l = [] then [] else [BS, SPC, BS])"
| "ld_show l Newline = [CR, NL]"
| "ld_show l (Plain c) = (if length l < PTY_LINE - 1 then [c] else [])"
| "ld_show l (Raw c) = (if c = NL then [CR, NL] else [c])"
| "ld_show l _ = []"

fun ld_run :: "pty_termios \<Rightarrow> u8 list \<Rightarrow> u8 list \<Rightarrow> u8 list \<times> u8 list \<times> u8 list" where
  "ld_run tio l [] = (l, [], [])"
| "ld_run tio l (c # cs) =
     (let k = key_of tio c in
      case ld_run tio (ld_line l k) cs of (l', cm, sh) \<Rightarrow>
        (l', ld_commit l k @ cm, (if tio_on (c_lflag tio) T_ECHO then ld_show l k else []) @ sh))"

definition pty_line :: "pty \<Rightarrow> u8 list" where
  "pty_line p = take (t_line_len p) (t_line p)"

definition pty_ok :: "pty \<Rightarrow> bool" where
  "pty_ok p \<longleftrightarrow> ring_ok (t_out p) \<and> ring_ok (t_in p) \<and> length (t_line p) = PTY_LINE \<and> t_line_len p < PTY_LINE"

text \<open>The rest of the pty, which typing does not change.\<close>

definition pty_frame :: "pty \<Rightarrow> pty \<Rightarrow> bool" where
  "pty_frame p p' \<longleftrightarrow> t_tio p' = t_tio p \<and> t_ws p' = t_ws p \<and> t_fg_pgrp p' = t_fg_pgrp p \<and>
     t_master_open p' = t_master_open p \<and> t_slave_open p' = t_slave_open p"

lemma echo_pushes: "fst (echo p c) = p\<lparr>t_out := rf.pushes (t_out p) (if c = NL then [CR, NL] else [c])\<rparr>"
  by (simp add: echo_def)

lemma echo_if_pushes:
  "fst (echo_if b cs p) = p\<lparr>t_out := rf.pushes (t_out p)
     (if b then concat (map (\<lambda>c. if c = NL then [CR, NL] else [c]) cs) else [])\<rparr>"
proof -
  have "fst (foldl (\<lambda>(p, ev) c. case echo p c of (p', ev') \<Rightarrow> (p', ev @ ev')) (p, ev) cs) =
      p\<lparr>t_out := rf.pushes (t_out p) (concat (map (\<lambda>c. if c = NL then [CR, NL] else [c]) cs))\<rparr>" for ev
  proof (induction cs arbitrary: p ev)
    case (Cons c cs)
    obtain p' ev' where e: "echo p c = (p', ev')" by force
    with echo_pushes [of p c] show ?case by (simp add: Cons rf.pushes_append)
  qed simp
  then show ?thesis by (simp add: echo_if_def)
qed

lemma line_snoc: "t_line_len p < length (t_line p) \<Longrightarrow>
    take (Suc (t_line_len p)) ((t_line p)[t_line_len p := c]) = pty_line p @ [c]"
  by (simp add: pty_line_def take_Suc_conv_app_nth)

lemma line_pop: "t_line_len p \<le> length (t_line p) \<Longrightarrow> take (t_line_len p - 1) (t_line p) = butlast (pty_line p)"
  by (simp add: pty_line_def butlast_take)

lemma case_key_if:
  "(case (if a then Intr else if \<not> b then Raw c else if e then Erase else if f then Eof
      else if g then Newline else Plain c) of
      Intr \<Rightarrow> x1 | Erase \<Rightarrow> x2 | Eof \<Rightarrow> x3 | Newline \<Rightarrow> x4 | Plain d \<Rightarrow> x5 d | Raw d \<Rightarrow> x6 d) =
   (if a then x1 else if b then if e then x2 else if f then x3 else if g then x4 else x5 c else x6 c)"
  by simp

lemma master_byte_key:
  "master_byte p c = (let e = tio_on (c_lflag (t_tio p)) T_ECHO in case key_of (t_tio p) c of
     Intr \<Rightarrow> (p, if t_fg_pgrp p > 0 then [Kill (- t_fg_pgrp p) SIGINT] else [])
   | Erase \<Rightarrow> (if t_line_len p > 0 then echo_if e [BS, SPC, BS] (p\<lparr>t_line_len := t_line_len p - 1\<rparr>) else (p, []))
   | Eof \<Rightarrow> commit_line p
   | Newline \<Rightarrow> (let p = (if t_line_len p < PTY_LINE
         then p\<lparr>t_line := (t_line p)[t_line_len p := NL], t_line_len := t_line_len p + 1\<rparr> else p)
       in case echo_if e [NL] p of (p, ev) \<Rightarrow> case commit_line p of (p, ev') \<Rightarrow> (p, ev @ ev'))
   | Plain d \<Rightarrow> (if t_line_len p < PTY_LINE - 1 then
       echo_if e [d] (p\<lparr>t_line := (t_line p)[t_line_len p := d], t_line_len := t_line_len p + 1\<rparr>) else (p, []))
   | Raw d \<Rightarrow> (case echo_if e [d] (p\<lparr>t_in := ring_push (t_in p) d\<rparr>) of (p, ev) \<Rightarrow> (p, ev @ [WakeIn])))"
  unfolding master_byte_def key_of_def Let_def case_key_if by (rule refl)

lemma key_plain: "key_of tio c = Plain d \<Longrightarrow> d \<noteq> NL"
  by (auto simp: key_of_def Let_def split: if_splits)

lemma fst_case_ev: "fst (case x of (p, ev) \<Rightarrow> (f p, g p ev)) = f (fst x)"
  by (simp add: split_beta)

lemma commit_line_fst: "fst (commit_line p) = p\<lparr>t_in := rf.pushes (t_in p) (pty_line p), t_line_len := 0\<rparr>"
  by (simp add: commit_line_def foldl_pushes pty_line_def)

lemma master_byte_spec:
  fixes p :: pty and c :: u8
  assumes ok: "pty_ok p"
  defines "k \<equiv> key_of (t_tio p) c"
  shows "pty_line (fst (master_byte p c)) = ld_line (pty_line p) k \<and>
    t_in (fst (master_byte p c)) = rf.pushes (t_in p) (ld_commit (pty_line p) k) \<and>
    t_out (fst (master_byte p c)) = rf.pushes (t_out p)
      (if tio_on (c_lflag (t_tio p)) T_ECHO then ld_show (pty_line p) k else []) \<and>
    pty_frame p (fst (master_byte p c)) \<and>
    length (t_line (fst (master_byte p c))) = PTY_LINE \<and> t_line_len (fst (master_byte p c)) < PTY_LINE"
proof -
  define e where "e = tio_on (c_lflag (t_tio p)) T_ECHO"
  have len: "length (t_line p) = PTY_LINE" "t_line_len p < PTY_LINE" "length (pty_line p) = t_line_len p"
    using ok by (simp_all add: pty_ok_def pty_line_def)
  have snoc: "take (Suc (t_line_len p)) ((t_line p)[t_line_len p := d]) = pty_line p @ [d]" for d
    using line_snoc [of p] len by simp
  have pop: "take (t_line_len p - 1) (t_line p) = butlast (pty_line p)" using line_pop [of p] len by simp
  have nil: "pty_line p = [] \<longleftrightarrow> t_line_len p = 0" using len(3) by auto
  have nl: "NL \<noteq> BS" "BS \<noteq> NL" "SPC \<noteq> NL" by (simp_all add: NL_def BS_def SPC_def)
  note eq = master_byte_key [of p c, folded k_def e_def, unfolded Let_def]
  show ?thesis
  proof (cases k)
    case Intr
    then show ?thesis using len by (simp add: eq pty_frame_def)
  next
    case Erase
    then show ?thesis using len nl nil pop
      by (auto simp: eq pty_frame_def echo_if_pushes e_def) (simp_all add: pty_line_def)
  next
    case Eof
    then show ?thesis using len by (simp add: eq pty_frame_def commit_line_fst) (simp add: pty_line_def)
  next
    case Newline
    let ?q = "p\<lparr>t_line := (t_line p)[t_line_len p := NL], t_line_len := t_line_len p + 1\<rparr>"
    have "fst (master_byte p c) = fst (commit_line (fst (echo_if e [NL] ?q)))"
      using Newline len by (simp add: eq split_beta)
    then show ?thesis using Newline len snoc
      by (simp add: commit_line_fst echo_if_pushes pty_frame_def e_def) (simp add: pty_line_def)
  next
    case (Plain d)
    have "d \<noteq> NL" using key_plain Plain k_def by metis
    with Plain len snoc show ?thesis
      by (auto simp: eq echo_if_pushes pty_frame_def e_def) (simp_all add: pty_line_def)
  next
    case (Raw d)
    have "fst (master_byte p c) = fst (echo_if e [d] (p\<lparr>t_in := ring_push (t_in p) d\<rparr>))"
      using Raw by (simp add: eq split_beta)
    then show ?thesis using Raw len
      by (simp add: echo_if_pushes pty_frame_def e_def) (simp add: pty_line_def)
  qed
qed

lemma master_byte_ok: "pty_ok p \<Longrightarrow> pty_ok (fst (master_byte p c))"
  using master_byte_spec [of p c] by (auto simp: pty_ok_def rf.pushes_inv)

lemma master_bytes_spec:
  "pty_ok p \<Longrightarrow> ld_run (t_tio p) (pty_line p) bs = (l, cm, sh) \<Longrightarrow>
     pty_ok (fst (master_bytes p bs)) \<and> pty_line (fst (master_bytes p bs)) = l \<and>
     t_in (fst (master_bytes p bs)) = rf.pushes (t_in p) cm \<and>
     t_out (fst (master_bytes p bs)) = rf.pushes (t_out p) sh \<and> pty_frame p (fst (master_bytes p bs))"
proof (induction bs arbitrary: p l cm sh)
  case Nil
  then show ?case by (simp add: pty_frame_def)
next
  case (Cons c cs)
  obtain q ev where q: "master_byte p c = (q, ev)" by force
  let ?k = "key_of (t_tio p) c"
  note b = master_byte_spec [OF Cons.prems(1), of c, unfolded q fst_conv]
  have tio: "t_tio q = t_tio p" using b by (simp add: pty_frame_def)
  obtain l' cm' sh' where r: "ld_run (t_tio q) (pty_line q) cs = (l', cm', sh')" by (metis prod_cases3)
  have eqs: "l = l'" "cm = ld_commit (pty_line p) ?k @ cm'"
    "sh = (if tio_on (c_lflag (t_tio p)) T_ECHO then ld_show (pty_line p) ?k else []) @ sh'"
    using Cons.prems(2) r b by (auto simp: Let_def tio)
  have okq: "pty_ok q" using master_byte_ok [OF Cons.prems(1), of c] q by simp
  have fst: "fst (master_bytes p (c # cs)) = fst (master_bytes q cs)"
    by (simp add: q split_beta)
  show ?case using Cons.IH [OF okq r] b unfolding fst eqs
    by (auto simp: rf.pushes_append pty_frame_def)
qed

lemma ring_pushes_bytes: "ring_ok q \<Longrightarrow> ring_bytes (rf.pushes q bs) = ring_bytes q @ take (PTY_BUF - r_count q) bs"
  using rf.pushes_contents [of q bs] by simp


lemma pty_alloc_ok: "length rawo = PTY_BUF \<Longrightarrow> length rawi = PTY_BUF \<Longrightarrow> length rawl = PTY_LINE \<Longrightarrow>
    pty_ok (pty_alloc rawo rawi rawl)"
  by (simp add: pty_ok_def ring_ok_def pty_alloc_def PTY_LINE_def)

definition demo_pty :: pty where
  "demo_pty = pty_alloc (replicate PTY_BUF 0) (replicate PTY_BUF 0) (replicate PTY_LINE 0)"

lemma demo_pty_keys:
  "key_of (t_tio demo_pty) 108 = Plain 108" "key_of (t_tio demo_pty) 120 = Plain 120"
    "key_of (t_tio demo_pty) 127 = Erase" "key_of (t_tio demo_pty) 115 = Plain 115" "key_of (t_tio demo_pty) 13 = Newline"
proof -
  have tio: "t_tio demo_pty = \<lparr>c_iflag = 0x100, c_oflag = 5, c_cflag = 0, c_lflag = 11, c_line = 0,
      c_cc = [3, 28, 127, 0, 4, 0, 0, 0, 0, 0, 26, 0, 0, 0, 0, 0, 0, 0, 0], c_ispeed = 0, c_ospeed = 0\<rparr>"
    by (simp add: demo_pty_def pty_alloc_def numeral_eq_Suc I_ICRNL_def O_OPOST_def O_ONLCR_def T_ISIG_def T_ICANON_def
        T_ECHO_def VINTR_def VQUIT_def VERASE_def VEOF_def VSUSP_def)
  show "key_of (t_tio demo_pty) 108 = Plain 108" "key_of (t_tio demo_pty) 120 = Plain 120"
    "key_of (t_tio demo_pty) 127 = Erase" "key_of (t_tio demo_pty) 115 = Plain 115" "key_of (t_tio demo_pty) 13 = Newline"
    by (simp_all add: tio key_of_def tio_on_def I_ICRNL_def T_ISIG_def T_ICANON_def CR_def NL_def BS_def
        VINTR_def VERASE_def VEOF_def)
qed


subsection \<open>Readers\<close>

lemma ring_drain_spec:
  "ring_ok q \<Longrightarrow> fst (ring_drain n q) = take n (ring_bytes q) \<and>
     ring_bytes (snd (ring_drain n q)) = drop n (ring_bytes q) \<and> ring_ok (snd (ring_drain n q))"
  using rf.pops_spec [of q n] by (simp add: ring_drain_pops)

lemma pushes_count: "r_count q \<le> r_count (rf.pushes q bs)"
proof (induction bs arbitrary: q)
  case (Cons b bs)
  have "r_count q \<le> r_count (ring_push q b)" by (simp add: ring_push_def)
  with Cons [of "ring_push q b"] show ?case by simp
qed simp

lemma pushes_Nil_count: "r_count (rf.pushes q bs) \<noteq> r_count q \<Longrightarrow> bs \<noteq> []" by auto

lemma echo_if_wake: "snd (echo_if b cs p) = (if b then replicate (length cs) WakeOut else [])"
proof -
  have "snd (foldl (\<lambda>(p, ev) c. case echo p c of (p', ev') \<Rightarrow> (p', ev @ ev')) (p, ev) cs) = ev @ replicate (length cs) WakeOut" for ev
  proof (induction cs arbitrary: p ev)
    case (Cons c cs)
    have "snd (echo p c) = [WakeOut]" by (simp add: echo_def)
    then obtain p' where "echo p c = (p', [WakeOut])" by (metis prod.collapse)
    then show ?case by (simp add: Cons)
  qed simp
  then show ?thesis by (simp add: echo_if_def)
qed

lemma master_byte_wake:
  "(ld_commit (pty_line p) (key_of (t_tio p) c) \<noteq> [] \<longrightarrow> WakeIn \<in> set (snd (master_byte p c))) \<and>
   (pty_ok p \<longrightarrow> tio_on (c_lflag (t_tio p)) T_ECHO \<longrightarrow> ld_show (pty_line p) (key_of (t_tio p) c) \<noteq> [] \<longrightarrow>
      WakeOut \<in> set (snd (master_byte p c)))"
proof -
  have nil: "pty_ok p \<Longrightarrow> pty_line p \<noteq> [] \<longleftrightarrow> t_line_len p \<noteq> 0" by (auto simp: pty_ok_def pty_line_def)
  have len: "pty_ok p \<Longrightarrow> length (pty_line p) = t_line_len p" by (simp add: pty_ok_def pty_line_def)
  show ?thesis
    unfolding master_byte_key Let_def using nil len
    by (cases "key_of (t_tio p) c")
      (auto simp: split_beta echo_if_wake commit_line_def split: if_splits)
qed

text \<open>
  C35. No sleeper is left behind: if the slave (the master) would have slept before the typing and
  would not sleep after it, the typing woke the sleepers of the input (output) ring; and what a read
  that does not sleep returns is the oldest bytes of the ring, in order, leaving the rest.
\<close>
theorem pty_no_lost_wakeup:
  assumes "pty_ok p" "pty_master_write p bs = (n, p', ev)"
  shows "(pty_slave_read p k = (Sleep (), p) \<longrightarrow> fst (pty_slave_read p' k) \<noteq> Sleep () \<longrightarrow> WakeIn \<in> set ev) \<and>
    (pty_master_read p k = (Sleep (), p) \<longrightarrow> fst (pty_master_read p' k) \<noteq> Sleep () \<longrightarrow> WakeOut \<in> set ev) \<and>
    (pty_slave_readable p' \<longrightarrow> fst (pty_slave_read p' k) = Done (take k (ring_bytes (t_in p'))) \<and>
       ring_bytes (t_in (snd (pty_slave_read p' k))) = drop k (ring_bytes (t_in p')))"
proof -
  have run: "(r_count (t_in p) \<noteq> r_count (t_in (fst (master_bytes p bs))) \<longrightarrow> WakeIn \<in> set (snd (master_bytes p bs))) \<and>
      (r_count (t_out p) \<noteq> r_count (t_out (fst (master_bytes p bs))) \<longrightarrow> WakeOut \<in> set (snd (master_bytes p bs)))"
    using assms(1)
  proof (induction bs arbitrary: p)
    case (Cons c cs)
    obtain q ev where q: "master_byte p c = (q, ev)" by force
    obtain r ev' where r: "master_bytes q cs = (r, ev')" by force
    have okq: "pty_ok q" using master_byte_ok [OF Cons.prems, of c] q by simp
    note b = master_byte_spec [OF Cons.prems, of c, unfolded q fst_conv]
    have "r_count (t_in q) \<noteq> r_count (t_in p) \<Longrightarrow> WakeIn \<in> set ev"
      using b master_byte_wake [of p c] pushes_Nil_count [of "t_in p"] by (metis q snd_conv)
    moreover have "r_count (t_out q) \<noteq> r_count (t_out p) \<Longrightarrow> WakeOut \<in> set ev"
      using b master_byte_wake [of p c] pushes_Nil_count [of "t_out p"] Cons.prems by (metis q snd_conv)
    ultimately show ?case using Cons.IH [OF okq] by (auto simp: q r)
  qed simp
  have p': "p' = fst (master_bytes p bs)" "ev = snd (master_bytes p bs)"
    using assms(2) by (auto simp: pty_master_write_def split: prod.splits)
  obtain l cm sh where "ld_run (t_tio p) (pty_line p) bs = (l, cm, sh)" by (metis prod_cases3)
  from master_bytes_spec [OF assms(1) this] have ok: "pty_ok p'" and fr: "pty_frame p p'" by (simp_all add: p')
  have rd: "ring_ok (t_in p')" using ok by (simp add: pty_ok_def)
  have fr': "t_master_open p' = t_master_open p" "t_slave_open p' = t_slave_open p" using fr by (simp_all add: pty_frame_def)
  have run': "r_count (t_in p) \<noteq> r_count (t_in p') \<longrightarrow> WakeIn \<in> set ev"
    "r_count (t_out p) \<noteq> r_count (t_out p') \<longrightarrow> WakeOut \<in> set ev" using run by (simp_all add: p')
  have "pty_slave_read p k = (Sleep (), p) \<longrightarrow> fst (pty_slave_read p' k) \<noteq> Sleep () \<longrightarrow> WakeIn \<in> set ev"
    using run'(1) fr' by (auto simp: pty_slave_read_def split: prod.splits if_splits)
  moreover have "pty_master_read p k = (Sleep (), p) \<longrightarrow> fst (pty_master_read p' k) \<noteq> Sleep () \<longrightarrow> WakeOut \<in> set ev"
    using run'(2) fr' by (auto simp: pty_master_read_def split: prod.splits if_splits)
  moreover have "pty_slave_readable p' \<longrightarrow> fst (pty_slave_read p' k) = Done (take k (ring_bytes (t_in p'))) \<and>
       ring_bytes (t_in (snd (pty_slave_read p' k))) = drop k (ring_bytes (t_in p'))"
    using ring_drain_spec [OF rd, of k] by (auto simp: pty_slave_read_def pty_slave_readable_def split: prod.splits)
  ultimately show ?thesis by blast
qed

text \<open>A full output ring: a write of the program reports every byte written and keeps none.\<close>

lemma pty_output_dropped:
  assumes "r_count (t_out p) = PTY_BUF"
  shows "pty_slave_write p bs = (length bs, p, [WakeOut])"
proof -
  have "slave_bytes post (t_out p) bs = t_out p" for post
    using assms by (induction bs) (auto simp: ring_push_def)
  then show ?thesis by (simp add: pty_slave_write_def Let_def)
qed

theorem pty_no_lost_wakeup_witness:
  "fst (pty_slave_read (fst (snd (pty_master_write demo_pty [13]))) 80) = Done [NL]"
proof -
  have ok: "pty_ok demo_pty" unfolding demo_pty_def by (rule pty_alloc_ok) simp_all
  have "pty_line demo_pty = []" by (simp add: demo_pty_def pty_alloc_def pty_line_def)
  then obtain sh where run: "ld_run (t_tio demo_pty) (pty_line demo_pty) [13] = ([], [NL], sh)"
    by (simp add: demo_pty_keys Let_def)
  obtain n p' ev where w: "pty_master_write demo_pty [13] = (n, p', ev)" by (metis prod_cases3)
  have p': "p' = fst (master_bytes demo_pty [13])" using w by (auto simp: pty_master_write_def split: prod.splits)
  have "ring_ok (t_in demo_pty)" "ring_bytes (t_in demo_pty) = []" "r_count (t_in demo_pty) = 0"
    using ok by (simp_all add: pty_ok_def) (simp_all add: demo_pty_def pty_alloc_def)
  then have b: "ring_bytes (t_in p') = [NL]"
    using master_bytes_spec [OF ok run] ring_pushes_bytes [of "t_in demo_pty" "[NL]"]
    by (simp only: p') (simp add: PTY_BUF_def)
  then have "r_count (t_in p') = 1" by (metis One_nat_def length_Cons length_ring_bytes list.size(3))
  then have "pty_slave_readable p'" by (simp add: pty_slave_readable_def)
  with pty_no_lost_wakeup [OF ok w, of 80] b show ?thesis by (simp add: w)
qed

end
