(* ===== verification/Seat.thy ===== *)
theory Seat
  imports Prelude
begin

text \<open>
  The display multiplexer of \<open>src/seat.c\<close>: a table of \<open>SEAT_MAX\<close> clients and the number of the
  active one (1-based, 0 for none). \<open>seat_ok\<close> is its invariant; \<open>seat_run\<close> are the states any
  sequence of calls reaches.
\<close>

subsection \<open>State and operations\<close>

definition SEAT_MAX :: nat where "SEAT_MAX = 4"

record seat =
  s_used :: bool
  s_pid :: int
  s_fb_pa :: u64

record seats =
  st_tab :: "seat list"
  st_active :: nat

definition seat_find :: "(seat \<Rightarrow> bool) \<Rightarrow> seats \<Rightarrow> nat option" where
  "seat_find P s = List.find (\<lambda>i. P (st_tab s ! i)) [0..<SEAT_MAX]"

definition seat_reset :: "seats \<Rightarrow> seats" where
  "seat_reset s = s\<lparr>st_tab := map (\<lambda>x. x\<lparr>s_used := False\<rparr>) (st_tab s), st_active := 0\<rparr>"

definition seat_register :: "int \<Rightarrow> u64 \<Rightarrow> seats \<Rightarrow> int \<times> seats" where
  "seat_register pid fb s =
     (case seat_find (\<lambda>x. s_used x \<and> s_pid x = pid) s of
        Some i \<Rightarrow> (int i + 1, s)
      | None \<Rightarrow>
          (case seat_find (\<lambda>x. \<not> s_used x) s of
             Some i \<Rightarrow> (int i + 1, s\<lparr>st_tab := (st_tab s)[i := \<lparr>s_used = True, s_pid = pid, s_fb_pa = fb\<rparr>],
                              st_active := (if st_active s = 0 then i + 1 else st_active s)\<rparr>)
           | None \<Rightarrow> (-1, s)))"

definition seat_count :: "seats \<Rightarrow> nat" where
  "seat_count s = (\<Sum>x\<leftarrow>st_tab s. if s_used x then 1 else 0)"

definition seat_active_pid :: "seats \<Rightarrow> int" where
  "seat_active_pid s = (if st_active s = 0 \<or> \<not> s_used (st_tab s ! (st_active s - 1)) then -1
     else s_pid (st_tab s ! (st_active s - 1)))"

definition seat_valid :: "int \<Rightarrow> seats \<Rightarrow> bool" where
  "seat_valid n s \<longleftrightarrow> \<not> (n < 1 \<or> n > int SEAT_MAX \<or> \<not> s_used (st_tab s ! nat (n - 1)))"

definition seat_fb :: "int \<Rightarrow> seats \<Rightarrow> u64" where
  "seat_fb n s = (if \<not> seat_valid n s then 0 else s_fb_pa (st_tab s ! nat (n - 1)))"

definition seat_switch :: "int \<Rightarrow> seats \<Rightarrow> int \<times> seats" where
  "seat_switch n s = (if \<not> seat_valid n s then (-1, s) else (0, s\<lparr>st_active := nat n\<rparr>))"

definition seat_release_pid :: "int \<Rightarrow> seats \<Rightarrow> nat \<times> seats" where
  "seat_release_pid pid s =
     (case seat_find (\<lambda>x. s_used x \<and> s_pid x = pid) s of
        None \<Rightarrow> (st_active s, s)
      | Some i \<Rightarrow>
          let s = s\<lparr>st_tab := (st_tab s)[i := (st_tab s ! i)\<lparr>s_used := False\<rparr>]\<rparr>;
              s = (if st_active s = i + 1
                   then s\<lparr>st_active := (case seat_find s_used s of None \<Rightarrow> 0 | Some j \<Rightarrow> j + 1)\<rparr> else s)
          in (st_active s, s))"

subsection \<open>The invariant\<close>

text \<open>
  The table has its size, no process owns two seats, and the active seat is in use; it is 0 exactly
  when no seat is in use.
\<close>

definition seat_ok :: "seats \<Rightarrow> bool" where
  "seat_ok s \<longleftrightarrow> length (st_tab s) = SEAT_MAX \<and> st_active s \<le> SEAT_MAX \<and>
     (\<forall>i<SEAT_MAX. \<forall>j<SEAT_MAX. s_used (st_tab s ! i) \<and> s_used (st_tab s ! j) \<and>
        s_pid (st_tab s ! i) = s_pid (st_tab s ! j) \<longrightarrow> i = j) \<and>
     (if st_active s = 0 then \<forall>i<SEAT_MAX. \<not> s_used (st_tab s ! i) else s_used (st_tab s ! (st_active s - 1)))"

lemma seat_find_Some:
  "seat_find P s = Some i \<longleftrightarrow> i < SEAT_MAX \<and> P (st_tab s ! i) \<and> (\<forall>j<i. \<not> P (st_tab s ! j))"
  unfolding seat_find_def by (subst find_Some_iff) auto

lemma seat_find_None: "seat_find P s = None \<longleftrightarrow> (\<forall>i<SEAT_MAX. \<not> P (st_tab s ! i))"
  by (auto simp: seat_find_def find_None_iff)

lemma seat_ok_reset: "length (st_tab s) = SEAT_MAX \<Longrightarrow> seat_ok (seat_reset s)"
  by (auto simp: seat_ok_def seat_reset_def)

lemma seat_ok_register:
  assumes "seat_ok s" shows "seat_ok (snd (seat_register pid fb s))"
proof (cases "seat_find (\<lambda>x. s_used x \<and> s_pid x = pid) s")
  case None
  note none = this
  show ?thesis
  proof (cases "seat_find (\<lambda>x. \<not> s_used x) s")
    case (Some i)
    let ?s = "s\<lparr>st_tab := (st_tab s)[i := \<lparr>s_used = True, s_pid = pid, s_fb_pa = fb\<rparr>],
       st_active := (if st_active s = 0 then i + 1 else st_active s)\<rparr>"
    have eq: "snd (seat_register pid fb s) = ?s" using none Some by (simp add: seat_register_def)
    have "i < SEAT_MAX" "\<not> s_used (st_tab s ! i)" using Some by (simp_all add: seat_find_Some)
    moreover have "\<forall>j<SEAT_MAX. s_used (st_tab s ! j) \<longrightarrow> s_pid (st_tab s ! j) \<noteq> pid"
      using none by (auto simp: seat_find_None)
    ultimately show ?thesis using assms unfolding eq by (auto simp: seat_ok_def nth_list_update)
  qed (use none assms in \<open>simp add: seat_register_def\<close>)
qed (use assms in \<open>simp add: seat_register_def\<close>)

lemma seat_ok_switch: "seat_ok s \<Longrightarrow> seat_ok (snd (seat_switch n s))"
  by (auto simp: seat_switch_def seat_ok_def seat_valid_def nat_diff_distrib)

lemma seat_ok_release:
  assumes "seat_ok s" shows "seat_ok (snd (seat_release_pid pid s))"
proof (cases "seat_find (\<lambda>x. s_used x \<and> s_pid x = pid) s")
  case (Some i)
  define s1 where "s1 = s\<lparr>st_tab := (st_tab s)[i := (st_tab s ! i)\<lparr>s_used := False\<rparr>]\<rparr>"
  have i: "i < SEAT_MAX" "length (st_tab s) = SEAT_MAX" using Some assms by (simp_all add: seat_find_Some seat_ok_def)
  have tab: "s_used (st_tab s1 ! j) \<longleftrightarrow> j \<noteq> i \<and> s_used (st_tab s ! j)" "s_pid (st_tab s1 ! j) = s_pid (st_tab s ! j)" if "j < SEAT_MAX" for j
    using that i by (auto simp: s1_def nth_list_update)
  have len: "length (st_tab s1) = SEAT_MAX" "st_active s1 = st_active s" using i by (simp_all add: s1_def)
  have eq: "snd (seat_release_pid pid s) = (if st_active s1 = i + 1
      then s1\<lparr>st_active := (case seat_find s_used s1 of None \<Rightarrow> 0 | Some j \<Rightarrow> j + 1)\<rparr> else s1)"
    using Some by (simp add: seat_release_pid_def Let_def s1_def)
  show ?thesis
  proof (cases "st_active s1 = i + 1")
    case True
    show ?thesis
    proof (cases "seat_find s_used s1")
      case None
      then have "\<forall>j<SEAT_MAX. \<not> s_used (st_tab s1 ! j)" by (simp add: seat_find_None)
      with None True show ?thesis using len unfolding eq by (simp add: seat_ok_def)
    next
      case (Some k)
      then have "k < SEAT_MAX" "s_used (st_tab s1 ! k)" by (simp_all add: seat_find_Some)
      with Some True show ?thesis using assms len tab unfolding eq by (simp add: seat_ok_def)
    qed
  next
    case False
    have "s_used (st_tab s ! i)" using Some by (simp add: seat_find_Some)
    then have nz: "st_active s \<noteq> 0" using assms i by (metis seat_ok_def)
    then have "st_active s - 1 < SEAT_MAX" "st_active s - 1 \<noteq> i" using assms False len by (auto simp: seat_ok_def)
    with False nz show ?thesis using assms len tab unfolding eq by (simp add: seat_ok_def)
  qed
qed (use assms in \<open>simp add: seat_release_pid_def\<close>)

inductive seat_run :: "seats \<Rightarrow> bool" where
  sr_reset: "length (st_tab s) = SEAT_MAX \<Longrightarrow> seat_run (seat_reset s)"
| sr_register: "seat_run s \<Longrightarrow> seat_run (snd (seat_register pid fb s))"
| sr_switch: "seat_run s \<Longrightarrow> seat_run (snd (seat_switch n s))"
| sr_release: "seat_run s \<Longrightarrow> seat_run (snd (seat_release_pid pid s))"

lemma seat_run_ok: "seat_run s \<Longrightarrow> seat_ok s"
  by (induction rule: seat_run.induct)
    (simp_all add: seat_ok_reset seat_ok_register seat_ok_switch seat_ok_release)

text \<open>
  The screen always has exactly one live owner: after any calls the active seat is in use, or
  there is none and no process holds a seat; no process holds two; and a process that exits leaves
  no seat of its own behind, the lowest remaining seat taking over the screen if it was active.
\<close>
theorem seat_owner:
  assumes "seat_run s" "seat_release_pid pid s = (a, s')"
  shows "(st_active s = 0 \<longleftrightarrow> (\<forall>i<SEAT_MAX. \<not> s_used (st_tab s ! i))) \<and>
    (st_active s \<noteq> 0 \<longrightarrow> seat_active_pid s = s_pid (st_tab s ! (st_active s - 1))) \<and>
    (\<forall>i<SEAT_MAX. s_used (st_tab s' ! i) \<longleftrightarrow> s_used (st_tab s ! i) \<and> s_pid (st_tab s ! i) \<noteq> pid) \<and>
    a = st_active s' \<and>
    (st_active s \<noteq> 0 \<longrightarrow> seat_active_pid s = pid \<longrightarrow>
       a = (case seat_find s_used s' of None \<Rightarrow> 0 | Some j \<Rightarrow> j + 1))"
proof -
  have ok: "seat_ok s" using assms(1) by (rule seat_run_ok)
  have act: "st_active s = 0 \<longleftrightarrow> (\<forall>i<SEAT_MAX. \<not> s_used (st_tab s ! i))"
  proof (cases "st_active s = 0")
    case False
    then have "st_active s - 1 < SEAT_MAX" "s_used (st_tab s ! (st_active s - 1))" using ok by (auto simp: seat_ok_def)
    with False show ?thesis by blast
  qed (use ok in \<open>simp add: seat_ok_def\<close>)
  have own: "st_active s \<noteq> 0 \<Longrightarrow> seat_active_pid s = s_pid (st_tab s ! (st_active s - 1))"
    using ok by (simp add: seat_ok_def seat_active_pid_def)
  have uniq: "i = j" if "i < SEAT_MAX" "j < SEAT_MAX" "s_used (st_tab s ! i)" "s_used (st_tab s ! j)"
      "s_pid (st_tab s ! i) = s_pid (st_tab s ! j)" for i j using ok that unfolding seat_ok_def by blast
  show ?thesis
  proof (cases "seat_find (\<lambda>x. s_used x \<and> s_pid x = pid) s")
    case None
    then have s': "s' = s" "a = st_active s" using assms(2) by (auto simp: seat_release_pid_def)
    have "st_active s \<noteq> 0 \<Longrightarrow> seat_active_pid s \<noteq> pid"
    proof -
      assume "st_active s \<noteq> 0"
      then have "st_active s - 1 < SEAT_MAX" "s_used (st_tab s ! (st_active s - 1))" using ok by (auto simp: seat_ok_def)
      with None own [OF \<open>st_active s \<noteq> 0\<close>] show ?thesis by (auto simp: seat_find_None)
    qed
    then show ?thesis using None act own s' by (auto simp: seat_find_None)
  next
    case (Some i)
    have i: "i < SEAT_MAX" "length (st_tab s) = SEAT_MAX" "s_used (st_tab s ! i)" "s_pid (st_tab s ! i) = pid"
      using Some ok by (simp_all add: seat_find_Some seat_ok_def)
    have tab: "st_tab s' = (st_tab s)[i := (st_tab s ! i)\<lparr>s_used := False\<rparr>]" and a: "a = st_active s'"
      using Some assms(2) by (auto simp: seat_release_pid_def Let_def)
    have "seat_find s_used s' = seat_find s_used (s\<lparr>st_tab := (st_tab s)[i := (st_tab s ! i)\<lparr>s_used := False\<rparr>]\<rparr>)"
      by (simp add: seat_find_def tab)
    then have take: "a = (case seat_find s_used s' of None \<Rightarrow> 0 | Some j \<Rightarrow> j + 1)" if "st_active s = i + 1"
      using that Some assms(2) by (auto simp: seat_release_pid_def Let_def)
    have "st_active s = i + 1" if "st_active s \<noteq> 0" "seat_active_pid s = pid"
    proof -
      have "s_used (st_tab s ! (st_active s - 1))" "st_active s - 1 < SEAT_MAX"
        using that ok by (auto simp: seat_ok_def)
      with uniq [of i "st_active s - 1"] i own that show ?thesis by simp
    qed
    with take have t: "st_active s \<noteq> 0 \<longrightarrow> seat_active_pid s = pid \<longrightarrow> a = (case seat_find s_used s' of None \<Rightarrow> 0 | Some j \<Rightarrow> j + 1)"
      by blast
    have "\<forall>j<SEAT_MAX. s_used (st_tab s' ! j) \<longleftrightarrow> s_used (st_tab s ! j) \<and> s_pid (st_tab s ! j) \<noteq> pid"
      using uniq i by (auto simp: tab nth_list_update)
    with act own a t show ?thesis by blast
  qed
qed

definition demo_seats :: seats where
  "demo_seats = snd (seat_register 9 4096 (snd (seat_register 7 8192
     (seat_reset \<lparr>st_tab = replicate 4 \<lparr>s_used = True, s_pid = 0, s_fb_pa = 0\<rparr>, st_active = 3\<rparr>))))"

theorem seat_owner_witness: "seat_active_pid demo_seats = 7 \<and> fst (seat_release_pid 7 demo_seats) = 2"
proof -
  have run: "seat_run demo_seats"
    unfolding demo_seats_def by (intro sr_register sr_reset) (simp add: SEAT_MAX_def)
  have tab: "demo_seats = \<lparr>st_tab = [\<lparr>s_used = True, s_pid = 7, s_fb_pa = 8192\<rparr>, \<lparr>s_used = True, s_pid = 9, s_fb_pa = 4096\<rparr>,
      \<lparr>s_used = False, s_pid = 0, s_fb_pa = 0\<rparr>, \<lparr>s_used = False, s_pid = 0, s_fb_pa = 0\<rparr>], st_active = 1\<rparr>"
    by (simp add: demo_seats_def seat_register_def seat_reset_def seat_find_def SEAT_MAX_def numeral_eq_Suc upt_rec)
  obtain a s' where rel: "seat_release_pid 7 demo_seats = (a, s')" by force
  from seat_owner [OF run rel] have "a = (case seat_find s_used s' of None \<Rightarrow> 0 | Some j \<Rightarrow> j + 1)"
    "\<forall>i<SEAT_MAX. s_used (st_tab s' ! i) \<longleftrightarrow> s_used (st_tab demo_seats ! i) \<and> s_pid (st_tab demo_seats ! i) \<noteq> 7"
    by (auto simp: tab seat_active_pid_def)
  then have "seat_find s_used s' = Some 1" by (simp add: seat_find_Some tab SEAT_MAX_def)
  with rel \<open>a = _\<close> show ?thesis by (simp add: tab seat_active_pid_def)
qed

end
