(* ===== verification/Sched.thy ===== *)
theory Sched
  imports Seat
begin

text \<open>
  The scheduler of \<open>src/sched.c\<close> and the signals of \<open>src/signal.c\<close>. The circular run queue is the
  list \<open>sc_ring\<close> that starts at the running thread \<open>current\<close> and follows the \<open>next\<close> links; it is
  empty before \<open>sched_init\<close>. A pointer to a thread is its id (ids are never used twice: \<open>int\<close> is
  unbounded, the C \<open>int\<close> would wrap after \<open>2 ^ 31\<close> threads); a wait channel is an address, 0 for
  none; an address space and an open file are named by numbers, NULL is \<open>None\<close>. A call that
  switches away ends at \<open>schedule\<close>; what it does after it is resumed is a definition of its own.
\<close>

subsection \<open>Threads and the scheduler state\<close>

datatype thread_state = THREAD_RUNNABLE | THREAD_RUNNING | THREAD_SLEEPING | THREAD_BLOCKED
  | THREAD_EXITED | THREAD_ZOMBIE

record trapframe =
  tf_x :: "u64 list"
  tf_elr :: u64
  tf_spsr :: u64
  tf_sp_el0 :: u64

text \<open>The words of the saved context that a fresh thread sets; all others are zero.\<close>

record cpu_context =
  ctx_x19 :: u64
  ctx_x20 :: u64
  ctx_lr :: u64
  ctx_sp :: u64

record thread =
  t_ctx :: cpu_context
  t_stack :: u64
  t_state :: thread_state
  t_id :: int
  t_pgid :: int
  t_priority :: int
  t_wake_tick :: u64
  t_wait_chan :: u64
  t_as :: "nat option"
  t_fds :: "nat option list"
  t_cwd :: "u8 list"
  t_parent :: "int option"
  t_exit_status :: int
  t_sig_pending :: u64
  t_sig_handler :: "u64 list"
  t_sig_tramp :: u64
  t_kframe :: "trapframe option"

record sched =
  sc_ring :: "thread list"
  sc_next_id :: int
  sc_foreground :: "int option"
  sc_slice :: int
  sc_jiffies :: u64
  sc_started :: bool

definition STACK_SIZE :: u64 where "STACK_SIZE = 16 * 1024"
definition SCHED_TIME_SLICE :: int where "SCHED_TIME_SLICE = 10"
definition NSIG :: int where "NSIG = 32"
definition SIGKILL :: int where "SIGKILL = 9"

text \<open>The root directory, a C string without its terminator.\<close>

definition ROOT :: "u8 list" where "ROOT = [47]"

definition current :: "sched \<Rightarrow> thread" where "current s = hd (sc_ring s)"

definition upd_current :: "(thread \<Rightarrow> thread) \<Rightarrow> sched \<Rightarrow> sched" where
  "upd_current f s = s\<lparr>sc_ring := (case sc_ring s of [] \<Rightarrow> [] | t # ts \<Rightarrow> f t # ts)\<rparr>"

definition sched_current_id :: "sched \<Rightarrow> int" where
  "sched_current_id s = (if sc_ring s = [] then -1 else t_id (current s))"

subsection \<open>Signals\<close>

definition sig_init :: "thread \<Rightarrow> thread" where
  "sig_init t = t\<lparr>t_sig_pending := 0, t_sig_handler := replicate 32 0, t_sig_tramp := 0\<rparr>"

definition signal_send :: "int \<Rightarrow> thread \<Rightarrow> thread" where
  "signal_send sig t =
     (if sig \<le> 0 \<or> sig \<ge> NSIG then t
      else let t = t\<lparr>t_sig_pending := t_sig_pending t OR push_bit (nat sig) 1\<rparr> in
        if t_state t = THREAD_SLEEPING \<or> t_state t = THREAD_BLOCKED
        then t\<lparr>t_state := THREAD_RUNNABLE, t_wait_chan := 0\<rparr> else t)"

definition signal_action :: "thread \<Rightarrow> int \<Rightarrow> u64" where
  "signal_action t sig = (if sig = SIGKILL \<or> sig \<le> 0 \<or> sig \<ge> NSIG then 0 else t_sig_handler t ! nat sig)"

definition in_group :: "int \<Rightarrow> thread \<Rightarrow> bool" where
  "in_group g t \<longleftrightarrow> t_pgid t = g \<and> t_state t \<noteq> THREAD_EXITED \<and> t_state t \<noteq> THREAD_ZOMBIE"

text \<open>Apply \<open>f\<close> to the first thread of the ring that satisfies \<open>P\<close>.\<close>

fun upd_first :: "(thread \<Rightarrow> bool) \<Rightarrow> (thread \<Rightarrow> thread) \<Rightarrow> thread list \<Rightarrow> (thread list) option" where
  "upd_first P f [] = None"
| "upd_first P f (t # ts) = (if P t then Some (f t # ts) else map_option ((#) t) (upd_first P f ts))"

definition sched_kill :: "int \<Rightarrow> int \<Rightarrow> sched \<Rightarrow> int \<times> sched" where
  "sched_kill pid sig s =
     (if pid < 0
      then (if \<exists>t\<in>set (sc_ring s). in_group (- pid) t then 0 else -1,
            s\<lparr>sc_ring := map (\<lambda>t. if in_group (- pid) t then signal_send sig t else t) (sc_ring s)\<rparr>)
      else (case upd_first (\<lambda>t. t_id t = pid) (signal_send sig) (sc_ring s) of
              None \<Rightarrow> (-1, s) | Some r \<Rightarrow> (0, s\<lparr>sc_ring := r\<rparr>)))"

definition sched_setpgid :: "int \<Rightarrow> int \<Rightarrow> sched \<Rightarrow> int \<times> sched" where
  "sched_setpgid pid pgid s =
     (case upd_first (\<lambda>t. pid = 0 \<and> t_id t = t_id (current s) \<or> pid \<noteq> 0 \<and> t_id t = pid)
         (\<lambda>t. t\<lparr>t_pgid := (if pgid = 0 then t_id t else pgid)\<rparr>) (sc_ring s) of
        None \<Rightarrow> (-1, s) | Some r \<Rightarrow> (0, s\<lparr>sc_ring := r\<rparr>))"

subsection \<open>Creating threads\<close>

definition fresh_thread :: "sched \<Rightarrow> u64 \<Rightarrow> cpu_context \<Rightarrow> int \<Rightarrow> nat option \<Rightarrow> thread" where
  "fresh_thread s stack ctx prio as = sig_init
     \<lparr>t_ctx = ctx, t_stack = stack, t_state = THREAD_RUNNABLE, t_id = sc_next_id s, t_pgid = sc_next_id s,
      t_priority = prio, t_wake_tick = 0, t_wait_chan = 0, t_as = as, t_fds = replicate 16 None,
      t_cwd = ROOT, t_parent = (if sc_ring s = [] then None else Some (t_id (current s))), t_exit_status = 0,
      t_sig_pending = 0, t_sig_handler = [], t_sig_tramp = 0, t_kframe = None\<rparr>"

text \<open>A new thread goes to the end of the ring, just before \<open>current\<close>.\<close>

definition link_tail :: "thread \<Rightarrow> sched \<Rightarrow> sched" where
  "link_tail t s = s\<lparr>sc_next_id := sc_next_id s + 1,
     sc_ring := (if sc_ring s = [] then [] else sc_ring s @ [t])\<rparr>"

definition thread_create :: "u64 \<Rightarrow> u64 \<Rightarrow> u64 \<Rightarrow> u64 \<Rightarrow> int \<Rightarrow> sched \<Rightarrow> thread \<times> sched" where
  "thread_create stack tramp fn arg prio s =
     (let t = fresh_thread s stack \<lparr>ctx_x19 = fn, ctx_x20 = arg, ctx_lr = tramp, ctx_sp = stack + STACK_SIZE\<rparr> prio None
      in (t, link_tail t s))"

text \<open>\<open>as\<close> and \<open>entry\<close> are what \<open>as_create_elf\<close> returned, \<open>utop\<close> the top of the user stack.\<close>

definition thread_create_image :: "u64 \<Rightarrow> u64 \<Rightarrow> u64 \<Rightarrow> u64 \<Rightarrow> nat option \<Rightarrow> int \<Rightarrow> sched \<Rightarrow> thread \<times> sched" where
  "thread_create_image stack tramp entry utop as prio s =
     (let t = fresh_thread s stack \<lparr>ctx_x19 = entry, ctx_x20 = utop, ctx_lr = tramp, ctx_sp = stack + STACK_SIZE\<rparr> prio as
      in (t, link_tail t s))"

text \<open>\<open>as\<close> is the clone of the address space; the open files to \<open>file_dup\<close> are the second result.\<close>

definition sched_fork :: "u64 \<Rightarrow> u64 \<Rightarrow> nat option \<Rightarrow> trapframe \<Rightarrow> sched \<Rightarrow> int \<times> nat list \<times> sched" where
  "sched_fork kstack fork_ret as tf s =
     (let cur = current s;
          tf_addr = ((kstack + STACK_SIZE) AND NOT 15) - 272;
          t = sig_init
            \<lparr>t_ctx = \<lparr>ctx_x19 = 0, ctx_x20 = 0, ctx_lr = fork_ret, ctx_sp = tf_addr\<rparr>, t_stack = kstack,
             t_state = THREAD_RUNNABLE, t_id = sc_next_id s, t_pgid = t_pgid cur, t_priority = t_priority cur,
             t_wake_tick = 0, t_wait_chan = 0, t_as = as, t_fds = t_fds cur, t_cwd = take 255 (t_cwd cur),
             t_parent = Some (t_id cur), t_exit_status = 0, t_sig_pending = 0, t_sig_handler = [], t_sig_tramp = 0,
             t_kframe = Some (tf\<lparr>tf_x := (tf_x tf)[0 := 0]\<rparr>)\<rparr>
      in (t_id t, List.map_filter id (t_fds cur), link_tail t s))"

definition boot_thread :: thread where
  "boot_thread = sig_init
     \<lparr>t_ctx = \<lparr>ctx_x19 = 0, ctx_x20 = 0, ctx_lr = 0, ctx_sp = 0\<rparr>, t_stack = 0, t_state = THREAD_RUNNING, t_id = 0, t_pgid = 0,
      t_priority = -1, t_wake_tick = 0, t_wait_chan = 0, t_as = None, t_fds = replicate 16 None,
      t_cwd = [], t_parent = None, t_exit_status = 0, t_sig_pending = 0, t_sig_handler = [], t_sig_tramp = 0,
      t_kframe = None\<rparr>"

definition sched_init :: "sched \<Rightarrow> sched" where
  "sched_init s = s\<lparr>sc_ring := [boot_thread], sc_next_id := 1, sc_started := True,
     sc_slice := SCHED_TIME_SLICE, sc_jiffies := 0\<rparr>"

subsection \<open>Choosing a thread\<close>

text \<open>
  The scan of \<open>schedule\<close>: the position of the first runnable thread of the highest priority. The
  best so far is a position and a priority.
\<close>

fun scan_best :: "nat \<Rightarrow> (nat \<times> int) option \<Rightarrow> thread list \<Rightarrow> (nat \<times> int) option" where
  "scan_best i best [] = best"
| "scan_best i best (t # ts) =
     scan_best (i + 1)
       (if t_state t = THREAD_RUNNABLE \<and> (case best of None \<Rightarrow> True | Some (_, p) \<Rightarrow> t_priority t > p)
        then Some (i, t_priority t) else best) ts"

definition set_state :: "thread_state \<Rightarrow> thread \<Rightarrow> thread" where
  "set_state st t = t\<lparr>t_state := st\<rparr>"

text \<open>
  The scan starts just after \<open>current\<close> and ends with it. Position \<open>k\<close> of the scan is position
  \<open>k + 1\<close> of the ring; if the best is \<open>current\<close> itself nothing is switched.
\<close>

definition schedule :: "sched \<Rightarrow> sched" where
  "schedule s =
     (let s = (if t_state (current s) = THREAD_RUNNING then upd_current (set_state THREAD_RUNNABLE) s else s);
          scan = tl (sc_ring s) @ [hd (sc_ring s)]
      in case scan_best 0 None scan of
           None \<Rightarrow> s
         | Some (k, _) \<Rightarrow>
             if k + 1 = length (sc_ring s) then upd_current (set_state THREAD_RUNNING) s
             else upd_current (set_state THREAD_RUNNING)
                    (s\<lparr>sc_ring := rotate (k + 1) (sc_ring s), sc_slice := SCHED_TIME_SLICE\<rparr>))"

definition yield :: "sched \<Rightarrow> sched" where "yield s = schedule s"

text \<open>The timer tick: the result says whether to reschedule.\<close>

definition sched_tick :: "sched \<Rightarrow> bool \<times> sched" where
  "sched_tick s =
     (if \<not> sc_started s then (False, s)
      else let j = sc_jiffies s + 1;
               due = (\<lambda>t. t_state t = THREAD_SLEEPING \<and> t_wake_tick t \<le> j);
               preempt = (\<exists>t\<in>set (sc_ring s). due t \<and> t_priority t > t_priority (current s));
               s = s\<lparr>sc_jiffies := j, sc_ring := map (\<lambda>t. if due t then set_state THREAD_RUNNABLE t else t) (sc_ring s)\<rparr>
        in if preempt then (True, s\<lparr>sc_slice := SCHED_TIME_SLICE\<rparr>)
           else if sc_slice s - 1 \<le> 0 then (True, s\<lparr>sc_slice := SCHED_TIME_SLICE\<rparr>)
           else (False, s\<lparr>sc_slice := sc_slice s - 1\<rparr>))"

subsection \<open>Blocking and waking\<close>

definition sleep_ticks :: "u64 \<Rightarrow> sched \<Rightarrow> sched" where
  "sleep_ticks ticks s =
     schedule (upd_current (\<lambda>t. t\<lparr>t_wake_tick := sc_jiffies s + ticks, t_state := THREAD_SLEEPING\<rparr>) s)"

definition sched_block :: "u64 \<Rightarrow> sched \<Rightarrow> sched" where
  "sched_block chan s = schedule (upd_current (\<lambda>t. t\<lparr>t_wait_chan := chan, t_state := THREAD_BLOCKED\<rparr>) s)"

definition sched_wait_event :: "u64 \<Rightarrow> u64 \<Rightarrow> sched \<Rightarrow> sched" where
  "sched_wait_event chan timeout s = schedule (upd_current (\<lambda>t. t\<lparr>t_wait_chan := chan,
     t_wake_tick := sc_jiffies s + timeout, t_state := THREAD_SLEEPING\<rparr>) s)"

text \<open>What the last two calls do when their thread runs again.\<close>

definition block_resume :: "sched \<Rightarrow> sched" where
  "block_resume s = upd_current (\<lambda>t. t\<lparr>t_wait_chan := 0\<rparr>) s"

definition waits_on :: "u64 \<Rightarrow> thread \<Rightarrow> bool" where
  "waits_on chan t \<longleftrightarrow> (t_state t = THREAD_BLOCKED \<or> t_state t = THREAD_SLEEPING) \<and> t_wait_chan t = chan"

definition sched_wake :: "u64 \<Rightarrow> sched \<Rightarrow> sched" where
  "sched_wake chan s = s\<lparr>sc_ring := map (\<lambda>t. if waits_on chan t
     then t\<lparr>t_state := THREAD_RUNNABLE, t_wait_chan := 0\<rparr> else t) (sc_ring s)\<rparr>"

subsection \<open>Exit and wait\<close>

datatype exit_event = VfsClose nat | GfxShow nat

text \<open>\<open>inq\<close> is the channel of \<open>input_waitq\<close>.\<close>

definition thread_exit :: "u64 \<Rightarrow> int \<Rightarrow> seats \<Rightarrow> sched \<Rightarrow> exit_event list \<times> seats \<times> sched" where
  "thread_exit inq status st s =
     (let closes = map VfsClose (List.map_filter id (t_fds (current s)));
          s = upd_current (\<lambda>t. t\<lparr>t_fds := replicate 16 None\<rparr>) s;
          was = st_active st in
      case seat_release_pid (t_id (current s)) st of (nw, st) \<Rightarrow>
        let shown = (nw \<noteq> was \<and> nw > 0);
            s = (if shown then sched_wake inq s else s);
            s = upd_current (\<lambda>t. t\<lparr>t_exit_status := status, t_state := THREAD_ZOMBIE\<rparr>) s;
            par = t_parent (current s);
            s = s\<lparr>sc_ring := map (\<lambda>t. if Some (t_id t) = par \<and> t_state t = THREAD_SLEEPING
                     then set_state THREAD_RUNNABLE t else t) (sc_ring s)\<rparr>
        in (closes @ (if shown then [GfxShow nw] else []), st, schedule s))"

text \<open>
  One turn of \<open>sched_wait\<close>: the reaped child's id, status and what is freed, -1 without children,
  or the parent sleeps and the turn is repeated when it runs again.
\<close>

datatype wait_result = NoChild | Reaped int int "nat option"

definition wait_scan :: "sched \<Rightarrow> thread list" where
  "wait_scan s = filter (\<lambda>t. t_parent t = Some (t_id (current s))) (tl (sc_ring s) @ [hd (sc_ring s)])"

definition sched_wait :: "sched \<Rightarrow> (unit, wait_result) outcome \<times> sched" where
  "sched_wait s =
     (let kids = wait_scan s in
      case List.find (\<lambda>t. t_state t = THREAD_ZOMBIE) kids of
        Some c \<Rightarrow> (Done (Reaped (t_id c) (t_exit_status c) (t_as c)),
            s\<lparr>sc_ring := filter (\<lambda>t. t_id t \<noteq> t_id c) (sc_ring s),
              sc_foreground := (if sc_foreground s = Some (t_id c) then None else sc_foreground s)\<rparr>)
      | None \<Rightarrow>
          if kids = [] then (Done NoChild, s)
          else (Sleep (), schedule (upd_current (set_state THREAD_SLEEPING)
                  (s\<lparr>sc_foreground := Some (t_id (last kids))\<rparr>))))"

definition sched_set_current_as :: "nat option \<Rightarrow> sched \<Rightarrow> sched" where
  "sched_set_current_as as s = upd_current (\<lambda>t. t\<lparr>t_as := as\<rparr>) s"

end
