(* ===== verification/Sched_Props.thy ===== *)
theory Sched_Props
  imports Sched
begin

text \<open>
  What the scheduler guarantees: the choice of \<open>schedule\<close>, the invariant of the run queue over every
  call (\<open>sched_run\<close>), round-robin fairness, the time a sleep lasts, and what a signal to a group
  and a wait for a child do.
\<close>

subsection \<open>The choice\<close>

definition runnable :: "thread \<Rightarrow> bool" where "runnable t \<longleftrightarrow> t_state t = THREAD_RUNNABLE"

lemma scan_best_Some_not_None: "scan_best i (Some b) ts \<noteq> None"
  by (induction ts arbitrary: i b) auto

lemma scan_best_None: "scan_best i None ts = None \<longleftrightarrow> (\<forall>t\<in>set ts. \<not> runnable t)"
  by (induction ts arbitrary: i) (auto simp: runnable_def scan_best_Some_not_None)

lemma scan_best_gen:
  "scan_best i best ts = Some (k, p) \<Longrightarrow>
     (best = Some (k, p) \<and> (\<forall>t\<in>set ts. runnable t \<longrightarrow> t_priority t \<le> p)) \<or>
     (\<exists>m<length ts. k = i + m \<and> runnable (ts ! m) \<and> p = t_priority (ts ! m) \<and>
        (\<forall>j<m. runnable (ts ! j) \<longrightarrow> t_priority (ts ! j) < p) \<and>
        (\<forall>t\<in>set ts. runnable t \<longrightarrow> t_priority t \<le> p) \<and>
        (case best of None \<Rightarrow> True | Some (_, q) \<Rightarrow> q < p))"
proof (induction ts arbitrary: i best)
  case (Cons t ts)
  let ?c = "t_state t = THREAD_RUNNABLE \<and> (case best of None \<Rightarrow> True | Some (_, p) \<Rightarrow> t_priority t > p)"
  let ?b = "if ?c then Some (i, t_priority t) else best"
  from Cons.prems have run: "scan_best (i + 1) ?b ts = Some (k, p)" by simp
  from Cons.IH [OF this] show ?case
  proof (elim disjE exE conjE)
    assume b: "?b = Some (k, p)" and rest: "\<forall>t\<in>set ts. runnable t \<longrightarrow> t_priority t \<le> p"
    show ?thesis
    proof (cases ?c)
      case True
      with b rest show ?thesis
        by (intro disjI2 exI [of _ 0]) (auto simp: runnable_def split: option.splits)
    next
      case False
      with b rest show ?thesis by (intro disjI1) (auto simp: runnable_def)
    qed
  next
    fix m assume m: "m < length ts" "k = i + 1 + m" "runnable (ts ! m)" "p = t_priority (ts ! m)"
      "\<forall>j<m. runnable (ts ! j) \<longrightarrow> t_priority (ts ! j) < p" "\<forall>t\<in>set ts. runnable t \<longrightarrow> t_priority t \<le> p"
      "case ?b of None \<Rightarrow> True | Some (_, q) \<Rightarrow> q < p"
    have t: "runnable t \<Longrightarrow> t_priority t < p"
      using m(7) by (cases ?c) (auto simp: runnable_def split: option.splits)
    have b: "case best of None \<Rightarrow> True | Some (_, q) \<Rightarrow> q < p"
      using m(7) by (cases ?c) (auto split: option.splits)
    have "\<forall>j<Suc m. runnable ((t # ts) ! j) \<longrightarrow> t_priority ((t # ts) ! j) < p"
      using m(5) t by (auto simp: less_Suc_eq_0_disj)
    then show ?thesis using m t b by (intro disjI2 exI [of _ "Suc m"]) auto
  qed
qed simp

lemma scan_best_first:
  assumes "scan_best 0 None ts = Some (k, p)"
  shows "k < length ts" "runnable (ts ! k)" "p = t_priority (ts ! k)"
    "\<And>j. j < k \<Longrightarrow> runnable (ts ! j) \<Longrightarrow> t_priority (ts ! j) < p"
    "\<And>t. t \<in> set ts \<Longrightarrow> runnable t \<Longrightarrow> t_priority t \<le> p"
  using scan_best_gen [OF assms] by auto

text \<open>\<open>schedule\<close> on the ring alone: \<open>r\<close> is the ring after the caller gave up the processor.\<close>

definition given_up :: "sched \<Rightarrow> thread list" where
  "given_up s = (case sc_ring s of [] \<Rightarrow> [] | t # ts \<Rightarrow>
     (if t_state t = THREAD_RUNNING then set_state THREAD_RUNNABLE t else t) # ts)"

lemma set_state_fields [simp]:
  "t_state (set_state st t) = st" "t_id (set_state st t) = t_id t" "t_priority (set_state st t) = t_priority t"
  "t_parent (set_state st t) = t_parent t" "t_wake_tick (set_state st t) = t_wake_tick t"
  "t_pgid (set_state st t) = t_pgid t" "t_sig_pending (set_state st t) = t_sig_pending t"
  by (simp_all add: set_state_def)

lemma set_state_twice [simp]: "set_state a (set_state b t) = set_state a t" by (simp add: set_state_def)

lemma set_state_same: "t_state t = st \<Longrightarrow> set_state st t = t" by (simp add: set_state_def)

lemma rotate_head: "k < length r \<Longrightarrow> rotate k r = r ! k # drop (Suc k) r @ take k r"
  by (simp add: rotate_drop_take Cons_nth_drop_Suc [symmetric])

text \<open>
  The new ring is the old one turned so that the chosen thread comes first: the first runnable
  thread of the highest priority after the caller. Without a runnable thread nothing changes.
\<close>

lemma schedule_cases:
  assumes ne: "sc_ring s \<noteq> []"
  shows "((\<forall>t\<in>set (given_up s). \<not> runnable t) \<and> schedule s = s\<lparr>sc_ring := given_up s\<rparr>) \<or>
    (\<exists>k. k < length (sc_ring s) \<and> runnable (rotate 1 (given_up s) ! k) \<and>
       (\<forall>t\<in>set (given_up s). runnable t \<longrightarrow> t_priority t \<le> t_priority (rotate 1 (given_up s) ! k)) \<and>
       (\<forall>j<k. runnable (rotate 1 (given_up s) ! j) \<longrightarrow>
          t_priority (rotate 1 (given_up s) ! j) < t_priority (rotate 1 (given_up s) ! k)) \<and>
       sc_ring (schedule s) = (case rotate (k + 1) (given_up s) of [] \<Rightarrow> [] | t # ts \<Rightarrow> set_state THREAD_RUNNING t # ts) \<and>
       schedule s = s\<lparr>sc_ring := sc_ring (schedule s),
         sc_slice := (if k + 1 = length (sc_ring s) then sc_slice s else SCHED_TIME_SLICE)\<rparr>)"
proof -
  obtain c ts where r: "sc_ring s = c # ts" using ne by (cases "sc_ring s") auto
  define c' where "c' = (if t_state c = THREAD_RUNNING then set_state THREAD_RUNNABLE c else c)"
  have g: "given_up s = c' # ts" by (simp add: given_up_def r c'_def)
  have s1: "(if t_state (current s) = THREAD_RUNNING then upd_current (set_state THREAD_RUNNABLE) s else s) = s\<lparr>sc_ring := c' # ts\<rparr>"
    using r by (auto simp: current_def upd_current_def c'_def)
  have scan: "rotate 1 (c' # ts) = ts @ [c']" by simp
  show ?thesis
  proof (cases "scan_best 0 None (ts @ [c'])")
    case None
    then have "\<forall>t\<in>set (given_up s). \<not> runnable t" by (auto simp: scan_best_None g)
    moreover have "schedule s = s\<lparr>sc_ring := given_up s\<rparr>"
      unfolding schedule_def s1 Let_def using None by (simp add: g)
    ultimately show ?thesis by blast
  next
    case (Some kp)
    obtain k p where kp: "scan_best 0 None (ts @ [c']) = Some (k, p)" using Some by (cases kp) auto
    note b = scan_best_first [OF kp]
    have eq: "schedule s = (if k + 1 = length (c' # ts) then upd_current (set_state THREAD_RUNNING) (s\<lparr>sc_ring := c' # ts\<rparr>)
        else upd_current (set_state THREAD_RUNNING) (s\<lparr>sc_ring := rotate (k + 1) (c' # ts), sc_slice := SCHED_TIME_SLICE\<rparr>))"
      unfolding schedule_def s1 Let_def using kp by simp
    have rot: "k + 1 = length (c' # ts) \<Longrightarrow> rotate (k + 1) (c' # ts) = c' # ts" by (rule rotate_id) simp
    have ring: "sc_ring (schedule s) = (case rotate (k + 1) (given_up s) of [] \<Rightarrow> [] | t # ts \<Rightarrow> set_state THREAD_RUNNING t # ts)"
      using rot unfolding eq g by (auto simp: upd_current_def simp del: rotate_Suc)
    have rest: "schedule s = s\<lparr>sc_ring := sc_ring (schedule s),
         sc_slice := (if k + 1 = length (sc_ring s) then sc_slice s else SCHED_TIME_SLICE)\<rparr>"
      unfolding eq by (auto simp: upd_current_def r simp del: rotate_Suc)
    have set: "set (given_up s) = set (ts @ [c'])" by (auto simp: g)
    have "k < length (sc_ring s)" using b(1) r by simp
    with b ring rest show ?thesis unfolding set unfolding g scan by (intro disjI2 exI [of _ k]) blast
  qed
qed

subsection \<open>The invariant of the run queue\<close>

text \<open>
  Between calls: the ids are distinct and below the next one, exactly the first thread is RUNNING,
  the idle thread (id 0, priority -1) is running or runnable, and the time slice is in its range.
\<close>

definition ring_ok :: "thread list \<Rightarrow> int \<Rightarrow> bool" where
  "ring_ok r n \<longleftrightarrow> distinct (map t_id r) \<and> (\<forall>t\<in>set r. 0 \<le> t_id t \<and> t_id t < n) \<and>
     (\<exists>t\<in>set r. t_id t = 0 \<and> t_priority t = -1 \<and> (t_state t = THREAD_RUNNING \<or> t_state t = THREAD_RUNNABLE)) \<and>
     (\<forall>t\<in>set (tl r). t_state t \<noteq> THREAD_RUNNING)"

definition sched_ok :: "sched \<Rightarrow> bool" where
  "sched_ok s \<longleftrightarrow> ring_ok (sc_ring s) (sc_next_id s) \<and> t_state (current s) = THREAD_RUNNING \<and>
     1 \<le> sc_slice s \<and> sc_slice s \<le> SCHED_TIME_SLICE"

lemma ring_ok_ne: "ring_ok r n \<Longrightarrow> r \<noteq> []" by (auto simp: ring_ok_def)

text \<open>Rewriting threads in place keeps the invariant when it keeps ids, priorities and who runs or may run.\<close>

definition calm :: "thread \<Rightarrow> thread \<Rightarrow> bool" where
  "calm t t' \<longleftrightarrow> t_id t' = t_id t \<and> t_priority t' = t_priority t \<and>
     (t_state t' = t_state t \<or> t_state t \<noteq> THREAD_RUNNING \<and> t_state t' = THREAD_RUNNABLE)"

lemma calm_refl [simp]: "calm t t" by (simp add: calm_def)

lemma all2_calm_ids: "list_all2 calm r r' \<Longrightarrow> map t_id r' = map t_id r"
  by (induction rule: list_all2_induct) (auto simp: calm_def)

lemma all2_set1: "list_all2 P xs ys \<Longrightarrow> x \<in> set xs \<Longrightarrow> \<exists>y\<in>set ys. P x y"
  by (induction rule: list_all2_induct) auto

lemma all2_set2: "list_all2 P xs ys \<Longrightarrow> y \<in> set ys \<Longrightarrow> \<exists>x\<in>set xs. P x y"
  by (induction rule: list_all2_induct) auto

lemma ring_ok_calm:
  assumes "ring_ok r n" "list_all2 calm r r'"
  shows "ring_ok r' n"
proof -
  have "distinct (map t_id r')" using assms(1) all2_calm_ids [OF assms(2)] by (simp add: ring_ok_def)
  moreover have "\<forall>t\<in>set r'. 0 \<le> t_id t \<and> t_id t < n"
    using assms(1) all2_set2 [OF assms(2)] by (fastforce simp: ring_ok_def calm_def)
  moreover obtain t where t: "t \<in> set r" "t_id t = 0" "t_priority t = -1" "t_state t = THREAD_RUNNING \<or> t_state t = THREAD_RUNNABLE"
    using assms(1) by (auto simp: ring_ok_def)
  moreover obtain t' where "t' \<in> set r'" "calm t t'" using all2_set1 [OF assms(2) t(1)] by blast
  moreover have "list_all2 calm (tl r) (tl r')" using assms(2) by (cases r; cases r') auto
  then have "\<forall>t\<in>set (tl r'). t_state t \<noteq> THREAD_RUNNING"
    using assms(1) all2_set2 [of calm "tl r" "tl r'"] by (fastforce simp: ring_ok_def calm_def)
  ultimately show ?thesis unfolding ring_ok_def calm_def by (metis thread_state.distinct(1))
qed

lemma sched_ok_calm:
  assumes "sched_ok s" "list_all2 calm (sc_ring s) (sc_ring s')" "sc_next_id s' = sc_next_id s"
    "1 \<le> sc_slice s'" "sc_slice s' \<le> SCHED_TIME_SLICE"
  shows "sched_ok s'"
proof -
  have "ring_ok (sc_ring s') (sc_next_id s')" 
    using assms(1,3) ring_ok_calm [OF _ assms(2)] by (simp add: sched_ok_def)
  moreover have "calm (current s) (current s')"
    using assms(2) ring_ok_ne [of "sc_ring s"] assms(1) by (cases "sc_ring s"; cases "sc_ring s'") (auto simp: current_def sched_ok_def)
  ultimately show ?thesis using assms by (auto simp: sched_ok_def calm_def)
qed

lemma sched_ok_ring:
  assumes "sched_ok s" "list_all2 calm (sc_ring s) r"
  shows "sched_ok (s\<lparr>sc_ring := r\<rparr>)"
  by (rule sched_ok_calm [OF assms(1)]) (use assms in \<open>auto simp: sched_ok_def\<close>)

lemma map_calm: "\<forall>t. calm t (f t) \<Longrightarrow> list_all2 calm r (map f r)"
  by (simp add: list.rel_map list.rel_refl)

lemma upd_first_calm: "upd_first P f r = Some r' \<Longrightarrow> \<forall>t. calm t (f t) \<Longrightarrow> list_all2 calm r r'"
  by (induction r arbitrary: r') (auto simp: list.rel_refl split: if_splits)

lemma upd_current_calm: "\<forall>t. calm t (f t) \<Longrightarrow> list_all2 calm (sc_ring s) (sc_ring (upd_current f s))"
  by (cases "sc_ring s") (simp_all add: upd_current_def list.rel_refl)

text \<open>
  The processor changes hands: from a ring that is as the invariant says except that its first thread
  may have any state but must not be the idle one if it is parked, \<open>schedule\<close> restores the invariant.
\<close>

definition parked_ok :: "sched \<Rightarrow> bool" where
  "parked_ok s \<longleftrightarrow> ring_ok (sc_ring s) (sc_next_id s) \<and> 1 \<le> sc_slice s \<and> sc_slice s \<le> SCHED_TIME_SLICE"

lemma ring_ok_rotate:
  assumes "ring_ok r n" "\<forall>t\<in>set r. t_state t \<noteq> THREAD_RUNNING"
  shows "ring_ok (rotate k r) n"
proof -
  have "set (tl (rotate k r)) \<subseteq> set r"
    by (cases "rotate k r") (auto, metis list.set_intros(2) set_rotate)
  moreover have "map t_id (rotate k r) = rotate k (map t_id r)" by (simp add: rotate_map)
  ultimately show ?thesis using assms by (auto simp: ring_ok_def)
qed

lemma given_up_ok:
  assumes "ring_ok (sc_ring s) n"
  shows "ring_ok (given_up s) n" "\<forall>t\<in>set (given_up s). t_state t \<noteq> THREAD_RUNNING"
    "\<exists>t\<in>set (given_up s). runnable t \<and> t_id t = 0"
proof -
  obtain c ts where r: "sc_ring s = c # ts" using ring_ok_ne [OF assms] by (cases "sc_ring s") auto
  define c' where "c' = (if t_state c = THREAD_RUNNING then set_state THREAD_RUNNABLE c else c)"
  have g: "given_up s = c' # ts" by (simp add: given_up_def r c'_def)
  show run: "\<forall>t\<in>set (given_up s). t_state t \<noteq> THREAD_RUNNING"
    using assms by (auto simp: g r ring_ok_def c'_def)
  have eq: "t_id c' = t_id c" "t_priority c' = t_priority c" by (simp_all add: c'_def)
  have idle: "\<exists>t\<in>set (given_up s). t_id t = 0 \<and> t_priority t = -1 \<and> runnable t"
    using assms by (auto simp: g r ring_ok_def c'_def runnable_def)
  then show "ring_ok (given_up s) n"
    using assms run by (auto simp: g r ring_ok_def eq runnable_def)
  show "\<exists>t\<in>set (given_up s). runnable t \<and> t_id t = 0" using idle by blast
qed

lemma rotate_one_more: "k < length r \<Longrightarrow> r \<noteq> [] \<Longrightarrow> hd (rotate (k + 1) r) = rotate 1 r ! k"
proof -
  assume a: "k < length r" "r \<noteq> []"
  have "rotate (k + 1) r = rotate k (rotate 1 r)" by (simp only: rotate_rotate)
  moreover have "k < length (rotate 1 r)" using a by simp
  ultimately show ?thesis using rotate_head [of k "rotate 1 r"] by (simp only: list.sel)
qed

text \<open>The outcome of \<open>schedule\<close> when the idle thread can run.\<close>

lemma schedule_ok:
  assumes "parked_ok s"
  shows "sched_ok (schedule s)"
    and "\<exists>k<length (sc_ring s). sc_ring (schedule s) =
        (case rotate (k + 1) (given_up s) of [] \<Rightarrow> [] | t # ts \<Rightarrow> set_state THREAD_RUNNING t # ts) \<and>
      runnable (rotate 1 (given_up s) ! k) \<and>
      (\<forall>t\<in>set (given_up s). runnable t \<longrightarrow> t_priority t \<le> t_priority (rotate 1 (given_up s) ! k)) \<and>
      (\<forall>j<k. runnable (rotate 1 (given_up s) ! j) \<longrightarrow>
          t_priority (rotate 1 (given_up s) ! j) < t_priority (rotate 1 (given_up s) ! k))"
proof -
  have ok: "ring_ok (sc_ring s) (sc_next_id s)" using assms by (simp add: parked_ok_def)
  note g = given_up_ok [OF ok]
  have ne: "sc_ring s \<noteq> []" by (rule ring_ok_ne [OF ok])
  obtain k where k: "k < length (sc_ring s)" "runnable (rotate 1 (given_up s) ! k)"
    "\<forall>t\<in>set (given_up s). runnable t \<longrightarrow> t_priority t \<le> t_priority (rotate 1 (given_up s) ! k)"
    "\<forall>j<k. runnable (rotate 1 (given_up s) ! j) \<longrightarrow>
       t_priority (rotate 1 (given_up s) ! j) < t_priority (rotate 1 (given_up s) ! k)"
    "sc_ring (schedule s) = (case rotate (k + 1) (given_up s) of [] \<Rightarrow> [] | t # ts \<Rightarrow> set_state THREAD_RUNNING t # ts)"
    "schedule s = s\<lparr>sc_ring := sc_ring (schedule s),
       sc_slice := (if k + 1 = length (sc_ring s) then sc_slice s else SCHED_TIME_SLICE)\<rparr>"
    using schedule_cases [OF ne] g(3) by blast
  then show "\<exists>k<length (sc_ring s). sc_ring (schedule s) =
        (case rotate (k + 1) (given_up s) of [] \<Rightarrow> [] | t # ts \<Rightarrow> set_state THREAD_RUNNING t # ts) \<and>
      runnable (rotate 1 (given_up s) ! k) \<and>
      (\<forall>t\<in>set (given_up s). runnable t \<longrightarrow> t_priority t \<le> t_priority (rotate 1 (given_up s) ! k)) \<and>
      (\<forall>j<k. runnable (rotate 1 (given_up s) ! j) \<longrightarrow>
          t_priority (rotate 1 (given_up s) ! j) < t_priority (rotate 1 (given_up s) ! k))" by blast
  define r where "r = rotate (k + 1) (given_up s)"
  have rok: "ring_ok r (sc_next_id s)" unfolding r_def by (rule ring_ok_rotate [OF g(1,2)])
  obtain t ts where r: "r = t # ts" using ring_ok_ne [OF rok] by (cases r) auto
  have ring: "sc_ring (schedule s) = set_state THREAD_RUNNING t # ts" using k(5) r by (simp add: r_def)
  have "ring_ok (set_state THREAD_RUNNING t # ts) (sc_next_id s)"
    using rok by (auto simp: r ring_ok_def)
  then have "ring_ok (sc_ring (schedule s)) (sc_next_id (schedule s))"
    using k(6) ring by (metis sched.select_convs(2) sched.surjective sched.update_convs(1) sched.update_convs(4))
  moreover have "current (schedule s) = set_state THREAD_RUNNING t" by (simp add: current_def ring)
  moreover have "1 \<le> sc_slice (schedule s) \<and> sc_slice (schedule s) \<le> SCHED_TIME_SLICE"
    by (subst (1 2) k(6)) (use assms in \<open>simp add: parked_ok_def SCHED_TIME_SLICE_def\<close>)
  ultimately show "sched_ok (schedule s)" by (simp add: sched_ok_def)
qed

lemma upd_current_fields [simp]:
  "sc_next_id (upd_current f s) = sc_next_id s" "sc_slice (upd_current f s) = sc_slice s"
  "sc_jiffies (upd_current f s) = sc_jiffies s" "sc_started (upd_current f s) = sc_started s"
  "sc_foreground (upd_current f s) = sc_foreground s"
  by (simp_all add: upd_current_def)

lemma parked_upd:
  assumes "sched_ok s" "t_id (current s) \<noteq> 0"
    "\<forall>t. t_id (f t) = t_id t \<and> t_priority (f t) = t_priority t \<and> t_state (f t) \<noteq> THREAD_RUNNING"
  shows "parked_ok (upd_current f s)"
proof -
  obtain c ts where r: "sc_ring s = c # ts" using assms(1) ring_ok_ne by (cases "sc_ring s") (auto simp: sched_ok_def)
  have "ring_ok (f c # ts) (sc_next_id s)"
    using assms r by (auto simp: sched_ok_def ring_ok_def current_def)
  with assms(1) r show ?thesis by (simp add: parked_ok_def sched_ok_def upd_current_def)
qed

lemma sched_ok_link:
  assumes "sched_ok s" "t_id t = sc_next_id s" "t_state t = THREAD_RUNNABLE"
  shows "sched_ok (link_tail t s)"
proof -
  obtain c ts where r: "sc_ring s = c # ts" using assms(1) ring_ok_ne by (cases "sc_ring s") (auto simp: sched_ok_def)
  have "ring_ok (c # ts @ [t]) (sc_next_id s + 1)"
    using assms r by (fastforce simp: sched_ok_def ring_ok_def)
  with assms(1) r show ?thesis by (simp add: sched_ok_def link_tail_def current_def)
qed

lemma signal_send_calm [simp]: "calm t (signal_send sig t)"
  by (auto simp: calm_def signal_send_def Let_def)

lemma sched_ok_upd_first:
  "sched_ok s \<Longrightarrow> upd_first P f (sc_ring s) = Some r \<Longrightarrow> \<forall>t. calm t (f t) \<Longrightarrow> sched_ok (s\<lparr>sc_ring := r\<rparr>)"
  by (rule sched_ok_ring) (auto intro: upd_first_calm)

lemma sched_ok_map: "sched_ok s \<Longrightarrow> \<forall>t. calm t (f t) \<Longrightarrow> sched_ok (s\<lparr>sc_ring := map f (sc_ring s)\<rparr>)"
  by (rule sched_ok_ring) (auto intro: map_calm)

lemma sched_ok_kill: "sched_ok s \<Longrightarrow> sched_ok (snd (sched_kill pid sig s))"
proof (cases "pid < 0")
  case True
  assume "sched_ok s"
  then have "sched_ok (s\<lparr>sc_ring := map (\<lambda>t. if in_group (- pid) t then signal_send sig t else t) (sc_ring s)\<rparr>)"
    by (rule sched_ok_map) simp
  with True show ?thesis by (simp add: sched_kill_def)
next
  case False
  assume ok: "sched_ok s"
  have "sched_ok (s\<lparr>sc_ring := r\<rparr>)" if "upd_first (\<lambda>t. t_id t = pid) (signal_send sig) (sc_ring s) = Some r" for r
    by (rule sched_ok_upd_first [OF ok that]) simp
  with False ok show ?thesis by (simp add: sched_kill_def split: option.split)
qed

lemma sched_ok_setpgid: "sched_ok s \<Longrightarrow> sched_ok (snd (sched_setpgid pid pgid s))"
proof -
  assume ok: "sched_ok s"
  have "sched_ok (s\<lparr>sc_ring := r\<rparr>)"
    if "upd_first P (\<lambda>t. t\<lparr>t_pgid := (if pgid = 0 then t_id t else pgid)\<rparr>) (sc_ring s) = Some r" for P r
    by (rule sched_ok_upd_first [OF ok that]) (simp add: calm_def)
  then show ?thesis using ok by (simp add: sched_setpgid_def split: option.split)
qed

lemma sched_ok_wake: "sched_ok s \<Longrightarrow> sched_ok (sched_wake chan s)"
  unfolding sched_wake_def by (erule sched_ok_map) (auto simp: calm_def waits_on_def)

lemma sched_ok_clock:
  "sched_ok s \<Longrightarrow> 1 \<le> n \<Longrightarrow> n \<le> SCHED_TIME_SLICE \<Longrightarrow> sched_ok (s\<lparr>sc_jiffies := j, sc_slice := n\<rparr>)"
  by (simp add: sched_ok_def current_def)

lemma sched_ok_tick:
  assumes ok: "sched_ok s" shows "sched_ok (snd (sched_tick s))"
proof -
  define j where "j = sc_jiffies s + 1"
  define f where "f t = (if t_state t = THREAD_SLEEPING \<and> t_wake_tick t \<le> j then set_state THREAD_RUNNABLE t else t)" for t
  have c: "list_all2 calm (sc_ring s) (map f (sc_ring s))" by (rule map_calm) (simp add: f_def calm_def)
  have slice: "1 \<le> sc_slice s" "sc_slice s \<le> SCHED_TIME_SLICE" using ok by (simp_all add: sched_ok_def)
  have "sched_ok s'" if "sc_ring s' = map f (sc_ring s)" "sc_next_id s' = sc_next_id s"
      "1 \<le> sc_slice s'" "sc_slice s' \<le> SCHED_TIME_SLICE" for s'
    by (rule sched_ok_calm [OF ok]) (simp_all add: that c)
  then show ?thesis using ok slice
    by (auto simp: sched_tick_def Let_def j_def [symmetric] f_def [symmetric] SCHED_TIME_SLICE_def)
qed

lemma sched_ok_upd: "sched_ok s \<Longrightarrow> \<forall>t. calm t (f t) \<Longrightarrow> sched_ok (upd_current f s)"
  by (rule sched_ok_calm) (auto simp: sched_ok_def dest: upd_current_calm)

lemma sched_ok_parked: "sched_ok s \<Longrightarrow> parked_ok s" by (simp add: sched_ok_def parked_ok_def)

lemma upd_current_id: "sc_ring s \<noteq> [] \<Longrightarrow> t_id (f (current s)) = t_id (current s) \<Longrightarrow> t_id (current (upd_current f s)) = t_id (current s)"
  by (cases "sc_ring s") (auto simp: current_def upd_current_def)

lemma wake_current_id: "sc_ring s \<noteq> [] \<Longrightarrow> t_id (current (sched_wake chan s)) = t_id (current s)"
  by (cases "sc_ring s") (auto simp: current_def sched_wake_def)

lemma sched_ok_exit:
  assumes ok: "sched_ok s" and id: "t_id (current s) \<noteq> 0" and ex: "thread_exit inq status st s = (ev, st', s')"
  shows "sched_ok s'"
proof -
  define s1 where "s1 = upd_current (\<lambda>t. t\<lparr>t_fds := replicate 16 None\<rparr>) s"
  obtain nw st1 where rel: "seat_release_pid (t_id (current s1)) st = (nw, st1)" by force
  define s2 where "s2 = (if nw \<noteq> st_active st \<and> nw > 0 then sched_wake inq s1 else s1)"
  define s3 where "s3 = upd_current (\<lambda>t. t\<lparr>t_exit_status := status, t_state := THREAD_ZOMBIE\<rparr>) s2"
  define s4 where "s4 = s3\<lparr>sc_ring := map (\<lambda>t. if Some (t_id t) = t_parent (current s3) \<and> t_state t = THREAD_SLEEPING
     then set_state THREAD_RUNNABLE t else t) (sc_ring s3)\<rparr>"
  have s': "s' = schedule s4"
    using ex unfolding thread_exit_def Let_def s1_def [symmetric] rel
    by (simp add: s2_def [symmetric] s3_def [symmetric] s4_def [symmetric])
  have ne: "sc_ring s \<noteq> []" using ok ring_ok_ne by (auto simp: sched_ok_def)
  have ok1: "sched_ok s1" unfolding s1_def by (rule sched_ok_upd [OF ok]) (simp add: calm_def)
  have ne1: "sc_ring s1 \<noteq> []" using ok1 ring_ok_ne by (auto simp: sched_ok_def)
  have id1: "t_id (current s1) = t_id (current s)" unfolding s1_def by (rule upd_current_id [OF ne]) simp
  have ok2: "sched_ok s2" using ok1 by (simp add: s2_def sched_ok_wake)
  have id2: "t_id (current s2) \<noteq> 0" using id id1 wake_current_id [OF ne1] by (simp add: s2_def)
  have ok3: "parked_ok s3" unfolding s3_def by (rule parked_upd [OF ok2 id2]) simp
  have "list_all2 calm (sc_ring s3) (sc_ring s4)"
    unfolding s4_def by simp (rule map_calm, simp add: calm_def)
  then have "parked_ok s4" using ok3 by (auto simp: parked_ok_def s4_def dest: ring_ok_calm)
  then show ?thesis unfolding s' by (rule schedule_ok(1))
qed

lemma wait_zombie:
  assumes "List.find (\<lambda>t. t_state t = THREAD_ZOMBIE) (wait_scan s) = Some c" "sc_ring s \<noteq> []"
  shows "c \<in> set (sc_ring s)" "t_state c = THREAD_ZOMBIE" "t_parent c = Some (t_id (current s))"
proof -
  have "c \<in> set (wait_scan s) \<and> t_state c = THREAD_ZOMBIE"
    using assms(1) unfolding find_Some_iff by auto
  moreover have "set (wait_scan s) \<subseteq> {t \<in> set (sc_ring s). t_parent t = Some (t_id (current s))}"
    using assms(2) by (cases "sc_ring s") (auto simp: wait_scan_def)
  ultimately show "c \<in> set (sc_ring s)" "t_state c = THREAD_ZOMBIE" "t_parent c = Some (t_id (current s))"
    by blast+
qed

lemma ring_ok_filter:
  assumes "ring_ok (c # ts) n" "t_id c \<noteq> z" "z \<noteq> 0"
  shows "ring_ok (c # filter (\<lambda>t. t_id t \<noteq> z) ts) n"
proof -
  have "distinct (map t_id (filter (\<lambda>t. t_id t \<noteq> z) ts))"
    using assms(1) by (simp add: ring_ok_def distinct_map_filter)
  with assms show ?thesis by (auto simp: ring_ok_def)
qed

lemma sched_ok_wait:
  assumes ok: "sched_ok s" and id: "t_id (current s) \<noteq> 0" and w: "sched_wait s = (r, s')"
  shows "sched_ok s'"
proof -
  obtain c ts where ring: "sc_ring s = c # ts" using ok ring_ok_ne by (cases "sc_ring s") (auto simp: sched_ok_def)
  show ?thesis
  proof (cases "List.find (\<lambda>t. t_state t = THREAD_ZOMBIE) (wait_scan s)")
    case (Some z)
    note zz = wait_zombie [OF Some]
    have z: "z \<in> set (sc_ring s)" "t_state z = THREAD_ZOMBIE" using zz ring by auto
    have inj: "t_id t = t_id z \<Longrightarrow> t \<in> set (sc_ring s) \<Longrightarrow> t = z" for t
      using ok z by (auto simp: sched_ok_def ring_ok_def distinct_map inj_on_def)
    have c: "t_id c \<noteq> t_id z" using inj [of c] z ring ok by (auto simp: sched_ok_def current_def)
    obtain idle where i: "idle \<in> set (sc_ring s)" "t_id idle = 0" "t_priority idle = -1"
      "t_state idle = THREAD_RUNNING \<or> t_state idle = THREAD_RUNNABLE" using ok by (auto simp: sched_ok_def ring_ok_def)
    then have "t_id idle \<noteq> t_id z" using inj [of idle] z by auto
    then have "ring_ok (c # filter (\<lambda>t. t_id t \<noteq> t_id z) ts) (sc_next_id s)"
      using ok i(2) c ring by (intro ring_ok_filter) (auto simp: sched_ok_def)
    moreover have "sc_ring s' = c # filter (\<lambda>t. t_id t \<noteq> t_id z) ts" "sc_next_id s' = sc_next_id s" "sc_slice s' = sc_slice s"
      using w Some c by (auto simp: sched_wait_def Let_def ring)
    ultimately show ?thesis using ok ring by (simp add: sched_ok_def current_def)
  next
    case None
    show ?thesis
    proof (cases "wait_scan s = []")
      case True
      then show ?thesis using None w ok by (auto simp: sched_wait_def Let_def)
    next
      case False
      let ?s = "s\<lparr>sc_foreground := Some (t_id (last (wait_scan s)))\<rparr>"
      have "sched_ok ?s" "t_id (current ?s) \<noteq> 0" using ok id by (simp_all add: sched_ok_def current_def)
      then have "parked_ok (upd_current (set_state THREAD_SLEEPING) ?s)" by (rule parked_upd) simp
      then show ?thesis using None False w by (auto simp: sched_wait_def Let_def schedule_ok(1))
    qed
  qed
qed

text \<open>
  Every state the calls of the kernel reach. The idle thread only yields: it never sleeps, blocks,
  exits or waits for a child.
\<close>

inductive sched_run :: "sched \<Rightarrow> bool" where
  run_init: "sched_run (sched_init s)"
| run_create: "sched_run s \<Longrightarrow> thread_create stack tramp f arg prio s = (t, s') \<Longrightarrow> sched_run s'"
| run_image: "sched_run s \<Longrightarrow> thread_create_image stack tramp entry utop as prio s = (t, s') \<Longrightarrow> sched_run s'"
| run_fork: "sched_run s \<Longrightarrow> sched_fork kstack ret as tf s = (pid, dups, s') \<Longrightarrow> sched_run s'"
| run_kill: "sched_run s \<Longrightarrow> sched_kill pid sig s = (r, s') \<Longrightarrow> sched_run s'"
| run_setpgid: "sched_run s \<Longrightarrow> sched_setpgid pid pgid s = (r, s') \<Longrightarrow> sched_run s'"
| run_set_as: "sched_run s \<Longrightarrow> sched_run (sched_set_current_as as s)"
| run_tick: "sched_run s \<Longrightarrow> sched_tick s = (resched, s') \<Longrightarrow> sched_run s'"
| run_yield: "sched_run s \<Longrightarrow> sched_run (yield s)"
| run_wake: "sched_run s \<Longrightarrow> sched_run (sched_wake chan s)"
| run_sleep: "sched_run s \<Longrightarrow> t_id (current s) \<noteq> 0 \<Longrightarrow> sched_run (sleep_ticks n s)"
| run_block: "sched_run s \<Longrightarrow> t_id (current s) \<noteq> 0 \<Longrightarrow> sched_run (sched_block chan s)"
| run_event: "sched_run s \<Longrightarrow> t_id (current s) \<noteq> 0 \<Longrightarrow> sched_run (sched_wait_event chan n s)"
| run_resume: "sched_run s \<Longrightarrow> sched_run (block_resume s)"
| run_exit: "sched_run s \<Longrightarrow> t_id (current s) \<noteq> 0 \<Longrightarrow> thread_exit inq status st s = (ev, st', s') \<Longrightarrow> sched_run s'"
| run_wait: "sched_run s \<Longrightarrow> t_id (current s) \<noteq> 0 \<Longrightarrow> sched_wait s = (w, s') \<Longrightarrow> sched_run s'"

lemma sched_run_ok: "sched_run s \<Longrightarrow> sched_ok s"
proof (induction rule: sched_run.induct)
  case (run_init s)
  then show ?case by (simp add: sched_ok_def ring_ok_def sched_init_def boot_thread_def sig_init_def current_def SCHED_TIME_SLICE_def)
next
  case (run_create s stack tramp f arg prio t s')
  then show ?case by (auto simp: thread_create_def Let_def fresh_thread_def sig_init_def intro!: sched_ok_link)
next
  case (run_image s stack tramp entry utop as prio t s')
  then show ?case by (auto simp: thread_create_image_def Let_def fresh_thread_def sig_init_def intro!: sched_ok_link)
next
  case (run_fork s kstack ret as tf pid dups s')
  then show ?case by (auto simp: sched_fork_def Let_def sig_init_def intro!: sched_ok_link)
next
  case (run_kill s pid sig r s')
  then show ?case using sched_ok_kill [of s pid sig] by simp
next
  case (run_setpgid s pid pgid r s')
  then show ?case using sched_ok_setpgid [of s pid pgid] by simp
next
  case (run_set_as s as)
  then show ?case unfolding sched_set_current_as_def by (intro sched_ok_upd) (simp_all add: calm_def)
next
  case (run_tick s resched s')
  then show ?case using sched_ok_tick [of s] by simp
next
  case (run_yield s)
  then show ?case unfolding yield_def by (intro schedule_ok(1) sched_ok_parked)
next
  case (run_wake s chan)
  then show ?case by (intro sched_ok_wake)
next
  case (run_sleep s n)
  then show ?case unfolding sleep_ticks_def by (intro schedule_ok(1) parked_upd) auto
next
  case (run_block s chan)
  then show ?case unfolding sched_block_def by (intro schedule_ok(1) parked_upd) auto
next
  case (run_event s chan n)
  then show ?case unfolding sched_wait_event_def by (intro schedule_ok(1) parked_upd) auto
next
  case (run_resume s)
  then show ?case unfolding block_resume_def by (intro sched_ok_upd) (simp_all add: calm_def)
next
  case (run_exit s inq status st ev st' s')
  then show ?case using sched_ok_exit by blast
next
  case (run_wait s w s')
  then show ?case using sched_ok_wait by blast
qed

text \<open>
  C7. The run queue is sound in every reachable state: exactly one thread is RUNNING and it is the
  current one, ids are unique and never ahead of the id counter, there is always a thread that can
  run (the idle thread, at the lowest priority), and the time slice is between 1 and its full length.
\<close>
theorem sched_invariant:
  assumes "sched_run s"
  shows "(\<forall>t\<in>set (sc_ring s). t_state t = THREAD_RUNNING \<longleftrightarrow> t = current s) \<and> current s \<in> set (sc_ring s) \<and>
    distinct (map t_id (sc_ring s)) \<and> (\<forall>t\<in>set (sc_ring s). 0 \<le> t_id t \<and> t_id t < sc_next_id s) \<and>
    (\<exists>t\<in>set (sc_ring s). t_id t = 0 \<and> t_priority t = -1 \<and> (t_state t = THREAD_RUNNING \<or> t_state t = THREAD_RUNNABLE)) \<and>
    1 \<le> sc_slice s \<and> sc_slice s \<le> SCHED_TIME_SLICE"
proof -
  have ok: "sched_ok s" by (rule sched_run_ok [OF assms])
  obtain c ts where r: "sc_ring s = c # ts" using ok ring_ok_ne by (cases "sc_ring s") (auto simp: sched_ok_def)
  show ?thesis using ok unfolding sched_ok_def ring_ok_def r current_def by auto
qed

text \<open>
  C36. The processor goes to the best thread: after a thread gives up the processor the current thread
  is one that could run and that no runnable thread outranks; of its equals it is the first in ring
  order after the old current thread; and the other threads keep their order and their state.
\<close>
theorem schedule_best:
  assumes "sched_run s"
  shows "\<exists>k<length (sc_ring s). \<exists>t. t = rotate 1 (given_up s) ! k \<and> runnable t \<and>
    current (yield s) = set_state THREAD_RUNNING t \<and>
    (\<forall>u\<in>set (given_up s). runnable u \<longrightarrow> t_priority u \<le> t_priority t) \<and>
    (\<forall>j<k. runnable (rotate 1 (given_up s) ! j) \<longrightarrow> t_priority (rotate 1 (given_up s) ! j) < t_priority t) \<and>
    tl (sc_ring (yield s)) = tl (rotate (k + 1) (given_up s))"
proof -
  have ok: "parked_ok s" by (rule sched_ok_parked [OF sched_run_ok [OF assms]])
  then have ne: "sc_ring s \<noteq> []" by (auto simp: parked_ok_def dest: ring_ok_ne)
  then have len: "length (given_up s) = length (sc_ring s)" "given_up s \<noteq> []"
    by (auto simp: given_up_def split: list.splits)
  obtain k where k: "k < length (sc_ring s)" "sc_ring (schedule s) =
        (case rotate (k + 1) (given_up s) of [] \<Rightarrow> [] | t # ts \<Rightarrow> set_state THREAD_RUNNING t # ts)"
      "runnable (rotate 1 (given_up s) ! k)"
      "\<forall>t\<in>set (given_up s). runnable t \<longrightarrow> t_priority t \<le> t_priority (rotate 1 (given_up s) ! k)"
      "\<forall>j<k. runnable (rotate 1 (given_up s) ! j) \<longrightarrow>
          t_priority (rotate 1 (given_up s) ! j) < t_priority (rotate 1 (given_up s) ! k)"
    using schedule_ok(2) [OF ok] by blast
  have hd: "hd (rotate (k + 1) (given_up s)) = rotate 1 (given_up s) ! k"
    using rotate_one_more [of k "given_up s"] k(1) len by simp
  obtain t ts where r: "rotate (k + 1) (given_up s) = t # ts" using len(2) by (cases "rotate (k + 1) (given_up s)") auto
  then have "t = rotate 1 (given_up s) ! k" using hd by simp
  with k r show ?thesis by (intro exI [of _ k]) (auto simp: yield_def current_def)
qed

definition demo_sched :: sched where
  "demo_sched = snd (thread_create 4096 1 2 3 5 (snd (thread_create 8192 1 2 3 5
     (sched_init \<lparr>sc_ring = [], sc_next_id = 0, sc_foreground = None, sc_slice = 0, sc_jiffies = 7, sc_started = False\<rparr>))))"

lemma demo_sched_run: "sched_run demo_sched"
  unfolding demo_sched_def by (rule run_create [OF run_create [OF run_init prod.collapse [symmetric]] prod.collapse [symmetric]])

theorem sched_invariant_witness: "distinct (map t_id (sc_ring demo_sched)) \<and> current demo_sched \<in> set (sc_ring demo_sched)"
  using sched_invariant [OF demo_sched_run] by blast

lemma demo_sched_ring: "map (\<lambda>t. (t_id t, t_priority t, t_state t)) (sc_ring demo_sched) =
    [(0, -1, THREAD_RUNNING), (1, 5, THREAD_RUNNABLE), (2, 5, THREAD_RUNNABLE)]"
  by (simp add: demo_sched_def thread_create_def Let_def fresh_thread_def sig_init_def link_tail_def sched_init_def
      boot_thread_def)

theorem schedule_best_witness: "t_priority (current (yield demo_sched)) = 5"
proof -
  obtain b x y where r: "sc_ring demo_sched = [b, x, y]"
    using demo_sched_ring by (auto simp: map_eq_Cons_conv)
  with demo_sched_ring have p: "t_state b = THREAD_RUNNING" "t_priority b = -1" "t_priority x = 5" "t_state x = THREAD_RUNNABLE"
    "t_priority y = 5" by simp_all
  have len: "length (sc_ring demo_sched) = 3" by (simp add: r)
  from schedule_best [OF demo_sched_run, unfolded len] obtain k where k: "k < 3"
    "current (yield demo_sched) = set_state THREAD_RUNNING (rotate 1 (given_up demo_sched) ! k)"
    "\<forall>u\<in>set (given_up demo_sched). runnable u \<longrightarrow> t_priority u \<le> t_priority (rotate 1 (given_up demo_sched) ! k)"
    by blast
  have "5 \<le> t_priority (rotate 1 (given_up demo_sched) ! k)" using k(3) p by (auto simp: r given_up_def runnable_def)
  moreover have "k = 0 \<or> k = 1 \<or> k = 2" using k(1) by auto
  then have "t_priority (rotate 1 (given_up demo_sched) ! k) \<le> 5" using p by (auto simp: r given_up_def)
  ultimately show ?thesis using k(2) by simp
qed

subsection \<open>Round robin\<close>

text \<open>Where the thread with id \<open>i\<close> stands in the ring.\<close>

definition at_pos :: "int \<Rightarrow> nat \<Rightarrow> sched \<Rightarrow> bool" where
  "at_pos i k s \<longleftrightarrow> k < length (sc_ring s) \<and> t_id (sc_ring s ! k) = i"

text \<open>The thread \<open>i\<close> may run and nobody outranks it.\<close>

definition top_runnable :: "int \<Rightarrow> sched \<Rightarrow> bool" where
  "top_runnable i s \<longleftrightarrow> (\<exists>t\<in>set (sc_ring s). t_id t = i \<and> (runnable t \<or> t_state t = THREAD_RUNNING) \<and>
     (\<forall>u\<in>set (sc_ring s). runnable u \<or> t_state u = THREAD_RUNNING \<longrightarrow> t_priority u \<le> t_priority t))"

lemma given_up_members:
  "t \<in> set (sc_ring s) \<Longrightarrow> \<exists>u\<in>set (given_up s). t_id u = t_id t \<and> t_priority u = t_priority t \<and>
     (runnable u \<longleftrightarrow> runnable t \<or> t = current s \<and> t_state t = THREAD_RUNNING)"
  by (cases "sc_ring s") (auto simp: given_up_def current_def runnable_def)

lemma given_up_nth:
  "k < length (sc_ring s) \<Longrightarrow> t_id (given_up s ! k) = t_id (sc_ring s ! k) \<and>
     t_priority (given_up s ! k) = t_priority (sc_ring s ! k) \<and>
     (t_state (sc_ring s ! k) = THREAD_RUNNABLE \<longrightarrow> runnable (given_up s ! k))"
  by (cases "sc_ring s"; cases k) (auto simp: given_up_def runnable_def)

lemma given_up_length [simp]: "length (given_up s) = length (sc_ring s)"
  by (cases "sc_ring s") (simp_all add: given_up_def)

lemma yield_moves_up:
  assumes ok: "sched_ok s" and pos: "at_pos i (Suc n) s" and top: "top_runnable i s"
  shows "\<exists>m\<le>n. at_pos i m (yield s) \<and> top_runnable i (yield s) \<and> sched_ok (yield s)"
proof -
  have park: "parked_ok s" by (rule sched_ok_parked [OF ok])
  have dist: "distinct (map t_id (sc_ring s))" using ok by (simp add: sched_ok_def ring_ok_def)
  let ?g = "given_up s"
  let ?len = "length (sc_ring s)"
  have n: "Suc n < ?len" "t_id (sc_ring s ! Suc n) = i" using pos by (simp_all add: at_pos_def)
  obtain t where t: "t \<in> set (sc_ring s)" "t_id t = i" "runnable t \<or> t_state t = THREAD_RUNNING"
    "\<forall>u\<in>set (sc_ring s). runnable u \<or> t_state u = THREAD_RUNNING \<longrightarrow> t_priority u \<le> t_priority t"
    using top by (auto simp: top_runnable_def)
  have tn: "t = sc_ring s ! Suc n"
    using t(1,2) n dist by (metis distinct_map inj_onD nth_mem)
  have run: "runnable t"
  proof -
    have "sc_ring s ! Suc n \<in> set (tl (sc_ring s))" using n by (cases "sc_ring s") auto
    then show ?thesis using t(3) ok by (auto simp: tn sched_ok_def ring_ok_def)
  qed
  have gn: "t_id (?g ! Suc n) = i" "t_priority (?g ! Suc n) = t_priority t" "runnable (?g ! Suc n)"
    using given_up_nth [OF n(1)] run tn n by (auto simp: runnable_def)
  have scan: "rotate 1 ?g ! n = ?g ! Suc n" 
    using n nth_rotate [of n ?g 1] by (simp del: rotate_Suc)
  have gtop: "\<forall>u\<in>set ?g. runnable u \<longrightarrow> t_priority u \<le> t_priority t"
    using t(4) by (cases "sc_ring s") (auto simp: given_up_def runnable_def split: if_splits)
  obtain k where k: "k < ?len" "sc_ring (schedule s) =
        (case rotate (k + 1) ?g of [] \<Rightarrow> [] | t # ts \<Rightarrow> set_state THREAD_RUNNING t # ts)"
      "runnable (rotate 1 ?g ! k)"
      "\<forall>t\<in>set ?g. runnable t \<longrightarrow> t_priority t \<le> t_priority (rotate 1 ?g ! k)"
      "\<forall>j<k. runnable (rotate 1 ?g ! j) \<longrightarrow> t_priority (rotate 1 ?g ! j) < t_priority (rotate 1 ?g ! k)"
    using schedule_ok(2) [OF park] by blast
  have kn: "k \<le> n"
  proof (rule ccontr)
    assume "\<not> k \<le> n"
    then have "t_priority (rotate 1 ?g ! n) < t_priority (rotate 1 ?g ! k)" using k(5) [rule_format, of n] scan gn by simp
    moreover have "rotate 1 ?g ! k \<in> set ?g" using k(1) by (metis length_rotate given_up_length nth_mem set_rotate)
    ultimately show False using gtop k(3) scan gn(2) by fastforce
  qed
  have "?g \<noteq> []" using k(1) given_up_length [of s] by (metis list.size(3) not_less_zero)
  then obtain h ts where r: "rotate (k + 1) ?g = h # ts" by (cases "rotate (k + 1) ?g") auto
  have ring: "sc_ring (yield s) = set_state THREAD_RUNNING h # ts" using k(2) r by (simp add: yield_def)
  have "rotate (k + 1) ?g ! (n - k) = ?g ! ((k + 1 + (n - k)) mod ?len)"
    using n kn nth_rotate [of "n - k" ?g "k + 1"] by (simp add: ac_simps)
  also have "\<dots> = ?g ! Suc n" using kn n by simp
  finally have at: "(h # ts) ! (n - k) = ?g ! Suc n" by (simp only: r)
  have lr: "length (h # ts) = ?len" by (metis length_rotate given_up_length r)
  have pos': "at_pos i (n - k) (yield s)"
    using at gn(1) n lr unfolding at_pos_def ring by (cases "n - k") auto
  have "set (h # ts) = set ?g" by (metis r set_rotate)
  then have all: "\<forall>u\<in>set (sc_ring (yield s)). runnable u \<or> t_state u = THREAD_RUNNING \<longrightarrow> t_priority u \<le> t_priority t"
  proof -
    have g: "\<forall>u\<in>set ?g. t_state u \<noteq> THREAD_RUNNING"
      using given_up_ok(2) [of s "sc_next_id s"] ok unfolding sched_ok_def by blast
    have "runnable h" using k(3) rotate_one_more [of k ?g] k(1) r by (metis given_up_length list.sel(1) length_0_conv list.discI list.size(3) not_less_zero)
    then show ?thesis using \<open>set (h # ts) = set ?g\<close> g gtop unfolding ring by auto
  qed
  have "sc_ring (yield s) ! (n - k) \<in> set (sc_ring (yield s))" using pos' by (simp add: at_pos_def)
  moreover have "runnable (sc_ring (yield s) ! (n - k)) \<or> t_state (sc_ring (yield s) ! (n - k)) = THREAD_RUNNING"
    "t_priority (sc_ring (yield s) ! (n - k)) = t_priority t" "t_id (sc_ring (yield s) ! (n - k)) = i"
    using at gn pos' unfolding ring at_pos_def by (cases "n - k"; auto)+
  ultimately have "top_runnable i (yield s)" using all unfolding top_runnable_def by metis
  with pos' show ?thesis using schedule_ok(1) [OF park]
    by (intro exI [of _ "n - k"]) (simp add: yield_def)
qed

text \<open>
  C32. No starvation among equals: a thread that may run and that nobody outranks gets the processor
  within as many yields as it has threads in front of it in the ring.
\<close>
theorem round_robin_fair:
  assumes "sched_run s" "at_pos i n s" "top_runnable i s"
  shows "\<exists>k\<le>n. t_id (current ((yield ^^ k) s)) = i"
proof -
  have "sched_ok s \<Longrightarrow> at_pos i n s \<Longrightarrow> top_runnable i s \<Longrightarrow> \<exists>k\<le>n. t_id (current ((yield ^^ k) s)) = i" for s
  proof (induction n arbitrary: s rule: less_induct)
    case (less n)
    show ?case
    proof (cases n)
      case 0
      with less.prems show ?thesis by (cases "sc_ring s") (auto simp: at_pos_def current_def)
    next
      case (Suc n')
      obtain m where m: "m \<le> n'" "at_pos i m (yield s)" "top_runnable i (yield s)" "sched_ok (yield s)"
        using yield_moves_up [OF less.prems(1) _ less.prems(3), of n'] less.prems(2) Suc by blast
      then obtain k where "k \<le> m" "t_id (current ((yield ^^ k) (yield s))) = i"
        using less.IH [of m "yield s"] Suc by auto
      then show ?thesis using m(1) Suc
        by (intro exI [of _ "Suc k"]) (simp add: funpow_swap1)
    qed
  qed
  then show ?thesis using sched_run_ok [OF assms(1)] assms(2,3) by blast
qed

theorem round_robin_fair_witness: "\<exists>k\<le>2. t_id (current ((yield ^^ k) demo_sched)) = 2"
proof -
  obtain b x y where r: "sc_ring demo_sched = [b, x, y]"
    using demo_sched_ring by (auto simp: map_eq_Cons_conv)
  with demo_sched_ring have p: "t_id y = 2" "t_state y = THREAD_RUNNABLE" "t_priority b = -1" "t_priority x = 5" "t_priority y = 5"
    by simp_all
  have "at_pos 2 2 demo_sched" using p by (simp add: at_pos_def r)
  moreover have "top_runnable 2 demo_sched" using p by (auto simp: top_runnable_def r runnable_def)
  ultimately show ?thesis by (rule round_robin_fair [OF demo_sched_run])
qed

subsection \<open>Sleeping, waking and signalling\<close>

text \<open>The thread with id \<open>i\<close>; ids are unique in a ring.\<close>

definition thread_of :: "int \<Rightarrow> sched \<Rightarrow> thread option" where
  "thread_of i s = List.find (\<lambda>t. t_id t = i) (sc_ring s)"

fun ticks :: "nat \<Rightarrow> sched \<Rightarrow> sched" where
  "ticks 0 s = s"
| "ticks (Suc n) s = ticks n (snd (sched_tick s))"

lemma find_map_id: "\<forall>t. t_id (f t) = t_id t \<Longrightarrow>
    List.find (\<lambda>t. t_id t = i) (map f r) = map_option f (List.find (\<lambda>t. t_id t = i) r)"
  by (induction r) auto

lemma tick_thread:
  assumes "sc_started s"
  shows "thread_of i (snd (sched_tick s)) = map_option (\<lambda>t. if t_state t = THREAD_SLEEPING \<and>
      t_wake_tick t \<le> sc_jiffies s + 1 then set_state THREAD_RUNNABLE t else t) (thread_of i s)"
    "sc_jiffies (snd (sched_tick s)) = sc_jiffies s + 1" "sc_started (snd (sched_tick s))"
  using assms by (auto simp: sched_tick_def Let_def thread_of_def find_map_id)

text \<open>
  C37. A sleep lasts as long as it was asked to: with only timer ticks happening, a thread that sleeps
  until \<open>n\<close> ticks from now is still asleep after every smaller number of ticks and runnable after
  exactly \<open>n\<close>, provided the tick counter does not wrap.
\<close>
theorem sleep_exact:
  assumes "sc_started s" "thread_of i s = Some t" "t_state t = THREAD_SLEEPING"
    "t_wake_tick t = sc_jiffies s + of_nat n" "unat (sc_jiffies s) + n < 2 ^ 64"
  shows "(\<forall>m<n. thread_of i (ticks m s) = Some t) \<and>
    (0 < n \<longrightarrow> thread_of i (ticks n s) = Some (set_state THREAD_RUNNABLE t))"
  using assms
proof (induction n arbitrary: s)
  case (Suc n)
  let ?s = "snd (sched_tick s)"
  have j1: "unat (sc_jiffies s + 1) = unat (sc_jiffies s) + 1"
    using Suc.prems(5) by (simp add: unat_word_ariths)
  have jn: "unat (sc_jiffies s + of_nat (Suc n)) = unat (sc_jiffies s) + Suc n"
    using Suc.prems(5) by (simp add: unat_word_ariths unat_of_nat)
  have due: "t_wake_tick t \<le> sc_jiffies s + 1 \<longleftrightarrow> n = 0"
    unfolding Suc.prems(4) word_le_nat_alt jn j1 by simp
  note tk = tick_thread(1) [OF Suc.prems(1), of i] tick_thread(2,3) [OF Suc.prems(1)]
  show ?case
  proof (cases "n = 0")
    case True
    then show ?thesis using Suc.prems due tk(1) by simp
  next
    case False
    have "thread_of i ?s = Some t" using Suc.prems due False tk(1) by simp
    moreover have "t_wake_tick t = sc_jiffies ?s + of_nat n" using Suc.prems(4) tk(2) by simp
    moreover have "unat (sc_jiffies ?s) + n < 2 ^ 64" using Suc.prems(5) j1 tk(2) by simp
    ultimately have IH: "(\<forall>m<n. thread_of i (ticks m ?s) = Some t) \<and>
        (0 < n \<longrightarrow> thread_of i (ticks n ?s) = Some (set_state THREAD_RUNNABLE t))"
      using Suc.IH [of ?s] tk(3) Suc.prems(3) by blast
    have "thread_of i (ticks m s) = Some t" if "m < Suc n" for m
      using that IH Suc.prems(2) by (cases m) auto
    then show ?thesis using IH False by simp
  qed
qed simp

definition demo_sleeper :: thread where
  "demo_sleeper = boot_thread\<lparr>t_id := 1, t_state := THREAD_SLEEPING, t_wake_tick := 2\<rparr>"

theorem sleep_exact_witness:
  "thread_of 1 (ticks 1 (demo_sched\<lparr>sc_ring := [boot_thread, demo_sleeper]\<rparr>)) = Some demo_sleeper \<and>
   thread_of 1 (ticks 2 (demo_sched\<lparr>sc_ring := [boot_thread, demo_sleeper]\<rparr>)) = Some (set_state THREAD_RUNNABLE demo_sleeper)"
proof -
  let ?s = "demo_sched\<lparr>sc_ring := [boot_thread, demo_sleeper]\<rparr>"
  have j: "sc_jiffies ?s = 0" "sc_started ?s"
    by (simp_all add: demo_sched_def thread_create_def Let_def link_tail_def sched_init_def)
  have "thread_of 1 ?s = Some demo_sleeper" by (simp add: thread_of_def demo_sleeper_def boot_thread_def sig_init_def)
  moreover have "t_state demo_sleeper = THREAD_SLEEPING" "t_wake_tick demo_sleeper = sc_jiffies ?s + of_nat 2"
    "unat (sc_jiffies ?s) + 2 < 2 ^ 64" unfolding j by (simp_all add: demo_sleeper_def)
  ultimately have "(\<forall>m<2. thread_of 1 (ticks m ?s) = Some demo_sleeper) \<and>
      (0 < (2::nat) \<longrightarrow> thread_of 1 (ticks 2 ?s) = Some (set_state THREAD_RUNNABLE demo_sleeper))"
    using sleep_exact [OF j(2)] by blast
  moreover have "(1::nat) < 2" "0 < (2::nat)" by simp_all
  ultimately show ?thesis by blast
qed

text \<open>
  A thread that sleeps for a time is made runnable early when one of its children exits: \<open>thread_exit\<close>
  takes every sleeping parent for one that waits for the child.
\<close>

lemma exit_wakes_sleeping_parent:
  fixes s :: sched and status :: int
  assumes "sc_ring s = c # ts" "thread_of i s = Some p" "t_state p = THREAD_SLEEPING" "t_parent c = Some i" "t_id c \<noteq> i"
  defines "s1 \<equiv> upd_current (\<lambda>t. t\<lparr>t_exit_status := status, t_state := THREAD_ZOMBIE\<rparr>) s"
  shows "thread_of i (s1\<lparr>sc_ring := map (\<lambda>t. if Some (t_id t) = t_parent (current s1) \<and> t_state t = THREAD_SLEEPING
      then set_state THREAD_RUNNABLE t else t) (sc_ring s1)\<rparr>) = Some (set_state THREAD_RUNNABLE p)"
proof -
  have "thread_of i s1 = Some p" using assms by (simp add: thread_of_def upd_current_def)
  moreover have "t_parent (current s1) = Some i" using assms by (simp add: current_def upd_current_def)
  moreover have "t_id p = i" using assms(2) unfolding thread_of_def find_Some_iff by auto
  ultimately show ?thesis using assms(3) by (simp add: thread_of_def find_map_id)
qed


text \<open>
  A signal to a process group reaches the whole job and nobody else: each live member gets the
  signal pending and is no longer asleep, every other thread is unchanged, and the result says whether
  there was a live member.
\<close>
theorem kill_group:
  assumes "0 < g" "0 < sig" "sig < NSIG" "sched_kill (- g) sig s = (r, s')"
  shows "length (sc_ring s') = length (sc_ring s) \<and> (r = 0 \<longleftrightarrow> (\<exists>t\<in>set (sc_ring s). in_group g t)) \<and> (r = 0 \<or> r = -1) \<and>
    (\<forall>k<length (sc_ring s). let t = sc_ring s ! k; t' = sc_ring s' ! k in
       if in_group g t
       then bit (t_sig_pending t') (nat sig) \<and> t_state t' \<noteq> THREAD_SLEEPING \<and> t_state t' \<noteq> THREAD_BLOCKED \<and> t_id t' = t_id t
       else t' = t)"
proof -
  have s': "sc_ring s' = map (\<lambda>t. if in_group g t then signal_send sig t else t) (sc_ring s)"
    and r: "r = (if \<exists>t\<in>set (sc_ring s). in_group g t then 0 else -1)"
    using assms(1,4) by (auto simp: sched_kill_def)
  have n: "nat sig < 64" using assms(3) by (simp add: NSIG_def)
  have "bit (t_sig_pending (signal_send sig t)) (nat sig) \<and> t_state (signal_send sig t) \<noteq> THREAD_SLEEPING \<and>
      t_state (signal_send sig t) \<noteq> THREAD_BLOCKED \<and> t_id (signal_send sig t) = t_id t" for t
    using assms(2,3) n by (auto simp: signal_send_def Let_def bit_or_iff bit_exp_iff)
  then show ?thesis by (auto simp: s' r Let_def)
qed

theorem kill_group_witness:
  "\<exists>s'. sched_kill (-1) 2 demo_sched = (0, s') \<and> bit (t_sig_pending (sc_ring s' ! 1)) 2 \<and> sc_ring s' ! 2 = sc_ring demo_sched ! 2"
proof -
  obtain b x y where r: "sc_ring demo_sched = [b, x, y]"
    using demo_sched_ring by (auto simp: map_eq_Cons_conv)
  have pg: "map (\<lambda>t. (t_pgid t, t_state t)) (sc_ring demo_sched) = [(0, THREAD_RUNNING), (1, THREAD_RUNNABLE), (2, THREAD_RUNNABLE)]"
    by (simp add: demo_sched_def thread_create_def Let_def fresh_thread_def sig_init_def link_tail_def sched_init_def boot_thread_def)
  have g: "\<not> in_group 1 b" "in_group 1 x" "\<not> in_group 1 y" using pg by (auto simp: r in_group_def)
  obtain r' s' where k: "sched_kill (- 1) 2 demo_sched = (r', s')" by force
  from kill_group [OF _ _ _ k] have all: "(r' = 0) = (\<exists>t\<in>set (sc_ring demo_sched). in_group 1 t)"
    "\<forall>k<length (sc_ring demo_sched). let t = sc_ring demo_sched ! k; t' = sc_ring s' ! k in
       if in_group 1 t
       then bit (t_sig_pending t') (nat 2) \<and> t_state t' \<noteq> THREAD_SLEEPING \<and> t_state t' \<noteq> THREAD_BLOCKED \<and> t_id t' = t_id t
       else t' = t"
    by (simp_all add: NSIG_def)
  have "r' = 0" using all(1) g r by simp
  moreover have "bit (t_sig_pending (sc_ring s' ! 1)) 2" using all(2) [rule_format, of 1] g r by (simp add: Let_def)
  moreover have "sc_ring s' ! 2 = sc_ring demo_sched ! 2" using all(2) [rule_format, of 2] g r by (simp add: Let_def)
  ultimately show ?thesis using k by auto
qed



end
