(* ===== verification/Signal.thy ===== *)
theory Signal
  imports Sched_Props
begin

text \<open>
  Delivery of signals (\<open>signals_deliver\<close> of \<open>src/signal.c\<close>) and the return from a handler
  (\<open>SYS_SIGRETURN\<close> of \<open>src/syscall.c\<close>). User memory is a map from the address of an aligned 64-bit
  word to its value. Theorems: the frame a handler returns with is the interrupted one, and the
  restored processor state is whatever the user stack holds.
\<close>

subsection \<open>The trap frame in memory\<close>

type_synonym umem = "u64 \<Rightarrow> u64"

text \<open>The 34 words of \<open>struct trapframe\<close> in order.\<close>

definition tf_words :: "trapframe \<Rightarrow> u64 list" where
  "tf_words tf = tf_x tf @ [tf_elr tf, tf_spsr tf, tf_sp_el0 tf]"

definition words_tf :: "u64 list \<Rightarrow> trapframe" where
  "words_tf ws = \<lparr>tf_x = take 31 ws, tf_elr = ws ! 31, tf_spsr = ws ! 32, tf_sp_el0 = ws ! 33\<rparr>"

definition TF_WORDS :: nat where "TF_WORDS = 34"

fun store_words :: "umem \<Rightarrow> u64 \<Rightarrow> u64 list \<Rightarrow> umem" where
  "store_words m a [] = m"
| "store_words m a (w # ws) = store_words (m(a := w)) (a + 8) ws"

fun load_words :: "umem \<Rightarrow> u64 \<Rightarrow> nat \<Rightarrow> u64 list" where
  "load_words m a 0 = []"
| "load_words m a (Suc n) = m a # load_words m (a + 8) n"

subsection \<open>Delivery and return\<close>

datatype delivery = Nothing | Terminate int | Handler trapframe umem

text \<open>The first pending signal at or after \<open>sig\<close>.\<close>

definition next_signal :: "u64 \<Rightarrow> nat option" where
  "next_signal pending = List.find (bit pending) [1..<nat NSIG]"

definition signals_deliver :: "trapframe \<Rightarrow> umem \<Rightarrow> thread \<Rightarrow> delivery \<times> thread" where
  "signals_deliver tf m t =
     (if t_sig_pending t = 0 then (Nothing, t)
      else case next_signal (t_sig_pending t) of
        None \<Rightarrow> (Nothing, t)
      | Some sig \<Rightarrow>
          let t = t\<lparr>t_sig_pending := t_sig_pending t AND NOT (push_bit sig 1)\<rparr>; h = signal_action t (int sig) in
          if h = 0 then (Terminate (128 + int sig), t)
          else let sp = (tf_sp_el0 tf - 8 * of_nat TF_WORDS) AND NOT 15;
                   m = store_words m sp (tf_words tf)
            in (Handler (tf\<lparr>tf_sp_el0 := sp, tf_x := (tf_x tf)[0 := of_nat sig, 30 := t_sig_tramp t], tf_elr := h\<rparr>) m, t))"

definition sys_sigreturn :: "trapframe \<Rightarrow> umem \<Rightarrow> trapframe" where
  "sys_sigreturn tf m = words_tf (load_words m (tf_sp_el0 tf) TF_WORDS)"

subsection \<open>Properties\<close>

lemma store_words_other:
  "(\<forall>k<length ws. b \<noteq> a + 8 * of_nat k) \<Longrightarrow> store_words m a ws b = m b"
proof (induction ws arbitrary: m a)
  case (Cons w ws)
  have "\<forall>k<length ws. b \<noteq> (a + 8) + 8 * of_nat k"
  proof (intro allI impI)
    fix k assume "k < length ws"
    then have "b \<noteq> a + 8 * of_nat (Suc k)" using Cons.prems by (simp del: of_nat_Suc)
    then show "b \<noteq> (a + 8) + 8 * of_nat k" by (simp add: algebra_simps)
  qed
  then have "store_words (m(a := w)) (a + 8) ws b = (m(a := w)) b" by (rule Cons.IH)
  moreover have "b \<noteq> a" using Cons.prems by (auto dest: spec [of _ 0])
  ultimately show ?case by simp
qed simp

lemma word_step_ne:
  assumes "k < 1000" shows "(a :: u64) \<noteq> a + 8 + 8 * of_nat k"
proof
  assume "a = a + 8 + 8 * of_nat k"
  then have "a + of_nat (8 + 8 * k) = a + 0" by (simp add: add.assoc)
  then have "(of_nat (8 + 8 * k) :: u64) = 0" by (simp only: add_left_cancel)
  moreover have "unat (of_nat (8 + 8 * k) :: u64) = 8 + 8 * k" using assms by (simp only: unat_of_nat) simp
  ultimately show False by simp
qed

lemma load_store_words: "length ws < 1000 \<Longrightarrow> load_words (store_words m a ws) a (length ws) = ws"
proof (induction ws arbitrary: m a)
  case (Cons w ws)
  have "store_words (m(a := w)) (a + 8) ws a = w"
    using word_step_ne [of _ a] Cons.prems by (subst store_words_other) auto
  with Cons show ?case by simp
qed simp

lemma words_tf_words: "length (tf_x tf) = 31 \<Longrightarrow> words_tf (tf_words tf) = tf"
  by (simp add: words_tf_def tf_words_def nth_append)

lemma next_signal_Some:
  "next_signal p = Some sig \<longleftrightarrow> 1 \<le> sig \<and> sig < 32 \<and> bit p sig \<and> (\<forall>j. 1 \<le> j \<and> j < sig \<longrightarrow> \<not> bit p j)"
proof -
  have "next_signal p = Some sig \<longleftrightarrow> (\<exists>i<length [1..<32]. bit p ([1..<32] ! i) \<and> sig = [1..<32] ! i \<and>
      (\<forall>j<i. \<not> bit p ([1..<32] ! j)))"
    unfolding next_signal_def NSIG_def by (subst find_Some_iff) simp
  also have "\<dots> \<longleftrightarrow> 1 \<le> sig \<and> sig < 32 \<and> bit p sig \<and> (\<forall>j. 1 \<le> j \<and> j < sig \<longrightarrow> \<not> bit p j)"
  proof
    assume "\<exists>i<length [1..<32]. bit p ([1..<32] ! i) \<and> sig = [1..<32] ! i \<and> (\<forall>j<i. \<not> bit p ([1..<32] ! j))"
    then obtain i where i: "i < 31" "bit p (1 + i)" "sig = 1 + i" "\<forall>j<i. \<not> bit p ([1..<32] ! j)" by auto
    have "\<not> bit p j" if "1 \<le> j" "j < sig" for j
      using i(4) [rule_format, of "j - 1"] that i by auto
    with i show "1 \<le> sig \<and> sig < 32 \<and> bit p sig \<and> (\<forall>j. 1 \<le> j \<and> j < sig \<longrightarrow> \<not> bit p j)" by auto
  next
    assume a: "1 \<le> sig \<and> sig < 32 \<and> bit p sig \<and> (\<forall>j. 1 \<le> j \<and> j < sig \<longrightarrow> \<not> bit p j)"
    then have "sig - 1 < length [1..<32]" "[1..<32] ! (sig - 1) = sig" "\<forall>j < sig - 1. \<not> bit p ([1..<32] ! j)" by auto
    with a show "\<exists>i<length [1..<32]. bit p ([1..<32] ! i) \<and> sig = [1..<32] ! i \<and> (\<forall>j<i. \<not> bit p ([1..<32] ! j))"
      by metis
  qed
  finally show ?thesis .
qed

text \<open>
  C39. A handled signal is transparent: the lowest pending signal is taken and cleared, its handler is
  entered with its number, the trampoline as return address and an aligned stack below the
  interrupted one; and when the handler has returned to the trampoline with that stack pointer,
  \<open>sigreturn\<close> restores every register of the interrupted program.
\<close>
theorem signal_roundtrip:
  assumes "length (tf_x tf) = 31" "signals_deliver tf m t = (Handler tf' m', t')"
    and "tf_sp_el0 r = tf_sp_el0 tf'"
  shows "sys_sigreturn r m' = tf \<and>
    (\<exists>sig. 1 \<le> sig \<and> sig < 32 \<and> bit (t_sig_pending t) sig \<and> (\<forall>j. 1 \<le> j \<and> j < sig \<longrightarrow> \<not> bit (t_sig_pending t) j) \<and>
       t_sig_pending t' = t_sig_pending t AND NOT (push_bit sig 1) \<and>
       tf_elr tf' = t_sig_handler t ! sig \<and> tf_x tf' ! 0 = of_nat sig \<and> tf_x tf' ! 30 = t_sig_tramp t \<and>
       tf_sp_el0 tf' AND 15 = 0)"
proof -
  obtain sig where sig: "next_signal (t_sig_pending t) = Some sig"
    using assms(2) by (auto simp: signals_deliver_def split: if_splits option.splits)
  define sp where "sp = (tf_sp_el0 tf - 8 * of_nat TF_WORDS) AND NOT 15"
  let ?t = "t\<lparr>t_sig_pending := t_sig_pending t AND NOT (push_bit sig 1)\<rparr>"
  have eqs: "signal_action ?t (int sig) \<noteq> 0" "t' = ?t" "m' = store_words m sp (tf_words tf)"
    "tf' = tf\<lparr>tf_sp_el0 := sp, tf_x := (tf_x tf)[0 := of_nat sig, 30 := t_sig_tramp t], tf_elr := signal_action ?t (int sig)\<rparr>"
    using assms(2) sig by (auto simp: signals_deliver_def Let_def sp_def split: if_splits)
  have len: "length (tf_words tf) = TF_WORDS" using assms(1) by (simp add: tf_words_def TF_WORDS_def)
  have "load_words m' sp TF_WORDS = tf_words tf"
    using load_store_words [of "tf_words tf" m sp] len by (simp add: eqs(3) TF_WORDS_def)
  then have "sys_sigreturn r m' = tf"
    using assms(1,3) by (simp add: sys_sigreturn_def eqs(4) words_tf_words)
  moreover have "signal_action ?t (int sig) = t_sig_handler t ! sig"
    using eqs(1) by (auto simp: signal_action_def split: if_splits)
  moreover have "sp AND 15 = 0" by (simp add: sp_def and.assoc)
  ultimately show ?thesis using sig assms(1) eqs by (auto simp: next_signal_Some intro!: exI [of _ sig])
qed

definition demo_tf :: trapframe where
  "demo_tf = \<lparr>tf_x = replicate 31 7, tf_elr = 0x400000, tf_spsr = 0, tf_sp_el0 = 0x7ffff000\<rparr>"

definition demo_handled :: thread where
  "demo_handled = boot_thread\<lparr>t_sig_pending := 4, t_sig_handler := (replicate 32 0)[2 := 0x400100]\<rparr>"

theorem signal_roundtrip_witness:
  "\<exists>tf' m' t'. signals_deliver demo_tf (\<lambda>_. 0) demo_handled = (Handler tf' m', t') \<and> sys_sigreturn tf' m' = demo_tf"
proof -
  have "next_signal 4 = Some 2"
    unfolding next_signal_Some by (auto simp: bit_simps less_Suc_eq numeral_2_eq_2)
  then have "\<exists>tf' m' t'. signals_deliver demo_tf (\<lambda>_. 0) demo_handled = (Handler tf' m', t')"
    by (simp add: signals_deliver_def demo_handled_def Let_def signal_action_def NSIG_def SIGKILL_def)
  then obtain tf' m' t' where d: "signals_deliver demo_tf (\<lambda>_. 0) demo_handled = (Handler tf' m', t')" by blast
  have "sys_sigreturn tf' m' = demo_tf"
    using signal_roundtrip [OF _ d refl] by (simp add: demo_tf_def)
  with d show ?thesis by blast
qed

text \<open>
  A program may call \<open>sigreturn\<close> without a signal: any program counter and any saved processor state,
  the exception level included, is loaded from the words it put on its stack.
\<close>

lemma sigreturn_forged:
  "\<exists>m. tf_spsr (sys_sigreturn tf m) = spsr \<and> tf_elr (sys_sigreturn tf m) = pc"
proof -
  let ?f = "\<lparr>tf_x = replicate 31 0, tf_elr = pc, tf_spsr = spsr, tf_sp_el0 = 0\<rparr>"
  have "load_words (store_words (\<lambda>_. 0) (tf_sp_el0 tf) (tf_words ?f)) (tf_sp_el0 tf) TF_WORDS = tf_words ?f"
    using load_store_words [of "tf_words ?f"] by (simp add: tf_words_def TF_WORDS_def)
  then have "sys_sigreturn tf (store_words (\<lambda>_. 0) (tf_sp_el0 tf) (tf_words ?f)) = ?f"
    by (simp add: sys_sigreturn_def words_tf_words)
  then have "tf_spsr (sys_sigreturn tf (store_words (\<lambda>_. 0) (tf_sp_el0 tf) (tf_words ?f))) = spsr \<and>
      tf_elr (sys_sigreturn tf (store_words (\<lambda>_. 0) (tf_sp_el0 tf) (tf_words ?f))) = pc" by simp
  then show ?thesis by blast
qed

end
