(* ===== verification/Net_Bytes.thy ===== *)
theory Net_Bytes
  imports Prelude
begin

text \<open>
  The byte helpers that \<open>src/tcp.c\<close> and \<open>src/netstack.c\<close> share in substance: big-endian 16- and
  32-bit fields, and the one's-complement checksum. A buffer is a byte list; a write of a field is
  the list of its bytes, a read takes the buffer and an offset.
\<close>

subsection \<open>Big-endian fields\<close>

definition put16 :: "u16 \<Rightarrow> u8 list" where
  "put16 v = [ucast (drop_bit 8 v), ucast v]"

definition put32 :: "u32 \<Rightarrow> u8 list" where
  "put32 v = [ucast (drop_bit 24 v), ucast (drop_bit 16 v), ucast (drop_bit 8 v), ucast v]"

definition get16 :: "u8 list \<Rightarrow> nat \<Rightarrow> u16" where
  "get16 p i = push_bit 8 (ucast (p ! i)) OR ucast (p ! (i + 1))"

definition get32 :: "u8 list \<Rightarrow> nat \<Rightarrow> u32" where
  "get32 p i = push_bit 24 (ucast (p ! i)) OR push_bit 16 (ucast (p ! (i + 1))) OR
     push_bit 8 (ucast (p ! (i + 2))) OR ucast (p ! (i + 3))"

lemma length_put [simp]: "length (put16 v) = 2" "length (put32 w) = 4"
  by (simp_all add: put16_def put32_def)

lemma get16_put16 [simp]: "get16 (put16 v) 0 = v"
  by (rule bit_word_eqI) (auto simp: get16_def put16_def bit_simps)

lemma get32_put32 [simp]: "get32 (put32 v) 0 = v"
proof (rule bit_word_eqI)
  fix n assume "n < LENGTH(32)"
  then consider "n < 8" | "8 \<le> n" "n < 16" | "16 \<le> n" "n < 24" | "24 \<le> n" "n < 32"
    by fastforce
  then show "bit (get32 (put32 v) 0) n = bit v n"
    by cases (auto simp: get32_def put32_def bit_simps)
qed

lemma get16_append: "i = length xs \<Longrightarrow> get16 (xs @ put16 v @ ys) i = v"
  using get16_put16 [of v] by (simp add: get16_def put16_def nth_append)

lemma get32_append: "i = length xs \<Longrightarrow> get32 (xs @ put32 v @ ys) i = v"
  using get32_put32 [of v] by (simp add: get32_def put32_def nth_append numeral_eq_Suc)

subsection \<open>The internet checksum\<close>

text \<open>
  The sum is a \<open>uint32_t\<close>; a packet is at most a few thousand bytes, so it does not wrap, and the
  model sums natural numbers (see \<open>csum_words_bound\<close>).
\<close>

fun csum_words :: "u8 list \<Rightarrow> nat" where
  "csum_words [] = 0"
| "csum_words [b] = 256 * unat b"
| "csum_words (a # b # bs) = (256 * unat a + unat b) + csum_words bs"

function csum_fold :: "nat \<Rightarrow> nat" where
  "csum_fold s = (if s div 65536 \<noteq> 0 then csum_fold (s mod 65536 + s div 65536) else s)"
  by pat_completeness auto
termination
proof (relation "measure id")
  fix s :: nat assume "s div 65536 \<noteq> 0"
  moreover have "s = 65536 * (s div 65536) + s mod 65536" by simp
  ultimately have "s mod 65536 + s div 65536 < s" by linarith
  then show "(s mod 65536 + s div 65536, s) \<in> measure id" by simp
qed simp

declare csum_fold.simps [simp del]

definition csum_finish :: "nat \<Rightarrow> u16" where
  "csum_finish s = NOT (of_nat (csum_fold s))"

lemma csum_words_bound: "csum_words bs \<le> 65535 * length bs"
proof (induction bs rule: csum_words.induct)
  case (2 b)
  have "unat b \<le> 255" using unat_u8_less [of b] by simp
  then show ?case by simp
next
  case (3 a b bs)
  have "unat a \<le> 255" "unat b \<le> 255" using unat_u8_less [of a] unat_u8_less [of b] by simp_all
  with 3 show ?case by simp
qed simp

lemma csum_words_append: "even (length xs) \<Longrightarrow> csum_words (xs @ ys) = csum_words xs + csum_words ys"
  by (induction xs rule: csum_words.induct) auto

lemma csum_words_put16: "csum_words (put16 v) = unat v"
proof -
  have "unat v div 256 < 256" using unat_u16_less [of v] by simp
  then have "unat (ucast (drop_bit 8 v) :: u8) = unat v div 256"
    by (simp add: unsigned_ucast_eq unsigned_take_bit_eq take_bit_eq_mod unat_drop_bit_eq drop_bit_eq_div [where 'a = nat])
  moreover have "unat (ucast v :: u8) = unat v mod 256"
    by (simp add: unsigned_ucast_eq unsigned_take_bit_eq take_bit_eq_mod)
  ultimately show ?thesis by (simp add: put16_def)
qed

lemma csum_fold_less: "csum_fold s < 65536"
  by (induction s rule: csum_fold.induct) (subst csum_fold.simps, auto)

lemma csum_fold_cong: "csum_fold s mod 65535 = s mod 65535"
proof (induction s rule: csum_fold.induct)
  case (1 s)
  define q t where "q = s div 65536" and "t = s mod 65536 + q"
  have "s = 65536 * q + s mod 65536" by (simp add: q_def)
  then have "s = t + 65535 * q" unfolding t_def by linarith
  then have "s mod 65535 = t mod 65535" by simp
  then have "s mod 65535 = (s mod 65536 + s div 65536) mod 65535" by (simp add: t_def q_def)
  then show ?case
  proof (cases "s div 65536 \<noteq> 0")
    case True
    have "csum_fold s = csum_fold (s mod 65536 + s div 65536)"
      using True by (subst csum_fold.simps) (simp only: simp_thms if_True)
    with 1 [OF True] \<open>s mod 65535 = (s mod 65536 + s div 65536) mod 65535\<close> show ?thesis by (simp only:)
  next
    case False
    then show ?thesis by (subst csum_fold.simps) (simp only: simp_thms if_False)
  qed
qed

lemma csum_fold_0: "csum_fold s = 0 \<longleftrightarrow> s = 0"
proof (induction s rule: csum_fold.induct)
  case (1 s)
  have "s div 65536 \<noteq> 0 \<Longrightarrow> s mod 65536 + s div 65536 \<noteq> 0" by simp
  with 1 show ?case by (subst csum_fold.simps) auto
qed

lemma unat_not_u16: "unat (NOT (x :: u16)) = 65535 - unat x"
proof -
  have "unat x \<le> 65535" using unat_u16_less [of x] by simp
  moreover have "NOT x = 65535 - x" by (simp add: not_eq_complement)
  moreover have "x \<le> 65535" by (simp add: word_le_nat_alt calculation)
  ultimately show ?thesis by (simp add: unat_sub)
qed

lemma csum_finish_nat: "unat (csum_finish s) = 65535 - csum_fold s"
  using csum_fold_less [of s] by (simp add: csum_finish_def unat_not_u16 unat_of_nat)

text \<open>
  Adding the checksum to the summed data gives all ones, which is the receiver's test: recomputing
  over the packet with its checksum in place yields 0.
\<close>

lemma csum_verify:
  assumes "0 < s"
  shows "csum_finish (s + unat (csum_finish s)) = 0"
proof -
  let ?t = "s + (65535 - csum_fold s)"
  have le: "csum_fold s \<le> 65535" using csum_fold_less [of s] by simp
  have "csum_fold ?t mod 65535 = ?t mod 65535" by (rule csum_fold_cong)
  also have "\<dots> = (csum_fold s + (65535 - csum_fold s)) mod 65535"
    using csum_fold_cong [of s] by (metis mod_add_left_eq)
  also have "\<dots> = 0" using le by simp
  finally have z: "csum_fold ?t mod 65535 = 0" .
  have "csum_fold ?t \<noteq> 0" using assms by (simp add: csum_fold_0)
  moreover from z obtain k where "csum_fold ?t = 65535 * k" by (auto elim: dvdE simp: mod_eq_0_iff_dvd)
  ultimately have "csum_fold ?t = 65535" using csum_fold_less [of ?t] by (cases k) auto
  then show ?thesis using csum_finish_nat [of ?t] csum_finish_nat [of s]
    by (simp add: unat_eq_zero)
qed

text \<open>A sum of zero and one of all ones are the same to a receiver.\<close>

lemma mod_eq_nonzero:
  assumes "x mod 65535 = y mod (65535::nat)" "x \<noteq> 0" "y \<noteq> 0" "x < 65536" "y < 65536"
  shows "x = y"
proof -
  have r: "z mod 65535 = (if z = 65535 then 0 else z)" if "z < 65536" for z :: nat
    using that by (cases "z = 65535") (auto simp: mod_less)
  show ?thesis using assms r [OF assms(4)] r [OF assms(5)] by (simp split: if_splits)
qed

lemma csum_finish_ffff:
  assumes "0 < s"
  shows "csum_finish (s + 65535) = csum_finish s"
proof -
  have "csum_fold (s + 65535) mod 65535 = csum_fold s mod 65535"
    using csum_fold_cong [of s] csum_fold_cong [of "s + 65535"] by simp
  then have "csum_fold (s + 65535) = csum_fold s"
    by (rule mod_eq_nonzero) (use assms in \<open>simp_all add: csum_fold_0 csum_fold_less\<close>)
  then show ?thesis by (simp add: csum_finish_def)
qed

end
