(* ===== verification/Tcp_Reasm.thy ===== *)
theory Tcp_Reasm
  imports Prelude
begin

text \<open>
  The reassembly queue of \<open>src/tcp_reasm.c\<close>: a window of \<open>TCP_REASM_WIN\<close> bytes ahead of the next
  sequence number expected, stored in a buffer indexed by the sequence number modulo the window,
  with a presence bitmap. \<open>rq_at\<close> reads the queue by the distance from its front; the lemmas
  say how a segment and a read change it, and the properties that the bytes handed out are the
  peer's stream whatever the order, loss and repetition of its segments.
\<close>

subsection \<open>State and operations\<close>

definition TCP_REASM_WIN :: nat where "TCP_REASM_WIN = 8192"

record tcp_reasm =
  rq_base :: u32
  rq_data :: "u8 list"
  rq_present :: "u8 list"

definition slot_present :: "tcp_reasm \<Rightarrow> nat \<Rightarrow> bool" where
  "slot_present q i \<longleftrightarrow> (drop_bit (i mod 8) (rq_present q ! (i div 8)) AND 1) \<noteq> 0"

definition slot_set :: "tcp_reasm \<Rightarrow> nat \<Rightarrow> tcp_reasm" where
  "slot_set q i = q\<lparr>rq_present := (rq_present q)[i div 8 :=
     rq_present q ! (i div 8) OR push_bit (i mod 8) 1]\<rparr>"

definition slot_clear :: "tcp_reasm \<Rightarrow> nat \<Rightarrow> tcp_reasm" where
  "slot_clear q i = q\<lparr>rq_present := (rq_present q)[i div 8 :=
     rq_present q ! (i div 8) AND NOT (push_bit (i mod 8) 1)]\<rparr>"

definition tcp_reasm_init :: "tcp_reasm \<Rightarrow> u32 \<Rightarrow> tcp_reasm" where
  "tcp_reasm_init q rcv_nxt = q\<lparr>rq_base := rcv_nxt, rq_present := replicate (TCP_REASM_WIN div 8) 0\<rparr>"

fun reasm_accept_from :: "tcp_reasm \<Rightarrow> u32 \<Rightarrow> nat \<Rightarrow> u8 list \<Rightarrow> tcp_reasm" where
  "reasm_accept_from q sq i [] = q"
| "reasm_accept_from q sq i (b # bs) =
     (let s = sq + of_nat i; off = sint (s - rq_base q) in
      if off < 0 \<or> off \<ge> int TCP_REASM_WIN then reasm_accept_from q sq (Suc i) bs
      else let slot = unat s mod TCP_REASM_WIN in
        reasm_accept_from (slot_set (q\<lparr>rq_data := (rq_data q)[slot := b]\<rparr>) slot) sq (Suc i) bs)"

definition tcp_reasm_accept :: "tcp_reasm \<Rightarrow> u32 \<Rightarrow> u8 list \<Rightarrow> tcp_reasm" where
  "tcp_reasm_accept q sq bs = reasm_accept_from q sq 0 bs"

fun tcp_reasm_read :: "tcp_reasm \<Rightarrow> nat \<Rightarrow> u8 list \<times> tcp_reasm" where
  "tcp_reasm_read q 0 = ([], q)"
| "tcp_reasm_read q (Suc k) =
     (let slot = unat (rq_base q) mod TCP_REASM_WIN in
      if \<not> slot_present q slot then ([], q)
      else let b = rq_data q ! slot; q' = slot_clear q slot; q'' = q'\<lparr>rq_base := rq_base q' + 1\<rparr>
        in case tcp_reasm_read q'' k of (out, qe) \<Rightarrow> (b # out, qe))"

definition tcp_reasm_pos :: "tcp_reasm \<Rightarrow> u32" where
  "tcp_reasm_pos q = rq_base q"

subsection \<open>The queue by distance from its front\<close>

definition reasm_ok :: "tcp_reasm \<Rightarrow> bool" where
  "reasm_ok q \<longleftrightarrow> length (rq_data q) = TCP_REASM_WIN \<and> length (rq_present q) = TCP_REASM_WIN div 8"

definition rq_at :: "tcp_reasm \<Rightarrow> nat \<Rightarrow> u8 option" where
  "rq_at q k = (let slot = (unat (rq_base q) + k) mod TCP_REASM_WIN in
     if slot_present q slot then Some (rq_data q ! slot) else None)"

lemma slot_present_bit: "slot_present q i \<longleftrightarrow> bit (rq_present q ! (i div 8)) (i mod 8)"
  by (simp add: slot_present_def bit_iff_odd_drop_bit and_one_eq odd_iff_mod_2_eq_one)

lemma bit_mask8: "j < 8 \<Longrightarrow> bit (2 ^ i :: u8) j \<longleftrightarrow> i = j"
  by (auto simp: bit_exp_iff)

lemma div_mod_8_eq: "i div 8 = j div 8 \<Longrightarrow> i mod 8 = j mod 8 \<Longrightarrow> i = (j::nat)"
  by (metis div_mult_mod_eq)

lemma slot_present_set:
  assumes "i < 8 * length (rq_present q)"
  shows "slot_present (slot_set q i) j \<longleftrightarrow> i = j \<or> slot_present q j"
proof (cases "i div 8 = j div 8")
  case True
  with assms have "j div 8 < length (rq_present q)" by linarith
  with True show ?thesis
    by (auto simp: slot_present_bit slot_set_def bit_or_iff bit_mask8 dest: div_mod_8_eq)
next
  case False
  then have "i \<noteq> j" by auto
  with False show ?thesis by (simp add: slot_present_bit slot_set_def)
qed

lemma slot_present_clear:
  assumes "i < 8 * length (rq_present q)"
  shows "slot_present (slot_clear q i) j \<longleftrightarrow> i \<noteq> j \<and> slot_present q j"
proof (cases "i div 8 = j div 8")
  case True
  with assms have "j div 8 < length (rq_present q)" by linarith
  with True show ?thesis
    by (auto simp: slot_present_bit slot_clear_def bit_and_iff bit_not_iff bit_mask8 dest: div_mod_8_eq)
next
  case False
  then have "i \<noteq> j" by auto
  with False show ?thesis by (simp add: slot_present_bit slot_clear_def)
qed

lemma slot_fields [simp]:
  "rq_base (slot_set q i) = rq_base q" "rq_data (slot_set q i) = rq_data q"
  "length (rq_present (slot_set q i)) = length (rq_present q)"
  "rq_base (slot_clear q i) = rq_base q" "rq_data (slot_clear q i) = rq_data q"
  "length (rq_present (slot_clear q i)) = length (rq_present q)"
  by (simp_all add: slot_set_def slot_clear_def)

lemma slot_present_data [simp]: "slot_present (q\<lparr>rq_data := d\<rparr>) i = slot_present q i"
  "slot_present (q\<lparr>rq_base := c\<rparr>) i = slot_present q i"
  by (simp_all add: slot_present_def)

lemma WIN_pos [simp]: "0 < TCP_REASM_WIN" by (simp add: TCP_REASM_WIN_def)

lemma unat_mod_WIN: "unat (x + of_nat k :: u32) mod TCP_REASM_WIN = (unat x + k) mod TCP_REASM_WIN"
proof -
  have d: "TCP_REASM_WIN dvd 2 ^ 32" by (simp add: TCP_REASM_WIN_def)
  have "unat (x + of_nat k :: u32) = (unat x + k) mod 2 ^ 32"
    by (simp add: unat_word_ariths unat_of_nat mod_simps)
  then show ?thesis by (simp only: mod_mod_cancel [OF d])
qed

text \<open>The signed distance test of the code accepts exactly the unsigned distances below the window.\<close>

lemma sint_window: "(sint (d :: u32) < 0 \<or> sint d \<ge> int TCP_REASM_WIN) \<longleftrightarrow> \<not> unat d < TCP_REASM_WIN"
proof -
  have "int (unat d) = uint d" by simp
  then have "unat d < TCP_REASM_WIN \<longleftrightarrow> uint d < 8192"
    unfolding TCP_REASM_WIN_def by linarith
  moreover have "uint d < 4294967296" "0 \<le> uint d" using uint_lt2p [of d] by simp_all
  ultimately show ?thesis by (auto simp: sint_u32 TCP_REASM_WIN_def)
qed

lemma slot_lt: "unat (x :: u32) mod TCP_REASM_WIN < 8 * (TCP_REASM_WIN div 8)"
  by (simp add: TCP_REASM_WIN_def)

lemma slot_offset_inj:
  assumes "i < TCP_REASM_WIN" "j < TCP_REASM_WIN"
  shows "(b + i) mod TCP_REASM_WIN = (b + j) mod TCP_REASM_WIN \<longleftrightarrow> i = j"
  using ring_slot_inj [of i j TCP_REASM_WIN b] ring_slot_inj [of j i TCP_REASM_WIN b] assms
  by (cases i j rule: linorder_cases) auto

text \<open>Storing one byte whose sequence number is \<open>k0\<close> past the front.\<close>

lemma rq_at_store:
  assumes "reasm_ok q" "k < TCP_REASM_WIN" "unat (s - rq_base q) < TCP_REASM_WIN"
  defines "slot \<equiv> unat s mod TCP_REASM_WIN"
  shows "rq_at (slot_set (q\<lparr>rq_data := (rq_data q)[slot := b]\<rparr>) slot) k =
    (if k = unat (s - rq_base q) then Some b else rq_at q k)"
proof -
  let ?d = "s - rq_base q"
  have slot: "slot = (unat (rq_base q) + unat ?d) mod TCP_REASM_WIN"
    using unat_mod_WIN [of "rq_base q" "unat ?d"] by (simp add: slot_def)
  have lt: "slot < 8 * length (rq_present q)" "slot < length (rq_data q)"
    using assms(1) slot_lt [of s] by (simp_all add: slot_def reasm_ok_def)
  show ?thesis
    using slot_offset_inj [OF assms(3,2), of "unat (rq_base q)"] lt
    by (auto simp: rq_at_def slot_present_set slot [symmetric] Let_def)
qed

lemma reasm_accept_from_base [simp]: "rq_base (reasm_accept_from q sq i bs) = rq_base q"
  by (induction q sq i bs rule: reasm_accept_from.induct) (simp_all add: Let_def)

lemma reasm_accept_from_ok: "reasm_ok q \<Longrightarrow> reasm_ok (reasm_accept_from q sq i bs)"
  by (induction q sq i bs rule: reasm_accept_from.induct) (simp_all add: Let_def reasm_ok_def)

lemma reasm_accept_from_at:
  assumes "reasm_ok q" "k < TCP_REASM_WIN" "i + length bs \<le> 2 ^ 32"
  shows "rq_at (reasm_accept_from q sq i bs) k =
    (let j = unat (rq_base q + of_nat k - sq) in
     if i \<le> j \<and> j < i + length bs then Some (bs ! (j - i)) else rq_at q k)"
  using assms
proof (induction bs arbitrary: q i)
  case (Cons b bs)
  define s where "s = sq + of_nat i"
  define j where "j = unat (rq_base q + of_nat k - sq)"
  define q1 where "q1 = (let slot = unat s mod TCP_REASM_WIN in
    slot_set (q\<lparr>rq_data := (rq_data q)[slot := b]\<rparr>) slot)"
  define q2 where "q2 = (if unat (s - rq_base q) < TCP_REASM_WIN then q1 else q)"
  have step: "reasm_accept_from q sq i (b # bs) = reasm_accept_from q2 sq (Suc i) bs"
    using sint_window [of "s - rq_base q"] by (auto simp: Let_def s_def q1_def q2_def)
  have q2: "reasm_ok q2" "rq_base q2 = rq_base q"
    using Cons.prems(1) by (auto simp: q2_def q1_def reasm_ok_def Let_def)
  have ji: "j = i \<longleftrightarrow> k = unat (s - rq_base q)"
  proof -
    have iw: "unat (of_nat i :: u32) = i" "unat (of_nat k :: u32) = k"
      using Cons.prems by (simp_all add: unat_of_nat TCP_REASM_WIN_def)
    have "j = i \<longleftrightarrow> rq_base q + of_nat k - sq = of_nat i"
      unfolding j_def using iw(1) by (metis word_unat_eq_iff)
    also have "\<dots> \<longleftrightarrow> (of_nat k :: u32) = s - rq_base q"
      by (auto simp: s_def algebra_simps)
    also have "\<dots> \<longleftrightarrow> k = unat (s - rq_base q)"
      using iw(2) by (metis word_unat_eq_iff)
    finally show ?thesis .
  qed
  have at2: "rq_at q2 k = (if j = i then Some b else rq_at q k)"
    using rq_at_store [OF Cons.prems(1,2), of s b] Cons.prems(2)
    by (auto simp: q2_def q1_def ji Let_def)
  have "rq_at (reasm_accept_from q2 sq (Suc i) bs) k =
      (if Suc i \<le> j \<and> j < Suc i + length bs then Some (bs ! (j - Suc i)) else rq_at q2 k)"
    using Cons.IH [OF q2(1) Cons.prems(2), of "Suc i"] Cons.prems(3) by (simp add: q2(2) j_def Let_def)
  then show ?case unfolding step Let_def j_def [symmetric] at2
    by (cases "j = i") (auto simp: nth_Cons' le_Suc_eq Suc_le_eq)
qed (auto simp: Let_def)

text \<open>Handing out the front byte shifts the window by one.\<close>

definition rq_next :: "tcp_reasm \<Rightarrow> tcp_reasm" where
  "rq_next q = (let q' = slot_clear q (unat (rq_base q) mod TCP_REASM_WIN) in
     q'\<lparr>rq_base := rq_base q' + 1\<rparr>)"

lemma rq_next_simps [simp]: "rq_base (rq_next q) = rq_base q + 1"
  "reasm_ok q \<Longrightarrow> reasm_ok (rq_next q)"
  by (simp_all add: rq_next_def reasm_ok_def Let_def)

lemma rq_at_next:
  assumes "reasm_ok q" "k < TCP_REASM_WIN"
  shows "rq_at (rq_next q) k = (if Suc k = TCP_REASM_WIN then None else rq_at q (Suc k))"
proof -
  let ?b = "unat (rq_base q)"
  have lt: "?b mod TCP_REASM_WIN < 8 * length (rq_present q)"
    using assms(1) slot_lt by (simp add: reasm_ok_def)
  have slot: "(unat (rq_base q + 1) + k) mod TCP_REASM_WIN = (?b + Suc k) mod TCP_REASM_WIN"
  proof -
    have "(unat (rq_base q + 1) + k) mod TCP_REASM_WIN = (unat (rq_base q + 1) mod TCP_REASM_WIN + k) mod TCP_REASM_WIN"
      by (simp add: mod_add_left_eq)
    also have "\<dots> = ((?b + 1) mod TCP_REASM_WIN + k) mod TCP_REASM_WIN"
      using unat_mod_WIN [of "rq_base q" 1] by simp
    finally show ?thesis by (simp add: mod_add_left_eq)
  qed
  have front: "?b mod TCP_REASM_WIN = Suc (?b + k) mod TCP_REASM_WIN \<longleftrightarrow> Suc k = TCP_REASM_WIN"
  proof (cases "Suc k = TCP_REASM_WIN")
    case False
    with assms(2) slot_offset_inj [of 0 "Suc k" ?b] show ?thesis by simp
  next
    case True
    then have "Suc (?b + k) = ?b + TCP_REASM_WIN" by simp
    with True show ?thesis by (metis mod_add_self2)
  qed
  show ?thesis
    using lt by (simp add: rq_at_def Let_def slot front rq_next_def slot_present_clear)
qed

lemma read_Suc: "tcp_reasm_read q (Suc n) = (case rq_at q 0 of None \<Rightarrow> ([], q)
    | Some b \<Rightarrow> (b # fst (tcp_reasm_read (rq_next q) n), snd (tcp_reasm_read (rq_next q) n)))"
  by (simp add: rq_at_def rq_next_def Let_def case_prod_unfold)

lemma rq_at_read:
  "reasm_ok q \<Longrightarrow> k < TCP_REASM_WIN \<Longrightarrow> rq_at (snd (tcp_reasm_read q n)) k =
     (let m = length (fst (tcp_reasm_read q n)) in if k + m < TCP_REASM_WIN then rq_at q (k + m) else None)"
proof (induction n arbitrary: q k)
  case (Suc n)
  show ?case
  proof (cases "rq_at q 0")
    case (Some b)
    let ?m = "length (fst (tcp_reasm_read (rq_next q) n))"
    have "rq_at (snd (tcp_reasm_read (rq_next q) n)) k =
        (if k + ?m < TCP_REASM_WIN then rq_at (rq_next q) (k + ?m) else None)"
      using Suc by (simp add: Let_def)
    also have "\<dots> = (if k + Suc ?m < TCP_REASM_WIN then rq_at q (k + Suc ?m) else None)"
      using rq_at_next [OF Suc.prems(1), of "k + ?m"] by auto
    finally show ?thesis using Some by (simp add: read_Suc Let_def del: tcp_reasm_read.simps)
  qed (use Suc.prems in \<open>simp add: read_Suc del: tcp_reasm_read.simps\<close>)
qed simp

lemma read_ok: "reasm_ok q \<Longrightarrow> reasm_ok (snd (tcp_reasm_read q n))"
  by (induction n arbitrary: q) (simp_all add: read_Suc split: option.split del: tcp_reasm_read.simps(2))

lemma read_base: "rq_base (snd (tcp_reasm_read q n)) = rq_base q + of_nat (length (fst (tcp_reasm_read q n)))"
  by (induction n arbitrary: q) (simp_all add: read_Suc split: option.split del: tcp_reasm_read.simps(2))

text \<open>A read hands out the stored bytes from the front, up to the first gap or the buffer's end.\<close>

lemma read_length: "length (fst (tcp_reasm_read q n)) \<le> n"
  by (induction n arbitrary: q) (simp_all add: read_Suc split: option.split del: tcp_reasm_read.simps(2))

lemma read_nth:
  "reasm_ok q \<Longrightarrow> k < length (fst (tcp_reasm_read q n)) \<Longrightarrow> k < TCP_REASM_WIN \<Longrightarrow>
     rq_at q k = Some (fst (tcp_reasm_read q n) ! k)"
proof (induction n arbitrary: q k)
  case (Suc n)
  then obtain b where b: "rq_at q 0 = Some b"
    by (cases "rq_at q 0") (simp_all add: read_Suc del: tcp_reasm_read.simps)
  show ?case
  proof (cases k)
    case (Suc k')
    have "rq_at (rq_next q) k' = Some (fst (tcp_reasm_read (rq_next q) n) ! k')"
      using Suc.IH [of "rq_next q" k'] Suc.prems Suc b by (simp add: read_Suc del: tcp_reasm_read.simps)
    then show ?thesis
      using rq_at_next [OF Suc.prems(1), of k'] Suc.prems(3) Suc b
      by (simp add: read_Suc split: if_splits del: tcp_reasm_read.simps)
  qed (simp add: b read_Suc del: tcp_reasm_read.simps)
qed simp

lemma read_progress:
  "reasm_ok q \<Longrightarrow> m \<le> TCP_REASM_WIN \<Longrightarrow> \<forall>k<m. rq_at q k \<noteq> None \<Longrightarrow>
     min m n \<le> length (fst (tcp_reasm_read q n))"
proof (induction n arbitrary: q m)
  case (Suc n)
  show ?case
  proof (cases m)
    case (Suc m')
    with Suc.prems obtain b where b: "rq_at q 0 = Some b" by auto
    have "\<forall>k<m'. rq_at (rq_next q) k \<noteq> None"
      using Suc.prems Suc by (auto simp: rq_at_next)
    with Suc.IH [of "rq_next q" m'] Suc.prems Suc b show ?thesis
      by (simp add: read_Suc del: tcp_reasm_read.simps)
  qed simp
qed simp

subsection \<open>The stream that comes out\<close>

text \<open>
  \<open>reasm_run f isn q d R\<close>: the peer sends the stream \<open>f 0, f 1, \<dots>\<close> starting at sequence number
  \<open>isn\<close>; from a fresh queue, some segments of it arrived (any order, lost, cut, repeated; each
  less than \<open>2 ^ 31\<close> away from the reader) and the reads so far returned \<open>d\<close>. \<open>R\<close> holds the
  stream positions that arrived inside the window.
\<close>

inductive reasm_run :: "(nat \<Rightarrow> u8) \<Rightarrow> u32 \<Rightarrow> tcp_reasm \<Rightarrow> u8 list \<Rightarrow> nat set \<Rightarrow> bool" for f isn where
  rr_init: "reasm_ok raw \<Longrightarrow> reasm_run f isn (tcp_reasm_init raw isn) [] {}"
| rr_segment: "reasm_run f isn q d R \<Longrightarrow> a + n \<le> length d + 2 ^ 31 \<Longrightarrow> length d \<le> a + 2 ^ 31 \<Longrightarrow>
    reasm_run f isn (tcp_reasm_accept q (isn + of_nat a) (map f [a..<a + n])) d
      (R \<union> {p. a \<le> p \<and> p < a + n \<and> length d \<le> p \<and> p < length d + TCP_REASM_WIN})"
| rr_read: "reasm_run f isn q d R \<Longrightarrow> tcp_reasm_read q m = (out, q') \<Longrightarrow>
    reasm_run f isn q' (d @ out) R"

definition reasm_inv :: "(nat \<Rightarrow> u8) \<Rightarrow> u32 \<Rightarrow> tcp_reasm \<Rightarrow> nat \<Rightarrow> nat set \<Rightarrow> bool" where
  "reasm_inv f isn q n R \<longleftrightarrow> reasm_ok q \<and> rq_base q = isn + of_nat n \<and>
     (\<forall>k<TCP_REASM_WIN. rq_at q k = (if n + k \<in> R then Some (f (n + k)) else None)) \<and>
     {..<n} \<subseteq> R \<and> R \<subseteq> {..<n + TCP_REASM_WIN}"

lemma init_at: "reasm_ok raw \<Longrightarrow> rq_at (tcp_reasm_init raw isn) k = None"
proof -
  have "(unat isn + k) mod TCP_REASM_WIN div 8 < TCP_REASM_WIN div 8"
    using mod_less_divisor [OF WIN_pos, of "unat isn + k"] by (simp add: TCP_REASM_WIN_def)
  then show ?thesis by (simp add: rq_at_def tcp_reasm_init_def slot_present_def Let_def)
qed

lemma segment_offset:
  fixes isn :: u32
  assumes "a + len \<le> n + 2 ^ 31" "n \<le> a + 2 ^ 31" "k < TCP_REASM_WIN"
  defines "j \<equiv> unat ((isn + of_nat n) + of_nat k - (isn + of_nat a) :: u32)"
  shows "(0 \<le> j \<and> j < 0 + len) \<longleftrightarrow> a \<le> n + k \<and> n + k < a + len" "a \<le> n + k \<Longrightarrow> j = n + k - a"
proof -
  have w: "TCP_REASM_WIN \<le> 2 ^ 31" by (simp add: TCP_REASM_WIN_def)
  have up: "j = n + k - a" if "a \<le> n + k"
  proof -
    have "n + k < a + 2 ^ 32" using assms(2,3) w by simp
    then have "n + k - a < 2 ^ 32" using that by simp
    moreover have "(isn + of_nat n) + of_nat k - (isn + of_nat a) = (of_nat (n + k - a) :: u32)"
      using that by simp
    ultimately show ?thesis by (simp add: j_def unat_of_nat)
  qed
  have down: "len \<le> j" if "n + k < a"
  proof -
    define e where "e = a - (n + k)"
    have e: "0 < e" "e + len \<le> 2 ^ 31" using that assms(1) by (simp_all add: e_def)
    have "(isn + of_nat n) + of_nat k - (isn + of_nat a) = - (of_nat e :: u32)"
      using that by (simp add: e_def)
    also have "\<dots> = of_nat (2 ^ 32 - e)"
      using e by (simp add: of_nat_diff)
    finally have "j = unat (of_nat (2 ^ 32 - e) :: u32)" by (simp only: j_def)
    also have "\<dots> = 2 ^ 32 - e" using e by (intro unat_of_nat_u32) simp
    finally have "j = 2 ^ 32 - e" .
    with e show ?thesis by simp
  qed
  show "a \<le> n + k \<Longrightarrow> j = n + k - a" by (rule up)
  show "(0 \<le> j \<and> j < 0 + len) \<longleftrightarrow> a \<le> n + k \<and> n + k < a + len"
    using up down by (cases "a \<le> n + k") auto
qed

lemma reasm_inv_segment:
  assumes "reasm_inv f isn q n R" "a + len \<le> n + 2 ^ 31" "n \<le> a + 2 ^ 31"
  shows "reasm_inv f isn (tcp_reasm_accept q (isn + of_nat a) (map f [a..<a + len])) n
    (R \<union> {p. a \<le> p \<and> p < a + len \<and> n \<le> p \<and> p < n + TCP_REASM_WIN})"
proof -
  have ok: "reasm_ok q" and b: "rq_base q = isn + of_nat n" using assms(1) by (auto simp: reasm_inv_def)
  have len: "0 + length (map f [a..<a + len]) \<le> 2 ^ 32" using assms(2,3) by simp
  have at: "rq_at (tcp_reasm_accept q (isn + of_nat a) (map f [a..<a + len])) k =
      (if a \<le> n + k \<and> n + k < a + len then Some (f (n + k)) else rq_at q k)"
    if "k < TCP_REASM_WIN" for k
    using reasm_accept_from_at [OF ok that len, of "isn + of_nat a"]
      segment_offset [OF assms(2,3) that, of isn]
    by (auto simp: tcp_reasm_accept_def b Let_def)
  have "reasm_ok (tcp_reasm_accept q (isn + of_nat a) (map f [a..<a + len]))"
    "rq_base (tcp_reasm_accept q (isn + of_nat a) (map f [a..<a + len])) = isn + of_nat n"
    by (simp_all add: tcp_reasm_accept_def reasm_accept_from_ok ok b)
  with assms(1) show ?thesis by (auto simp: reasm_inv_def at)
qed

lemma read_upto_gap:
  "reasm_ok q \<Longrightarrow> m \<le> TCP_REASM_WIN \<Longrightarrow> \<forall>k. m \<le> k \<and> k < TCP_REASM_WIN \<longrightarrow> rq_at q k = None \<Longrightarrow>
     length (fst (tcp_reasm_read q n)) \<le> m"
proof (induction n arbitrary: q m)
  case (Suc n)
  show ?case
  proof (cases "rq_at q 0")
    case (Some b)
    with Suc.prems obtain m' where m: "m = Suc m'" by (cases m) auto
    have "\<forall>k. m' \<le> k \<and> k < TCP_REASM_WIN \<longrightarrow> rq_at (rq_next q) k = None"
      using Suc.prems m by (auto simp: rq_at_next)
    with Suc.IH [of "rq_next q" m'] Suc.prems m Some show ?thesis
      by (simp add: read_Suc del: tcp_reasm_read.simps)
  qed (simp add: read_Suc del: tcp_reasm_read.simps)
qed simp

lemma reasm_inv_read:
  assumes "reasm_inv f isn q n R" "tcp_reasm_read q m = (out, q')"
  shows "out = map f [n..<n + length out] \<and> reasm_inv f isn q' (n + length out) R"
proof -
  have ok: "reasm_ok q" and b: "rq_base q = isn + of_nat n" and sub: "{..<n} \<subseteq> R"
    and up: "R \<subseteq> {..<n + TCP_REASM_WIN}"
    and at: "\<And>k. k < TCP_REASM_WIN \<Longrightarrow> rq_at q k = (if n + k \<in> R then Some (f (n + k)) else None)"
    using assms(1) by (auto simp: reasm_inv_def)
  have out: "out = fst (tcp_reasm_read q m)" and q': "q' = snd (tcp_reasm_read q m)"
    using assms(2) by auto
  have short: "length out \<le> TCP_REASM_WIN"
    unfolding out by (rule read_upto_gap [OF ok]) auto
  have nth: "n + k \<in> R \<and> out ! k = f (n + k)" if "k < length out" for k
    using read_nth [OF ok, of k m] that short at [of k] by (auto simp: out split: if_splits)
  have eq: "out = map f [n..<n + length out]"
    by (rule nth_equalityI) (simp_all add: nth)
  have sub': "{..<n + length out} \<subseteq> R"
  proof
    fix p assume "p \<in> {..<n + length out}"
    then show "p \<in> R" using nth [of "p - n"] sub by (cases "p < n") auto
  qed
  have "rq_at q' k = (if n + length out + k \<in> R then Some (f (n + length out + k)) else None)"
    if "k < TCP_REASM_WIN" for k
    using rq_at_read [OF ok that, of m] at [of "k + length out"] up
    by (auto simp: out [symmetric] q' [symmetric] Let_def ac_simps)
  then show ?thesis
    using read_ok [OF ok, of m] read_base [of q m] sub' up eq
    by (auto simp: reasm_inv_def q' [symmetric] out [symmetric] b subset_iff)
qed

lemma reasm_run_inv: "reasm_run f isn q d R \<Longrightarrow> reasm_inv f isn q (length d) R \<and> d = map f [0..<length d]"
proof (induction rule: reasm_run.induct)
  case (rr_init raw)
  then have "reasm_ok (tcp_reasm_init raw isn)" by (simp add: reasm_ok_def tcp_reasm_init_def)
  moreover have "rq_base (tcp_reasm_init raw isn) = isn" by (simp add: tcp_reasm_init_def)
  ultimately show ?case using rr_init by (simp add: reasm_inv_def init_at)
next
  case (rr_segment q d R a n)
  then show ?case using reasm_inv_segment by blast
next
  case (rr_read q d R m out q')
  from rr_read.IH have d: "d = map f [0..<length d]" by blast
  have o: "out = map f [length d..<length d + length out]" "reasm_inv f isn q' (length d + length out) R"
    using reasm_inv_read [of f isn q "length d" R m out q'] rr_read by blast+
  have "map f [0..<length d + length out] =
      map f [0..<length d] @ map f [length d..<length d + length out]"
    by (simp add: upt_add_eq_append [of 0 "length d" "length out"])
  also have "\<dots> = d @ out"
    by (rule arg_cong2 [where f = append, OF d [symmetric] o(1) [symmetric]])
  finally have "d @ out = map f [0..<length (d @ out)]" by (simp only: length_append)
  moreover from o(2) have "reasm_inv f isn q' (length (d @ out)) R" by (simp only: length_append)
  ultimately show ?case by blast
qed

text \<open>
  C15. In-order delivery: whatever the order, loss, repetition and overlap of the segments, the
  bytes the queue has handed out are a prefix of the peer's stream (nothing skipped, repeated or
  altered), and the position it acknowledges is the sequence number just past them, across the
  32-bit wrap.
\<close>
theorem reasm_in_order:
  assumes "reasm_run f isn q d R"
  shows "d = map f [0..<length d] \<and> tcp_reasm_pos q = isn + of_nat (length d)"
  using reasm_run_inv [OF assms] by (simp add: tcp_reasm_pos_def reasm_inv_def)

lemma reasm_inv_read_exact:
  assumes inv: "reasm_inv f isn q n R" and "{..<p} \<subseteq> R" "p \<notin> R"
  shows "fst (tcp_reasm_read q m) = map f [n..<min p (n + m)]" "n \<le> p"
proof -
  let ?out = "fst (tcp_reasm_read q m)"
  from inv have ok: "reasm_ok q" and sub: "{..<n} \<subseteq> R" and up: "R \<subseteq> {..<n + TCP_REASM_WIN}"
    and at: "\<And>k. k < TCP_REASM_WIN \<Longrightarrow> rq_at q k = (if n + k \<in> R then Some (f (n + k)) else None)"
    by (auto simp: reasm_inv_def)
  have out: "?out = map f [n..<n + length ?out]" "{..<n + length ?out} \<subseteq> R"
    using reasm_inv_read [OF inv, of m ?out "snd (tcp_reasm_read q m)"]
    by (auto simp: reasm_inv_def)
  show np: "n \<le> p" using assms(3) sub by (meson lessThan_iff not_le_imp_less subsetD)
  have pw: "p - n \<le> TCP_REASM_WIN"
  proof (cases p)
    case (Suc p')
    then have "p' \<in> {..<n + TCP_REASM_WIN}" using assms(2) up by auto
    with Suc show ?thesis by simp
  qed simp
  have "\<forall>k<p - n. rq_at q k \<noteq> None"
    using assms(2) pw by (auto simp: at subset_iff)
  from read_progress [OF ok pw this, of m] have lo: "min (p - n) m \<le> length ?out" .
  have "n + length ?out \<le> p" using out(2) assms(3) by (meson lessThan_iff not_le_imp_less subsetD)
  with lo read_length [of q m] np have "n + length ?out = min p (n + m)" by auto
  with out(1) show "?out = map f [n..<min p (n + m)]" by simp
qed

text \<open>
  Nothing that arrived in the window is withheld: if \<open>p\<close> is the first stream position that has
  not arrived in the window, a read returns exactly the bytes from the reader's position up to \<open>p\<close>
  or up to the size of its buffer.
\<close>
theorem reasm_delivers:
  assumes "reasm_run f isn q d R" "{..<p} \<subseteq> R" "p \<notin> R"
  shows "fst (tcp_reasm_read q m) = map f [length d..<min p (length d + m)]"
  using reasm_inv_read_exact(1) [OF _ assms(2,3)] reasm_run_inv [OF assms(1)] by blast

text \<open>A concrete run across the wrap of the sequence numbers: the second segment arrives first.\<close>

definition demo_stream :: "nat \<Rightarrow> u8" where "demo_stream i = of_nat (i + 65)"

definition demo_isn :: u32 where "demo_isn = 4294967294"

definition demo_reasm :: tcp_reasm where
  "demo_reasm = tcp_reasm_accept (tcp_reasm_accept
     (tcp_reasm_init \<lparr>rq_base = 0, rq_data = replicate TCP_REASM_WIN 0,
        rq_present = replicate (TCP_REASM_WIN div 8) 0\<rparr> demo_isn)
     (demo_isn + of_nat 2) (map demo_stream [2..<2 + 3])) (demo_isn + of_nat 0) (map demo_stream [0..<0 + 2])"

lemma demo_reasm_run: "reasm_run demo_stream demo_isn demo_reasm [] {..<5}"
proof -
  let ?raw = "\<lparr>rq_base = 0, rq_data = replicate TCP_REASM_WIN 0,
        rq_present = replicate (TCP_REASM_WIN div 8) 0\<rparr>"
  have "reasm_run demo_stream demo_isn (tcp_reasm_init ?raw demo_isn) [] {}"
    by (rule rr_init) (simp add: reasm_ok_def)
  from rr_segment [OF rr_segment [OF this, of 2 3], of 0 2]
  have "reasm_run demo_stream demo_isn demo_reasm []
    ({} \<union> {p. 2 \<le> p \<and> p < 2 + 3 \<and> 0 \<le> p \<and> p < 0 + TCP_REASM_WIN}
      \<union> {p. 0 \<le> p \<and> p < 0 + 2 \<and> 0 \<le> p \<and> p < 0 + TCP_REASM_WIN})"
    by (simp add: demo_reasm_def)
  moreover have "({} \<union> {p. 2 \<le> p \<and> p < 2 + 3 \<and> 0 \<le> p \<and> p < 0 + TCP_REASM_WIN}
      \<union> {p. 0 \<le> p \<and> p < 0 + 2 \<and> 0 \<le> p \<and> p < 0 + TCP_REASM_WIN}) = {..<5}"
    by (auto simp: TCP_REASM_WIN_def)
  ultimately show ?thesis by simp
qed

theorem reasm_delivers_witness: "fst (tcp_reasm_read demo_reasm 10) = map demo_stream [0..<5]"
  using reasm_delivers [OF demo_reasm_run, of 5 10] by simp

lemma demo_reasm_read: "fst (tcp_reasm_read demo_reasm 3) = map demo_stream [0..<3]"
proof -
  from reasm_run_inv [OF demo_reasm_run] have inv: "reasm_inv demo_stream demo_isn demo_reasm 0 {..<5}" by simp
  then have ok: "reasm_ok demo_reasm" and at: "\<forall>k<5. rq_at demo_reasm k \<noteq> None"
    by (auto simp: reasm_inv_def TCP_REASM_WIN_def)
  have "length (fst (tcp_reasm_read demo_reasm 3)) = 3"
    using read_progress [OF ok _ at, of 3] read_length [of demo_reasm 3] by (simp add: TCP_REASM_WIN_def)
  then show ?thesis
    using reasm_inv_read [OF inv, of 3 "fst (tcp_reasm_read demo_reasm 3)" "snd (tcp_reasm_read demo_reasm 3)"]
    by simp
qed

theorem reasm_in_order_witness:
  "map demo_stream [0..<3] = map demo_stream [0..<length (map demo_stream [0..<3])] \<and>
   tcp_reasm_pos (snd (tcp_reasm_read demo_reasm 3)) = demo_isn + of_nat (length (map demo_stream [0..<3]))"
proof (rule reasm_in_order)
  have "tcp_reasm_read demo_reasm 3 = (map demo_stream [0..<3], snd (tcp_reasm_read demo_reasm 3))"
    using demo_reasm_read by (metis prod.collapse)
  from rr_read [OF demo_reasm_run this]
  show "reasm_run demo_stream demo_isn (snd (tcp_reasm_read demo_reasm 3)) (map demo_stream [0..<3]) {..<5}"
    by simp
qed

end
