(* ===== verification/Tcp_Rto.thy ===== *)
theory Tcp_Rto
  imports Prelude
begin

text \<open>
  The retransmission timeout estimator of \<open>src/tcp_rto.c\<close> (RFC 6298), in microseconds. Its
  \<open>int32_t\<close> fields are integers; \<open>rto_ok\<close> keeps them in a range where no operation of the C code
  leaves 32 bits. \<open>>> n\<close> on a signed value is division by \<open>2 ^ n\<close> rounding down.
\<close>

subsection \<open>State and operations\<close>

definition TCP_RTO_INIT :: int where "TCP_RTO_INIT = 1000000"
definition TCP_RTO_MIN :: int where "TCP_RTO_MIN = 200000"
definition TCP_RTO_MAX :: int where "TCP_RTO_MAX = 60000000"

record tcp_rto =
  rto_seeded :: bool
  rto_srtt :: int
  rto_rttvar :: int
  rto_rto :: int

definition tcp_rto_init :: tcp_rto where
  "tcp_rto_init = \<lparr>rto_seeded = False, rto_srtt = 0, rto_rttvar = 0, rto_rto = TCP_RTO_INIT\<rparr>"

definition recompute :: "tcp_rto \<Rightarrow> tcp_rto" where
  "recompute e =
     (let rto = rto_srtt e + 4 * rto_rttvar e;
          rto = (if rto < TCP_RTO_MIN then TCP_RTO_MIN else rto);
          rto = (if rto > TCP_RTO_MAX then TCP_RTO_MAX else rto)
      in e\<lparr>rto_rto := rto\<rparr>)"

definition tcp_rto_sample :: "tcp_rto \<Rightarrow> int \<Rightarrow> tcp_rto" where
  "tcp_rto_sample e rtt =
     (let rtt = (if rtt < 0 then 0 else rtt) in
      if \<not> rto_seeded e
      then recompute (e\<lparr>rto_srtt := rtt, rto_rttvar := rtt div 2, rto_seeded := True\<rparr>)
      else let d = rto_srtt e - rtt; d = (if d < 0 then - d else d) in
        recompute (e\<lparr>rto_rttvar := rto_rttvar e - rto_rttvar e div 4 + d div 4,
          rto_srtt := rto_srtt e - rto_srtt e div 8 + rtt div 8\<rparr>))"

definition tcp_rto_backoff :: "tcp_rto \<Rightarrow> tcp_rto" where
  "tcp_rto_backoff e =
     (let rto = rto_rto e * 2 in
      e\<lparr>rto_rto := (if rto > TCP_RTO_MAX \<or> rto < 0 then TCP_RTO_MAX else rto)\<rparr>)"

definition tcp_rto_get :: "tcp_rto \<Rightarrow> int" where "tcp_rto_get e = rto_rto e"

subsection \<open>Bounds\<close>

lemmas rto_consts = TCP_RTO_INIT_def TCP_RTO_MIN_def TCP_RTO_MAX_def

text \<open>\<open>rto_ok R e\<close>: every sample so far was at most \<open>R\<close> microseconds.\<close>

definition rto_ok :: "int \<Rightarrow> tcp_rto \<Rightarrow> bool" where
  "rto_ok R e \<longleftrightarrow> 0 \<le> rto_srtt e \<and> rto_srtt e \<le> R \<and> 0 \<le> rto_rttvar e \<and> rto_rttvar e \<le> R \<and>
     TCP_RTO_MIN \<le> rto_rto e \<and> rto_rto e \<le> TCP_RTO_MAX"

lemma recompute_range: "TCP_RTO_MIN \<le> rto_rto (recompute e) \<and> rto_rto (recompute e) \<le> TCP_RTO_MAX"
  by (simp add: recompute_def Let_def rto_consts)

lemma recompute_fields [simp]:
  "rto_srtt (recompute e) = rto_srtt e" "rto_rttvar (recompute e) = rto_rttvar e"
  "rto_seeded (recompute e) = rto_seeded e"
  by (simp_all add: recompute_def Let_def)

lemma smooth_bound:
  assumes "0 \<le> s" "s \<le> R" "0 \<le> (r::int)" "r \<le> R" "0 < k"
  shows "0 \<le> s - s div k + r div k" "s - s div k + r div k \<le> R"
proof -
  have "s div k \<le> s" using zdiv_mono2 [of s 1 k] assms by simp
  moreover have "0 \<le> r div k" using assms by (simp add: pos_imp_zdiv_nonneg_iff)
  ultimately show "0 \<le> s - s div k + r div k" by simp
  have "r div k \<le> R div k" using assms by (simp add: zdiv_mono1)
  moreover have "s - s div k \<le> R - R div k"
  proof -
    have "R div k - s div k \<le> R - s"
    proof -
      have "R = s + (R - s)" by simp
      then have "R div k = (s + (R - s)) div k" by simp
      also have "\<dots> \<le> (s + k * (R - s)) div k"
        using assms mult_right_mono [of 1 k "R - s"] by (intro zdiv_mono1) simp_all
      also have "\<dots> = s div k + (R - s)" using assms by simp
      finally show ?thesis by simp
    qed
    then show ?thesis by simp
  qed
  ultimately show "s - s div k + r div k \<le> R" by simp
qed

lemma rto_ok_init: "0 \<le> R \<Longrightarrow> rto_ok R tcp_rto_init"
  by (simp add: rto_ok_def tcp_rto_init_def rto_consts)

lemma rto_ok_sample:
  assumes "rto_ok R e" "r \<le> R"
  shows "rto_ok R (tcp_rto_sample e r)"
proof -
  define r' where "r' = (if r < 0 then 0 else r)"
  define d where "d = \<bar>rto_srtt e - r'\<bar>"
  have R: "0 \<le> r'" "r' \<le> R" using assms by (auto simp: r'_def rto_ok_def)
  have d: "0 \<le> d" "d \<le> R" using assms(1) R by (auto simp: d_def rto_ok_def)
  show ?thesis
  proof (cases "rto_seeded e")
    case False
    then have "tcp_rto_sample e r =
        recompute (e\<lparr>rto_srtt := r', rto_rttvar := r' div 2, rto_seeded := True\<rparr>)"
      by (simp add: tcp_rto_sample_def r'_def Let_def)
    with R recompute_range show ?thesis by (auto simp: rto_ok_def)
  next
    case True
    then have "tcp_rto_sample e r =
        recompute (e\<lparr>rto_rttvar := rto_rttvar e - rto_rttvar e div 4 + d div 4,
          rto_srtt := rto_srtt e - rto_srtt e div 8 + r' div 8\<rparr>)"
      by (simp add: tcp_rto_sample_def r'_def d_def Let_def abs_if)
    with smooth_bound [of "rto_srtt e" R r' 8] smooth_bound [of "rto_rttvar e" R d 4]
      assms(1) R d recompute_range show ?thesis by (auto simp: rto_ok_def)
  qed
qed

lemma rto_ok_backoff: "rto_ok R e \<Longrightarrow> rto_ok R (tcp_rto_backoff e)"
  by (simp add: rto_ok_def tcp_rto_backoff_def Let_def rto_consts)

text \<open>The events the connection feeds to its estimator.\<close>

datatype rto_event = Sample int | Backoff

primrec rto_step :: "tcp_rto \<Rightarrow> rto_event \<Rightarrow> tcp_rto" where
  "rto_step e (Sample r) = tcp_rto_sample e r"
| "rto_step e Backoff = tcp_rto_backoff e"

primrec sample_le :: "int \<Rightarrow> rto_event \<Rightarrow> bool" where
  "sample_le R (Sample r) \<longleftrightarrow> r \<le> R"
| "sample_le R Backoff \<longleftrightarrow> True"

lemma rto_ok_run: "rto_ok R e \<Longrightarrow> \<forall>x\<in>set evs. sample_le R x \<Longrightarrow> rto_ok R (foldl rto_step e evs)"
proof (induction evs arbitrary: e)
  case (Cons x evs)
  then have "rto_ok R (rto_step e x)" by (cases x) (auto intro: rto_ok_sample rto_ok_backoff)
  with Cons show ?case by simp
qed simp

text \<open>
  From its initial state and through any sequence of round-trip samples of at most \<open>R\<close>
  microseconds and timeouts, the timeout stays between 200 ms and 60 s, the smoothed values stay
  between 0 and \<open>R\<close>, and with \<open>R\<close> up to 429 seconds the unclamped sum the C code forms in 32 bits
  does not overflow.
\<close>
theorem rto_bounded:
  assumes "0 \<le> R" "\<forall>x\<in>set evs. sample_le R x"
  shows "TCP_RTO_MIN \<le> tcp_rto_get (foldl rto_step tcp_rto_init evs) \<and>
    tcp_rto_get (foldl rto_step tcp_rto_init evs) \<le> TCP_RTO_MAX \<and>
    0 \<le> rto_srtt (foldl rto_step tcp_rto_init evs) \<and> rto_srtt (foldl rto_step tcp_rto_init evs) \<le> R \<and>
    (R \<le> 429000000 \<longrightarrow> rto_srtt (foldl rto_step tcp_rto_init evs) +
       4 * rto_rttvar (foldl rto_step tcp_rto_init evs) < 2 ^ 31)"
  using rto_ok_run [OF rto_ok_init [OF assms(1)] assms(2)]
  by (auto simp: rto_ok_def tcp_rto_get_def)

theorem rto_bounded_witness:
  "TCP_RTO_MIN \<le> tcp_rto_get (foldl rto_step tcp_rto_init [Sample 150000, Backoff, Sample 90000])"
  using rto_bounded [of 150000 "[Sample 150000, Backoff, Sample 90000]"] by simp

lemma tcp_rto_backoff_min:
  "0 < rto_rto e \<Longrightarrow> tcp_rto_backoff e = e\<lparr>rto_rto := min TCP_RTO_MAX (2 * rto_rto e)\<rparr>"
  by (simp add: tcp_rto_backoff_def Let_def min_def)

lemma backoff_iter:
  assumes "0 < rto_rto e" "rto_rto e \<le> TCP_RTO_MAX"
  shows "(tcp_rto_backoff ^^ k) e = e\<lparr>rto_rto := min TCP_RTO_MAX (2 ^ k * rto_rto e)\<rparr>"
proof (induction k)
  case 0
  with assms show ?case by (simp add: min_def)
next
  case (Suc k)
  let ?e = "e\<lparr>rto_rto := min TCP_RTO_MAX (2 ^ k * rto_rto e)\<rparr>"
  have pos: "0 < 2 ^ k * rto_rto e" "0 < TCP_RTO_MAX" using assms(1) by (simp_all add: rto_consts)
  have "(tcp_rto_backoff ^^ Suc k) e = tcp_rto_backoff ?e" by (simp only: funpow.simps comp_apply Suc)
  also have "\<dots> = e\<lparr>rto_rto := min TCP_RTO_MAX (2 * min TCP_RTO_MAX (2 ^ k * rto_rto e))\<rparr>"
    using pos by (subst tcp_rto_backoff_min) simp_all
  finally show ?case using pos by (simp add: min_def mult.assoc)
qed

text \<open>
  Timeouts back off exponentially up to the ceiling, and the next clean sample forgets them:
  after \<open>k\<close> timeouts the timeout is \<open>min MAX (2 ^ k * RTO)\<close>, and a sample then gives the same state
  as if none had happened.
\<close>
theorem rto_backoff_then_sample:
  assumes "0 < tcp_rto_get e" "tcp_rto_get e \<le> TCP_RTO_MAX"
  shows "tcp_rto_get ((tcp_rto_backoff ^^ k) e) = min TCP_RTO_MAX (2 ^ k * tcp_rto_get e) \<and>
    tcp_rto_sample ((tcp_rto_backoff ^^ k) e) r = tcp_rto_sample e r"
  using assms by (simp add: backoff_iter tcp_rto_get_def tcp_rto_sample_def recompute_def Let_def)

theorem rto_backoff_then_sample_witness:
  "tcp_rto_get ((tcp_rto_backoff ^^ 3) tcp_rto_init) = 8000000"
  using rto_backoff_then_sample [of tcp_rto_init 3 0]
  by (simp add: tcp_rto_init_def tcp_rto_get_def rto_consts)

end
