(* ===== verification/Tcp_Cc.thy ===== *)
theory Tcp_Cc
  imports Prelude
begin

text \<open>
  The Reno congestion control law of \<open>src/tcp_cc.c\<close>, on 32-bit words as in the code. \<open>cc_ok\<close> is
  the invariant of a connection's window; the properties say when it grows and shrinks and when a
  fast retransmit is asked for.
\<close>

subsection \<open>State and operations\<close>

record tcp_cc =
  cc_cwnd :: u32
  cc_ssthresh :: u32
  cc_dupacks :: int
  cc_in_recovery :: bool

definition tcp_cc_init :: "u32 \<Rightarrow> tcp_cc" where
  "tcp_cc_init mss = \<lparr>cc_cwnd = 4 * mss, cc_ssthresh = 0x40000000, cc_dupacks = 0, cc_in_recovery = False\<rparr>"

definition halve :: "u32 \<Rightarrow> u32 \<Rightarrow> u32" where
  "halve cwnd mss = (let h = cwnd div 2; floor = 2 * mss in if h > floor then h else floor)"

definition tcp_cc_on_ack :: "tcp_cc \<Rightarrow> u32 \<Rightarrow> tcp_cc" where
  "tcp_cc_on_ack c mss =
     (if cc_in_recovery c
      then c\<lparr>cc_cwnd := cc_ssthresh c, cc_in_recovery := False, cc_dupacks := 0\<rparr>
      else let c = c\<lparr>cc_dupacks := 0\<rparr> in
        if cc_cwnd c < cc_ssthresh c then c\<lparr>cc_cwnd := cc_cwnd c + mss\<rparr>
        else let inc = mss * mss div cc_cwnd c; inc = (if inc = 0 then 1 else inc)
          in c\<lparr>cc_cwnd := cc_cwnd c + inc\<rparr>)"

definition tcp_cc_on_dupack :: "tcp_cc \<Rightarrow> u32 \<Rightarrow> bool \<times> tcp_cc" where
  "tcp_cc_on_dupack c mss =
     (if cc_in_recovery c then (False, c\<lparr>cc_cwnd := cc_cwnd c + mss\<rparr>)
      else let c = c\<lparr>cc_dupacks := cc_dupacks c + 1\<rparr> in
        if cc_dupacks c = 3
        then let c = c\<lparr>cc_ssthresh := halve (cc_cwnd c) mss\<rparr>
          in (True, c\<lparr>cc_cwnd := cc_ssthresh c + 3 * mss, cc_in_recovery := True\<rparr>)
        else (False, c))"

definition tcp_cc_on_timeout :: "tcp_cc \<Rightarrow> u32 \<Rightarrow> tcp_cc" where
  "tcp_cc_on_timeout c mss = c\<lparr>cc_ssthresh := halve (cc_cwnd c) mss, cc_cwnd := mss,
     cc_dupacks := 0, cc_in_recovery := False\<rparr>"

definition tcp_cc_cwnd :: "tcp_cc \<Rightarrow> u32" where "tcp_cc_cwnd c = cc_cwnd c"

subsection \<open>The invariant\<close>

definition cc_ok :: "u32 \<Rightarrow> tcp_cc \<Rightarrow> bool" where
  "cc_ok mss c \<longleftrightarrow> unat mss \<le> unat (cc_cwnd c) \<and> 2 * unat mss \<le> unat (cc_ssthresh c) \<and>
     0 \<le> cc_dupacks c \<and> (if cc_in_recovery c then cc_dupacks c = 3 else cc_dupacks c < 3)"

definition cc_room :: "tcp_cc \<Rightarrow> bool" where
  "cc_room c \<longleftrightarrow> unat (cc_cwnd c) \<le> 2 ^ 31 \<and> unat (cc_ssthresh c) \<le> 2 ^ 31"

lemma unat_plus_u32: "unat (a :: u32) + unat b < 4294967296 \<Longrightarrow> unat (a + b) = unat a + unat b"
  by (simp add: unat_word_ariths)

lemma unat_mult_u32: "unat (a :: u32) * unat b < 4294967296 \<Longrightarrow> unat (a * b) = unat a * unat b"
  by (simp add: unat_word_ariths)

lemma unat_halve:
  assumes "unat mss \<le> 65535"
  shows "unat (halve cwnd mss) = max (unat cwnd div 2) (2 * unat mss)"
proof -
  have m: "unat (2 * mss) = 2 * unat mss" using assms by (subst unat_mult_u32) simp_all
  have h: "unat (cwnd div 2) = unat cwnd div 2" by (simp add: unat_div)
  show ?thesis
    by (simp add: halve_def Let_def word_less_nat_alt m h max_def)
qed

lemma cc_ok_init:
  assumes "unat mss \<le> 65535"
  shows "cc_ok mss (tcp_cc_init mss)"
proof -
  have "unat (4 * mss) = 4 * unat mss" using assms by (subst unat_mult_u32) simp_all
  with assms show ?thesis by (simp add: cc_ok_def tcp_cc_init_def)
qed

lemma cc_inc_le:
  assumes "unat mss \<le> 65535" "unat mss \<le> unat (cwnd :: u32)"
  shows "unat (mss * mss div cwnd) \<le> unat mss"
proof -
  have "unat mss * unat mss \<le> 65535 * 65535" using assms(1) by (rule mult_le_mono) (rule assms(1))
  then have "unat (mss * mss) = unat mss * unat mss" by (subst unat_mult_u32) simp_all
  then have "unat (mss * mss div cwnd) = unat mss * unat mss div unat cwnd"
    by (simp add: unat_div)
  also have "\<dots> \<le> unat mss * unat cwnd div unat cwnd"
    using assms(2) by (intro div_le_mono mult_le_mono2)
  also have "\<dots> \<le> unat mss" by simp
  finally show ?thesis .
qed

lemma cc_ok_ack:
  assumes "unat mss \<le> 65535" "cc_room c" "cc_ok mss c"
  shows "cc_ok mss (tcp_cc_on_ack c mss)"
proof (cases "cc_in_recovery c")
  case True
  with assms show ?thesis by (auto simp: cc_ok_def tcp_cc_on_ack_def)
next
  case False
  have cw: "unat (cc_cwnd c) \<le> 2147483648" "unat mss \<le> unat (cc_cwnd c)" "2 * unat mss \<le> unat (cc_ssthresh c)"
    using assms by (auto simp: cc_room_def cc_ok_def)
  let ?inc = "mss * mss div cc_cwnd c"
  have inc: "unat (if ?inc = 0 then 1 else ?inc) \<le> 65535"
    using cc_inc_le [OF assms(1) cw(2)] assms(1) by auto
  have s: "unat (cc_cwnd c + mss) = unat (cc_cwnd c) + unat mss"
    using cw assms(1) by (intro unat_plus_u32) linarith
  have a: "unat (cc_cwnd c + (if ?inc = 0 then 1 else ?inc)) = unat (cc_cwnd c) + unat (if ?inc = 0 then 1 else ?inc)"
    using cw inc by (intro unat_plus_u32) linarith
  show ?thesis
  proof (cases "cc_cwnd c < cc_ssthresh c")
    case True
    with False cw s show ?thesis by (simp add: cc_ok_def tcp_cc_on_ack_def Let_def)
  next
    case ca: False
    then have "cc_cwnd (tcp_cc_on_ack c mss) = cc_cwnd c + (if ?inc = 0 then 1 else ?inc)"
      "cc_ssthresh (tcp_cc_on_ack c mss) = cc_ssthresh c" "cc_dupacks (tcp_cc_on_ack c mss) = 0"
      "\<not> cc_in_recovery (tcp_cc_on_ack c mss)"
      using False by (simp_all add: tcp_cc_on_ack_def Let_def)
    with cw a show ?thesis by (simp add: cc_ok_def)
  qed
qed

lemma cc_ok_dupack:
  assumes "unat mss \<le> 65535" "cc_room c" "cc_ok mss c"
  shows "cc_ok mss (snd (tcp_cc_on_dupack c mss))"
proof -
  have cw: "unat (cc_cwnd c) \<le> 2147483648" "unat mss \<le> unat (cc_cwnd c)" "2 * unat mss \<le> unat (cc_ssthresh c)"
    using assms by (auto simp: cc_room_def cc_ok_def)
  have h: "unat (halve (cc_cwnd c) mss) = max (unat (cc_cwnd c) div 2) (2 * unat mss)"
    by (rule unat_halve [OF assms(1)])
  have t: "unat (3 * mss) = 3 * unat mss" using assms(1) by (subst unat_mult_u32) simp_all
  have r: "unat (halve (cc_cwnd c) mss + 3 * mss) = unat (halve (cc_cwnd c) mss) + 3 * unat mss"
    using cw h t assms(1) by (subst unat_plus_u32) auto
  have s: "unat (cc_cwnd c + mss) = unat (cc_cwnd c) + unat mss"
    using cw assms(1) by (intro unat_plus_u32) linarith
  show ?thesis using assms(3) cw h r s
    by (auto simp: cc_ok_def tcp_cc_on_dupack_def Let_def split: if_splits)
qed

lemma cc_ok_timeout: "unat mss \<le> 65535 \<Longrightarrow> cc_ok mss (tcp_cc_on_timeout c mss)"
  by (simp add: cc_ok_def tcp_cc_on_timeout_def unat_halve)

text \<open>
  The congestion window never collapses below one segment nor the threshold below two, and
  the duplicate-ACK counter and the recovery flag stay consistent, through every ACK, duplicate ACK
  and timeout, as long as the window and threshold are below \<open>2 ^ 31\<close> bytes (so no 32-bit sum wraps
  and the division of congestion avoidance never divides by zero).
\<close>
theorem cc_invariant:
  assumes "0 < unat mss" "unat mss \<le> 65535" "cc_room c" "cc_ok mss c"
  shows "cc_ok mss (tcp_cc_on_ack c mss) \<and> cc_ok mss (snd (tcp_cc_on_dupack c mss)) \<and>
    cc_ok mss (tcp_cc_on_timeout c mss) \<and> cc_cwnd c \<noteq> 0"
  using cc_ok_ack [OF assms(2-4)] cc_ok_dupack [OF assms(2-4)] cc_ok_timeout [OF assms(2)] assms(1,4)
  by (auto simp: cc_ok_def)

theorem cc_invariant_witness:
  "cc_ok 1400 (tcp_cc_on_ack (tcp_cc_init 1400) 1400)"
  using cc_invariant [of 1400 "tcp_cc_init 1400"] cc_ok_init [of 1400]
  by (simp add: cc_room_def tcp_cc_init_def)

primrec dupack_run :: "nat \<Rightarrow> tcp_cc \<Rightarrow> u32 \<Rightarrow> bool list \<times> tcp_cc" where
  "dupack_run 0 c mss = ([], c)"
| "dupack_run (Suc n) c mss = (case tcp_cc_on_dupack c mss of (b, c') \<Rightarrow>
     (case dupack_run n c' mss of (bs, c'') \<Rightarrow> (b # bs, c'')))"

lemma dupack_run_recovery:
  "cc_in_recovery c \<Longrightarrow> dupack_run n c mss = (replicate n False, c\<lparr>cc_cwnd := cc_cwnd c + of_nat n * mss\<rparr>)"
  by (induction n arbitrary: c) (simp_all add: tcp_cc_on_dupack_def algebra_simps)

text \<open>
  A fast retransmit is asked for exactly once, by the third duplicate ACK in a row: over any
  run of \<open>n\<close> duplicate ACKs from a fresh count, only the third answers 1; it halves the threshold
  (not below two segments) and sets the window to threshold + 3 segments, and each later one
  inflates the window by one segment.
\<close>
theorem cc_fast_retransmit_once:
  assumes "\<not> cc_in_recovery c" "cc_dupacks c = 0"
  shows "fst (dupack_run n c mss) = map (\<lambda>i. i = 2) [0..<n] \<and>
    (3 \<le> n \<longrightarrow> cc_cwnd (snd (dupack_run n c mss)) = halve (cc_cwnd c) mss + of_nat n * mss \<and>
       cc_ssthresh (snd (dupack_run n c mss)) = halve (cc_cwnd c) mss)"
proof -
  have c3: "n = 0 \<or> n = 1 \<or> n = 2 \<or> (\<exists>k. n = Suc (Suc (Suc k)))"
    by (metis One_nat_def Suc_1 not0_implies_Suc)
  have short: "[0..<Suc 0] = [0]" "[0..<Suc (Suc 0)] = [0, Suc 0]" by simp_all
  have tail: "map (\<lambda>i. i = Suc (Suc 0)) [0..<Suc (Suc (Suc k))] = False # False # True # replicate k False" for k
    by (rule nth_equalityI) (auto simp: nth_Cons' less_Suc_eq_0_disj simp del: upt_Suc)
  show ?thesis
    using c3 assms
    by (auto simp: tcp_cc_on_dupack_def Let_def dupack_run_recovery short tail numeral_2_eq_2 algebra_simps
        simp del: upt_Suc)
qed

theorem cc_fast_retransmit_once_witness:
  "fst (dupack_run 4 (tcp_cc_init 1400) 1400) = map (\<lambda>i. i = 2) [0..<4]"
  using cc_fast_retransmit_once [of "tcp_cc_init 1400" 4 1400] by (simp add: tcp_cc_init_def)

end
