(* ===== verification/Tcp.thy ===== *)
theory Tcp
  imports Net_Bytes Tcp_Reasm Tcp_Rto Tcp_Cc
begin

text \<open>
  The TCP of \<open>src/tcp.c\<close>: a table of \<open>NCONN\<close> connections, the receive path \<open>tcp_input\<close> and the
  calls of the client and server API that do not wait. Our address (\<open>net_our_ip\<close>) and the clock
  (\<open>timer_now_us\<close>) are arguments; a segment handed to \<open>net_ip_send\<close> is an entry of the output, a
  list of (destination, protocol, bytes). A C pointer to a connection is its index in the table.
  The arrays \<open>rx\<close> and \<open>sndbuf\<close> are lists; \<open>tcp_ok\<close> keeps every index within them.
\<close>

subsection \<open>Constants and state\<close>

definition FIN :: u8 where "FIN = 0x01"
definition SYN :: u8 where "SYN = 0x02"
definition RST :: u8 where "RST = 0x04"
definition PSH :: u8 where "PSH = 0x08"
definition ACK :: u8 where "ACK = 0x10"

definition flag :: "u8 \<Rightarrow> u8 \<Rightarrow> bool" where "flag fl f \<longleftrightarrow> fl AND f \<noteq> 0"

datatype tcp_state = CLOSED | LISTEN | SYN_SENT | SYN_RCVD | ESTABLISHED | FIN_WAIT_1
  | FIN_WAIT_2 | CLOSING | TIME_WAIT | CLOSE_WAIT | LAST_ACK

definition NCONN :: nat where "NCONN = 8"
definition TCP_RXBUF :: nat where "TCP_RXBUF = 16384"
definition TCP_SNDBUF :: nat where "TCP_SNDBUF = 16384"
definition TCP_MSS :: nat where "TCP_MSS = 1400"

record tcp_conn =
  c_used :: bool
  c_state :: tcp_state
  c_lport :: u16
  c_rport :: u16
  c_rip :: u32
  c_snd_nxt :: u32
  c_snd_una :: u32
  c_rcv_nxt :: u32
  c_snd_wnd :: u16
  c_last_adv :: u16
  c_rx :: "u8 list"
  c_rxhead :: nat
  c_rxtail :: nat
  c_reasm :: tcp_reasm
  c_have_fin :: bool
  c_fin_seq :: u32
  c_peer_fin :: bool
  c_fin_sent :: bool
  c_tw_start :: u64
  c_reset :: bool
  c_accepted :: bool
  c_rto :: tcp_rto
  c_cc :: tcp_cc
  c_sndbuf :: "u8 list"
  c_snd_base :: u32
  c_snd_len :: nat
  c_snd_time :: u64
  c_snd_retx :: bool

type_synonym packet = "u32 \<times> u8 \<times> u8 list"

subsection \<open>Sequence numbers, the receive ring and window arithmetic\<close>

definition seq_gt :: "u32 \<Rightarrow> u32 \<Rightarrow> bool" where "seq_gt a b \<longleftrightarrow> sint (a - b) > 0"
definition seq_ge :: "u32 \<Rightarrow> u32 \<Rightarrow> bool" where "seq_ge a b \<longleftrightarrow> sint (a - b) \<ge> 0"

definition ring_empty :: "tcp_conn \<Rightarrow> bool" where
  "ring_empty c \<longleftrightarrow> c_rxhead c = c_rxtail c"

definition ring_push :: "tcp_conn \<Rightarrow> u8 \<Rightarrow> tcp_conn" where
  "ring_push c b =
     (let nxt = (c_rxhead c + 1) mod TCP_RXBUF in
      if nxt = c_rxtail c then c
      else c\<lparr>c_rx := (c_rx c)[c_rxhead c := b], c_rxhead := nxt\<rparr>)"

fun ring_pop :: "tcp_conn \<Rightarrow> nat \<Rightarrow> u8 list \<times> tcp_conn" where
  "ring_pop c 0 = ([], c)"
| "ring_pop c (Suc k) =
     (if c_rxtail c \<noteq> c_rxhead c
      then let b = c_rx c ! c_rxtail c; c' = c\<lparr>c_rxtail := (c_rxtail c + 1) mod TCP_RXBUF\<rparr>
        in case ring_pop c' k of (bs, c'') \<Rightarrow> (b # bs, c'')
      else ([], c))"

definition tcp_checksum :: "u32 \<Rightarrow> u32 \<Rightarrow> u8 list \<Rightarrow> u16" where
  "tcp_checksum sip dip seg = csum_finish
     (unat (drop_bit 16 sip) + unat (sip AND 0xffff) + unat (drop_bit 16 dip) + unat (dip AND 0xffff)
      + 6 + length seg + csum_words seg)"

definition tcp_advertise_wnd :: "int \<Rightarrow> u16" where
  "tcp_advertise_wnd free =
     (let free = (if free < 0 then 0 else free);
          free = (if free > int TCP_REASM_WIN then int TCP_REASM_WIN else free);
          free = (if free > 65535 then 65535 else free)
      in word_of_int free)"

definition tcp_window_avail :: "u32 \<Rightarrow> u32 \<Rightarrow> u16 \<Rightarrow> int \<Rightarrow> int" where
  "tcp_window_avail snd_una snd_nxt peer_wnd mss =
     (let inflight = sint (snd_nxt - snd_una);
          usable = uint peer_wnd - inflight;
          usable = (if usable < 0 then 0 else usable)
      in if usable > mss then mss else usable)"

definition tcp_next_seg :: "int \<Rightarrow> int \<Rightarrow> int \<Rightarrow> int \<Rightarrow> int" where
  "tcp_next_seg unsent inflight win mss =
     (if unsent \<le> 0 then 0
      else let room = win - inflight in
        if room \<le> 0 then 0
        else let sg = (if unsent < mss then unsent else mss);
                 sg = (if sg > room then room else sg)
          in if sg \<le> 0 then 0
             else if sg < mss \<and> inflight > 0 then 0
             else sg)"

definition ring_free :: "tcp_conn \<Rightarrow> int" where
  "ring_free c =
     (let used = (int (c_rxhead c) - int (c_rxtail c) + int TCP_RXBUF) mod int TCP_RXBUF
      in int TCP_RXBUF - 1 - used)"

subsection \<open>Transmission\<close>

text \<open>The 20-byte header with the checksum field \<open>ck\<close>, as \<open>put16\<close> and \<open>put32\<close> lay it out.\<close>

definition tcp_header :: "u16 \<Rightarrow> u16 \<Rightarrow> u32 \<Rightarrow> u32 \<Rightarrow> u8 \<Rightarrow> u16 \<Rightarrow> u16 \<Rightarrow> u8 list" where
  "tcp_header lport rport sq ak fl wnd ck =
     put16 lport @ put16 rport @ put32 sq @ put32 ak @ [push_bit 4 5, fl] @ put16 wnd @ put16 ck @ put16 0"

definition tcp_xmit_seq :: "u32 \<Rightarrow> tcp_conn \<Rightarrow> u8 \<Rightarrow> u32 \<Rightarrow> u8 list \<Rightarrow> tcp_conn \<times> packet list" where
  "tcp_xmit_seq our_ip c fl sq dat =
     (let adv = tcp_advertise_wnd (ring_free c);
          c' = c\<lparr>c_last_adv := adv\<rparr>;
          hdr = tcp_header (c_lport c) (c_rport c) sq (c_rcv_nxt c) fl adv;
          ck = tcp_checksum our_ip (c_rip c) (hdr 0 @ dat)
      in (c', [(c_rip c, 6, hdr ck @ dat)]))"

definition tcp_xmit :: "u32 \<Rightarrow> tcp_conn \<Rightarrow> u8 \<Rightarrow> u8 list \<Rightarrow> tcp_conn \<times> packet list" where
  "tcp_xmit our_ip c fl dat = tcp_xmit_seq our_ip c fl (c_snd_nxt c) dat"

definition TCP_TIME_WAIT_US :: u64 where "TCP_TIME_WAIT_US = 2 * 250000"

definition synchronized :: "tcp_state \<Rightarrow> bool" where
  "synchronized s \<longleftrightarrow> s = ESTABLISHED \<or> s = FIN_WAIT_1 \<or> s = FIN_WAIT_2 \<or>
     s = CLOSING \<or> s = CLOSE_WAIT \<or> s = LAST_ACK \<or> s = TIME_WAIT"

definition tcp_rst_fields :: "u8 \<Rightarrow> u32 \<Rightarrow> u32 \<Rightarrow> nat \<Rightarrow> u32 \<times> u32 \<times> u8" where
  "tcp_rst_fields in_flags in_seq in_ack seg_len =
     (if flag in_flags ACK then (in_ack, 0, RST) else (0, in_seq + of_nat seg_len, RST OR ACK))"

definition tcp_send_rst :: "u32 \<Rightarrow> u32 \<Rightarrow> u16 \<Rightarrow> u16 \<Rightarrow> u32 \<Rightarrow> u32 \<Rightarrow> u8 \<Rightarrow> nat \<Rightarrow> packet list" where
  "tcp_send_rst our_ip dst lport rport in_seq in_ack in_flags seg_len =
     (case tcp_rst_fields in_flags in_seq in_ack seg_len of (rseq, rack, rflags) \<Rightarrow>
        let hdr = tcp_header lport rport rseq rack rflags 0
        in [(dst, 6, hdr (tcp_checksum our_ip dst (hdr 0)))])"

subsection \<open>The send queue\<close>

definition snd_unsent :: "tcp_conn \<Rightarrow> int" where
  "snd_unsent c = sint (c_snd_base c + of_nat (c_snd_len c) - c_snd_nxt c)"

definition snd_inflight :: "tcp_conn \<Rightarrow> int" where
  "snd_inflight c = sint (c_snd_nxt c - c_snd_una c)"

definition snd_win :: "tcp_conn \<Rightarrow> int" where
  "snd_win c = (let cwnd = tcp_cc_cwnd (c_cc c) in
     if uint (c_snd_wnd c) < uint cwnd then uint (c_snd_wnd c) else sint cwnd)"

definition snd_next_seg :: "tcp_conn \<Rightarrow> int" where
  "snd_next_seg c = tcp_next_seg (snd_unsent c) (snd_inflight c) (snd_win c) (int TCP_MSS)"

text \<open>Bytes \<open>off .. off + n\<close> of the send buffer; \<open>off\<close> is an \<open>int\<close> of the code.\<close>

definition sndbuf_slice :: "tcp_conn \<Rightarrow> int \<Rightarrow> int \<Rightarrow> u8 list" where
  "sndbuf_slice c off n = take (nat n) (drop (nat off) (c_sndbuf c))"

text \<open>One turn of the send loop: the next segment goes out and \<open>snd_nxt\<close> moves past it.\<close>

definition tcp_send_one :: "u32 \<Rightarrow> u64 \<Rightarrow> tcp_conn \<Rightarrow> tcp_conn \<times> packet list" where
  "tcp_send_one our_ip now c =
     (let sg = snd_next_seg c; off = sint (c_snd_nxt c - c_snd_base c);
          (c1, pk) = tcp_xmit_seq our_ip c (PSH OR ACK) (c_snd_nxt c) (sndbuf_slice c off sg);
          c2 = (if c_snd_time c1 = 0 then c1\<lparr>c_snd_time := now\<rparr> else c1)
      in (c2\<lparr>c_snd_nxt := c_snd_nxt c2 + word_of_int sg\<rparr>, pk))"

lemma tcp_next_seg_le: "tcp_next_seg unsent inflight win mss \<le> max 0 unsent"
  by (auto simp: tcp_next_seg_def Let_def)

lemma sint_minus_less:
  assumes "0 < k" "k \<le> sint (x :: u32)"
  shows "sint (x - word_of_int k) = sint x - k"
proof -
  have "uint x < 4294967296" using uint_lt2p [of x] by simp
  with assms have x: "uint x < 2147483648" "sint x = uint x"
    by (auto simp: sint_u32 split: if_splits)
  have k: "uint (word_of_int k :: u32) = k"
    using assms x by (simp add: uint_word_of_int)
  have "uint (x - word_of_int k) = uint x - k"
    using assms x k uint_sub_lem [of "word_of_int k" x] by (simp add: k)
  with assms x show ?thesis by (simp add: sint_u32)
qed

lemma tcp_send_one_fields [simp]:
  "c_snd_base (fst (tcp_send_one our_ip now c)) = c_snd_base c"
  "c_snd_len (fst (tcp_send_one our_ip now c)) = c_snd_len c"
  "c_snd_una (fst (tcp_send_one our_ip now c)) = c_snd_una c"
  "c_snd_wnd (fst (tcp_send_one our_ip now c)) = c_snd_wnd c"
  "c_cc (fst (tcp_send_one our_ip now c)) = c_cc c"
  "c_state (fst (tcp_send_one our_ip now c)) = c_state c"
  "c_sndbuf (fst (tcp_send_one our_ip now c)) = c_sndbuf c"
  "c_snd_nxt (fst (tcp_send_one our_ip now c)) = c_snd_nxt c + word_of_int (snd_next_seg c)"
  by (simp_all add: tcp_send_one_def tcp_xmit_seq_def Let_def)

lemma snd_next_seg_le: "0 < snd_next_seg c \<Longrightarrow> snd_next_seg c \<le> snd_unsent c"
  using tcp_next_seg_le [of "snd_unsent c" "snd_inflight c" "snd_win c" "int TCP_MSS"]
  unfolding snd_next_seg_def by linarith

lemma snd_unsent_send_one:
  assumes "0 < snd_next_seg c"
  shows "snd_unsent (fst (tcp_send_one our_ip now c)) = snd_unsent c - snd_next_seg c"
proof -
  have le: "snd_next_seg c \<le> snd_unsent c"
    by (rule snd_next_seg_le [OF assms])
  then show ?thesis
    using sint_minus_less [OF assms le [unfolded snd_unsent_def]]
    by (simp add: snd_unsent_def algebra_simps)
qed

function tcp_send_window :: "u32 \<Rightarrow> u64 \<Rightarrow> tcp_conn \<Rightarrow> bool \<times> tcp_conn \<times> packet list" where
  "tcp_send_window our_ip now c =
     (if snd_next_seg c \<le> 0 then (False, c, [])
      else case tcp_send_one our_ip now c of (c', pk) \<Rightarrow>
        (case tcp_send_window our_ip now c' of (_, c'', pks) \<Rightarrow> (True, c'', pk @ pks)))"
  by pat_completeness auto
termination
proof (relation "measure (\<lambda>(our_ip, now, c). nat (snd_unsent c))")
  fix our_ip now c x y assume s: "\<not> snd_next_seg c \<le> 0" "(x, y) = tcp_send_one our_ip now c"
  then have "x = fst (tcp_send_one our_ip now c)" by (metis fst_conv)
  with s snd_unsent_send_one [of c our_ip now] snd_next_seg_le [of c]
  show "((our_ip, now, x), our_ip, now, c) \<in> measure (\<lambda>(our_ip, now, c). nat (snd_unsent c))"
    by simp
qed simp

declare tcp_send_window.simps [simp del]

definition tcp_retx_oldest :: "u32 \<Rightarrow> tcp_conn \<Rightarrow> tcp_conn \<times> packet list" where
  "tcp_retx_oldest our_ip c =
     (let acked_off = sint (c_snd_una c - c_snd_base c); remain = int (c_snd_len c) - acked_off in
      if remain \<le> 0 then (c, [])
      else let sg = (if remain < int TCP_MSS then remain else int TCP_MSS)
        in tcp_xmit_seq our_ip c (PSH OR ACK) (c_snd_una c) (sndbuf_slice c acked_off sg))"

subsection \<open>The receive path\<close>

record seg_hdr =
  h_sport :: u16
  h_dport :: u16
  h_seq :: u32
  h_ack :: u32
  h_flags :: u8
  h_wnd :: u16
  h_data :: "u8 list"

definition tcp_parse :: "u8 list \<Rightarrow> seg_hdr option" where
  "tcp_parse sg =
     (if length sg < 20 then None
      else let doff = unat (drop_bit 4 (sg ! 12)) * 4 in
        if doff < 20 \<or> doff > length sg then None
        else Some \<lparr>h_sport = get16 sg 0, h_dport = get16 sg 2, h_seq = get32 sg 4, h_ack = get32 sg 8,
          h_flags = sg ! 13, h_wnd = get16 sg 14, h_data = drop doff sg\<rparr>)"

definition find_conn :: "(tcp_conn \<Rightarrow> bool) \<Rightarrow> tcp_conn list \<Rightarrow> nat option" where
  "find_conn P cs = List.find (\<lambda>i. P (cs ! i)) [0..<length cs]"

definition tcp_demux :: "u32 \<Rightarrow> seg_hdr \<Rightarrow> tcp_conn list \<Rightarrow> nat option" where
  "tcp_demux src h = find_conn (\<lambda>c. c_used c \<and> c_lport c = h_dport h \<and>
     c_rip c = src \<and> c_rport c = h_sport h)"

definition tcp_fresh :: "tcp_conn \<Rightarrow> tcp_conn" where
  "tcp_fresh c = c\<lparr>c_used := True, c_state := CLOSED,
     c_rxhead := 0, c_rxtail := 0, c_peer_fin := False, c_reset := False,
     c_have_fin := False, c_fin_seq := 0, c_fin_sent := False, c_tw_start := 0,
     c_snd_len := 0, c_snd_base := 0, c_snd_time := 0, c_snd_retx := False,
     c_snd_wnd := 0, c_last_adv := 0, c_accepted := False,
     c_rto := tcp_rto_init, c_cc := tcp_cc_init (of_nat TCP_MSS)\<rparr>"

definition tcp_new :: "tcp_conn list \<Rightarrow> (nat \<times> tcp_conn list) option" where
  "tcp_new cs =
     (case find_conn (\<lambda>c. \<not> c_used c) cs of None \<Rightarrow> None
      | Some i \<Rightarrow> Some (i, cs[i := tcp_fresh (cs ! i)]))"

text \<open>The ACK field of a synchronized connection: new data acknowledged, or a pure duplicate.\<close>

definition tcp_input_ack :: "u32 \<Rightarrow> tcp_conn \<Rightarrow> seg_hdr \<Rightarrow> tcp_conn \<times> packet list" where
  "tcp_input_ack our_ip c h =
     (if flag (h_flags h) ACK then
        if seq_gt (h_ack h) (c_snd_una c)
        then (c\<lparr>c_snd_una := h_ack h, c_cc := tcp_cc_on_ack (c_cc c) (of_nat TCP_MSS)\<rparr>, [])
        else if h_ack h = c_snd_una c \<and> h_data h = [] \<and> \<not> flag (h_flags h) (SYN OR FIN) \<and>
                h_wnd h = c_snd_wnd c \<and> c_snd_una c \<noteq> c_snd_nxt c
        then case tcp_cc_on_dupack (c_cc c) (of_nat TCP_MSS) of (fast, cc') \<Rightarrow>
          let c = c\<lparr>c_cc := cc'\<rparr> in
          if fast then (case tcp_retx_oldest our_ip c of (c, pk) \<Rightarrow> (c\<lparr>c_snd_retx := True\<rparr>, pk))
          else (c, [])
        else (c, [])
      else (c, []))"

text \<open>
  The loop that moves the contiguous run of the reassembly queue into the ring, a segment-sized
  block at a time. Every turn takes at least one of the at most \<open>TCP_REASM_WIN\<close> stored bytes, so
  that many turns are enough (\<open>tcp_drain_complete\<close>).
\<close>

fun tcp_drain :: "nat \<Rightarrow> tcp_conn \<Rightarrow> tcp_conn" where
  "tcp_drain 0 c = c"
| "tcp_drain (Suc k) c =
     (case tcp_reasm_read (c_reasm c) TCP_MSS of (tmp, q) \<Rightarrow>
        if tmp = [] then c\<lparr>c_reasm := q\<rparr> else tcp_drain k (foldl ring_push (c\<lparr>c_reasm := q\<rparr>) tmp))"

definition tcp_input_data :: "tcp_conn \<Rightarrow> seg_hdr \<Rightarrow> tcp_conn" where
  "tcp_input_data c h =
     (let c = (if h_data h \<noteq> [] then c\<lparr>c_reasm := tcp_reasm_accept (c_reasm c) (h_seq h) (h_data h)\<rparr> else c);
          c = tcp_drain TCP_REASM_WIN c
      in c\<lparr>c_rcv_nxt := tcp_reasm_pos (c_reasm c)\<rparr>)"

definition tcp_input_fin :: "tcp_conn \<Rightarrow> seg_hdr \<Rightarrow> tcp_conn \<times> bool" where
  "tcp_input_fin c h =
     (let c = (if flag (h_flags h) FIN
               then c\<lparr>c_have_fin := True, c_fin_seq := h_seq h + of_nat (length (h_data h))\<rparr> else c) in
      if c_have_fin c \<and> \<not> c_peer_fin c \<and> c_rcv_nxt c = c_fin_seq c
      then (c\<lparr>c_rcv_nxt := c_rcv_nxt c + 1, c_peer_fin := True\<rparr>, True) else (c, False))"

definition tcp_input_teardown :: "u64 \<Rightarrow> bool \<Rightarrow> tcp_conn \<Rightarrow> tcp_conn" where
  "tcp_input_teardown now peer_fin_now c =
     (let our_fin_acked = (c_fin_sent c \<and> c_snd_una c = c_snd_nxt c);
          c = (if our_fin_acked then
                 if c_state c = FIN_WAIT_1 then c\<lparr>c_state := FIN_WAIT_2\<rparr>
                 else if c_state c = CLOSING then c\<lparr>c_state := TIME_WAIT, c_tw_start := now\<rparr>
                 else if c_state c = LAST_ACK then c\<lparr>c_state := CLOSED\<rparr> else c
               else c)
      in if peer_fin_now then
           if c_state c = ESTABLISHED then c\<lparr>c_state := CLOSE_WAIT\<rparr>
           else if c_state c = FIN_WAIT_2 then c\<lparr>c_state := TIME_WAIT, c_tw_start := now\<rparr>
           else if c_state c = FIN_WAIT_1 then
             if our_fin_acked then c\<lparr>c_state := TIME_WAIT, c_tw_start := now\<rparr> else c\<lparr>c_state := CLOSING\<rparr>
           else c
         else c)"

text \<open>A segment for a synchronized connection, and for a connection in any state.\<close>

definition tcp_input_sync :: "u32 \<Rightarrow> u64 \<Rightarrow> tcp_conn \<Rightarrow> seg_hdr \<Rightarrow> tcp_conn \<times> packet list" where
  "tcp_input_sync our_ip now c h =
     (case tcp_input_ack our_ip c h of (c, pk1) \<Rightarrow>
      let c = c\<lparr>c_snd_wnd := h_wnd h\<rparr>;
          c = tcp_input_data c h in
      case tcp_input_fin c h of (c, peer_fin_now) \<Rightarrow>
      case (if h_data h \<noteq> [] \<or> flag (h_flags h) FIN then tcp_xmit our_ip c ACK [] else (c, [])) of (c, pk2) \<Rightarrow>
      let c = (if flag (h_flags h) FIN \<and> c_state c = TIME_WAIT then c\<lparr>c_tw_start := now\<rparr> else c)
      in (tcp_input_teardown now peer_fin_now c, pk1 @ pk2))"

definition tcp_input_conn :: "u32 \<Rightarrow> u64 \<Rightarrow> tcp_conn \<Rightarrow> seg_hdr \<Rightarrow> tcp_conn \<times> packet list" where
  "tcp_input_conn our_ip now c h =
     (if flag (h_flags h) RST then (c\<lparr>c_reset := True, c_state := CLOSED\<rparr>, [])
      else if c_state c = SYN_RCVD then
        if flag (h_flags h) ACK \<and> h_ack h = c_snd_nxt c
        then (c\<lparr>c_snd_una := h_ack h, c_snd_wnd := h_wnd h, c_state := ESTABLISHED,
               c_reasm := tcp_reasm_init (c_reasm c) (c_rcv_nxt c)\<rparr>, [])
        else if flag (h_flags h) SYN \<and> \<not> flag (h_flags h) ACK
        then tcp_xmit_seq our_ip c (SYN OR ACK) (c_snd_una c) []
        else (c, [])
      else if c_state c = SYN_SENT then
        if flag (h_flags h) SYN \<and> flag (h_flags h) ACK \<and> h_ack h = c_snd_nxt c
        then let c = c\<lparr>c_rcv_nxt := h_seq h + 1, c_snd_una := h_ack h, c_snd_wnd := h_wnd h,
                       c_state := ESTABLISHED, c_reasm := tcp_reasm_init (c_reasm c) (h_seq h + 1)\<rparr>
             in tcp_xmit our_ip c ACK []
        else (c, [])
      else if synchronized (c_state c) then tcp_input_sync our_ip now c h
      else (c, []))"

text \<open>A segment that matches no connection: a SYN to a listener, or the reset reply.\<close>

definition tcp_input_nomatch :: "u32 \<Rightarrow> u64 \<Rightarrow> u32 \<Rightarrow> tcp_conn list \<Rightarrow> seg_hdr \<Rightarrow> tcp_conn list \<times> packet list" where
  "tcp_input_nomatch our_ip now src cs h =
     (if flag (h_flags h) SYN \<and> \<not> flag (h_flags h) ACK then
        (case find_conn (\<lambda>c. c_used c \<and> c_state c = LISTEN \<and> c_lport c = h_dport h) cs of
           None \<Rightarrow> (cs, [])
         | Some _ \<Rightarrow>
             (case tcp_new cs of None \<Rightarrow> (cs, [])
              | Some (i, cs) \<Rightarrow>
                  let isn = ucast now;
                      ch = (cs ! i)\<lparr>c_lport := h_dport h, c_rip := src, c_rport := h_sport h,
                        c_rcv_nxt := h_seq h + 1, c_snd_una := isn, c_snd_nxt := isn,
                        c_snd_wnd := h_wnd h, c_state := SYN_RCVD\<rparr>
                  in case tcp_xmit_seq our_ip ch (SYN OR ACK) isn [] of (ch, pk) \<Rightarrow>
                       (cs[i := ch\<lparr>c_snd_nxt := isn + 1\<rparr>], pk)))
      else if \<not> flag (h_flags h) RST then
        let seg_len = length (h_data h) + (if flag (h_flags h) SYN then 1 else 0) +
              (if flag (h_flags h) FIN then 1 else 0)
        in (cs, tcp_send_rst our_ip src (h_dport h) (h_sport h) (h_seq h) (h_ack h) (h_flags h) seg_len)
      else (cs, []))"

definition tcp_input :: "u32 \<Rightarrow> u64 \<Rightarrow> u32 \<Rightarrow> u8 list \<Rightarrow> tcp_conn list \<Rightarrow> tcp_conn list \<times> packet list" where
  "tcp_input our_ip now src sg cs =
     (case tcp_parse sg of None \<Rightarrow> (cs, [])
      | Some h \<Rightarrow>
          (case tcp_demux src h cs of
             None \<Rightarrow> tcp_input_nomatch our_ip now src cs h
           | Some i \<Rightarrow> (case tcp_input_conn our_ip now (cs ! i) h of (c, pk) \<Rightarrow> (cs[i := c], pk))))"

end
