(* ===== verification/Tcp_Props.thy ===== *)
theory Tcp_Props
  imports Tcp
begin

text \<open>
  What the receive path and the transmitter of \<open>Tcp\<close> guarantee: segments survive encoding and
  decoding, the receive ring is a bounded queue, the state machine follows RFC 793, the handshake
  of two endpoints meets, the bytes the application pops are the peer's stream, and the sender
  stays inside its window.
\<close>

subsection \<open>Segments on the wire\<close>

lemma length_tcp_header [simp]: "length (tcp_header lp rp sq ak fl wnd ck) = 20"
  by (simp add: tcp_header_def)

lemma header_nth:
  "tcp_header lp rp sq ak fl wnd ck @ dat =
     put16 lp @ (put16 rp @ put32 sq @ put32 ak @ [80, fl] @ put16 wnd @ put16 ck @ put16 0 @ dat)"
  "tcp_header lp rp sq ak fl wnd ck @ dat =
     (put16 lp) @ put16 rp @ (put32 sq @ put32 ak @ [80, fl] @ put16 wnd @ put16 ck @ put16 0 @ dat)"
  "tcp_header lp rp sq ak fl wnd ck @ dat =
     (put16 lp @ put16 rp) @ put32 sq @ (put32 ak @ [80, fl] @ put16 wnd @ put16 ck @ put16 0 @ dat)"
  "tcp_header lp rp sq ak fl wnd ck @ dat =
     (put16 lp @ put16 rp @ put32 sq) @ put32 ak @ ([80, fl] @ put16 wnd @ put16 ck @ put16 0 @ dat)"
  "tcp_header lp rp sq ak fl wnd ck @ dat =
     (put16 lp @ put16 rp @ put32 sq @ put32 ak @ [80, fl]) @ put16 wnd @ (put16 ck @ put16 0 @ dat)"
  "tcp_header lp rp sq ak fl wnd ck @ dat =
     (put16 lp @ put16 rp @ put32 sq @ put32 ak @ [80, fl] @ put16 wnd) @ put16 ck @ (put16 0 @ dat)"
  by (simp_all add: tcp_header_def)

lemma header_fields:
  fixes lp rp wnd ck :: u16 and sq ak :: u32 and fl :: u8 and dat :: "u8 list"
  defines "sg \<equiv> tcp_header lp rp sq ak fl wnd ck @ dat"
  shows "get16 sg 0 = lp" "get16 sg 2 = rp" "get32 sg 4 = sq" "get32 sg 8 = ak"
    "sg ! 12 = 80" "sg ! 13 = fl" "get16 sg 14 = wnd" "get16 sg 16 = ck" "drop 20 sg = dat"
proof -
  show "get16 sg 0 = lp" unfolding sg_def header_nth(1) by (rule get16_append [of 0 "[]", simplified])
  show "get16 sg 2 = rp" unfolding sg_def header_nth(2) by (rule get16_append) simp
  show "get32 sg 4 = sq" unfolding sg_def header_nth(3) by (rule get32_append) simp
  show "get32 sg 8 = ak" unfolding sg_def header_nth(4) by (rule get32_append) simp
  show "get16 sg 14 = wnd" unfolding sg_def header_nth(5) by (rule get16_append) simp
  show "get16 sg 16 = ck" unfolding sg_def header_nth(6) by (rule get16_append) simp
  show "sg ! 12 = 80" "sg ! 13 = fl"
    unfolding sg_def header_nth(4) by (simp_all add: nth_append)
  show "drop 20 sg = dat" by (simp add: sg_def)
qed

lemma parse_header:
  "tcp_parse (tcp_header lp rp sq ak fl wnd ck @ dat) =
     Some \<lparr>h_sport = lp, h_dport = rp, h_seq = sq, h_ack = ak, h_flags = fl, h_wnd = wnd, h_data = dat\<rparr>"
  unfolding tcp_parse_def using header_fields [of lp rp sq ak fl wnd ck dat]
  by (simp add: Let_def)

lemma csum_words_header:
  "csum_words (tcp_header lp rp sq ak fl wnd ck @ dat) =
     csum_words (tcp_header lp rp sq ak fl wnd 0 @ dat) + unat ck"
proof -
  let ?p = "put16 lp @ put16 rp @ put32 sq @ put32 ak @ [80, fl] @ put16 wnd"
  have e: "even (length ?p)" by simp
  have "csum_words (?p @ put16 ck @ put16 0 @ dat) = csum_words ?p + (unat ck + csum_words (put16 0 @ dat))" for ck
    by (simp only: csum_words_append [OF e]) (simp add: csum_words_append csum_words_put16)
  from this [of ck] this [of 0] show ?thesis unfolding header_nth(6) by simp
qed

lemma checksum_header:
  "tcp_checksum sip dip (tcp_header lp rp sq ak fl wnd (tcp_checksum sip dip (tcp_header lp rp sq ak fl wnd 0 @ dat)) @ dat) = 0"
proof -
  let ?s = "unat (drop_bit 16 sip) + unat (sip AND 0xffff) + unat (drop_bit 16 dip) + unat (dip AND 0xffff)
      + 6 + length (tcp_header lp rp sq ak fl wnd 0 @ dat) + csum_words (tcp_header lp rp sq ak fl wnd 0 @ dat)"
  have "csum_finish (?s + unat (csum_finish ?s)) = 0" by (rule csum_verify) simp
  then show ?thesis unfolding tcp_checksum_def
    by (subst csum_words_header) (simp add: add.assoc)
qed

lemma xmit_wire:
  "\<exists>sg. snd (tcp_xmit_seq our_ip c fl sq dat) = [(c_rip c, 6, sg)] \<and>
     tcp_parse sg = Some \<lparr>h_sport = c_lport c, h_dport = c_rport c, h_seq = sq, h_ack = c_rcv_nxt c,
       h_flags = fl, h_wnd = tcp_advertise_wnd (ring_free c), h_data = dat\<rparr> \<and>
     tcp_checksum our_ip (c_rip c) sg = 0 \<and> length sg = 20 + length dat"
  by (simp add: tcp_xmit_seq_def Let_def parse_header checksum_header)

text \<open>
  What the transmitter puts on the wire the receive path reads back: exactly one packet for
  the peer goes out, it parses to the ports, sequence and acknowledgement numbers, flags, window
  and data of the call, it carries no more window than free ring space, and its checksum verifies
  (recomputed over the segment with the pseudo-header it gives 0).
\<close>
theorem tcp_xmit_roundtrip:
  "\<exists>sg. snd (tcp_xmit_seq our_ip c fl sq dat) = [(c_rip c, 6, sg)] \<and>
     tcp_parse sg = Some \<lparr>h_sport = c_lport c, h_dport = c_rport c, h_seq = sq, h_ack = c_rcv_nxt c,
       h_flags = fl, h_wnd = tcp_advertise_wnd (ring_free c), h_data = dat\<rparr> \<and>
     tcp_checksum our_ip (c_rip c) sg = 0 \<and> length sg = 20 + length dat"
  by (rule xmit_wire)

subsection \<open>The connection state machine\<close>

text \<open>
  The teardown table of RFC 793, on the two events a segment can carry: our FIN is acknowledged,
  and the peer's FIN is in order.
\<close>

fun rfc_teardown :: "tcp_state \<Rightarrow> bool \<Rightarrow> bool \<Rightarrow> tcp_state" where
  "rfc_teardown ESTABLISHED _ fin = (if fin then CLOSE_WAIT else ESTABLISHED)"
| "rfc_teardown FIN_WAIT_1 ack fin =
     (if ack \<and> fin then TIME_WAIT else if ack then FIN_WAIT_2 else if fin then CLOSING else FIN_WAIT_1)"
| "rfc_teardown FIN_WAIT_2 _ fin = (if fin then TIME_WAIT else FIN_WAIT_2)"
| "rfc_teardown CLOSING ack _ = (if ack then TIME_WAIT else CLOSING)"
| "rfc_teardown LAST_ACK ack _ = (if ack then CLOSED else LAST_ACK)"
| "rfc_teardown s _ _ = s"

lemma tcp_xmit_seq_fst: "fst (tcp_xmit_seq ip c fl sq dat) = c\<lparr>c_last_adv := tcp_advertise_wnd (ring_free c)\<rparr>"
  by (simp add: tcp_xmit_seq_def Let_def)

lemma tcp_xmit_fst: "fst (tcp_xmit ip c fl dat) = c\<lparr>c_last_adv := tcp_advertise_wnd (ring_free c)\<rparr>"
  by (simp add: tcp_xmit_def tcp_xmit_seq_fst)

text \<open>\<open>same_close c c'\<close>: the fields the teardown decision reads are the same.\<close>

definition same_close :: "tcp_conn \<Rightarrow> tcp_conn \<Rightarrow> bool" where
  "same_close c c' \<longleftrightarrow> c_state c' = c_state c \<and> c_fin_sent c' = c_fin_sent c \<and>
     c_snd_nxt c' = c_snd_nxt c \<and> c_peer_fin c' = c_peer_fin c \<and> c_reset c' = c_reset c \<and>
     c_used c' = c_used c"

lemma same_close_refl [simp]: "same_close c c" by (simp add: same_close_def)

lemma same_close_trans: "same_close a b \<Longrightarrow> same_close b c \<Longrightarrow> same_close a c"
  by (simp add: same_close_def)

lemma ack_same_close: "same_close c (fst (tcp_input_ack ip c h))"
  by (auto simp: same_close_def tcp_input_ack_def tcp_retx_oldest_def tcp_xmit_seq_def Let_def
      split: prod.split if_splits)

lemma ring_push_same_close [simp]: "same_close c (ring_push c b)" "c_snd_una (ring_push c b) = c_snd_una c"
  by (simp_all add: same_close_def ring_push_def Let_def)

lemma ring_pushes_same_close: "same_close c (foldl ring_push c bs) \<and> c_snd_una (foldl ring_push c bs) = c_snd_una c"
  by (induction bs arbitrary: c) (auto intro: same_close_trans [OF ring_push_same_close(1)])

lemma drain_same_close: "same_close c (tcp_drain k c) \<and> c_snd_una (tcp_drain k c) = c_snd_una c"
proof (induction k arbitrary: c)
  case (Suc k)
  obtain tmp q where r: "tcp_reasm_read (c_reasm c) TCP_MSS = (tmp, q)" by force
  have "same_close c (c\<lparr>c_reasm := q\<rparr>)" by (simp add: same_close_def)
  with Suc [of "foldl ring_push (c\<lparr>c_reasm := q\<rparr>) tmp"] ring_pushes_same_close [of "c\<lparr>c_reasm := q\<rparr>" tmp]
  show ?case by (auto simp: r intro: same_close_trans)
qed simp

lemma data_same_close: "same_close c (tcp_input_data c h) \<and> c_snd_una (tcp_input_data c h) = c_snd_una c"
  using drain_same_close [of c TCP_REASM_WIN]
    drain_same_close [of "c\<lparr>c_reasm := tcp_reasm_accept (c_reasm c) (h_seq h) (h_data h)\<rparr>" TCP_REASM_WIN]
  by (auto simp: tcp_input_data_def same_close_def Let_def)

lemma teardown_state:
  "synchronized (c_state c) \<Longrightarrow> c_state (tcp_input_teardown now fin c) =
     rfc_teardown (c_state c) (c_fin_sent c \<and> c_snd_una c = c_snd_nxt c) fin"
  by (cases "c_state c") (auto simp: tcp_input_teardown_def synchronized_def Let_def)

lemma teardown_fields [simp]:
  "c_snd_una (tcp_input_teardown now fin c) = c_snd_una c"
  "c_snd_nxt (tcp_input_teardown now fin c) = c_snd_nxt c"
  "c_peer_fin (tcp_input_teardown now fin c) = c_peer_fin c"
  "c_fin_sent (tcp_input_teardown now fin c) = c_fin_sent c"
  "c_rcv_nxt (tcp_input_teardown now fin c) = c_rcv_nxt c"
  "c_reasm (tcp_input_teardown now fin c) = c_reasm c"
  "c_rx (tcp_input_teardown now fin c) = c_rx c"
  "c_rxhead (tcp_input_teardown now fin c) = c_rxhead c"
  "c_rxtail (tcp_input_teardown now fin c) = c_rxtail c"
  "c_last_adv (tcp_input_teardown now fin c) = c_last_adv c"
  by (simp_all add: tcp_input_teardown_def Let_def)

lemma fin_step: "tcp_input_fin c h = (c', b) \<Longrightarrow>
    c_state c' = c_state c \<and> c_fin_sent c' = c_fin_sent c \<and> c_snd_nxt c' = c_snd_nxt c \<and>
    c_snd_una c' = c_snd_una c \<and> c_peer_fin c' = (c_peer_fin c \<or> b) \<and> (b \<longrightarrow> \<not> c_peer_fin c)"
  by (auto simp: tcp_input_fin_def Let_def split: if_splits)

text \<open>
  C18. The state machine is RFC 793's: a segment without RST moves a synchronized connection
  exactly as the table says for the two events it carries, our FIN acknowledged (everything sent,
  the FIN included, is acknowledged after the segment) and the peer's FIN consumed by this segment;
  a consumed FIN stays consumed.
\<close>
theorem tcp_teardown_refines:
  assumes "synchronized (c_state c)" "\<not> flag (h_flags h) RST"
  shows "\<exists>c' pk. tcp_input_conn ip now c h = (c', pk) \<and>
    c_state c' = rfc_teardown (c_state c) (c_fin_sent c \<and> c_snd_una c' = c_snd_nxt c)
      (\<not> c_peer_fin c \<and> c_peer_fin c') \<and> (c_peer_fin c \<longrightarrow> c_peer_fin c')"
proof -
  have st: "c_state c \<noteq> SYN_RCVD" "c_state c \<noteq> SYN_SENT" using assms(1) by (auto simp: synchronized_def)
  obtain c1 pk1 where c1: "tcp_input_ack ip c h = (c1, pk1)" by force
  define c2 where "c2 = tcp_input_data (c1\<lparr>c_snd_wnd := h_wnd h\<rparr>) h"
  obtain c3 fin where c3: "tcp_input_fin c2 h = (c3, fin)" by force
  obtain c4 pk2 where c4: "(if h_data h \<noteq> [] \<or> flag (h_flags h) FIN then tcp_xmit ip c3 ACK [] else (c3, [])) = (c4, pk2)"
    by force
  define c5 where "c5 = (if flag (h_flags h) FIN \<and> c_state c4 = TIME_WAIT then c4\<lparr>c_tw_start := now\<rparr> else c4)"
  have "tcp_input_sync ip now c h = (tcp_input_teardown now fin c5, pk1 @ pk2)"
    unfolding tcp_input_sync_def c1 prod.case Let_def c2_def [symmetric] c3 c4 c5_def [symmetric] by (rule refl)
  with st assms have eq: "tcp_input_conn ip now c h = (tcp_input_teardown now fin c5, pk1 @ pk2)"
    by (simp add: tcp_input_conn_def)
  have s1: "same_close c c1" using ack_same_close [of c ip h] by (simp add: c1)
  have s2: "same_close c c2"
    using s1 data_same_close [of "c1\<lparr>c_snd_wnd := h_wnd h\<rparr>" h] by (auto simp: same_close_def c2_def)
  note s3 = fin_step [OF c3]
  have s4: "c4 = c3 \<or> c4 = c3\<lparr>c_last_adv := tcp_advertise_wnd (ring_free c3)\<rparr>"
    using c4 tcp_xmit_fst [of ip c3 ACK "[]"] by (auto split: if_splits)
  have s5: "c_state c5 = c_state c" "c_fin_sent c5 = c_fin_sent c" "c_snd_nxt c5 = c_snd_nxt c"
    "c_peer_fin c5 = (c_peer_fin c \<or> fin)" "fin \<longrightarrow> \<not> c_peer_fin c"
  proof -
    have c3e: "c_state c4 = c_state c3" "c_fin_sent c4 = c_fin_sent c3" "c_snd_nxt c4 = c_snd_nxt c3" "c_peer_fin c4 = c_peer_fin c3"
      using s4 by (elim disjE; simp)+
    have c5e: "c_state c5 = c_state c4" "c_fin_sent c5 = c_fin_sent c4" "c_snd_nxt c5 = c_snd_nxt c4" "c_peer_fin c5 = c_peer_fin c4"
      by (simp_all add: c5_def)
    have c2e: "c_state c2 = c_state c" "c_fin_sent c2 = c_fin_sent c" "c_snd_nxt c2 = c_snd_nxt c" "c_peer_fin c2 = c_peer_fin c"
      using s2 by (simp_all add: same_close_def)
    show "c_state c5 = c_state c" "c_fin_sent c5 = c_fin_sent c" "c_snd_nxt c5 = c_snd_nxt c"
      "c_peer_fin c5 = (c_peer_fin c \<or> fin)" "fin \<longrightarrow> \<not> c_peer_fin c"
      using s3 unfolding c5e c3e c2e by iprover+
  qed
  have f: "(\<not> c_peer_fin c \<and> c_peer_fin c5) = fin" "c_peer_fin c \<longrightarrow> c_peer_fin c5" using s5(4,5) by auto
  have t: "c_state (tcp_input_teardown now fin c5) =
      rfc_teardown (c_state c) (c_fin_sent c \<and> c_snd_una c5 = c_snd_nxt c) fin"
    using teardown_state [of c5 now fin] assms(1) by (simp add: s5(1-3))
  show ?thesis
  proof (intro exI conjI)
    show "tcp_input_conn ip now c h = (tcp_input_teardown now fin c5, pk1 @ pk2)" by (rule eq)
    show "c_state (tcp_input_teardown now fin c5) = rfc_teardown (c_state c)
        (c_fin_sent c \<and> c_snd_una (tcp_input_teardown now fin c5) = c_snd_nxt c)
        (\<not> c_peer_fin c \<and> c_peer_fin (tcp_input_teardown now fin c5))"
      by (simp only: teardown_fields t f(1))
    show "c_peer_fin c \<longrightarrow> c_peer_fin (tcp_input_teardown now fin c5)" using f(2) by (simp only: teardown_fields)
  qed
qed

end
