(* ===== verification/Tcp_Stream.thy ===== *)
theory Tcp_Stream
  imports Tcp_Props
begin

text \<open>
  The receive direction of a connection as a byte stream: the ring \<open>rx\<close> is a bounded queue of
  \<open>TCP_RXBUF - 1\<close> bytes, the drain loop of \<open>tcp_input\<close> empties the contiguous run, and the bytes
  the application pops are the peer's stream as long as the peer keeps to the advertised window.
\<close>

subsection \<open>The ring is a bounded queue\<close>

definition rx_count :: "tcp_conn \<Rightarrow> nat" where
  "rx_count c = (c_rxhead c + TCP_RXBUF - c_rxtail c) mod TCP_RXBUF"

definition rx_bytes :: "tcp_conn \<Rightarrow> u8 list" where
  "rx_bytes c = ring_contents (c_rx c) (c_rxtail c) (rx_count c)"

definition rx_ok :: "tcp_conn \<Rightarrow> bool" where
  "rx_ok c \<longleftrightarrow> length (c_rx c) = TCP_RXBUF \<and> c_rxhead c < TCP_RXBUF \<and> c_rxtail c < TCP_RXBUF"

definition ring_pop1 :: "tcp_conn \<Rightarrow> (u8 \<times> tcp_conn) option" where
  "ring_pop1 c = (if ring_empty c then None
     else Some (c_rx c ! c_rxtail c, c\<lparr>c_rxtail := (c_rxtail c + 1) mod TCP_RXBUF\<rparr>))"

lemma RXBUF_pos [simp]: "0 < TCP_RXBUF" by (simp add: TCP_RXBUF_def)

lemma wrap_succ: "h < n \<Longrightarrow> Suc h mod n = (if Suc h = n then 0 else Suc h)" by auto

lemma rx_count_cases:
  "rx_ok c \<Longrightarrow> rx_count c = (if c_rxtail c \<le> c_rxhead c then c_rxhead c - c_rxtail c
     else c_rxhead c + TCP_RXBUF - c_rxtail c)"
proof -
  assume ok: "rx_ok c"
  show ?thesis
  proof (cases "c_rxtail c \<le> c_rxhead c")
    case True
    then have "c_rxhead c + TCP_RXBUF - c_rxtail c = (c_rxhead c - c_rxtail c) + TCP_RXBUF" by simp
    then have "rx_count c = (c_rxhead c - c_rxtail c) mod TCP_RXBUF"
      unfolding rx_count_def by (simp only: mod_add_self2)
    with ok True show ?thesis by (simp add: rx_ok_def less_imp_diff_less)
  next
    case False
    then have "c_rxhead c + TCP_RXBUF - c_rxtail c < TCP_RXBUF" using ok by (auto simp: rx_ok_def)
    with False show ?thesis by (simp add: rx_count_def)
  qed
qed

lemma rx_head: "rx_ok c \<Longrightarrow> c_rxhead c = (c_rxtail c + rx_count c) mod TCP_RXBUF"
  by (simp add: rx_count_cases) (auto simp: rx_ok_def)

lemma rx_count_less: "rx_ok c \<Longrightarrow> rx_count c < TCP_RXBUF" by (simp add: rx_count_def)

lemma length_rx_bytes [simp]: "length (rx_bytes c) = rx_count c" by (simp add: rx_bytes_def)

lemma rx_bytes_Nil [simp]: "rx_bytes c = [] \<longleftrightarrow> rx_count c = 0" by (simp add: rx_bytes_def)

lemma ring_empty_count: "rx_ok c \<Longrightarrow> ring_empty c \<longleftrightarrow> rx_count c = 0"
  by (simp add: rx_count_cases ring_empty_def) (auto simp: rx_ok_def)

lemma ring_free_count: "rx_ok c \<Longrightarrow> ring_free c = int (TCP_RXBUF - 1 - rx_count c)"
proof -
  assume ok: "rx_ok c"
  then have "int (c_rxhead c) - int (c_rxtail c) + int TCP_RXBUF = int (c_rxhead c + TCP_RXBUF - c_rxtail c)"
    by (simp add: rx_ok_def)
  then have "(int (c_rxhead c) - int (c_rxtail c) + int TCP_RXBUF) mod int TCP_RXBUF = int (rx_count c)"
    unfolding rx_count_def by (simp add: zmod_int)
  with rx_count_less [OF ok] show ?thesis by (simp add: ring_free_def Let_def of_nat_diff)
qed

lemma ring_push_ok: "rx_ok c \<Longrightarrow> rx_ok (ring_push c b)"
  by (simp add: rx_ok_def ring_push_def Let_def)

lemma ring_push_full_iff: "rx_ok c \<Longrightarrow> (c_rxhead c + 1) mod TCP_RXBUF = c_rxtail c \<longleftrightarrow> rx_count c = TCP_RXBUF - 1"
  by (simp add: rx_count_cases) (auto simp: rx_ok_def wrap_succ)

lemma ring_push_room:
  assumes ok: "rx_ok c" and room: "rx_count c < TCP_RXBUF - 1"
  shows "rx_bytes (ring_push c b) = rx_bytes c @ [b]"
proof -
  have ne: "(c_rxhead c + 1) mod TCP_RXBUF \<noteq> c_rxtail c"
    using ring_push_full_iff [OF ok] room by simp
  let ?c = "ring_push c b"
  have f: "c_rx ?c = (c_rx c)[c_rxhead c := b]" "c_rxtail ?c = c_rxtail c"
    "c_rxhead ?c = (c_rxhead c + 1) mod TCP_RXBUF"
    using ne by (simp_all add: ring_push_def Let_def)
  have "rx_count ?c = Suc (rx_count c)"
    using rx_count_cases [OF ok] rx_count_cases [OF ring_push_ok [OF ok]] ok ne f
    by (auto simp: rx_ok_def wrap_succ split: if_splits)
  then show ?thesis
    using ring_contents_push [of "rx_count c" "c_rx c" "c_rxhead c" "c_rxtail c" b] ok rx_head [OF ok] rx_count_less [OF ok]
    by (simp add: rx_bytes_def f rx_ok_def)
qed

lemma ring_pop1_ok:
  assumes ok: "rx_ok c" and ne: "rx_bytes c = x # xs"
  shows "\<exists>c'. ring_pop1 c = Some (x, c') \<and> rx_ok c' \<and> rx_bytes c' = xs"
proof -
  let ?c = "c\<lparr>c_rxtail := (c_rxtail c + 1) mod TCP_RXBUF\<rparr>"
  have n: "rx_count c = Suc (length xs)" using length_rx_bytes [of c] ne by simp
  have ok': "rx_ok ?c" using ok by (simp add: rx_ok_def)
  have cnt: "rx_count ?c = length xs"
    using rx_count_cases [OF ok] rx_count_cases [OF ok'] n ok
    by (auto simp: rx_ok_def wrap_succ split: if_splits)
  have "x # xs = c_rx c ! c_rxtail c # ring_contents (c_rx c) (Suc (c_rxtail c) mod TCP_RXBUF) (length xs)"
    using ring_contents_pop [of "c_rxtail c" "c_rx c" "length xs"] ne ok n by (simp add: rx_bytes_def rx_ok_def)
  then have "rx_bytes ?c = xs" "x = c_rx c ! c_rxtail c"
    unfolding rx_bytes_def cnt by simp_all
  with ok ok' n show ?thesis by (simp add: ring_pop1_def ring_empty_count)
qed

interpretation tf: bounded_fifo ring_push ring_pop1 rx_bytes rx_ok "TCP_RXBUF - 1"
proof unfold_locales
  fix c :: tcp_conn and b assume "rx_ok c" "length (rx_bytes c) = TCP_RXBUF - 1"
  then have "(c_rxhead c + 1) mod TCP_RXBUF = c_rxtail c" by (simp only: ring_push_full_iff length_rx_bytes)
  then show "ring_push c b = c" by (simp add: ring_push_def Let_def)
next
  fix c :: tcp_conn assume "rx_ok c"
  then show "length (rx_bytes c) \<le> TCP_RXBUF - 1" using rx_count_less [of c] by simp
qed (simp_all add: ring_push_ok ring_push_room ring_pop1_ok, simp_all add: ring_pop1_def ring_empty_count)

lemma ring_pop_pops: "ring_pop c k = tf.pops k c"
  by (induction k arbitrary: c) (simp_all add: ring_pop1_def ring_empty_def Let_def)

lemma foldl_ring_push: "foldl ring_push c bs = tf.pushes c bs"
  by (induction bs arbitrary: c) simp_all

lemma ring_push_frame [simp]:
  "c_reasm (ring_push c b) = c_reasm c" "c_last_adv (ring_push c b) = c_last_adv c"
  "c_peer_fin (ring_push c b) = c_peer_fin c" "c_have_fin (ring_push c b) = c_have_fin c"
  "c_rcv_nxt (ring_push c b) = c_rcv_nxt c"
  by (simp_all add: ring_push_def Let_def)

lemma pushes_frame [simp]:
  "c_reasm (tf.pushes c bs) = c_reasm c" "c_last_adv (tf.pushes c bs) = c_last_adv c"
  "c_peer_fin (tf.pushes c bs) = c_peer_fin c" "c_have_fin (tf.pushes c bs) = c_have_fin c"
  by (induction bs arbitrary: c) simp_all

subsection \<open>Draining the reassembly queue\<close>

lemma ring_push_reasm [simp]: "ring_push (c\<lparr>c_reasm := q\<rparr>) b = (ring_push c b)\<lparr>c_reasm := q\<rparr>"
  by (simp add: ring_push_def Let_def)

lemma pushes_reasm [simp]: "tf.pushes (c\<lparr>c_reasm := q\<rparr>) bs = (tf.pushes c bs)\<lparr>c_reasm := q\<rparr>"
  by (induction bs arbitrary: c) simp_all

text \<open>The drain loop moves the whole contiguous run, up to the first gap \<open>p\<close>, into the ring.\<close>

lemma tcp_drain_complete:
  assumes "reasm_inv f isn (c_reasm c) n R" "{..<p} \<subseteq> R" "p \<notin> R" "p - n \<le> k"
  shows "\<exists>q. tcp_drain k c = (tf.pushes c (map f [n..<p]))\<lparr>c_reasm := q\<rparr> \<and> reasm_inv f isn q p R"
  using assms
proof (induction k arbitrary: c n)
  case 0
  have "n \<le> p" by (rule reasm_inv_read_exact(2) [OF 0(1-3)])
  with 0 show ?case by (intro exI [of _ "c_reasm c"]) simp
next
  case (Suc k)
  obtain tmp q where r: "tcp_reasm_read (c_reasm c) TCP_MSS = (tmp, q)" by force
  let ?m = "min p (n + TCP_MSS)"
  have le: "n \<le> p" by (rule reasm_inv_read_exact(2) [OF Suc.prems(1-3)])
  have tmp: "tmp = map f [n..<?m]"
    using reasm_inv_read_exact(1) [OF Suc.prems(1-3), of TCP_MSS] r by simp
  have len: "length tmp = ?m - n" by (simp add: tmp)
  have inv: "reasm_inv f isn q ?m R"
    using reasm_inv_read [OF Suc.prems(1) r] len le by simp
  show ?case
  proof (cases "n = p")
    case True
    then have "tmp = []" "?m = p" by (simp_all add: tmp)
    with True inv r show ?thesis by (intro exI [of _ q]) simp
  next
    case False
    then have less: "n < ?m" using le by (simp add: TCP_MSS_def min_def)
    then have ne: "tmp \<noteq> []" by (auto simp: tmp min_def)
    let ?c = "(tf.pushes c tmp)\<lparr>c_reasm := q\<rparr>"
    have "p - ?m \<le> k" using less Suc.prems(4) by linarith
    from Suc.IH [OF _ Suc.prems(2,3) this, of ?c] inv obtain q' where
      q': "tcp_drain k ?c = (tf.pushes ?c (map f [?m..<p]))\<lparr>c_reasm := q'\<rparr>" "reasm_inv f isn q' p R" by auto
    have "[n..<p] = [n..<?m] @ [?m..<p]" using less upt_add_eq_append [of n ?m "p - ?m"] by simp
    then have "tf.pushes (tf.pushes c tmp) (map f [?m..<p]) = tf.pushes c (map f [n..<p])"
      by (simp add: tf.pushes_append tmp)
    with q' ne r show ?thesis by (intro exI [of _ q']) (simp add: foldl_ring_push)
  qed
qed

subsection \<open>The byte stream\<close>

text \<open>The fields of the receive direction.\<close>

definition rx_same :: "tcp_conn \<Rightarrow> tcp_conn \<Rightarrow> bool" where
  "rx_same c c' \<longleftrightarrow> c_rx c' = c_rx c \<and> c_rxhead c' = c_rxhead c \<and> c_rxtail c' = c_rxtail c \<and>
     c_reasm c' = c_reasm c \<and> c_rcv_nxt c' = c_rcv_nxt c \<and> c_peer_fin c' = c_peer_fin c"

text \<open>
  \<open>rx_run f isn c d R edge\<close>: a connection whose peer sends the stream \<open>f\<close> from sequence number
  \<open>isn\<close> came to the state \<open>c\<close> by segments, reads of the application, transmissions and changes of
  its send side; \<open>d\<close> is what the application has read, \<open>R\<close> the stream positions that arrived inside
  the reassembly window, and \<open>edge\<close> the right edge of the window the peer was told: the
  acknowledged position plus the advertised window, at its largest. The peer sends nothing at or past
  \<open>edge\<close>. Segments are otherwise arbitrary: lost, repeated, cut and reordered, within \<open>2 ^ 31\<close>.
\<close>

inductive rx_run :: "(nat \<Rightarrow> u8) \<Rightarrow> u32 \<Rightarrow> tcp_conn \<Rightarrow> u8 list \<Rightarrow> nat set \<Rightarrow> nat \<Rightarrow> bool" for f isn where
  rx_start: "rx_ok c \<Longrightarrow> rx_count c = 0 \<Longrightarrow> reasm_ok raw \<Longrightarrow> c_reasm c = tcp_reasm_init raw isn \<Longrightarrow>
    c_rcv_nxt c = isn \<Longrightarrow> c_last_adv c = tcp_advertise_wnd (ring_free c) \<Longrightarrow>
    rx_run f isn c [] {} (unat (c_last_adv c))"
| rx_segment: "rx_run f isn c d R edge \<Longrightarrow>
    h_seq h = isn + of_nat a \<Longrightarrow> h_data h = map f [a..<a + len] \<Longrightarrow> a + len \<le> edge \<Longrightarrow>
    length d + rx_count c \<le> a + 2 ^ 31 \<Longrightarrow> tcp_input_sync ip now c h = (c', pk) \<Longrightarrow>
    rx_run f isn c' d
      (R \<union> {p. a \<le> p \<and> p < a + len \<and> length d + rx_count c \<le> p \<and>
              p < length d + rx_count c + TCP_REASM_WIN})
      (if pk = [] then edge else max edge (length d + rx_count c' + unat (c_last_adv c')))"
| rx_read: "rx_run f isn c d R edge \<Longrightarrow> ring_pop c k = (bs, c') \<Longrightarrow> rx_run f isn c' (d @ bs) R edge"
| rx_xmit: "rx_run f isn c d R edge \<Longrightarrow> tcp_xmit_seq ip c fl sq dat = (c', pk) \<Longrightarrow>
    rx_run f isn c' d R (max edge (length d + rx_count c + unat (c_last_adv c')))"
| rx_send_side: "rx_run f isn c d R edge \<Longrightarrow> rx_same c c' \<Longrightarrow> rx_run f isn c' d R edge"

definition rx_inv :: "(nat \<Rightarrow> u8) \<Rightarrow> u32 \<Rightarrow> tcp_conn \<Rightarrow> u8 list \<Rightarrow> nat set \<Rightarrow> nat \<Rightarrow> bool" where
  "rx_inv f isn c d R edge \<longleftrightarrow> rx_ok c \<and>
     reasm_inv f isn (c_reasm c) (length d + rx_count c) R \<and> length d + rx_count c \<notin> R \<and>
     d @ rx_bytes c = map f [0..<length d + rx_count c] \<and>
     edge \<le> length d + (TCP_RXBUF - 1) \<and> R \<subseteq> {..<edge} \<and>
     (c_rcv_nxt c = isn + of_nat (length d + rx_count c) \<or>
      c_peer_fin c \<and> c_rcv_nxt c = isn + of_nat (length d + rx_count c) + 1)"

lemma advertise_le: "0 \<le> free \<Longrightarrow> int (unat (tcp_advertise_wnd free)) \<le> free"
proof -
  assume f: "0 \<le> free"
  let ?m = "min free (int TCP_REASM_WIN)"
  have "tcp_advertise_wnd free = word_of_int ?m"
    using f by (auto simp: tcp_advertise_wnd_def Let_def min_def TCP_REASM_WIN_def)
  moreover have "uint (word_of_int ?m :: u16) = ?m"
    using f by (simp add: uint_word_of_int TCP_REASM_WIN_def min_def)
  ultimately show ?thesis by simp
qed

lemma rx_count_same: "rx_same c c' \<Longrightarrow> rx_count c' = rx_count c \<and> rx_bytes c' = rx_bytes c \<and> (rx_ok c' \<longleftrightarrow> rx_ok c)"
  by (simp add: rx_same_def rx_count_def rx_bytes_def rx_ok_def)

lemma rx_inv_same: "rx_inv f isn c d R edge \<Longrightarrow> rx_same c c' \<Longrightarrow> rx_inv f isn c' d R edge"
  using rx_count_same [of c c'] by (simp add: rx_inv_def rx_same_def)

lemma rx_inv_adv:
  assumes "rx_inv f isn c d R edge"
  shows "rx_inv f isn c d R (max edge (length d + rx_count c + unat (tcp_advertise_wnd (ring_free c))))"
proof -
  have ok: "rx_ok c" using assms by (simp add: rx_inv_def)
  have "int (unat (tcp_advertise_wnd (ring_free c))) \<le> int (TCP_RXBUF - 1 - rx_count c)"
    unfolding ring_free_count [OF ok] by (rule advertise_le) simp
  then have "unat (tcp_advertise_wnd (ring_free c)) \<le> TCP_RXBUF - 1 - rx_count c" by (simp only: of_nat_le_iff)
  with rx_count_less [OF ok] assms show ?thesis unfolding rx_inv_def by auto
qed

lemma data_pushes:
  assumes ri: "reasm_inv f isn (c_reasm c) n R"
    and h: "h_seq h = isn + of_nat a" "h_data h = map f [a..<a + len]"
    and far: "a + len \<le> n + 2 ^ 31" "n \<le> a + 2 ^ 31"
    and R': "R' = R \<union> {p. a \<le> p \<and> p < a + len \<and> n \<le> p \<and> p < n + TCP_REASM_WIN}"
  obtains p q where "{..<p} \<subseteq> R'" "p \<notin> R'" "n \<le> p" "reasm_inv f isn q p R'"
    "rx_same ((tf.pushes c (map f [n..<p]))\<lparr>c_reasm := q, c_rcv_nxt := tcp_reasm_pos q\<rparr>) (tcp_input_data c h)"
proof -
  let ?c = "if h_data h \<noteq> [] then c\<lparr>c_reasm := tcp_reasm_accept (c_reasm c) (h_seq h) (h_data h)\<rparr> else c"
  have ri': "reasm_inv f isn (c_reasm ?c) n R'"
  proof (cases "len = 0")
    case True
    then have "R' = R" by (auto simp: R')
    with True ri h show ?thesis by simp
  next
    case False
    then have "h_data h \<noteq> []" using h(2) by simp
    then have "c_reasm ?c = tcp_reasm_accept (c_reasm c) (isn + of_nat a) (map f [a..<a + len])"
      unfolding h [symmetric] by simp
    with reasm_inv_segment [OF ri far] show ?thesis unfolding R' by (simp only:)
  qed
  have "R' \<subseteq> {..<n + TCP_REASM_WIN}" using ri' by (simp add: reasm_inv_def)
  then have ex: "n + TCP_REASM_WIN \<notin> R'" by auto
  define p where "p = (LEAST p. p \<notin> R')"
  have p: "p \<notin> R'" unfolding p_def by (rule LeastI [of "\<lambda>p. p \<notin> R'", OF ex])
  have below: "{..<p} \<subseteq> R'"
    unfolding p_def using not_less_Least [of _ "\<lambda>p. p \<notin> R'"] by blast
  have np: "n \<le> p" by (rule reasm_inv_read_exact(2) [OF ri' below p])
  have pw: "p - n \<le> TCP_REASM_WIN"
    using Least_le [of "\<lambda>p. p \<notin> R'", OF ex] by (simp add: p_def)
  obtain q where q: "tcp_drain TCP_REASM_WIN ?c = (tf.pushes ?c (map f [n..<p]))\<lparr>c_reasm := q\<rparr>"
    "reasm_inv f isn q p R'"
    using tcp_drain_complete [OF ri' below p pw] by blast
  have push: "tf.pushes ?c bs = (tf.pushes c bs)\<lparr>c_reasm := c_reasm ?c\<rparr>" for bs by simp
  have "rx_same ((tf.pushes c (map f [n..<p]))\<lparr>c_reasm := q, c_rcv_nxt := tcp_reasm_pos q\<rparr>) (tcp_input_data c h)"
    using q(1) push [of "map f [n..<p]"] by (simp add: tcp_input_data_def Let_def rx_same_def)
  from that [OF below p np q(2) this] show thesis .
qed

lemma rx_inv_data:
  assumes inv: "rx_inv f isn c d R edge" and h: "h_seq h = isn + of_nat a" "h_data h = map f [a..<a + len]"
    and edge: "a + len \<le> edge" "length d + rx_count c \<le> a + 2 ^ 31"
  defines "R' \<equiv> R \<union> {p. a \<le> p \<and> p < a + len \<and> length d + rx_count c \<le> p \<and>
     p < length d + rx_count c + TCP_REASM_WIN}"
  shows "rx_inv f isn (tcp_input_data c h) d R' edge"
    and "h_data h = [] \<Longrightarrow> rx_count (tcp_input_data c h) = rx_count c"
proof -
  let ?n = "length d + rx_count c"
  have ok: "rx_ok c" and ri: "reasm_inv f isn (c_reasm c) ?n R" and nR: "?n \<notin> R"
    and db: "d @ rx_bytes c = map f [0..<?n]" and e: "edge \<le> length d + (TCP_RXBUF - 1)" and Re: "R \<subseteq> {..<edge}"
    using inv by (auto simp: rx_inv_def)
  have far: "a + len \<le> ?n + 2 ^ 31" using edge(1) e by (simp add: TCP_RXBUF_def)
  obtain p q where below: "{..<p} \<subseteq> R'" and p: "p \<notin> R'" and np: "?n \<le> p" and q: "reasm_inv f isn q p R'"
    and same0: "rx_same ((tf.pushes c (map f [?n..<p]))\<lparr>c_reasm := q, c_rcv_nxt := tcp_reasm_pos q\<rparr>) (tcp_input_data c h)"
    using data_pushes [OF ri h far edge(2) R'_def [THEN meta_eq_to_obj_eq]] by metis
  have pe: "p \<le> edge \<or> p = ?n"
  proof (cases "p = ?n")
    case False
    then have "p - 1 \<in> R'" using below np by auto
    then have "p - 1 < edge" using Re edge(1) by (auto simp: R'_def)
    then show ?thesis by linarith
  qed simp
  define c1 where "c1 = tf.pushes c (map f [?n..<p])"
  have fit: "length (rx_bytes c) + length (map f [?n..<p]) \<le> TCP_RXBUF - 1"
    using pe np e rx_count_less [OF ok] by auto
  have c1: "rx_ok c1" "rx_bytes c1 = rx_bytes c @ map f [?n..<p]"
    unfolding c1_def by (rule tf.pushes_inv [OF ok], rule tf.pushes_fit [OF ok fit])
  then have cnt: "rx_count c1 = rx_count c + (p - ?n)"
    using length_rx_bytes [of c1] by simp
  have same: "rx_same (c1\<lparr>c_reasm := q, c_rcv_nxt := tcp_reasm_pos q\<rparr>) (tcp_input_data c h)"
    using same0 by (simp add: c1_def)
  have split: "[0..<p] = [0..<?n] @ [?n..<p]" using upt_add_eq_append [of 0 ?n "p - ?n"] np by simp
  have "rx_inv f isn (c1\<lparr>c_reasm := q, c_rcv_nxt := tcp_reasm_pos q\<rparr>) d R' edge"
    using c1 q p np db split e Re edge(1) cnt
    by (auto simp: rx_inv_def rx_ok_def rx_bytes_def rx_count_def tcp_reasm_pos_def reasm_inv_def R'_def)
  with same show "rx_inv f isn (tcp_input_data c h) d R' edge" using rx_inv_same by blast
  show "rx_count (tcp_input_data c h) = rx_count c" if "h_data h = []"
  proof -
    have "len = 0" using that h by auto
    then have "R' = R" by (auto simp: R'_def)
    then have "p = ?n" using nR below np by (metis lessThan_iff le_neq_implies_less subsetD)
    then show ?thesis using rx_count_same [OF same] cnt by (simp add: rx_count_def)
  qed
qed

lemma rx_inv_fin:
  assumes "rx_inv f isn c d R edge" "tcp_input_fin c h = (c', b)"
  shows "rx_inv f isn c' d R edge" "rx_count c' = rx_count c"
proof -
  have c': "c_rx c' = c_rx c" "c_rxhead c' = c_rxhead c" "c_rxtail c' = c_rxtail c" "c_reasm c' = c_reasm c"
    "c_rcv_nxt c' = c_rcv_nxt c \<and> c_peer_fin c' = c_peer_fin c \<or>
     c_rcv_nxt c' = c_rcv_nxt c + 1 \<and> c_peer_fin c' \<and> \<not> c_peer_fin c"
    using assms(2) by (auto simp: tcp_input_fin_def Let_def split: if_splits)
  then show "rx_count c' = rx_count c" by (simp add: rx_count_def)
  with c' assms(1) show "rx_inv f isn c' d R edge"
    by (auto simp: rx_inv_def rx_ok_def rx_bytes_def)
qed

lemma input_ack_same: "rx_same c (fst (tcp_input_ack ip c h)) \<and>
    (snd (tcp_input_ack ip c h) \<noteq> [] \<longrightarrow> h_data h = [] \<and>
       c_last_adv (fst (tcp_input_ack ip c h)) = tcp_advertise_wnd (ring_free c))"
  by (auto simp: rx_same_def tcp_input_ack_def tcp_retx_oldest_def tcp_xmit_seq_def ring_free_def Let_def
      split: prod.split if_splits)

lemma last_adv_drain: "c_last_adv (tcp_drain k c) = c_last_adv c"
  by (induction k arbitrary: c) (auto simp: foldl_ring_push split: prod.split)

lemma last_adv_data [simp]: "c_last_adv (tcp_input_data c h) = c_last_adv c"
  by (simp add: tcp_input_data_def Let_def last_adv_drain)

lemma have_fin_drain: "c_have_fin (tcp_drain k c) = c_have_fin c"
  by (induction k arbitrary: c) (auto simp: foldl_ring_push split: prod.split)

lemma have_fin_data: "c_have_fin (tcp_input_data c h) = c_have_fin c"
  by (simp add: tcp_input_data_def Let_def have_fin_drain)

lemma last_adv_fin: "tcp_input_fin c h = (c', b) \<Longrightarrow> c_last_adv c' = c_last_adv c"
  by (auto simp: tcp_input_fin_def Let_def split: if_splits)

lemma rx_inv_sync:
  assumes inv: "rx_inv f isn c d R edge" and h: "h_seq h = isn + of_nat a" "h_data h = map f [a..<a + len]"
    and edge: "a + len \<le> edge" "length d + rx_count c \<le> a + 2 ^ 31"
    and sync: "tcp_input_sync ip now c h = (c', pk)"
  defines "R' \<equiv> R \<union> {p. a \<le> p \<and> p < a + len \<and> length d + rx_count c \<le> p \<and>
     p < length d + rx_count c + TCP_REASM_WIN}"
  shows "rx_inv f isn c' d R' (if pk = [] then edge else max edge (length d + rx_count c' + unat (c_last_adv c')))"
proof -
  obtain c1 pk1 where c1: "tcp_input_ack ip c h = (c1, pk1)" by force
  define c2 where "c2 = tcp_input_data (c1\<lparr>c_snd_wnd := h_wnd h\<rparr>) h"
  obtain c3 fin where c3: "tcp_input_fin c2 h = (c3, fin)" by force
  obtain c4 pk2 where c4: "(if h_data h \<noteq> [] \<or> flag (h_flags h) FIN then tcp_xmit ip c3 ACK [] else (c3, [])) = (c4, pk2)"
    by force
  have sync': "c' = tcp_input_teardown now fin
      (if flag (h_flags h) FIN \<and> c_state c4 = TIME_WAIT then c4\<lparr>c_tw_start := now\<rparr> else c4)" "pk = pk1 @ pk2"
    using sync unfolding tcp_input_sync_def c1 prod.case Let_def c2_def [symmetric] c3 c4 by auto
  have s1: "rx_same c (c1\<lparr>c_snd_wnd := h_wnd h\<rparr>)"
    using input_ack_same [of c ip h] by (simp add: c1 rx_same_def)
  have s4: "rx_same c3 c'" "c_last_adv c' = c_last_adv c4"
    and a4: "pk2 \<noteq> [] \<Longrightarrow> c_last_adv c4 = tcp_advertise_wnd (ring_free c3)" "pk2 = [] \<Longrightarrow> c4 = c3"
    using c4 by (auto simp: sync' rx_same_def tcp_xmit_def tcp_xmit_seq_def Let_def split: if_splits)
  have step: "rx_inv f isn c3 d R' e \<and> (h_data h = [] \<longrightarrow> rx_count c3 = rx_count c)"
    if i: "rx_inv f isn c d R e" and e: "a + len \<le> e" for e
  proof -
    have cnt: "rx_count (c1\<lparr>c_snd_wnd := h_wnd h\<rparr>) = rx_count c" using rx_count_same [OF s1] by simp
    have i2: "rx_inv f isn c2 d R' e" "h_data h = [] \<Longrightarrow> rx_count c2 = rx_count c"
      using rx_inv_data [OF rx_inv_same [OF i s1] h e] edge(2) unfolding cnt c2_def R'_def by auto
    from rx_inv_fin [OF i2(1) c3] i2(2) show ?thesis by simp
  qed
  show ?thesis
  proof (cases "pk2 = []")
    case False
    have "rx_inv f isn c' d R' (max edge (length d + rx_count c3 + unat (tcp_advertise_wnd (ring_free c3))))"
      using rx_inv_same [OF rx_inv_adv s4(1)] step [OF inv edge(1)] by blast
    then show ?thesis using False a4 s4 rx_count_same [OF s4(1)] sync' by simp
  next
    case True
    note T = this
    show ?thesis
    proof (cases "pk1 = []")
      case True
      then show ?thesis using T sync' rx_inv_same [OF _ s4(1)] step [OF inv edge(1)] by simp
    next
      case False
      then have dat: "h_data h = []" and adv: "c_last_adv c1 = tcp_advertise_wnd (ring_free c)"
        using input_ack_same [of c ip h] by (auto simp: c1)
      have "c_last_adv c' = c_last_adv c1"
        using s4 a4(2) [OF T] last_adv_fin [OF c3] by (simp add: c2_def)
      moreover have "rx_inv f isn c3 d R' (max edge (length d + rx_count c + unat (tcp_advertise_wnd (ring_free c))))"
        using step [OF rx_inv_adv [OF inv]] edge(1) by simp
      moreover have "rx_count c' = rx_count c"
        using step [OF inv edge(1)] dat rx_count_same [OF s4(1)] by simp
      ultimately show ?thesis using False adv sync' rx_inv_same [OF _ s4(1)] by simp
    qed
  qed
qed

lemma rx_inv_start:
  assumes "rx_ok c" "rx_count c = 0" "reasm_ok raw" "c_reasm c = tcp_reasm_init raw isn"
    "c_rcv_nxt c = isn" "c_last_adv c = tcp_advertise_wnd (ring_free c)"
  shows "rx_inv f isn c [] {} (unat (c_last_adv c))"
proof -
  have "reasm_ok (tcp_reasm_init raw isn)" using assms(3) by (simp add: reasm_ok_def tcp_reasm_init_def)
  moreover have "rq_base (tcp_reasm_init raw isn) = isn" by (simp add: tcp_reasm_init_def)
  ultimately have "reasm_inv f isn (c_reasm c) 0 {}" using assms by (simp add: reasm_inv_def init_at)
  then have "rx_inv f isn c [] {} 0" using assms by (simp add: rx_inv_def)
  from rx_inv_adv [OF this] show ?thesis using assms by simp
qed

lemma rx_run_inv: "rx_run f isn c d R edge \<Longrightarrow> rx_inv f isn c d R edge"
proof (induction rule: rx_run.induct)
  case (rx_start c raw)
  then show ?case by (rule rx_inv_start)
next
  case (rx_segment c d R edge h a len ip now c' pk)
  then show ?case by (intro rx_inv_sync)
next
  case (rx_read c d R edge k bs c')
  have ok: "rx_ok c" using rx_read.IH by (simp add: rx_inv_def)
  have p: "bs = take k (rx_bytes c)" "rx_bytes c' = drop k (rx_bytes c)" "rx_ok c'"
    using tf.pops_spec [OF ok, of k] rx_read(2) by (simp_all add: ring_pop_pops)
  have bs: "bs @ rx_bytes c' = rx_bytes c" by (simp add: p)
  then have len: "length bs + rx_count c' = rx_count c" by (metis length_append length_rx_bytes)
  have same: "c_reasm c' = c_reasm c \<and> c_rcv_nxt c' = c_rcv_nxt c \<and> c_peer_fin c' = c_peer_fin c"
    using rx_read(2)
  proof (induction k arbitrary: c bs c')
    case (Suc k)
    then show ?case by (fastforce simp: Let_def split: if_splits prod.splits)
  qed simp
  have n: "length (d @ bs) + rx_count c' = length d + rx_count c" using len by simp
  show ?case
    unfolding rx_inv_def n using rx_read.IH p(3) same bs by (auto simp: rx_inv_def)
next
  case (rx_xmit c d R edge ip fl sq dat c' pk)
  have c': "c' = c\<lparr>c_last_adv := tcp_advertise_wnd (ring_free c)\<rparr>"
    using rx_xmit(2) tcp_xmit_seq_fst [of ip c fl sq dat] by simp
  then have "rx_same c c'" by (simp add: rx_same_def)
  from rx_inv_same [OF rx_inv_adv [OF rx_xmit.IH] this] show ?case by (simp add: c')
next
  case (rx_send_side c d R edge c')
  then show ?case by (blast intro: rx_inv_same)
qed

text \<open>
  C1. The byte stream: with a peer that keeps to the window it was told, whatever the network does
  to its segments, what the application has read followed by what waits in the ring is a prefix of
  the peer's stream, and it is all that arrived in the window up to the first missing byte: no byte
  is lost for want of room in the ring. The acknowledgement number is the sequence number after that
  prefix, or one more when the peer's FIN is consumed.
\<close>
theorem tcp_stream:
  assumes "rx_run f isn c d R edge"
  shows "d @ rx_bytes c = map f [0..<length d + rx_count c] \<and>
    {..<length d + rx_count c} \<subseteq> R \<and> length d + rx_count c \<notin> R \<and>
    (c_rcv_nxt c = isn + of_nat (length d + rx_count c) \<or>
     c_peer_fin c \<and> c_rcv_nxt c = isn + of_nat (length d + rx_count c) + 1)"
  using rx_run_inv [OF assms] by (auto simp: rx_inv_def reasm_inv_def)

text \<open>A connection that just opened, and a segment of three bytes from its peer.\<close>

definition demo_raw :: tcp_reasm where
  "demo_raw = \<lparr>rq_base = 0, rq_data = replicate TCP_REASM_WIN 0, rq_present = replicate (TCP_REASM_WIN div 8) 0\<rparr>"

definition demo_conn :: tcp_conn where
  "demo_conn = \<lparr>c_used = True, c_state = ESTABLISHED, c_lport = 40000, c_rport = 80, c_rip = 1,
     c_snd_nxt = 101, c_snd_una = 101, c_rcv_nxt = demo_isn, c_snd_wnd = 8192, c_last_adv = 8192,
     c_rx = replicate TCP_RXBUF 0, c_rxhead = 0, c_rxtail = 0, c_reasm = tcp_reasm_init demo_raw demo_isn,
     c_have_fin = False, c_fin_seq = 0, c_peer_fin = False, c_fin_sent = False, c_tw_start = 0,
     c_reset = False, c_accepted = False, c_rto = tcp_rto_init, c_cc = tcp_cc_init 1400,
     c_sndbuf = replicate TCP_SNDBUF 0, c_snd_base = 101, c_snd_len = 0, c_snd_time = 0, c_snd_retx = False\<rparr>"

definition demo_seg :: seg_hdr where
  "demo_seg = \<lparr>h_sport = 80, h_dport = 40000, h_seq = demo_isn + of_nat 0, h_ack = 101, h_flags = ACK,
     h_wnd = 8192, h_data = map demo_stream [0..<0 + 3]\<rparr>"

lemma demo_conn_run: "rx_run demo_stream demo_isn demo_conn [] {} 8192"
proof -
  have ok: "rx_ok demo_conn" "rx_count demo_conn = 0" by (simp_all add: demo_conn_def rx_ok_def rx_count_def)
  have adv: "tcp_advertise_wnd (ring_free demo_conn) = 8192"
    unfolding ring_free_count [OF ok(1)] ok(2)
    by (simp add: tcp_advertise_wnd_def TCP_RXBUF_def TCP_REASM_WIN_def)
  have "rx_run demo_stream demo_isn demo_conn [] {} (unat (c_last_adv demo_conn))"
    by (rule rx_start [OF ok, of demo_raw], unfold adv)
      (simp_all add: demo_conn_def demo_raw_def reasm_ok_def)
  moreover have "unat (c_last_adv demo_conn) = 8192" by (simp add: demo_conn_def)
  ultimately show ?thesis by simp
qed

definition demo_conn1 :: tcp_conn where
  "demo_conn1 = fst (tcp_input_sync 2 0 demo_conn demo_seg)"

lemma demo_conn1_run: "\<exists>edge. rx_run demo_stream demo_isn demo_conn1 [] {..<3} edge"
proof -
  obtain pk where sync: "tcp_input_sync 2 0 demo_conn demo_seg = (demo_conn1, pk)"
    by (metis demo_conn1_def prod.collapse)
  have cnt: "rx_count demo_conn = 0" by (simp add: demo_conn_def rx_count_def)
  have "{} \<union> {p. 0 \<le> p \<and> p < 0 + 3 \<and> length [] + rx_count demo_conn \<le> p \<and>
      p < length [] + rx_count demo_conn + TCP_REASM_WIN} = {..<3}"
    by (auto simp: cnt TCP_REASM_WIN_def)
  with rx_segment [OF demo_conn_run _ _ _ _ sync, of 0 3] show ?thesis
    by (auto simp: demo_seg_def cnt)
qed

theorem tcp_stream_witness: "rx_bytes demo_conn1 = map demo_stream [0..<3]"
proof -
  obtain edge where run: "rx_run demo_stream demo_isn demo_conn1 [] {..<3} edge" using demo_conn1_run ..
  from tcp_stream [OF run] have "rx_count demo_conn1 = 3" by auto
  with tcp_stream [OF run] show ?thesis by simp
qed

theorem tcp_teardown_refines_witness:
  "\<exists>c' pk. tcp_input_conn 2 0 demo_conn demo_seg = (c', pk) \<and>
     c_state c' = (if c_peer_fin c' then CLOSE_WAIT else ESTABLISHED)"
  using tcp_teardown_refines [of demo_conn demo_seg 2 0]
  by (simp add: demo_conn_def demo_seg_def synchronized_def flag_def ACK_def RST_def)

subsection \<open>A full ring\<close>

text \<open>
  A byte sent into a closed window is acknowledged and lost: with the ring full (the advertised
  window is 0) a segment with the next byte of the stream, as a sender's window probe carries it,
  moves the acknowledgement number past that byte while the bytes the application can read stay as
  they were.
\<close>
theorem tcp_probe_lost:
  assumes "rx_ok c" "rx_count c = TCP_RXBUF - 1"
    and "reasm_inv f isn (c_reasm c) n R" "n \<notin> R" "Suc n \<notin> R"
    and "h_seq h = isn + of_nat n" "h_data h = [f n]" "\<not> flag (h_flags h) FIN" "\<not> c_have_fin c"
    and "tcp_input_sync ip now c h = (c', pk)"
  shows "tcp_advertise_wnd (ring_free c) = 0 \<and> rx_bytes c' = rx_bytes c \<and>
    c_rcv_nxt c' = isn + of_nat (Suc n) \<and> pk \<noteq> []"
proof -
  let ?R' = "R \<union> {p. n \<le> p \<and> p < n + 1 \<and> n \<le> p \<and> p < n + TCP_REASM_WIN}"
  obtain c1 pk1 where c1: "tcp_input_ack ip c h = (c1, pk1)" by force
  let ?c1 = "c1\<lparr>c_snd_wnd := h_wnd h\<rparr>"
  define c2 where "c2 = tcp_input_data ?c1 h"
  have s1: "rx_same c ?c1" using input_ack_same [of c ip h] by (simp add: c1 rx_same_def)
  have hf: "c_have_fin ?c1 = c_have_fin c"
    using c1 by (auto simp: tcp_input_ack_def tcp_retx_oldest_def tcp_xmit_seq_def Let_def split: if_splits prod.splits)
  have ok: "rx_ok ?c1" "rx_count ?c1 = TCP_RXBUF - 1" "rx_bytes ?c1 = rx_bytes c" "c_reasm ?c1 = c_reasm c"
    using rx_count_same [OF s1] s1 assms(1,2) by (simp_all add: rx_same_def)
  have dat: "h_data h = map f [n..<n + 1]" using assms(7) by simp
  have ri: "reasm_inv f isn (c_reasm ?c1) n R" using assms(3) ok(4) by simp
  have far: "n + 1 \<le> n + 2 ^ 31" "n \<le> n + 2 ^ 31" by simp_all
  obtain p q where p: "{..<p} \<subseteq> ?R'" "p \<notin> ?R'" "n \<le> p" "reasm_inv f isn q p ?R'"
    and same: "rx_same ((tf.pushes ?c1 (map f [n..<p]))\<lparr>c_reasm := q, c_rcv_nxt := tcp_reasm_pos q\<rparr>) c2"
    unfolding c2_def by (rule data_pushes [OF ri assms(6) dat far refl])
  have full: "tf.pushes ?c1 (map f [n..<p]) = ?c1" using tf.pushes_full [OF ok(1)] ok(2) by simp
  have "n \<in> ?R'" by (simp add: TCP_REASM_WIN_def)
  moreover have "Suc n \<notin> ?R'" using assms(5) by simp
  moreover have "Suc n < p \<Longrightarrow> Suc n \<in> ?R'" using p(1) by blast
  ultimately have "p = Suc n" using p(2,3) by (metis Suc_leI le_neq_implies_less linorder_neqE_nat not_less_eq)
  with p(4) have "reasm_inv f isn q (Suc n) ?R'" by simp
  then have r2: "c_rcv_nxt c2 = isn + of_nat (Suc n)" "rx_bytes c2 = rx_bytes c"
    using same \<open>p = Suc n\<close> ok(3) rx_count_same [OF same] unfolding full
    by (simp_all add: rx_same_def tcp_reasm_pos_def reasm_inv_def rx_bytes_def rx_count_def)
  have hf2: "\<not> c_have_fin c2"
    unfolding c2_def using assms(9) hf have_fin_data [of ?c1 h] by simp
  have fin: "tcp_input_fin c2 h = (c2, False)" using hf2 assms(8) by (simp add: tcp_input_fin_def)
  have c': "c' = tcp_input_teardown now False (fst (tcp_xmit ip c2 ACK []))" "pk = pk1 @ snd (tcp_xmit ip c2 ACK [])"
    using assms(7,8,10) unfolding tcp_input_sync_def c1 prod.case Let_def c2_def [symmetric] fin
    by (auto split: prod.splits)
  have "tcp_advertise_wnd (ring_free c) = 0"
    unfolding ring_free_count [OF assms(1)] assms(2) by (simp add: tcp_advertise_wnd_def TCP_REASM_WIN_def)
  with r2 show ?thesis
    by (simp add: c' tcp_xmit_fst rx_bytes_def rx_count_def) (simp add: tcp_xmit_def tcp_xmit_seq_def Let_def)
qed

definition demo_full :: tcp_conn where
  "demo_full = demo_conn\<lparr>c_rxhead := TCP_RXBUF - 1\<rparr>"

definition demo_probe :: seg_hdr where
  "demo_probe = demo_seg\<lparr>h_seq := demo_isn + of_nat 0, h_data := [demo_stream 0]\<rparr>"

theorem tcp_probe_lost_witness:
  "rx_bytes (fst (tcp_input_sync 2 0 demo_full demo_probe)) = rx_bytes demo_full \<and>
   c_rcv_nxt (fst (tcp_input_sync 2 0 demo_full demo_probe)) = c_rcv_nxt demo_full + 1"
proof -
  have ok: "rx_ok demo_full" "rx_count demo_full = TCP_RXBUF - 1"
    by (simp_all add: demo_full_def demo_conn_def rx_ok_def rx_count_def TCP_RXBUF_def)
  have raw: "reasm_ok demo_raw" by (simp add: demo_raw_def reasm_ok_def)
  have inv: "reasm_inv demo_stream demo_isn (c_reasm demo_full) 0 {}"
    using init_at [OF raw] raw
    by (simp add: demo_full_def demo_conn_def reasm_inv_def reasm_ok_def tcp_reasm_init_def)
  show ?thesis
    using tcp_probe_lost [OF ok inv, of demo_probe 2 0 "fst (tcp_input_sync 2 0 demo_full demo_probe)"
        "snd (tcp_input_sync 2 0 demo_full demo_probe)"]
    by (simp add: demo_probe_def demo_seg_def flag_def ACK_def FIN_def demo_full_def demo_conn_def)
qed

subsection \<open>After the peer's FIN\<close>

text \<open>
  A repeated FIN takes back the acknowledgement of the FIN: the receive position is reset to the
  reassembly queue's, which does not count the FIN, and the FIN is not consumed a second time, so
  the reply acknowledges one number less than the reply to the first FIN did.
\<close>
theorem tcp_fin_unacked:
  assumes "c_peer_fin c" "c_have_fin c" "c_rcv_nxt c = tcp_reasm_pos (c_reasm c) + 1"
    and "rq_at (c_reasm c) 0 = None" "h_data h = []" "flag (h_flags h) FIN"
    and "tcp_input_sync ip now c h = (c', pk)"
  shows "\<exists>sg hh. pk = [(c_rip c, 6, sg)] \<and> tcp_parse sg = Some hh \<and> h_ack hh = c_rcv_nxt c - 1"
proof -
  obtain c1 pk1 where c1: "tcp_input_ack ip c h = (c1, pk1)" by force
  have fl: "flag (h_flags h) (SYN OR FIN)"
  proof -
    have "h_flags h AND FIN = (h_flags h AND (SYN OR FIN)) AND FIN"
      by (simp add: SYN_def FIN_def and.assoc)
    with assms(6) show ?thesis by (auto simp: flag_def)
  qed
  then have c1': "pk1 = []" "c_reasm c1 = c_reasm c" "c_peer_fin c1" "c_rip c1 = c_rip c"
    using c1 assms(1) by (auto simp: tcp_input_ack_def split: if_splits)
  have drain: "tcp_drain TCP_REASM_WIN (c1\<lparr>c_snd_wnd := h_wnd h\<rparr>) = c1\<lparr>c_snd_wnd := h_wnd h\<rparr>"
  proof -
    let ?X = "c1\<lparr>c_snd_wnd := h_wnd h\<rparr>"
    have "rq_at (c_reasm ?X) 0 = None" using assms(4) by (simp add: c1')
    then have "tcp_reasm_read (c_reasm ?X) m = ([], c_reasm ?X)" for m
      by (cases m) (simp_all add: read_Suc del: tcp_reasm_read.simps(2))
    then have "tcp_drain (Suc k) ?X = ?X\<lparr>c_reasm := c_reasm ?X\<rparr>" for k by (simp only: tcp_drain.simps prod.case simp_thms if_True)
    from this [of "TCP_REASM_WIN - 1"] show ?thesis using WIN_pos by simp
  qed
  define c2 where "c2 = tcp_input_data (c1\<lparr>c_snd_wnd := h_wnd h\<rparr>) h"
  have c2: "c_rcv_nxt c2 = c_rcv_nxt c - 1" "c_peer_fin c2" "c_rip c2 = c_rip c"
    unfolding c2_def tcp_input_data_def using assms(3,5) c1' by (simp_all add: Let_def drain)
  obtain c3 b where c3: "tcp_input_fin c2 h = (c3, b)" by force
  have c3': "c_rcv_nxt c3 = c_rcv_nxt c2" "c_rip c3 = c_rip c2"
    using c3 c2(2) by (auto simp: tcp_input_fin_def Let_def split: if_splits)
  have "pk = snd (tcp_xmit ip c3 ACK [])"
    using assms(5-7) unfolding tcp_input_sync_def c1 prod.case Let_def c2_def [symmetric] c3
    by (auto simp: c1' split: prod.splits)
  with xmit_wire [of ip c3 ACK "c_snd_nxt c3" "[]"] show ?thesis
    by (force simp: tcp_xmit_def c2 c3')
qed

end
