(* ===== verification/Tcp_Api.thy ===== *)
theory Tcp_Api
  imports Tcp_Stream
begin

text \<open>
  The calls of \<open>src/tcp.c\<close> that user programs reach through sockets: listen, accept, connect, send,
  receive, shutdown and close. Those that wait are loops around \<open>net_pump\<close> and \<open>net_wait\<close>; one turn
  of such a loop takes one entry of a list of \<open>tick\<close>s, which holds what the machine supplies during
  the turn: the readings of the clock, the segments \<open>net_pump\<close> delivers and whether a signal is
  pending. \<open>None\<close> means that the call is still waiting when the list ends. A connection is named by
  its index; a NULL connection, which every call refuses first, has no index.
\<close>

subsection \<open>The system state and the environment\<close>

record tcp_sys =
  ts_conns :: "tcp_conn list"
  ts_next_lport :: u16
  ts_out :: "packet list"

text \<open>
  \<open>tk_time k\<close> is reading \<open>k\<close> of the clock within the turn, counted from 0. \<open>tk_start\<close> is the reading
  before the loop of \<open>tcp_flush_chunk\<close>, when the turn is that loop's first.
\<close>

record tick =
  tk_start :: u64
  tk_time :: "nat \<Rightarrow> u64"
  tk_segs :: "(u64 \<times> u32 \<times> u8 list) list"
  tk_intr :: bool

definition ts_conn :: "tcp_sys \<Rightarrow> nat \<Rightarrow> tcp_conn" where "ts_conn s i = ts_conns s ! i"

definition ts_set :: "nat \<Rightarrow> tcp_conn \<Rightarrow> tcp_sys \<Rightarrow> tcp_sys" where
  "ts_set i c s = s\<lparr>ts_conns := (ts_conns s)[i := c]\<rparr>"

text \<open>Run a transmitting step on connection \<open>i\<close>.\<close>

definition ts_emit :: "nat \<Rightarrow> (tcp_conn \<Rightarrow> tcp_conn \<times> packet list) \<Rightarrow> tcp_sys \<Rightarrow> tcp_sys" where
  "ts_emit i f s = (case f (ts_conn s i) of (c, pk) \<Rightarrow> (ts_set i c s)\<lparr>ts_out := ts_out s @ pk\<rparr>)"

fun pump_segs :: "u32 \<Rightarrow> (u64 \<times> u32 \<times> u8 list) list \<Rightarrow> tcp_sys \<Rightarrow> tcp_sys" where
  "pump_segs our_ip [] s = s"
| "pump_segs our_ip ((now, src, sg) # rest) s =
     (case tcp_input our_ip now src sg (ts_conns s) of (cs, pk) \<Rightarrow>
        pump_segs our_ip rest (s\<lparr>ts_conns := cs, ts_out := ts_out s @ pk\<rparr>))"

definition pump :: "u32 \<Rightarrow> tick \<Rightarrow> tcp_sys \<Rightarrow> tcp_sys" where
  "pump our_ip tk s = pump_segs our_ip (tk_segs tk) s"

subsection \<open>Passive open\<close>

definition tcp_listen :: "nat \<Rightarrow> u16 \<Rightarrow> tcp_sys \<Rightarrow> tcp_sys" where
  "tcp_listen i port s = ts_set i ((ts_conn s i)\<lparr>c_lport := port, c_rip := 0, c_rport := 0, c_state := LISTEN\<rparr>) s"

definition accept_child :: "nat \<Rightarrow> tcp_conn list \<Rightarrow> nat option" where
  "accept_child l cs = List.find (\<lambda>j. c_used (cs ! j) \<and> j \<noteq> l \<and> c_lport (cs ! j) = c_lport (cs ! l) \<and>
     c_rport (cs ! j) \<noteq> 0 \<and> c_state (cs ! j) = ESTABLISHED \<and> \<not> c_accepted (cs ! j)) [0..<length cs]"

fun tcp_accept_loop :: "u32 \<Rightarrow> nat \<Rightarrow> tick list \<Rightarrow> tcp_sys \<Rightarrow> (nat option \<times> tcp_sys) option" where
  "tcp_accept_loop our_ip l [] s = None"
| "tcp_accept_loop our_ip l (tk # tks) s =
     (let s = pump our_ip tk s in
      case accept_child l (ts_conns s) of
        Some j \<Rightarrow> Some (Some j, ts_set j ((ts_conn s j)\<lparr>c_accepted := True\<rparr>) s)
      | None \<Rightarrow> if tk_intr tk then Some (None, s) else tcp_accept_loop our_ip l tks s)"

definition tcp_accept :: "u32 \<Rightarrow> nat \<Rightarrow> tick list \<Rightarrow> tcp_sys \<Rightarrow> (nat option \<times> tcp_sys) option" where
  "tcp_accept our_ip l tks s =
     (if c_state (ts_conn s l) \<noteq> LISTEN then Some (None, s) else tcp_accept_loop our_ip l tks s)"

subsection \<open>Active open\<close>

definition elapsed_i32 :: "u64 \<Rightarrow> u64 \<Rightarrow> int" where
  "elapsed_i32 now since = sint (ucast (now - since) :: u32)"

fun tcp_connect_loop :: "u32 \<Rightarrow> nat \<Rightarrow> u32 \<Rightarrow> u64 \<Rightarrow> u64 \<Rightarrow> bool \<Rightarrow> tick list \<Rightarrow> tcp_sys \<Rightarrow> (int \<times> tcp_sys) option" where
  "tcp_connect_loop our_ip i isn start last_tx retx [] s = None"
| "tcp_connect_loop our_ip i isn start last_tx retx (tk # tks) s =
     (if \<not> tk_time tk 0 - start < 5000000 then Some (-1, s)
      else let s = pump our_ip tk s; c = ts_conn s i in
        if c_state c = ESTABLISHED then
          Some (0, if retx then s
                   else ts_set i (c\<lparr>c_rto := tcp_rto_sample (c_rto c) (elapsed_i32 (tk_time tk 1) start)\<rparr>) s)
        else if c_reset c then Some (-1, s)
        else if tk_intr tk then Some (-1, s)
        else if tk_time tk 1 - last_tx > word_of_int (tcp_rto_get (c_rto c)) then
          let s = ts_emit i (\<lambda>c. tcp_xmit_seq our_ip c SYN isn []) s; c = ts_conn s i;
              s = ts_set i (c\<lparr>c_rto := tcp_rto_backoff (c_rto c)\<rparr>) s
          in tcp_connect_loop our_ip i isn start (tk_time tk 2) True tks s
        else tcp_connect_loop our_ip i isn start last_tx retx tks s)"

definition tcp_connect :: "u32 \<Rightarrow> nat \<Rightarrow> u32 \<Rightarrow> u16 \<Rightarrow> u64 \<Rightarrow> u64 \<Rightarrow> tick list \<Rightarrow> tcp_sys \<Rightarrow> (int \<times> tcp_sys) option" where
  "tcp_connect our_ip i ip port t_isn t_start tks s =
     (let lp = ts_next_lport s; nxt = (if lp + 1 = 0 then 40000 else lp + 1); isn = ucast t_isn;
          c = (ts_conn s i)\<lparr>c_rip := ip, c_rport := port, c_lport := lp, c_snd_nxt := isn, c_snd_una := isn,
                c_state := SYN_SENT\<rparr>;
          s = ts_emit i (\<lambda>c. tcp_xmit our_ip c SYN []) ((ts_set i c s)\<lparr>ts_next_lport := nxt\<rparr>);
          s = ts_set i ((ts_conn s i)\<lparr>c_snd_nxt := isn + 1\<rparr>) s
      in tcp_connect_loop our_ip i isn t_start t_start False tks s)"

subsection \<open>Sending\<close>

definition send_window_sys :: "u32 \<Rightarrow> u64 \<Rightarrow> nat \<Rightarrow> tcp_sys \<Rightarrow> bool \<times> tcp_sys" where
  "send_window_sys our_ip now i s =
     (case tcp_send_window our_ip now (ts_conn s i) of (sent, c, pk) \<Rightarrow>
        (sent, (ts_set i c s)\<lparr>ts_out := ts_out s @ pk\<rparr>))"

text \<open>The result carries the ticks that are left, for the next chunk.\<close>

fun tcp_flush_loop :: "u32 \<Rightarrow> nat \<Rightarrow> u32 \<Rightarrow> u64 \<Rightarrow> u64 \<Rightarrow> tick list \<Rightarrow> tcp_sys \<Rightarrow> (int \<times> tcp_sys \<times> tick list) option" where
  "tcp_flush_loop our_ip i chunk_end start last_tx [] s = None"
| "tcp_flush_loop our_ip i chunk_end start last_tx (tk # tks) s =
     (if \<not> tk_time tk 0 - start < 30000000 then Some (0, s, tks)
      else case send_window_sys our_ip (tk_time tk 1) i s of (sent, s) \<Rightarrow>
        let last_tx = (if sent then tk_time tk 2 else last_tx); s = pump our_ip tk s; c = ts_conn s i in
        if seq_ge (c_snd_una c) chunk_end then
          Some (0, if \<not> c_snd_retx c \<and> c_snd_time c \<noteq> 0
                   then ts_set i (c\<lparr>c_rto := tcp_rto_sample (c_rto c) (elapsed_i32 (tk_time tk 3) (c_snd_time c))\<rparr>) s
                   else s, tks)
        else if c_reset c then Some (-1, s, tks)
        else if tk_intr tk then Some (-1, s, tks)
        else if tk_time tk 3 - last_tx > word_of_int (tcp_rto_get (c_rto c)) then
          let s = ts_emit i (tcp_retx_oldest our_ip) s; c = ts_conn s i;
              s = ts_set i (c\<lparr>c_snd_retx := True, c_rto := tcp_rto_backoff (c_rto c),
                              c_cc := tcp_cc_on_timeout (c_cc c) (of_nat TCP_MSS)\<rparr>) s
          in tcp_flush_loop our_ip i chunk_end start (tk_time tk 4) tks s
        else tcp_flush_loop our_ip i chunk_end start last_tx tks s)"

definition tcp_flush_chunk :: "u32 \<Rightarrow> nat \<Rightarrow> tick list \<Rightarrow> tcp_sys \<Rightarrow> (int \<times> tcp_sys \<times> tick list) option" where
  "tcp_flush_chunk our_ip i tks s =
     (let c = (ts_conn s i)\<lparr>c_snd_time := 0, c_snd_retx := False\<rparr>; s = ts_set i c s;
          chunk_end = c_snd_base c + of_nat (c_snd_len c)
      in case tks of [] \<Rightarrow> None
         | tk # _ \<Rightarrow> tcp_flush_loop our_ip i chunk_end (tk_start tk) (tk_start tk) tks s)"

definition load_chunk :: "u8 list \<Rightarrow> tcp_conn \<Rightarrow> tcp_conn" where
  "load_chunk bs c = c\<lparr>c_sndbuf := bs @ drop (length bs) (c_sndbuf c), c_snd_base := c_snd_nxt c,
     c_snd_len := length bs\<rparr>"

function tcp_send_loop :: "u32 \<Rightarrow> nat \<Rightarrow> u8 list \<Rightarrow> nat \<Rightarrow> tick list \<Rightarrow> tcp_sys \<Rightarrow> (int \<times> tcp_sys \<times> tick list) option" where
  "tcp_send_loop our_ip i src tot tks s =
     (if \<not> tot < length src then Some (int tot, s, tks)
      else let bs = take TCP_SNDBUF (drop tot src); s = ts_set i (load_chunk bs (ts_conn s i)) s in
        case tcp_flush_chunk our_ip i tks s of
          None \<Rightarrow> None
        | Some (r, s, tks) \<Rightarrow>
            if r < 0 then Some (if tot > 0 then int tot else -1, s, tks)
            else tcp_send_loop our_ip i src (tot + length bs) tks s)"
  by pat_completeness auto
termination
  by (relation "measure (\<lambda>(our_ip, i, src, tot, tks, s). length src - tot)") (auto simp: TCP_SNDBUF_def)

declare tcp_send_loop.simps [simp del]

definition tcp_send :: "u32 \<Rightarrow> nat \<Rightarrow> u8 list \<Rightarrow> tick list \<Rightarrow> tcp_sys \<Rightarrow> (int \<times> tcp_sys \<times> tick list) option" where
  "tcp_send our_ip i buf tks s =
     (if c_state (ts_conn s i) \<noteq> ESTABLISHED then Some (-1, s, tks)
      else if buf = [] then Some (0, s, tks)
      else tcp_send_loop our_ip i buf 0 tks s)"

subsection \<open>Receiving and readiness\<close>

definition recv_ready :: "tcp_conn \<Rightarrow> bool" where
  "recv_ready c \<longleftrightarrow> \<not> ring_empty c \<or> c_peer_fin c \<or> c_reset c"

text \<open>What \<open>tcp_recv\<close> does once its wait is over: the return value, the bytes, the state.\<close>

definition tcp_recv_now :: "u32 \<Rightarrow> nat \<Rightarrow> nat \<Rightarrow> tcp_sys \<Rightarrow> int \<times> u8 list \<times> tcp_sys" where
  "tcp_recv_now our_ip i len s =
     (let c = ts_conn s i in
      if \<not> ring_empty c then
        case ring_pop c len of (bs, c) \<Rightarrow>
          let s = ts_set i c s;
              s = (if c_state c = ESTABLISHED \<and>
                      uint (tcp_advertise_wnd (ring_free c)) \<ge> uint (c_last_adv c) + int TCP_MSS
                   then ts_emit i (\<lambda>c. tcp_xmit our_ip c ACK []) s else s)
          in (int (length bs), bs, s)
      else if c_reset c then (-1, [], s)
      else (0, [], s))"

fun tcp_recv :: "u32 \<Rightarrow> nat \<Rightarrow> nat \<Rightarrow> tick list \<Rightarrow> tcp_sys \<Rightarrow> (int \<times> u8 list \<times> tcp_sys) option" where
  "tcp_recv our_ip i len tks s =
     (if recv_ready (ts_conn s i) then Some (tcp_recv_now our_ip i len s)
      else case tks of [] \<Rightarrow> None
        | tk # tks' \<Rightarrow>
            let s = pump our_ip tk s in
            if recv_ready (ts_conn s i) then Some (tcp_recv_now our_ip i len s)
            else if tk_intr tk then Some (-1, [], s)
            else tcp_recv our_ip i len tks' s)"

definition tcp_readable :: "tcp_conn \<Rightarrow> bool" where
  "tcp_readable c \<longleftrightarrow> \<not> ring_empty c \<or> c_peer_fin c \<or> c_reset c"

definition tcp_writable :: "tcp_conn \<Rightarrow> bool" where
  "tcp_writable c \<longleftrightarrow> c_state c = ESTABLISHED \<and>
     tcp_window_avail (c_snd_una c) (c_snd_nxt c) (c_snd_wnd c) 1 > 0"

subsection \<open>Closing\<close>

definition send_fin :: "u32 \<Rightarrow> tcp_state \<Rightarrow> tcp_conn \<Rightarrow> tcp_conn \<times> packet list" where
  "send_fin our_ip st c =
     (case tcp_xmit our_ip c (FIN OR ACK) [] of (c, pk) \<Rightarrow>
        (c\<lparr>c_snd_nxt := c_snd_nxt c + 1, c_fin_sent := True, c_state := st\<rparr>, pk))"

definition tcp_shutdown :: "u32 \<Rightarrow> nat \<Rightarrow> tcp_sys \<Rightarrow> tcp_sys" where
  "tcp_shutdown our_ip i s =
     (if c_state (ts_conn s i) \<noteq> ESTABLISHED then s else ts_emit i (send_fin our_ip FIN_WAIT_1) s)"

fun tcp_close_loop :: "u32 \<Rightarrow> nat \<Rightarrow> u64 \<Rightarrow> tick list \<Rightarrow> tcp_sys \<Rightarrow> tcp_sys option" where
  "tcp_close_loop our_ip i start [] s = None"
| "tcp_close_loop our_ip i start (tk # tks) s =
     (if \<not> (tk_time tk 0 - start < 3000000 \<and> c_state (ts_conn s i) \<noteq> CLOSED \<and> \<not> c_reset (ts_conn s i))
      then Some (ts_set i ((ts_conn s i)\<lparr>c_used := False\<rparr>) s)
      else let s = pump our_ip tk s; c = ts_conn s i;
               s = (if c_state c = TIME_WAIT \<and> tk_time tk 1 - c_tw_start c > TCP_TIME_WAIT_US
                    then ts_set i (c\<lparr>c_state := CLOSED\<rparr>) s else s)
        in tcp_close_loop our_ip i start tks s)"

definition tcp_close :: "u32 \<Rightarrow> nat \<Rightarrow> u64 \<Rightarrow> tick list \<Rightarrow> tcp_sys \<Rightarrow> tcp_sys option" where
  "tcp_close our_ip i start tks s =
     (let s = (if c_state (ts_conn s i) = ESTABLISHED then ts_emit i (send_fin our_ip FIN_WAIT_1) s
               else if c_state (ts_conn s i) = CLOSE_WAIT then ts_emit i (send_fin our_ip LAST_ACK) s
               else s)
      in tcp_close_loop our_ip i start tks s)"

end
