(* ===== verification/Tcp_Api_Props.thy ===== *)
theory Tcp_Api_Props
  imports Tcp_Api
begin

text \<open>
  Properties of whole TCP calls: two endpoints complete the handshake, the sender's segments are the
  unsent bytes of its chunk inside the window, and the calls that wait come back.
\<close>

subsection \<open>The handshake of two endpoints\<close>

lemma find_conn_Some:
  "find_conn P cs = Some i \<longleftrightarrow> i < length cs \<and> P (cs ! i) \<and> (\<forall>j<i. \<not> P (cs ! j))"
proof -
  have "find_conn P cs = Some i \<longleftrightarrow>
      (\<exists>k<length [0..<length cs]. P (cs ! ([0..<length cs] ! k)) \<and> i = [0..<length cs] ! k \<and>
         (\<forall>j<k. \<not> P (cs ! ([0..<length cs] ! j))))"
    unfolding find_conn_def by (rule find_Some_iff)
  also have "\<dots> \<longleftrightarrow> i < length cs \<and> P (cs ! i) \<and> (\<forall>j<i. \<not> P (cs ! j))" by auto
  finally show ?thesis .
qed

lemma find_conn_None: "find_conn P cs = None \<longleftrightarrow> (\<forall>j<length cs. \<not> P (cs ! j))"
  by (auto simp: find_conn_def find_None_iff)

text \<open>The peer address that connection \<open>c\<close> answers to: remote address, remote port, local port.\<close>

definition conn_is :: "tcp_conn \<Rightarrow> u32 \<Rightarrow> u16 \<Rightarrow> u16 \<Rightarrow> bool" where
  "conn_is c rip rport lport \<longleftrightarrow> c_used c \<and> c_rip c = rip \<and> c_rport c = rport \<and> c_lport c = lport"

lemma demux_conn_is:
  "tcp_demux src h cs = find_conn (\<lambda>c. conn_is c src (h_sport h) (h_dport h)) cs"
  by (simp add: tcp_demux_def conn_is_def conj_commute conj_left_commute)

text \<open>
  \<open>syn_sent c isn\<close>: the client after \<open>tcp_connect\<close> sent its SYN with number \<open>isn\<close>. \<open>open_conn c r\<close>:
  an established connection whose receive side starts at \<open>r\<close>.
\<close>

definition syn_sent :: "tcp_conn \<Rightarrow> u32 \<Rightarrow> bool" where
  "syn_sent c isn \<longleftrightarrow> c_used c \<and> c_state c = SYN_SENT \<and> c_snd_una c = isn \<and> c_snd_nxt c = isn + 1"

definition open_conn :: "tcp_conn \<Rightarrow> u32 \<Rightarrow> bool" where
  "open_conn c r \<longleftrightarrow> c_state c = ESTABLISHED \<and> c_rcv_nxt c = r \<and> tcp_reasm_pos (c_reasm c) = r \<and>
     c_snd_una c = c_snd_nxt c"

lemma flags [simp]:
  "flag SYN SYN" "\<not> flag SYN ACK" "\<not> flag SYN RST" "\<not> flag SYN FIN"
  "flag (SYN OR ACK) SYN" "flag (SYN OR ACK) ACK" "\<not> flag (SYN OR ACK) RST"
  "flag ACK ACK" "\<not> flag ACK RST" "\<not> flag ACK SYN" "\<not> flag ACK FIN"
  by (simp_all add: flag_def SYN_def ACK_def RST_def FIN_def)

lemma input_matched:
  assumes "tcp_parse sg = Some h" "find_conn (\<lambda>c. conn_is c src (h_sport h) (h_dport h)) cs = Some i"
    "tcp_input_conn ip now (cs ! i) h = (c, pk)"
  shows "tcp_input ip now src sg cs = (cs[i := c], pk)"
  using assms by (simp add: tcp_input_def demux_conn_is)

text \<open>Step 1: the listener answers the SYN with a child in SYN_RCVD and a SYN-ACK.\<close>

lemma passive_open:
  assumes p: "tcp_parse sg = Some h" and f: "flag (h_flags h) SYN" "\<not> flag (h_flags h) ACK"
    and new: "\<forall>j<length cs. \<not> conn_is (cs ! j) src (h_sport h) (h_dport h)"
    and lis: "l < length cs" "c_used (cs ! l)" "c_state (cs ! l) = LISTEN" "c_lport (cs ! l) = h_dport h"
    and free: "find_conn (\<lambda>c. \<not> c_used c) cs = Some k"
  shows "\<exists>ch sg'. tcp_input ip now src sg cs = (cs[k := ch], [(src, 6, sg')]) \<and>
    conn_is ch src (h_sport h) (h_dport h) \<and> c_state ch = SYN_RCVD \<and> c_rcv_nxt ch = h_seq h + 1 \<and>
    c_snd_una ch = ucast now \<and> c_snd_nxt ch = ucast now + 1 \<and> \<not> c_accepted ch \<and>
    (\<exists>w. tcp_parse sg' = Some \<lparr>h_sport = h_dport h, h_dport = h_sport h, h_seq = ucast now,
       h_ack = h_seq h + 1, h_flags = SYN OR ACK, h_wnd = w, h_data = []\<rparr>)"
proof -
  have none: "find_conn (\<lambda>c. conn_is c src (h_sport h) (h_dport h)) cs = None"
    using new by (simp add: find_conn_None)
  obtain l' where l': "find_conn (\<lambda>c. c_used c \<and> c_state c = LISTEN \<and> c_lport c = h_dport h) cs = Some l'"
    using lis by (cases "find_conn (\<lambda>c. c_used c \<and> c_state c = LISTEN \<and> c_lport c = h_dport h) cs")
      (auto simp: find_conn_None)
  have k: "k < length cs" using free by (simp add: find_conn_Some)
  define ch where "ch = (tcp_fresh (cs ! k))\<lparr>c_lport := h_dport h, c_rip := src, c_rport := h_sport h,
     c_rcv_nxt := h_seq h + 1, c_snd_una := ucast now, c_snd_nxt := ucast now,
     c_snd_wnd := h_wnd h, c_state := SYN_RCVD\<rparr>"
  obtain sg' where out: "snd (tcp_xmit_seq ip ch (SYN OR ACK) (ucast now) []) = [(src, 6, sg')]"
    and sg': "tcp_parse sg' = Some \<lparr>h_sport = h_dport h, h_dport = h_sport h, h_seq = ucast now,
       h_ack = h_seq h + 1, h_flags = SYN OR ACK, h_wnd = tcp_advertise_wnd (ring_free ch), h_data = []\<rparr>"
    using xmit_wire [of ip ch "SYN OR ACK" "ucast now" "[]"] by (auto simp: ch_def)
  define ch' where "ch' = fst (tcp_xmit_seq ip ch (SYN OR ACK) (ucast now) [])\<lparr>c_snd_nxt := ucast now + 1\<rparr>"
  have new: "tcp_new cs = Some (k, cs[k := tcp_fresh (cs ! k)])" by (simp add: tcp_new_def free)
  have "tcp_input_nomatch ip now src cs h = (cs[k := ch'], [(src, 6, sg')])"
    unfolding tcp_input_nomatch_def l' new using f k out
    by (cases "tcp_xmit_seq ip ch (SYN OR ACK) (ucast now) []")
      (simp add: Let_def ch_def [symmetric] ch'_def)
  then have "tcp_input ip now src sg cs = (cs[k := ch'], [(src, 6, sg')])"
    by (simp add: tcp_input_def p demux_conn_is none)
  moreover have "conn_is ch' src (h_sport h) (h_dport h) \<and> c_state ch' = SYN_RCVD \<and> c_rcv_nxt ch' = h_seq h + 1 \<and>
    c_snd_una ch' = ucast now \<and> c_snd_nxt ch' = ucast now + 1 \<and> \<not> c_accepted ch'"
    by (simp add: ch'_def tcp_xmit_seq_fst ch_def conn_is_def tcp_fresh_def)
  ultimately show ?thesis using sg' by blast
qed

text \<open>Step 2: the SYN-ACK opens the client, which answers with an ACK.\<close>

lemma client_opens:
  assumes "syn_sent c isn" "flag (h_flags h) SYN" "flag (h_flags h) ACK" "\<not> flag (h_flags h) RST" "h_ack h = isn + 1"
  shows "\<exists>c' sg'. tcp_input_conn ip now c h = (c', [(c_rip c, 6, sg')]) \<and> open_conn c' (h_seq h + 1) \<and>
    c_snd_nxt c' = isn + 1 \<and> c_lport c' = c_lport c \<and> c_rport c' = c_rport c \<and> c_rip c' = c_rip c \<and>
    (\<exists>w. tcp_parse sg' = Some \<lparr>h_sport = c_lport c, h_dport = c_rport c, h_seq = isn + 1,
       h_ack = h_seq h + 1, h_flags = ACK, h_wnd = w, h_data = []\<rparr>)"
proof -
  define d where "d = c\<lparr>c_rcv_nxt := h_seq h + 1, c_snd_una := h_ack h, c_snd_wnd := h_wnd h,
     c_state := ESTABLISHED, c_reasm := tcp_reasm_init (c_reasm c) (h_seq h + 1)\<rparr>"
  have eq: "tcp_input_conn ip now c h = tcp_xmit ip d ACK []"
    using assms by (simp add: tcp_input_conn_def syn_sent_def d_def Let_def)
  obtain sg' where "snd (tcp_xmit ip d ACK []) = [(c_rip c, 6, sg')]"
    "tcp_parse sg' = Some \<lparr>h_sport = c_lport c, h_dport = c_rport c, h_seq = isn + 1,
       h_ack = h_seq h + 1, h_flags = ACK, h_wnd = tcp_advertise_wnd (ring_free d), h_data = []\<rparr>"
    using xmit_wire [of ip d ACK "c_snd_nxt d" "[]"] assms(1) by (auto simp: tcp_xmit_def d_def syn_sent_def)
  moreover have "open_conn (fst (tcp_xmit ip d ACK [])) (h_seq h + 1)"
    "c_snd_nxt (fst (tcp_xmit ip d ACK [])) = isn + 1"
    "c_lport (fst (tcp_xmit ip d ACK [])) = c_lport c" "c_rport (fst (tcp_xmit ip d ACK [])) = c_rport c"
    "c_rip (fst (tcp_xmit ip d ACK [])) = c_rip c"
    using assms by (simp_all add: tcp_xmit_fst open_conn_def d_def tcp_reasm_init_def tcp_reasm_pos_def syn_sent_def)
  ultimately show ?thesis unfolding eq by (metis prod.collapse)
qed

text \<open>Step 3: the ACK opens the child.\<close>

lemma child_opens:
  assumes "c_state c = SYN_RCVD" "h_ack h = c_snd_nxt c" "flag (h_flags h) ACK" "\<not> flag (h_flags h) RST"
  shows "\<exists>c'. tcp_input_conn ip now c h = (c', []) \<and> open_conn c' (c_rcv_nxt c) \<and> c_snd_nxt c' = c_snd_nxt c \<and>
    c_rcv_nxt c' = c_rcv_nxt c"
  using assms by (simp add: tcp_input_conn_def open_conn_def tcp_reasm_init_def tcp_reasm_pos_def)

text \<open>
  C33. The three-way handshake: when the client's SYN reaches a listener with a free slot and each
  reply reaches the other side, both ends are ESTABLISHED, each expects exactly the number the
  other sends next, nothing is unacknowledged, both reassembly queues start there, and the new
  child is one \<open>tcp_accept\<close> may hand out.
\<close>
theorem tcp_handshake:
  assumes client: "syn_sent (A ! i) isn"
    "find_conn (\<lambda>c. conn_is c sip port lport) A = Some i"
    and syn: "tcp_parse sg1 = Some \<lparr>h_sport = lport, h_dport = port, h_seq = isn, h_ack = a, h_flags = SYN,
       h_wnd = w, h_data = []\<rparr>"
    and server: "\<forall>j<length B. \<not> conn_is (B ! j) cip lport port"
    "l < length B" "c_used (B ! l)" "c_state (B ! l) = LISTEN" "c_lport (B ! l) = port"
    "find_conn (\<lambda>c. \<not> c_used c) B = Some k"
  shows "\<exists>B1 sg2 A1 sg3 B2. tcp_input sip t1 cip sg1 B = (B1, [(cip, 6, sg2)]) \<and>
    tcp_input cip t2 sip sg2 A = (A1, [(sip, 6, sg3)]) \<and>
    tcp_input sip t3 cip sg3 B1 = (B2, []) \<and>
    open_conn (A1 ! i) (c_snd_nxt (B2 ! k)) \<and> open_conn (B2 ! k) (c_snd_nxt (A1 ! i)) \<and>
    conn_is (B2 ! k) cip lport port \<and> \<not> c_accepted (B2 ! k)"
proof -
  let ?h1 = "\<lparr>h_sport = lport, h_dport = port, h_seq = isn, h_ack = a, h_flags = SYN, h_wnd = w, h_data = []\<rparr>"
  have k: "k < length B" using server(6) by (simp add: find_conn_Some)
  have i: "i < length A" "c_rip (A ! i) = sip" "c_rport (A ! i) = port" "c_lport (A ! i) = lport"
    using client(2) by (auto simp: find_conn_Some conn_is_def)
  obtain ch sg2 w2 where s1: "tcp_input sip t1 cip sg1 B = (B[k := ch], [(cip, 6, sg2)])"
    and ch: "conn_is ch cip lport port" "c_state ch = SYN_RCVD" "c_rcv_nxt ch = isn + 1"
      "c_snd_nxt ch = ucast t1 + 1" "\<not> c_accepted ch"
    and p2: "tcp_parse sg2 = Some \<lparr>h_sport = port, h_dport = lport, h_seq = ucast t1,
       h_ack = isn + 1, h_flags = SYN OR ACK, h_wnd = w2, h_data = []\<rparr>"
    using passive_open [OF syn, of B cip l k sip t1] server by auto
  obtain d sg3 w3 where s2: "tcp_input_conn cip t2 (A ! i) \<lparr>h_sport = port, h_dport = lport, h_seq = ucast t1,
       h_ack = isn + 1, h_flags = SYN OR ACK, h_wnd = w2, h_data = []\<rparr> = (d, [(sip, 6, sg3)])"
    and d: "open_conn d (ucast t1 + 1)" "c_snd_nxt d = isn + 1"
    and p3: "tcp_parse sg3 = Some \<lparr>h_sport = lport, h_dport = port, h_seq = isn + 1,
       h_ack = ucast t1 + 1, h_flags = ACK, h_wnd = w3, h_data = []\<rparr>"
    using client_opens [OF client(1), of "\<lparr>h_sport = port, h_dport = lport, h_seq = ucast t1,
       h_ack = isn + 1, h_flags = SYN OR ACK, h_wnd = w2, h_data = []\<rparr>" cip t2] i by auto
  have A1: "tcp_input cip t2 sip sg2 A = (A[i := d], [(sip, 6, sg3)])"
    using input_matched [OF p2 _ s2] client(2) by simp
  obtain e where s3: "tcp_input_conn sip t3 ch \<lparr>h_sport = lport, h_dport = port, h_seq = isn + 1,
       h_ack = ucast t1 + 1, h_flags = ACK, h_wnd = w3, h_data = []\<rparr> = (e, [])"
    and e: "open_conn e (isn + 1)" "c_snd_nxt e = ucast t1 + 1"
    using child_opens [OF ch(2), of "\<lparr>h_sport = lport, h_dport = port, h_seq = isn + 1,
       h_ack = ucast t1 + 1, h_flags = ACK, h_wnd = w3, h_data = []\<rparr>" sip t3] ch by auto
  have e': "conn_is e cip lport port" "\<not> c_accepted e"
    using s3 ch by (auto simp: tcp_input_conn_def conn_is_def)
  have "find_conn (\<lambda>c. conn_is c cip lport port) (B[k := ch]) = Some k"
    using ch(1) server(1) k by (auto simp: find_conn_Some nth_list_update)
  then have B2: "tcp_input sip t3 cip sg3 (B[k := ch]) = (B[k := e], [])"
    using input_matched [OF p3, of cip "B[k := ch]" k sip t3 e] s3 k by simp
  show ?thesis using s1 A1 B2 d e e' i(1) k
    by (intro exI [of _ "B[k := ch]"] exI [of _ sg2] exI [of _ "A[i := d]"] exI [of _ sg3] exI [of _ "B[k := e]"]) simp
qed

definition demo_client :: tcp_conn where
  "demo_client = demo_conn\<lparr>c_state := SYN_SENT, c_rip := 2, c_rport := 80, c_lport := 40000,
     c_snd_una := 100, c_snd_nxt := 101\<rparr>"

definition demo_listener :: tcp_conn where
  "demo_listener = demo_conn\<lparr>c_state := LISTEN, c_rip := 0, c_rport := 0, c_lport := 80\<rparr>"

definition demo_free :: tcp_conn where "demo_free = demo_conn\<lparr>c_used := False\<rparr>"

theorem tcp_handshake_witness:
  "\<exists>B1 sg2 A1 sg3 B2. tcp_input 2 500 1 (tcp_header 40000 80 100 0 SYN 8192 0) [demo_listener, demo_free] = (B1, [(1, 6, sg2)]) \<and>
    tcp_input 1 600 2 sg2 [demo_client] = (A1, [(2, 6, sg3)]) \<and>
    tcp_input 2 700 1 sg3 B1 = (B2, []) \<and>
    open_conn (A1 ! 0) (c_snd_nxt (B2 ! 1)) \<and> open_conn (B2 ! 1) (c_snd_nxt (A1 ! 0)) \<and>
    conn_is (B2 ! 1) 1 40000 80 \<and> \<not> c_accepted (B2 ! 1)"
proof (rule tcp_handshake [where l = 0 and isn = 100 and a = 0 and w = 8192])
  show "syn_sent ([demo_client] ! 0) 100"
    by (simp add: demo_client_def demo_conn_def syn_sent_def)
  show "find_conn (\<lambda>c. conn_is c 2 80 40000) [demo_client] = Some 0"
    by (simp add: find_conn_Some demo_client_def demo_conn_def conn_is_def)
  show "tcp_parse (tcp_header 40000 80 100 0 SYN 8192 0) = Some \<lparr>h_sport = 40000, h_dport = 80, h_seq = 100,
      h_ack = 0, h_flags = SYN, h_wnd = 8192, h_data = []\<rparr>"
    using parse_header [where dat = "[]"] by simp
  show "\<forall>j<length [demo_listener, demo_free]. \<not> conn_is ([demo_listener, demo_free] ! j) 1 40000 80"
    by (auto simp: demo_listener_def demo_free_def demo_conn_def conn_is_def less_Suc_eq)
  show "find_conn (\<lambda>c. \<not> c_used c) [demo_listener, demo_free] = Some 1"
    by (simp add: find_conn_Some demo_free_def demo_listener_def demo_conn_def)
qed (simp_all add: demo_listener_def demo_conn_def)

subsection \<open>The send window\<close>

definition snd_off :: "tcp_conn \<Rightarrow> u32 \<Rightarrow> nat" where
  "snd_off c q = unat (q - c_snd_base c)"

text \<open>The chunk lies in the buffer; acknowledged, sent and unsent bytes follow one another in it.\<close>

definition snd_ok :: "tcp_conn \<Rightarrow> bool" where
  "snd_ok c \<longleftrightarrow> length (c_sndbuf c) = TCP_SNDBUF \<and> c_snd_len c \<le> TCP_SNDBUF \<and>
     snd_off c (c_snd_una c) \<le> snd_off c (c_snd_nxt c) \<and> snd_off c (c_snd_nxt c) \<le> c_snd_len c"

text \<open>The packets carry the bytes \<open>bs\<close> in consecutive segments of at most \<open>TCP_MSS\<close> bytes from \<open>sq\<close> on.\<close>

fun segs_carry :: "packet list \<Rightarrow> u32 \<Rightarrow> u8 list \<Rightarrow> bool" where
  "segs_carry [] sq bs \<longleftrightarrow> bs = []"
| "segs_carry ((dst, proto, sg) # ps) sq bs \<longleftrightarrow>
     (case tcp_parse sg of None \<Rightarrow> False
      | Some h \<Rightarrow> h_seq h = sq \<and> h_data h \<noteq> [] \<and> length (h_data h) \<le> TCP_MSS \<and>
          take (length (h_data h)) bs = h_data h \<and>
          segs_carry ps (sq + of_nat (length (h_data h))) (drop (length (h_data h)) bs))"

lemma sint_small: "unat (x :: u32) < 2147483648 \<Longrightarrow> sint x = int (unat x)"
  by (simp add: sint_u32 uint_nat [symmetric] flip: of_nat_less_iff [where 'a = int])

lemma snd_dist:
  assumes "snd_off c a \<le> snd_off c b" "snd_off c b \<le> TCP_SNDBUF"
  shows "sint (b - a) = int (snd_off c b) - int (snd_off c a)"
proof -
  have "b - a = (b - c_snd_base c) - (a - c_snd_base c)" by simp
  then have "unat (b - a) = snd_off c b - snd_off c a"
    using assms(1) by (simp only: snd_off_def unat_sub word_le_nat_alt)
  with assms show ?thesis by (subst sint_small) (simp_all add: TCP_SNDBUF_def)
qed

lemma snd_ok_ints:
  assumes "snd_ok c"
  shows "snd_inflight c = int (snd_off c (c_snd_nxt c)) - int (snd_off c (c_snd_una c))"
    "snd_unsent c = int (c_snd_len c) - int (snd_off c (c_snd_nxt c))"
    "sint (c_snd_nxt c - c_snd_base c) = int (snd_off c (c_snd_nxt c))"
proof -
  have o: "snd_off c (c_snd_base c + of_nat (c_snd_len c)) = c_snd_len c"
    using assms unat_of_nat_u32 [of "c_snd_len c"] by (simp add: snd_off_def snd_ok_def TCP_SNDBUF_def)
  have b: "snd_off c (c_snd_base c) = 0" by (simp add: snd_off_def)
  show "snd_inflight c = int (snd_off c (c_snd_nxt c)) - int (snd_off c (c_snd_una c))"
    unfolding snd_inflight_def using assms by (intro snd_dist) (auto simp: snd_ok_def)
  show "snd_unsent c = int (c_snd_len c) - int (snd_off c (c_snd_nxt c))"
    unfolding snd_unsent_def using snd_dist [of c "c_snd_nxt c" "c_snd_base c + of_nat (c_snd_len c)"] assms
    by (simp add: o snd_ok_def)
  show "sint (c_snd_nxt c - c_snd_base c) = int (snd_off c (c_snd_nxt c))"
    using snd_dist [of c "c_snd_base c" "c_snd_nxt c"] assms by (simp add: b snd_ok_def)
qed

lemma next_seg_bounds:
  assumes "0 < snd_next_seg c"
  shows "snd_next_seg c \<le> snd_unsent c \<and> snd_next_seg c \<le> snd_win c - snd_inflight c \<and> snd_next_seg c \<le> int TCP_MSS"
  using assms by (auto simp: snd_next_seg_def tcp_next_seg_def Let_def split: if_splits)

lemma send_one_off:
  assumes "snd_ok c" "0 < snd_next_seg c"
  shows "snd_off c (c_snd_nxt c + word_of_int (snd_next_seg c)) = snd_off c (c_snd_nxt c) + nat (snd_next_seg c)"
proof -
  obtain m where m: "snd_next_seg c = int m" using assms(2) by (metis less_imp_le zero_le_imp_eq_int)
  have le: "snd_off c (c_snd_nxt c) + m \<le> c_snd_len c" "c_snd_len c \<le> TCP_SNDBUF"
    using next_seg_bounds [OF assms(2)] snd_ok_ints(2) [OF assms(1)] m assms(1) by (auto simp: snd_ok_def)
  have mm: "unat (of_nat m :: u32) = m" using le by (intro unat_of_nat_u32) (simp add: TCP_SNDBUF_def)
  have "c_snd_nxt c + of_nat m - c_snd_base c = (c_snd_nxt c - c_snd_base c) + of_nat m" by simp
  moreover have "unat ((c_snd_nxt c - c_snd_base c) + of_nat m) = snd_off c (c_snd_nxt c) + m"
    using le mm unfolding snd_off_def by (subst unat_plus_u32) (simp_all add: TCP_SNDBUF_def)
  ultimately have "snd_off c (c_snd_nxt c + of_nat m) = snd_off c (c_snd_nxt c) + m"
    unfolding snd_off_def by (simp only:)
  then show ?thesis by (simp add: m)
qed

lemma send_one_spec:
  assumes ok: "snd_ok c" and pos: "0 < snd_next_seg c" and one: "tcp_send_one ip now c = (c', pk)"
  shows "snd_ok c' \<and> (\<exists>sg h. pk = [(c_rip c, 6, sg)] \<and> tcp_parse sg = Some h \<and> h_seq h = c_snd_nxt c \<and>
    h_data h = take (nat (snd_next_seg c)) (drop (snd_off c (c_snd_nxt c)) (c_sndbuf c)) \<and>
    length (h_data h) = nat (snd_next_seg c))"
proof -
  have c': "c' = fst (tcp_send_one ip now c)" using one by simp
  have b: "snd_off c (c_snd_nxt c) + nat (snd_next_seg c) \<le> c_snd_len c" "c_snd_len c \<le> TCP_SNDBUF"
    "length (c_sndbuf c) = TCP_SNDBUF" "nat (snd_next_seg c) \<le> TCP_MSS"
    using next_seg_bounds [OF pos] snd_ok_ints(2) [OF ok] ok pos by (auto simp: snd_ok_def)
  have "snd_ok c'"
    using ok b send_one_off [OF ok pos] by (simp add: c' snd_ok_def snd_off_def)
  moreover have "pk = snd (tcp_xmit_seq ip c (PSH OR ACK) (c_snd_nxt c)
      (sndbuf_slice c (sint (c_snd_nxt c - c_snd_base c)) (snd_next_seg c)))"
    using one by (auto simp: tcp_send_one_def Let_def split: prod.splits)
  ultimately show ?thesis
    using xmit_wire [of ip c "PSH OR ACK" "c_snd_nxt c" "sndbuf_slice c (sint (c_snd_nxt c - c_snd_base c)) (snd_next_seg c)"] b
    by (auto simp: sndbuf_slice_def snd_ok_ints(3) [OF ok])
qed

text \<open>
  C26. The send loop: it transmits \<open>m\<close> bytes, exactly the next unsent bytes of the chunk and none
  past its end, in consecutive segments of at most an MSS starting at \<open>snd_nxt\<close>; if it sends
  anything, all the unacknowledged bytes fit in the smaller of the congestion window and the peer's
  window; it stops only when the next segment must wait, and the chunk stays inside the buffer.
\<close>
theorem tcp_send_window_spec:
  assumes "snd_ok c" "tcp_send_window ip now c = (sent, c', pks)"
  shows "\<exists>m. c_snd_nxt c' = c_snd_nxt c + of_nat m \<and> (sent \<longleftrightarrow> 0 < m) \<and>
    snd_off c (c_snd_nxt c) + m \<le> c_snd_len c \<and>
    segs_carry pks (c_snd_nxt c) (take m (drop (snd_off c (c_snd_nxt c)) (c_sndbuf c))) \<and>
    (sent \<longrightarrow> snd_inflight c' \<le> min (uint (c_snd_wnd c)) (uint (tcp_cc_cwnd (c_cc c)))) \<and>
    snd_next_seg c' \<le> 0 \<and> snd_ok c'"
  using assms
proof (induction ip now c arbitrary: sent c' pks rule: tcp_send_window.induct)
  case (1 ip now c)
  show ?case
  proof (cases "snd_next_seg c \<le> 0")
    case True
    with 1 show ?thesis by (intro exI [of _ 0]) (auto simp: tcp_send_window.simps [of ip now c] snd_ok_def)
  next
    case False
    note ok = "1.prems"(1)
    obtain d pk where one: "tcp_send_one ip now c = (d, pk)" by force
    obtain s2 e pks' where rest: "tcp_send_window ip now d = (s2, e, pks')" by (metis prod_cases3)
    have res: "sent" "c' = e" "pks = pk @ pks'"
      using "1.prems"(2) False by (auto simp: tcp_send_window.simps [of ip now c] one rest)
    define k where "k = nat (snd_next_seg c)"
    have k: "0 < k" "snd_next_seg c = int k" using False by (simp_all add: k_def)
    have d: "d = fst (tcp_send_one ip now c)" by (simp add: one)
    have dn: "c_snd_nxt d = c_snd_nxt c + of_nat k" by (simp add: d k)
    have off: "snd_off d (c_snd_nxt d) = snd_off c (c_snd_nxt c) + k"
      using send_one_off [OF ok] k by (simp add: dn) (simp add: d snd_off_def)
    have kpos: "0 < snd_next_seg c" using k by simp
    from send_one_spec [OF ok kpos one, unfolded k(2) nat_int] obtain sg h where pk: "pk = [(c_rip c, 6, sg)]" "tcp_parse sg = Some h"
      "h_seq h = c_snd_nxt c" "h_data h = take k (drop (snd_off c (c_snd_nxt c)) (c_sndbuf c))"
      "length (h_data h) = k" and okd: "snd_ok d" by blast
    from "1.IH" [OF False one [symmetric] okd rest] obtain m where
      m: "c_snd_nxt e = c_snd_nxt d + of_nat m" "s2 \<longleftrightarrow> 0 < m" "snd_off d (c_snd_nxt d) + m \<le> c_snd_len d"
      "segs_carry pks' (c_snd_nxt d) (take m (drop (snd_off d (c_snd_nxt d)) (c_sndbuf d)))"
      "s2 \<longrightarrow> snd_inflight e \<le> min (uint (c_snd_wnd d)) (uint (tcp_cc_cwnd (c_cc d)))"
      "snd_next_seg e \<le> 0" "snd_ok e" by blast
    have mss: "k \<le> TCP_MSS" using next_seg_bounds [of c] k by simp
    have win: "snd_win c \<le> min (uint (c_snd_wnd c)) (uint (tcp_cc_cwnd (c_cc c)))"
      by (auto simp: snd_win_def Let_def sint_u32)
    have infl: "snd_inflight d \<le> snd_win c"
    proof -
      have "snd_inflight d = snd_inflight c + int k"
      proof -
        have "snd_off d (c_snd_una d) = snd_off c (c_snd_una c)" by (simp add: d snd_off_def)
        then show ?thesis using snd_ok_ints(1) [OF okd] snd_ok_ints(1) [OF ok] off by linarith
      qed
      then show ?thesis using next_seg_bounds [of c] k by simp
    qed
    have s0: "\<not> s2 \<Longrightarrow> e = d"
      using rest by (auto simp: tcp_send_window.simps [of ip now d] split: if_splits prod.splits)
    have "segs_carry pks (c_snd_nxt c) (take (k + m) (drop (snd_off c (c_snd_nxt c)) (c_sndbuf c)))"
    proof -
      let ?b = "drop (snd_off c (c_snd_nxt c)) (c_sndbuf c)"
      have "drop k (take (k + m) ?b) = take m (drop (snd_off d (c_snd_nxt d)) (c_sndbuf d))"
        by (simp add: off drop_take add.commute) (simp add: d)
      moreover have "take k (take (k + m) ?b) = h_data h" by (simp add: pk(4))
      ultimately show ?thesis using m(4) k mss pk(2,3,5) dn by (auto simp: res pk(1))
    qed
    moreover have "snd_inflight e \<le> min (uint (c_snd_wnd c)) (uint (tcp_cc_cwnd (c_cc c)))"
      using m(5) infl win s0 by (cases s2) (auto simp: d)
    ultimately show ?thesis
      using m off dn k by (intro exI [of _ "k + m"]) (simp add: res d)
  qed
qed

definition demo_sender :: tcp_conn where
  "demo_sender = demo_conn\<lparr>c_sndbuf := map of_nat [0..<TCP_SNDBUF], c_snd_base := 101, c_snd_len := 3000\<rparr>"

lemma demo_sender_fields:
  "c_snd_nxt demo_sender = 101" "c_snd_len demo_sender = 3000" "c_snd_wnd demo_sender = 8192"
  "snd_off demo_sender 101 = 0" "c_sndbuf demo_sender = map of_nat [0..<TCP_SNDBUF]" "snd_inflight demo_sender = 0"
  by (simp_all add: demo_sender_def demo_conn_def snd_off_def snd_inflight_def)

theorem tcp_send_window_spec_witness:
  "\<exists>m. c_snd_nxt (fst (snd (tcp_send_window 2 0 demo_sender))) = 101 + of_nat m \<and> m \<le> 3000 \<and>
    snd_inflight (fst (snd (tcp_send_window 2 0 demo_sender))) \<le> 8192 \<and>
    segs_carry (snd (snd (tcp_send_window 2 0 demo_sender))) 101 (take m (map of_nat [0..<TCP_SNDBUF]))"
proof -
  have ok: "snd_ok demo_sender"
    by (simp add: demo_sender_def demo_conn_def snd_ok_def snd_off_def TCP_SNDBUF_def)
  obtain sent c' pks where eq: "tcp_send_window 2 0 demo_sender = (sent, c', pks)" by (metis prod_cases3)
  from tcp_send_window_spec [OF ok eq] obtain m where
    m: "c_snd_nxt c' = c_snd_nxt demo_sender + of_nat m" "sent \<longleftrightarrow> 0 < m"
      "snd_off demo_sender (c_snd_nxt demo_sender) + m \<le> c_snd_len demo_sender"
      "segs_carry pks (c_snd_nxt demo_sender) (take m (drop (snd_off demo_sender (c_snd_nxt demo_sender)) (c_sndbuf demo_sender)))"
      "sent \<longrightarrow> snd_inflight c' \<le> min (uint (c_snd_wnd demo_sender)) (uint (tcp_cc_cwnd (c_cc demo_sender)))" by blast
  have "\<not> sent \<Longrightarrow> c' = demo_sender"
    using eq by (auto simp: tcp_send_window.simps [of 2 0 demo_sender] split: if_splits prod.splits)
  then have "snd_inflight c' \<le> 8192"
    using m(5) by (cases sent) (auto simp: demo_sender_fields)
  with m show ?thesis
    by (intro exI [of _ m]) (simp add: eq demo_sender_fields)
qed

subsection \<open>Calls that wait come back\<close>

lemma connect_loop_returns:
  "\<exists>tk\<in>set tks. \<not> tk_time tk 0 - start < 5000000 \<Longrightarrow>
     tcp_connect_loop ip i isn start ltx retx tks s \<noteq> None"
proof (induction tks arbitrary: ltx retx s)
  case (Cons tk tks)
  then show ?case by (cases "\<not> tk_time tk 0 - start < 5000000") (auto simp: Let_def)
qed simp

lemma flush_loop_returns:
  "\<exists>tk\<in>set tks. \<not> tk_time tk 0 - start < 30000000 \<Longrightarrow>
     tcp_flush_loop ip i e start ltx tks s \<noteq> None"
proof (induction tks arbitrary: ltx s)
  case (Cons tk tks)
  then show ?case
    by (cases "\<not> tk_time tk 0 - start < 30000000") (auto simp: Let_def split: prod.split)
qed simp

lemma tcp_input_length: "length (fst (tcp_input ip now src sg cs)) = length cs"
  by (auto simp: tcp_input_def tcp_input_nomatch_def tcp_new_def Let_def split: option.split prod.split)

lemma pump_length [simp]: "length (ts_conns (pump ip tk s)) = length (ts_conns s)"
proof -
  have "length (ts_conns (pump_segs ip segs s)) = length (ts_conns s)" for segs
  proof (induction ip segs s rule: pump_segs.induct)
    case (2 our_ip now src sg rest s)
    obtain cs pk where eq: "tcp_input our_ip now src sg (ts_conns s) = (cs, pk)" by force
    with tcp_input_length [of our_ip now src sg "ts_conns s"] have "length cs = length (ts_conns s)" by simp
    with 2 [OF eq [symmetric]] show ?case by (simp add: eq)
  qed simp
  then show ?thesis by (simp add: pump_def)
qed

lemma close_loop_returns:
  "\<exists>tk\<in>set tks. \<not> tk_time tk 0 - start < 3000000 \<Longrightarrow>
     \<exists>s'. tcp_close_loop ip i start tks s = Some s' \<and>
       (i < length (ts_conns s) \<longrightarrow> length (ts_conns s') = length (ts_conns s) \<and> \<not> c_used (ts_conn s' i))"
proof (induction tks arbitrary: s)
  case (Cons tk tks)
  show ?case
  proof (cases "tk_time tk 0 - start < 3000000 \<and> c_state (ts_conn s i) \<noteq> CLOSED \<and> \<not> c_reset (ts_conn s i)")
    case True
    with Cons.prems have "\<exists>tk\<in>set tks. \<not> tk_time tk 0 - start < 3000000" by auto
    note IH = Cons.IH [OF this]
    obtain s1 where "tcp_close_loop ip i start (tk # tks) s = tcp_close_loop ip i start tks s1"
      "length (ts_conns s1) = length (ts_conns s)"
      using True by (simp add: Let_def ts_set_def)
    with IH [of s1] show ?thesis by simp
  next
    case False
    then show ?thesis by (auto simp: ts_set_def ts_conn_def)
  qed
qed simp


definition demo_tick :: "u64 \<Rightarrow> tick" where
  "demo_tick t = \<lparr>tk_start = 1000, tk_time = (\<lambda>_. t), tk_segs = [], tk_intr = False\<rparr>"

definition demo_sys :: tcp_sys where
  "demo_sys = \<lparr>ts_conns = [demo_conn], ts_next_lport = 40000, ts_out = []\<rparr>"


subsection \<open>A chunk given up\<close>

text \<open>
  When the 30 seconds of a flush pass without the acknowledgement, the next chunk starts past
  \<open>snd_una\<close>: the retransmission of the oldest unacknowledged byte then computes a negative offset,
  so that the C code reads in front of \<open>sndbuf\<close>.
\<close>
theorem tcp_giveup_offset:
  assumes "0 < sint (c_snd_nxt c - c_snd_una c)"
  shows "sint (c_snd_una (load_chunk bs c) - c_snd_base (load_chunk bs c)) < 0"
proof -
  have "sint (c_snd_una c - c_snd_nxt c) = sint (- (c_snd_nxt c - c_snd_una c))" by simp
  also have "\<dots> < 0"
  proof -
    let ?x = "c_snd_nxt c - c_snd_una c"
    have "0 < uint ?x" "uint ?x < 2147483648"
      using assms uint_lt2p [of ?x] by (auto simp: sint_u32 split: if_splits)
    moreover from this have "uint (- ?x) = 4294967296 - uint ?x"
      by (simp add: uint_word_ariths zmod_zminus1_eq_if del: minus_diff_eq)
    ultimately show ?thesis by (simp add: sint_u32 del: minus_diff_eq)
  qed
  finally show ?thesis by (simp add: load_chunk_def)
qed

end
