(* ===== verification/Pmm.thy ===== *)
theory Pmm
  imports Prelude
begin

text \<open>
  The physical memory manager, \<open>src/pmm.c\<close>: a frontier that sweeps through unused RAM and a free
  list of returned pages, whose links live in the first word of the free pages themselves.

  Physical RAM is the function \<open>mem\<close>: \<open>mem s p i\<close> is the 64-bit word number \<open>i\<close> (0 to 511) of the
  page at address \<open>p\<close>. Every pointer the page-granular code follows is page aligned, so a C access
  \<open>((uint64_t *)p)[i]\<close> is \<open>mem s p i\<close>, and the stored link of a free page is \<open>mem s p 0\<close>. The walk in
  \<open>pmm_free\<close> follows those links and would not end on a cyclic list, so it is a partial function.
\<close>

subsection \<open>State and operations\<close>

record pmm =
  mem :: "u64 \<Rightarrow> nat \<Rightarrow> u64"
  bump :: u64
  free_list :: u64

definition PAGE_SIZE :: u64 where "PAGE_SIZE = 4096"
definition RAM_END :: u64 where "RAM_END = 0x50000000"

definition align_up :: "u64 \<Rightarrow> u64 \<Rightarrow> u64" where
  "align_up x a = (x + a - 1) AND NOT (a - 1)"

definition store :: "u64 \<Rightarrow> nat \<Rightarrow> u64 \<Rightarrow> 'a pmm_scheme \<Rightarrow> 'a pmm_scheme" where
  "store p i v s = s\<lparr>mem := (mem s)(p := (mem s p)(i := v))\<rparr>"

definition pmm_init :: "u64 \<Rightarrow> 'a pmm_scheme \<Rightarrow> 'a pmm_scheme" where
  "pmm_init kernel_end s = s\<lparr>bump := align_up kernel_end PAGE_SIZE, free_list := 0\<rparr>"

definition pmm_alloc :: "'a pmm_scheme \<Rightarrow> u64 \<times> 'a pmm_scheme" where
  "pmm_alloc s =
    (if free_list s \<noteq> 0
     then (let page = free_list s in (page, s\<lparr>free_list := mem s page 0\<rparr>))
     else if bump s + PAGE_SIZE > RAM_END then (0, s)
     else (bump s, s\<lparr>bump := bump s + PAGE_SIZE\<rparr>))"

definition pmm_alloc_pages :: "u64 \<Rightarrow> 'a pmm_scheme \<Rightarrow> u64 \<times> 'a pmm_scheme" where
  "pmm_alloc_pages n s =
    (let bytes = n * PAGE_SIZE in
     if bump s + bytes > RAM_END then (0, s)
     else (bump s, s\<lparr>bump := bump s + bytes\<rparr>))"

partial_function (option) on_free_list :: "(u64 \<Rightarrow> nat \<Rightarrow> u64) \<Rightarrow> u64 \<Rightarrow> u64 \<Rightarrow> bool option" where
  "on_free_list m p page =
    (if p = 0 then Some False
     else if p = page then Some True
     else on_free_list m (m p 0) page)"

definition pmm_free :: "u64 \<Rightarrow> 'a pmm_scheme \<Rightarrow> 'a pmm_scheme option" where
  "pmm_free page s =
    (case on_free_list (mem s) (free_list s) page of
       None \<Rightarrow> None
     | Some True \<Rightarrow> Some s
     | Some False \<Rightarrow> Some ((store page 0 (free_list s) s)\<lparr>free_list := page\<rparr>))"

lemma store_simps [simp]:
  "bump (store p i v s) = bump s" "free_list (store p i v s) = free_list s"
  "mem (store p i v s) = (mem s)(p := (mem s p)(i := v))"
  "pmm.more (store p i v s) = pmm.more s"
  by (simp_all add: store_def)

subsection \<open>The free list as a list, and the partition of RAM\<close>

primrec links :: "(u64 \<Rightarrow> nat \<Rightarrow> u64) \<Rightarrow> u64 \<Rightarrow> u64 list \<Rightarrow> bool" where
  "links m p [] \<longleftrightarrow> p = 0"
| "links m p (x # xs) \<longleftrightarrow> p = x \<and> x \<noteq> 0 \<and> links m (m x 0) xs"

definition frames :: "u64 \<Rightarrow> u64 \<Rightarrow> u64 set" where
  "frames lo hi = {p. lo \<le> p \<and> p < hi \<and> 4096 dvd unat p}"

text \<open>
  \<open>pmm_inv lo s live\<close>: the pages between the end of the kernel image and the frontier are exactly
  the pages in use, \<open>live\<close>, and the pages of the free list, and no page is both or listed twice.
\<close>

definition pmm_inv :: "u64 \<Rightarrow> 'a pmm_scheme \<Rightarrow> u64 set \<Rightarrow> bool" where
  "pmm_inv lo s live \<longleftrightarrow>
    (\<exists>fl. links (mem s) (free_list s) fl \<and> distinct fl \<and> set fl \<inter> live = {} \<and>
          set fl \<union> live = frames lo (bump s)) \<and>
    0 < lo \<and> lo \<le> bump s \<and> bump s \<le> RAM_END \<and> 4096 dvd unat (bump s) \<and> 4096 dvd unat lo"

lemma links_cong: "(\<And>x. x \<in> set xs \<Longrightarrow> m x 0 = m' x 0) \<Longrightarrow> links m p xs = links m' p xs"
  by (induction xs arbitrary: p) auto

lemma links_upd: "x \<notin> set xs \<Longrightarrow> links (m(x := w)) p xs = links m p xs"
  by (rule links_cong) auto

lemma on_free_list_links: "links m p xs \<Longrightarrow> on_free_list m p page = Some (page \<in> set xs)"
proof (induction xs arbitrary: p)
  case Nil
  then show ?case by (subst on_free_list.simps) simp
next
  case (Cons x xs)
  then show ?case by (subst on_free_list.simps) auto
qed

lemma frames_step:
  assumes "4096 dvd unat b" "b + PAGE_SIZE \<le> RAM_END" "b \<le> RAM_END" "lo \<le> b"
  shows "frames lo (b + PAGE_SIZE) = insert b (frames lo b)" "b \<notin> frames lo b"
    "4096 dvd unat (b + PAGE_SIZE)" "b \<le> b + PAGE_SIZE"
proof -
  have bb: "unat b \<le> 0x50000000" using assms(3) by (simp add: RAM_END_def word_le_nat_alt)
  then have ub: "unat (b + PAGE_SIZE) = unat b + 4096"
    by (simp add: PAGE_SIZE_def unat_word_ariths)
  show "b \<le> b + PAGE_SIZE" by (simp add: word_le_nat_alt ub)
  show "4096 dvd unat (b + PAGE_SIZE)" using assms(1) by (simp add: ub)
  show "b \<notin> frames lo b" by (simp add: frames_def)
  have "p < b + PAGE_SIZE \<longleftrightarrow> p = b \<or> p < b" if p4: "4096 dvd unat p" for p
  proof -
    have "unat p < unat b + 4096 \<longleftrightarrow> unat p = unat b \<or> unat p < unat b"
    proof -
      obtain j where "unat p = 4096 * j" using p4 by (auto simp: dvd_def)
      moreover obtain k where "unat b = 4096 * k" using assms(1) by (auto simp: dvd_def)
      ultimately show ?thesis by auto
    qed
    then show ?thesis by (simp add: word_less_nat_alt ub word_unat_eq_iff)
  qed
  then show "frames lo (b + PAGE_SIZE) = insert b (frames lo b)"
    using assms(1,4) by (auto simp: frames_def)
qed

lemma pmm_inv_cong:
  "bump s' = bump s \<Longrightarrow> free_list s' = free_list s \<Longrightarrow>
   (\<And>p. p \<notin> live \<Longrightarrow> mem s' p 0 = mem s p 0) \<Longrightarrow> pmm_inv lo s live \<Longrightarrow> pmm_inv lo s' live"
  unfolding pmm_inv_def
  by (metis disjoint_iff links_cong)

text \<open>A store to a page in use leaves the manager's structures alone.\<close>

lemma pmm_inv_store: "pmm_inv lo s live \<Longrightarrow> p \<in> live \<Longrightarrow> pmm_inv lo (store p i v s) live"
  by (rule pmm_inv_cong [where s = s]) auto

lemma pmm_inv_frame: "pmm_inv lo s live \<Longrightarrow> p \<in> live \<Longrightarrow> 4096 dvd unat p \<and> lo \<le> p \<and> p < bump s \<and> p \<noteq> 0"
  by (auto simp: pmm_inv_def frames_def)

lemma pmm_alloc_cases:
  assumes "pmm_inv lo s live" "pmm_alloc s = (p, s')"
  shows "(p = 0 \<and> s' = s \<and> free_list s = 0 \<and> bump s = RAM_END \<and> live = frames lo RAM_END) \<or>
    (p \<noteq> 0 \<and> p \<notin> live \<and> pmm_inv lo s' (insert p live) \<and> mem s' = mem s \<and> bump s \<le> bump s')"
proof -
  obtain fl where fl: "links (mem s) (free_list s) fl" "distinct fl" "set fl \<inter> live = {}"
      "set fl \<union> live = frames lo (bump s)"
    and b: "0 < lo" "lo \<le> bump s" "bump s \<le> RAM_END" "4096 dvd unat (bump s)" "4096 dvd unat lo"
    using assms(1) by (auto simp: pmm_inv_def)
  show ?thesis
  proof (cases "free_list s \<noteq> 0")
    case True
    then obtain xs where xs: "fl = free_list s # xs" using fl(1) by (cases fl) auto
    have s': "p = free_list s" "s' = s\<lparr>free_list := mem s (free_list s) 0\<rparr>"
      using assms(2) True by (auto simp: pmm_alloc_def Let_def)
    have "pmm_inv lo s' (insert p live)"
      unfolding pmm_inv_def using fl b xs s' by (intro conjI exI [of _ xs]) auto
    then show ?thesis using s' True xs fl by auto
  next
    case False
    then have "fl = []" using fl(1) by (cases fl) auto
    then have live: "live = frames lo (bump s)" using fl by simp
    show ?thesis
    proof (cases "bump s + PAGE_SIZE > RAM_END")
      case True
      have ub: "unat (bump s) \<le> 0x50000000" using b(3) by (simp add: RAM_END_def word_le_nat_alt)
      then have "unat (bump s + PAGE_SIZE) = unat (bump s) + 4096"
        by (simp add: PAGE_SIZE_def unat_word_ariths)
      then have "unat (bump s) + 4096 > 0x50000000"
        using True by (simp add: RAM_END_def word_less_nat_alt)
      with ub b(4) have "unat (bump s) = 0x50000000" by (auto elim!: dvdE)
      then have "bump s = RAM_END" by (simp add: word_unat_eq_iff RAM_END_def)
      then show ?thesis using True False assms(2) live by (simp add: pmm_alloc_def)
    next
      case nf: False
      then have s': "p = bump s" "s' = s\<lparr>bump := bump s + PAGE_SIZE\<rparr>"
        using assms(2) False by (auto simp: pmm_alloc_def)
      note fs = frames_step [OF b(4) _ b(3,2)]
      have le: "bump s + PAGE_SIZE \<le> RAM_END" using nf by simp
      have "pmm_inv lo s' (insert p live)"
        unfolding pmm_inv_def using b fl(1) \<open>fl = []\<close> s' fs [OF le] le live
        by (intro conjI exI [of _ "[]"]) (auto intro: order_trans)
      then show ?thesis using s' fs [OF le] live b by auto
    qed
  qed
qed

lemma pmm_free_live:
  assumes "pmm_inv lo s live" "p \<in> live"
  shows "\<exists>s'. pmm_free p s = Some s' \<and> pmm_inv lo s' (live - {p}) \<and> free_list s' = p \<and>
    bump s' = bump s \<and> pmm.more s' = pmm.more s \<and> mem s' = (mem s)(p := (mem s p)(0 := free_list s))"
proof -
  obtain fl where fl: "links (mem s) (free_list s) fl" "distinct fl" "set fl \<inter> live = {}"
      "set fl \<union> live = frames lo (bump s)"
    and b: "0 < lo" "lo \<le> bump s" "bump s \<le> RAM_END" "4096 dvd unat (bump s)" "4096 dvd unat lo"
    using assms(1) by (auto simp: pmm_inv_def)
  have np: "p \<notin> set fl" and p0: "p \<noteq> 0"
    using fl(3) assms pmm_inv_frame [OF assms] by auto
  let ?s = "(store p 0 (free_list s) s)\<lparr>free_list := p\<rparr>"
  have "pmm_inv lo ?s (live - {p})"
    unfolding pmm_inv_def
  proof (intro conjI exI [of _ "p # fl"])
    show "links (mem ?s) (free_list ?s) (p # fl)" using fl(1) np p0 by (simp add: links_upd)
  qed (use fl b np assms in auto)
  moreover have "pmm_free p s = Some ?s"
    using on_free_list_links [OF fl(1), of p] np by (simp add: pmm_free_def)
  ultimately show ?thesis by auto
qed

lemma pmm_free_twice:
  assumes "pmm_inv lo s live" "p \<in> frames lo (bump s) - live"
  shows "pmm_free p s = Some s"
proof -
  obtain fl where fl: "links (mem s) (free_list s) fl" "set fl \<union> live = frames lo (bump s)"
    using assms(1) by (auto simp: pmm_inv_def)
  have "p \<in> set fl" using fl(2) assms(2) by auto
  then show ?thesis using on_free_list_links [OF fl(1), of p] by (simp add: pmm_free_def)
qed

lemma frames_run:
  assumes "4096 dvd unat b" "b \<le> RAM_END" "lo \<le> b" "unat n * 4096 \<le> 0x50000000" "b + n * PAGE_SIZE \<le> RAM_END"
  shows "frames lo (b + n * PAGE_SIZE) = frames lo b \<union> frames b (b + n * PAGE_SIZE)"
    "frames lo b \<inter> frames b (b + n * PAGE_SIZE) = {}"
    "unat (b + n * PAGE_SIZE) = unat b + unat n * 4096" "b \<le> b + n * PAGE_SIZE"
    "4096 dvd unat (b + n * PAGE_SIZE)"
proof -
  have bb: "unat b \<le> 0x50000000" using assms(2) by (simp add: RAM_END_def word_le_nat_alt)
  have "unat (n * PAGE_SIZE) = unat n * 4096" using assms(4) by (simp add: PAGE_SIZE_def unat_word_ariths)
  then show u: "unat (b + n * PAGE_SIZE) = unat b + unat n * 4096"
    using bb assms(4) by (simp add: unat_word_ariths)
  show le: "b \<le> b + n * PAGE_SIZE" by (simp add: word_le_nat_alt u)
  show "frames lo (b + n * PAGE_SIZE) = frames lo b \<union> frames b (b + n * PAGE_SIZE)"
    using assms(3) le by (auto simp: frames_def)
  show "frames lo b \<inter> frames b (b + n * PAGE_SIZE) = {}" by (auto simp: frames_def)
  show "4096 dvd unat (b + n * PAGE_SIZE)" using assms(1) by (simp add: u)
qed

lemma pmm_alloc_pages_cases:
  assumes "pmm_inv lo s live" "pmm_alloc_pages n s = (p, s')" "unat n * 4096 \<le> 0x50000000"
  shows "(p = 0 \<and> s' = s \<and> unat (bump s) + unat n * 4096 > 0x50000000) \<or>
    (p = bump s \<and> p \<noteq> 0 \<and> mem s' = mem s \<and> free_list s' = free_list s \<and> pmm.more s' = pmm.more s \<and>
     unat (bump s') = unat (bump s) + unat n * 4096 \<and> bump s \<le> bump s' \<and>
     live \<inter> frames p (bump s') = {} \<and> pmm_inv lo s' (live \<union> frames p (bump s')))"
proof -
  obtain fl where fl: "links (mem s) (free_list s) fl" "distinct fl" "set fl \<inter> live = {}"
      "set fl \<union> live = frames lo (bump s)"
    and b: "0 < lo" "lo \<le> bump s" "bump s \<le> RAM_END" "4096 dvd unat (bump s)" "4096 dvd unat lo"
    using assms(1) by (auto simp: pmm_inv_def)
  have ub: "unat (bump s) \<le> 0x50000000" using b(3) by (simp add: RAM_END_def word_le_nat_alt)
  have un: "unat (n * PAGE_SIZE) = unat n * 4096" using assms(3) by (simp add: PAGE_SIZE_def unat_word_ariths)
  then have u: "unat (bump s + n * PAGE_SIZE) = unat (bump s) + unat n * 4096"
    using ub assms(3) by (simp add: unat_word_ariths)
  show ?thesis
  proof (cases "bump s + n * PAGE_SIZE > RAM_END")
    case True
    then have "unat (bump s) + unat n * 4096 > 0x50000000"
      using u by (simp add: RAM_END_def word_less_nat_alt)
    with True assms(2) show ?thesis by (auto simp: pmm_alloc_pages_def)
  next
    case False
    then have s': "p = bump s" "s' = s\<lparr>bump := bump s + n * PAGE_SIZE\<rparr>"
      using assms(2) by (auto simp: pmm_alloc_pages_def Let_def)
    have le: "bump s + n * PAGE_SIZE \<le> RAM_END" using False by simp
    note fr = frames_run [OF b(4,3,2) assms(3) le]
    have d: "live \<inter> frames p (bump s') = {}" "set fl \<inter> frames p (bump s') = {}"
      using fr(2) fl(4) s' by auto
    have "set fl \<union> (live \<union> frames p (bump s')) = frames lo (bump s')"
      using fr(1) fl(4) s' by auto
    then have "pmm_inv lo s' (live \<union> frames p (bump s'))"
      unfolding pmm_inv_def using fl b s' fr d le
      by (intro conjI exI [of _ fl]) (auto intro: order_trans)
    moreover have "p \<noteq> 0" using b(1,2) s' by auto
    ultimately show ?thesis using s' fr d by auto
  qed
qed

subsection \<open>Runs of the manager\<close>

text \<open>
  The kernel's use of the manager: pages are allocated, written while in use, and given back while
  in use; a page that is already free may be given back by mistake.
\<close>

inductive pmm_reach :: "u64 \<Rightarrow> pmm \<Rightarrow> u64 set \<Rightarrow> bool" for kernel_end where
  init: "pmm_reach kernel_end (pmm_init kernel_end s) {}"
| alloc: "pmm_reach kernel_end s live \<Longrightarrow> pmm_alloc s = (p, s') \<Longrightarrow> p \<noteq> 0 \<Longrightarrow>
    pmm_reach kernel_end s' (insert p live)"
| alloc_pages: "pmm_reach kernel_end s live \<Longrightarrow> pmm_alloc_pages n s = (p, s') \<Longrightarrow> p \<noteq> 0 \<Longrightarrow>
    n \<le> 0x50000 \<Longrightarrow> pmm_reach kernel_end s' (live \<union> frames p (bump s'))"
| fill: "pmm_reach kernel_end s live \<Longrightarrow> p \<in> live \<Longrightarrow> pmm_reach kernel_end (store p i v s) live"
| free: "pmm_reach kernel_end s live \<Longrightarrow> p \<in> live \<Longrightarrow> pmm_free p s = Some s' \<Longrightarrow>
    pmm_reach kernel_end s' (live - {p})"
| free_twice: "pmm_reach kernel_end s live \<Longrightarrow> p \<in> frames (align_up kernel_end PAGE_SIZE) (bump s) - live \<Longrightarrow>
    pmm_free p s = Some s' \<Longrightarrow> pmm_reach kernel_end s' live"

lemma align_up_page:
  assumes "kernel_end \<le> RAM_END"
  shows "4096 dvd unat (align_up kernel_end PAGE_SIZE)" "kernel_end \<le> align_up kernel_end PAGE_SIZE"
    "align_up kernel_end PAGE_SIZE \<le> RAM_END"
proof -
  have k: "unat kernel_end \<le> 0x50000000" using assms by (simp add: RAM_END_def word_le_nat_alt)
  have "unat (align_up kernel_end PAGE_SIZE) = unat (kernel_end + 4095) div 4096 * 4096"
  proof -
    have "kernel_end + 4096 - 1 = kernel_end + 4095" "(4096 :: u64) - 1 = 4095" by simp_all
    then show ?thesis by (simp only: align_up_def PAGE_SIZE_def unat_page_mask)
  qed
  then have e: "unat (align_up kernel_end PAGE_SIZE) = (unat kernel_end + 4095) div 4096 * 4096"
    using k by (simp add: unat_word_ariths)
  show "4096 dvd unat (align_up kernel_end PAGE_SIZE)" by (simp add: e)
  show "kernel_end \<le> align_up kernel_end PAGE_SIZE" by (simp add: word_le_nat_alt e)
  show "align_up kernel_end PAGE_SIZE \<le> RAM_END" using k by (simp add: word_le_nat_alt e RAM_END_def)
qed

lemma pmm_reach_inv:
  assumes "pmm_reach kernel_end s live" "0 < kernel_end" "kernel_end \<le> RAM_END"
  shows "pmm_inv (align_up kernel_end PAGE_SIZE) s live"
  using assms(1)
proof (induction rule: pmm_reach.induct)
  case (init s)
  show ?case unfolding pmm_inv_def
    using align_up_page [OF assms(3)] assms(2) by (auto simp: pmm_init_def frames_def intro!: exI [of _ "[]"])
next
  case (alloc s live p s')
  then show ?case using pmm_alloc_cases by blast
next
  case (alloc_pages s live n p s')
  have "unat n \<le> 0x50000" using alloc_pages.hyps by (simp add: word_le_nat_alt)
  then show ?case using pmm_alloc_pages_cases [OF alloc_pages.IH alloc_pages.hyps(2)] alloc_pages.hyps by auto
next
  case (fill s live p i v)
  then show ?case by (simp add: pmm_inv_store)
next
  case (free s live p s')
  then show ?case using pmm_free_live [OF free.IH free.hyps(2)] by auto
next
  case (free_twice s live p s')
  then show ?case using pmm_free_twice [OF free_twice.IH] by fastforce
qed

lemma pmm_no_alias_parts:
  assumes "pmm_reach kernel_end s live" "0 < kernel_end" "kernel_end \<le> RAM_END"
  shows "case pmm_alloc s of (p, s') \<Rightarrow>
      (if p = 0 then s' = s \<and> live = frames (align_up kernel_end PAGE_SIZE) RAM_END
       else p \<notin> live \<and> 4096 dvd unat p \<and> kernel_end \<le> p \<and> p < RAM_END \<and> mem s' = mem s)"
    "n \<le> 0x50000 \<Longrightarrow> case pmm_alloc_pages n s of (p, s') \<Rightarrow>
      (if p = 0 then s' = s \<and> RAM_END < bump s + n * PAGE_SIZE
       else live \<inter> frames p (p + n * PAGE_SIZE) = {} \<and> kernel_end \<le> p \<and> p + n * PAGE_SIZE \<le> RAM_END)"
proof -
  note inv = pmm_reach_inv [OF assms]
  note au = align_up_page [OF assms(3)]
  obtain p s' where a: "pmm_alloc s = (p, s')" by fastforce
  have bnd: "pmm_inv (align_up kernel_end PAGE_SIZE) t L \<Longrightarrow> q \<in> L \<Longrightarrow> 4096 dvd unat q \<and> kernel_end \<le> q \<and> q < RAM_END"
    for L q and t :: pmm
    using au by (auto simp: pmm_inv_def frames_def dest: order_trans order_less_le_trans)
  show "case pmm_alloc s of (p, s') \<Rightarrow>
      (if p = 0 then s' = s \<and> live = frames (align_up kernel_end PAGE_SIZE) RAM_END
       else p \<notin> live \<and> 4096 dvd unat p \<and> kernel_end \<le> p \<and> p < RAM_END \<and> mem s' = mem s)"
    using pmm_alloc_cases [OF inv a] bnd [of s' "insert p live" p] by (auto simp: a)
  assume n: "n \<le> 0x50000"
  then have un: "unat n * 4096 \<le> 0x50000000" by (simp add: word_le_nat_alt)
  obtain q t where b: "pmm_alloc_pages n s = (q, t)" by fastforce
  have "q \<noteq> 0 \<Longrightarrow> bump t = q + n * PAGE_SIZE \<and> q = bump s"
    "q = 0 \<Longrightarrow> bump s \<noteq> 0 \<Longrightarrow> RAM_END < bump s + n * PAGE_SIZE"
    using b by (auto simp: pmm_alloc_pages_def Let_def split: if_splits)
  moreover have "kernel_end \<le> bump s" "bump s \<noteq> 0"
    using inv au assms(2) by (auto simp: pmm_inv_def)
  ultimately show "case pmm_alloc_pages n s of (p, s') \<Rightarrow>
      (if p = 0 then s' = s \<and> RAM_END < bump s + n * PAGE_SIZE
       else live \<inter> frames p (p + n * PAGE_SIZE) = {} \<and> kernel_end \<le> p \<and> p + n * PAGE_SIZE \<le> RAM_END)"
    using pmm_alloc_pages_cases [OF inv b un] by (auto simp: b pmm_inv_def)
qed

text \<open>
  C14. No page is handed out twice. In every state the kernel reaches, with any writes to the pages
  in use and any number of pages given back twice by mistake, \<open>pmm_alloc\<close> returns a page-aligned
  page of RAM above the kernel image that is not in use, and it returns NULL only when every page
  of RAM is in use; a run from \<open>pmm_alloc_pages\<close> is disjoint from the pages in use.
\<close>

theorem pmm_no_alias:
  assumes "pmm_reach kernel_end s live" "0 < kernel_end" "kernel_end \<le> RAM_END"
  shows "(case pmm_alloc s of (p, s') \<Rightarrow>
      (if p = 0 then s' = s \<and> live = frames (align_up kernel_end PAGE_SIZE) RAM_END
       else p \<notin> live \<and> 4096 dvd unat p \<and> kernel_end \<le> p \<and> p < RAM_END \<and> mem s' = mem s)) \<and>
    (n \<le> 0x50000 \<longrightarrow> (case pmm_alloc_pages n s of (p, s') \<Rightarrow>
      (if p = 0 then s' = s \<and> RAM_END < bump s + n * PAGE_SIZE
       else live \<inter> frames p (p + n * PAGE_SIZE) = {} \<and> kernel_end \<le> p \<and> p + n * PAGE_SIZE \<le> RAM_END)))"
  by (intro conjI impI; rule pmm_no_alias_parts [OF assms]; assumption?)

lemma pmm_free_spec_parts:
  assumes "pmm_reach kernel_end s live" "0 < kernel_end" "kernel_end \<le> RAM_END"
  shows "p \<in> live \<Longrightarrow> \<exists>s'. pmm_free p s = Some s' \<and> fst (pmm_alloc s') = p \<and> bump s' = bump s \<and>
      free_list (snd (pmm_alloc s')) = free_list s"
    "p \<in> frames (align_up kernel_end PAGE_SIZE) (bump s) - live \<Longrightarrow> pmm_free p s = Some s"
proof -
  note inv = pmm_reach_inv [OF assms]
  show "\<exists>s'. pmm_free p s = Some s' \<and> fst (pmm_alloc s') = p \<and> bump s' = bump s \<and>
      free_list (snd (pmm_alloc s')) = free_list s" if "p \<in> live"
    using pmm_free_live [OF inv that] pmm_inv_frame [OF inv that] by (auto simp: pmm_alloc_def)
  show "pmm_free p s = Some s" if "p \<in> frames (align_up kernel_end PAGE_SIZE) (bump s) - live"
    by (rule pmm_free_twice [OF inv that])
qed

text \<open>
  Giving a page back always returns. A page in use becomes free and is the next one handed out;
  a page that is already free is recognised and nothing changes.
\<close>

theorem pmm_free_spec:
  assumes "pmm_reach kernel_end s live" "0 < kernel_end" "kernel_end \<le> RAM_END"
  shows "(p \<in> live \<longrightarrow> (\<exists>s'. pmm_free p s = Some s' \<and> fst (pmm_alloc s') = p \<and> bump s' = bump s \<and>
      free_list (snd (pmm_alloc s')) = free_list s)) \<and>
    (p \<in> frames (align_up kernel_end PAGE_SIZE) (bump s) - live \<longrightarrow> pmm_free p s = Some s)"
  by (intro conjI impI; rule pmm_free_spec_parts [OF assms]; assumption?)

text \<open>A concrete run: two pages are allocated, the first is given back.\<close>

definition ram0 :: pmm where "ram0 = \<lparr>mem = \<lambda>p i. 0, bump = 0, free_list = 0\<rparr>"

lemma run0:
  "pmm_reach 0x40100001 ((pmm_init 0x40100001 ram0)\<lparr>bump := 0x40102000\<rparr>) {0x40101000}"
proof -
  have a: "pmm_alloc (pmm_init 0x40100001 ram0) =
      (0x40101000, (pmm_init 0x40100001 ram0)\<lparr>bump := 0x40102000\<rparr>)"
    by (simp add: pmm_alloc_def pmm_init_def ram0_def align_up_def PAGE_SIZE_def RAM_END_def)
  show ?thesis using pmm_reach.alloc [OF pmm_reach.init a] by simp
qed

theorem pmm_no_alias_witness:
  "(case pmm_alloc ((pmm_init 0x40100001 ram0)\<lparr>bump := 0x40102000\<rparr>) of (p, s') \<Rightarrow>
     p \<noteq> 0x40101000 \<and> p = 0x40102000 \<and> p < RAM_END) \<and>
   (case pmm_alloc_pages 2 ((pmm_init 0x40100001 ram0)\<lparr>bump := 0x40102000\<rparr>) of (p, s') \<Rightarrow>
     p = 0x40102000 \<and> 0x40101000 \<notin> frames p (p + 2 * PAGE_SIZE))"
proof -
  have c: "pmm_alloc ((pmm_init 0x40100001 ram0)\<lparr>bump := 0x40102000\<rparr>) =
      (0x40102000, (pmm_init 0x40100001 ram0)\<lparr>bump := 0x40103000\<rparr>)"
    "pmm_alloc_pages 2 ((pmm_init 0x40100001 ram0)\<lparr>bump := 0x40102000\<rparr>) =
      (0x40102000, (pmm_init 0x40100001 ram0)\<lparr>bump := 0x40104000\<rparr>)"
    by (simp_all add: pmm_alloc_def pmm_alloc_pages_def pmm_init_def ram0_def align_up_def PAGE_SIZE_def RAM_END_def)
  have k: "0 < (0x40100001 :: u64)" "0x40100001 \<le> RAM_END" by (simp_all add: RAM_END_def)
  show ?thesis using pmm_no_alias [OF run0 k, of 2] by (simp add: c)
qed

theorem pmm_free_spec_witness:
  "\<exists>s'. pmm_free 0x40101000 ((pmm_init 0x40100001 ram0)\<lparr>bump := 0x40102000\<rparr>) = Some s' \<and>
     fst (pmm_alloc s') = 0x40101000 \<and> pmm_free 0x40101000 s' = Some s'"
proof -
  have k: "0 < (0x40100001 :: u64)" "0x40100001 \<le> RAM_END" by (simp_all add: RAM_END_def)
  obtain s' where s': "pmm_free 0x40101000 ((pmm_init 0x40100001 ram0)\<lparr>bump := 0x40102000\<rparr>) = Some s'"
    "fst (pmm_alloc s') = 0x40101000" "bump s' = 0x40102000"
    using pmm_free_spec [OF run0 k, THEN conjunct1, of "0x40101000"] by auto
  have "pmm_reach 0x40100001 s' {}" using pmm_reach.free [OF run0 _ s'(1)] by simp
  from pmm_free_spec [OF this k, THEN conjunct2, of "0x40101000"] s' show ?thesis
    by (simp add: frames_def align_up_def PAGE_SIZE_def)
qed

text \<open>
  The size computation is not checked: a request of \<open>2 ^ 52\<close> pages wraps to no bytes, so it is
  granted without reserving anything.
\<close>

lemma pmm_alloc_pages_wraps:
  assumes "bump s \<le> RAM_END"
  shows "pmm_alloc_pages (2 ^ 52) s = (bump s, s)"
proof -
  have "(2 ^ 52 :: u64) * PAGE_SIZE = 0" by (simp add: PAGE_SIZE_def)
  with assms show ?thesis by (simp add: pmm_alloc_pages_def Let_def not_less [symmetric])
qed

end
