(* ===== verification/Kheap.thy ===== *)
theory Kheap
  imports Pmm
begin

text \<open>
  The kernel heap, \<open>src/kheap.c\<close>: a first-fit allocator over one doubly linked list of chunks in
  address order, which grows by runs of pages from the physical memory manager.

  \<open>blk\<close> maps the address of a chunk header to its \<open>struct block\<close>; 0 is the null pointer. Loops
  that follow \<open>next\<close> are partial functions, since the C loops do not end on a cyclic list. Sizes are
  64-bit words, and the arithmetic on them is not checked in the source.
\<close>

subsection \<open>State and operations\<close>

record block =
  size :: u64
  is_free :: bool
  nxt :: u64
  prv :: u64

record kheap = pmm +
  blk :: "u64 \<Rightarrow> block"
  head :: u64

definition HDR :: u64 where "HDR = 32"

definition ALIGN8 :: "u64 \<Rightarrow> u64" where
  "ALIGN8 x = (x + 7) AND NOT 7"

definition upd_blk :: "u64 \<Rightarrow> (block \<Rightarrow> block) \<Rightarrow> 'a kheap_scheme \<Rightarrow> 'a kheap_scheme" where
  "upd_blk b f s = s\<lparr>blk := (blk s)(b := f (blk s b))\<rparr>"

definition kheap_init :: "'a kheap_scheme \<Rightarrow> 'a kheap_scheme" where
  "kheap_init s = s\<lparr>head := 0\<rparr>"

partial_function (option) last_block :: "(u64 \<Rightarrow> block) \<Rightarrow> u64 \<Rightarrow> u64 option" where
  "last_block h t = (if nxt (h t) \<noteq> 0 then last_block h (nxt (h t)) else Some t)"

definition grow_heap :: "u64 \<Rightarrow> 'a kheap_scheme \<Rightarrow> (u64 \<times> 'a kheap_scheme) option" where
  "grow_heap need s =
    (let total = HDR + need;
         pages = (total + PAGE_SIZE - 1) div PAGE_SIZE
     in case pmm_alloc_pages pages s of (b, s) \<Rightarrow>
       if b = 0 then Some (0, s)
       else let s = upd_blk b (\<lambda>_. \<lparr>size = pages * PAGE_SIZE - HDR, is_free = True, nxt = 0, prv = 0\<rparr>) s
         in if head s = 0 then Some (b, s\<lparr>head := b\<rparr>)
            else case last_block (blk s) (head s) of None \<Rightarrow> None
              | Some t \<Rightarrow> Some (b, upd_blk b (\<lambda>r. r\<lparr>prv := t\<rparr>) (upd_blk t (\<lambda>r. r\<lparr>nxt := b\<rparr>) s)))"

definition split_block :: "u64 \<Rightarrow> u64 \<Rightarrow> 'a kheap_scheme \<Rightarrow> 'a kheap_scheme" where
  "split_block b sz s =
    (if size (blk s b) < sz + HDR + 8 then s
     else let rest = b + HDR + sz;
              s = upd_blk rest (\<lambda>_. \<lparr>size = size (blk s b) - sz - HDR, is_free = True,
                                     nxt = nxt (blk s b), prv = b\<rparr>) s;
              s = (if nxt (blk s b) \<noteq> 0 then upd_blk (nxt (blk s b)) (\<lambda>r. r\<lparr>prv := rest\<rparr>) s else s)
          in upd_blk b (\<lambda>r. r\<lparr>nxt := rest, size := sz\<rparr>) s)"

partial_function (option) first_fit :: "(u64 \<Rightarrow> block) \<Rightarrow> u64 \<Rightarrow> u64 \<Rightarrow> u64 option" where
  "first_fit h b sz =
    (if b = 0 then Some 0
     else if is_free (h b) \<and> sz \<le> size (h b) then Some b
     else first_fit h (nxt (h b)) sz)"

definition take_block :: "u64 \<Rightarrow> u64 \<Rightarrow> 'a kheap_scheme \<Rightarrow> u64 \<times> 'a kheap_scheme" where
  "take_block b sz s = (b + HDR, upd_blk b (\<lambda>r. r\<lparr>is_free := False\<rparr>) (split_block b sz s))"

definition kmalloc :: "u64 \<Rightarrow> 'a kheap_scheme \<Rightarrow> (u64 \<times> 'a kheap_scheme) option" where
  "kmalloc sz s =
    (if sz = 0 then Some (0, s)
     else let sz = ALIGN8 sz
       in case first_fit (blk s) (head s) sz of None \<Rightarrow> None
        | Some b \<Rightarrow>
            if b \<noteq> 0 then Some (take_block b sz s)
            else case grow_heap sz s of None \<Rightarrow> None
              | Some (b, s) \<Rightarrow> if b = 0 then Some (0, s) else Some (take_block b sz s))"

definition adjacent :: "u64 \<Rightarrow> u64 \<Rightarrow> 'a kheap_scheme \<Rightarrow> bool" where
  "adjacent a b s \<longleftrightarrow> a + HDR + size (blk s a) = b"

definition merge_next :: "u64 \<Rightarrow> 'a kheap_scheme \<Rightarrow> 'a kheap_scheme" where
  "merge_next b s =
    (let n = nxt (blk s b) in
     if n \<noteq> 0 \<and> is_free (blk s n) \<and> adjacent b n s
     then let s = upd_blk b (\<lambda>r. r\<lparr>size := size r + HDR + size (blk s n), nxt := nxt (blk s n)\<rparr>) s
          in if nxt (blk s n) \<noteq> 0 then upd_blk (nxt (blk s n)) (\<lambda>r. r\<lparr>prv := b\<rparr>) s else s
     else s)"

definition merge_prev :: "u64 \<Rightarrow> 'a kheap_scheme \<Rightarrow> 'a kheap_scheme" where
  "merge_prev b s =
    (let p = prv (blk s b) in
     if p \<noteq> 0 \<and> is_free (blk s p) \<and> adjacent p b s
     then let s = upd_blk p (\<lambda>r. r\<lparr>size := size r + HDR + size (blk s b), nxt := nxt (blk s b)\<rparr>) s
          in if nxt (blk s b) \<noteq> 0 then upd_blk (nxt (blk s b)) (\<lambda>r. r\<lparr>prv := p\<rparr>) s else s
     else s)"

definition kfree :: "u64 \<Rightarrow> 'a kheap_scheme \<Rightarrow> 'a kheap_scheme" where
  "kfree ptr s =
    (if ptr = 0 then s
     else let b = ptr - HDR
       in merge_prev b (merge_next b (upd_blk b (\<lambda>r. r\<lparr>is_free := True\<rparr>) s)))"

subsection \<open>The chunk list\<close>

type_synonym chunk = "u64 \<times> u64 \<times> bool"

text \<open>A doubly linked segment from \<open>p\<close> (with predecessor \<open>q\<close>) to \<open>p'\<close> (with predecessor \<open>q'\<close>).\<close>

fun dseg :: "(u64 \<Rightarrow> block) \<Rightarrow> u64 \<Rightarrow> u64 \<Rightarrow> chunk list \<Rightarrow> u64 \<Rightarrow> u64 \<Rightarrow> bool" where
  "dseg h q p [] q' p' \<longleftrightarrow> q = q' \<and> p = p'"
| "dseg h q p ((a, n, f) # bs) q' p' \<longleftrightarrow>
     p = a \<and> a \<noteq> 0 \<and> prv (h a) = q \<and> size (h a) = n \<and> is_free (h a) = f \<and> dseg h a (nxt (h a)) bs q' p'"

text \<open>The chunks lie in address order between two bounds, 8-byte aligned, without overlap.\<close>

fun spaced :: "nat \<Rightarrow> chunk list \<Rightarrow> nat \<Rightarrow> bool" where
  "spaced lo [] hi \<longleftrightarrow> lo \<le> hi"
| "spaced lo ((a, n, f) # bs) hi \<longleftrightarrow>
     lo \<le> unat a \<and> 8 dvd unat a \<and> 8 dvd unat n \<and> 0 < unat n \<and> spaced (unat a + 32 + unat n) bs hi"

definition bytes :: "chunk list \<Rightarrow> nat set" where
  "bytes bs = (\<Union>(a, n, f) \<in> set bs. {unat a ..< unat a + 32 + unat n})"

definition page_bytes :: "u64 set \<Rightarrow> nat set" where
  "page_bytes ps = (\<Union>p \<in> ps. {unat p ..< unat p + 4096})"

text \<open>
  \<open>heap_inv lo s live hp bs\<close>: the chunks \<open>bs\<close> are the linked list of \<open>s\<close>, in address order and
  without overlap, and together they are exactly the bytes of the heap's own pages \<open>hp\<close>, which are
  in use for the page manager.
\<close>

definition heap_inv :: "u64 \<Rightarrow> 'a kheap_scheme \<Rightarrow> u64 set \<Rightarrow> u64 set \<Rightarrow> chunk list \<Rightarrow> bool" where
  "heap_inv lo s live hp bs \<longleftrightarrow>
    pmm_inv lo s live \<and> hp \<subseteq> live \<and> (\<exists>l. dseg (blk s) 0 (head s) bs l 0) \<and>
    spaced 8 bs (unat (bump s)) \<and> bytes bs = page_bytes hp"

lemma dseg_append:
  "dseg h q p (xs @ ys) q' p' \<longleftrightarrow> (\<exists>m r. dseg h q p xs m r \<and> dseg h m r ys q' p')"
proof (induction xs arbitrary: q p)
  case (Cons x xs)
  then show ?case by (cases x) auto
qed simp

lemma dseg_cong: "(\<And>a. a \<in> fst ` set bs \<Longrightarrow> h a = h' a) \<Longrightarrow> dseg h q p bs q' p' = dseg h' q p bs q' p'"
  by (induction bs arbitrary: q p) auto

lemma dseg_upd: "a \<notin> fst ` set bs \<Longrightarrow> dseg (h(a := v)) q p bs q' p' = dseg h q p bs q' p'"
  by (rule dseg_cong) auto

lemma spaced_append: "spaced lo (xs @ ys) hi \<longleftrightarrow> (\<exists>m. spaced lo xs m \<and> spaced m ys hi)"
proof (induction xs arbitrary: lo)
  case Nil
  then show ?case by (cases ys) (auto intro: le_trans)
qed auto

lemma spaced_le: "spaced lo bs hi \<Longrightarrow> lo \<le> hi"
proof (induction bs arbitrary: lo)
  case (Cons x bs)
  obtain a n f where "x = (a, n, f)" by (cases x)
  with Cons.prems Cons.IH [of "unat a + 32 + unat n"] show ?case by simp
qed simp

lemma spaced_mono: "spaced lo bs hi \<Longrightarrow> lo' \<le> lo \<Longrightarrow> hi \<le> hi' \<Longrightarrow> spaced lo' bs hi'"
  by (induction bs arbitrary: lo lo') auto

lemma spaced_mem: "spaced lo bs hi \<Longrightarrow> (a, n, f) \<in> set bs \<Longrightarrow>
    lo \<le> unat a \<and> unat a + 32 + unat n \<le> hi \<and> 8 dvd unat a \<and> 8 dvd unat n \<and> 0 < unat n"
  by (induction bs arbitrary: lo) (auto dest: spaced_le, fastforce+)

lemma bytes_simps [simp]: "bytes [] = {}"
  "bytes ((a, n, f) # bs) = {unat a ..< unat a + 32 + unat n} \<union> bytes bs"
  "bytes (xs @ ys) = bytes xs \<union> bytes ys"
  by (auto simp: bytes_def)

lemma spaced_distinct: "spaced lo bs hi \<Longrightarrow> distinct (map fst bs)"
proof (induction bs arbitrary: lo)
  case (Cons x bs)
  obtain a n f where x: "x = (a, n, f)" by (cases x)
  have "a \<notin> fst ` set bs"
  proof
    assume "a \<in> fst ` set bs"
    then obtain n' f' where "(a, n', f') \<in> set bs" by force
    with spaced_mem [of "unat a + 32 + unat n" bs hi a n' f'] Cons.prems x show False by simp
  qed
  with Cons x show ?case by auto
qed simp

lemma spaced_cross:
  assumes "spaced lo (xs @ (b, n, f) # ys) hi" "a \<in> fst ` set xs \<or> a \<in> fst ` set ys"
  shows "\<not> (unat b \<le> unat a \<and> unat a < unat b + 32 + unat n)"
proof -
  obtain m where m: "spaced lo xs m" "m \<le> unat b" "spaced (unat b + 32 + unat n) ys hi"
    using assms(1) by (auto simp: spaced_append)
  from assms(2) show ?thesis
  proof
    assume "a \<in> fst ` set xs"
    then obtain k g where "(a, k, g) \<in> set xs" by force
    with spaced_mem [OF m(1)] m(2) show ?thesis by fastforce
  next
    assume "a \<in> fst ` set ys"
    then obtain k g where "(a, k, g) \<in> set ys" by force
    with spaced_mem [OF m(3)] show ?thesis by fastforce
  qed
qed

text \<open>Setting the back link of the first chunk of a segment.\<close>

lemma dseg_relink:
  assumes "dseg h q p ys l 0" "distinct (map fst ys)"
  shows "\<exists>l'. dseg (if p \<noteq> 0 then h(p := (h p)\<lparr>prv := r\<rparr>) else h) r p ys l' 0"
proof (cases ys)
  case Nil
  with assms show ?thesis by simp
next
  case (Cons y zs)
  obtain c k g where y: "y = (c, k, g)" by (cases y)
  have "dseg (h(c := (h c)\<lparr>prv := r\<rparr>)) c (nxt (h c)) zs l 0 = dseg h c (nxt (h c)) zs l 0"
    using assms(2) Cons y by (intro dseg_upd) auto
  with assms Cons y show ?thesis by auto
qed

lemma dseg_first: "dseg h q p ys l 0 \<Longrightarrow> p \<noteq> 0 \<Longrightarrow> p \<in> fst ` set ys"
  by (cases ys) auto

subsection \<open>The operations on the list\<close>

definition abs_split :: "u64 \<Rightarrow> chunk \<Rightarrow> chunk list" where
  "abs_split sz c = (case c of (a, n, f) \<Rightarrow>
     if unat n < unat sz + 40 then [(a, n, f)]
     else [(a, sz, f), (a + HDR + sz, n - sz - HDR, True)])"

lemma upd_blk_simps [simp]:
  "pmm.truncate (upd_blk b f s) = pmm.truncate s" "mem (upd_blk b f s) = mem s" "bump (upd_blk b f s) = bump s"
  "free_list (upd_blk b f s) = free_list s" "head (upd_blk b f s) = head s"
  "blk (upd_blk b f s) = (blk s)(b := f (blk s b))"
  by (simp_all add: upd_blk_def pmm.truncate_def)

lemma dseg_split:
  assumes d: "dseg (blk s) 0 (head s) (xs @ (b, n, f) # ys) l 0"
    and sp: "spaced lo (xs @ (b, n, f) # ys) hi" and hi: "hi \<le> 0x50000000"
    and sz: "unat sz \<le> unat n"
  shows "\<exists>l'. dseg (blk (split_block b sz s)) 0 (head s) (xs @ abs_split sz (b, n, f) @ ys) l' 0"
proof -
  obtain m where m: "dseg (blk s) 0 (head s) xs m b" "b \<noteq> 0" "prv (blk s b) = m"
    "size (blk s b) = n" "is_free (blk s b) = f" "dseg (blk s) b (nxt (blk s b)) ys l 0"
    using d by (auto simp: dseg_append)
  have mem: "(b, n, f) \<in> set (xs @ (b, n, f) # ys)" by simp
  have bn: "unat b + 32 + unat n \<le> 0x50000000" using spaced_mem [OF sp mem] hi by auto
  have w: "unat (sz + HDR + 8) = unat sz + 40" using bn sz by (simp add: HDR_def unat_word_ariths)
  show ?thesis
  proof (cases "unat n < unat sz + 40")
    case True
    then have "split_block b sz s = s" by (simp add: split_block_def m word_less_nat_alt w)
    with True d show ?thesis by (auto simp: abs_split_def)
  next
    case False
    define r where "r = b + HDR + sz"
    have ur: "unat r = unat b + 32 + unat sz" using bn sz by (simp add: r_def HDR_def unat_word_ariths)
    have r0: "r \<noteq> 0" using ur by auto
    have rb: "r \<noteq> b" using ur by auto
    have rx: "r \<notin> fst ` set xs" "r \<notin> fst ` set ys"
      using spaced_cross [OF sp, of r] ur False by auto
    have bx: "b \<notin> fst ` set xs" "b \<notin> fst ` set ys" "distinct (map fst ys)"
      "fst ` set xs \<inter> fst ` set ys = {}"
      using spaced_distinct [OF sp] by auto
    define c where "c = nxt (blk s b)"
    have cy: "c \<noteq> 0 \<Longrightarrow> c \<in> fst ` set ys" using dseg_first [OF m(6)] by (simp add: c_def)
    then have cb: "c \<noteq> 0 \<Longrightarrow> c \<noteq> b \<and> c \<noteq> r \<and> c \<notin> fst ` set xs" using bx rx by auto
    define R where "R = \<lparr>size = n - sz - HDR, is_free = True, nxt = c, prv = b\<rparr>"
    define h1 where "h1 = (blk s)(r := R)"
    define h2 where "h2 = (if c \<noteq> 0 then h1(c := (h1 c)\<lparr>prv := r\<rparr>) else h1)"
    have d1: "dseg h1 b c ys l 0" using m(6) rx unfolding h1_def c_def by (subst dseg_upd) auto
    from dseg_relink [OF d1 bx(3), of r] obtain l' where l': "dseg h2 r c ys l' 0" unfolding h2_def by blast
    have h2b: "h2 b = blk s b" "h2 r = R" using cb rb by (auto simp: h2_def h1_def)
    have eq: "blk (split_block b sz s) = h2(b := (h2 b)\<lparr>nxt := r, size := sz\<rparr>)"
    proof -
      have "\<not> size (blk s b) < sz + HDR + 8" using False by (simp add: word_less_nat_alt w m)
      then show ?thesis
        using rb unfolding split_block_def Let_def h2_def h1_def R_def c_def r_def m(4) [symmetric]
        by auto
    qed
    have xs: "dseg (h2(b := (h2 b)\<lparr>nxt := r, size := sz\<rparr>)) 0 (head s) xs m b"
    proof (rule iffD1 [OF dseg_cong m(1)])
      fix a assume "a \<in> fst ` set xs"
      then show "blk s a = (h2(b := (h2 b)\<lparr>nxt := r, size := sz\<rparr>)) a"
        using bx rx cb by (auto simp: h2_def h1_def)
    qed
    have ys': "dseg (h2(b := (h2 b)\<lparr>nxt := r, size := sz\<rparr>)) r c ys l' 0"
      using l' bx by (subst dseg_upd) auto
    have "dseg (h2(b := (h2 b)\<lparr>nxt := r, size := sz\<rparr>)) m b ((b, sz, f) # (r, n - sz - HDR, True) # ys) l' 0"
      using ys' h2b m r0 rb by (simp add: R_def)
    with xs have "dseg (h2(b := (h2 b)\<lparr>nxt := r, size := sz\<rparr>)) 0 (head s)
        (xs @ (b, sz, f) # (r, n - sz - HDR, True) # ys) l' 0"
      by (subst dseg_append) blast
    then show ?thesis using False unfolding eq by (auto simp: abs_split_def r_def [symmetric])
  qed
qed

lemma dseg_set_free:
  assumes d: "dseg h 0 p (xs @ (b, n, f) # ys) l 0" and dist: "distinct (map fst (xs @ (b, n, f) # ys))"
  shows "dseg (h(b := (h b)\<lparr>is_free := g\<rparr>)) 0 p (xs @ (b, n, g) # ys) l 0"
proof -
  obtain m where m: "dseg h 0 p xs m b" "b \<noteq> 0" "prv (h b) = m" "size (h b) = n"
     "dseg h b (nxt (h b)) ys l 0"
    using d by (auto simp: dseg_append)
  have "b \<notin> fst ` set xs" "b \<notin> fst ` set ys" using dist by auto
  with m show ?thesis by (auto simp: dseg_append dseg_upd)
qed

fun join_next :: "chunk list \<Rightarrow> chunk list" where
  "join_next ((b, n, f) # (c, m, True) # zs) =
     (if b + HDR + n = c then (b, n + HDR + m, f) # zs else (b, n, f) # (c, m, True) # zs)"
| "join_next bs = bs"

lemma dseg_merge_next:
  assumes d: "dseg (blk s) 0 (head s) (xs @ (b, n, f) # ys) l 0"
    and dist: "distinct (map fst (xs @ (b, n, f) # ys))"
  shows "\<exists>l'. dseg (blk (merge_next b s)) 0 (head s) (xs @ join_next ((b, n, f) # ys)) l' 0"
proof -
  obtain m where m: "dseg (blk s) 0 (head s) xs m b" "b \<noteq> 0" "prv (blk s b) = m" "size (blk s b) = n"
     "is_free (blk s b) = f" "dseg (blk s) b (nxt (blk s b)) ys l 0"
    using d by (auto simp: dseg_append)
  have bx: "b \<notin> fst ` set xs" "b \<notin> fst ` set ys" "distinct (map fst ys)"
    "fst ` set xs \<inter> fst ` set ys = {}" using dist by auto
  show ?thesis
  proof (cases "\<exists>c k zs. ys = (c, k, True) # zs \<and> b + HDR + n = c")
    case False
    have "merge_next b s = s"
    proof (cases ys)
      case Nil
      then have "nxt (blk s b) = 0" using m(6) by auto
      then show ?thesis by (simp add: merge_next_def Let_def)
    next
      case (Cons y zs)
      then show ?thesis using False m by (cases y) (auto simp: merge_next_def adjacent_def Let_def)
    qed
    moreover have "join_next ((b, n, f) # ys) = (b, n, f) # ys"
      using False by (cases "(b, n, f) # ys" rule: join_next.cases) auto
    ultimately show ?thesis using d by auto
  next
    case True
    then obtain c k zs where ys: "ys = (c, k, True) # zs" and adj: "b + HDR + n = c" by auto
    have c: "nxt (blk s b) = c" "c \<noteq> 0" "size (blk s c) = k" "is_free (blk s c)" "c \<noteq> b"
      "dseg (blk s) c (nxt (blk s c)) zs l 0" "distinct (map fst zs)" "c \<notin> fst ` set zs" "c \<notin> fst ` set xs"
      using m(6) ys bx by auto
    define e where "e = nxt (blk s c)"
    have ez: "e \<noteq> 0 \<Longrightarrow> e \<in> fst ` set zs" using dseg_first [OF c(6)] by (simp add: e_def)
    have "fst ` set zs \<subseteq> fst ` set ys" using ys by auto
    with ez bx(2,4) c(8) have eb: "e \<noteq> 0 \<Longrightarrow> e \<noteq> b \<and> e \<noteq> c \<and> e \<notin> fst ` set xs" by blast
    define h1 where "h1 = (blk s)(b := (blk s b)\<lparr>size := n + HDR + k, nxt := e\<rparr>)"
    define h2 where "h2 = (if e \<noteq> 0 then h1(e := (h1 e)\<lparr>prv := b\<rparr>) else h1)"
    have eq: "blk (merge_next b s) = h2"
      using c m adj unfolding merge_next_def Let_def adjacent_def h2_def h1_def e_def by auto
    have "dseg h1 c e zs l 0" using c(6) bx ys unfolding h1_def e_def by (subst dseg_upd) auto
    from dseg_relink [OF this c(7), of b] obtain l' where l': "dseg h2 b e zs l' 0"
      unfolding h2_def by blast
    have xs: "dseg h2 0 (head s) xs m b"
      using bx eb by (intro iffD1 [OF dseg_cong m(1)]) (auto simp: h2_def h1_def)
    have h2b: "h2 b = (blk s b)\<lparr>size := n + HDR + k, nxt := e\<rparr>" using eb by (auto simp: h2_def h1_def)
    have "dseg h2 m b ((b, n + HDR + k, f) # zs) l' 0" using l' h2b m by simp
    with xs have "dseg h2 0 (head s) (xs @ (b, n + HDR + k, f) # zs) l' 0"
      by (subst dseg_append) blast
    then show ?thesis using ys adj unfolding eq by auto
  qed
qed

lemma merge_prev_next:
  assumes "dseg (blk s) 0 (head s) (xs @ (p, k, g) # (b, n, True) # ys) l 0" "b \<noteq> 0"
  shows "merge_prev b s = (if g then merge_next p s else s)"
  using assms by (auto simp: dseg_append merge_prev_def merge_next_def Let_def)

text \<open>Freeing a chunk in the list, and taking one.\<close>

fun abs_free :: "u64 \<Rightarrow> chunk list \<Rightarrow> chunk list" where
  "abs_free b [] = []"
| "abs_free b ((a, n, f) # bs) =
     (if a = b then join_next ((a, n, True) # bs)
      else if f \<and> bs \<noteq> [] \<and> fst (hd bs) = b then join_next ((a, n, f) # abs_free b bs)
      else (a, n, f) # abs_free b bs)"

definition take_chunk :: "u64 \<Rightarrow> chunk \<Rightarrow> chunk list" where
  "take_chunk sz c = (case c of (a, n, f) \<Rightarrow>
     if unat n < unat sz + 40 then [(a, n, False)]
     else [(a, sz, False), (a + HDR + sz, n - sz - HDR, True)])"

fun abs_alloc :: "u64 \<Rightarrow> chunk list \<Rightarrow> (u64 \<times> chunk list) option" where
  "abs_alloc sz [] = None"
| "abs_alloc sz ((a, n, f) # bs) =
     (if f \<and> sz \<le> n then Some (a, take_chunk sz (a, n, f) @ bs)
      else map_option (\<lambda>(p, bs). (p, (a, n, f) # bs)) (abs_alloc sz bs))"

lemma abs_free_split:
  assumes "distinct (map fst (xs @ (b, n, g) # ys))"
  shows "abs_free b (xs @ (b, n, g) # ys) =
    (if xs \<noteq> [] \<and> snd (snd (last xs)) then butlast xs @ join_next (last xs # join_next ((b, n, True) # ys))
     else xs @ join_next ((b, n, True) # ys))"
  using assms
proof (induction xs)
  case (Cons x xs)
  obtain a k f where x: "x = (a, k, f)" by (cases x)
  show ?case
  proof (cases xs)
    case Nil
    with Cons.prems x show ?thesis by auto
  next
    case (Cons y zs)
    with Cons.IH Cons.prems x show ?thesis by auto
  qed
qed simp

lemma abs_alloc_split:
  "abs_alloc sz bs = (case find (\<lambda>(a, n, f). f \<and> sz \<le> n) bs of None \<Rightarrow> None
     | Some c \<Rightarrow> Some (fst c, takeWhile (\<lambda>(a, n, f). \<not> (f \<and> sz \<le> n)) bs @ take_chunk sz c @
         tl (dropWhile (\<lambda>(a, n, f). \<not> (f \<and> sz \<le> n)) bs)))"
  by (induction sz bs rule: abs_alloc.induct) (auto split: option.splits)

lemma abs_alloc_None: "abs_alloc sz bs = None \<longleftrightarrow> (\<forall>(a, n, f) \<in> set bs. \<not> (f \<and> sz \<le> n))"
  by (induction sz bs rule: abs_alloc.induct) auto

lemma abs_alloc_Some: "abs_alloc sz bs = Some (b, bs') \<Longrightarrow>
    \<exists>xs n ys. bs = xs @ (b, n, True) # ys \<and> sz \<le> n \<and> bs' = xs @ take_chunk sz (b, n, True) @ ys \<and>
      (\<forall>(a, n, f) \<in> set xs. \<not> (f \<and> sz \<le> n))"
proof (induction sz bs arbitrary: bs' rule: abs_alloc.induct)
  case (2 sz a n f bs)
  show ?case
  proof (cases "f \<and> sz \<le> n")
    case True
    with 2 show ?thesis by (intro exI [of _ "[]"]) auto
  next
    case False
    with 2 obtain cs where cs: "abs_alloc sz bs = Some (b, cs)" "bs' = (a, n, f) # cs" by auto
    from "2.IH" [OF False cs(1)] obtain xs m ys where
      "bs = xs @ (b, m, True) # ys" "sz \<le> m" "cs = xs @ take_chunk sz (b, m, True) @ ys"
      "\<forall>(a, n, f) \<in> set xs. \<not> (f \<and> sz \<le> n)" by blast
    with cs False show ?thesis
      by (intro exI [of _ "(a, n, f) # xs"] exI [of _ m] exI [of _ ys]) auto
  qed
qed simp

lemma first_fit_dseg:
  "dseg h q p bs l 0 \<Longrightarrow>
    first_fit h p sz = Some (case abs_alloc sz bs of None \<Rightarrow> 0 | Some (b, _) \<Rightarrow> b)"
proof (induction bs arbitrary: q p)
  case Nil
  then show ?case by (subst first_fit.simps) simp
next
  case (Cons c bs)
  obtain a n f where c: "c = (a, n, f)" by (cases c)
  have d: "p = a" "a \<noteq> 0" "size (h a) = n" "is_free (h a) = f" "dseg h a (nxt (h a)) bs l 0"
    using Cons.prems c by auto
  show ?case using Cons.IH [OF d(5)] d(1-4) c
    by (subst first_fit.simps) (auto split: option.splits)
qed

lemma last_block_dseg:
  "dseg h q p bs l 0 \<Longrightarrow> bs \<noteq> [] \<Longrightarrow> last_block h p = Some (fst (last bs)) \<and> l = fst (last bs)"
proof (induction bs arbitrary: q p)
  case (Cons c bs)
  obtain a n f where c: "c = (a, n, f)" by (cases c)
  have d: "p = a" "dseg h a (nxt (h a)) bs l 0" using Cons.prems c by auto
  show ?case
  proof (cases bs)
    case Nil
    then have "a = l" "nxt (h a) = 0" using d(2) by auto
    with d(1) c Nil show ?thesis by (subst last_block.simps) simp
  next
    case (Cons e es)
    then have "nxt (h a) \<noteq> 0" using d(2) by (cases e) auto
    with Cons.IH [OF d(2)] Cons d c show ?thesis by (subst last_block.simps) simp
  qed
qed simp

subsection \<open>Refinement of the list operations\<close>

lemma take_block_dseg:
  assumes "dseg (blk s) 0 (head s) (xs @ (b, n, f) # ys) l 0"
    "spaced lo (xs @ (b, n, f) # ys) hi" "hi \<le> 0x50000000" "unat sz \<le> unat n"
  shows "\<exists>l'. dseg (blk (snd (take_block b sz s))) 0 (head s) (xs @ take_chunk sz (b, n, f) @ ys) l' 0"
proof -
  obtain l' where d: "dseg (blk (split_block b sz s)) 0 (head s) (xs @ abs_split sz (b, n, f) @ ys) l' 0"
    using dseg_split [OF assms] by blast
  have dist: "distinct (map fst (xs @ abs_split sz (b, n, f) @ ys))"
  proof -
    have "\<not> unat n < unat sz + 40 \<Longrightarrow> b + HDR + sz \<noteq> b \<and> b + HDR + sz \<notin> fst ` set xs \<and> b + HDR + sz \<notin> fst ` set ys"
    proof -
      assume big: "\<not> unat n < unat sz + 40"
      have "unat b + 32 + unat n \<le> 0x50000000" using spaced_mem [OF assms(2), of b n f] assms(3) by simp
      then have ur: "unat (b + HDR + sz) = unat b + 32 + unat sz"
        using assms(4) by (simp add: HDR_def unat_word_ariths)
      then show ?thesis using big spaced_cross [OF assms(2), of "b + HDR + sz"] by fastforce
    qed
    with spaced_distinct [OF assms(2)] show ?thesis by (auto simp: abs_split_def)
  qed
  show ?thesis
  proof (cases "unat n < unat sz + 40")
    case True
    then show ?thesis using dseg_set_free [of "blk (split_block b sz s)" "head s" xs b n f ys l' False] d dist
      by (auto simp: take_block_def abs_split_def take_chunk_def)
  next
    case False
    then show ?thesis
      using dseg_set_free [of "blk (split_block b sz s)" "head s" xs b sz f "(b + HDR + sz, n - sz - HDR, True) # ys" l' False] d dist
      by (auto simp: take_block_def abs_split_def take_chunk_def)
  qed
qed

text \<open>Splitting keeps the layout and the bytes.\<close>

lemma take_chunk_layout:
  assumes "spaced lo (xs @ (b, n, f) # ys) hi" "hi \<le> 0x50000000" "unat sz \<le> unat n" "8 dvd unat sz" "0 < unat sz"
  shows "spaced lo (xs @ take_chunk sz (b, n, f) @ ys) hi"
    "bytes (take_chunk sz (b, n, f)) = {unat b ..< unat b + 32 + unat n}"
proof -
  have bn: "unat b + 32 + unat n \<le> 0x50000000" "8 dvd unat b" "8 dvd unat n" "0 < unat n"
    using spaced_mem [OF assms(1), of b n f] assms(2) by simp_all
  have ur: "unat (b + HDR + sz) = unat b + 32 + unat sz"
    using assms(3) bn by (simp add: HDR_def unat_word_ariths)
  have us: "\<not> unat n < unat sz + 40 \<Longrightarrow> unat (n - sz - HDR) = unat n - unat sz - 32"
    using assms(3) bn by (simp add: HDR_def unat_sub word_le_nat_alt unat_sub_if')
  show "bytes (take_chunk sz (b, n, f)) = {unat b ..< unat b + 32 + unat n}"
    using us ur by (auto simp: take_chunk_def)
  show "spaced lo (xs @ take_chunk sz (b, n, f) @ ys) hi"
  proof -
    obtain m where m: "spaced lo xs m" "m \<le> unat b" "spaced (unat b + 32 + unat n) ys hi"
      using assms(1) by (auto simp: spaced_append)
    have "spaced m (take_chunk sz (b, n, f) @ ys) hi"
      using m bn us ur assms(4,5) by (auto simp: take_chunk_def ac_simps)
    with m(1) show ?thesis unfolding spaced_append by blast
  qed
qed

lemma take_block_frame [simp]:
  "mem (snd (take_block b sz s)) = mem s" "bump (snd (take_block b sz s)) = bump s"
  "free_list (snd (take_block b sz s)) = free_list s" "head (snd (take_block b sz s)) = head s"
  "fst (take_block b sz s) = b + HDR"
  by (simp_all add: take_block_def split_block_def Let_def)

lemma pmm_inv_frame_cong:
  "mem s' = mem s \<Longrightarrow> bump s' = bump s \<Longrightarrow> free_list s' = free_list s \<Longrightarrow> pmm_inv lo s live \<Longrightarrow> pmm_inv lo s' live"
  by (simp add: pmm_inv_def)

lemma bump_bound: "pmm_inv lo s live \<Longrightarrow> unat (bump s) \<le> 0x50000000"
  by (simp add: pmm_inv_def RAM_END_def word_le_nat_alt)

lemma take_block_inv:
  assumes "heap_inv lo s live hp (xs @ (b, n, f) # ys)" "unat sz \<le> unat n" "8 dvd unat sz" "0 < unat sz"
  shows "heap_inv lo (snd (take_block b sz s)) live hp (xs @ take_chunk sz (b, n, f) @ ys)"
proof -
  from assms(1) obtain l where i: "pmm_inv lo s live" "hp \<subseteq> live"
    "dseg (blk s) 0 (head s) (xs @ (b, n, f) # ys) l 0" "spaced 8 (xs @ (b, n, f) # ys) (unat (bump s))"
    "bytes (xs @ (b, n, f) # ys) = page_bytes hp" by (auto simp: heap_inv_def)
  note tb = take_block_dseg [OF i(3,4) bump_bound [OF i(1)] assms(2)]
  note tc = take_chunk_layout [OF i(4) bump_bound [OF i(1)] assms(2-4)]
  have "pmm_inv lo (snd (take_block b sz s)) live" by (rule pmm_inv_frame_cong [OF _ _ _ i(1)]) simp_all
  moreover have "bytes (xs @ take_chunk sz (b, n, f) @ ys) = page_bytes hp" using i(5) tc(2) by simp
  ultimately show ?thesis using i(2) tb tc(1) unfolding heap_inv_def by simp
qed

lemma align8:
  assumes "unat sz \<le> 0x40000000" "0 < sz"
  shows "unat (ALIGN8 sz) = (unat sz + 7) div 8 * 8" "8 dvd unat (ALIGN8 sz)" "0 < unat (ALIGN8 sz)"
    "unat sz \<le> unat (ALIGN8 sz)" "unat (ALIGN8 sz) \<le> 0x40000000"
proof -
  have m: "(7 :: u64) = mask 3" by (simp add: mask_numeral)
  have "(sz + 7) AND NOT 7 = push_bit 3 (drop_bit 3 (sz + 7))"
    unfolding m by (rule bit_word_eqI) (auto simp: bit_simps)
  moreover have "unat (drop_bit 3 (sz + 7)) = (unat sz + 7) div 8"
    using assms by (simp add: unsigned_drop_bit_eq unat_word_ariths take_bit_eq_mod drop_bit_eq_div [where 'a = nat])
  ultimately show e: "unat (ALIGN8 sz) = (unat sz + 7) div 8 * 8"
    using assms unfolding ALIGN8_def push_bit_eq_mult by (simp add: unat_word_ariths)
  have "0 < unat sz" using assms(2) by (simp add: word_less_nat_alt)
  then show "8 dvd unat (ALIGN8 sz)" "0 < unat (ALIGN8 sz)"
    "unat sz \<le> unat (ALIGN8 sz)" "unat (ALIGN8 sz) \<le> 0x40000000"
    using assms by (simp_all add: e)
qed

lemma join_next_layout:
  assumes "spaced lo ((b, n, f) # ys) hi" "hi \<le> 0x50000000"
  shows "spaced lo (join_next ((b, n, f) # ys)) hi"
    "bytes (join_next ((b, n, f) # ys)) = bytes ((b, n, f) # ys)"
proof -
  have "spaced lo (join_next ((b, n, f) # ys)) hi \<and>
      bytes (join_next ((b, n, f) # ys)) = bytes ((b, n, f) # ys)"
  proof (cases "\<exists>c k zs. ys = (c, k, True) # zs \<and> b + HDR + n = c")
    case False
    then have "join_next ((b, n, f) # ys) = (b, n, f) # ys"
      by (cases "(b, n, f) # ys" rule: join_next.cases) auto
    with assms show ?thesis by simp
  next
    case True
    then obtain c k zs where ys: "ys = (c, k, True) # zs" "b + HDR + n = c" by auto
    have bn: "unat b + 32 + unat n \<le> 0x50000000" "unat c + 32 + unat k \<le> 0x50000000"
      using spaced_mem [OF assms(1), of b n f] spaced_mem [OF assms(1), of c k True] assms(2) ys by simp_all
    then have c: "unat c = unat b + 32 + unat n" "unat (n + HDR + k) = unat n + 32 + unat k"
      unfolding ys(2) [symmetric] by (simp_all add: HDR_def unat_word_ariths)
    show ?thesis using assms(1) ys c by (auto simp: spaced_append ac_simps)
  qed
  then show "spaced lo (join_next ((b, n, f) # ys)) hi"
    "bytes (join_next ((b, n, f) # ys)) = bytes ((b, n, f) # ys)" by simp_all
qed

lemma join_next_head: "\<exists>n' ys'. join_next ((b, n, f) # ys) = (b, n', f) # ys'"
  by (cases "(b, n, f) # ys" rule: join_next.cases) auto

lemma merge_next_frame [simp]:
  "mem (merge_next b s) = mem s" "bump (merge_next b s) = bump s"
  "free_list (merge_next b s) = free_list s" "head (merge_next b s) = head s"
  by (simp_all add: merge_next_def Let_def)

lemma merge_next_inv:
  assumes "heap_inv lo s live hp (xs @ (b, n, f) # ys)"
  shows "heap_inv lo (merge_next b s) live hp (xs @ join_next ((b, n, f) # ys))"
proof -
  from assms(1) obtain l where i: "pmm_inv lo s live" "hp \<subseteq> live"
    "dseg (blk s) 0 (head s) (xs @ (b, n, f) # ys) l 0" "spaced 8 (xs @ (b, n, f) # ys) (unat (bump s))"
    "bytes (xs @ (b, n, f) # ys) = page_bytes hp" by (auto simp: heap_inv_def)
  obtain m where m: "spaced 8 xs m" "spaced m ((b, n, f) # ys) (unat (bump s))"
    using i(4) unfolding spaced_append by blast
  note jl = join_next_layout [OF m(2) bump_bound [OF i(1)]]
  have "spaced 8 (xs @ join_next ((b, n, f) # ys)) (unat (bump s))"
    using m(1) jl(1) unfolding spaced_append by blast
  moreover have "bytes (xs @ join_next ((b, n, f) # ys)) = page_bytes hp"
    using i(5) jl(2) by (simp only: bytes_simps)
  moreover have "pmm_inv lo (merge_next b s) live" by (rule pmm_inv_frame_cong [OF _ _ _ i(1)]) simp_all
  ultimately show ?thesis using i(2) dseg_merge_next [OF i(3) spaced_distinct [OF i(4)]]
    unfolding heap_inv_def by simp
qed

lemma set_free_inv:
  assumes "heap_inv lo s live hp (xs @ (b, n, f) # ys)"
  shows "heap_inv lo (upd_blk b (\<lambda>r. r\<lparr>is_free := g\<rparr>) s) live hp (xs @ (b, n, g) # ys)"
proof -
  from assms(1) obtain l where i: "pmm_inv lo s live" "hp \<subseteq> live"
    "dseg (blk s) 0 (head s) (xs @ (b, n, f) # ys) l 0" "spaced 8 (xs @ (b, n, f) # ys) (unat (bump s))"
    "bytes (xs @ (b, n, f) # ys) = page_bytes hp" by (auto simp: heap_inv_def)
  have "pmm_inv lo (upd_blk b (\<lambda>r. r\<lparr>is_free := g\<rparr>) s) live"
    by (rule pmm_inv_frame_cong [OF _ _ _ i(1)]) simp_all
  moreover have "spaced 8 (xs @ (b, n, g) # ys) (unat (bump s))" using i(4) by (simp add: spaced_append)
  ultimately show ?thesis
    using i(2,5) dseg_set_free [OF i(3) spaced_distinct [OF i(4)], of g] by (auto simp: heap_inv_def)
qed

lemma kfree_inv:
  assumes inv: "heap_inv lo s live hp bs" and b: "(b, n, f) \<in> set bs"
  shows "heap_inv lo (kfree (b + HDR) s) live hp (abs_free b bs)"
proof -
  obtain xs ys where bs: "bs = xs @ (b, n, f) # ys" using b by (meson split_list)
  have dist: "distinct (map fst bs)" and b0: "unat b \<ge> 8" "unat b + 32 \<le> 0x50000000"
    using inv spaced_distinct spaced_mem [of 8 bs "unat (bump s)" b n f] b bump_bound [of lo s live]
    by (auto simp: heap_inv_def)
  have "unat (b + HDR) = unat b + 32" using b0 by (simp add: HDR_def unat_word_ariths)
  then have "b + HDR \<noteq> 0" by auto
  then have kf: "kfree (b + HDR) s = merge_prev b (merge_next b (upd_blk b (\<lambda>r. r\<lparr>is_free := True\<rparr>) s))"
    by (simp add: kfree_def Let_def)
  define t where "t = merge_next b (upd_blk b (\<lambda>r. r\<lparr>is_free := True\<rparr>) s)"
  have t: "heap_inv lo t live hp (xs @ join_next ((b, n, True) # ys))"
    unfolding t_def by (rule merge_next_inv [OF set_free_inv [OF inv [unfolded bs]]])
  obtain n' ys' where j: "join_next ((b, n, True) # ys) = (b, n', True) # ys'" using join_next_head by blast
  obtain l where d: "dseg (blk t) 0 (head t) (xs @ (b, n', True) # ys') l 0"
    using t j by (auto simp: heap_inv_def)
  have bz: "b \<noteq> 0" using b0 by auto
  have af: "abs_free b bs =
    (if xs \<noteq> [] \<and> snd (snd (last xs)) then butlast xs @ join_next (last xs # (b, n', True) # ys')
     else xs @ (b, n', True) # ys')"
    unfolding bs using abs_free_split [of xs b n f ys] dist bs j by simp
  show ?thesis
  proof (cases xs rule: rev_cases)
    case Nil
    then have "prv (blk t b) = 0" using d by auto
    then have "merge_prev b t = t" by (simp add: merge_prev_def Let_def)
    then show ?thesis using t af j Nil kf by (simp add: t_def)
  next
    case (snoc ws p)
    obtain pa k g where p: "p = (pa, k, g)" by (cases p)
    have "merge_prev b t = (if g then merge_next pa t else t)"
      by (rule merge_prev_next [of t ws pa k g b n' ys' l]) (use d snoc p bz in simp_all)
    then show ?thesis
      using t j snoc p af kf merge_next_inv [of lo t live hp ws pa k g "(b, n', True) # ys'"]
      by (cases g) (simp_all add: t_def)
  qed
qed

lemma page_bytes_frames:
  assumes "4096 dvd unat b" "4096 dvd unat b'" "b \<le> b'"
  shows "page_bytes (frames b b') = {unat b ..< unat b'}"
proof (intro set_eqI iffI)
  fix x assume "x \<in> page_bytes (frames b b')"
  then obtain p where p: "b \<le> p" "p < b'" "4096 dvd unat p" "unat p \<le> x" "x < unat p + 4096"
    by (auto simp: page_bytes_def frames_def)
  have "unat p < unat b'" using p(2) by (simp add: word_less_nat_alt)
  then have "unat p + 4096 \<le> unat b'" using p(3) assms(2) by (auto simp: dvd_def)
  moreover have "unat b \<le> unat p" using p(1) by (simp add: word_le_nat_alt)
  ultimately show "x \<in> {unat b ..< unat b'}" using p by simp
next
  fix x assume x: "x \<in> {unat b ..< unat b'}"
  define p :: u64 where "p = of_nat (x div 4096 * 4096)"
  have "unat b' < 2 ^ LENGTH(64)" by (rule unsigned_less)
  then have "x < 2 ^ 64" using x by simp
  then have up: "unat p = x div 4096 * 4096" unfolding p_def unat_of_nat by simp
  have "unat b \<le> unat p" using assms(1) x up by (auto simp: dvd_def)
  moreover have "unat p \<le> x" "x < unat p + 4096" unfolding up by (simp_all add: dividend_less_div_times)
  ultimately show "x \<in> page_bytes (frames b b')" using x up
    unfolding page_bytes_def frames_def
    by (auto simp: word_le_nat_alt word_less_nat_alt intro!: exI [of _ p])
qed

definition grow_pages :: "u64 \<Rightarrow> nat" where
  "grow_pages need = (unat need + 4127) div 4096"

lemma grow_heap_cases:
  assumes inv: "heap_inv lo s live hp bs" and need: "unat need \<le> 0x40000000"
  shows "(unat (bump s) + grow_pages need * 4096 > 0x50000000 \<and> grow_heap need s = Some (0, s)) \<or>
    (\<exists>s' n. grow_heap need s = Some (bump s, s') \<and> bump s \<noteq> 0 \<and>
       unat (bump s') = unat (bump s) + grow_pages need * 4096 \<and> unat n = grow_pages need * 4096 - 32 \<and>
       heap_inv lo s' (live \<union> frames (bump s) (bump s')) (hp \<union> frames (bump s) (bump s'))
         (bs @ [(bump s, n, True)]))"
proof -
  from inv obtain l where i: "pmm_inv lo s live" "hp \<subseteq> live"
    "dseg (blk s) 0 (head s) bs l 0" "spaced 8 bs (unat (bump s))"
    "bytes bs = page_bytes hp" by (auto simp: heap_inv_def)
  define pages where "pages = (HDR + need + PAGE_SIZE - 1) div PAGE_SIZE"
  have up: "unat pages = grow_pages need"
  proof -
    have e: "HDR + need + PAGE_SIZE - 1 = need + 4127" by (simp add: HDR_def PAGE_SIZE_def)
    have "unat (need + 4127) = unat need + 4127" using need by (simp add: unat_word_ariths)
    then show ?thesis unfolding pages_def grow_pages_def e by (simp add: PAGE_SIZE_def unat_div)
  qed
  have gp: "1 \<le> grow_pages need" "grow_pages need * 4096 \<le> 0x50000000"
    using need by (simp_all add: grow_pages_def)
  obtain b t where bt: "pmm_alloc_pages pages s = (b, t)" by fastforce
  note pc = pmm_alloc_pages_cases [OF i(1) bt]
  show ?thesis
  proof (cases "b = 0")
    case True
    then have "t = s" "unat (bump s) + grow_pages need * 4096 > 0x50000000" using pc gp up by auto
    then show ?thesis using True bt by (simp add: grow_heap_def pages_def Let_def)
  next
    case False
    have t: "b = bump s" "unat (bump t) = unat (bump s) + grow_pages need * 4096" "bump s \<le> bump t"
      "live \<inter> frames b (bump t) = {}" "pmm_inv lo t (live \<union> frames b (bump t))"
      using pc gp up False by auto
    have tk: "blk t = blk s" "head t = head s"
      using bt False by (auto simp: pmm_alloc_pages_def Let_def split: if_splits)
    define n where "n = pages * PAGE_SIZE - HDR"
    have un: "unat n = grow_pages need * 4096 - 32"
    proof -
      have "unat (pages * PAGE_SIZE) = grow_pages need * 4096"
        using gp up by (simp add: PAGE_SIZE_def unat_word_ariths)
      then show ?thesis using gp unfolding n_def HDR_def
        by (subst unat_sub) (auto simp: word_le_nat_alt)
    qed
    define F where "F = \<lparr>size = n, is_free = True, nxt = 0, prv = 0\<rparr>"
    have nb: "b \<notin> fst ` set bs"
    proof
      assume "b \<in> fst ` set bs"
      then obtain k g where "(b, k, g) \<in> set bs" by force
      from spaced_mem [OF i(4) this] t(1) show False by simp
    qed
    have sp: "spaced 8 (bs @ [(b, n, True)]) (unat (bump t))"
    proof -
      have "4096 dvd unat (bump s)" using i(1) by (simp add: pmm_inv_def)
      then have "8 dvd unat (bump s)" by (rule dvd_trans [rotated]) simp
      moreover have "8 dvd grow_pages need * 4096 - 32" by (rule dvd_diff_nat) simp_all
      ultimately have "spaced (unat (bump s)) [(b, n, True)] (unat (bump t))"
        using t(1,2) un gp by simp
      with i(4) show ?thesis unfolding spaced_append by blast
    qed
    have by': "bytes (bs @ [(b, n, True)]) = page_bytes (hp \<union> frames b (bump t))"
    proof -
      have "page_bytes (frames b (bump t)) = {unat b ..< unat (bump t)}"
        using page_bytes_frames [of b "bump t"] i(1) t by (auto simp: pmm_inv_def)
      then show ?thesis using i(5) un t gp by (simp add: page_bytes_def)
    qed
    have "\<exists>s'. grow_heap need s = Some (b, s') \<and> mem s' = mem t \<and> bump s' = bump t \<and> free_list s' = free_list t \<and>
        (\<exists>l'. dseg (blk s') 0 (head s') (bs @ [(b, n, True)]) l' 0)"
    proof (cases "bs = []")
      case True
      then have "head s = 0" using i(3) by simp
      then show ?thesis using False bt True tk
        by (simp add: grow_heap_def pages_def [symmetric] Let_def n_def)
    next
      case ne: False
      then have h0: "head s \<noteq> 0" using i(3) by (cases bs) auto
      have d1: "dseg ((blk s)(b := F)) 0 (head s) bs l 0" using i(3) nb by (simp add: dseg_upd)
      have lb: "last_block ((blk s)(b := F)) (head s) = Some l" "l = fst (last bs)"
        using last_block_dseg [OF d1 ne] by simp_all
      obtain xs a k g where bs: "bs = xs @ [(a, k, g)]" using ne by (metis prod_cases3 rev_exhaust)
      have la: "l = a" using lb(2) bs by simp
      have ab: "a \<noteq> b" "a \<notin> fst ` set xs" "b \<notin> fst ` set xs"
        using nb bs spaced_distinct [OF i(4)] by auto
      define h where "h = ((blk s)(b := F, a := (blk s a)\<lparr>nxt := b\<rparr>, b := F\<lparr>prv := a\<rparr>))"
      have gh: "grow_heap need s = Some (b, upd_blk b (\<lambda>r. r\<lparr>prv := a\<rparr>) (upd_blk a (\<lambda>r. r\<lparr>nxt := b\<rparr>)
          (upd_blk b (\<lambda>_. F) t)))"
        using False bt h0 tk lb la
        by (simp add: grow_heap_def pages_def [symmetric] Let_def n_def F_def)
      obtain m where m: "dseg (blk s) 0 (head s) xs m a" "a \<noteq> 0" "prv (blk s a) = m" "size (blk s a) = k"
        "is_free (blk s a) = g" using i(3) bs by (auto simp: dseg_append)
      have hx: "dseg h 0 (head s) xs m a"
        using ab by (intro iffD1 [OF dseg_cong m(1)]) (auto simp: h_def)
      have "dseg h m a [(a, k, g), (b, n, True)] b 0"
        using m ab False by (auto simp: h_def F_def)
      with hx have "dseg h 0 (head s) (bs @ [(b, n, True)]) b 0"
        unfolding bs append_assoc append_Cons append_Nil by (subst dseg_append) blast
      then show ?thesis using gh ab tk by (auto simp: h_def)
    qed
    then obtain s' where s': "grow_heap need s = Some (b, s')" "mem s' = mem t" "bump s' = bump t"
      "free_list s' = free_list t" "\<exists>l'. dseg (blk s') 0 (head s') (bs @ [(b, n, True)]) l' 0" by blast
    have "pmm_inv lo s' (live \<union> frames b (bump t))" by (rule pmm_inv_frame_cong [OF s'(2-4) t(5)])
    then have "heap_inv lo s' (live \<union> frames b (bump s')) (hp \<union> frames b (bump s')) (bs @ [(b, n, True)])"
      using s' sp by' i(2) unfolding heap_inv_def by auto
    then show ?thesis using s' t un False by auto
  qed
qed

lemma kmalloc_cases:
  assumes inv: "heap_inv lo s live hp bs" and sz: "0 < sz" "unat sz \<le> 0x40000000"
  shows "case abs_alloc (ALIGN8 sz) bs of
      Some (b, bs') \<Rightarrow> \<exists>s'. kmalloc sz s = Some (b + HDR, s') \<and> bump s' = bump s \<and> mem s' = mem s \<and>
        heap_inv lo s' live hp bs'
    | None \<Rightarrow> if unat (bump s) + grow_pages (ALIGN8 sz) * 4096 > 0x50000000 then kmalloc sz s = Some (0, s)
        else \<exists>s' n. kmalloc sz s = Some (bump s + HDR, s') \<and>
          unat (bump s') = unat (bump s) + grow_pages (ALIGN8 sz) * 4096 \<and>
          unat n = grow_pages (ALIGN8 sz) * 4096 - 32 \<and>
          heap_inv lo s' (live \<union> frames (bump s) (bump s')) (hp \<union> frames (bump s) (bump s'))
            (bs @ take_chunk (ALIGN8 sz) (bump s, n, True))"
proof -
  from inv obtain l where d: "dseg (blk s) 0 (head s) bs l 0" and sp: "spaced 8 bs (unat (bump s))"
    by (auto simp: heap_inv_def)
  note a8 = align8 [OF sz(2,1)]
  note ff = first_fit_dseg [OF d, of "ALIGN8 sz"]
  have nz: "sz \<noteq> 0" using sz(1) by auto
  show ?thesis
  proof (cases "abs_alloc (ALIGN8 sz) bs")
    case (Some p)
    then obtain b bs' where p: "abs_alloc (ALIGN8 sz) bs = Some (b, bs')" by (cases p) auto
    from abs_alloc_Some [OF p] obtain xs n ys where
      bs: "bs = xs @ (b, n, True) # ys" "ALIGN8 sz \<le> n" "bs' = xs @ take_chunk (ALIGN8 sz) (b, n, True) @ ys" by blast
    have b0: "b \<noteq> 0" using spaced_mem [OF sp, of b n True] bs by auto
    have "kmalloc sz s = Some (take_block b (ALIGN8 sz) s)"
      using nz ff p b0 by (simp add: kmalloc_def Let_def)
    moreover have "heap_inv lo (snd (take_block b (ALIGN8 sz) s)) live hp bs'"
      using take_block_inv [of lo s live hp xs b n True ys "ALIGN8 sz"] inv bs a8 by (simp add: word_le_nat_alt)
    ultimately show ?thesis using p
      by (auto simp: prod_eq_iff intro!: exI [of _ "snd (take_block b (ALIGN8 sz) s)"])
  next
    case None
    have km: "kmalloc sz s = (case grow_heap (ALIGN8 sz) s of None \<Rightarrow> None
        | Some (b, s) \<Rightarrow> if b = 0 then Some (0, s) else Some (take_block b (ALIGN8 sz) s))"
      using nz ff None by (simp add: kmalloc_def Let_def)
    from grow_heap_cases [OF inv a8(5)] show ?thesis
    proof (elim disjE exE conjE)
      assume "grow_heap (ALIGN8 sz) s = Some (0, s)" "unat (bump s) + grow_pages (ALIGN8 sz) * 4096 > 0x50000000"
      then show ?thesis using None km by simp
    next
      fix t n assume g: "grow_heap (ALIGN8 sz) s = Some (bump s, t)" "bump s \<noteq> 0"
        "unat (bump t) = unat (bump s) + grow_pages (ALIGN8 sz) * 4096"
        "unat n = grow_pages (ALIGN8 sz) * 4096 - 32"
        "heap_inv lo t (live \<union> frames (bump s) (bump t)) (hp \<union> frames (bump s) (bump t)) (bs @ [(bump s, n, True)])"
      have "unat (ALIGN8 sz) \<le> unat n" using g(4) by (simp add: grow_pages_def)
      from take_block_inv [OF g(5) this a8(2,3)]
      have "heap_inv lo (snd (take_block (bump s) (ALIGN8 sz) t)) (live \<union> frames (bump s) (bump t))
          (hp \<union> frames (bump s) (bump t)) (bs @ take_chunk (ALIGN8 sz) (bump s, n, True))" by simp
      moreover have "unat (bump t) \<le> 0x50000000"
        using g(5) bump_bound by (auto simp: heap_inv_def)
      ultimately show ?thesis using None km g
        by (auto simp: prod_eq_iff intro!: exI [of _ "snd (take_block (bump s) (ALIGN8 sz) t)"] exI [of _ n])
    qed
  qed
qed

lemma kheap_refines_parts:
  assumes "heap_inv lo s live hp bs"
  shows "0 < sz \<Longrightarrow> unat sz \<le> 0x40000000 \<Longrightarrow> case abs_alloc (ALIGN8 sz) bs of
      Some (b, bs') \<Rightarrow> \<exists>s'. kmalloc sz s = Some (b + HDR, s') \<and> bump s' = bump s \<and> mem s' = mem s \<and>
        heap_inv lo s' live hp bs'
    | None \<Rightarrow> if unat (bump s) + grow_pages (ALIGN8 sz) * 4096 > 0x50000000 then kmalloc sz s = Some (0, s)
        else \<exists>s' n. kmalloc sz s = Some (bump s + HDR, s') \<and>
          unat (bump s') = unat (bump s) + grow_pages (ALIGN8 sz) * 4096 \<and>
          unat n = grow_pages (ALIGN8 sz) * 4096 - 32 \<and>
          heap_inv lo s' (live \<union> frames (bump s) (bump s')) (hp \<union> frames (bump s) (bump s'))
            (bs @ take_chunk (ALIGN8 sz) (bump s, n, True))"
    "(b, n, False) \<in> set bs \<Longrightarrow> heap_inv lo (kfree (b + HDR) s) live hp (abs_free b bs)"
  using kmalloc_cases [OF assms] kfree_inv [OF assms] by blast+

text \<open>
  C3. On a well-formed heap \<open>kmalloc\<close> and \<open>kfree\<close> implement first fit with splitting and merging
  on the list of chunks. An allocation takes the first free chunk that is large enough; when none
  is, it appends the pages it needs, and it returns NULL exactly when RAM has no run left. Freeing
  merges the chunk with a free neighbour on either side. Every byte of the heap's pages stays in
  exactly one chunk, so nothing is lost.
\<close>

theorem kheap_refines:
  assumes "heap_inv lo s live hp bs"
  shows "(0 < sz \<longrightarrow> unat sz \<le> 0x40000000 \<longrightarrow> (case abs_alloc (ALIGN8 sz) bs of
      Some (b, bs') \<Rightarrow> \<exists>s'. kmalloc sz s = Some (b + HDR, s') \<and> bump s' = bump s \<and> mem s' = mem s \<and>
        heap_inv lo s' live hp bs'
    | None \<Rightarrow> if unat (bump s) + grow_pages (ALIGN8 sz) * 4096 > 0x50000000 then kmalloc sz s = Some (0, s)
        else \<exists>s' n. kmalloc sz s = Some (bump s + HDR, s') \<and>
          unat (bump s') = unat (bump s) + grow_pages (ALIGN8 sz) * 4096 \<and>
          unat n = grow_pages (ALIGN8 sz) * 4096 - 32 \<and>
          heap_inv lo s' (live \<union> frames (bump s) (bump s')) (hp \<union> frames (bump s) (bump s'))
            (bs @ take_chunk (ALIGN8 sz) (bump s, n, True)))) \<and>
    ((b, n, False) \<in> set bs \<longrightarrow> heap_inv lo (kfree (b + HDR) s) live hp (abs_free b bs))"
  by (intro conjI impI; rule kheap_refines_parts [OF assms]; assumption?)

subsection \<open>Runs of the heap\<close>

text \<open>The chunks in use: their address and size.\<close>

definition used :: "chunk list \<Rightarrow> (u64 \<times> u64) set" where
  "used bs = {(a, n). (a, n, False) \<in> set bs}"

lemma used_simps [simp]: "used [] = {}" "used ((a, n, f) # bs) = (if f then used bs else insert (a, n) (used bs))"
  "used (xs @ ys) = used xs \<union> used ys"
  by (auto simp: used_def)

lemma used_join: "used (join_next ((b, n, True) # ys)) = used ys"
  by (cases "(b, n, True) # ys" rule: join_next.cases) auto

lemma used_free:
  assumes "distinct (map fst bs)" "(b, n, False) \<in> set bs"
  shows "used (abs_free b bs) = used bs - {(b, n)}"
proof -
  obtain xs ys where bs: "bs = xs @ (b, n, False) # ys" using assms(2) by (meson split_list)
  have nb: "(b, n) \<notin> used xs" "(b, n) \<notin> used ys" using assms(1) bs by (auto simp: used_def image_iff)
  obtain n' ys' where j: "join_next ((b, n, True) # ys) = (b, n', True) # ys'" using join_next_head by blast
  then have u: "used ys' = used ys" using used_join [of b n ys] by simp
  note af = abs_free_split [of xs b n False ys]
  show ?thesis
  proof (cases xs rule: rev_cases)
    case Nil
    with af assms(1) bs j u nb show ?thesis by auto
  next
    case (snoc ws p)
    obtain pa k g where "p = (pa, k, g)" by (cases p)
    with af assms(1) bs j u nb snoc used_join [of pa k "(b, n', True) # ys'"] show ?thesis by auto
  qed
qed

lemma used_take: "used (take_chunk sz (b, n, f)) = {(b, if unat n < unat sz + 40 then n else sz)}"
  by (simp add: take_chunk_def)

text \<open>
  The kernel's use of the heap beside the page manager: objects are allocated and freed, pages that
  are not the heap's are allocated, written and given back by others. \<open>objs\<close> holds the requested
  size of every object in use.
\<close>

inductive heap_reach :: "u64 \<Rightarrow> kheap \<Rightarrow> u64 set \<Rightarrow> u64 set \<Rightarrow> (u64 \<Rightarrow> u64 option) \<Rightarrow> bool" for kernel_end where
  init: "heap_reach kernel_end (kheap_init (pmm_init kernel_end s)) {} {} Map.empty"
| malloc: "heap_reach kernel_end s live hp objs \<Longrightarrow> 0 < n \<Longrightarrow> n \<le> 0x40000000 \<Longrightarrow>
    kmalloc n s = Some (p, s') \<Longrightarrow> p \<noteq> 0 \<Longrightarrow>
    heap_reach kernel_end s' (live \<union> frames (bump s) (bump s')) (hp \<union> frames (bump s) (bump s')) (objs(p \<mapsto> n))"
| mfree: "heap_reach kernel_end s live hp objs \<Longrightarrow> objs p \<noteq> None \<Longrightarrow>
    heap_reach kernel_end (kfree p s) live hp (objs(p := None))"
| page: "heap_reach kernel_end s live hp objs \<Longrightarrow> pmm_alloc s = (p, s') \<Longrightarrow> p \<noteq> 0 \<Longrightarrow>
    heap_reach kernel_end s' (insert p live) hp objs"
| page_free: "heap_reach kernel_end s live hp objs \<Longrightarrow> p \<in> live - hp \<Longrightarrow> pmm_free p s = Some s' \<Longrightarrow>
    heap_reach kernel_end s' (live - {p}) hp objs"
| fill: "heap_reach kernel_end s live hp objs \<Longrightarrow> p \<in> live \<Longrightarrow> heap_reach kernel_end (store p i v s) live hp objs"

definition objs_ok :: "(u64 \<Rightarrow> u64 option) \<Rightarrow> chunk list \<Rightarrow> bool" where
  "objs_ok objs bs \<longleftrightarrow>
    (\<forall>p m. objs p = Some m \<longrightarrow> (\<exists>n. (p - HDR, n) \<in> used bs \<and> m \<le> n)) \<and>
    (\<forall>a n. (a, n) \<in> used bs \<longrightarrow> objs (a + HDR) \<noteq> None)"

lemma heap_inv_cong:
  assumes "heap_inv lo s live hp bs" "blk s' = blk s" "head s' = head s" "pmm_inv lo s' live'"
    "hp \<subseteq> live'" "bump s \<le> bump s'"
  shows "heap_inv lo s' live' hp bs"
  using assms spaced_mono [of 8 bs "unat (bump s)" 8 "unat (bump s')"]
  by (auto simp: heap_inv_def word_le_nat_alt)

lemma objs_ok_chunk:
  assumes "objs_ok objs bs" "objs p = Some m"
  shows "\<exists>n. (p - HDR, n) \<in> used bs \<and> m \<le> n"
  using conjunct1 [OF assms(1) [unfolded objs_ok_def]] assms(2) by (elim allE impE) assumption+

lemma objs_ok_used: "objs_ok objs bs \<Longrightarrow> (a, n) \<in> used bs \<Longrightarrow> objs (a + HDR) \<noteq> None"
  unfolding objs_ok_def by (drule conjunct2) blast

lemma objs_ok_insert:
  assumes o: "objs_ok objs bs" and u: "used bs' = insert (b, z) (used bs)" and k: "m \<le> z"
  shows "objs_ok (objs(b + HDR \<mapsto> m)) bs'"
  unfolding objs_ok_def u
proof (intro conjI allI impI)
  fix p m' assume pm: "(objs(b + HDR \<mapsto> m)) p = Some m'"
  show "\<exists>n. (p - HDR, n) \<in> insert (b, z) (used bs) \<and> m' \<le> n"
  proof (cases "p = b + HDR")
    case True
    then have "m' \<le> z" "p - HDR = b" using pm k by simp_all
    then show ?thesis by blast
  next
    case False
    then show ?thesis using pm objs_ok_chunk [OF o, of p m'] by fastforce
  qed
next
  fix a n assume "(a, n) \<in> insert (b, z) (used bs)"
  then show "(objs(b + HDR \<mapsto> m)) (a + HDR) \<noteq> None"
    using objs_ok_used [OF o, of a n] by (cases "a = b") simp_all
qed

lemma objs_ok_malloc:
  assumes "objs_ok objs bs" "used bs = used xs \<union> used ys" "ALIGN8 m \<le> k" "m \<le> ALIGN8 m"
  shows "objs_ok (objs(b + HDR \<mapsto> m)) (xs @ take_chunk (ALIGN8 m) (b, k, True) @ ys)"
proof (rule objs_ok_insert [OF assms(1)])
  show "used (xs @ take_chunk (ALIGN8 m) (b, k, True) @ ys) =
      insert (b, if unat k < unat (ALIGN8 m) + 40 then k else ALIGN8 m) (used bs)"
    by (simp add: used_take assms(2) Un_insert_right)
  show "m \<le> (if unat k < unat (ALIGN8 m) + 40 then k else ALIGN8 m)"
    using order_trans [OF assms(4,3)] assms(4) by simp
qed

lemma heap_reach_inv:
  assumes "heap_reach kernel_end s live hp objs" "0 < kernel_end" "kernel_end \<le> RAM_END"
  shows "\<exists>bs. heap_inv (align_up kernel_end PAGE_SIZE) s live hp bs \<and> objs_ok objs bs"
  using assms(1)
proof (induction rule: heap_reach.induct)
  case (init s)
  have "pmm_inv (align_up kernel_end PAGE_SIZE) (kheap_init (pmm_init kernel_end s)) {}"
    unfolding pmm_inv_def using align_up_page [OF assms(3)] assms(2)
    by (auto simp: pmm_init_def kheap_init_def frames_def intro!: exI [of _ "[]"])
  moreover from this have "8 \<le> unat (bump (kheap_init (pmm_init kernel_end s)))"
    using align_up_page(1) [OF assms(3)] unfolding pmm_inv_def
    by (auto simp: dvd_def word_less_nat_alt kheap_init_def pmm_init_def word_le_nat_alt)
  ultimately show ?case
    by (intro exI [of _ "[]"]) (auto simp: heap_inv_def objs_ok_def page_bytes_def kheap_init_def)
next
  case (malloc s live hp objs n p s')
  then obtain bs where i: "heap_inv (align_up kernel_end PAGE_SIZE) s live hp bs" "objs_ok objs bs" by blast
  have n: "unat n \<le> 0x40000000" using malloc.hyps by (simp add: word_le_nat_alt)
  note a8 = align8 [OF n malloc.hyps(2)]
  have le: "n \<le> ALIGN8 n" using a8(4) by (simp add: word_le_nat_alt)
  note km = kmalloc_cases [OF i(1) malloc.hyps(2) n]
  have dist: "distinct (map fst bs)" using i(1) spaced_distinct by (auto simp: heap_inv_def)
  show ?case
  proof (cases "abs_alloc (ALIGN8 n) bs")
    case (Some q)
    then obtain b bs' where q: "abs_alloc (ALIGN8 n) bs = Some (b, bs')" by (cases q) auto
    from abs_alloc_Some [OF q] obtain xs k ys where
      bs: "bs = xs @ (b, k, True) # ys" "ALIGN8 n \<le> k" "bs' = xs @ take_chunk (ALIGN8 n) (b, k, True) @ ys" by blast
    have r: "p = b + HDR" "bump s' = bump s" "heap_inv (align_up kernel_end PAGE_SIZE) s' live hp bs'"
      using km q malloc.hyps(4) by auto
    have "objs_ok (objs(p \<mapsto> n)) bs'"
      using objs_ok_malloc [OF i(2), of xs ys n k b] bs le r(1) by simp
    moreover have "frames (bump s) (bump s') = {}" using r(2) by (auto simp: frames_def)
    ultimately show ?thesis using r(3) by (auto simp del: fun_upd_apply)
  next
    case None
    with km malloc.hyps(4,5) obtain k where r: "p = bump s + HDR"
      "unat k = grow_pages (ALIGN8 n) * 4096 - 32"
      "heap_inv (align_up kernel_end PAGE_SIZE) s' (live \<union> frames (bump s) (bump s')) (hp \<union> frames (bump s) (bump s'))
            (bs @ take_chunk (ALIGN8 n) (bump s, k, True))"
      by (auto split: if_splits)
    have "ALIGN8 n \<le> k" using r(2) by (simp add: word_le_nat_alt grow_pages_def)
    then have "objs_ok (objs(p \<mapsto> n)) (bs @ take_chunk (ALIGN8 n) (bump s, k, True))"
      using objs_ok_malloc [OF i(2), of bs "[]" n k "bump s"] le r(1) by simp
    with r(3) show ?thesis by blast
  qed
next
  case (mfree s live hp objs p)
  then obtain bs where i: "heap_inv (align_up kernel_end PAGE_SIZE) s live hp bs" "objs_ok objs bs" by blast
  from mfree.hyps(2) obtain m where "objs p = Some m" by auto
  then obtain n where "(p - HDR, n) \<in> used bs" using objs_ok_chunk [OF i(2)] by blast
  then obtain a where a: "(a, n) \<in> used bs" "p = a + HDR" by (metis diff_add_cancel)
  have an: "(a, n, False) \<in> set bs" using a(1) by (simp add: used_def)
  have dist: "distinct (map fst bs)" using i(1) spaced_distinct by (auto simp: heap_inv_def)
  have u: "used (abs_free a bs) = used bs - {(a, n)}" by (rule used_free [OF dist an])
  have un: "(a, k) \<in> used bs \<Longrightarrow> k = n" for k
    using dist an by (auto simp: used_def dest: eq_key_imp_eq_value)
  have "objs_ok (objs(p := None)) (abs_free a bs)"
    unfolding objs_ok_def u
  proof (intro conjI allI impI)
    fix q m assume q: "(objs(p := None)) q = Some m"
    then have "q \<noteq> p" "objs q = Some m" by (auto split: if_splits)
    moreover from this(1) have "q - HDR \<noteq> a" using a(2) by (auto simp: algebra_simps)
    ultimately show "\<exists>k. (q - HDR, k) \<in> used bs - {(a, n)} \<and> m \<le> k"
      using objs_ok_chunk [OF i(2)] by blast
  next
    fix c k assume "(c, k) \<in> used bs - {(a, n)}"
    then have "(c, k) \<in> used bs" "c \<noteq> a" using un by auto
    then show "(objs(p := None)) (c + HDR) \<noteq> None"
      using objs_ok_used [OF i(2)] a(2) by simp
  qed
  with kfree_inv [OF i(1) an] a(2) show ?case by blast
next
  case (page s live hp objs p s')
  then obtain bs where i: "heap_inv (align_up kernel_end PAGE_SIZE) s live hp bs" "objs_ok objs bs" by blast
  have "blk s' = blk s" "head s' = head s"
    using page.hyps(2) by (auto simp: pmm_alloc_def Let_def split: if_splits)
  moreover have "pmm_inv (align_up kernel_end PAGE_SIZE) s' (insert p live)" "bump s \<le> bump s'"
    using pmm_alloc_cases [of _ s live p s'] i(1) page.hyps(2,3) by (auto simp: heap_inv_def)
  ultimately have "heap_inv (align_up kernel_end PAGE_SIZE) s' (insert p live) hp bs"
    using i(1) by (intro heap_inv_cong [OF i(1)]) (auto simp: heap_inv_def)
  with i(2) show ?case by blast
next
  case (page_free s live hp objs p s')
  then obtain bs where i: "heap_inv (align_up kernel_end PAGE_SIZE) s live hp bs" "objs_ok objs bs" by blast
  have "blk s' = blk s" "head s' = head s"
    using page_free.hyps(3) by (auto simp: pmm_free_def store_def split: option.splits bool.splits)
  moreover have "pmm_inv (align_up kernel_end PAGE_SIZE) s' (live - {p})" "bump s' = bump s"
    using pmm_free_live [of _ s live p] i(1) page_free.hyps(2,3) by (auto simp: heap_inv_def)
  ultimately have "heap_inv (align_up kernel_end PAGE_SIZE) s' (live - {p}) hp bs"
    using i(1) page_free.hyps(2) by (intro heap_inv_cong [OF i(1)]) (auto simp: heap_inv_def)
  with i(2) show ?case by blast
next
  case (fill s live hp objs p i v)
  then obtain bs where i: "heap_inv (align_up kernel_end PAGE_SIZE) s live hp bs" "objs_ok objs bs" by blast
  have "heap_inv (align_up kernel_end PAGE_SIZE) (store p i v s) live hp bs"
    using i(1) fill.hyps(2) pmm_inv_store
    by (intro heap_inv_cong [OF i(1)]) (auto simp: heap_inv_def store_def)
  with i(2) show ?case by blast
qed

lemma kheap_no_overlap_parts:
  assumes "heap_reach kernel_end s live hp objs" "0 < kernel_end" "kernel_end \<le> RAM_END"
    and "objs p = Some n"
  shows "8 dvd unat p" "{unat p ..< unat p + unat n} \<subseteq> page_bytes hp"
    "objs q = Some m \<Longrightarrow> q \<noteq> p \<Longrightarrow> {unat p ..< unat p + unat n} \<inter> {unat q ..< unat q + unat m} = {}"
    "fst (pmm_alloc s) \<notin> hp"
    "0 < k \<Longrightarrow> k \<le> 0x40000000 \<Longrightarrow> kmalloc k s \<noteq> None"
proof -
  obtain bs where i: "heap_inv (align_up kernel_end PAGE_SIZE) s live hp bs" "objs_ok objs bs"
    using heap_reach_inv [OF assms(1-3)] by blast
  have sp: "spaced 8 bs (unat (bump s))" and bb: "unat (bump s) \<le> 0x50000000"
    and hp: "hp \<subseteq> live" "pmm_inv (align_up kernel_end PAGE_SIZE) s live" "bytes bs = page_bytes hp"
    using i(1) bump_bound by (auto simp: heap_inv_def)
  have obj: "\<exists>a j. (a, j, False) \<in> set bs \<and> p = a + HDR \<and> unat p = unat a + 32 \<and> unat n \<le> unat j \<and>
      8 dvd unat p \<and> unat a + 32 + unat j \<le> unat (bump s)"
    if po: "objs p = Some n" for p n
  proof -
    obtain a j where a: "(a, j, False) \<in> set bs" "p = a + HDR" "n \<le> j"
    proof -
      obtain j where "(p - HDR, j) \<in> used bs" "n \<le> j" using objs_ok_chunk [OF i(2) po] by blast
      then show thesis using that [of "p - HDR" j] by (simp add: used_def)
    qed
    have m: "unat a + 32 + unat j \<le> unat (bump s)" "8 dvd unat a" using spaced_mem [OF sp a(1)] by auto
    then have "unat p = unat a + 32" using a(2) bb by (simp add: HDR_def unat_word_ariths)
    with a m show ?thesis by (auto simp: word_le_nat_alt)
  qed
  from obj [OF assms(4)] obtain a j where a: "(a, j, False) \<in> set bs" "p = a + HDR" "unat p = unat a + 32"
    "unat n \<le> unat j" "8 dvd unat p" by blast
  show "8 dvd unat p" by (rule a(5))
  show "{unat p ..< unat p + unat n} \<subseteq> page_bytes hp"
    using a hp(3) [symmetric] by (force simp: bytes_def)
  show "{unat p ..< unat p + unat n} \<inter> {unat q ..< unat q + unat m} = {}"
    if "objs q = Some m" "q \<noteq> p"
  proof -
    from obj [OF that(1)] obtain c k where c: "(c, k, False) \<in> set bs" "q = c + HDR" "unat q = unat c + 32"
      "unat m \<le> unat k" by blast
    have "c \<noteq> a" using that(2) a(2) c(2) by auto
    obtain xs ys where bs: "bs = xs @ (a, j, False) # ys" using a(1) by (meson split_list)
    have "unat c + 32 + unat k \<le> unat a \<or> unat a + 32 + unat j \<le> unat c"
    proof -
      obtain z where z: "spaced 8 xs z" "z \<le> unat a" "spaced (unat a + 32 + unat j) ys (unat (bump s))"
        using sp bs by (auto simp: spaced_append)
      have "(c, k, False) \<in> set xs \<or> (c, k, False) \<in> set ys" using c(1) bs \<open>c \<noteq> a\<close> by auto
      then show ?thesis using spaced_mem [OF z(1)] spaced_mem [OF z(3)] z(2) by fastforce
    qed
    then show ?thesis using a c by auto
  qed
  show "fst (pmm_alloc s) \<notin> hp"
    using pmm_alloc_cases [OF hp(2), of "fst (pmm_alloc s)" "snd (pmm_alloc s)"] hp(1)
      pmm_inv_frame [OF hp(2), of 0] by auto
  show "kmalloc k s \<noteq> None" if "0 < k" "k \<le> 0x40000000"
    using kmalloc_cases [OF i(1) that(1)] that(2)
    by (auto simp: word_le_nat_alt split: option.splits if_splits)
qed

text \<open>
  C30. Whatever the kernel allocates, frees and writes, and whatever pages others take beside the
  heap: every object is 8-byte aligned, lies in the heap's own pages, overlaps no other object and
  no page that \<open>pmm_alloc\<close> would hand out, and an allocation always returns.
\<close>

theorem kheap_no_overlap:
  assumes "heap_reach kernel_end s live hp objs" "0 < kernel_end" "kernel_end \<le> RAM_END"
    and "objs p = Some n"
  shows "(8 dvd unat p) \<and>
    ({unat p ..< unat p + unat n} \<subseteq> page_bytes hp) \<and>
    (objs q = Some m \<longrightarrow> q \<noteq> p \<longrightarrow> {unat p ..< unat p + unat n} \<inter> {unat q ..< unat q + unat m} = {}) \<and>
    (fst (pmm_alloc s) \<notin> hp) \<and>
    (0 < k \<longrightarrow> k \<le> 0x40000000 \<longrightarrow> kmalloc k s \<noteq> None)"
  by (intro conjI impI; rule kheap_no_overlap_parts [OF assms]; assumption?)

text \<open>
  The rounding of the size is not checked: a request of \<open>2 ^ 64 - 1\<close> bytes wraps to 0 and is
  granted by the first free chunk, whatever its size.
\<close>

lemma kmalloc_wraps:
  assumes "heap_inv lo s live hp ((b, n, True) # bs)"
  shows "\<exists>s'. kmalloc (2 ^ 64 - 1) s = Some (b + HDR, s')"
proof -
  have a: "ALIGN8 (2 ^ 64 - 1) = 0" by (simp add: ALIGN8_def)
  obtain l where d: "dseg (blk s) 0 (head s) ((b, n, True) # bs) l 0" using assms by (auto simp: heap_inv_def)
  have "b \<noteq> 0" using d by auto
  moreover have "first_fit (blk s) (head s) 0 = Some b" using first_fit_dseg [OF d, of 0] by simp
  ultimately show ?thesis unfolding kmalloc_def a Let_def by (simp add: prod_eq_iff)
qed

subsection \<open>A concrete run\<close>

definition kheap0 :: kheap where
  "kheap0 = kheap_init (pmm_init 0x40100001 \<lparr>mem = \<lambda>p i. 0, bump = 0, free_list = 0,
     blk = \<lambda>b. \<lparr>size = 0, is_free = False, nxt = 0, prv = 0\<rparr>, head = 0\<rparr>)"

lemma kheap0_facts: "bump kheap0 = 0x40101000" "align_up 0x40100001 PAGE_SIZE = 0x40101000"
  "0 < (0x40100001 :: u64)" "0x40100001 \<le> RAM_END"
  by (simp_all add: kheap0_def kheap_init_def pmm_init_def align_up_def PAGE_SIZE_def RAM_END_def)

lemma kheap0_reach: "heap_reach 0x40100001 kheap0 {} {} Map.empty"
  unfolding kheap0_def by (rule heap_reach.init)

lemma kheap0_inv: "heap_inv 0x40101000 kheap0 {} {} []"
proof -
  obtain bs where bs: "heap_inv (align_up 0x40100001 PAGE_SIZE) kheap0 {} {} bs"
    using heap_reach_inv [OF kheap0_reach kheap0_facts(3,4)] by blast
  then have "bs = []" by (cases bs) (auto simp: heap_inv_def page_bytes_def)
  with bs show ?thesis unfolding kheap0_facts(2) by simp
qed

lemma kheap0_values: "ALIGN8 100 = 104" "grow_pages 104 = 1" "ALIGN8 16 = 16"
  by (simp_all add: ALIGN8_def grow_pages_def)

text \<open>The first allocation of 100 bytes takes a page and splits it; the next takes the rest.\<close>

theorem kheap_refines_witness:
  "\<exists>s' live hp. kmalloc 100 kheap0 = Some (0x40101020, s') \<and>
     heap_inv 0x40101000 s' live hp [(0x40101000, 104, False), (0x40101088, 3928, True)] \<and>
     heap_inv 0x40101000 (kfree 0x40101020 s') live hp [(0x40101000, 4064, True)]"
proof -
  obtain s' n where s': "kmalloc 100 kheap0 = Some (0x40101020, s')" "unat n = 4064"
    "heap_inv 0x40101000 s' (frames (bump kheap0) (bump s')) (frames (bump kheap0) (bump s'))
       (take_chunk 104 (0x40101000, n, True))"
    using kheap_refines [OF kheap0_inv, THEN conjunct1, of 100] by (auto simp: kheap0_values kheap0_facts HDR_def)
  have n: "n = 4064" using s'(2) by (simp add: word_unat_eq_iff)
  have c: "take_chunk 104 (0x40101000, n, True) = [(0x40101000, 104, False), (0x40101088, 3928, True)]"
    by (simp add: take_chunk_def n HDR_def)
  have h: "heap_inv 0x40101000 s' (frames (bump kheap0) (bump s')) (frames (bump kheap0) (bump s'))
       [(0x40101000, 104, False), (0x40101088, 3928, True)]" using s'(3) unfolding c .
  have "heap_inv 0x40101000 (kfree 0x40101020 s') (frames (bump kheap0) (bump s')) (frames (bump kheap0) (bump s'))
       [(0x40101000, 4064, True)]"
    using kheap_refines [OF h, THEN conjunct2, of "0x40101000" 104] by (simp add: HDR_def)
  with s'(1) h show ?thesis by blast
qed

lemma kheap_run:
  "\<exists>s live hp. heap_reach 0x40100001 s live hp [0x40101020 \<mapsto> 100, 0x401010A8 \<mapsto> 16]"
proof -
  obtain s' n where s': "kmalloc 100 kheap0 = Some (0x40101020, s')" "unat n = 4064"
    "heap_inv 0x40101000 s' (frames (bump kheap0) (bump s')) (frames (bump kheap0) (bump s'))
       (take_chunk 104 (0x40101000, n, True))"
    using kmalloc_cases [OF kheap0_inv, of 100] by (auto simp: kheap0_values kheap0_facts HDR_def)
  have n: "n = 4064" using s'(2) by (simp add: word_unat_eq_iff)
  have c: "take_chunk 104 (0x40101000, n, True) = [(0x40101000, 104, False), (0x40101088, 3928, True)]"
    by (simp add: take_chunk_def n HDR_def)
  have a: "abs_alloc (ALIGN8 16) [(0x40101000, 104, False), (0x40101088, 3928, True)] =
      Some (0x40101088, [(0x40101000, 104, False), (0x40101088, 16, False), (0x401010B8, 3880, True)])"
    by (simp add: kheap0_values take_chunk_def HDR_def)
  obtain s'' where s'': "kmalloc 16 s' = Some (0x401010A8, s'')"
    using kmalloc_cases [OF s'(3)[unfolded c], of 16] unfolding a by (auto simp: HDR_def)
  have r1: "heap_reach 0x40100001 s' ({} \<union> frames (bump kheap0) (bump s')) ({} \<union> frames (bump kheap0) (bump s')) [0x40101020 \<mapsto> 100]"
    by (rule heap_reach.malloc [OF kheap0_reach _ _ s'(1)]) simp_all
  from heap_reach.malloc [OF r1 _ _ s''] show ?thesis by auto
qed

theorem kheap_no_overlap_witness:
  "\<exists>s live hp. heap_reach 0x40100001 s live hp [0x40101020 \<mapsto> 100, 0x401010A8 \<mapsto> 16] \<and>
     {0x40101020 ..< 0x40101084} \<inter> {0x401010A8 ..< 0x401010B8::nat} = {} \<and>
     {0x40101020 ..< 0x40101084} \<subseteq> page_bytes hp \<and> fst (pmm_alloc s) \<notin> hp \<and> kmalloc 4096 s \<noteq> None"
proof -
  obtain s live hp where r: "heap_reach 0x40100001 s live hp [0x40101020 \<mapsto> 100, 0x401010A8 \<mapsto> 16]"
    using kheap_run by blast
  have o: "[0x40101020 \<mapsto> 100, 0x401010A8 \<mapsto> 16] (0x40101020 :: u64) = Some (100 :: u64)"
    "[0x40101020 \<mapsto> 100, 0x401010A8 \<mapsto> 16] (0x401010A8 :: u64) = Some (16 :: u64)" by simp_all
  have "{0x40101020 ..< 0x40101084} \<subseteq> page_bytes hp"
    "{0x40101020 ..< 0x40101084} \<inter> {0x401010A8 ..< 0x401010B8::nat} = {}" "kmalloc 4096 s \<noteq> None"
    "fst (pmm_alloc s) \<notin> hp"
    using kheap_no_overlap [OF r kheap0_facts(3,4) o(1), of "0x401010A8" 16 4096] o(2) by simp_all
  with r show ?thesis by blast
qed

end
