(* ===== verification/Vm.thy ===== *)
theory Vm
  imports Pmm
begin

text \<open>
  The kernel's own translation tables (\<open>src/mmu.c\<close>), the per-process address spaces
  (\<open>src/vm.c\<close>) and the loader of program images (\<open>src/elf.c\<close>).

  RAM is the page and word store of the page manager, so the page tables are the words the hardware
  walks: \<open>mem s t i\<close> is descriptor \<open>i\<close> of table \<open>t\<close>. A \<open>struct addrspace\<close> lies in a page of its own
  and its fields are the words 0 to 4 of that page. The bytes of a page are the bytes of its words,
  least significant first. What the code tells the TLB is the list \<open>tlb\<close> of its invalidations and
  the register \<open>ttbr0\<close>.
\<close>

subsection \<open>Descriptors\<close>

definition DESC_TABLE :: u64 where "DESC_TABLE = 3"
definition DESC_BLOCK :: u64 where "DESC_BLOCK = 1"
definition DESC_PAGE :: u64 where "DESC_PAGE = 3"
definition ATTR_AF :: u64 where "ATTR_AF = 0x400"
definition ATTR_SH_INNER :: u64 where "ATTR_SH_INNER = 0x300"
definition ATTR_IDX_NORMAL :: u64 where "ATTR_IDX_NORMAL = 4"
definition AP_RW_ALL :: u64 where "AP_RW_ALL = 0x40"
definition AP_RO_ALL :: u64 where "AP_RO_ALL = 0xC0"
definition ATTR_UXN :: u64 where "ATTR_UXN = 0x40000000000000"
definition ATTR_PXN :: u64 where "ATTR_PXN = 0x20000000000000"
definition ATTR_NG :: u64 where "ATTR_NG = 0x800"
definition PTE_COW :: u64 where "PTE_COW = 0x80000000000000"
definition PTE_SHARED :: u64 where "PTE_SHARED = 0x100000000000000"
definition PA_MASK :: u64 where "PA_MASK = 0x0000FFFFFFFFF000"
definition RAM_BASE :: u64 where "RAM_BASE = 0x40000000"
definition RAM_TOP :: u64 where "RAM_TOP = 0x50000000"

definition USER_CODE_VA :: u64 where "USER_CODE_VA = 0x8000000000"
definition USER_DATA_VA :: u64 where "USER_DATA_VA = 0x8000180000"
definition USER_HEAP_BASE :: u64 where "USER_HEAP_BASE = 0x8010000000"
definition USER_MMAP_BASE :: u64 where "USER_MMAP_BASE = 0x8020000000"
definition USER_STACK_TOP :: u64 where "USER_STACK_TOP = 0x8030000000"

definition base_attr :: u64 where
  "base_attr = ATTR_AF OR ATTR_SH_INNER OR ATTR_IDX_NORMAL OR ATTR_NG"

definition rw_attr :: u64 where
  "rw_attr = ATTR_AF OR ATTR_SH_INNER OR ATTR_IDX_NORMAL OR AP_RW_ALL OR ATTR_UXN OR ATTR_PXN OR ATTR_NG"

definition code_attr :: u64 where
  "code_attr = ATTR_AF OR ATTR_SH_INNER OR ATTR_IDX_NORMAL OR AP_RO_ALL OR ATTR_NG"

definition ro_cow :: u64 where
  "ro_cow = ATTR_AF OR ATTR_SH_INNER OR ATTR_IDX_NORMAL OR AP_RO_ALL OR ATTR_UXN OR ATTR_PXN OR PTE_COW OR ATTR_NG"

subsection \<open>State\<close>

datatype tlb_op = Flush_All | Flush_Asid u16

definition ASID_MAX :: u32 where "ASID_MAX = 0xFFFF"
definition ASID_FREE_MAX :: nat where "ASID_FREE_MAX = 256"

record vm = pmm +
  page_ref :: "nat \<Rightarrow> u16"
  next_asid :: u32
  asid_free_list :: "u16 list"
  asid_free_n :: nat
  l0_table :: u64
  tlb :: "tlb_op list"
  ttbr0 :: u64

definition idx :: "nat \<Rightarrow> u64 \<Rightarrow> nat" where
  "idx sh va = unat (drop_bit sh va AND 511)"

abbreviation pte_valid :: "u64 \<Rightarrow> bool" where
  "pte_valid e \<equiv> e AND 1 \<noteq> 0"

subsection \<open>Kernel tables\<close>

definition normal_block :: "u64 \<Rightarrow> u64" where
  "normal_block pa = pa OR ATTR_AF OR ATTR_SH_INNER OR ATTR_IDX_NORMAL OR DESC_BLOCK"

definition device_block :: "u64 \<Rightarrow> u64" where
  "device_block pa = pa OR ATTR_AF OR ATTR_PXN OR ATTR_UXN OR DESC_BLOCK"

definition build_tables :: "u64 \<Rightarrow> u64 \<Rightarrow> u64 \<Rightarrow> u64 \<Rightarrow> u64 \<Rightarrow> 'a vm_scheme \<Rightarrow> 'a vm_scheme" where
  "build_tables l0 l1 l2_low l2_high l2_demo s =
    (let s = store l0 0 (l1 OR DESC_TABLE) s;
         s = store l1 0 (l2_low OR DESC_TABLE) s;
         s = store l1 1 (l2_high OR DESC_TABLE) s;
         s = store l1 4 (l2_demo OR DESC_TABLE) s;
         s = fold (\<lambda>i s. store l2_high i (normal_block (0x40000000 + of_nat i * 0x200000))
                    (store l2_low i (device_block (of_nat i * 0x200000)) s)) [0..<512] s
     in (store l2_demo 0 (normal_block 0x40200000) s)\<lparr>l0_table := l0\<rparr>)"

definition mmu_kernel_l0_entry :: "'a vm_scheme \<Rightarrow> u64" where
  "mmu_kernel_l0_entry s = mem s (l0_table s) 0"

subsection \<open>Address-space identifiers\<close>

definition flush_all_tlb :: "'a vm_scheme \<Rightarrow> 'a vm_scheme" where
  "flush_all_tlb s = s\<lparr>tlb := tlb s @ [Flush_All]\<rparr>"

definition flush_tlb_asid :: "u16 \<Rightarrow> 'a vm_scheme \<Rightarrow> 'a vm_scheme" where
  "flush_tlb_asid a s = s\<lparr>tlb := tlb s @ [Flush_Asid a]\<rparr>"

definition asid_free :: "u16 \<Rightarrow> 'a vm_scheme \<Rightarrow> 'a vm_scheme" where
  "asid_free a s =
    (if a \<noteq> 0 \<and> asid_free_n s < ASID_FREE_MAX
     then s\<lparr>asid_free_list := (asid_free_list s)[asid_free_n s := a], asid_free_n := asid_free_n s + 1\<rparr>
     else s)"

definition asid_alloc :: "'a vm_scheme \<Rightarrow> u16 \<times> 'a vm_scheme" where
  "asid_alloc s =
    (if asid_free_n s > 0
     then (asid_free_list s ! (asid_free_n s - 1), s\<lparr>asid_free_n := asid_free_n s - 1\<rparr>)
     else let s = (if next_asid s > ASID_MAX then flush_all_tlb (s\<lparr>next_asid := 1\<rparr>) else s)
       in (ucast (next_asid s), s\<lparr>next_asid := next_asid s + 1\<rparr>))"

definition vm_init :: "'a vm_scheme \<Rightarrow> 'a vm_scheme" where
  "vm_init s = s\<lparr>page_ref := (\<lambda>i. if i < 65536 then 0 else page_ref s i), next_asid := 1, asid_free_n := 0\<rparr>"

subsection \<open>Page reference counts\<close>

definition pidx :: "u64 \<Rightarrow> nat" where
  "pidx pa = unat ((pa - RAM_BASE) div PAGE_SIZE)"

definition page_refcount :: "u64 \<Rightarrow> 'a vm_scheme \<Rightarrow> nat" where
  "page_refcount pa s = (if pa < RAM_BASE \<or> pa \<ge> RAM_TOP then 0 else unat (page_ref s (pidx pa)))"

definition page_incref :: "u64 \<Rightarrow> 'a vm_scheme \<Rightarrow> 'a vm_scheme" where
  "page_incref pa s =
    (if pa \<ge> RAM_BASE \<and> pa < RAM_TOP
     then s\<lparr>page_ref := (page_ref s)(pidx pa := page_ref s (pidx pa) + 1)\<rparr> else s)"

definition page_decref :: "u64 \<Rightarrow> 'a vm_scheme \<Rightarrow> 'a vm_scheme option" where
  "page_decref pa s =
    (if pa < RAM_BASE \<or> pa \<ge> RAM_TOP then Some s
     else let s = (if page_ref s (pidx pa) > 0
                   then s\<lparr>page_ref := (page_ref s)(pidx pa := page_ref s (pidx pa) - 1)\<rparr> else s)
       in if page_ref s (pidx pa) = 0 then pmm_free pa s else Some s)"

subsection \<open>Page contents\<close>

definition zero_page :: "u64 \<Rightarrow> 'a vm_scheme \<Rightarrow> 'a vm_scheme" where
  "zero_page p s = s\<lparr>mem := (mem s)(p := (\<lambda>i. if i < 512 then 0 else mem s p i))\<rparr>"

definition copy_page :: "u64 \<Rightarrow> u64 \<Rightarrow> 'a vm_scheme \<Rightarrow> 'a vm_scheme" where
  "copy_page dst src s = s\<lparr>mem := (mem s)(dst := (\<lambda>i. if i < 512 then mem s src i else mem s dst i))\<rparr>"

primrec le64 :: "u8 list \<Rightarrow> u64" where
  "le64 [] = 0"
| "le64 (b # bs) = ucast b OR push_bit 8 (le64 bs)"

definition page_byte :: "'a vm_scheme \<Rightarrow> u64 \<Rightarrow> nat \<Rightarrow> u8" where
  "page_byte s p i = ucast (drop_bit (8 * (i mod 8)) (mem s p (i div 8)))"

definition fill_page :: "u64 \<Rightarrow> (nat \<Rightarrow> u8) \<Rightarrow> 'a vm_scheme \<Rightarrow> 'a vm_scheme" where
  "fill_page p f s = s\<lparr>mem := (mem s)(p := (\<lambda>i. if i < 512 then le64 (map (\<lambda>k. f (8 * i + k)) [0..<8])
                                            else mem s p i))\<rparr>"

subsection \<open>Page tables\<close>

definition alloc_table :: "'a vm_scheme \<Rightarrow> u64 \<times> 'a vm_scheme" where
  "alloc_table s = (case pmm_alloc s of (t, s) \<Rightarrow> (t, zero_page t s))"

text \<open>One level of the descent in \<open>map_page\<close>: make the entry valid if it is not, and follow it.\<close>

definition descend :: "u64 \<Rightarrow> nat \<Rightarrow> 'a vm_scheme \<Rightarrow> u64 \<times> 'a vm_scheme" where
  "descend t i s =
    (let s = (if \<not> pte_valid (mem s t i)
              then (case alloc_table s of (n, s) \<Rightarrow> store t i (n OR DESC_TABLE) s) else s)
     in (mem s t i AND NOT 0xFFF, s))"

definition map_page :: "u64 \<Rightarrow> u64 \<Rightarrow> u64 \<Rightarrow> u64 \<Rightarrow> 'a vm_scheme \<Rightarrow> 'a vm_scheme" where
  "map_page l0 va pa attrs s =
    (case descend l0 (idx 39 va) s of (l1, s) \<Rightarrow>
     case descend l1 (idx 30 va) s of (l2, s) \<Rightarrow>
     case descend l2 (idx 21 va) s of (l3, s) \<Rightarrow>
       store l3 (idx 12 va) ((pa AND NOT 0xFFF) OR attrs OR DESC_PAGE) s)"

definition as_translate_from :: "u64 \<Rightarrow> u64 \<Rightarrow> 'a vm_scheme \<Rightarrow> u64" where
  "as_translate_from l0 va s =
    (let e = mem s l0 (idx 39 va) in
     if \<not> pte_valid e then 0 else
     let e = mem s (e AND PA_MASK) (idx 30 va) in
     if \<not> pte_valid e then 0 else
     if e AND 3 = 1 then (e AND NOT 0x3FFFFFFF) OR (va AND 0x3FFFFFFF) else
     let e = mem s (e AND PA_MASK) (idx 21 va) in
     if \<not> pte_valid e then 0 else
     if e AND 3 = 1 then (e AND NOT 0x1FFFFF) OR (va AND 0x1FFFFF) else
     let e = mem s (e AND PA_MASK) (idx 12 va) in
     if \<not> pte_valid e then 0 else (e AND PA_MASK) OR (va AND 0xFFF))"

definition pte_ptr :: "u64 \<Rightarrow> u64 \<Rightarrow> 'a vm_scheme \<Rightarrow> (u64 \<times> nat) option" where
  "pte_ptr l0 va s =
    (let e = mem s l0 (idx 39 va) in
     if \<not> pte_valid e then None else
     let e = mem s (e AND PA_MASK) (idx 30 va) in
     if \<not> pte_valid e \<or> e AND 3 = 1 then None else
     let e = mem s (e AND PA_MASK) (idx 21 va) in
     if \<not> pte_valid e \<or> e AND 3 = 1 then None else
     let l3 = e AND PA_MASK in
     if \<not> pte_valid (mem s l3 (idx 12 va)) then None else Some (l3, idx 12 va))"

subsection \<open>Address spaces\<close>

definition as_l0 :: "'a vm_scheme \<Rightarrow> u64 \<Rightarrow> u64" where "as_l0 s a = mem s a 0"
definition as_asid :: "'a vm_scheme \<Rightarrow> u64 \<Rightarrow> u16" where "as_asid s a = ucast (mem s a 1)"
definition as_heap_base :: "'a vm_scheme \<Rightarrow> u64 \<Rightarrow> u64" where "as_heap_base s a = mem s a 2"
definition as_heap_end :: "'a vm_scheme \<Rightarrow> u64 \<Rightarrow> u64" where "as_heap_end s a = mem s a 3"
definition as_mmap_next :: "'a vm_scheme \<Rightarrow> u64 \<Rightarrow> u64" where "as_mmap_next s a = mem s a 4"

text \<open>A store to the 16-bit field keeps the padding behind it.\<close>

definition set_asid :: "u64 \<Rightarrow> u16 \<Rightarrow> 'a vm_scheme \<Rightarrow> 'a vm_scheme" where
  "set_asid a v s = store a 1 ((mem s a 1 AND NOT 0xFFFF) OR ucast v) s"

definition as_alloc_l0 :: "'a vm_scheme \<Rightarrow> u64 \<times> 'a vm_scheme" where
  "as_alloc_l0 s = (case alloc_table s of (l0, s) \<Rightarrow> (l0, store l0 0 (mmu_kernel_l0_entry s) s))"

definition as_translate :: "u64 \<Rightarrow> u64 \<Rightarrow> 'a vm_scheme \<Rightarrow> u64" where
  "as_translate a va s = as_translate_from (as_l0 s a) va s"

definition as_pte :: "u64 \<Rightarrow> u64 \<Rightarrow> 'a vm_scheme \<Rightarrow> (u64 \<times> nat) option" where
  "as_pte a va s = pte_ptr (as_l0 s a) va s"

definition as_is_writable :: "u64 \<Rightarrow> u64 \<Rightarrow> 'a vm_scheme \<Rightarrow> bool" where
  "as_is_writable a va s =
    (case pte_ptr (as_l0 s a) va s of None \<Rightarrow> False
     | Some (t, i) \<Rightarrow> pte_valid (mem s t i) \<and> mem s t i AND 0xC0 = AP_RW_ALL)"

definition as_switch :: "u64 \<Rightarrow> 'a vm_scheme \<Rightarrow> 'a vm_scheme" where
  "as_switch a s = s\<lparr>ttbr0 := push_bit 48 (ucast (as_asid s a)) OR as_l0 s a\<rparr>"

text \<open>
  A fresh page mapped read-write and counted, as the loops for the stack do; the allocation is not
  checked there.
\<close>

definition map_stack :: "u64 \<Rightarrow> 'a vm_scheme \<Rightarrow> 'a vm_scheme" where
  "map_stack l0 s =
    fold (\<lambda>i s. case pmm_alloc s of (pa, s) \<Rightarrow>
            page_incref pa (map_page l0 (USER_STACK_TOP - of_nat i * PAGE_SIZE) pa rw_attr s)) [1..<65] s"

definition set_breaks :: "u64 \<Rightarrow> 'a vm_scheme \<Rightarrow> 'a vm_scheme" where
  "set_breaks a s = store a 4 USER_MMAP_BASE (store a 3 USER_HEAP_BASE (store a 2 USER_HEAP_BASE s))"

text \<open>
  The bytes of a program image are a function of the offset, since the loader does not check that
  the offsets in the headers lie inside the image.
\<close>

definition as_map_segment ::
  "u64 \<Rightarrow> u64 \<Rightarrow> (u64 \<Rightarrow> u8) \<Rightarrow> u64 \<Rightarrow> u64 \<Rightarrow> bool \<Rightarrow> bool \<Rightarrow> 'a vm_scheme \<Rightarrow> 'a vm_scheme" where
  "as_map_segment a vaddr src filesz memsz writable exec s =
    (let attr = base_attr OR (if writable then AP_RW_ALL else AP_RO_ALL);
         attr = (if \<not> exec then attr OR ATTR_UXN OR ATTR_PXN else attr);
         vstart = vaddr AND NOT 0xFFF;
         vend = (vaddr + memsz + PAGE_SIZE - 1) AND NOT 0xFFF
     in fold (\<lambda>j s. let pva = vstart + of_nat j * PAGE_SIZE in
          case pmm_alloc s of (pa, s) \<Rightarrow>
            let s = fill_page pa (\<lambda>i. let va = pva + of_nat i in
                      if vaddr \<le> va \<and> va < vaddr + filesz then src (va - vaddr) else 0) s
            in page_incref pa (map_page (as_l0 s a) pva pa attr s))
          [0..<(if vstart < vend then unat ((vend - vstart) div PAGE_SIZE) else 0)] s)"

definition as_create_image :: "(u64 \<Rightarrow> u8) \<Rightarrow> u64 \<Rightarrow> 'a vm_scheme \<Rightarrow> u64 \<times> 'a vm_scheme" where
  "as_create_image img len s =
    (case pmm_alloc s of (a, s) \<Rightarrow>
     case as_alloc_l0 s of (l0, s) \<Rightarrow>
     let s = store a 0 l0 s in
     case asid_alloc s of (v, s) \<Rightarrow>
     let s = set_asid a v s;
         npages = (len + PAGE_SIZE - 1) div PAGE_SIZE;
         npages = (if npages = 0 then 1 else npages);
         s = fold (\<lambda>i s. case pmm_alloc s of (pa, s) \<Rightarrow>
               let s = fill_page pa (\<lambda>j. let k = of_nat i * PAGE_SIZE + of_nat j in
                         if k < len then img k else 0) s
               in page_incref pa (map_page (as_l0 s a) (USER_CODE_VA + of_nat i * PAGE_SIZE) pa code_attr s))
             [0..<unat npages] s;
         s = map_stack (as_l0 s a) s
     in case pmm_alloc s of (pa, s) \<Rightarrow>
        (a, set_breaks a (page_incref pa (map_page (as_l0 s a) USER_DATA_VA pa rw_attr s))))"

subsection \<open>Program images\<close>

definition img16 :: "(u64 \<Rightarrow> u8) \<Rightarrow> u64 \<Rightarrow> u16" where
  "img16 img p = ucast (img p) OR push_bit 8 (ucast (img (p + 1)))"

definition img32 :: "(u64 \<Rightarrow> u8) \<Rightarrow> u64 \<Rightarrow> u32" where
  "img32 img p = ucast (img16 img p) OR push_bit 16 (ucast (img16 img (p + 2)))"

definition img64 :: "(u64 \<Rightarrow> u8) \<Rightarrow> u64 \<Rightarrow> u64" where
  "img64 img p = ucast (img32 img p) OR push_bit 32 (ucast (img32 img (p + 4)))"

definition elf_valid :: "(u64 \<Rightarrow> u8) \<Rightarrow> u64 \<Rightarrow> bool" where
  "elf_valid img len \<longleftrightarrow>
    \<not> len < 64 \<and> img 0 = 0x7F \<and> img 1 = 69 \<and> img 2 = 76 \<and> img 3 = 70 \<and> img 4 = 2 \<and> img16 img 18 = 0xB7"

definition elf_segment :: "u64 \<Rightarrow> (u64 \<Rightarrow> u8) \<Rightarrow> u64 \<Rightarrow> 'a vm_scheme \<Rightarrow> 'a vm_scheme" where
  "elf_segment a img ph s =
    (if img32 img ph \<noteq> 1 then s
     else as_map_segment a (img64 img (ph + 16)) (\<lambda>i. img (img64 img (ph + 8) + i))
            (img64 img (ph + 32)) (img64 img (ph + 40))
            (img32 img (ph + 4) AND 2 \<noteq> 0) (img32 img (ph + 4) AND 1 \<noteq> 0) s)"

definition elf_load :: "u64 \<Rightarrow> (u64 \<Rightarrow> u8) \<Rightarrow> u64 \<Rightarrow> 'a vm_scheme \<Rightarrow> u64 option \<times> 'a vm_scheme" where
  "elf_load a img len s =
    (if \<not> elf_valid img len then (None, s)
     else (Some (img64 img 24),
           fold (\<lambda>i s. elf_segment a img (img64 img 32 + of_nat i * ucast (img16 img 54)) s)
             [0..<unat (img16 img 56)] s))"

subsection \<open>Teardown\<close>

definition destroy_l3 :: "u64 \<Rightarrow> 'a vm_scheme \<Rightarrow> 'a vm_scheme option" where
  "destroy_l3 l3 s =
    (case fold_option (\<lambda>k s. if pte_valid (mem s l3 k) then page_decref (mem s l3 k AND PA_MASK) s else Some s)
            [0..<512] s of
       None \<Rightarrow> None | Some s \<Rightarrow> pmm_free l3 s)"

definition destroy_l2 :: "u64 \<Rightarrow> 'a vm_scheme \<Rightarrow> 'a vm_scheme option" where
  "destroy_l2 l2 s =
    (case fold_option (\<lambda>j s. if pte_valid (mem s l2 j) then destroy_l3 (mem s l2 j AND PA_MASK) s else Some s)
            [0..<512] s of
       None \<Rightarrow> None | Some s \<Rightarrow> pmm_free l2 s)"

definition destroy_l1 :: "u64 \<Rightarrow> 'a vm_scheme \<Rightarrow> 'a vm_scheme option" where
  "destroy_l1 l1 s =
    (case fold_option (\<lambda>i s. if pte_valid (mem s l1 i) then destroy_l2 (mem s l1 i AND PA_MASK) s else Some s)
            [0..<512] s of
       None \<Rightarrow> None | Some s \<Rightarrow> pmm_free l1 s)"

definition as_destroy :: "u64 \<Rightarrow> 'a vm_scheme \<Rightarrow> 'a vm_scheme option" where
  "as_destroy a s =
    (let e1 = mem s (as_l0 s a) 1 in
     case (if pte_valid e1 then destroy_l1 (e1 AND PA_MASK) s else Some s) of None \<Rightarrow> None
     | Some s \<Rightarrow> (case pmm_free (as_l0 s a) s of None \<Rightarrow> None
       | Some s \<Rightarrow> let s = flush_tlb_asid (as_asid s a) s in pmm_free a (asid_free (as_asid s a) s)))"

definition as_create_elf :: "(u64 \<Rightarrow> u8) \<Rightarrow> u64 \<Rightarrow> 'a vm_scheme \<Rightarrow> (u64 \<times> u64 option \<times> 'a vm_scheme) option" where
  "as_create_elf img len s =
    (case pmm_alloc s of (a, s) \<Rightarrow>
     case as_alloc_l0 s of (l0, s) \<Rightarrow>
     let s = store a 0 l0 s in
     case asid_alloc s of (v, s) \<Rightarrow>
     case elf_load a img len (set_asid a v s) of
       (None, s) \<Rightarrow> (case as_destroy a s of None \<Rightarrow> None | Some s \<Rightarrow> Some (0, None, s))
     | (Some entry, s) \<Rightarrow> Some (a, Some entry, set_breaks a (map_stack (as_l0 s a) s)))"

subsection \<open>Growing and mapping\<close>

text \<open>The loop of \<open>as_sbrk\<close> and \<open>as_mmap\<close>: map \<open>n\<close> zeroed pages from \<open>va\<close> on, or stop out of memory.\<close>

primrec map_zeroed :: "u64 \<Rightarrow> nat \<Rightarrow> u64 \<Rightarrow> 'a vm_scheme \<Rightarrow> bool \<times> 'a vm_scheme" where
  "map_zeroed a 0 va s = (True, s)"
| "map_zeroed a (Suc n) va s =
    (case pmm_alloc s of (pa, s) \<Rightarrow>
       if pa = 0 then (False, s)
       else let s = zero_page pa s
            in map_zeroed a n (va + PAGE_SIZE) (page_incref pa (map_page (as_l0 s a) va pa rw_attr s)))"

definition as_sbrk :: "u64 \<Rightarrow> u64 \<Rightarrow> 'a vm_scheme \<Rightarrow> u64 \<times> 'a vm_scheme" where
  "as_sbrk a incr s =
    (let old = as_heap_end s a;
         neu = old + incr
     in if sint incr > 0
        then let first = (old + PAGE_SIZE - 1) AND NOT 0xFFF;
                 last = (neu + PAGE_SIZE - 1) AND NOT 0xFFF
             in case map_zeroed a (if first < last then unat ((last - first) div PAGE_SIZE) else 0) first s of
                  (False, s) \<Rightarrow> (- 1, s)
                | (True, s) \<Rightarrow> (old, store a 3 neu s)
        else (old, store a 3 neu s))"

definition as_mmap :: "u64 \<Rightarrow> u64 \<Rightarrow> 'a vm_scheme \<Rightarrow> u64 \<times> 'a vm_scheme" where
  "as_mmap a len s =
    (if len = 0 then (0, s)
     else let pages = (len + PAGE_SIZE - 1) div PAGE_SIZE;
              base = as_mmap_next s a
          in case map_zeroed a (unat pages) base s of
               (False, s) \<Rightarrow> (0, s)
             | (True, s) \<Rightarrow> (base, store a 4 (base + pages * PAGE_SIZE) s))"

definition munmap_page :: "u64 \<Rightarrow> u64 \<Rightarrow> 'a vm_scheme \<Rightarrow> 'a vm_scheme option" where
  "munmap_page a va s =
    (case pte_ptr (as_l0 s a) va s of None \<Rightarrow> Some s
     | Some (t, i) \<Rightarrow>
         if pte_valid (mem s t i)
         then (case page_decref (mem s t i AND PA_MASK) s of None \<Rightarrow> None | Some s \<Rightarrow> Some (store t i 0 s))
         else Some s)"

definition as_munmap :: "u64 \<Rightarrow> u64 \<Rightarrow> u64 \<Rightarrow> 'a vm_scheme \<Rightarrow> 'a vm_scheme option" where
  "as_munmap a va len s =
    (let pages = (len + PAGE_SIZE - 1) div PAGE_SIZE
     in case fold_option (\<lambda>i s. munmap_page a (va + of_nat i * PAGE_SIZE) s) [0..<unat pages] s of
          None \<Rightarrow> None | Some s \<Rightarrow> Some (flush_tlb_asid (as_asid s a) s))"

definition as_map_phys :: "u64 \<Rightarrow> u64 list \<Rightarrow> 'a vm_scheme \<Rightarrow> u64 \<times> 'a vm_scheme" where
  "as_map_phys a pas s =
    (let base = as_mmap_next s a;
         s = fold (\<lambda>i s. page_incref (pas ! i)
               (map_page (as_l0 s a) (base + of_nat i * PAGE_SIZE) (pas ! i) (rw_attr OR PTE_SHARED) s))
             [0..<length pas] s
     in (base, store a 4 (base + of_nat (length pas) * PAGE_SIZE) s))"

subsection \<open>Copy on write\<close>

definition clone_pte :: "u64 \<Rightarrow> u64 \<Rightarrow> nat \<Rightarrow> nat \<Rightarrow> nat \<Rightarrow> 'a vm_scheme \<Rightarrow> 'a vm_scheme" where
  "clone_pte child l3 l1i l2i l3i s =
    (let pte = mem s l3 l3i in
     if \<not> pte_valid pte then s
     else let va = push_bit 39 1 OR push_bit 30 (of_nat l1i) OR push_bit 21 (of_nat l2i) OR push_bit 12 (of_nat l3i);
              pa = pte AND PA_MASK;
              s = (if pte AND PTE_SHARED \<noteq> 0 then map_page (as_l0 s child) va pa (pte AND NOT PA_MASK) s
                   else if pte AND 0xC0 = AP_RW_ALL
                   then let s = store l3 l3i (pa OR ro_cow OR DESC_PAGE) s in map_page (as_l0 s child) va pa ro_cow s
                   else map_page (as_l0 s child) va pa (pte AND NOT PA_MASK) s)
          in page_incref pa s)"

definition clone_l3 :: "u64 \<Rightarrow> u64 \<Rightarrow> nat \<Rightarrow> nat \<Rightarrow> 'a vm_scheme \<Rightarrow> 'a vm_scheme" where
  "clone_l3 child l3 l1i l2i s = fold (clone_pte child l3 l1i l2i) [0..<512] s"

definition clone_l2 :: "u64 \<Rightarrow> u64 \<Rightarrow> nat \<Rightarrow> 'a vm_scheme \<Rightarrow> 'a vm_scheme" where
  "clone_l2 child l2 l1i s =
    fold (\<lambda>l2i s. if \<not> pte_valid (mem s l2 l2i) then s
                  else clone_l3 child (mem s l2 l2i AND PA_MASK) l1i l2i s) [0..<512] s"

definition clone_l1 :: "u64 \<Rightarrow> u64 \<Rightarrow> 'a vm_scheme \<Rightarrow> 'a vm_scheme" where
  "clone_l1 child l1 s =
    fold (\<lambda>l1i s. if \<not> pte_valid (mem s l1 l1i) then s
                  else clone_l2 child (mem s l1 l1i AND PA_MASK) l1i s) [0..<512] s"

definition as_clone :: "u64 \<Rightarrow> 'a vm_scheme \<Rightarrow> u64 \<times> 'a vm_scheme" where
  "as_clone parent s =
    (case pmm_alloc s of (child, s) \<Rightarrow>
     case as_alloc_l0 s of (l0, s) \<Rightarrow>
     let s = store child 0 l0 s;
         s = store child 2 (as_heap_base s parent) s;
         s = store child 3 (as_heap_end s parent) s;
         s = store child 4 (as_mmap_next s parent) s
     in case asid_alloc s of (v, s) \<Rightarrow>
     let s = set_asid child v s;
         e1 = mem s (as_l0 s parent) 1;
         s = (if pte_valid e1 then clone_l1 child (e1 AND PA_MASK) s else s)
     in (child, flush_tlb_asid (as_asid s parent) s))"

definition cow_fault :: "u64 \<Rightarrow> u64 \<Rightarrow> 'a vm_scheme \<Rightarrow> (bool \<times> 'a vm_scheme) option" where
  "cow_fault a va s =
    (let va = va AND NOT 0xFFF in
     case pte_ptr (as_l0 s a) va s of None \<Rightarrow> Some (False, s)
     | Some (t, i) \<Rightarrow>
        if mem s t i AND PTE_COW = 0 then Some (False, s)
        else let oldpa = mem s t i AND PA_MASK in
          if page_refcount oldpa s = 1
          then let s = store t i ((oldpa AND NOT 0xFFF) OR rw_attr OR 3) s
               in Some (True, flush_tlb_asid (as_asid s a) s)
          else (case pmm_alloc s of (newpa, s) \<Rightarrow>
            let s = copy_page newpa oldpa s;
                s = store t i ((newpa AND NOT 0xFFF) OR rw_attr OR 3) s;
                s = page_incref newpa s
            in case page_decref oldpa s of None \<Rightarrow> None
               | Some s \<Rightarrow> Some (True, flush_tlb_asid (as_asid s a) s)))"

end
