(* ===== verification/Vm_Tables.thy ===== *)
theory Vm_Tables
  imports Vm
begin

text \<open>
  The shape of the page tables of \<open>src/vm.c\<close>, and what a walk of them finds. A ghost typing \<open>tt\<close>
  gives every table page its owner and its position, the indices that lead to it from the top.
  A well-typed state has exactly one slot that can lead to a table, so an entry of one address
  space is never an entry of another one.
\<close>

subsection \<open>Descriptor bits\<close>

lemma pa_mask_bits: "PA_MASK = mask 48 AND NOT (mask 12)"
  by (simp add: PA_MASK_def mask_numeral)

lemma page_and_mask:
  assumes "4096 dvd unat (p :: u64)" "p \<le> RAM_END"
  shows "p AND NOT 0xFFF = p" "p AND PA_MASK = p" "p AND 0xFFF = 0"
proof -
  have "unat (p AND NOT 4095) = unat p" unfolding unat_page_mask using assms(1) by simp
  then have e: "p AND NOT 4095 = p" by (simp only: word_unat_eq_iff)
  then show "p AND NOT 0xFFF = p" .
  show "p AND 0xFFF = 0"
  proof -
    have "p AND 0xFFF = (p AND NOT 4095) AND 0xFFF" unfolding e ..
    then show ?thesis by (simp add: and.assoc)
  qed
  have "unat p < 2 ^ 48" using assms(2) by (simp add: RAM_END_def word_le_nat_alt)
  then have "p AND mask 48 = p"
    by (simp add: take_bit_eq_mask [symmetric] word_unat_eq_iff take_bit_eq_mod unat_mod)
  moreover have "(mask 12 :: u64) = 4095" by (simp add: mask_numeral)
  ultimately show "p AND PA_MASK = p"
    using e unfolding pa_mask_bits by (metis and.assoc)
qed

lemma and3_valid: "(e :: u64) AND 3 = 3 \<Longrightarrow> pte_valid e"
proof -
  assume "e AND 3 = 3"
  moreover have "e AND 1 = (e AND 3) AND 1" by (simp add: and.assoc)
  ultimately show ?thesis by simp
qed

lemma table_desc:
  assumes "4096 dvd unat (p :: u64)" "p \<le> RAM_END"
  shows "(p OR DESC_TABLE) AND NOT 0xFFF = p" "(p OR DESC_TABLE) AND PA_MASK = p"
    "(p OR DESC_TABLE) AND 3 = 3" "pte_valid (p OR DESC_TABLE)"
proof -
  note pm = page_and_mask [OF assms]
  have "p AND 3 = (p AND 0xFFF) AND 3" by (simp add: and.assoc)
  then have p3: "p AND 3 = 0" unfolding pm by simp
  have "p AND 1 = (p AND 0xFFF) AND 1" by (simp add: and.assoc)
  then have p1: "p AND 1 = 0" unfolding pm by simp
  show "(p OR DESC_TABLE) AND NOT 0xFFF = p" using pm(1) by (simp add: DESC_TABLE_def bit.conj_disj_distrib2)
  show "(p OR DESC_TABLE) AND PA_MASK = p"
    using pm(2) by (simp add: DESC_TABLE_def PA_MASK_def bit.conj_disj_distrib2)
  show "(p OR DESC_TABLE) AND 3 = 3" using p3 by (simp add: DESC_TABLE_def bit.conj_disj_distrib2)
  show "pte_valid (p OR DESC_TABLE)" using p1 by (simp add: DESC_TABLE_def bit.conj_disj_distrib2)
qed

lemma leaf_desc:
  assumes "4096 dvd unat (p :: u64)" "p \<le> RAM_END" "attrs AND PA_MASK = 0"
  shows "((p AND NOT 0xFFF) OR attrs OR DESC_PAGE) AND PA_MASK = p"
    "((p AND NOT 0xFFF) OR attrs OR DESC_PAGE) AND 3 = 3"
    "pte_valid ((p AND NOT 0xFFF) OR attrs OR DESC_PAGE)"
proof -
  note pm = page_and_mask [OF assms(1,2)]
  show "((p AND NOT 0xFFF) OR attrs OR DESC_PAGE) AND PA_MASK = p"
  proof -
    have "(DESC_PAGE :: u64) AND PA_MASK = 0" by (simp add: DESC_PAGE_def PA_MASK_def)
    then show ?thesis unfolding pm(1) bit.conj_disj_distrib2 pm(2) assms(3) by simp
  qed
  have "((p AND NOT 0xFFF) OR attrs OR DESC_PAGE) AND 3 = 3"
    by (rule bit_word_eqI) (auto simp: bit_simps DESC_PAGE_def)
  then show "((p AND NOT 0xFFF) OR attrs OR DESC_PAGE) AND 3 = 3" .
  then show "pte_valid ((p AND NOT 0xFFF) OR attrs OR DESC_PAGE)" by (rule and3_valid)
qed

lemma idx_less [simp]: "idx sh va < 512"
proof -
  have "drop_bit sh va AND 511 \<le> (511 :: u64)" by (rule word_and_le1)
  then show ?thesis unfolding idx_def by (simp add: word_le_nat_alt)
qed

subsection \<open>Walks\<close>

fun entry :: "(u64 \<Rightarrow> nat \<Rightarrow> u64) \<Rightarrow> u64 \<Rightarrow> nat list \<Rightarrow> u64" where
  "entry m t [] = 0"
| "entry m t [i] = (if pte_valid (m t i) then m t i else 0)"
| "entry m t (i # j # is) = (if pte_valid (m t i) then entry m (m t i AND PA_MASK) (j # is) else 0)"

definition upath :: "u64 \<Rightarrow> nat list" where
  "upath va = [idx 39 va, idx 30 va, idx 21 va, idx 12 va]"

text \<open>The page entry of an address in an address space, 0 if it has none.\<close>

definition as_entry :: "'a vm_scheme \<Rightarrow> u64 \<Rightarrow> u64 \<Rightarrow> u64" where
  "as_entry s a va = entry (mem s) (as_l0 s a) (upath va)"

type_synonym typing = "u64 \<Rightarrow> (u64 \<times> nat list) option"

definition slot_ok :: "u64 set \<Rightarrow> typing \<Rightarrow> u64 set \<Rightarrow> u64 \<Rightarrow> nat list \<Rightarrow> u64 \<Rightarrow> bool" where
  "slot_ok live tt asp a pth e \<longleftrightarrow> e AND 3 = 3 \<and>
    (if length pth < 4 then e AND NOT 0xFFF = e AND PA_MASK \<and> tt (e AND PA_MASK) = Some (a, pth)
     else tt (e AND PA_MASK) = None \<and> e AND PA_MASK \<in> live - asp)"

definition vm_typed :: "'a vm_scheme \<Rightarrow> u64 set \<Rightarrow> typing \<Rightarrow> u64 set \<Rightarrow> bool" where
  "vm_typed s live tt asp \<longleftrightarrow>
    (\<forall>a \<in> asp. tt a = None \<and> tt (as_l0 s a) = Some (a, [])) \<and>
    (\<forall>t a pth. tt t = Some (a, pth) \<longrightarrow> a \<in> asp \<and> length pth \<le> 3 \<and> (pth \<noteq> [] \<longrightarrow> hd pth \<noteq> 0)) \<and>
    (\<forall>t a pth i. tt t = Some (a, pth) \<and> i < 512 \<and> pte_valid (mem s t i) \<and> hd (pth @ [i]) \<noteq> 0 \<longrightarrow>
       slot_ok live tt asp a (pth @ [i]) (mem s t i))"

definition vm_inv :: "u64 \<Rightarrow> 'a vm_scheme \<Rightarrow> u64 set \<Rightarrow> typing \<Rightarrow> u64 set \<Rightarrow> bool" where
  "vm_inv lo s live tt asp \<longleftrightarrow> pmm_inv lo s live \<and> vm_typed s live tt asp \<and> dom tt \<subseteq> live \<and> asp \<subseteq> live"

definition room :: "u64 \<Rightarrow> u64 set \<Rightarrow> nat" where
  "room lo live = card (frames lo RAM_END - live)"

lemma typed_root: "vm_typed s live tt asp \<Longrightarrow> a \<in> asp \<Longrightarrow> tt (as_l0 s a) = Some (a, []) \<and> tt a = None"
  by (simp add: vm_typed_def)

lemma typed_tab: "vm_typed s live tt asp \<Longrightarrow> tt t = Some (a, pth) \<Longrightarrow> a \<in> asp \<and> length pth \<le> 3 \<and> (pth \<noteq> [] \<longrightarrow> hd pth \<noteq> 0)"
  unfolding vm_typed_def by blast

lemma typed_slot:
  "vm_typed s live tt asp \<Longrightarrow> tt t = Some (a, pth) \<Longrightarrow> i < 512 \<Longrightarrow> pte_valid (mem s t i) \<Longrightarrow> hd (pth @ [i]) \<noteq> 0 \<Longrightarrow>
    slot_ok live tt asp a (pth @ [i]) (mem s t i)"
  unfolding vm_typed_def by blast

lemma typed_next:
  assumes "vm_typed s live tt asp" "tt t = Some (a, pth)" "i < 512" "pte_valid (mem s t i)" "hd (pth @ [i]) \<noteq> 0"
    "length pth < 3"
  shows "tt (mem s t i AND PA_MASK) = Some (a, pth @ [i])" "mem s t i AND NOT 0xFFF = mem s t i AND PA_MASK"
    "mem s t i AND 3 = 3"
  using typed_slot [OF assms(1-5)] assms(6) by (simp_all add: slot_ok_def)

text \<open>A store to a page-entry slot is seen by exactly one walk.\<close>

lemma entry_leaf_other:
  assumes ty: "vm_typed s live tt asp" and p: "tt p = Some (a', pth')" "length pth' = 3"
  shows "tt t = Some (a, pth) \<Longrightarrow> length pth + length is = 4 \<Longrightarrow> set is \<subseteq> {..<512} \<Longrightarrow> hd (pth @ is) \<noteq> 0 \<Longrightarrow>
    (a, pth @ is) \<noteq> (a', pth' @ [j]) \<Longrightarrow>
    entry ((mem s)(p := (mem s p)(j := v))) t is = entry (mem s) t is"
proof (induction "is" arbitrary: t pth)
  case (Cons i "is")
  show ?case
  proof (cases "is")
    case Nil
    have "(t, i) \<noteq> (p, j)" using Cons.prems p Nil by auto
    then show ?thesis using Nil by auto
  next
    case (Cons k ks)
    have len: "length pth < 3" using Cons.prems(2) Cons by simp
    have tp: "t \<noteq> p" using Cons.prems(1) p len by auto
    show ?thesis
    proof (cases "pte_valid (mem s t i)")
      case True
      have "hd (pth @ [i]) \<noteq> 0" using Cons.prems(4) by (cases pth) auto
      from typed_next(1) [OF ty Cons.prems(1) _ True this len] Cons.prems(3)
      have n: "tt (mem s t i AND PA_MASK) = Some (a, pth @ [i])" by simp
      have "entry ((mem s)(p := (mem s p)(j := v))) (mem s t i AND PA_MASK) is =
          entry (mem s) (mem s t i AND PA_MASK) is"
        by (rule Cons.IH [OF n]) (use Cons.prems in auto)
      then show ?thesis using Cons tp True by (simp del: fun_upd_apply add: fun_upd_other)
    next
      case False
      then show ?thesis using Cons tp by simp
    qed
  qed
qed simp


text \<open>A fresh empty table behind an empty slot changes no walk.\<close>

lemma entry_zero: "(\<And>i. i < 512 \<Longrightarrow> m q i = 0) \<Longrightarrow> set is \<subseteq> {..<512} \<Longrightarrow> entry m q is = 0"
proof (induction m q "is" rule: entry.induct)
  case (3 m t i j "is")
  then have "m t i = 0" by auto
  then show ?case by simp
qed auto

lemma entry_new_table:
  assumes ty: "vm_typed s live tt asp" and q: "tt q = None" and p: "tt p = Some (a', pth')" "length pth' < 3"
    and inv: "\<not> pte_valid (mem s p j)" and z: "\<And>i. i < 512 \<Longrightarrow> m' q i = 0"
    and m': "\<And>t i. tt t \<noteq> None \<Longrightarrow> (t, i) \<noteq> (p, j) \<Longrightarrow> m' t i = mem s t i"
    and v: "m' p j AND PA_MASK = q"
  shows "tt t = Some (a, pth) \<Longrightarrow> length pth + length is = 4 \<Longrightarrow> set is \<subseteq> {..<512} \<Longrightarrow> hd (pth @ is) \<noteq> 0 \<Longrightarrow>
    entry m' t is = entry (mem s) t is"
proof (induction "is" arbitrary: t pth)
  case (Cons i "is")
  show ?case
  proof (cases "is")
    case Nil
    then have "t \<noteq> p" using Cons.prems p by auto
    then show ?thesis using Nil m' [of t i] Cons.prems(1) by simp
  next
    case (Cons k ks)
    have len: "length pth < 3" using Cons.prems(2) Cons by simp
    show ?thesis
    proof (cases "(t, i) = (p, j)")
      case True
      then show ?thesis using Cons inv v entry_zero [of m' q "is"] z Cons.prems(3) by auto
    next
      case False
      then have e: "m' t i = mem s t i" using m' Cons.prems(1) by simp
      show ?thesis
      proof (cases "pte_valid (mem s t i)")
        case True
        have "hd (pth @ [i]) \<noteq> 0" using Cons.prems(4) by (cases pth) auto
        from typed_next(1) [OF ty Cons.prems(1) _ True this len] Cons.prems(3)
        have n: "tt (mem s t i AND PA_MASK) = Some (a, pth @ [i])" by simp
        have "entry m' (mem s t i AND PA_MASK) is = entry (mem s) (mem s t i AND PA_MASK) is"
          by (rule Cons.IH [OF n]) (use Cons.prems in auto)
        then show ?thesis using Cons e True by simp
      qed (use Cons e in simp)
    qed
  qed
qed simp

lemma upath_facts [simp]: "length (upath va) = 4" "set (upath va) \<subseteq> {..<512}" "hd (upath va) = idx 39 va"
  by (auto simp: upath_def)

subsection \<open>Allocation\<close>

lemma frames_finite [simp]: "finite (frames lo hi)" by simp

lemma pmm_alloc_room:
  assumes "pmm_inv lo s live" "0 < room lo live" "pmm_alloc s = (p, s')"
  shows "p \<noteq> 0" "p \<notin> live" "pmm_inv lo s' (insert p live)" "mem s' = mem s" "4096 dvd unat p" "p \<le> RAM_END" "lo \<le> p"
    "room lo (insert p live) = room lo live - 1"
proof -
  have ne: "live \<noteq> frames lo RAM_END" using assms(2) by (auto simp: room_def)
  with pmm_alloc_cases [OF assms(1,3)] show *: "p \<noteq> 0" "p \<notin> live" "pmm_inv lo s' (insert p live)" "mem s' = mem s"
    by auto
  have "bump s' \<le> RAM_END" using *(3) by (simp add: pmm_inv_def)
  with pmm_inv_frame [OF *(3), of p] have f: "4096 dvd unat p" "p < RAM_END" "lo \<le> p" by auto
  then show "4096 dvd unat p" "p \<le> RAM_END" "lo \<le> p" by auto
  have "p \<in> frames lo RAM_END - live" using * f by (simp add: frames_def)
  then show "room lo (insert p live) = room lo live - 1"
    unfolding room_def by (metis Diff_insert card_Diff_singleton)
qed

text \<open>What the page allocator leaves alone in the rest of the state.\<close>

definition same_rest :: "'a vm_scheme \<Rightarrow> 'a vm_scheme \<Rightarrow> bool" where
  "same_rest s s' \<longleftrightarrow> page_ref s' = page_ref s \<and> next_asid s' = next_asid s \<and> asid_free_list s' = asid_free_list s \<and>
    asid_free_n s' = asid_free_n s \<and> l0_table s' = l0_table s \<and> tlb s' = tlb s \<and> ttbr0 s' = ttbr0 s"

lemma same_rest_refl [simp]: "same_rest s s" by (simp add: same_rest_def)

lemma same_rest_trans [trans]: "same_rest s t \<Longrightarrow> same_rest t u \<Longrightarrow> same_rest s u" by (simp add: same_rest_def)

lemma same_rest_alloc: "pmm_alloc s = (p, s') \<Longrightarrow> same_rest s s'"
  by (auto simp: pmm_alloc_def Let_def same_rest_def split: if_splits)

lemma same_rest_mem [simp]: "same_rest s (s'\<lparr>mem := m\<rparr>) = same_rest s s'"
  "same_rest s (store p i v s') = same_rest s s'"
  by (simp_all add: same_rest_def store_def)


subsection \<open>Descending and mapping\<close>

text \<open>
  \<open>grown\<close>: only tables were added. No entry of any address space changed, and neither did a page
  that is not a table.
\<close>

definition grown ::
  "u64 \<Rightarrow> u64 set \<Rightarrow> 'a vm_scheme \<Rightarrow> u64 set \<Rightarrow> typing \<Rightarrow> 'a vm_scheme \<Rightarrow> u64 set \<Rightarrow> typing \<Rightarrow> bool" where
  "grown lo asp s live tt s' live' tt' \<longleftrightarrow>
    vm_inv lo s' live' tt' asp \<and> live \<subseteq> live' \<and> tt \<subseteq>\<^sub>m tt' \<and> dom tt' \<subseteq> dom tt \<union> (live' - live) \<and> same_rest s s' \<and>
    (\<forall>p \<in> live - dom tt. mem s' p = mem s p) \<and>
    (\<forall>t i. tt t \<noteq> None \<and> pte_valid (mem s t i) \<longrightarrow> mem s' t i = mem s t i) \<and>
    (\<forall>a \<in> asp. \<forall>va. idx 39 va \<noteq> 0 \<longrightarrow> as_entry s' a va = as_entry s a va)"

lemma grown_refl: "vm_inv lo s live tt asp \<Longrightarrow> grown lo asp s live tt s live tt"
  by (simp add: grown_def map_le_def)

lemma grow_sets:
  "B \<subseteq> A \<union> (l1 - l0') \<Longrightarrow> l0 \<subseteq> l0' \<Longrightarrow> l0' \<subseteq> l1 \<Longrightarrow> l1 \<subseteq> l2 \<Longrightarrow> C \<subseteq> B \<union> (l2 - l1) \<Longrightarrow> C \<subseteq> A \<union> (l2 - l0)"
  by blast

lemma grown_trans:
  assumes a: "grown lo asp s live tt s1 live1 tt1" and b: "grown lo asp s1 live1 tt1 s2 live2 tt2"
  shows "grown lo asp s live tt s2 live2 tt2"
proof -
  have d: "dom tt1 \<subseteq> dom tt \<union> (live1 - live)" "live \<subseteq> live1" "live1 \<subseteq> live2"
    "dom tt2 \<subseteq> dom tt1 \<union> (live2 - live1)" "tt \<subseteq>\<^sub>m tt1" "tt1 \<subseteq>\<^sub>m tt2"
    using a b by (auto simp: grown_def)
  have keep: "mem s2 p = mem s p" if "p \<in> live - dom tt" for p
  proof -
    have "p \<in> live1 - dom tt1" using that d by auto
    then show ?thesis using a b that by (simp add: grown_def)
  qed
  have slot: "mem s2 t i = mem s t i" if "tt t \<noteq> None" "pte_valid (mem s t i)" for t i
  proof -
    have "tt1 t \<noteq> None" using that(1) d(5) by (auto simp: map_le_def dom_def)
    moreover have "mem s1 t i = mem s t i" using a that by (simp add: grown_def)
    ultimately show ?thesis using b that(2) by (simp add: grown_def)
  qed
  have "dom tt2 \<subseteq> dom tt \<union> (live2 - live)" using d(1-4) by blast
  moreover have "tt \<subseteq>\<^sub>m tt2" using d(5,6) by (rule map_le_trans)
  moreover have "same_rest s s2" using a b same_rest_trans by (auto simp: grown_def)
  moreover have "\<forall>a \<in> asp. \<forall>va. idx 39 va \<noteq> 0 \<longrightarrow> as_entry s2 a va = as_entry s a va"
    using a b by (simp add: grown_def)
  moreover have "vm_inv lo s2 live2 tt2 asp" "live \<subseteq> live2" using b d by (auto simp: grown_def)
  ultimately show ?thesis using keep slot unfolding grown_def by auto
qed

lemma slot_ok_mono:
  "slot_ok live tt asp a pth e \<Longrightarrow> live \<subseteq> live' \<Longrightarrow> tt \<subseteq>\<^sub>m tt' \<Longrightarrow> dom tt' \<subseteq> dom tt \<union> (live' - live) \<Longrightarrow>
    slot_ok live' tt' asp a pth e"
proof -
  assume s: "slot_ok live tt asp a pth e" and l: "live \<subseteq> live'" and m: "tt \<subseteq>\<^sub>m tt'"
    and d: "dom tt' \<subseteq> dom tt \<union> (live' - live)"
  show ?thesis
  proof (cases "length pth < 4")
    case True
    then have "tt (e AND PA_MASK) = Some (a, pth)" using s by (simp add: slot_ok_def)
    then have "tt' (e AND PA_MASK) = Some (a, pth)" using m by (metis domI map_le_def)
    with True s show ?thesis by (simp add: slot_ok_def)
  next
    case False
    then have q: "tt (e AND PA_MASK) = None" "e AND PA_MASK \<in> live - asp" using s by (simp_all add: slot_ok_def)
    then have "e AND PA_MASK \<notin> dom tt'" using d by blast
    then have "tt' (e AND PA_MASK) = None" by (metis domIff)
    with False s q l show ?thesis by (auto simp: slot_ok_def)
  qed
qed

lemma vm_typed_live:
  assumes ty: "vm_typed s live tt asp" and m: "mem s1 = mem s" and l: "live \<subseteq> live'"
    and d: "dom tt \<inter> (live' - live) = {}"
  shows "vm_typed s1 live' tt asp"
  unfolding vm_typed_def
proof (intro conjI ballI allI impI)
  fix b assume "b \<in> asp"
  then show "tt b = None" "tt (as_l0 s1 b) = Some (b, [])"
    using typed_root [OF ty] m by (simp_all add: as_l0_def)
next
  fix u b pp assume "tt u = Some (b, pp)"
  then show "b \<in> asp" "length pp \<le> 3" "pp \<noteq> [] \<Longrightarrow> hd pp \<noteq> 0" using typed_tab [OF ty] by simp_all
next
  fix u b pp i assume A: "tt u = Some (b, pp) \<and> i < 512 \<and> pte_valid (mem s1 u i) \<and> hd (pp @ [i]) \<noteq> 0"
  have "slot_ok live tt asp b (pp @ [i]) (mem s u i)" by (rule typed_slot [OF ty]) (use A m in auto)
  then show "slot_ok live' tt asp b (pp @ [i]) (mem s1 u i)"
    unfolding m by (rule slot_ok_mono [OF _ l]) (auto simp: map_le_def)
qed

lemma descend_spec:
  assumes inv: "vm_inv lo s live tt asp" and t: "tt t = Some (a, pth)" "length pth < 3"
    and i: "i < 512" "hd (pth @ [i]) \<noteq> 0" and room: "0 < room lo live" and d: "descend t i s = (q, s')"
  shows "\<exists>live' tt'. grown lo asp s live tt s' live' tt' \<and> tt' q = Some (a, pth @ [i]) \<and>
    pte_valid (mem s' t i) \<and> mem s' t i AND PA_MASK = q \<and> room lo live \<le> room lo live' + 1"
proof (cases "pte_valid (mem s t i)")
  case True
  have ty: "vm_typed s live tt asp" using inv by (simp add: vm_inv_def)
  have "descend t i s = (mem s t i AND NOT 0xFFF, s)" unfolding descend_def Let_def using True by (simp only: if_False simp_thms)
  with d have s': "s' = s" "q = mem s t i AND NOT 0xFFF" by (metis prod.inject)+
  note n = typed_next [OF ty t(1) i(1) True i(2) t(2)]
  have "q = mem s t i AND PA_MASK" using s'(2) n(2) by (rule trans)
  with grown_refl [OF inv] n(1) True show ?thesis unfolding s'(1) by (intro exI [of _ live] exI [of _ tt]) simp
next
  case False
  have pi: "pmm_inv lo s live" and ty: "vm_typed s live tt asp" and dt: "dom tt \<subseteq> live" and al: "asp \<subseteq> live"
    using inv by (simp_all add: vm_inv_def)
  obtain n s1 where n: "pmm_alloc s = (n, s1)" by fastforce
  note pa = pmm_alloc_room [OF pi room n]
  have nt: "tt n = None" "n \<notin> asp" using pa(2) dt al by auto
  have tl: "t \<in> live" "t \<noteq> n" using t(1) dt nt by auto
  note desc = table_desc [OF pa(5,6)]
  have s': "s' = store t i (n OR DESC_TABLE) (zero_page n s1)"
    and q: "q = n" using d False n tl(2) desc(1) by (auto simp: descend_def alloc_table_def zero_page_def)
  define tt' where "tt' = tt(n \<mapsto> (a, pth @ [i]))"
  define live' where "live' = insert n live"
  have m_n: "mem s' n j = 0" if "j < 512" for j
    using that tl(2) by (simp add: s' zero_page_def)
  have m_t: "mem s' t i = n OR DESC_TABLE" using tl by (simp add: s')
  have m_o: "mem s' u j = mem s u j" if "u \<noteq> n" "(u, j) \<noteq> (t, i)" for u j
    using that pa(4) by (auto simp: s' zero_page_def)
  have aa: "a \<in> asp" "length pth \<le> 3" "pth \<noteq> [] \<longrightarrow> hd pth \<noteq> 0" using typed_tab [OF ty t(1)] by simp_all
  have le: "live \<subseteq> live'" "tt \<subseteq>\<^sub>m tt'" "dom tt' \<subseteq> dom tt \<union> (live' - live)"
    using nt pa(2) by (auto simp: live'_def tt'_def map_le_def)
  have ty': "vm_typed s' live' tt' asp"
    unfolding vm_typed_def
  proof (intro conjI ballI allI impI)
    fix b assume b: "b \<in> asp"
    have bn: "b \<noteq> n" "b \<noteq> t" using b nt t typed_root [OF ty b] by auto
    then have "as_l0 s' b = as_l0 s b" using m_o by (simp add: as_l0_def)
    with typed_root [OF ty b] bn nt show "tt' b = None" "tt' (as_l0 s' b) = Some (b, [])"
      by (auto simp: tt'_def)
  next
    fix u b pp assume "tt' u = Some (b, pp)"
    then have "u = n \<and> b = a \<and> pp = pth @ [i] \<or> tt u = Some (b, pp)" by (auto simp: tt'_def split: if_splits)
    then show "b \<in> asp" "length pp \<le> 3" "pp \<noteq> [] \<Longrightarrow> hd pp \<noteq> 0"
      using aa t(2) i(2) typed_tab [OF ty, of u b pp] by auto
  next
    fix u b pp j assume A: "tt' u = Some (b, pp) \<and> j < 512 \<and> pte_valid (mem s' u j) \<and> hd (pp @ [j]) \<noteq> 0"
    then have un: "u \<noteq> n" using m_n by auto
    then have tu: "tt u = Some (b, pp)" using A by (simp add: tt'_def)
    show "slot_ok live' tt' asp b (pp @ [j]) (mem s' u j)"
    proof (cases "(u, j) = (t, i)")
      case True
      then have "b = a" "pp = pth" using tu t by auto
      then show ?thesis using True m_t desc t(2) by (simp add: slot_ok_def tt'_def)
    next
      case False
      then have e: "mem s' u j = mem s u j" using m_o un by simp
      have "slot_ok live tt asp b (pp @ [j]) (mem s u j)"
        by (rule typed_slot [OF ty tu]) (use A e in auto)
      then show ?thesis unfolding e by (rule slot_ok_mono [OF _ le])
    qed
  qed
  have "pmm_inv lo (zero_page n s1) (insert n live)"
    by (rule pmm_inv_cong [OF _ _ _ pa(3)]) (auto simp: zero_page_def)
  then have "pmm_inv lo s' live'"
    unfolding s' live'_def using tl(1) by (intro pmm_inv_store) auto
  then have inv': "vm_inv lo s' live' tt' asp"
    using ty' dt al nt tl by (auto simp: vm_inv_def live'_def tt'_def)
  have "as_entry s' b va = as_entry s b va" if "b \<in> asp" "idx 39 va \<noteq> 0" for b va
  proof -
    have bn: "b \<noteq> n" "b \<noteq> t" using that nt t typed_root [OF ty that(1)] by auto
    then have l: "as_l0 s' b = as_l0 s b" using m_o by (simp add: as_l0_def)
    have m_o': "mem s' u j = mem s u j" if "tt u \<noteq> None" "(u, j) \<noteq> (t, i)" for u j
      using that nt(1) by (intro m_o) auto
    have m_t': "mem s' t i AND PA_MASK = n" using m_t desc by simp
    note nt' = entry_new_table [where m' = "mem s'", OF ty nt(1) t False m_n m_o' m_t']
    show ?thesis unfolding as_entry_def l
      by (rule nt') (use typed_root [OF ty that(1)] that(2) in auto)
  qed
  moreover have "mem s' p = mem s p" if "p \<in> live - dom tt" for p
  proof (rule ext)
    fix j
    have "p \<noteq> n" "p \<noteq> t" using that t pa(2) by auto
    then show "mem s' p j = mem s p j" using m_o by simp
  qed
  moreover have "mem s' u j = mem s u j" if "tt u \<noteq> None" "pte_valid (mem s u j)" for u j
  proof (rule m_o)
    show "u \<noteq> n" using that(1) nt(1) by auto
    show "(u, j) \<noteq> (t, i)" using that(2) False by auto
  qed
  moreover have "same_rest s s'" using same_rest_alloc [OF n] by (simp add: s' zero_page_def)
  ultimately have "grown lo asp s live tt s' live' tt'"
    using inv' le unfolding grown_def by auto
  moreover have "room lo live \<le> room lo live' + 1" unfolding live'_def pa(8) by simp
  moreover have "tt' q = Some (a, pth @ [i])" "pte_valid (mem s' t i)" "mem s' t i AND PA_MASK = q"
    using q m_t desc by (simp_all add: tt'_def)
  ultimately show ?thesis by (intro exI [of _ live'] exI [of _ tt'] conjI)
qed


subsection \<open>Stores to page entries\<close>

fun tab_at :: "(u64 \<Rightarrow> nat \<Rightarrow> u64) \<Rightarrow> u64 \<Rightarrow> nat list \<Rightarrow> u64 option" where
  "tab_at m t [] = Some t"
| "tab_at m t (i # is) = (if pte_valid (m t i) then tab_at m (m t i AND PA_MASK) is else None)"

lemma entry_tab_at:
  "entry m t (is @ [j]) = (case tab_at m t is of None \<Rightarrow> 0 | Some p \<Rightarrow> if pte_valid (m p j) then m p j else 0)"
proof (induction "is" arbitrary: t)
  case (Cons i "is")
  then show ?case by (cases "is") auto
qed simp

lemma tab_at_typed:
  assumes ty: "vm_typed s live tt asp"
  shows "tt t = Some (a, pth) \<Longrightarrow> length pth + length is \<le> 3 \<Longrightarrow> set is \<subseteq> {..<512} \<Longrightarrow> hd (pth @ is) \<noteq> 0 \<or> is = [] \<Longrightarrow>
    tab_at (mem s) t is = Some p \<Longrightarrow> tt p = Some (a, pth @ is)"
proof (induction "is" arbitrary: t pth)
  case (Cons i "is")
  then have v: "pte_valid (mem s t i)" "tab_at (mem s) (mem s t i AND PA_MASK) is = Some p"
    by (auto split: if_splits)
  have h: "hd (pth @ [i]) \<noteq> 0" using Cons.prems(4) by (cases pth) auto
  have "tt (mem s t i AND PA_MASK) = Some (a, pth @ [i])"
    using typed_next(1) [OF ty Cons.prems(1) _ v(1) h] Cons.prems(2,3) by simp
  from Cons.IH [OF this _ _ _ v(2)] Cons.prems h show ?case by (cases pth) auto
qed simp

text \<open>A walk only reads tables.\<close>

lemma same_tables:
  assumes ty: "vm_typed s live tt asp" and same: "\<And>t. tt t \<noteq> None \<Longrightarrow> m t = mem s t"
  shows "tt t = Some (a, pth) \<Longrightarrow> length pth + length is = 4 \<Longrightarrow> set is \<subseteq> {..<512} \<Longrightarrow> hd (pth @ is) \<noteq> 0 \<Longrightarrow>
      entry m t is = entry (mem s) t is"
    "tt t = Some (a, pth) \<Longrightarrow> length pth + length is \<le> 3 \<Longrightarrow> set is \<subseteq> {..<512} \<Longrightarrow> hd (pth @ is) \<noteq> 0 \<or> is = [] \<Longrightarrow>
      tab_at m t is = tab_at (mem s) t is"
proof (induction "is" arbitrary: t pth)
  case (Cons i "is")
  have eq: "m t = mem s t" if "tt t = Some (a, pth)" for t pth using same [of t] that by simp
  have step: "tt (mem s t i AND PA_MASK) = Some (a, pth @ [i]) \<and> hd (pth @ [i]) \<noteq> 0"
    if "tt t = Some (a, pth)" "length pth < 3" "i < 512" "hd (pth @ i # is) \<noteq> 0" "pte_valid (mem s t i)" for t pth
  proof -
    have "hd (pth @ [i]) \<noteq> 0" using that(4) by (cases pth) auto
    with typed_next(1) [OF ty that(1,3,5) _ that(2)] show ?thesis by simp
  qed
  {
    case 1
    show ?case
    proof (cases "is")
      case Nil
      then show ?thesis using eq [OF 1(1)] by simp
    next
      case (Cons k ks)
      then show ?thesis using 1 eq [OF 1(1)] step Cons.IH(1) [of "mem s t i AND PA_MASK" "pth @ [i]"]
        by (cases "pte_valid (mem s t i)") (auto simp: hd_append)
    qed
  next
    case 2
    then show ?case using eq [OF 2(1)] step Cons.IH(2) [of "mem s t i AND PA_MASK" "pth @ [i]"]
      by (cases "pte_valid (mem s t i)") (auto simp: hd_append)
  }
qed simp_all

text \<open>The tables an address space has stay where they are.\<close>

definition tabs_kept :: "u64 set \<Rightarrow> 'a vm_scheme \<Rightarrow> 'a vm_scheme \<Rightarrow> bool" where
  "tabs_kept asp s s' \<longleftrightarrow> (\<forall>b \<in> asp. \<forall>q t. length q \<le> 3 \<and> set q \<subseteq> {..<512} \<and> (hd q \<noteq> 0 \<or> q = []) \<and>
     tab_at (mem s) (as_l0 s b) q = Some t \<longrightarrow> tab_at (mem s') (as_l0 s' b) q = Some t)"

lemma tabs_keptD: "tabs_kept asp s s' \<Longrightarrow> b \<in> asp \<Longrightarrow> length q \<le> 3 \<Longrightarrow> set q \<subseteq> {..<512} \<Longrightarrow> hd q \<noteq> 0 \<or> q = [] \<Longrightarrow>
     tab_at (mem s) (as_l0 s b) q = Some t \<Longrightarrow> tab_at (mem s') (as_l0 s' b) q = Some t"
  by (simp add: tabs_kept_def)

lemma tabs_kept_trans: "tabs_kept asp s t \<Longrightarrow> tabs_kept asp t u \<Longrightarrow> tabs_kept asp s u"
  by (simp add: tabs_kept_def)

lemma tab_at_leaf:
  assumes ty: "vm_typed s live tt asp" and p: "tt p = Some (a', pth')" "length pth' = 3"
  shows "tt t = Some (a, pth) \<Longrightarrow> length pth + length is \<le> 3 \<Longrightarrow> set is \<subseteq> {..<512} \<Longrightarrow> hd (pth @ is) \<noteq> 0 \<or> is = [] \<Longrightarrow>
    tab_at ((mem s)(p := (mem s p)(j := v))) t is = tab_at (mem s) t is"
proof (induction "is" arbitrary: t pth)
  case (Cons i "is")
  have tp: "t \<noteq> p" using Cons.prems(1,2) p by auto
  show ?case
  proof (cases "pte_valid (mem s t i)")
    case True
    have h: "hd (pth @ [i]) \<noteq> 0" using Cons.prems(4) by (cases pth) auto
    have n: "tt (mem s t i AND PA_MASK) = Some (a, pth @ [i])"
      using typed_next(1) [OF ty Cons.prems(1) _ True h] Cons.prems(2,3) by simp
    have "tab_at ((mem s)(p := (mem s p)(j := v))) (mem s t i AND PA_MASK) is = tab_at (mem s) (mem s t i AND PA_MASK) is"
      by (rule Cons.IH [OF n]) (use Cons.prems h in \<open>auto simp: hd_append\<close>)
    then show ?thesis using True tp by (simp del: fun_upd_apply add: fun_upd_other)
  next
    case False
    then show ?thesis using tp by simp
  qed
qed simp

lemma leaf_store:
  assumes inv: "vm_inv lo s live tt asp" and a: "a \<in> asp"
    and tab: "tab_at (mem s) (as_l0 s a) pth = Some p" "length pth = 3" "set pth \<subseteq> {..<512}" "hd pth \<noteq> 0"
    and j: "j < 512" and v: "pte_valid v \<longrightarrow> slot_ok live tt asp a (pth @ [j]) v"
  shows "vm_inv lo (store p j v s) live tt asp" "tt p = Some (a, pth)"
    "\<And>b w. b \<in> asp \<Longrightarrow> idx 39 w \<noteq> 0 \<Longrightarrow> as_entry (store p j v s) b w =
       (if b = a \<and> upath w = pth @ [j] then if pte_valid v then v else 0 else as_entry s b w)"
    "tabs_kept asp s (store p j v s)"
proof -
  have ty: "vm_typed s live tt asp" and dt: "dom tt \<subseteq> live" using inv by (simp_all add: vm_inv_def)
  note root = typed_root [OF ty]
  have pne: "pth \<noteq> []" using tab by auto
  show tp: "tt p = Some (a, pth)"
    using tab_at_typed [OF ty _ _ tab(3) _ tab(1), of a "[]"] root [OF a] tab by simp
  have pl: "p \<in> live" using tp dt by auto
  have l0: "as_l0 (store p j v s) b = as_l0 s b" if "b \<in> asp" for b
    using root [OF that] tp by (auto simp: as_l0_def)
  have "vm_typed (store p j v s) live tt asp"
    unfolding vm_typed_def
  proof (intro conjI ballI allI impI)
    fix b assume "b \<in> asp"
    then show "tt b = None" "tt (as_l0 (store p j v s) b) = Some (b, [])" using root l0 by simp_all
  next
    fix u b pp assume "tt u = Some (b, pp)"
    then show "b \<in> asp" "length pp \<le> 3" "pp \<noteq> [] \<Longrightarrow> hd pp \<noteq> 0" using typed_tab [OF ty] by simp_all
  next
    fix u b pp i assume A: "tt u = Some (b, pp) \<and> i < 512 \<and> pte_valid (mem (store p j v s) u i) \<and> hd (pp @ [i]) \<noteq> 0"
    show "slot_ok live tt asp b (pp @ [i]) (mem (store p j v s) u i)"
    proof (cases "(u, i) = (p, j)")
      case True
      then show ?thesis using A v tp by simp
    next
      case False
      then have e: "mem (store p j v s) u i = mem s u i" by auto
      show ?thesis unfolding e by (rule typed_slot [OF ty]) (use A e in auto)
    qed
  qed
  then show "vm_inv lo (store p j v s) live tt asp"
    using inv pmm_inv_store [of lo s live p j v, OF _ pl] by (simp add: vm_inv_def)
  show "tabs_kept asp s (store p j v s)"
    unfolding tabs_kept_def
  proof (intro ballI allI impI)
    fix b q t assume b: "b \<in> asp" and A: "length q \<le> 3 \<and> set q \<subseteq> {..<512} \<and> (hd q \<noteq> 0 \<or> q = []) \<and>
      tab_at (mem s) (as_l0 s b) q = Some t"
    have "tab_at ((mem s)(p := (mem s p)(j := v))) (as_l0 s b) q = tab_at (mem s) (as_l0 s b) q"
      by (rule tab_at_leaf [OF ty tp tab(2), of "as_l0 s b" b "[]"]) (use root [OF b] A in auto)
    then show "tab_at (mem (store p j v s)) (as_l0 (store p j v s) b) q = Some t"
      using A l0 [OF b] by simp
  qed
  fix b w assume b: "b \<in> asp" and w: "idx 39 w \<noteq> 0"
  show "as_entry (store p j v s) b w =
       (if b = a \<and> upath w = pth @ [j] then if pte_valid v then v else 0 else as_entry s b w)"
  proof (cases "b = a \<and> upath w = pth @ [j]")
    case True
    have "tab_at ((mem s)(p := (mem s p)(j := v))) (as_l0 s a) pth = Some p"
      using tab_at_leaf [OF ty tp tab(2), of "as_l0 s a" a "[]" pth j v] root [OF a] tab by simp
    then show ?thesis using True l0 [OF a] by (simp add: as_entry_def entry_tab_at)
  next
    case False
    have "entry ((mem s)(p := (mem s p)(j := v))) (as_l0 s b) (upath w) = entry (mem s) (as_l0 s b) (upath w)"
      by (rule entry_leaf_other [OF ty tp tab(2), of "as_l0 s b" b "[]"]) (use root [OF b] w False in auto)
    then show ?thesis using False l0 [OF b] by (auto simp: as_entry_def)
  qed
qed

lemma tab_at_grown:
  assumes g: "grown lo asp s live tt s' live' tt'" and ty: "vm_typed s live tt asp"
  shows "tt t = Some (a, pth) \<Longrightarrow> length pth + length is \<le> 3 \<Longrightarrow> set is \<subseteq> {..<512} \<Longrightarrow> hd (pth @ is) \<noteq> 0 \<or> is = [] \<Longrightarrow>
    tab_at (mem s) t is = Some p \<Longrightarrow> tab_at (mem s') t is = Some p"
proof (induction "is" arbitrary: t pth)
  case (Cons i "is")
  then have v: "pte_valid (mem s t i)" "tab_at (mem s) (mem s t i AND PA_MASK) is = Some p"
    by (auto split: if_splits)
  have h: "hd (pth @ [i]) \<noteq> 0" using Cons.prems(4) by (cases pth) auto
  have n: "tt (mem s t i AND PA_MASK) = Some (a, pth @ [i])"
    using typed_next(1) [OF ty Cons.prems(1) _ v(1) h] Cons.prems(2,3) by simp
  have e: "mem s' t i = mem s t i" using g v(1) Cons.prems(1) by (simp add: grown_def)
  have "tab_at (mem s') (mem s t i AND PA_MASK) is = Some p"
    by (rule Cons.IH [OF n _ _ _ v(2)]) (use Cons.prems h in \<open>auto simp: hd_append\<close>)
  then show ?case using v e by simp
qed simp

lemma tabs_kept_grown:
  assumes g: "grown lo asp s live tt s' live' tt'" and inv: "vm_inv lo s live tt asp"
  shows "tabs_kept asp s s'"
  unfolding tabs_kept_def
proof (intro ballI allI impI)
  fix b q t assume b: "b \<in> asp" and A: "length q \<le> 3 \<and> set q \<subseteq> {..<512} \<and> (hd q \<noteq> 0 \<or> q = []) \<and>
    tab_at (mem s) (as_l0 s b) q = Some t"
  have ty: "vm_typed s live tt asp" using inv by (simp add: vm_inv_def)
  have "b \<in> live - dom tt" using typed_root [OF ty b] b inv by (auto simp: vm_inv_def dom_def)
  then have "as_l0 s' b = as_l0 s b" using g by (simp add: grown_def as_l0_def)
  then show "tab_at (mem s') (as_l0 s' b) q = Some t"
    using tab_at_grown [OF g ty, of "as_l0 s b" b "[]" q t] typed_root [OF ty b] A by simp
qed

lemma map_page_spec:
  assumes inv: "vm_inv lo s live tt asp" and a: "a \<in> asp" and va: "idx 39 va \<noteq> 0" and room: "3 \<le> room lo live"
    and pa: "pa \<in> live - dom tt - asp" and attrs: "attrs AND PA_MASK = 0"
  defines "s' \<equiv> map_page (as_l0 s a) va pa attrs s"
  shows "\<exists>live' tt'. vm_inv lo s' live' tt' asp \<and> live \<subseteq> live' \<and> tt \<subseteq>\<^sub>m tt' \<and> dom tt' \<subseteq> dom tt \<union> (live' - live) \<and>
    room lo live \<le> room lo live' + 3 \<and> same_rest s s' \<and> (\<forall>p \<in> live - dom tt. mem s' p = mem s p) \<and>
    (\<forall>b \<in> asp. \<forall>w. idx 39 w \<noteq> 0 \<longrightarrow> as_entry s' b w =
       (if b = a \<and> upath w = upath va then pa OR attrs OR DESC_PAGE else as_entry s b w)) \<and>
    tabs_kept asp s s'"
proof -
  have ty: "vm_typed s live tt asp" using inv by (simp add: vm_inv_def)
  note root = typed_root [OF ty a]
  let ?l0 = "as_l0 s a"
  obtain l1 s1 where d1: "descend ?l0 (idx 39 va) s = (l1, s1)" by fastforce
  obtain v1 t1 where g1: "grown lo asp s live tt s1 v1 t1" "t1 l1 = Some (a, [idx 39 va])"
    "pte_valid (mem s1 ?l0 (idx 39 va))" "mem s1 ?l0 (idx 39 va) AND PA_MASK = l1" "room lo live \<le> room lo v1 + 1"
    using descend_spec [OF inv _ _ _ _ _ d1, of a "[]"] root va room by auto
  have i1: "vm_inv lo s1 v1 t1 asp" using g1(1) by (simp add: grown_def)
  obtain l2 s2 where d2: "descend l1 (idx 30 va) s1 = (l2, s2)" by fastforce
  obtain v2 t2 where g2: "grown lo asp s1 v1 t1 s2 v2 t2" "t2 l2 = Some (a, [idx 39 va, idx 30 va])"
    "pte_valid (mem s2 l1 (idx 30 va))" "mem s2 l1 (idx 30 va) AND PA_MASK = l2" "room lo v1 \<le> room lo v2 + 1"
    using descend_spec [OF i1 g1(2) _ _ _ _ d2] va room g1(5) by auto
  have i2: "vm_inv lo s2 v2 t2 asp" using g2(1) by (simp add: grown_def)
  obtain l3 s3 where d3: "descend l2 (idx 21 va) s2 = (l3, s3)" by fastforce
  obtain v3 t3 where g3: "grown lo asp s2 v2 t2 s3 v3 t3" "t3 l3 = Some (a, [idx 39 va, idx 30 va, idx 21 va])"
    "pte_valid (mem s3 l2 (idx 21 va))" "mem s3 l2 (idx 21 va) AND PA_MASK = l3" "room lo v2 \<le> room lo v3 + 1"
    using descend_spec [OF i2 g2(2) _ _ _ _ d3] va room g1(5) g2(5) by auto
  have g: "grown lo asp s live tt s3 v3 t3" by (rule grown_trans [OF grown_trans [OF g1(1) g2(1)] g3(1)])
  have inv3: "vm_inv lo s3 v3 t3 asp" using g by (simp add: grown_def)
  have ty1: "vm_typed s1 v1 t1 asp" "vm_typed s2 v2 t2 asp" using i1 i2 by (simp_all add: vm_inv_def)
  have r1: "t1 ?l0 = Some (a, [])" using g1(1) root by (simp add: grown_def map_le_def dom_def)
  have l0: "as_l0 s3 a = ?l0"
  proof -
    have "a \<in> live - dom tt" using root a inv by (auto simp: vm_inv_def dom_def)
    then show ?thesis using g by (simp add: grown_def as_l0_def)
  qed
  have tab: "tab_at (mem s3) (as_l0 s3 a) [idx 39 va, idx 30 va, idx 21 va] = Some l3"
  proof -
    have "tab_at (mem s1) ?l0 [idx 39 va] = Some l1" using g1 by simp
    from tab_at_grown [OF grown_trans [OF g2(1) g3(1)] ty1(1) r1 _ _ _ this] va
    have a1: "tab_at (mem s3) ?l0 [idx 39 va] = Some l1" by simp
    have "tab_at (mem s2) l1 [idx 30 va] = Some l2" using g2 by simp
    from tab_at_grown [OF g3(1) ty1(2) _ _ _ _ this, of a "[idx 39 va]"] va g1(2) g2(1)
    have a2: "tab_at (mem s3) l1 [idx 30 va] = Some l2" by (simp add: grown_def map_le_def dom_def)
    from a1 a2 g3(3,4) show ?thesis unfolding l0 by (simp split: if_splits)
  qed
  define e where "e = (pa AND NOT 0xFFF) OR attrs OR DESC_PAGE"
  have s': "s' = store l3 (idx 12 va) e s3"
    unfolding s'_def map_page_def e_def by (simp only: d1 d2 d3 prod.case)
  have pl: "pa \<in> live" "pa \<notin> dom tt" "pa \<notin> asp" using pa by auto
  have al: "4096 dvd unat pa" "pa \<le> RAM_END"
    using pmm_inv_frame [of lo s live pa] pl inv by (auto simp: vm_inv_def pmm_inv_def)
  note desc = leaf_desc [OF al attrs, folded e_def]
  have ee: "e = pa OR attrs OR DESC_PAGE" using page_and_mask(1) [OF al] unfolding e_def by simp
  have "pa \<notin> dom t3" "pa \<in> v3" using g pl unfolding grown_def by blast+
  then have "t3 pa = None" "pa \<in> v3" by (simp_all only: domIff not_not)
  then have so: "pte_valid e \<longrightarrow> slot_ok v3 t3 asp a ([idx 39 va, idx 30 va, idx 21 va] @ [idx 12 va]) e"
    using desc pl by (simp add: slot_ok_def)
  have hp: "length [idx 39 va, idx 30 va, idx 21 va] = 3" "set [idx 39 va, idx 30 va, idx 21 va] \<subseteq> {..<512}"
    "hd [idx 39 va, idx 30 va, idx 21 va] \<noteq> 0" using va by simp_all
  note ls = leaf_store [OF inv3 a tab hp idx_less so]
  have up: "upath va = [idx 39 va, idx 30 va, idx 21 va, idx 12 va]" by (simp add: upath_def)
  have ent: "as_entry s' b w = (if b = a \<and> upath w = upath va then pa OR attrs OR DESC_PAGE else as_entry s b w)"
    if "b \<in> asp" "idx 39 w \<noteq> 0" for b w
    using ls(3) [OF that] desc(3) ee g that unfolding s' up grown_def by simp
  have keep: "mem s' p = mem s p" if "p \<in> live - dom tt" for p
  proof -
    have "p \<noteq> l3" using ls(2) that g unfolding grown_def by blast
    then show ?thesis using g that unfolding s' grown_def by simp
  qed
  have "room lo live \<le> room lo v3 + 3" using g1(5) g2(5) g3(5) by simp
  moreover have "tabs_kept asp s s'"
    using tabs_kept_trans [OF tabs_kept_grown [OF g inv] ls(4)] unfolding s' .
  ultimately show ?thesis using ls(1) g ent keep unfolding grown_def s' by (intro exI [of _ v3] exI [of _ t3]) auto
qed

end
