(* ===== verification/Vm_Refs.thy ===== *)
theory Vm_Refs
  imports Vm_Tables
begin

text \<open>
  Reference counts of \<open>src/vm.c\<close>: \<open>ref_ok\<close> says that the count of every page of RAM is the number
  of page entries that map it, in all address spaces, plus the references held by others (the
  shared-memory table). The lemmas follow one entry as it is made, changed or removed.
\<close>

subsection \<open>Virtual addresses and paths\<close>

definition mk_va :: "nat \<Rightarrow> nat \<Rightarrow> nat \<Rightarrow> nat \<Rightarrow> u64" where
  "mk_va i j k l = push_bit 39 (of_nat i) OR push_bit 30 (of_nat j) OR push_bit 21 (of_nat k) OR push_bit 12 (of_nat l)"

lemma idx_take: "idx sh va = unat (take_bit 9 (drop_bit sh va))"
  by (simp add: idx_def take_bit_eq_mask mask_numeral)

lemma bit_small: "i < 512 \<Longrightarrow> bit i n \<Longrightarrow> n < (9 :: nat)" for i :: nat
proof -
  assume "i < 512" "bit i n"
  then have "take_bit 9 i = i" by (simp add: take_bit_nat_eq_self)
  with \<open>bit i n\<close> show ?thesis by (metis bit_take_bit_iff)
qed

lemma upath_mk_va:
  assumes "i < 512" "j < 512" "k < 512" "l < 512"
  shows "upath (mk_va i j k l) = [i, j, k, l]"
proof -
  note b = bit_small [OF assms(1)] bit_small [OF assms(2)] bit_small [OF assms(3)] bit_small [OF assms(4)]
  have u: "unat (of_nat x :: u64) = x" if "x < 512" for x using that by (simp add: unat_of_nat)
  have "take_bit 9 (drop_bit 39 (mk_va i j k l)) = of_nat i"
    "take_bit 9 (drop_bit 30 (mk_va i j k l)) = of_nat j"
    "take_bit 9 (drop_bit 21 (mk_va i j k l)) = of_nat k"
    "take_bit 9 (drop_bit 12 (mk_va i j k l)) = of_nat l"
    by (rule bit_word_eqI; auto simp: mk_va_def bit_simps dest: b)+
  with u assms show ?thesis by (simp add: upath_def idx_take)
qed

definition paths :: "nat list set" where
  "paths = {p. length p = 4 \<and> set p \<subseteq> {..<512} \<and> hd p \<noteq> 0}"

lemma finite_paths [simp]: "finite paths"
proof -
  have "finite {p. set p \<subseteq> {..<512::nat} \<and> length p = 4}" by (rule finite_lists_length_eq) simp
  then show ?thesis by (rule rev_finite_subset) (auto simp: paths_def)
qed

lemma paths_mk_va: "p \<in> paths \<Longrightarrow> \<exists>w. upath w = p \<and> idx 39 w \<noteq> 0"
proof -
  assume p: "p \<in> paths"
  then obtain i j k l where e: "p = [i, j, k, l]"
    by (auto simp: paths_def numeral_eq_Suc length_Suc_conv)
  with p have "i < 512" "j < 512" "k < 512" "l < 512" "i \<noteq> 0" by (auto simp: paths_def)
  then show ?thesis using upath_mk_va [of i j k l] e by (intro exI [of _ "mk_va i j k l"]) (auto simp: upath_def)
qed

lemma upath_paths: "idx 39 w \<noteq> 0 \<Longrightarrow> upath w \<in> paths"
  by (simp add: paths_def)

definition as_ent :: "'a vm_scheme \<Rightarrow> u64 \<Rightarrow> nat list \<Rightarrow> u64" where
  "as_ent s b p = entry (mem s) (as_l0 s b) p"

lemma as_entry_ent: "as_entry s b w = as_ent s b (upath w)"
  by (simp add: as_entry_def as_ent_def)

text \<open>Statements over addresses are statements over paths.\<close>

lemma all_paths: "(\<forall>w. idx 39 w \<noteq> 0 \<longrightarrow> P (upath w)) \<longleftrightarrow> (\<forall>p \<in> paths. P p)"
  using paths_mk_va upath_paths by metis

subsection \<open>Counting the mappings of a page\<close>

definition maps :: "'a vm_scheme \<Rightarrow> u64 set \<Rightarrow> u64 \<Rightarrow> (u64 \<times> nat list) set" where
  "maps s asp pa = {(b, p). b \<in> asp \<and> p \<in> paths \<and> as_ent s b p \<noteq> 0 \<and> as_ent s b p AND PA_MASK = pa}"

definition ref_ok :: "'a vm_scheme \<Rightarrow> u64 set \<Rightarrow> u64 set \<Rightarrow> (u64 \<Rightarrow> nat) \<Rightarrow> bool" where
  "ref_ok s live asp ex \<longleftrightarrow>
    (\<forall>pa. pa \<notin> live \<longrightarrow> ex pa = 0) \<and>
    (\<forall>pa \<in> frames RAM_BASE RAM_TOP. unat (page_ref s (pidx pa)) = card (maps s asp pa) + ex pa)"

lemma finite_maps [simp]: "finite asp \<Longrightarrow> finite (maps s asp pa)"
  by (rule finite_subset [of _ "asp \<times> paths"]) (auto simp: maps_def)

definition hits :: "u64 \<Rightarrow> u64 \<Rightarrow> nat" where
  "hits e pa = (if e \<noteq> 0 \<and> e AND PA_MASK = pa then 1 else 0)"

lemma maps_change:
  assumes fin: "finite asp" and b: "b \<in> asp" "p \<in> paths"
    and e: "\<And>c q. c \<in> asp \<Longrightarrow> q \<in> paths \<Longrightarrow> as_ent s' c q = (if c = b \<and> q = p then e' else as_ent s c q)"
  shows "card (maps s' asp pa) + hits (as_ent s b p) pa = card (maps s asp pa) + hits e' pa"
proof -
  define M where "M = maps s asp pa - {(b, p)}"
  have f: "finite M" "(b, p) \<notin> M" using fin by (simp_all add: M_def)
  have m: "maps s asp pa = (if hits (as_ent s b p) pa = 1 then insert (b, p) M else M)"
    using b by (auto simp: M_def maps_def hits_def)
  have m': "maps s' asp pa = (if hits e' pa = 1 then insert (b, p) M else M)"
  proof (rule set_eqI)
    fix x :: "u64 \<times> nat list"
    obtain c q where x: "x = (c, q)" by (cases x)
    show "x \<in> maps s' asp pa \<longleftrightarrow> x \<in> (if hits e' pa = 1 then insert (b, p) M else M)"
      using b e [of c q] by (cases "c = b \<and> q = p") (auto simp: x M_def maps_def hits_def)
  qed
  show ?thesis unfolding m m' using f by (auto simp: hits_def)
qed

lemma pidx_inj:
  assumes "p \<in> frames RAM_BASE RAM_TOP" "q \<in> frames RAM_BASE RAM_TOP" "pidx p = pidx q"
  shows "p = q"
proof -
  have u: "unat (x - RAM_BASE) = unat x - 0x40000000 \<and> 0x40000000 \<le> unat x \<and> 4096 dvd unat x"
    if "x \<in> frames RAM_BASE RAM_TOP" for x
    using that by (auto simp: frames_def RAM_BASE_def unat_sub word_le_nat_alt)
  have "(unat p - 0x40000000) div 4096 = (unat q - 0x40000000) div 4096"
    using assms(3) u [OF assms(1)] u [OF assms(2)] by (simp add: pidx_def PAGE_SIZE_def unat_div)
  then have "unat p = unat q" using u [OF assms(1)] u [OF assms(2)] by (auto simp: dvd_def)
  then show ?thesis by (simp add: word_unat_eq_iff)
qed

lemma page_incref_simps [simp]:
  "mem (page_incref pa s) = mem s" "bump (page_incref pa s) = bump s" "free_list (page_incref pa s) = free_list s"
  "as_ent (page_incref pa s) b p = as_ent s b p" "as_entry (page_incref pa s) b w = as_entry s b w"
  "as_l0 (page_incref pa s) b = as_l0 s b" "vm_typed (page_incref pa s) live tt asp = vm_typed s live tt asp"
  "pmm_inv lo (page_incref pa s) live = pmm_inv lo s live" "maps (page_incref pa s) asp q = maps s asp q"
  by (simp_all add: page_incref_def as_ent_def as_entry_def as_l0_def vm_typed_def pmm_inv_def maps_def)

lemma vm_inv_incref [simp]: "vm_inv lo (page_incref pa s) live tt asp = vm_inv lo s live tt asp"
  by (simp add: vm_inv_def)

lemma page_incref_ref:
  assumes "pa \<in> frames RAM_BASE RAM_TOP" "q \<in> frames RAM_BASE RAM_TOP" "unat (page_ref s (pidx pa)) < 65535"
  shows "unat (page_ref (page_incref pa s) (pidx q)) = unat (page_ref s (pidx q)) + (if q = pa then 1 else 0)"
proof -
  have "RAM_BASE \<le> pa \<and> pa < RAM_TOP" using assms(1) by (simp add: frames_def)
  then show ?thesis using assms pidx_inj [OF assms(2,1)]
    by (auto simp: page_incref_def unat_word_ariths)
qed


lemma path_cases: "p \<in> paths \<Longrightarrow> \<exists>q j. p = q @ [j] \<and> length q = 3 \<and> set q \<subseteq> {..<512} \<and> hd q \<noteq> 0 \<and> j < 512"
proof -
  assume p: "p \<in> paths"
  then have "p \<noteq> []" by (auto simp: paths_def)
  then obtain q j where q: "p = q @ [j]" by (metis rev_exhaust)
  then have "q \<noteq> []" using p by (auto simp: paths_def)
  with p q show ?thesis by (intro exI [of _ q] exI [of _ j]) (auto simp: paths_def)
qed

text \<open>Every page entry is well formed and maps a page in use that is not a table.\<close>

lemma ent_ok:
  assumes inv: "vm_inv lo s live tt asp" and b: "b \<in> asp" and p: "p \<in> paths" and e: "as_ent s b p \<noteq> 0"
  shows "as_ent s b p AND 3 = 3" "as_ent s b p AND PA_MASK \<in> live" "as_ent s b p AND PA_MASK \<notin> dom tt"
    "as_ent s b p AND PA_MASK \<notin> asp"
    "\<exists>q j t. p = q @ [j] \<and> length q = 3 \<and> set q \<subseteq> {..<512} \<and> hd q \<noteq> 0 \<and> j < 512 \<and>
       tab_at (mem s) (as_l0 s b) q = Some t \<and> mem s t j = as_ent s b p"
proof -
  have ty: "vm_typed s live tt asp" using inv by (simp add: vm_inv_def)
  obtain q j where q: "p = q @ [j]" "length q = 3" "set q \<subseteq> {..<512}" "hd q \<noteq> 0" "j < 512"
    using path_cases [OF p] by blast
  obtain t where t: "tab_at (mem s) (as_l0 s b) q = Some t" "pte_valid (mem s t j)" "as_ent s b p = mem s t j"
    using e unfolding as_ent_def q(1) entry_tab_at by (auto split: option.splits if_splits)
  have tt: "tt t = Some (b, q)"
    using tab_at_typed [OF ty _ _ q(3) _ t(1), of b "[]"] typed_root [OF ty b] q by simp
  have "hd (q @ [j]) \<noteq> 0" using q by (cases q) auto
  from typed_slot [OF ty tt q(5) t(2) this] q(2)
  have so: "mem s t j AND 3 = 3" "tt (mem s t j AND PA_MASK) = None" "mem s t j AND PA_MASK \<in> live - asp"
    by (simp_all add: slot_ok_def)
  then show "as_ent s b p AND 3 = 3" "as_ent s b p AND PA_MASK \<in> live" "as_ent s b p AND PA_MASK \<notin> dom tt"
    "as_ent s b p AND PA_MASK \<notin> asp" unfolding t(3) by auto
  show "\<exists>q j t. p = q @ [j] \<and> length q = 3 \<and> set q \<subseteq> {..<512} \<and> hd q \<noteq> 0 \<and> j < 512 \<and>
       tab_at (mem s) (as_l0 s b) q = Some t \<and> mem s t j = as_ent s b p"
    using q t by metis
qed

lemma live_frame:
  assumes "vm_inv lo s live tt asp" "RAM_BASE \<le> lo" "p \<in> live"
  shows "p \<in> frames RAM_BASE RAM_TOP" "4096 dvd unat p" "p \<le> RAM_END"
proof -
  have "pmm_inv lo s live" using assms(1) by (simp add: vm_inv_def)
  from pmm_inv_frame [OF this assms(3)] this have f: "4096 dvd unat p" "lo \<le> p" "p < bump s" "bump s \<le> RAM_END"
    by (simp_all add: pmm_inv_def)
  then have "p < RAM_END" by simp
  then show "p \<le> RAM_END" "4096 dvd unat p" using f by simp_all
  show "p \<in> frames RAM_BASE RAM_TOP"
    using f order_trans [OF assms(2) f(2)] \<open>p < RAM_END\<close> by (simp add: frames_def RAM_TOP_def RAM_END_def)
qed

lemma finite_asp [simp]: "finite (A :: u64 set)" by simp

lemma maps_cong: "(\<And>b p. b \<in> asp \<Longrightarrow> p \<in> paths \<Longrightarrow> as_ent s' b p = as_ent s b p) \<Longrightarrow> maps s' asp pa = maps s asp pa"
  by (auto simp: maps_def)

text \<open>Making an entry for an address that had none.\<close>

lemma map_count_spec:
  assumes inv: "vm_inv lo s live tt asp" and ref: "ref_ok s live asp ex" and lo: "RAM_BASE \<le> lo"
    and a: "a \<in> asp" and va: "idx 39 va \<noteq> 0" and room: "3 \<le> room lo live"
    and pa: "pa \<in> live - dom tt - asp" and attrs: "attrs AND PA_MASK = 0"
    and none: "as_entry s a va = 0" and cnt: "unat (page_ref s (pidx pa)) < 65535"
  defines "s' \<equiv> page_incref pa (map_page (as_l0 s a) va pa attrs s)"
  shows "\<exists>live' tt'. vm_inv lo s' live' tt' asp \<and> ref_ok s' live' asp ex \<and> live \<subseteq> live' \<and> tt \<subseteq>\<^sub>m tt' \<and>
    dom tt' \<subseteq> dom tt \<union> (live' - live) \<and> room lo live \<le> room lo live' + 3 \<and> (\<forall>p \<in> live - dom tt. mem s' p = mem s p) \<and>
    same_rest (page_incref pa s) s' \<and>
    (\<forall>b \<in> asp. \<forall>w. idx 39 w \<noteq> 0 \<longrightarrow> as_entry s' b w =
       (if b = a \<and> upath w = upath va then pa OR attrs OR DESC_PAGE else as_entry s b w)) \<and>
    tabs_kept asp s s'"
proof -
  define t where "t = map_page (as_l0 s a) va pa attrs s"
  obtain live' tt' where m: "vm_inv lo t live' tt' asp" "live \<subseteq> live'" "tt \<subseteq>\<^sub>m tt'" "dom tt' \<subseteq> dom tt \<union> (live' - live)"
    "room lo live \<le> room lo live' + 3" "same_rest s t" "\<forall>p \<in> live - dom tt. mem t p = mem s p"
    "\<forall>b \<in> asp. \<forall>w. idx 39 w \<noteq> 0 \<longrightarrow> as_entry t b w =
       (if b = a \<and> upath w = upath va then pa OR attrs OR DESC_PAGE else as_entry s b w)"
    "tabs_kept asp s t"
    using map_page_spec [OF inv a va room pa attrs] unfolding t_def by blast
  let ?e = "pa OR attrs OR DESC_PAGE"
  have pl: "pa \<in> live" using pa by simp
  note pf = live_frame [OF inv lo pl]
  have ee: "?e AND PA_MASK = pa" "?e \<noteq> 0"
    using leaf_desc [OF pf(2,3) attrs] page_and_mask(1) [OF pf(2,3)] by auto
  have ent: "as_ent t c q = (if c = a \<and> q = upath va then ?e else as_ent s c q)" if c: "c \<in> asp" and q: "q \<in> paths" for c q
  proof -
    obtain w where w: "upath w = q" "idx 39 w \<noteq> 0" using paths_mk_va [OF q] by blast
    show ?thesis using m(8) [rule_format, OF c w(2)] by (simp only: as_entry_ent w(1))
  qed
  have "unat (page_ref s' (pidx q)) = card (maps s' asp q) + ex q" if q: "q \<in> frames RAM_BASE RAM_TOP" for q
  proof -
    have "card (maps t asp q) + hits (as_ent s a (upath va)) q = card (maps s asp q) + hits ?e q"
      by (rule maps_change [OF _ a upath_paths [OF va] ent]) auto
    then have "card (maps t asp q) = card (maps s asp q) + (if q = pa then 1 else 0)"
      using none ee by (auto simp: hits_def as_entry_ent)
    moreover have "page_ref t = page_ref s" using m(6) by (simp add: same_rest_def)
    ultimately show ?thesis
      using page_incref_ref [OF pf(1) q, of t] cnt ref q unfolding s'_def t_def [symmetric]
      by (simp add: ref_ok_def)
  qed
  moreover have "ex q = 0" if "q \<notin> live'" for q using that ref m(2) by (auto simp: ref_ok_def)
  ultimately have "ref_ok s' live' asp ex" by (simp add: ref_ok_def)
  moreover have "same_rest (page_incref pa s) s'" using m(6) unfolding s'_def t_def [symmetric]
    by (auto simp: same_rest_def page_incref_def)
  moreover have "tabs_kept asp s s'" using m(9) unfolding s'_def t_def [symmetric] by (simp add: tabs_kept_def)
  ultimately show ?thesis using m unfolding s'_def t_def [symmetric]
    by (intro exI [of _ live'] exI [of _ tt']) auto
qed


subsection \<open>Pages of addresses\<close>

lemma upath_page: "upath w = upath w' \<longleftrightarrow> take_bit 36 (drop_bit 12 w) = take_bit 36 (drop_bit 12 w')"
proof
  assume e: "take_bit 36 (drop_bit 12 w) = take_bit 36 (drop_bit 12 w')"
  have b: "bit w (12 + n) = bit w' (12 + n)" if "n < 36" for n
  proof -
    have "bit (take_bit 36 (drop_bit 12 w)) n = bit (take_bit 36 (drop_bit 12 w')) n" using e by simp
    with that show ?thesis by (simp only: bit_take_bit_iff bit_drop_bit_eq comp_apply simp_thms)
  qed
  have "bit w (9 * k + 12 + n) = bit w' (9 * k + 12 + n)" if "n < 9" "k < 4" for n k
    using b [of "9 * k + n"] that by (simp add: ac_simps)
  then have "take_bit 9 (drop_bit (12 + 9 * k) w) = take_bit 9 (drop_bit (12 + 9 * k) w')" if "k < 4" for k
    using that by (intro bit_word_eqI) (auto simp: bit_simps ac_simps)
  from this [of 0] this [of 1] this [of 2] this [of 3] show "upath w = upath w'"
    by (simp add: upath_def idx_take)
next
  assume u: "upath w = upath w'"
  have t: "take_bit 9 (drop_bit (12 + 9 * k) w) = take_bit 9 (drop_bit (12 + 9 * k) w')" if "k < 4" for k
  proof -
    from that consider "k = 0" | "k = 1" | "k = 2" | "k = 3" by linarith
    then show ?thesis by cases (use u in \<open>simp_all add: upath_def idx_take word_unat_eq_iff\<close>)
  qed
  show "take_bit 36 (drop_bit 12 w) = take_bit 36 (drop_bit 12 w')"
  proof (rule bit_word_eqI)
    fix n
    show "bit (take_bit 36 (drop_bit 12 w)) n = bit (take_bit 36 (drop_bit 12 w')) n"
    proof (cases "n < 36")
      case True
      then have "n div 9 < 4" "n mod 9 < 9" by simp_all
      from arg_cong [OF t [OF this(1)], of "\<lambda>x. bit x (n mod 9)"] this(2)
      have "bit w (12 + 9 * (n div 9) + n mod 9) = bit w' (12 + 9 * (n div 9) + n mod 9)"
        by (simp only: bit_take_bit_iff bit_drop_bit_eq comp_apply simp_thms)
      moreover have "12 + 9 * (n div 9) + n mod 9 = 12 + n" using div_mult_mod_eq [of n 9] by simp
      ultimately show ?thesis by (simp add: bit_simps)
    qed (simp add: bit_simps)
  qed
qed

lemma upath_nat: "upath w = upath w' \<longleftrightarrow> unat w div 4096 mod 2 ^ 36 = unat w' div 4096 mod 2 ^ 36"
proof -
  have "unat (take_bit 36 (drop_bit 12 w)) = unat w div 4096 mod 2 ^ 36" for w :: u64
    using unat_slice [of 36 12 w] by simp
  then show ?thesis unfolding upath_page word_unat_eq_iff by metis
qed

lemma upath_range:
  assumes "unat va + n * 4096 \<le> 2 ^ 48" "i < n" "j < n" "upath (va + of_nat i * PAGE_SIZE) = upath (va + of_nat j * PAGE_SIZE)"
  shows "i = j"
proof -
  have u: "unat (va + of_nat k * PAGE_SIZE) = unat va + k * 4096" if "k < n" for k
  proof -
    have "unat va + k * 4096 < 2 ^ 48" using assms(1) that by linarith
    then show ?thesis by (simp add: PAGE_SIZE_def unat_word_ariths unat_of_nat)
  qed
  have d: "unat (va + of_nat k * PAGE_SIZE) div 4096 mod 2 ^ 36 = unat va div 4096 + k" if "k < n" for k
  proof -
    have "unat va + k * 4096 < 2 ^ 48" using assms(1) that by linarith
    then have "unat va div 4096 + k < 2 ^ 36" by simp
    then show ?thesis unfolding u [OF that] by simp
  qed
  show ?thesis using assms(4) d [OF assms(2)] d [OF assms(3)] unfolding upath_nat by simp
qed

lemma idx_range:
  assumes "2 ^ 39 \<le> unat va" "unat va + n * 4096 \<le> 2 ^ 48" "i < n"
  shows "idx 39 (va + of_nat i * PAGE_SIZE) \<noteq> 0"
proof -
  have "unat va + i * 4096 < 2 ^ 48" using assms(2,3) by linarith
  then have u: "unat (va + of_nat i * PAGE_SIZE) = unat va + i * 4096"
    by (simp add: PAGE_SIZE_def unat_word_ariths unat_of_nat)
  have "idx 39 (va + of_nat i * PAGE_SIZE) = (unat va + i * 4096) div 2 ^ 39 mod 512"
    unfolding idx_take unat_slice u by simp
  moreover have "(unat va + i * 4096) div 2 ^ 39 < 512" using \<open>unat va + i * 4096 < 2 ^ 48\<close> by simp
  moreover have "1 \<le> (unat va + i * 4096) div 2 ^ 39"
  proof -
    have "2 ^ 39 div 2 ^ 39 \<le> (unat va + i * 4096) div (2 ^ 39 :: nat)" using assms(1) by (intro div_le_mono) simp
    then show ?thesis by simp
  qed
  ultimately show ?thesis by simp
qed

end
