(* ===== verification/Vm_Props.thy ===== *)
theory Vm_Props
  imports Vm_Refs
begin

text \<open>
  The operations of \<open>src/vm.c\<close> on well-typed, well-counted states: mapping fresh pages, cloning an
  address space copy on write, the write fault that separates the copies, and unmapping.
\<close>

subsection \<open>Pages of data\<close>

text \<open>Writing to a page in use that is not a table, and not to the table pointer of an address space.\<close>

lemma data_write:
  fixes f :: "nat \<Rightarrow> u64"
  assumes "vm_inv lo s live tt asp" "p \<in> live - dom tt" "p \<in> asp \<longrightarrow> f 0 = mem s p 0"
  defines "s' \<equiv> s\<lparr>mem := (mem s)(p := f)\<rparr>"
  shows "vm_inv lo s' live tt asp" "b \<in> asp \<Longrightarrow> q \<in> paths \<Longrightarrow> as_ent s' b q = as_ent s b q"
    "b \<in> asp \<Longrightarrow> as_l0 s' b = as_l0 s b"
proof -
  have ty: "vm_typed s live tt asp" using assms(1) by (simp add: vm_inv_def)
  have l0: "as_l0 s' b = as_l0 s b" if "b \<in> asp" for b
    using that assms(2,3) by (auto simp: s'_def as_l0_def)
  then show "b \<in> asp \<Longrightarrow> as_l0 s' b = as_l0 s b" .
  have tab: "mem s' t = mem s t" if "tt t = Some x" for t x using that assms(2) by (auto simp: s'_def)
  have "vm_typed s' live tt asp"
    unfolding vm_typed_def
  proof (intro conjI ballI allI impI)
    fix b assume "b \<in> asp"
    then show "tt b = None" "tt (as_l0 s' b) = Some (b, [])" using typed_root [OF ty] l0 by simp_all
  next
    fix u b pp assume "tt u = Some (b, pp)"
    then show "b \<in> asp" "length pp \<le> 3" "pp \<noteq> [] \<Longrightarrow> hd pp \<noteq> 0" using typed_tab [OF ty] by simp_all
  next
    fix u b pp i assume A: "tt u = Some (b, pp) \<and> i < 512 \<and> pte_valid (mem s' u i) \<and> hd (pp @ [i]) \<noteq> 0"
    then have e: "mem s' u = mem s u" using tab by simp
    show "slot_ok live tt asp b (pp @ [i]) (mem s' u i)"
      unfolding e by (rule typed_slot [OF ty]) (use A e in auto)
  qed
  moreover have "pmm_inv lo s' live"
    by (rule pmm_inv_cong [where s = s]) (use assms(1,2) in \<open>auto simp: vm_inv_def s'_def\<close>)
  ultimately show "vm_inv lo s' live tt asp" using assms(1) by (simp add: vm_inv_def)
  show "as_ent s' b q = as_ent s b q" if "b \<in> asp" "q \<in> paths"
    using same_tables(1) [OF ty, of "mem s'" "as_l0 s b" b "[]" q] tab typed_root [OF ty that(1)] that(2) l0 [OF that(1)]
    by (auto simp: as_ent_def paths_def)
qed

lemma ref_ok_cong:
  assumes "ref_ok s live asp ex" "page_ref s' = page_ref s" "live \<subseteq> live'"
    "\<And>b q. b \<in> asp \<Longrightarrow> q \<in> paths \<Longrightarrow> as_ent s' b q = as_ent s b q"
  shows "ref_ok s' live' asp ex"
proof -
  have "maps s' asp pa = maps s asp pa" for pa by (rule maps_cong) (use assms(4) in auto)
  then show ?thesis using assms by (auto simp: ref_ok_def)
qed

text \<open>A fresh page: in use, mapped by nobody, with a count of zero.\<close>

lemma fresh_page:
  fixes f :: "nat \<Rightarrow> u64"
  assumes inv: "vm_inv lo s live tt asp" and ref: "ref_ok s live asp ex" and lo: "RAM_BASE \<le> lo"
    and room: "0 < room lo live" and al: "pmm_alloc s = (pa, s1)"
    and s2_def: "s2 = s1\<lparr>mem := (mem s1)(pa := f)\<rparr>"
  shows "vm_inv lo s2 (insert pa live) tt asp" "ref_ok s2 (insert pa live) asp ex" "pa \<noteq> 0"
    "pa \<in> insert pa live - dom tt - asp" "pa \<notin> live" "room lo (insert pa live) = room lo live - 1"
    "\<And>b q. b \<in> asp \<Longrightarrow> q \<in> paths \<Longrightarrow> as_ent s2 b q = as_ent s b q" "page_ref s2 (pidx pa) = 0"
    "\<And>b. b \<in> asp \<Longrightarrow> as_l0 s2 b = as_l0 s b" "\<And>p. p \<in> live \<Longrightarrow> mem s2 p = mem s p" "same_rest s s2"
proof -
  have pi: "pmm_inv lo s live" using inv by (simp add: vm_inv_def)
  note pa = pmm_alloc_room [OF pi room al]
  show "pa \<noteq> 0" "pa \<notin> live" "room lo (insert pa live) = room lo live - 1" using pa by simp_all
  have d: "pa \<in> insert pa live - dom tt - asp" using pa(2) inv by (auto simp: vm_inv_def)
  then show "pa \<in> insert pa live - dom tt - asp" .
  have ty: "vm_typed s live tt asp" using inv by (simp add: vm_inv_def)
  have e1: "as_ent s1 b q = as_ent s b q" "as_l0 s1 b = as_l0 s b" for b q
    using pa(4) by (simp_all add: as_ent_def as_l0_def)
  have "vm_typed s1 (insert pa live) tt asp"
    by (rule vm_typed_live [OF ty pa(4)]) (use pa(2) inv in \<open>auto simp: vm_inv_def\<close>)
  then have i1: "vm_inv lo s1 (insert pa live) tt asp" using inv pa(3) by (auto simp: vm_inv_def)
  have d': "pa \<in> insert pa live - dom tt" "pa \<in> asp \<longrightarrow> f 0 = mem s1 pa 0" using d by auto
  note dw = data_write [where f = f, OF i1 d', folded s2_def]
  show "vm_inv lo s2 (insert pa live) tt asp" by (rule dw(1))
  show ent: "as_ent s2 b q = as_ent s b q" if "b \<in> asp" "q \<in> paths" for b q using dw(2) [OF that] e1 by simp
  show "as_l0 s2 b = as_l0 s b" if "b \<in> asp" for b using dw(3) [OF that] e1 by simp
  show "same_rest s s2" using same_rest_alloc [OF al] by (simp add: s2_def)
  then have pr: "page_ref s2 = page_ref s" by (simp add: same_rest_def)
  show "ref_ok s2 (insert pa live) asp ex" by (rule ref_ok_cong [OF ref pr _ ent]) auto
  have "maps s asp pa = {}" using ent_ok(2) [OF inv] pa(2) by (auto simp: maps_def)
  moreover have "pa \<in> frames RAM_BASE RAM_TOP" by (rule live_frame(1) [OF i1 lo]) simp
  ultimately have "unat (page_ref s (pidx pa)) = ex pa" using ref by (simp add: ref_ok_def)
  then show "page_ref s2 (pidx pa) = 0" using ref pa(2) pr by (simp add: ref_ok_def unat_eq_zero)
  show "mem s2 p = mem s p" if "p \<in> live" for p using that pa(2,4) by (auto simp: s2_def)
qed

lemma attr_pa [simp]: "rw_attr AND PA_MASK = 0" "code_attr AND PA_MASK = 0" "ro_cow AND PA_MASK = 0"
  "(rw_attr OR PTE_SHARED) AND PA_MASK = 0" "(e AND NOT PA_MASK) AND PA_MASK = 0"
proof -
  show "(e AND NOT PA_MASK) AND PA_MASK = 0" by (rule bit_word_eqI) (auto simp: bit_simps)
qed (simp_all add: rw_attr_def code_attr_def ro_cow_def ATTR_AF_def ATTR_SH_INNER_def ATTR_IDX_NORMAL_def
    AP_RW_ALL_def AP_RO_ALL_def ATTR_UXN_def ATTR_PXN_def ATTR_NG_def PTE_COW_def PTE_SHARED_def PA_MASK_def)

subsection \<open>Mapping zeroed pages\<close>

lemma map_zeroed_spec:
  assumes "vm_inv lo s live tt asp" "ref_ok s live asp ex" "RAM_BASE \<le> lo" "a \<in> asp" "4 * n \<le> room lo live"
    "\<And>i. i < n \<Longrightarrow> idx 39 (va + of_nat i * PAGE_SIZE) \<noteq> 0 \<and> as_entry s a (va + of_nat i * PAGE_SIZE) = 0"
    "\<And>i j. i < j \<Longrightarrow> j < n \<Longrightarrow> upath (va + of_nat i * PAGE_SIZE) \<noteq> upath (va + of_nat j * PAGE_SIZE)"
  shows "\<exists>s' live' tt' f. map_zeroed a n va s = (True, s') \<and> vm_inv lo s' live' tt' asp \<and> ref_ok s' live' asp ex \<and>
    live \<subseteq> live' \<and> tt \<subseteq>\<^sub>m tt' \<and> dom tt' \<subseteq> dom tt \<union> (live' - live) \<and> room lo live \<le> room lo live' + 4 * n \<and>
    (\<forall>p \<in> live - dom tt. mem s' p = mem s p) \<and>
    (\<forall>i < n. f i \<in> live' - live - dom tt' - asp \<and> (\<forall>k < 512. mem s' (f i) k = 0) \<and>
       as_entry s' a (va + of_nat i * PAGE_SIZE) = f i OR rw_attr OR DESC_PAGE) \<and> inj_on f {..<n} \<and>
    (\<forall>b \<in> asp. \<forall>w. idx 39 w \<noteq> 0 \<longrightarrow> \<not> (b = a \<and> (\<exists>i < n. upath w = upath (va + of_nat i * PAGE_SIZE))) \<longrightarrow>
       as_entry s' b w = as_entry s b w)"
  using assms
proof (induction n arbitrary: va s live tt)
  case 0
  then show ?case by (auto simp: map_le_def)
next
  case (Suc n)
  note pre = Suc.prems
  obtain pa s1 where al: "pmm_alloc s = (pa, s1)" by fastforce
  have room: "0 < room lo live" using pre(5) by simp
  define s2 where "s2 = zero_page pa s1"
  have s2': "s2 = s1\<lparr>mem := (mem s1)(pa := (\<lambda>i. if i < 512 then 0 else mem s1 pa i))\<rparr>"
    by (simp add: s2_def zero_page_def)
  note fp = fresh_page [OF pre(1,2,3) room al s2']
  have v0: "idx 39 va \<noteq> 0" "as_entry s a va = 0" using pre(6) [of 0] by simp_all
  then have n2: "as_entry s2 a va = 0" using fp(7) pre(4) upath_paths by (simp add: as_entry_ent)
  have r2: "3 \<le> room lo (insert pa live)" using fp(6) pre(5) by simp
  define s3 where "s3 = page_incref pa (map_page (as_l0 s2 a) va pa rw_attr s2)"
  obtain l3 t3 where m: "vm_inv lo s3 l3 t3 asp" "ref_ok s3 l3 asp ex" "insert pa live \<subseteq> l3" "tt \<subseteq>\<^sub>m t3"
    "dom t3 \<subseteq> dom tt \<union> (l3 - insert pa live)" "room lo (insert pa live) \<le> room lo l3 + 3"
    "\<forall>p \<in> insert pa live - dom tt. mem s3 p = mem s2 p"
    "\<forall>b \<in> asp. \<forall>w. idx 39 w \<noteq> 0 \<longrightarrow> as_entry s3 b w =
       (if b = a \<and> upath w = upath va then pa OR rw_attr OR DESC_PAGE else as_entry s2 b w)"
    using map_count_spec [OF fp(1,2) pre(3,4) v0(1) r2 fp(4) attr_pa(1) n2] fp(8) unfolding s3_def by auto
  have e3: "as_entry s3 b w = (if b = a \<and> upath w = upath va then pa OR rw_attr OR DESC_PAGE else as_entry s b w)"
    if "b \<in> asp" "idx 39 w \<noteq> 0" for b w
    using m(8) that fp(7) [OF that(1) upath_paths [OF that(2)]] by (simp add: as_entry_ent)
  have va': "va + PAGE_SIZE + of_nat i * PAGE_SIZE = va + of_nat (Suc i) * PAGE_SIZE" for i
    by (simp add: algebra_simps)
  have h1: "idx 39 (va + PAGE_SIZE + of_nat i * PAGE_SIZE) \<noteq> 0 \<and> as_entry s3 a (va + PAGE_SIZE + of_nat i * PAGE_SIZE) = 0"
    if "i < n" for i
    using pre(6) [of "Suc i"] pre(7) [of 0 "Suc i"] that e3 [OF pre(4)] unfolding va' by auto
  have h2: "upath (va + PAGE_SIZE + of_nat i * PAGE_SIZE) \<noteq> upath (va + PAGE_SIZE + of_nat j * PAGE_SIZE)"
    if "i < j" "j < n" for i j
    using pre(7) [of "Suc i" "Suc j"] that unfolding va' by simp
  have r3: "4 * n \<le> room lo l3" using m(6) fp(6) pre(5) by simp
  obtain s' live' tt' f where ih: "map_zeroed a n (va + PAGE_SIZE) s3 = (True, s')" "vm_inv lo s' live' tt' asp"
    "ref_ok s' live' asp ex" "l3 \<subseteq> live'" "t3 \<subseteq>\<^sub>m tt'" "dom tt' \<subseteq> dom t3 \<union> (live' - l3)"
    "room lo l3 \<le> room lo live' + 4 * n" "\<forall>p \<in> l3 - dom t3. mem s' p = mem s3 p"
    "\<forall>i < n. f i \<in> live' - l3 - dom tt' - asp \<and> (\<forall>k < 512. mem s' (f i) k = 0) \<and>
       as_entry s' a (va + PAGE_SIZE + of_nat i * PAGE_SIZE) = f i OR rw_attr OR DESC_PAGE" "inj_on f {..<n}"
    "\<forall>b \<in> asp. \<forall>w. idx 39 w \<noteq> 0 \<longrightarrow> \<not> (b = a \<and> (\<exists>i < n. upath w = upath (va + PAGE_SIZE + of_nat i * PAGE_SIZE))) \<longrightarrow>
       as_entry s' b w = as_entry s3 b w"
    using Suc.IH [OF m(1,2) pre(3,4) r3 h1 h2] by blast
  define g where "g = (\<lambda>i. case i of 0 \<Rightarrow> pa | Suc i \<Rightarrow> f i)"
  have run: "map_zeroed a (Suc n) va s = (True, s')"
    using al fp(3) ih(1) by (simp add: Let_def s2_def [symmetric] s3_def [symmetric])
  have pd: "pa \<in> l3 - dom t3" using m(3,5) fp(4) by blast
  have pe: "as_entry s' a va = pa OR rw_attr OR DESC_PAGE"
  proof -
    have "\<not> (\<exists>i < n. upath va = upath (va + PAGE_SIZE + of_nat i * PAGE_SIZE))"
      using pre(7) [of 0 "Suc _"] unfolding va' by auto
    then show ?thesis using ih(11) e3 [OF pre(4) v0(1)] pre(4) v0(1) by simp
  qed
  have pz: "mem s' pa k = 0" if "k < 512" for k
  proof -
    have "mem s' pa = mem s3 pa" using ih(8) pd by blast
    moreover have "mem s3 pa = mem s2 pa" using m(7) fp(4) by blast
    ultimately show ?thesis using that by (simp add: s2')
  qed
  have new: "g i \<in> live' - live - dom tt' - asp \<and> (\<forall>k < 512. mem s' (g i) k = 0) \<and>
       as_entry s' a (va + of_nat i * PAGE_SIZE) = g i OR rw_attr OR DESC_PAGE" if "i < Suc n" for i
  proof (cases i)
    case 0
    have "pa \<in> live' - live - dom tt' - asp" using pd ih(4,6) fp(4,5) by blast
    with 0 pz pe show ?thesis by (simp add: g_def)
  next
    case (Suc j)
    then have j: "j < n" using that by simp
    have "live \<subseteq> l3" using m(3) by blast
    with ih(9) [rule_format, OF j] Suc show ?thesis unfolding va' by (auto simp: g_def)
  qed
  have old: "as_entry s' b w = as_entry s b w"
    if b: "b \<in> asp" and w: "idx 39 w \<noteq> 0" and n: "\<not> (b = a \<and> (\<exists>i < Suc n. upath w = upath (va + of_nat i * PAGE_SIZE)))" for b w
  proof -
    have n0: "\<not> (b = a \<and> upath w = upath va)" using n by (auto intro: exI [of _ 0])
    have "\<not> (b = a \<and> (\<exists>i < n. upath w = upath (va + PAGE_SIZE + of_nat i * PAGE_SIZE)))"
    proof
      assume "b = a \<and> (\<exists>i < n. upath w = upath (va + PAGE_SIZE + of_nat i * PAGE_SIZE))"
      then obtain i where "i < n" "b = a" "upath w = upath (va + of_nat (Suc i) * PAGE_SIZE)" unfolding va' by blast
      with n show False by (metis Suc_mono)
    qed
    then show ?thesis using ih(11) b w e3 [OF b w] n0 by auto
  qed
  have keep: "mem s' p = mem s p" if "p \<in> live - dom tt" for p
  proof -
    have "p \<in> l3 - dom t3" "p \<in> insert pa live - dom tt" using that m(3,5) by blast+
    then have "mem s' p = mem s2 p" using ih(8) m(7) by simp
    then show ?thesis using fp(10) that by simp
  qed
  have inj: "inj_on g {..<Suc n}"
  proof (rule inj_onI)
    fix i j assume ij: "i \<in> {..<Suc n}" "j \<in> {..<Suc n}" "g i = g j"
    have d: "f k \<noteq> pa" if "k < n" for k using ih(9) [rule_format, OF that] pd by auto
    show "i = j" using ij d ih(10) by (cases i; cases j) (auto simp: g_def dest: inj_onD)
  qed
  have le: "live \<subseteq> live'" using m(3) ih(4) by blast
  have dm: "dom tt' \<subseteq> dom tt \<union> (live' - live)"
    by (rule grow_sets [OF m(5) _ m(3) ih(4) ih(6)]) auto
  have rm: "room lo live \<le> room lo live' + 4 * Suc n" using m(6) ih(7) fp(6) by simp
  show ?case
  proof (rule exI [of _ s'], rule exI [of _ live'], rule exI [of _ tt'], rule exI [of _ g], intro conjI)
    show "\<forall>p \<in> live - dom tt. mem s' p = mem s p" by (rule ballI) (rule keep)
    show "\<forall>i < Suc n. g i \<in> live' - live - dom tt' - asp \<and> (\<forall>k < 512. mem s' (g i) k = 0) \<and>
       as_entry s' a (va + of_nat i * PAGE_SIZE) = g i OR rw_attr OR DESC_PAGE"
      by (intro allI impI) (rule new)
    show "\<forall>b \<in> asp. \<forall>w. idx 39 w \<noteq> 0 \<longrightarrow> \<not> (b = a \<and> (\<exists>i < Suc n. upath w = upath (va + of_nat i * PAGE_SIZE))) \<longrightarrow>
       as_entry s' b w = as_entry s b w"
      by (intro ballI allI impI) (rule old)
  qed (rule run ih(2,3) inj le map_le_trans [OF m(4) ih(5)] dm rm)+
qed


text \<open>What the software walks see of an entry.\<close>

lemma pte_ptr_entry:
  assumes inv: "vm_inv lo s live tt asp" and a: "a \<in> asp" and va: "idx 39 va \<noteq> 0"
  shows "case pte_ptr (as_l0 s a) va s of None \<Rightarrow> as_entry s a va = 0
    | Some (t, i) \<Rightarrow> as_entry s a va \<noteq> 0 \<and> i = idx 12 va \<and> mem s t i = as_entry s a va \<and> pte_valid (mem s t i) \<and>
        tab_at (mem s) (as_l0 s a) [idx 39 va, idx 30 va, idx 21 va] = Some t"
    "as_translate a va s = (if as_entry s a va = 0 then 0 else (as_entry s a va AND PA_MASK) OR (va AND 0xFFF))"
proof -
  have ty: "vm_typed s live tt asp" using inv by (simp add: vm_inv_def)
  note root = typed_root [OF ty a]
  define e0 where "e0 = mem s (as_l0 s a) (idx 39 va)"
  define e1 where "e1 = mem s (e0 AND PA_MASK) (idx 30 va)"
  define e2 where "e2 = mem s (e1 AND PA_MASK) (idx 21 va)"
  define e3 where "e3 = mem s (e2 AND PA_MASK) (idx 12 va)"
  have t0: "pte_valid e0 \<Longrightarrow> tt (e0 AND PA_MASK) = Some (a, [idx 39 va])"
    using typed_next(1) [OF ty, of "as_l0 s a" a "[]" "idx 39 va"] root va by (simp add: e0_def)
  then have t1: "pte_valid e0 \<Longrightarrow> pte_valid e1 \<Longrightarrow> tt (e1 AND PA_MASK) = Some (a, [idx 39 va, idx 30 va]) \<and> e1 AND 3 = 3"
    using typed_next [OF ty, of "e0 AND PA_MASK" a "[idx 39 va]" "idx 30 va"] va by (simp add: e1_def)
  then have t2: "pte_valid e0 \<Longrightarrow> pte_valid e1 \<Longrightarrow> pte_valid e2 \<Longrightarrow> e2 AND 3 = 3"
    using typed_next(3) [OF ty, of "e1 AND PA_MASK" a "[idx 39 va, idx 30 va]" "idx 21 va"] va by (simp add: e2_def)
  have ent: "as_entry s a va = (if pte_valid e0 \<and> pte_valid e1 \<and> pte_valid e2 \<and> pte_valid e3 then e3 else 0)"
    by (simp add: as_entry_def upath_def e0_def e1_def e2_def e3_def)
  have nz: "pte_valid e3 \<Longrightarrow> e3 \<noteq> 0" by auto
  show "case pte_ptr (as_l0 s a) va s of None \<Rightarrow> as_entry s a va = 0
    | Some (t, i) \<Rightarrow> as_entry s a va \<noteq> 0 \<and> i = idx 12 va \<and> mem s t i = as_entry s a va \<and> pte_valid (mem s t i) \<and>
        tab_at (mem s) (as_l0 s a) [idx 39 va, idx 30 va, idx 21 va] = Some t"
    using t1 t2 nz unfolding pte_ptr_def Let_def ent e0_def [symmetric] e1_def [symmetric] e2_def [symmetric] e3_def [symmetric]
    by (cases "pte_valid e0"; cases "pte_valid e1"; cases "pte_valid e2"; cases "pte_valid e3")
      (auto simp: e0_def [symmetric] e1_def [symmetric] e2_def [symmetric] e3_def [symmetric])
  show "as_translate a va s = (if as_entry s a va = 0 then 0 else (as_entry s a va AND PA_MASK) OR (va AND 0xFFF))"
    using t1 t2 nz unfolding as_translate_def as_translate_from_def Let_def ent e0_def [symmetric] e1_def [symmetric] e2_def [symmetric] e3_def [symmetric]
    by (cases "pte_valid e0"; cases "pte_valid e1"; cases "pte_valid e2") auto
qed


lemma rw_entry:
  assumes "4096 dvd unat (p :: u64)" "p \<le> RAM_END"
  shows "(p OR rw_attr OR DESC_PAGE) AND PA_MASK = p" "(p OR rw_attr OR DESC_PAGE) AND 0xC0 = AP_RW_ALL"
    "(p OR rw_attr OR DESC_PAGE) \<noteq> 0" "(p OR rw_attr OR DESC_PAGE) AND PTE_COW = 0"
proof -
  note pm = page_and_mask [OF assms]
  show "(p OR rw_attr OR DESC_PAGE) AND PA_MASK = p" "(p OR rw_attr OR DESC_PAGE) \<noteq> 0"
    using leaf_desc [OF assms attr_pa(1)] pm(1) by auto
  have "p AND 0xC0 = (p AND 0xFFF) AND 0xC0" by (simp add: and.assoc)
  then have z: "p AND 0xC0 = 0" unfolding pm(3) by simp
  have "(rw_attr OR DESC_PAGE) AND 0xC0 = AP_RW_ALL"
    by (simp add: rw_attr_def DESC_PAGE_def ATTR_AF_def ATTR_SH_INNER_def ATTR_IDX_NORMAL_def
        AP_RW_ALL_def ATTR_UXN_def ATTR_PXN_def ATTR_NG_def)
  with z show "(p OR rw_attr OR DESC_PAGE) AND 0xC0 = AP_RW_ALL" by (simp add: bit.conj_disj_distrib2)
  have "p AND PTE_COW = (p AND PA_MASK) AND PTE_COW" unfolding pm(2) ..
  then have "p AND PTE_COW = 0" by (simp add: and.assoc PA_MASK_def PTE_COW_def)
  moreover have "(rw_attr OR DESC_PAGE) AND PTE_COW = 0"
    by (simp add: rw_attr_def DESC_PAGE_def ATTR_AF_def ATTR_SH_INNER_def ATTR_IDX_NORMAL_def PTE_COW_def
        AP_RW_ALL_def ATTR_UXN_def ATTR_PXN_def ATTR_NG_def)
  ultimately show "(p OR rw_attr OR DESC_PAGE) AND PTE_COW = 0" by (simp add: bit.conj_disj_distrib2)
qed

lemma struct_store:
  assumes inv: "vm_inv lo s live tt asp" and a: "a \<in> asp" "i \<noteq> 0" and s': "s' = store a i v s"
  shows "vm_inv lo s' live tt asp" "b \<in> asp \<Longrightarrow> q \<in> paths \<Longrightarrow> as_ent s' b q = as_ent s b q"
    "b \<in> asp \<Longrightarrow> as_l0 s' b = as_l0 s b" "page_ref s' = page_ref s"
proof -
  have "a \<in> live - dom tt" using inv a typed_root [of s live tt asp a] by (auto simp: vm_inv_def)
  moreover have "a \<in> asp \<longrightarrow> ((mem s a)(i := v)) 0 = mem s a 0" using a by simp
  moreover have "s' = s\<lparr>mem := (mem s)(a := (mem s a)(i := v))\<rparr>" by (simp add: s' store_def)
  ultimately show "vm_inv lo s' live tt asp"
    "b \<in> asp \<Longrightarrow> q \<in> paths \<Longrightarrow> as_ent s' b q = as_ent s b q"
    "b \<in> asp \<Longrightarrow> as_l0 s' b = as_l0 s b"
    using data_write [OF inv, where f = "(mem s a)(i := v)" and p = a] by simp_all
qed (simp add: s' store_def)

text \<open>
  C31. An anonymous \<open>mmap\<close> with room for its pages returns the next address and maps every page of
  the region, read-write, to a page of its own that was free and is zeroed; the bump pointer moves
  past the region, no entry of any address space outside it changes, and neither does a page in
  use; the types of all tables and all reference counts stay right.
\<close>

theorem mmap_fresh:
  assumes "vm_inv lo s live tt asp" "ref_ok s live asp ex" "RAM_BASE \<le> lo" "a \<in> asp" "0 < len"
    and n: "n = (unat len + 4095) div 4096" and base: "base = as_mmap_next s a"
    and range: "2 ^ 39 \<le> unat base" "unat base + n * 4096 \<le> 2 ^ 48" and room: "4 * n \<le> room lo live"
    and none: "\<And>i. i < n \<Longrightarrow> as_entry s a (base + of_nat i * PAGE_SIZE) = 0"
  shows "\<exists>s' live' tt' f. as_mmap a len s = (base, s') \<and> vm_inv lo s' live' tt' asp \<and> ref_ok s' live' asp ex \<and>
    as_mmap_next s' a = base + of_nat n * PAGE_SIZE \<and> inj_on f {..<n} \<and>
    (\<forall>i < n. f i \<notin> live \<and> (\<forall>k < 512. mem s' (f i) k = 0) \<and>
       (let va = base + of_nat i * PAGE_SIZE
        in as_translate a va s' = f i OR (va AND 0xFFF) \<and> as_is_writable a va s')) \<and>
    (\<forall>b \<in> asp. \<forall>w. idx 39 w \<noteq> 0 \<longrightarrow> \<not> (b = a \<and> (\<exists>i < n. upath w = upath (base + of_nat i * PAGE_SIZE))) \<longrightarrow>
       as_entry s' b w = as_entry s b w) \<and>
    (\<forall>p \<in> live - dom tt - {a}. mem s' p = mem s p)"
proof -
  have "unat len + 4095 < 4096 + n * 4096" unfolding n by (rule dividend_less_div_times) simp
  then have len: "unat len + 4095 < 2 ^ 49" using range(2) by simp
  have pages: "unat ((len + PAGE_SIZE - 1) div PAGE_SIZE) = n"
  proof -
    have e: "len + PAGE_SIZE - 1 = len + 4095" by (simp add: PAGE_SIZE_def)
    have "unat (len + 4095) = unat len + 4095" using len by (simp add: unat_word_ariths)
    then show ?thesis unfolding e n by (simp add: PAGE_SIZE_def unat_div)
  qed
  have user: "idx 39 (base + of_nat i * PAGE_SIZE) \<noteq> 0" if "i < n" for i
    by (rule idx_range [OF range that])
  have apart: "upath (base + of_nat i * PAGE_SIZE) \<noteq> upath (base + of_nat j * PAGE_SIZE)" if "i < j" "j < n" for i j
    using upath_range [OF range(2), of i j] that by auto
  obtain s1 live' tt' f where m: "map_zeroed a n base s = (True, s1)" "vm_inv lo s1 live' tt' asp" "ref_ok s1 live' asp ex"
    "live \<subseteq> live'" "\<forall>p \<in> live - dom tt. mem s1 p = mem s p"
    "\<forall>i < n. f i \<in> live' - live - dom tt' - asp \<and> (\<forall>k < 512. mem s1 (f i) k = 0) \<and>
       as_entry s1 a (base + of_nat i * PAGE_SIZE) = f i OR rw_attr OR DESC_PAGE" "inj_on f {..<n}"
    "\<forall>b \<in> asp. \<forall>w. idx 39 w \<noteq> 0 \<longrightarrow> \<not> (b = a \<and> (\<exists>i < n. upath w = upath (base + of_nat i * PAGE_SIZE))) \<longrightarrow>
       as_entry s1 b w = as_entry s b w"
    using map_zeroed_spec [OF assms(1-4) room conjI [OF user none] apart] by blast
  define s' where "s' = store a 4 (base + of_nat n * PAGE_SIZE) s1"
  have "of_nat (unat ((len + PAGE_SIZE - 1) div PAGE_SIZE)) = (len + PAGE_SIZE - 1) div PAGE_SIZE"
    by simp
  then have "(len + PAGE_SIZE - 1) div PAGE_SIZE = of_nat n" unfolding pages by simp
  then have run: "as_mmap a len s = (base, s')"
    using assms(5) m(1) pages base by (auto simp: as_mmap_def Let_def s'_def)
  note st = struct_store [OF m(2) assms(4) _ s'_def, simplified]
  have ent: "as_entry s' b w = as_entry s1 b w" if "b \<in> asp" "idx 39 w \<noteq> 0" for b w
    using st(2) [OF that(1) upath_paths [OF that(2)]] by (simp add: as_entry_ent)
  have new: "f i \<notin> live \<and> (\<forall>k < 512. mem s' (f i) k = 0) \<and>
       (let va = base + of_nat i * PAGE_SIZE
        in as_translate a va s' = f i OR (va AND 0xFFF) \<and> as_is_writable a va s')" if "i < n" for i
  proof -
    note mi = m(6) [rule_format, OF that]
    have fl: "f i \<in> live'" "f i \<noteq> a" using mi assms(4) by auto
    note rw = rw_entry [OF live_frame(2,3) [OF m(2) assms(3) fl(1)]]
    have e: "as_entry s' a (base + of_nat i * PAGE_SIZE) = f i OR rw_attr OR DESC_PAGE"
      using ent [OF assms(4) user [OF that]] mi by simp
    note pt = pte_ptr_entry [OF st(1) assms(4) user [OF that], unfolded e]
    have "as_translate a (base + of_nat i * PAGE_SIZE) s' = f i OR (base + of_nat i * PAGE_SIZE AND 0xFFF)"
      unfolding pt(2) using rw by simp
    moreover have "as_is_writable a (base + of_nat i * PAGE_SIZE) s'"
      using pt(1) rw unfolding as_is_writable_def by (auto split: option.splits)
    moreover have "mem s' (f i) = mem s1 (f i)" using fl by (simp add: s'_def)
    ultimately show ?thesis using mi by simp
  qed
  have "as_mmap_next s' a = base + of_nat n * PAGE_SIZE" by (simp add: s'_def as_mmap_next_def)
  moreover have "ref_ok s' live' asp ex" by (rule ref_ok_cong [OF m(3) st(4) _ st(2)]) auto
  moreover have "\<forall>b \<in> asp. \<forall>w. idx 39 w \<noteq> 0 \<longrightarrow> \<not> (b = a \<and> (\<exists>i < n. upath w = upath (base + of_nat i * PAGE_SIZE))) \<longrightarrow>
       as_entry s' b w = as_entry s b w" using m(8) ent by simp
  moreover have "\<forall>p \<in> live - dom tt - {a}. mem s' p = mem s p" using m(5) by (simp add: s'_def)
  ultimately show ?thesis using run st(1) m(7) new
    by (intro exI [of _ s'] exI [of _ live'] exI [of _ tt'] exI [of _ f]) blast
qed


subsection \<open>Changing an entry\<close>

lemma flush_simps [simp]:
  "mem (flush_tlb_asid v s) = mem s" "page_ref (flush_tlb_asid v s) = page_ref s"
  "as_entry (flush_tlb_asid v s) b w = as_entry s b w" "as_ent (flush_tlb_asid v s) b q = as_ent s b q"
  "as_l0 (flush_tlb_asid v s) b = as_l0 s b"
  "vm_inv lo (flush_tlb_asid v s) live tt asp = vm_inv lo s live tt asp"
  "ref_ok (flush_tlb_asid v s) live asp ex = ref_ok s live asp ex"
  by (simp_all add: flush_tlb_asid_def as_entry_def as_ent_def as_l0_def vm_inv_def pmm_inv_def vm_typed_def
      ref_ok_def maps_def)

lemma upath_mask: "upath (va AND NOT 0xFFF) = upath va" "idx 39 (va AND NOT 0xFFF) = idx 39 va"
proof -
  show u: "upath (va AND NOT 0xFFF) = upath va" unfolding upath_nat unat_page_mask by simp
  show "idx 39 (va AND NOT 0xFFF) = idx 39 va" using arg_cong [OF u, of hd] by simp
qed

lemma as_entry_mask: "as_entry s a (va AND NOT 0xFFF) = as_entry s a va"
  by (simp only: as_entry_def upath_mask)

text \<open>Storing to the slot of an address: what changes in the entries and in the counts.\<close>

lemma slot_store:
  assumes inv: "vm_inv lo s live tt asp" and a: "a \<in> asp" and va: "idx 39 va \<noteq> 0"
    and ptr: "pte_ptr (as_l0 s a) va s = Some (t, i)" and s': "s' = store t i v s"
    and v: "v \<noteq> 0 \<longrightarrow> v AND 3 = 3 \<and> v AND PA_MASK \<in> live - dom tt - asp"
  shows "vm_inv lo s' live tt asp" "t \<in> dom tt" "page_ref s' = page_ref s"
    "\<And>b q. b \<in> asp \<Longrightarrow> q \<in> paths \<Longrightarrow> as_ent s' b q = (if b = a \<and> q = upath va then v else as_ent s b q)"
    "\<And>pa. card (maps s' asp pa) + hits (as_entry s a va) pa = card (maps s asp pa) + hits v pa"
    "\<And>b. b \<in> asp \<Longrightarrow> as_l0 s' b = as_l0 s b" "tabs_kept asp s s'"
proof -
  note pt = pte_ptr_entry(1) [OF inv a va, unfolded ptr, simplified]
  have hp: "length [idx 39 va, idx 30 va, idx 21 va] = 3" "set [idx 39 va, idx 30 va, idx 21 va] \<subseteq> {..<512}"
    "hd [idx 39 va, idx 30 va, idx 21 va] \<noteq> 0" using va by simp_all
  have so: "pte_valid v \<longrightarrow> slot_ok live tt asp a ([idx 39 va, idx 30 va, idx 21 va] @ [i]) v"
  proof
    assume "pte_valid v"
    then have "v \<noteq> 0" by auto
    then have "v AND 3 = 3" "v AND PA_MASK \<in> live - asp" "v AND PA_MASK \<notin> dom tt" using v by blast+
    moreover from this(3) have "tt (v AND PA_MASK) = None" by (metis domIff)
    ultimately show "slot_ok live tt asp a ([idx 39 va, idx 30 va, idx 21 va] @ [i]) v" by (simp add: slot_ok_def)
  qed
  have i: "i < 512" "i = idx 12 va" using pt by simp_all
  have tab: "tab_at (mem s) (as_l0 s a) [idx 39 va, idx 30 va, idx 21 va] = Some t" using pt by simp
  note ls = leaf_store [OF inv a tab hp i(1) so, folded s']
  have up: "upath va = [idx 39 va, idx 30 va, idx 21 va] @ [i]" using i by (simp add: upath_def)
  show "vm_inv lo s' live tt asp" "tabs_kept asp s s'" by (rule ls(1) ls(4))+
  show "t \<in> dom tt" using ls(2) by auto
  show "page_ref s' = page_ref s" by (simp add: s' store_def)
  have vv: "(if pte_valid v then v else 0) = v" using v and3_valid [of v] by (cases "v = 0") auto
  show ent: "as_ent s' b q = (if b = a \<and> q = upath va then v else as_ent s b q)" if b: "b \<in> asp" and q: "q \<in> paths" for b q
  proof -
    obtain w where w: "upath w = q" "idx 39 w \<noteq> 0" using paths_mk_va [OF q] by blast
    show ?thesis using ls(3) [OF b w(2)] unfolding as_entry_ent w(1) up vv by simp
  qed
  show "card (maps s' asp pa) + hits (as_entry s a va) pa = card (maps s asp pa) + hits v pa" for pa
    unfolding as_entry_ent by (rule maps_change [OF _ a upath_paths [OF va] ent]) auto
  show "as_l0 s' b = as_l0 s b" if "b \<in> asp" for b
  proof -
    have "vm_typed s live tt asp" using inv by (simp add: vm_inv_def)
    from typed_root [OF this that] ls(2) have "b \<noteq> t" by auto
    then show ?thesis by (simp add: s' as_l0_def)
  qed
qed

lemma maps_single:
  assumes "(a, q) \<in> maps s asp pa" "card (maps s asp pa) = 1"
  shows "maps s asp pa = {(a, q)}"
  using assms by (auto simp: card_1_singleton_iff)


subsection \<open>Copy on write\<close>

lemma desc_align: "4096 dvd unat (p :: u64) \<Longrightarrow> p \<le> RAM_END \<Longrightarrow> (p AND NOT 0xFFF) OR rw_attr OR 3 = p OR rw_attr OR DESC_PAGE"
  using page_and_mask(1) [of p] by (simp add: DESC_PAGE_def)

lemma page_decref_shared:
  assumes "pa \<in> frames RAM_BASE RAM_TOP" "1 < unat (page_ref s (pidx pa))"
  shows "page_decref pa s = Some (s\<lparr>page_ref := (page_ref s)(pidx pa := page_ref s (pidx pa) - 1)\<rparr>)"
    "unat (page_ref s (pidx pa) - 1) = unat (page_ref s (pidx pa)) - 1"
proof -
  have r: "\<not> (pa < RAM_BASE \<or> pa \<ge> RAM_TOP)" using assms(1) by (auto simp: frames_def)
  have p: "page_ref s (pidx pa) > 0" using assms(2) by (auto simp: word_less_nat_alt)
  show u: "unat (page_ref s (pidx pa) - 1) = unat (page_ref s (pidx pa)) - 1"
    using assms(2) by (simp add: unat_sub word_le_nat_alt)
  then have "page_ref s (pidx pa) - 1 \<noteq> 0" using assms(2) by (metis unat_0 zero_less_diff less_numeral_extra(3))
  with r p show "page_decref pa s = Some (s\<lparr>page_ref := (page_ref s)(pidx pa := page_ref s (pidx pa) - 1)\<rparr>)"
    by (auto simp: page_decref_def Let_def)
qed

lemma vm_inv_ref [simp]: "vm_inv lo (s\<lparr>page_ref := r\<rparr>) live tt asp = vm_inv lo s live tt asp"
  "as_ent (s\<lparr>page_ref := r\<rparr>) b q = as_ent s b q" "as_entry (s\<lparr>page_ref := r\<rparr>) b w = as_entry s b w"
  "maps (s\<lparr>page_ref := r\<rparr>) asp pa = maps s asp pa" "as_l0 (s\<lparr>page_ref := r\<rparr>) b = as_l0 s b"
  by (simp_all add: vm_inv_def pmm_inv_def vm_typed_def as_ent_def as_entry_def as_l0_def maps_def)

lemma cow_result:
  assumes "cow_fault a va s = Some (True, flush_tlb_asid z t)" "vm_inv lo t live' tt asp" "ref_ok t live' asp ex"
    "as_entry t a va = p OR rw_attr OR DESC_PAGE" "ex p = 0" "p AND PA_MASK = p"
    "\<And>k. k < 512 \<Longrightarrow> mem t p k = mem s old k"
    "\<And>b w. b \<in> asp \<Longrightarrow> idx 39 w \<noteq> 0 \<Longrightarrow> (b, upath w) \<noteq> (a, upath va) \<Longrightarrow>
       as_entry t b w = as_entry s b w \<and> (as_entry t b w \<noteq> 0 \<longrightarrow> as_entry t b w AND PA_MASK \<noteq> p)"
    "\<And>q. q \<in> live - dom tt \<Longrightarrow> q = p \<or> mem t q = mem s q"
  shows "\<exists>s' live' p. cow_fault a va s = Some (True, s') \<and> vm_inv lo s' live' tt asp \<and> ref_ok s' live' asp ex \<and>
        as_entry s' a va = p OR rw_attr OR DESC_PAGE \<and> ex p = 0 \<and> p AND PA_MASK = p \<and>
        (\<forall>k < 512. mem s' p k = mem s old k) \<and>
        (\<forall>b \<in> asp. \<forall>w. idx 39 w \<noteq> 0 \<and> (b, upath w) \<noteq> (a, upath va) \<longrightarrow>
           as_entry s' b w = as_entry s b w \<and> (as_entry s' b w \<noteq> 0 \<longrightarrow> as_entry s' b w AND PA_MASK \<noteq> p)) \<and>
        (\<forall>q \<in> live - dom tt. q = p \<or> mem s' q = mem s q)"
proof (rule exI [of _ "flush_tlb_asid z t"], rule exI [of _ live'], rule exI [of _ p], intro conjI, unfold flush_simps)
  show "\<forall>k < 512. mem t p k = mem s old k" using assms(7) by blast
  show "\<forall>b \<in> asp. \<forall>w. idx 39 w \<noteq> 0 \<and> (b, upath w) \<noteq> (a, upath va) \<longrightarrow>
      as_entry t b w = as_entry s b w \<and> (as_entry t b w \<noteq> 0 \<longrightarrow> as_entry t b w AND PA_MASK \<noteq> p)"
    using assms(8) by blast
  show "\<forall>q \<in> live - dom tt. q = p \<or> mem t q = mem s q" using assms(9) by blast
qed (rule assms)+

lemma cow_exclusive_parts:
  assumes inv: "vm_inv lo s live tt asp" and ref: "ref_ok s live asp ex" and lo: "RAM_BASE \<le> lo"
    and a: "a \<in> asp" and va: "idx 39 va \<noteq> 0" and room: "0 < room lo live"
  shows "as_entry s a va = 0 \<or> as_entry s a va AND PTE_COW = 0 \<Longrightarrow> cow_fault a va s = Some (False, s)"
    "as_entry s a va \<noteq> 0 \<Longrightarrow> as_entry s a va AND PTE_COW \<noteq> 0 \<Longrightarrow>
      \<exists>s' live' p. cow_fault a va s = Some (True, s') \<and> vm_inv lo s' live' tt asp \<and> ref_ok s' live' asp ex \<and>
        as_entry s' a va = p OR rw_attr OR DESC_PAGE \<and> ex p = 0 \<and> p AND PA_MASK = p \<and>
        (\<forall>k < 512. mem s' p k = mem s (as_entry s a va AND PA_MASK) k) \<and>
        (\<forall>b \<in> asp. \<forall>w. idx 39 w \<noteq> 0 \<and> (b, upath w) \<noteq> (a, upath va) \<longrightarrow>
           as_entry s' b w = as_entry s b w \<and> (as_entry s' b w \<noteq> 0 \<longrightarrow> as_entry s' b w AND PA_MASK \<noteq> p)) \<and>
        (\<forall>q \<in> live - dom tt. q = p \<or> mem s' q = mem s q)"
proof -
  define v where "v = va AND NOT 0xFFF"
  have vv: "idx 39 v \<noteq> 0" "as_entry s a v = as_entry s a va" "upath v = upath va"
    unfolding v_def upath_mask as_entry_mask using va by simp_all
  note pt = pte_ptr_entry(1) [OF inv a vv(1), unfolded vv(2)]
  show "cow_fault a va s = Some (False, s)" if "as_entry s a va = 0 \<or> as_entry s a va AND PTE_COW = 0"
    using pt that unfolding cow_fault_def Let_def v_def [symmetric] by (auto split: option.splits)
  define e old where "e = as_entry s a va" and "old = e AND PA_MASK"
  assume "as_entry s a va \<noteq> 0" "as_entry s a va AND PTE_COW \<noteq> 0"
  then have e: "e \<noteq> 0" "e AND PTE_COW \<noteq> 0" "as_ent s a (upath va) = e" by (simp_all add: e_def as_entry_ent)
  from pt e(1) obtain t i where ti: "pte_ptr (as_l0 s a) v s = Some (t, i)" "mem s t i = e"
    unfolding e_def [symmetric] by (auto split: option.splits)
  note eo = ent_ok [OF inv a upath_paths [OF va], unfolded e(3), OF e(1), folded old_def]
  note of = live_frame [OF inv lo eo(2)]
  have inm: "(a, upath va) \<in> maps s asp old" using a upath_paths [OF va] e by (simp add: maps_def old_def)
  have cnt: "unat (page_ref s (pidx old)) = card (maps s asp old) + ex old" using ref of(1) by (simp add: ref_ok_def)
  have pos: "0 < card (maps s asp old)" using inm by (auto simp: card_gt_0_iff)
  have rc: "page_refcount old s = unat (page_ref s (pidx old))"
    using of(1) by (auto simp: page_refcount_def frames_def)
  have cf: "cow_fault a va s = (if page_refcount old s = 1
          then Some (True, flush_tlb_asid (as_asid (store t i ((old AND NOT 0xFFF) OR rw_attr OR 3) s) a)
                 (store t i ((old AND NOT 0xFFF) OR rw_attr OR 3) s))
          else (case pmm_alloc s of (newpa, s) \<Rightarrow>
            let s = copy_page newpa old s;
                s = store t i ((newpa AND NOT 0xFFF) OR rw_attr OR 3) s;
                s = page_incref newpa s
            in case page_decref old s of None \<Rightarrow> None
               | Some s \<Rightarrow> Some (True, flush_tlb_asid (as_asid s a) s)))"
    using e(2) ti unfolding cow_fault_def Let_def v_def [symmetric] old_def by simp
  show "\<exists>s' live' p. cow_fault a va s = Some (True, s') \<and> vm_inv lo s' live' tt asp \<and> ref_ok s' live' asp ex \<and>
        as_entry s' a va = p OR rw_attr OR DESC_PAGE \<and> ex p = 0 \<and> p AND PA_MASK = p \<and>
        (\<forall>k < 512. mem s' p k = mem s (as_entry s a va AND PA_MASK) k) \<and>
        (\<forall>b \<in> asp. \<forall>w. idx 39 w \<noteq> 0 \<and> (b, upath w) \<noteq> (a, upath va) \<longrightarrow>
           as_entry s' b w = as_entry s b w \<and> (as_entry s' b w \<noteq> 0 \<longrightarrow> as_entry s' b w AND PA_MASK \<noteq> p)) \<and>
        (\<forall>q \<in> live - dom tt. q = p \<or> mem s' q = mem s q)"
  proof (cases "page_refcount old s = 1")
    case True
    define x where "x = old OR rw_attr OR DESC_PAGE"
    define s' where "s' = store t i x s"
    note rw = rw_entry [OF of(2,3), folded x_def]
    have xx: "(old AND NOT 0xFFF) OR rw_attr OR 3 = x" unfolding x_def by (rule desc_align [OF of(2,3)])
    have x3: "x \<noteq> 0 \<longrightarrow> x AND 3 = 3 \<and> x AND PA_MASK \<in> live - dom tt - asp"
      using leaf_desc(2) [OF of(2,3) attr_pa(1)] page_and_mask(1) [OF of(2,3)] rw eo by (simp add: x_def)
    note ss = slot_store [OF inv a vv(1) ti(1) s'_def x3, unfolded vv(2,3), folded e_def]
    have one: "card (maps s asp old) = 1" "ex old = 0" using True cnt rc pos by simp_all
    then have single: "maps s asp old = {(a, upath va)}" using maps_single [OF inm] by simp
    have c: "card (maps s' asp pa) = card (maps s asp pa)" for pa
      using ss(5) [of pa] rw e(1) by (auto simp: hits_def old_def split: if_splits)
    have r: "ref_ok s' live asp ex" using ref ss(3) c by (simp add: ref_ok_def)
    have ex: "as_entry s' a va = x" using ss(4) [OF a upath_paths [OF va]] by (simp add: as_entry_ent)
    have others: "as_entry s' b w = as_entry s b w \<and> (as_entry s' b w \<noteq> 0 \<longrightarrow> as_entry s' b w AND PA_MASK \<noteq> old)"
      if "b \<in> asp" "idx 39 w \<noteq> 0" "(b, upath w) \<noteq> (a, upath va)" for b w
    proof -
      have "as_entry s' b w = as_entry s b w"
        using ss(4) [OF that(1) upath_paths [OF that(2)]] that(3) by (auto simp: as_entry_ent)
      moreover have "(b, upath w) \<notin> maps s asp old" using single that(3) by simp
      ultimately show ?thesis using that upath_paths by (auto simp: maps_def as_entry_ent)
    qed
    have keep: "mem s' q = mem s q" if "q \<notin> dom tt" for q
      using that ss(2) by (auto simp: s'_def)
    have run: "cow_fault a va s = Some (True, flush_tlb_asid (as_asid s' a) s')"
      unfolding cf using True xx by (simp add: s'_def)
    have same: "mem s' old k = mem s old k" for k using keep [OF eo(3)] by simp
    show ?thesis unfolding e_def [symmetric] old_def [symmetric]
      by (rule cow_result [OF run ss(1) r ex [unfolded x_def] one(2) page_and_mask(2) [OF of(2,3)] same others])
        (use keep in auto)
  next
    case False
    then have many: "1 < unat (page_ref s (pidx old))" using rc cnt pos by simp
    obtain new s1 where al: "pmm_alloc s = (new, s1)" by fastforce
    define s2 where "s2 = copy_page new old s1"
    have s2': "s2 = s1\<lparr>mem := (mem s1)(new := (\<lambda>k. if k < 512 then mem s1 old k else mem s1 new k))\<rparr>"
      by (simp add: s2_def copy_page_def)
    note fp = fresh_page [OF inv ref lo room al s2']
    have m1: "mem s1 = mem s" using pmm_alloc_room(4) [OF _ room al] inv by (simp add: vm_inv_def)
    note nf = live_frame [OF fp(1) lo, of new, simplified]
    define x where "x = new OR rw_attr OR DESC_PAGE"
    define s3 where "s3 = store t i x s2"
    note rw = rw_entry [OF nf(2,3), folded x_def]
    have xx: "(new AND NOT 0xFFF) OR rw_attr OR 3 = x" unfolding x_def by (rule desc_align [OF nf(2,3)])
    have x3: "x \<noteq> 0 \<longrightarrow> x AND 3 = 3 \<and> x AND PA_MASK \<in> insert new live - dom tt - asp"
      using leaf_desc(2) [OF nf(2,3) attr_pa(1)] page_and_mask(1) [OF nf(2,3)] rw fp(4) by (simp add: x_def)
    have tl: "t \<in> dom tt" using slot_store(2) [OF inv a vv(1) ti(1) refl, where v = 0] by simp
    have e2: "as_entry s2 a v = e" using fp(7) [OF a] vv upath_paths [OF va] e(3) by (simp add: as_entry_ent)
    have ti2: "pte_ptr (as_l0 s2 a) v s2 = Some (t, i)"
    proof -
      have "mem s2 u = mem s u" if "u \<in> live" for u using fp(10) [OF that] .
      note pt2 = pte_ptr_entry(1) [OF fp(1) a vv(1), unfolded e2]
      from pt2 e(1) obtain t2 i2 where p2: "pte_ptr (as_l0 s2 a) v s2 = Some (t2, i2)" "i2 = idx 12 v"
        "tab_at (mem s2) (as_l0 s2 a) [idx 39 v, idx 30 v, idx 21 v] = Some t2" by (auto split: option.splits)
      from pt e(1) ti(1) have p1: "i = idx 12 v" "tab_at (mem s) (as_l0 s a) [idx 39 v, idx 30 v, idx 21 v] = Some t"
        by (simp_all add: e_def)
      have same: "mem s2 u = mem s u" if "u \<in> dom tt" for u using fp(10) that inv by (auto simp: vm_inv_def)
      have ty: "vm_typed s live tt asp" using inv by (simp add: vm_inv_def)
      have "tab_at (mem s2) (as_l0 s a) [idx 39 v, idx 30 v, idx 21 v] = tab_at (mem s) (as_l0 s a) [idx 39 v, idx 30 v, idx 21 v]"
        by (rule same_tables(2) [OF ty, where pth = "[]" and a = a]) (use same typed_root [OF ty a] vv(1) in auto)
      with p1(2) have "tab_at (mem s2) (as_l0 s a) [idx 39 v, idx 30 v, idx 21 v] = Some t" by simp
      then show ?thesis using p2 p1(1) fp(9) [OF a] by simp
    qed
    note ss = slot_store [OF fp(1) a vv(1) ti2 s3_def x3, unfolded vv(3) e2]
    define s4 where "s4 = page_incref new s3"
    have on: "old \<noteq> new" using fp(5) eo(2) by auto
    have r3: "page_ref s3 = page_ref s" using ss(3) fp(11) by (simp add: same_rest_def)
    have r4: "unat (page_ref s4 (pidx q)) = unat (page_ref s (pidx q)) + (if q = new then 1 else 0)"
      if "q \<in> frames RAM_BASE RAM_TOP" for q
      using page_incref_ref [OF nf(1) that, of s3] fp(8,11) r3 unfolding s4_def by (simp add: same_rest_def)
    have many4: "1 < unat (page_ref s4 (pidx old))" using r4 [OF of(1)] on many by simp
    define s5 where "s5 = s4\<lparr>page_ref := (page_ref s4)(pidx old := page_ref s4 (pidx old) - 1)\<rparr>"
    note dr = page_decref_shared [OF of(1) many4, folded s5_def]
    have run: "cow_fault a va s = Some (True, flush_tlb_asid (as_asid s5 a) s5)"
      unfolding cf if_not_P [OF False] al prod.case Let_def s2_def [symmetric] xx s3_def [symmetric]
        s4_def [symmetric] dr(1) option.case by (rule refl)
    have r5: "unat (page_ref s5 (pidx q)) + (if q = old then 1 else 0) =
        unat (page_ref s (pidx q)) + (if q = new then 1 else 0)" if q: "q \<in> frames RAM_BASE RAM_TOP" for q
      using r4 [OF q] dr(2) many4 pidx_inj [OF q of(1)] on by (auto simp: s5_def)
    have mp: "maps s2 asp pa = maps s asp pa" for pa by (rule maps_cong) (use fp(7) in auto)
    have c5: "card (maps s5 asp q) + hits e q = card (maps s asp q) + hits x q" for q
      using ss(5) [of q] mp by (simp add: s5_def s4_def)
    have "unat (page_ref s5 (pidx q)) = card (maps s5 asp q) + ex q" if q: "q \<in> frames RAM_BASE RAM_TOP" for q
    proof -
      have "unat (page_ref s (pidx q)) = card (maps s asp q) + ex q" using ref q by (simp add: ref_ok_def)
      then show ?thesis using r5 [OF q] c5 [of q] rw e(1) on by (auto simp: hits_def old_def split: if_splits)
    qed
    then have r: "ref_ok s5 (insert new live) asp ex" using ref by (auto simp: ref_ok_def)
    have inv5: "vm_inv lo s5 (insert new live) tt asp" using ss(1) by (simp add: s5_def s4_def)
    have ex5: "as_entry s5 a va = x"
      using ss(4) [OF a upath_paths [OF va]] by (simp add: as_entry_ent s5_def s4_def)
    have others: "as_entry s5 b w = as_entry s b w \<and> (as_entry s5 b w \<noteq> 0 \<longrightarrow> as_entry s5 b w AND PA_MASK \<noteq> new)"
      if "b \<in> asp" "idx 39 w \<noteq> 0" "(b, upath w) \<noteq> (a, upath va)" for b w
    proof -
      have "as_entry s5 b w = as_entry s b w"
        using ss(4) [OF that(1) upath_paths [OF that(2)]] fp(7) [OF that(1) upath_paths [OF that(2)]] that(3)
        by (auto simp: as_entry_ent s5_def s4_def)
      moreover have "as_entry s b w \<noteq> 0 \<Longrightarrow> as_entry s b w AND PA_MASK \<in> live"
        using ent_ok(2) [OF inv that(1) upath_paths [OF that(2)]] by (simp add: as_entry_ent)
      ultimately show ?thesis using fp(5) by auto
    qed
    have exn: "ex new = 0" using ref fp(5) by (simp add: ref_ok_def)
    have same: "mem s5 new k = mem s old k" if "k < 512" for k
    proof -
      have "t \<noteq> new" using tl fp(5) inv by (auto simp: vm_inv_def)
      then show ?thesis using that m1 by (simp add: s5_def s4_def s3_def s2')
    qed
    have keep: "mem s5 q = mem s q" if "q \<in> live - dom tt" for q
    proof -
      have "q \<noteq> t" using tl that by auto
      then show ?thesis using fp(10) that by (simp add: s5_def s4_def s3_def)
    qed
    show ?thesis unfolding e_def [symmetric] old_def [symmetric]
      by (rule cow_result [OF run inv5 r ex5 [unfolded x_def] exn page_and_mask(2) [OF nf(2,3)] same others])
        (use keep in auto)
  qed
qed

text \<open>
  C5. The write fault. An address without a copy-on-write entry is not handled and nothing changes.
  Otherwise the fault is handled: afterwards the address is mapped read-write to a page with the
  contents of the old one which no other address of any space maps and nobody else references, all
  other entries are as they were, and no other page changes, the one left to the other sharers
  included.
\<close>

theorem cow_exclusive:
  assumes inv: "vm_inv lo s live tt asp" and ref: "ref_ok s live asp ex" and lo: "RAM_BASE \<le> lo"
    and a: "a \<in> asp" and va: "idx 39 va \<noteq> 0" and room: "0 < room lo live"
  shows "(as_entry s a va = 0 \<or> as_entry s a va AND PTE_COW = 0 \<longrightarrow> cow_fault a va s = Some (False, s)) \<and>
    (as_entry s a va \<noteq> 0 \<longrightarrow> as_entry s a va AND PTE_COW \<noteq> 0 \<longrightarrow>
      (\<exists>s' live' p. cow_fault a va s = Some (True, s') \<and> vm_inv lo s' live' tt asp \<and> ref_ok s' live' asp ex \<and>
        as_entry s' a va = p OR rw_attr OR DESC_PAGE \<and> ex p = 0 \<and> p AND PA_MASK = p \<and>
        (\<forall>k < 512. mem s' p k = mem s (as_entry s a va AND PA_MASK) k) \<and>
        (\<forall>b \<in> asp. \<forall>w. idx 39 w \<noteq> 0 \<and> (b, upath w) \<noteq> (a, upath va) \<longrightarrow>
           as_entry s' b w = as_entry s b w \<and> (as_entry s' b w \<noteq> 0 \<longrightarrow> as_entry s' b w AND PA_MASK \<noteq> p)) \<and>
        (\<forall>q \<in> live - dom tt. q = p \<or> mem s' q = mem s q)))"
  by (intro conjI impI; rule cow_exclusive_parts [OF assms]; assumption?)

end
