(* ===== verification/Vm_Fork.thy ===== *)
theory Vm_Fork
  imports Vm_Props
begin

text \<open>
  \<open>as_clone\<close> of \<open>src/vm.c\<close>: the copy-on-write clone behind \<open>fork\<close>. The invariant of its nested
  loops says which paths were visited: those entries of the parent are demoted and copied, the
  others are untouched and still empty in the child.
\<close>

subsection \<open>What happens to an entry\<close>

text \<open>A private writable page becomes read-only and copy on write; every other entry is kept.\<close>

definition cow_of :: "u64 \<Rightarrow> u64" where
  "cow_of e = (if e \<noteq> 0 \<and> e AND PTE_SHARED = 0 \<and> e AND 0xC0 = AP_RW_ALL
               then (e AND PA_MASK) OR ro_cow OR DESC_PAGE else e)"

lemma cow_of_0 [simp]: "cow_of 0 = 0" by (simp add: cow_of_def)

lemma desc_page_pa: "DESC_PAGE AND PA_MASK = 0" by (simp add: DESC_PAGE_def PA_MASK_def)

lemma cow_of_facts: "cow_of e AND PA_MASK = e AND PA_MASK" "cow_of e = 0 \<longleftrightarrow> e = 0"
  "e AND 3 = 3 \<Longrightarrow> cow_of e AND 3 = 3"
proof -
  show "cow_of e AND PA_MASK = e AND PA_MASK"
    by (simp add: cow_of_def bit.conj_disj_distrib2 and.assoc desc_page_pa)
  have d: "((e AND PA_MASK) OR ro_cow OR DESC_PAGE) AND 3 = 3"
    by (rule bit_word_eqI) (auto simp: bit_simps DESC_PAGE_def)
  have "(e AND PA_MASK) OR ro_cow OR DESC_PAGE \<noteq> 0" using d by auto
  then show "cow_of e = 0 \<longleftrightarrow> e = 0" by (simp add: cow_of_def)
  show "e AND 3 = 3 \<Longrightarrow> cow_of e AND 3 = 3" using d by (simp add: cow_of_def)
qed

lemma kept_entry: "e AND 3 = 3 \<Longrightarrow> (e AND PA_MASK) OR (e AND NOT PA_MASK) OR DESC_PAGE = e"
proof -
  assume e: "e AND 3 = (3 :: u64)"
  have "(e AND PA_MASK) OR (e AND NOT PA_MASK) = e"
    by (metis bit.conj_cancel_right bit.conj_disj_distrib bit.disj_cancel_right and.right_neutral)
  moreover have "e OR 3 = e"
  proof -
    have "e OR (e AND 3) = e" by (rule bit_word_eqI) (auto simp: bit_simps)
    then show ?thesis unfolding e .
  qed
  ultimately show ?thesis by (simp add: DESC_PAGE_def or.assoc [symmetric])
qed

subsection \<open>The new address space\<close>

lemma adopt:
  assumes inv: "vm_inv lo s live tt asp"
    and keep: "\<forall>p \<in> live. mem s' p = mem s p"
    and new: "child \<notin> live" "l0 \<notin> live" "child \<noteq> l0" "mem s' child 0 = l0" "\<forall>i. 0 < i \<and> i < 512 \<longrightarrow> mem s' l0 i = 0"
    and p: "pmm_inv lo s' (insert l0 (insert child live))"
  defines "tt' \<equiv> tt(l0 \<mapsto> (child, []))"
  shows "vm_inv lo s' (insert l0 (insert child live)) tt' (insert child asp)"
    "\<And>b q. b \<in> asp \<Longrightarrow> q \<in> paths \<Longrightarrow> as_ent s' b q = as_ent s b q"
    "\<And>q. q \<in> paths \<Longrightarrow> as_ent s' child q = 0"
proof -
  have ty: "vm_typed s live tt asp" and dt: "dom tt \<subseteq> live" and al: "asp \<subseteq> live"
    using inv by (simp_all add: vm_inv_def)
  have nn: "tt l0 = None" "tt child = None" "child \<notin> asp" "l0 \<notin> asp" using new(1,2) dt al by auto
  have l0: "as_l0 s' b = as_l0 s b" if "b \<in> asp" for b using keep al that by (auto simp: as_l0_def)
  have old: "tt u = Some x \<Longrightarrow> mem s' u = mem s u" for u x using keep dt by auto
  have "vm_typed s' (insert l0 (insert child live)) tt' (insert child asp)"
    unfolding vm_typed_def
  proof (intro conjI ballI allI impI)
    fix b assume b: "b \<in> insert child asp"
    show "tt' b = None" using b nn new(3) typed_root [OF ty, of b] by (auto simp: tt'_def)
    show "tt' (as_l0 s' b) = Some (b, [])"
    proof (cases "b = child")
      case True
      then show ?thesis using new(4) by (simp add: tt'_def as_l0_def)
    next
      case False
      then have "b \<in> asp" using b by simp
      then have "tt (as_l0 s' b) = Some (b, [])" using l0 typed_root [OF ty] by simp
      with nn(1) show ?thesis by (auto simp: tt'_def)
    qed
  next
    fix u b pp assume "tt' u = Some (b, pp)"
    then show "b \<in> insert child asp" "length pp \<le> 3" "pp \<noteq> [] \<Longrightarrow> hd pp \<noteq> 0"
      using typed_tab [OF ty, of u b pp] by (auto simp: tt'_def split: if_splits)
  next
    fix u b pp i assume A: "tt' u = Some (b, pp) \<and> i < 512 \<and> pte_valid (mem s' u i) \<and> hd (pp @ [i]) \<noteq> 0"
    have "u \<noteq> l0"
    proof
      assume "u = l0"
      then have "pp = []" "0 < i" using A by (auto simp: tt'_def)
      then show False using A new(5) [rule_format, of i] \<open>u = l0\<close> by simp
    qed
    then have tu: "tt u = Some (b, pp)" using A by (simp add: tt'_def)
    have so: "slot_ok live tt asp b (pp @ [i]) (mem s u i)"
      by (rule typed_slot [OF ty tu]) (use A old [OF tu] in auto)
    show "slot_ok (insert l0 (insert child live)) tt' (insert child asp) b (pp @ [i]) (mem s' u i)"
      using so new(1,2) nn unfolding old [OF tu] slot_ok_def tt'_def by (auto split: if_splits)
  qed
  then show "vm_inv lo s' (insert l0 (insert child live)) tt' (insert child asp)"
    using p dt al by (auto simp: vm_inv_def tt'_def)
  show "as_ent s' b q = as_ent s b q" if "b \<in> asp" "q \<in> paths" for b q
    using same_tables(1) [OF ty, of "mem s'" "as_l0 s b" b "[]" q] old typed_root [OF ty that(1)] that(2) l0 [OF that(1)]
    by (auto simp: as_ent_def paths_def)
  show "as_ent s' child q = 0" if "q \<in> paths" for q
  proof -
    from that obtain i j k l where q: "q = [i, j, k, l]" "0 < i" "i < 512"
      by (auto simp: paths_def numeral_eq_Suc length_Suc_conv)
    then show ?thesis using new(4,5) by (simp add: as_ent_def as_l0_def)
  qed
qed

subsection \<open>The loop\<close>

definition clone_inv where
  "clone_inv lo parent child asp ex s0 live0 tt0 P s live tt \<longleftrightarrow>
    vm_inv lo s live tt (insert child asp) \<and> ref_ok s live (insert child asp) ex \<and> live0 \<subseteq> live \<and>
    dom tt \<subseteq> dom tt0 \<union> (live - live0) \<and>
    room lo live0 \<le> room lo live + 3 * card {p \<in> P. as_ent s0 parent p \<noteq> 0} \<and>
    (\<forall>p \<in> paths. as_ent s parent p = (if p \<in> P then cow_of (as_ent s0 parent p) else as_ent s0 parent p)) \<and>
    (\<forall>p \<in> paths. as_ent s child p = (if p \<in> P then cow_of (as_ent s0 parent p) else 0)) \<and>
    (\<forall>b \<in> asp - {parent}. \<forall>p \<in> paths. as_ent s b p = as_ent s0 b p) \<and>
    (\<forall>q \<in> live0 - dom tt0. mem s q = mem s0 q)"

lemma clone_count:
  assumes inv: "clone_inv lo parent child asp ex s0 live0 tt0 P s live tt"
    and ref0: "ref_ok s0 live0 (insert child asp) ex" and par: "parent \<in> asp" "child \<notin> asp"
    and P: "P \<subseteq> paths" "p \<in> paths" "p \<notin> P" "as_ent s0 parent p \<noteq> 0" "as_ent s0 parent p AND PA_MASK = pa"
    and fr: "pa \<in> frames RAM_BASE RAM_TOP" and small: "2 * unat (page_ref s0 (pidx pa)) < 65536"
  shows "unat (page_ref s (pidx pa)) < 65535"
proof -
  define A where "A = insert child asp"
  define C where "C = {q \<in> P. as_ent s0 parent q \<noteq> 0 \<and> as_ent s0 parent q AND PA_MASK = pa}"
  have ents: "as_ent s parent q = (if q \<in> P then cow_of (as_ent s0 parent q) else as_ent s0 parent q)"
    "as_ent s child q = (if q \<in> P then cow_of (as_ent s0 parent q) else 0)"
    "b \<in> asp - {parent} \<Longrightarrow> as_ent s b q = as_ent s0 b q" if "q \<in> paths" for b q
    using inv that by (auto simp: clone_inv_def)
  have "maps s A pa \<subseteq> maps s0 A pa \<union> Pair child ` C"
  proof
    fix x assume "x \<in> maps s A pa"
    then obtain b q where x: "x = (b, q)" "b \<in> A" "q \<in> paths" "as_ent s b q \<noteq> 0" "as_ent s b q AND PA_MASK = pa"
      by (auto simp: maps_def)
    consider "b = child" | "b = parent" "b \<noteq> child" | "b \<in> asp - {parent}" using x(2) by (auto simp: A_def)
    then show "x \<in> maps s0 A pa \<union> Pair child ` C"
      using x ents [OF x(3)] cow_of_facts par
      by cases (auto simp: C_def maps_def A_def split: if_splits)
  qed
  then have "card (maps s A pa) \<le> card (maps s0 A pa \<union> Pair child ` C)"
    by (rule card_mono [rotated]) (use P(1) finite_subset [OF _ finite_paths] in \<open>auto simp: C_def\<close>)
  also have "\<dots> \<le> card (maps s0 A pa) + card (Pair child ` C)" by (rule card_Un_le)
  also have "card (Pair child ` C) < card (maps s0 A pa)"
  proof -
    have "card (Pair child ` C) = card (Pair parent ` C)" by (simp add: card_image inj_on_def)
    moreover have "Pair parent ` C \<subset> maps s0 A pa"
      using P par by (auto simp: C_def maps_def A_def)
    then have "card (Pair parent ` C) < card (maps s0 A pa)" by (rule psubset_card_mono [rotated]) simp
    ultimately show ?thesis by simp
  qed
  finally have c: "card (maps s A pa) < 2 * card (maps s0 A pa)" by simp
  have "unat (page_ref s (pidx pa)) = card (maps s A pa) + ex pa"
    "unat (page_ref s0 (pidx pa)) = card (maps s0 A pa) + ex pa"
    using inv ref0 fr by (simp_all add: clone_inv_def ref_ok_def A_def)
  then show ?thesis using c small by linarith
qed


text \<open>One step of the innermost loop, in the three cases of the source at once.\<close>

lemma clone_pte_eq:
  assumes "pte_valid (mem s l3 k)" "mem s l3 k AND 3 = 3"
  defines "e \<equiv> mem s l3 k"
  defines "s1 \<equiv> if cow_of e \<noteq> e then store l3 k (cow_of e) s else s"
  shows "clone_pte child l3 i j k s =
    page_incref (e AND PA_MASK) (map_page (as_l0 (if e AND PTE_SHARED = 0 \<and> e AND 0xC0 = AP_RW_ALL
        then store l3 k (cow_of e) s else s) child) (mk_va 1 i j k) (e AND PA_MASK)
      (if e AND PTE_SHARED = 0 \<and> e AND 0xC0 = AP_RW_ALL then ro_cow else e AND NOT PA_MASK)
      (if e AND PTE_SHARED = 0 \<and> e AND 0xC0 = AP_RW_ALL then store l3 k (cow_of e) s else s))"
proof -
  have nz: "e \<noteq> 0" using assms(1) by (auto simp: e_def)
  have "push_bit 39 1 OR push_bit 30 (of_nat i) OR push_bit 21 (of_nat j) OR push_bit 12 (of_nat k) = mk_va 1 i j k"
    by (simp add: mk_va_def)
  then show ?thesis using assms(1) nz unfolding clone_pte_def Let_def e_def [symmetric] cow_of_def by simp
qed

lemma clone_step:
  assumes inv: "clone_inv lo parent child asp ex s0 live0 tt0 P s live tt" and lo: "RAM_BASE \<le> lo"
    and ref0: "ref_ok s0 live0 (insert child asp) ex" and par: "parent \<in> asp" "child \<notin> asp"
    and P: "P \<subseteq> {p \<in> paths. hd p = 1}" and p: "[1, i, j, k] \<in> paths" "[1, i, j, k] \<notin> P"
    and tab: "tab_at (mem s) (as_l0 s parent) [1, i, j] = Some l3"
    and small: "\<And>pa. pa \<in> frames RAM_BASE RAM_TOP \<Longrightarrow> 2 * unat (page_ref s0 (pidx pa)) < 65536"
    and room: "3 * card {p \<in> paths. hd p = 1 \<and> as_ent s0 parent p \<noteq> 0} \<le> room lo live0"
  shows "\<exists>live' tt'. clone_inv lo parent child asp ex s0 live0 tt0 (insert [1, i, j, k] P) (clone_pte child l3 i j k s) live' tt' \<and>
    tabs_kept (insert child asp) s (clone_pte child l3 i j k s)"
proof -
  let ?A = "insert child asp" and ?p = "[1, i, j, k]"
  have ci: "vm_inv lo s live tt ?A" "ref_ok s live ?A ex" "live0 \<subseteq> live" "dom tt \<subseteq> dom tt0 \<union> (live - live0)"
    "room lo live0 \<le> room lo live + 3 * card {p \<in> P. as_ent s0 parent p \<noteq> 0}"
    using inv by (simp_all add: clone_inv_def)
  have ents: "as_ent s parent q = (if q \<in> P then cow_of (as_ent s0 parent q) else as_ent s0 parent q)"
    "as_ent s child q = (if q \<in> P then cow_of (as_ent s0 parent q) else 0)"
    "b \<in> asp - {parent} \<Longrightarrow> as_ent s b q = as_ent s0 b q" if "q \<in> paths" for b q
    using inv that by (auto simp: clone_inv_def)
  have mems: "mem s q = mem s0 q" if "q \<in> live0 - dom tt0" for q using inv that by (auto simp: clone_inv_def)
  have ip: "i < 512" "j < 512" "k < 512" using p(1) by (auto simp: paths_def)
  define va where "va = mk_va 1 i j k"
  have up: "upath va = ?p" unfolding va_def using upath_mk_va [of 1 i j k] ip by simp
  have idxs: "idx 39 va = 1" "idx 30 va = i" "idx 21 va = j" "idx 12 va = k" using up by (simp_all add: upath_def)
  define e where "e = mem s l3 k"
  have e0: "as_ent s0 parent ?p = (if pte_valid e then e else 0)"
    using ents(1) [OF p(1)] p(2) entry_tab_at [of "mem s" "as_l0 s parent" "[1, i, j]" k] tab
    by (simp add: as_ent_def e_def)
  have paA: "parent \<in> ?A" "child \<in> ?A" "parent \<noteq> child" using par by auto
  have kept_refl: "tabs_kept ?A s s" by (simp add: tabs_kept_def)
  show ?thesis
  proof (cases "pte_valid e")
    case False
    have st: "clone_pte child l3 i j k s = s" using False by (simp add: clone_pte_def e_def Let_def)
    have "{q \<in> insert ?p P. as_ent s0 parent q \<noteq> 0} = {q \<in> P. as_ent s0 parent q \<noteq> 0}" using e0 False by auto
    then have "clone_inv lo parent child asp ex s0 live0 tt0 (insert ?p P) s live tt"
      using inv e0 False p unfolding clone_inv_def by auto
    then show ?thesis unfolding st using kept_refl by blast
  next
    case True
    have e: "as_ent s0 parent ?p = e" "as_ent s parent ?p = e" "e \<noteq> 0" using e0 True ents(1) [OF p(1)] p(2) by auto
    define pa where "pa = e AND PA_MASK"
    note eo = ent_ok [OF ci(1) paA(1) p(1), unfolded e(2), OF e(3), folded pa_def]
    note pf = live_frame [OF ci(1) lo eo(2)]
    define pw where "pw \<longleftrightarrow> e AND PTE_SHARED = 0 \<and> e AND 0xC0 = AP_RW_ALL"
    define s1 where "s1 = (if pw then store l3 k (cow_of e) s else s)"
    define attrs where "attrs = (if pw then ro_cow else e AND NOT PA_MASK)"
    define s' where "s' = page_incref pa (map_page (as_l0 s1 child) va pa attrs s1)"
    have st: "clone_pte child l3 i j k s = s'"
      using clone_pte_eq [of s l3 k child i j] True eo(1)
      unfolding s'_def s1_def attrs_def pw_def va_def pa_def e_def by simp
    have co: "cow_of e = (if pw then pa OR ro_cow OR DESC_PAGE else e)" using e(3) by (simp add: cow_of_def pw_def pa_def)
    have ae: "pa OR attrs OR DESC_PAGE = cow_of e" using kept_entry [OF eo(1)] co by (simp add: attrs_def pa_def)
    have ap: "attrs AND PA_MASK = 0" by (simp add: attrs_def)
    have ptr: "pte_ptr (as_l0 s parent) va s = Some (l3, k)"
    proof -
      have ne: "idx 39 va \<noteq> 0" using idxs by simp
      have "as_entry s parent va \<noteq> 0" using e by (simp add: as_entry_ent up)
      then show ?thesis using pte_ptr_entry(1) [OF ci(1) paA(1) ne] tab idxs by (auto split: option.splits)
    qed
    have ne: "idx 39 va \<noteq> 0" using idxs by simp
    have s1: "vm_inv lo s1 live tt ?A \<and> ref_ok s1 live ?A ex \<and> page_ref s1 = page_ref s \<and> tabs_kept ?A s s1 \<and>
      (\<forall>b \<in> ?A. \<forall>q \<in> paths. as_ent s1 b q = (if b = parent \<and> q = ?p then cow_of e else as_ent s b q)) \<and>
      (\<forall>q. q \<notin> dom tt \<longrightarrow> mem s1 q = mem s q)"
    proof (cases pw)
      case False
      then show ?thesis using ci co kept_refl e(2) by (auto simp: s1_def)
    next
      case pw: True
      have v: "cow_of e \<noteq> 0 \<longrightarrow> cow_of e AND 3 = 3 \<and> cow_of e AND PA_MASK \<in> live - dom tt - ?A"
        using cow_of_facts [of e] eo by (auto simp: pa_def)
      have sd: "s1 = store l3 k (cow_of e) s" using pw by (simp add: s1_def)
      note ss = slot_store [OF ci(1) paA(1) ne ptr sd v]
      have "as_entry s parent va = e" by (simp only: as_entry_ent up e(2))
      then have "card (maps s1 ?A q) = card (maps s ?A q)" for q
        using ss(5) [of q] cow_of_facts [of e] e(3) by (simp add: hits_def)
      then have "ref_ok s1 live ?A ex" using ci(2) ss(3) by (simp add: ref_ok_def)
      moreover have "\<forall>q. q \<notin> dom tt \<longrightarrow> mem s1 q = mem s q" using ss(2) by (auto simp: sd)
      moreover have "\<forall>b \<in> ?A. \<forall>q \<in> paths. as_ent s1 b q = (if b = parent \<and> q = ?p then cow_of e else as_ent s b q)"
        using ss(4) unfolding up by blast
      ultimately show ?thesis using ss(1,3,7) by blast
    qed
    have finP: "finite P" using P finite_subset [OF _ finite_paths] by blast
    have card1: "card {q \<in> insert ?p P. as_ent s0 parent q \<noteq> 0} = Suc (card {q \<in> P. as_ent s0 parent q \<noteq> 0})"
    proof -
      have "{q \<in> insert ?p P. as_ent s0 parent q \<noteq> 0} = insert ?p {q \<in> P. as_ent s0 parent q \<noteq> 0}" using e by auto
      then show ?thesis using finP p(2) by simp
    qed
    have r3: "3 \<le> room lo live"
    proof -
      have "card {q \<in> insert ?p P. as_ent s0 parent q \<noteq> 0} \<le> card {p \<in> paths. hd p = 1 \<and> as_ent s0 parent p \<noteq> 0}"
        by (rule card_mono) (use P p in auto)
      then show ?thesis using card1 room ci(5) by simp
    qed
    have cnt: "unat (page_ref s1 (pidx pa)) < 65535"
      using clone_count [OF inv ref0 par _ p _ _ pf(1) small [OF pf(1)]] P e s1 by (auto simp: pa_def)
    have none: "as_entry s1 child va = 0"
      using s1 paA ents(2) [OF p(1)] p by (simp add: as_entry_ent up)
    obtain live' tt' where m: "vm_inv lo s' live' tt' ?A" "ref_ok s' live' ?A ex" "live \<subseteq> live'"
      "dom tt' \<subseteq> dom tt \<union> (live' - live)" "room lo live \<le> room lo live' + 3" "\<forall>q \<in> live - dom tt. mem s' q = mem s1 q"
      "\<forall>b \<in> ?A. \<forall>w. idx 39 w \<noteq> 0 \<longrightarrow> as_entry s' b w =
         (if b = child \<and> upath w = upath va then pa OR attrs OR DESC_PAGE else as_entry s1 b w)" "tabs_kept ?A s1 s'"
      using map_count_spec [OF conjunct1 [OF s1] conjunct1 [OF conjunct2 [OF s1]] lo paA(2) ne r3 _ ap none cnt, folded s'_def] eo
      by blast
    have ent: "as_ent s' b q = (if b = child \<and> q = ?p then cow_of e
        else if b = parent \<and> q = ?p then cow_of e else as_ent s b q)" if b: "b \<in> ?A" and q: "q \<in> paths" for b q
    proof -
      obtain w where w: "upath w = q" "idx 39 w \<noteq> 0" using paths_mk_va [OF q] by blast
      have "as_ent s' b q = (if b = child \<and> q = ?p then cow_of e else as_ent s1 b q)"
        using m(7) [rule_format, OF b w(2)] by (simp only: as_entry_ent w(1) up ae)
      moreover have "as_ent s1 b q = (if b = parent \<and> q = ?p then cow_of e else as_ent s b q)" using s1 b q by blast
      ultimately show ?thesis by (simp only:)
    qed
    have "clone_inv lo parent child asp ex s0 live0 tt0 (insert ?p P) s' live' tt'"
      unfolding clone_inv_def
    proof (intro conjI ballI)
      show "dom tt' \<subseteq> dom tt0 \<union> (live' - live0)" by (rule grow_sets [OF ci(4) subset_refl ci(3) m(3,4)])
      show "room lo live0 \<le> room lo live' + 3 * card {q \<in> insert ?p P. as_ent s0 parent q \<noteq> 0}"
        using card1 ci(5) m(5) by simp
      show "live0 \<subseteq> live'" using ci(3) m(3) by blast
      fix q assume "q \<in> paths"
      then show "as_ent s' parent q = (if q \<in> insert ?p P then cow_of (as_ent s0 parent q) else as_ent s0 parent q)"
        "as_ent s' child q = (if q \<in> insert ?p P then cow_of (as_ent s0 parent q) else 0)"
        using ent [OF paA(1)] ent [OF paA(2)] ents e paA(3) by auto
    next
      fix b q assume "b \<in> asp - {parent}" "q \<in> paths"
      then show "as_ent s' b q = as_ent s0 b q" using ent [of b q] ents(3) [of q b] par by auto
    next
      fix q assume q: "q \<in> live0 - dom tt0"
      then have "q \<in> live - dom tt" using ci(3,4) by blast
      then show "mem s' q = mem s0 q" using m(6) s1 mems [OF q] by simp
    qed (rule m)+
    moreover have "tabs_kept ?A s s'" by (rule tabs_kept_trans [OF _ m(8)]) (use s1 in blast)
    ultimately show ?thesis unfolding st by blast
  qed
qed


subsection \<open>The nested loops\<close>

definition clone_pre where
  "clone_pre lo parent child asp ex s0 live0 \<longleftrightarrow> RAM_BASE \<le> lo \<and> ref_ok s0 live0 (insert child asp) ex \<and>
    parent \<in> asp \<and> child \<notin> asp \<and> (\<forall>pa \<in> frames RAM_BASE RAM_TOP. 2 * unat (page_ref s0 (pidx pa)) < 65536) \<and>
    3 * card {p \<in> paths. hd p = 1 \<and> as_ent s0 parent p \<noteq> 0} \<le> room lo live0"

definition row3 :: "nat \<Rightarrow> nat \<Rightarrow> nat \<Rightarrow> nat list set" where "row3 i j n = (\<lambda>k. [1, i, j, k]) ` {..<n}"
definition row2 :: "nat \<Rightarrow> nat \<Rightarrow> nat list set" where "row2 i n = (\<Union>j<n. row3 i j 512)"
definition row1 :: "nat \<Rightarrow> nat list set" where "row1 n = (\<Union>i<n. row2 i 512)"

lemma rows_0 [simp]: "row3 i j 0 = {}" "row2 i 0 = {}" "row1 0 = {}"
  by (simp_all add: row3_def row2_def row1_def)

lemma rows_Suc: "row3 i j (Suc n) = insert [1, i, j, n] (row3 i j n)" "row2 i (Suc n) = row2 i n \<union> row3 i n 512"
  "row1 (Suc n) = row1 n \<union> row2 n 512"
  by (auto simp: row3_def row2_def row1_def lessThan_Suc)

lemma row1_all: "row1 512 = {p \<in> paths. hd p = 1}"
proof -
  have "p \<in> row1 512" if "p \<in> paths" "hd p = 1" for p
  proof -
    from that obtain j k l where "p = [1, j, k, l]" "j < 512" "k < 512" "l < 512"
      by (auto simp: paths_def numeral_eq_Suc length_Suc_conv)
    then show ?thesis by (auto simp: row1_def row2_def row3_def)
  qed
  then show ?thesis by (auto simp: row1_def row2_def row3_def paths_def)
qed

lemma clone_inv_empty:
  assumes "clone_inv lo parent child asp ex s0 live0 tt0 P s live tt"
    "\<And>q. q \<in> Q \<Longrightarrow> q \<in> paths \<and> q \<notin> P \<and> as_ent s parent q = 0"
  shows "clone_inv lo parent child asp ex s0 live0 tt0 (P \<union> Q) s live tt"
proof -
  have z: "as_ent s0 parent q = 0" if "q \<in> Q" for q
  proof -
    have e: "\<forall>p \<in> paths. as_ent s parent p = (if p \<in> P then cow_of (as_ent s0 parent p) else as_ent s0 parent p)"
      using assms(1) by (simp add: clone_inv_def)
    have q: "q \<in> paths" "q \<notin> P" "as_ent s parent q = 0" using assms(2) [OF that] by simp_all
    have "as_ent s parent q = as_ent s0 parent q" using bspec [OF e q(1)] q(2) by (simp only: if_False)
    then show ?thesis using q(3) by (simp only:)
  qed
  then have "{p \<in> P \<union> Q. as_ent s0 parent p \<noteq> 0} = {p \<in> P. as_ent s0 parent p \<noteq> 0}" by auto
  then show ?thesis using assms(1) z unfolding clone_inv_def by auto
qed

lemma clone_l3_spec:
  assumes pre: "clone_pre lo parent child asp ex s0 live0"
    and inv: "clone_inv lo parent child asp ex s0 live0 tt0 P s live tt"
    and P: "P \<subseteq> {p \<in> paths. hd p = 1}" "P \<inter> row3 i j 512 = {}" and ij: "i < 512" "j < 512"
    and tab: "tab_at (mem s) (as_l0 s parent) [1, i, j] = Some l3"
  shows "\<exists>live' tt'. clone_inv lo parent child asp ex s0 live0 tt0 (P \<union> row3 i j 512) (clone_l3 child l3 i j s) live' tt' \<and>
    tabs_kept (insert child asp) s (clone_l3 child l3 i j s)"
proof -
  define I where "I n t \<longleftrightarrow> (\<exists>live' tt'. clone_inv lo parent child asp ex s0 live0 tt0 (P \<union> row3 i j n) t live' tt') \<and>
    tabs_kept (insert child asp) s t" for n t
  have "I 512 (fold (clone_pte child l3 i j) [0..<512] s)"
  proof (rule fold_upt_inv)
    show "I 0 s" using inv by (auto simp: I_def tabs_kept_def)
  next
    fix n t assume n: "n < 512" and "I n t"
    then obtain live1 tt1 where c: "clone_inv lo parent child asp ex s0 live0 tt0 (P \<union> row3 i j n) t live1 tt1"
      and k: "tabs_kept (insert child asp) s t" by (auto simp: I_def)
    have tb: "tab_at (mem t) (as_l0 t parent) [1, i, j] = Some l3"
      by (rule tabs_keptD [OF k _ _ _ _ tab]) (use pre ij in \<open>auto simp: clone_pre_def\<close>)
    have np: "[1, i, j, n] \<in> paths" "[1, i, j, n] \<notin> P \<union> row3 i j n"
      using ij n P by (auto simp: paths_def row3_def)
    have sub: "P \<union> row3 i j n \<subseteq> {p \<in> paths. hd p = 1}" using P ij n by (auto simp: row3_def paths_def)
    obtain live2 tt2 where "clone_inv lo parent child asp ex s0 live0 tt0 (insert [1, i, j, n] (P \<union> row3 i j n)) (clone_pte child l3 i j n t) live2 tt2"
      "tabs_kept (insert child asp) t (clone_pte child l3 i j n t)"
      using clone_step [OF c _ _ _ _ sub np tb] pre unfolding clone_pre_def by blast
    then show "I (Suc n) (clone_pte child l3 i j n t)"
      using tabs_kept_trans [OF k] unfolding I_def rows_Suc by (auto simp: Un_insert_right)
  qed
  then show ?thesis unfolding clone_l3_def I_def by blast
qed

lemma subtree_empty:
  assumes "tab_at (mem s) (as_l0 s b) q = Some t" "\<not> pte_valid (mem s t i)"
  shows "as_ent s b (q @ i # r) = 0"
proof -
  have "entry (mem s) u (q @ i # r) = 0" if "tab_at (mem s) u q = Some t" for u
    using that
  proof (induction q arbitrary: u)
    case Nil
    then show ?case using assms(2) by (cases r) auto
  next
    case (Cons a q)
    then show ?case by (cases "q @ i # r") (auto split: if_splits)
  qed
  then show ?thesis using assms(1) by (simp add: as_ent_def)
qed

lemma clone_l2_spec:
  assumes pre: "clone_pre lo parent child asp ex s0 live0"
    and inv: "clone_inv lo parent child asp ex s0 live0 tt0 P s live tt"
    and P: "P \<subseteq> {p \<in> paths. hd p = 1}" "P \<inter> row2 i 512 = {}" and i: "i < 512"
    and tab: "tab_at (mem s) (as_l0 s parent) [1, i] = Some l2"
  shows "\<exists>live' tt'. clone_inv lo parent child asp ex s0 live0 tt0 (P \<union> row2 i 512) (clone_l2 child l2 i s) live' tt' \<and>
    tabs_kept (insert child asp) s (clone_l2 child l2 i s)"
proof -
  define I where "I n t \<longleftrightarrow> (\<exists>live' tt'. clone_inv lo parent child asp ex s0 live0 tt0 (P \<union> row2 i n) t live' tt') \<and>
    tabs_kept (insert child asp) s t" for n t
  have "I 512 (fold (\<lambda>l2i s. if \<not> pte_valid (mem s l2 l2i) then s
      else clone_l3 child (mem s l2 l2i AND PA_MASK) i l2i s) [0..<512] s)"
  proof (rule fold_upt_inv)
    show "I 0 s" using inv by (auto simp: I_def tabs_kept_def)
  next
    fix n t assume n: "n < 512" and "I n t"
    then obtain live1 tt1 where c: "clone_inv lo parent child asp ex s0 live0 tt0 (P \<union> row2 i n) t live1 tt1"
      and k: "tabs_kept (insert child asp) s t" by (auto simp: I_def)
    have tb: "tab_at (mem t) (as_l0 t parent) [1, i] = Some l2"
      by (rule tabs_keptD [OF k _ _ _ _ tab]) (use pre i in \<open>auto simp: clone_pre_def\<close>)
    have sub: "P \<union> row2 i n \<subseteq> {p \<in> paths. hd p = 1}" using P i n by (auto simp: row2_def row3_def paths_def)
    have dis: "(P \<union> row2 i n) \<inter> row3 i n 512 = {}"
      using P(2) n by (auto simp: row2_def row3_def)
    show "I (Suc n) (if \<not> pte_valid (mem t l2 n) then t else clone_l3 child (mem t l2 n AND PA_MASK) i n t)"
    proof (cases "pte_valid (mem t l2 n)")
      case False
      have "q \<in> paths \<and> q \<notin> P \<union> row2 i n \<and> as_ent t parent q = 0" if "q \<in> row3 i n 512" for q
      proof -
        from that obtain l where q: "q = [1, i] @ n # [l]" "l < 512" by (auto simp: row3_def)
        have "as_ent t parent q = 0" unfolding q(1) by (rule subtree_empty [OF tb False])
        then show ?thesis using that dis q i n by (auto simp: paths_def)
      qed
      from clone_inv_empty [OF c this] show ?thesis
        using k False unfolding I_def rows_Suc Un_assoc [symmetric] by auto
    next
      case True
      have "tab_at (mem t) (as_l0 t parent) [1, i, n] = Some (mem t l2 n AND PA_MASK)"
        using tb True by (auto split: if_splits)
      from clone_l3_spec [OF pre c sub dis i n this] show ?thesis
        using True tabs_kept_trans [OF k] unfolding I_def rows_Suc Un_assoc [symmetric] by auto
    qed
  qed
  then show ?thesis unfolding clone_l2_def I_def by blast
qed

lemma clone_l1_spec:
  assumes pre: "clone_pre lo parent child asp ex s0 live0"
    and inv: "clone_inv lo parent child asp ex s0 live0 tt0 {} s live tt"
    and tab: "tab_at (mem s) (as_l0 s parent) [1] = Some l1"
  shows "\<exists>live' tt'. clone_inv lo parent child asp ex s0 live0 tt0 (row1 512) (clone_l1 child l1 s) live' tt'"
proof -
  define I where "I n t \<longleftrightarrow> (\<exists>live' tt'. clone_inv lo parent child asp ex s0 live0 tt0 (row1 n) t live' tt') \<and>
    tabs_kept (insert child asp) s t" for n t
  have "I 512 (fold (\<lambda>l1i s. if \<not> pte_valid (mem s l1 l1i) then s
      else clone_l2 child (mem s l1 l1i AND PA_MASK) l1i s) [0..<512] s)"
  proof (rule fold_upt_inv)
    show "I 0 s" using inv by (auto simp: I_def tabs_kept_def)
  next
    fix n t assume n: "n < 512" and "I n t"
    then obtain live1 tt1 where c: "clone_inv lo parent child asp ex s0 live0 tt0 (row1 n) t live1 tt1"
      and k: "tabs_kept (insert child asp) s t" by (auto simp: I_def)
    have tb: "tab_at (mem t) (as_l0 t parent) [1] = Some l1"
      by (rule tabs_keptD [OF k _ _ _ _ tab]) (use pre in \<open>auto simp: clone_pre_def\<close>)
    have sub: "row1 n \<subseteq> {p \<in> paths. hd p = 1}" using n by (auto simp: row1_def row2_def row3_def paths_def)
    have dis: "row1 n \<inter> row2 n 512 = {}" by (auto simp: row1_def row2_def row3_def)
    show "I (Suc n) (if \<not> pte_valid (mem t l1 n) then t else clone_l2 child (mem t l1 n AND PA_MASK) n t)"
    proof (cases "pte_valid (mem t l1 n)")
      case False
      have "q \<in> paths \<and> q \<notin> row1 n \<and> as_ent t parent q = 0" if "q \<in> row2 n 512" for q
      proof -
        from that obtain j l where q: "q = [1] @ n # [j, l]" "j < 512" "l < 512" by (auto simp: row2_def row3_def)
        have "as_ent t parent q = 0" unfolding q(1) by (rule subtree_empty [OF tb False])
        then show ?thesis using that dis q n by (auto simp: paths_def)
      qed
      from clone_inv_empty [OF c this] show ?thesis using k False unfolding I_def rows_Suc by auto
    next
      case True
      have "tab_at (mem t) (as_l0 t parent) [1, n] = Some (mem t l1 n AND PA_MASK)"
        using tb True by (auto split: if_splits)
      from clone_l2_spec [OF pre c sub dis n this] show ?thesis
        using True tabs_kept_trans [OF k] unfolding I_def rows_Suc by auto
    qed
  qed
  then show ?thesis unfolding clone_l1_def I_def by blast
qed


subsection \<open>The clone\<close>

lemma asid_alloc_frame:
  assumes "asid_alloc s = (v, s')"
  shows "mem s' = mem s" "bump s' = bump s" "free_list s' = free_list s" "page_ref s' = page_ref s"
  using assms by (auto simp: asid_alloc_def flush_all_tlb_def Let_def split: if_splits)

lemma clone_start:
  assumes inv: "vm_inv lo s live tt asp" and room: "2 \<le> room lo live"
    and a1: "pmm_alloc s = (child, s1)" and a2: "as_alloc_l0 s1 = (l0, s2)"
    and s3: "s3 = store child 4 y4 (store child 3 y3 (store child 2 y2 (store child 0 l0 s2)))"
    and a3: "asid_alloc s3 = (v, s4)"
  defines "t \<equiv> set_asid child v s4"
  shows "child \<notin> live" "l0 \<notin> live" "child \<noteq> l0" "\<And>p. p \<in> live \<Longrightarrow> mem t p = mem s p" "mem t child 0 = l0"
    "\<And>i. 0 < i \<Longrightarrow> i < 512 \<Longrightarrow> mem t l0 i = 0" "pmm_inv lo t (insert l0 (insert child live))" "page_ref t = page_ref s"
    "mem t child 2 = y2" "mem t child 3 = y3" "mem t child 4 = y4"
    "room lo (insert l0 (insert child live)) = room lo live - 2"
proof -
  have pi: "pmm_inv lo s live" using inv by (simp add: vm_inv_def)
  have r1: "0 < room lo live" using room by simp
  note p1 = pmm_alloc_room [OF pi r1 a1]
  obtain s1' where b: "pmm_alloc s1 = (l0, s1')"
    "s2 = store l0 0 (mmu_kernel_l0_entry (zero_page l0 s1')) (zero_page l0 s1')"
    using a2 by (auto simp: as_alloc_l0_def alloc_table_def split: prod.splits)
  have r2: "0 < room lo (insert child live)" using p1(8) room by simp
  note p2 = pmm_alloc_room [OF p1(3) r2 b(1)]
  note af = asid_alloc_frame [OF a3]
  show ne: "child \<notin> live" "l0 \<notin> live" "child \<noteq> l0" using p1(2) p2(2) by auto
  show "mem t p = mem s p" if "p \<in> live" for p
    using that ne af p1(4) p2(4) by (auto simp: t_def set_asid_def s3 b(2) zero_page_def)
  show "mem t child 0 = l0" "mem t child 2 = y2" "mem t child 3 = y3" "mem t child 4 = y4"
    using af by (simp_all add: t_def set_asid_def s3)
  show "mem t l0 i = 0" if "0 < i" "i < 512" for i
    using that ne af by (auto simp: t_def set_asid_def s3 b(2) zero_page_def)
  have "pmm_inv lo (zero_page l0 s1') (insert l0 (insert child live))"
    by (rule pmm_inv_cong [OF _ _ _ p2(3)]) (auto simp: zero_page_def)
  then have "pmm_inv lo s2 (insert l0 (insert child live))" unfolding b(2) by (rule pmm_inv_store) simp
  then have "pmm_inv lo s3 (insert l0 (insert child live))" unfolding s3 by (intro pmm_inv_store) simp_all
  then have "pmm_inv lo s4 (insert l0 (insert child live))" using af by (simp add: pmm_inv_def)
  then show "pmm_inv lo t (insert l0 (insert child live))" unfolding t_def set_asid_def by (rule pmm_inv_store) simp
  show "page_ref t = page_ref s"
    using same_rest_alloc [OF a1] same_rest_alloc [OF b(1)] af
    by (simp add: t_def set_asid_def s3 b(2) zero_page_def same_rest_def store_def)
  show "room lo (insert l0 (insert child live)) = room lo live - 2" using p1(8) p2(8) by simp
qed

text \<open>
  C2. Fork shares memory copy on write. With room for the child's tables, \<open>as_clone\<close> returns a new
  address space that maps, at every user address of its region, exactly what the parent now maps
  there; private writable pages have become read-only and copy on write in both, shared pages and
  read-only pages are untouched, no other address space and no page of data changes, the heap
  bounds are inherited, and the types and all reference counts stay right.
\<close>

theorem fork_shares:
  assumes inv: "vm_inv lo s live tt asp" and ref: "ref_ok s live asp ex" and lo: "RAM_BASE \<le> lo"
    and par: "parent \<in> asp"
    and room: "2 + 3 * card {p \<in> paths. hd p = 1 \<and> as_ent s parent p \<noteq> 0} \<le> room lo live"
    and small: "\<And>pa. pa \<in> frames RAM_BASE RAM_TOP \<Longrightarrow> 2 * unat (page_ref s (pidx pa)) < 65536"
  shows "\<exists>child s' live' tt'. as_clone parent s = (child, s') \<and> child \<notin> live \<and>
    vm_inv lo s' live' tt' (insert child asp) \<and> ref_ok s' live' (insert child asp) ex \<and>
    (\<forall>w. idx 39 w = 1 \<longrightarrow> as_entry s' child w = as_entry s' parent w \<and> as_entry s' parent w = cow_of (as_entry s parent w)) \<and>
    (\<forall>w. idx 39 w \<noteq> 0 \<and> idx 39 w \<noteq> 1 \<longrightarrow> as_entry s' child w = 0 \<and> as_entry s' parent w = as_entry s parent w) \<and>
    (\<forall>b \<in> asp - {parent}. \<forall>w. idx 39 w \<noteq> 0 \<longrightarrow> as_entry s' b w = as_entry s b w) \<and>
    (\<forall>q \<in> live - dom tt. mem s' q = mem s q) \<and>
    as_heap_end s' child = as_heap_end s parent \<and> as_mmap_next s' child = as_mmap_next s parent"
proof -
  have ty: "vm_typed s live tt asp" and dt: "dom tt \<subseteq> live" and al: "asp \<subseteq> live" using inv by (simp_all add: vm_inv_def)
  obtain child s1 where a1: "pmm_alloc s = (child, s1)" by fastforce
  obtain l0 s2 where a2: "as_alloc_l0 s1 = (l0, s2)" by fastforce
  define s3 where "s3 = store child 4 (mem s parent 4) (store child 3 (mem s parent 3) (store child 2 (mem s parent 2) (store child 0 l0 s2)))"
  obtain v s4 where a3: "asid_alloc s3 = (v, s4)" by fastforce
  define t where "t = set_asid child v s4"
  have r2: "2 \<le> room lo live" using room by simp
  note cs = clone_start [OF inv r2 a1 a2 s3_def a3, folded t_def]
  have pl: "parent \<in> live" "parent \<noteq> child" using par al cs(1) by auto
  define live0 where "live0 = insert l0 (insert child live)"
  define tt0 where "tt0 = tt(l0 \<mapsto> (child, []))"
  have k: "\<forall>p \<in> live. mem t p = mem s p" "\<forall>i. 0 < i \<and> i < 512 \<longrightarrow> mem t l0 i = 0" using cs(4,6) by blast+
  note ad = adopt [OF inv k(1) cs(1,2,3,5) k(2) cs(7), folded live0_def tt0_def]
  have cn: "child \<notin> asp" using cs(1) al by auto
  have ents: "as_ent t b q = as_ent s b q" if "b \<in> asp" "q \<in> paths" for b q using ad(2) [OF that] by simp
  have ref0: "ref_ok t live0 (insert child asp) ex"
  proof -
    have "maps t (insert child asp) pa = maps s asp pa" for pa
      using ents ad(3) cn by (auto simp: maps_def)
    then show ?thesis using ref cs(8) by (auto simp: ref_ok_def live0_def)
  qed
  have M: "{p \<in> paths. hd p = 1 \<and> as_ent t parent p \<noteq> 0} = {p \<in> paths. hd p = 1 \<and> as_ent s parent p \<noteq> 0}"
    using ents par by auto
  have pre: "clone_pre lo parent child asp ex t live0"
    unfolding clone_pre_def M using lo ref0 par cn small room cs(8,12) by (auto simp: live0_def)
  have c0: "clone_inv lo parent child asp ex t live0 tt0 {} t live0 tt0"
    unfolding clone_inv_def using ad ref0 by auto
  have mp: "mem t parent = mem s parent" using cs(4) pl by simp
  have lp: "as_l0 t parent = as_l0 s parent" "as_l0 t parent \<in> live" "as_l0 t parent \<noteq> child"
    using mp typed_root [OF ty par] dt cs(1) by (auto simp: as_l0_def)
  define e1 where "e1 = mem t (as_l0 t parent) 1"
  define u where "u = (if pte_valid e1 then clone_l1 child (e1 AND PA_MASK) t else t)"
  have pst: "mem s2 parent = mem s parent" "mem (store child 0 l0 s2) parent = mem s parent"
  proof -
    obtain s1' where b: "pmm_alloc s1 = (l0, s1')"
      "s2 = store l0 0 (mmu_kernel_l0_entry (zero_page l0 s1')) (zero_page l0 s1')"
      using a2 by (auto simp: as_alloc_l0_def alloc_table_def split: prod.splits)
    have pi: "pmm_inv lo s live" using inv by (simp add: vm_inv_def)
    have r1: "0 < room lo live" using r2 by simp
    note p1 = pmm_alloc_room [OF pi r1 a1]
    have "0 < room lo (insert child live)" using p1(8) r2 by simp
    note p2 = pmm_alloc_room [OF p1(3) this b(1)]
    show "mem s2 parent = mem s parent" using p1(4) p2(4) b(2) pl cs(2) by (auto simp: zero_page_def)
    then show "mem (store child 0 l0 s2) parent = mem s parent" using pl by simp
  qed
  have run: "as_clone parent s = (child, flush_tlb_asid (as_asid u parent) u)"
    unfolding as_clone_def a1 prod.case a2 Let_def as_heap_base_def as_heap_end_def as_mmap_next_def
    using pst pl(2) a3 by (simp add: s3_def [symmetric] t_def [symmetric] u_def e1_def)
  have "\<exists>live' tt'. clone_inv lo parent child asp ex t live0 tt0 (row1 512) u live' tt'"
  proof (cases "pte_valid e1")
    case True
    then have "tab_at (mem t) (as_l0 t parent) [1] = Some (e1 AND PA_MASK)" by (simp add: e1_def)
    from clone_l1_spec [OF pre c0 this] show ?thesis using True by (simp add: u_def)
  next
    case False
    have "q \<in> paths \<and> q \<notin> {} \<and> as_ent t parent q = 0" if "q \<in> row1 512" for q
    proof -
      from that obtain i j l where q: "q = [] @ 1 # [i, j, l]" by (auto simp: row1_def row2_def row3_def)
      have "as_ent t parent q = 0" unfolding q by (rule subtree_empty) (use False in \<open>auto simp: e1_def\<close>)
      then show ?thesis using that row1_all by auto
    qed
    from clone_inv_empty [OF c0 this] show ?thesis using False unfolding u_def by auto
  qed
  then obtain live' tt' where c: "clone_inv lo parent child asp ex t live0 tt0 (row1 512) u live' tt'" by blast
  have ue: "as_ent u parent q = (if hd q = 1 then cow_of (as_ent s parent q) else as_ent s parent q)"
    "as_ent u child q = (if hd q = 1 then cow_of (as_ent s parent q) else 0)"
    "b \<in> asp - {parent} \<Longrightarrow> as_ent u b q = as_ent s b q" if q: "q \<in> paths" for b q
    using c q ents [OF par q] ents [of b q] unfolding clone_inv_def row1_all by auto
  have mu: "mem u q = mem t q" if "q \<in> live0 - dom tt0" for q using c that by (simp add: clone_inv_def)
  have cm: "mem u child = mem t child"
    by (rule mu) (use cs(1,3) dt in \<open>auto simp: live0_def tt0_def\<close>)
  have data: "mem u q = mem s q" if "q \<in> live - dom tt" for q
  proof -
    have "q \<in> live0 - dom tt0" using that cs(2) by (auto simp: live0_def tt0_def)
    then show ?thesis using mu cs(4) that by simp
  qed
  have hd: "hd (upath w) = idx 39 w" for w by simp
  show ?thesis
  proof (rule exI [of _ child], rule exI [of _ "flush_tlb_asid (as_asid u parent) u"], rule exI [of _ live'],
      rule exI [of _ tt'], intro conjI, unfold flush_simps)
    show "as_clone parent s = (child, flush_tlb_asid (as_asid u parent) u)" by (rule run)
    show "child \<notin> live" by (rule cs(1))
    show "vm_inv lo u live' tt' (insert child asp)" "ref_ok u live' (insert child asp) ex"
      using c by (simp_all add: clone_inv_def)
    show "\<forall>w. idx 39 w = 1 \<longrightarrow> as_entry u child w = as_entry u parent w \<and> as_entry u parent w = cow_of (as_entry s parent w)"
      using ue(1,2) [OF upath_paths] unfolding as_entry_ent hd by simp
    show "\<forall>w. idx 39 w \<noteq> 0 \<and> idx 39 w \<noteq> 1 \<longrightarrow> as_entry u child w = 0 \<and> as_entry u parent w = as_entry s parent w"
      using ue(1,2) [OF upath_paths] unfolding as_entry_ent hd by simp
    show "\<forall>b \<in> asp - {parent}. \<forall>w. idx 39 w \<noteq> 0 \<longrightarrow> as_entry u b w = as_entry s b w"
      using ue(3) [OF upath_paths] unfolding as_entry_ent by blast
    show "\<forall>q \<in> live - dom tt. mem u q = mem s q" using data by blast
  qed (use cm cs(10,11) in \<open>simp_all add: as_heap_end_def as_mmap_next_def flush_tlb_asid_def\<close>)
qed


subsection \<open>Limits of the code\<close>

text \<open>Out of memory, a table is "allocated" at address 0 and the page there is cleared.\<close>

lemma alloc_table_oom: "pmm_alloc s = (0, s) \<Longrightarrow> alloc_table s = (0, zero_page 0 s)"
  by (simp add: alloc_table_def)

text \<open>When all identifiers were handed out, the next one is 1 again, in use or not.\<close>

lemma asid_rollover: "asid_free_n s = 0 \<Longrightarrow> next_asid s = 0x10000 \<Longrightarrow> fst (asid_alloc s) = 1"
  by (simp add: asid_alloc_def ASID_MAX_def flush_all_tlb_def)

text \<open>The 16-bit count of a page wraps: one more reference to a page with 65535 of them makes it free.\<close>

lemma page_ref_wraps:
  assumes "RAM_BASE \<le> pa" "pa < RAM_TOP" "page_ref s (pidx pa) = 0xFFFF"
  shows "page_refcount pa (page_incref pa s) = 0"
  using assms by (auto simp: page_refcount_def page_incref_def)

text \<open>A writable page that may be executed loses that right by the fork, in both processes.\<close>

lemma fork_drops_exec: "e \<noteq> 0 \<Longrightarrow> e AND PTE_SHARED = 0 \<Longrightarrow> e AND 0xC0 = AP_RW_ALL \<Longrightarrow> cow_of e AND ATTR_UXN = ATTR_UXN"
proof -
  have "ro_cow AND ATTR_UXN = ATTR_UXN" "ATTR_UXN AND DESC_PAGE = 0" "PA_MASK AND ATTR_UXN = 0"
    by (simp_all add: ro_cow_def DESC_PAGE_def ATTR_AF_def ATTR_SH_INNER_def ATTR_IDX_NORMAL_def PA_MASK_def
        AP_RO_ALL_def ATTR_UXN_def ATTR_PXN_def ATTR_NG_def PTE_COW_def)
  then show "e \<noteq> 0 \<Longrightarrow> e AND PTE_SHARED = 0 \<Longrightarrow> e AND 0xC0 = AP_RW_ALL \<Longrightarrow> cow_of e AND ATTR_UXN = ATTR_UXN"
    by (simp add: cow_of_def bit.conj_disj_distrib2 and.assoc and.commute [of DESC_PAGE])
qed

text \<open>
  A heap that is shrunk and grown again maps new pages over the old ones, whose references are never
  dropped: \<open>as_sbrk\<close> takes no page back on the way down.
\<close>

lemma as_sbrk_shrink: "sint incr \<le> 0 \<Longrightarrow> as_sbrk a incr s = (as_heap_end s a, store a 3 (as_heap_end s a + incr) s)"
  by (simp add: as_sbrk_def Let_def)

end
