(* ===== verification/Vm_Example.thy ===== *)
theory Vm_Example
  imports Vm_Fork
begin

text \<open>
  A concrete machine for the properties of \<open>src/vm.c\<close>: one address space with an empty top-level
  table and one page of data, and the states that mapping the page leads to.
\<close>

definition vm0 :: vm where
  "vm0 = \<lparr>mem = (\<lambda>p i. if p = 0x40101000 \<and> i = 0 then 0x40102000
                        else if p = 0x40101000 \<and> i = 4 then USER_MMAP_BASE else 0),
          bump = 0x40104000, free_list = 0, page_ref = (\<lambda>i. 0), next_asid = 2, asid_free_list = replicate 256 0,
          asid_free_n = 0, l0_table = 0x40090000, tlb = [], ttbr0 = 0\<rparr>"

abbreviation lo0 :: u64 where "lo0 \<equiv> 0x40101000"
abbreviation as0 :: u64 where "as0 \<equiv> 0x40101000"
abbreviation data0 :: u64 where "data0 \<equiv> 0x40103000"

definition live0 :: "u64 set" where "live0 = {0x40103000, 0x40102000, 0x40101000}"
definition tt0 :: typing where "tt0 = [0x40102000 \<mapsto> (0x40101000, [])]"

lemma frames0: "frames lo0 0x40104000 = live0"
proof -
  have e: "frames lo0 lo0 = {}" by (auto simp: frames_def)
  have "frames lo0 0x40102000 = insert 0x40101000 {}"
    using frames_step(1) [of "0x40101000" lo0] e by (simp add: PAGE_SIZE_def RAM_END_def)
  then have "frames lo0 0x40103000 = insert 0x40102000 {0x40101000}"
    using frames_step(1) [of "0x40102000" lo0] by (simp add: PAGE_SIZE_def RAM_END_def)
  then show ?thesis
    using frames_step(1) [of "0x40103000" lo0] by (simp add: PAGE_SIZE_def RAM_END_def live0_def)
qed

lemma vm0_pmm: "pmm_inv lo0 vm0 live0"
  unfolding pmm_inv_def
  by (intro conjI exI [of _ "[]"]) (simp_all add: vm0_def frames0 RAM_END_def)

lemma vm0_inv: "vm_inv lo0 vm0 live0 tt0 {as0}"
  using vm0_pmm by (auto simp: vm_inv_def vm_typed_def tt0_def live0_def vm0_def as_l0_def split: if_splits)

lemma vm0_ent: "q \<in> paths \<Longrightarrow> as_ent vm0 as0 q = 0"
proof -
  assume q: "q \<in> paths"
  then have "length q = 4" by (simp add: paths_def)
  then obtain i j r where "q = i # j # r" by (cases q; cases "tl q") auto
  then show ?thesis by (simp add: as_ent_def as_l0_def vm0_def)
qed

lemma vm0_ref: "ref_ok vm0 live0 {as0} (\<lambda>p. 0)"
proof -
  have "maps vm0 {as0} pa = {}" for pa using vm0_ent by (auto simp: maps_def)
  then show ?thesis by (simp add: ref_ok_def vm0_def)
qed

lemma room_ge:
  assumes "\<And>i. i < n \<Longrightarrow> unat p + i * 4096 < 0x50000000" "4096 dvd unat p" "lo \<le> p" "live \<subseteq> frames lo p"
  shows "n \<le> room lo live"
proof -
  define f where "f i = p + of_nat i * 4096" for i
  have u: "unat (f i) = unat p + i * 4096" if "i < n" for i
    using assms(1) [OF that] by (simp add: f_def unat_word_ariths unat_of_nat)
  have "inj_on f {..<n}"
  proof (rule inj_onI)
    fix i j assume "i \<in> {..<n}" "j \<in> {..<n}" and e: "f i = f j"
    then have "unat p + i * 4096 = unat p + j * 4096" using u [of i] u [of j] by (metis lessThan_iff)
    then show "i = j" by simp
  qed
  moreover have "f ` {..<n} \<subseteq> frames lo RAM_END - live"
  proof
    fix x assume "x \<in> f ` {..<n}"
    then obtain i where i: "i < n" "x = f i" by auto
    have "p \<le> x" using u [OF i(1)] i(2) by (simp add: word_le_nat_alt)
    moreover have "x < RAM_END" using u [OF i(1)] i(2) assms(1) [OF i(1)] by (simp add: word_less_nat_alt RAM_END_def)
    moreover have "4096 dvd unat x" using u [OF i(1)] i(2) assms(2) by simp
    ultimately show "x \<in> frames lo RAM_END - live"
      using assms(3,4) by (auto simp: frames_def intro: order_trans)
  qed
  ultimately have "card {..<n} \<le> card (frames lo RAM_END - live)" by (intro card_inj_on_le) auto
  then show ?thesis by (simp add: room_def)
qed

lemma room0: "100 \<le> room lo0 live0"
  by (rule room_ge [of _ "0x40104000"]) (auto simp: frames0)

lemma ram0: "RAM_BASE \<le> lo0" by (simp add: RAM_BASE_def)

theorem mmap_fresh_witness:
  "\<exists>s' f. as_mmap as0 0x1001 vm0 = (USER_MMAP_BASE, s') \<and> as_mmap_next s' as0 = USER_MMAP_BASE + 0x2000 \<and>
     f 0 \<noteq> f 1 \<and> as_translate as0 USER_MMAP_BASE s' = f 0 \<and>
     as_translate as0 (USER_MMAP_BASE + 0x1000) s' = (f (1 :: nat) :: u64) \<and>
     as_is_writable as0 (USER_MMAP_BASE + 0x1000) s'"
proof -
  have len: "unat (0x1001 :: u64) = 0x1001" by simp
  have base: "as_mmap_next vm0 as0 = USER_MMAP_BASE" by (simp add: as_mmap_next_def vm0_def)
  have ub: "unat USER_MMAP_BASE = 0x8020000000" by (simp add: USER_MMAP_BASE_def)
  have "as_entry vm0 as0 (USER_MMAP_BASE + of_nat i * PAGE_SIZE) = 0" if "i < 2" for i
    unfolding as_entry_ent
    by (rule vm0_ent [OF upath_paths [OF idx_range [of _ 2]]]) (use that ub in simp_all)
  then obtain s' live' tt' f where m: "as_mmap as0 0x1001 vm0 = (USER_MMAP_BASE, s')"
    "as_mmap_next s' as0 = USER_MMAP_BASE + of_nat 2 * PAGE_SIZE" "inj_on f {..<2 :: nat}"
    "\<forall>i < 2. f i \<notin> live0 \<and> (\<forall>k < 512. mem s' (f i) k = 0) \<and>
       (let va = USER_MMAP_BASE + of_nat i * PAGE_SIZE
        in as_translate as0 va s' = f i OR (va AND 0xFFF) \<and> as_is_writable as0 va s')"
    using mmap_fresh [OF vm0_inv vm0_ref ram0, of as0 "0x1001" 2 USER_MMAP_BASE] room0 len base ub
    by fastforce
  have "f 0 \<noteq> f 1" using m(3) by (auto dest: inj_onD)
  moreover have "as_translate as0 USER_MMAP_BASE s' = f 0"
    using m(4) [rule_format, of 0] by (simp add: USER_MMAP_BASE_def)
  moreover have "as_translate as0 (USER_MMAP_BASE + 0x1000) s' = f 1 \<and> as_is_writable as0 (USER_MMAP_BASE + 0x1000) s'"
    using m(4) [rule_format, of 1] by (simp add: USER_MMAP_BASE_def PAGE_SIZE_def)
  ultimately show ?thesis using m(1,2) by (auto simp: PAGE_SIZE_def)
qed


subsection \<open>With a page mapped\<close>

text \<open>The page of data is mapped at one address, and then at a second one, with the given attributes.\<close>

lemma mapped_once:
  assumes ap: "attrs AND PA_MASK = 0"
  shows "\<exists>s :: vm. \<exists>live tt. vm_inv lo0 s live tt {as0} \<and> ref_ok s live {as0} (\<lambda>p. 0) \<and> live0 \<subseteq> live \<and> data0 \<notin> dom tt \<and>
    97 \<le> room lo0 live \<and>
    (\<forall>w. idx 39 w \<noteq> 0 \<longrightarrow> as_entry s as0 w = (if upath w = upath USER_HEAP_BASE then data0 OR attrs OR DESC_PAGE else 0))"
proof -
  have va: "idx 39 USER_HEAP_BASE \<noteq> 0" by (simp add: idx_def USER_HEAP_BASE_def)
  have none: "as_entry vm0 as0 w = 0" if "idx 39 w \<noteq> 0" for w
    unfolding as_entry_ent by (rule vm0_ent [OF upath_paths [OF that]])
  have pa: "data0 \<in> live0 - dom tt0 - {as0}" by (simp add: live0_def tt0_def)
  have r: "3 \<le> room lo0 live0" using room0 by simp
  have c: "unat (page_ref vm0 (pidx data0)) < 65535" by (simp add: vm0_def)
  define s where "s = page_incref data0 (map_page (as_l0 vm0 as0) USER_HEAP_BASE data0 attrs vm0)"
  obtain live' tt' where m: "vm_inv lo0 s live' tt' {as0}" "ref_ok s live' {as0} (\<lambda>p. 0)"
    "live0 \<subseteq> live'" "dom tt' \<subseteq> dom tt0 \<union> (live' - live0)" "room lo0 live0 \<le> room lo0 live' + 3"
    "\<forall>b \<in> {as0}. \<forall>w. idx 39 w \<noteq> 0 \<longrightarrow> as_entry s b w =
       (if b = as0 \<and> upath w = upath USER_HEAP_BASE then data0 OR attrs OR DESC_PAGE else as_entry vm0 b w)"
    using map_count_spec [OF vm0_inv vm0_ref ram0 insertI1 va r pa ap none [OF va] c, folded s_def] by blast
  have "data0 \<notin> dom tt'" using m(4) pa by (auto simp: live0_def)
  moreover have "97 \<le> room lo0 live'" using m(5) room0 by simp
  moreover have "\<forall>w. idx 39 w \<noteq> 0 \<longrightarrow> as_entry s as0 w =
      (if upath w = upath USER_HEAP_BASE then data0 OR attrs OR DESC_PAGE else 0)"
    using m(6) none by simp
  ultimately show ?thesis using m(1-3) by blast
qed

lemma mapped_twice:
  assumes ap: "attrs AND PA_MASK = 0"
  shows "\<exists>s :: vm. \<exists>live tt. vm_inv lo0 s live tt {as0} \<and> ref_ok s live {as0} (\<lambda>p. 0) \<and> 94 \<le> room lo0 live \<and>
    as_entry s as0 USER_HEAP_BASE = data0 OR attrs OR DESC_PAGE \<and>
    as_entry s as0 USER_MMAP_BASE = data0 OR attrs OR DESC_PAGE \<and> as_entry s as0 USER_CODE_VA = 0"
proof -
  obtain s :: vm and live tt where m: "vm_inv lo0 s live tt {as0}" "ref_ok s live {as0} (\<lambda>p. 0)" "live0 \<subseteq> live" "data0 \<notin> dom tt"
    "97 \<le> room lo0 live"
    "\<forall>w. idx 39 w \<noteq> 0 \<longrightarrow> as_entry s as0 w = (if upath w = upath USER_HEAP_BASE then data0 OR attrs OR DESC_PAGE else 0)"
    using mapped_once [OF ap] by blast
  have va: "idx 39 USER_MMAP_BASE \<noteq> 0" "idx 39 USER_HEAP_BASE \<noteq> 0" "idx 39 USER_CODE_VA \<noteq> 0"
    by (simp_all add: idx_def USER_MMAP_BASE_def USER_HEAP_BASE_def USER_CODE_VA_def)
  have ne: "upath USER_MMAP_BASE \<noteq> upath USER_HEAP_BASE" "upath USER_CODE_VA \<noteq> upath USER_HEAP_BASE"
    "upath USER_CODE_VA \<noteq> upath USER_MMAP_BASE"
    by (simp_all add: upath_def idx_def USER_MMAP_BASE_def USER_HEAP_BASE_def USER_CODE_VA_def)
  have pa: "data0 \<in> live - dom tt - {as0}" using m(3,4) by (auto simp: live0_def)
  have r: "3 \<le> room lo0 live" using m(5) by simp
  have none: "as_entry s as0 USER_MMAP_BASE = 0" using m(6) va ne by simp
  have c: "unat (page_ref s (pidx data0)) < 65535"
  proof -
    have "maps s {as0} data0 \<subseteq> {(as0, upath USER_HEAP_BASE)}"
    proof
      fix x assume "x \<in> maps s {as0} data0"
      then obtain q where q: "x = (as0, q)" "q \<in> paths" "as_ent s as0 q \<noteq> 0" by (auto simp: maps_def)
      obtain w where w: "upath w = q" "idx 39 w \<noteq> 0" using paths_mk_va [OF q(2)] by blast
      have "as_entry s as0 w \<noteq> 0" using q(3) w(1) by (simp add: as_entry_ent)
      then show "x \<in> {(as0, upath USER_HEAP_BASE)}" using m(6) w q(1) by (auto split: if_splits)
    qed
    then have "card (maps s {as0} data0) \<le> card {(as0, upath USER_HEAP_BASE)}" by (rule card_mono [rotated]) simp
    moreover have "data0 \<in> frames RAM_BASE RAM_TOP" by (simp add: frames_def RAM_BASE_def RAM_TOP_def)
    ultimately show ?thesis using m(2) by (simp add: ref_ok_def)
  qed
  define t where "t = page_incref data0 (map_page (as_l0 s as0) USER_MMAP_BASE data0 attrs s)"
  obtain live' tt' where n: "vm_inv lo0 t live' tt' {as0}" "ref_ok t live' {as0} (\<lambda>p. 0)"
    "room lo0 live \<le> room lo0 live' + 3"
    "\<forall>b \<in> {as0}. \<forall>w. idx 39 w \<noteq> 0 \<longrightarrow> as_entry t b w =
       (if b = as0 \<and> upath w = upath USER_MMAP_BASE then data0 OR attrs OR DESC_PAGE else as_entry s b w)"
    using map_count_spec [OF m(1,2) ram0 insertI1 va(1) r pa ap none c, folded t_def] by blast
  have "as_entry t as0 w = (if upath w = upath USER_MMAP_BASE then data0 OR attrs OR DESC_PAGE else as_entry s as0 w)"
    if "idx 39 w \<noteq> 0" for w using n(4) that by simp
  moreover have "94 \<le> room lo0 live'" using n(3) m(5) by simp
  ultimately show ?thesis using n(1,2) m(6) va ne by metis
qed

lemma cow_attr: "(data0 OR ro_cow OR DESC_PAGE) AND PTE_COW \<noteq> 0" "(data0 OR ro_cow OR DESC_PAGE) AND PA_MASK = data0"
  "data0 OR ro_cow OR DESC_PAGE \<noteq> 0" "cow_of (data0 OR rw_attr OR DESC_PAGE) = data0 OR ro_cow OR DESC_PAGE"
  by (simp_all add: ro_cow_def rw_attr_def cow_of_def DESC_PAGE_def ATTR_AF_def ATTR_SH_INNER_def ATTR_IDX_NORMAL_def
      AP_RW_ALL_def AP_RO_ALL_def ATTR_UXN_def ATTR_PXN_def ATTR_NG_def PTE_COW_def PTE_SHARED_def PA_MASK_def)

theorem cow_exclusive_witness:
  "\<exists>(s :: vm) s' p. as_entry s as0 USER_HEAP_BASE = as_entry s as0 USER_MMAP_BASE \<and>
     cow_fault as0 USER_CODE_VA s = Some (False, s) \<and>
     cow_fault as0 USER_HEAP_BASE s = Some (True, s') \<and> as_entry s' as0 USER_HEAP_BASE = p OR rw_attr OR DESC_PAGE \<and>
     as_entry s' as0 USER_MMAP_BASE = data0 OR ro_cow OR DESC_PAGE \<and> p \<noteq> data0 \<and>
     (\<forall>k < 512. mem (s' :: vm) p k = mem s data0 k)"
proof -
  obtain s :: vm and live tt where s: "vm_inv lo0 s live tt {as0}" "ref_ok s live {as0} (\<lambda>p. 0)" "94 \<le> room lo0 live"
    "as_entry s as0 USER_HEAP_BASE = data0 OR ro_cow OR DESC_PAGE"
    "as_entry s as0 USER_MMAP_BASE = data0 OR ro_cow OR DESC_PAGE" "as_entry s as0 USER_CODE_VA = 0"
    using mapped_twice [OF attr_pa(3)] by blast
  have va: "idx 39 USER_MMAP_BASE \<noteq> 0" "idx 39 USER_HEAP_BASE \<noteq> 0" "idx 39 USER_CODE_VA \<noteq> 0"
    by (simp_all add: idx_def USER_MMAP_BASE_def USER_HEAP_BASE_def USER_CODE_VA_def)
  have ne: "(as0, upath USER_MMAP_BASE) \<noteq> (as0, upath USER_HEAP_BASE)"
    by (simp add: upath_def idx_def USER_MMAP_BASE_def USER_HEAP_BASE_def)
  have r: "0 < room lo0 live" using s(3) by simp
  have c: "cow_fault as0 USER_CODE_VA s = Some (False, s)"
    using cow_exclusive [OF s(1,2) ram0 insertI1 va(3) r, THEN conjunct1] s(6) by blast
  obtain s' live' p where m: "cow_fault as0 USER_HEAP_BASE s = Some (True, s')"
    "as_entry s' as0 USER_HEAP_BASE = p OR rw_attr OR DESC_PAGE"
    "\<forall>k < 512. mem s' p k = mem s (as_entry s as0 USER_HEAP_BASE AND PA_MASK) k"
    "\<forall>b \<in> {as0}. \<forall>w. idx 39 w \<noteq> 0 \<and> (b, upath w) \<noteq> (as0, upath USER_HEAP_BASE) \<longrightarrow>
       as_entry s' b w = as_entry s b w \<and> (as_entry s' b w \<noteq> 0 \<longrightarrow> as_entry s' b w AND PA_MASK \<noteq> p)"
    using cow_exclusive [OF s(1,2) ram0 insertI1 va(2) r, THEN conjunct2] s(4) cow_attr(1,3) by metis
  from m(4) [rule_format, OF insertI1 conjI [OF va(1) ne]]
  have o: "as_entry s' as0 USER_MMAP_BASE = data0 OR ro_cow OR DESC_PAGE" "data0 \<noteq> p"
    unfolding s(5) using cow_attr(2,3) by auto
  have k: "\<forall>k < 512. mem s' p k = mem s data0 k" using m(3) unfolding s(4) cow_attr(2) .
  show ?thesis using s(4,5) c m(1,2) o k by metis
qed

theorem fork_shares_witness:
  "\<exists>(s :: vm) child s'. as_entry s as0 USER_HEAP_BASE = data0 OR rw_attr OR DESC_PAGE \<and> as_clone as0 s = (child, s') \<and>
     child \<noteq> as0 \<and> as_entry (s' :: vm) child USER_HEAP_BASE = data0 OR ro_cow OR DESC_PAGE \<and>
     as_entry s' as0 USER_HEAP_BASE = data0 OR ro_cow OR DESC_PAGE"
proof -
  obtain s :: vm and live tt where s: "vm_inv lo0 s live tt {as0}" "ref_ok s live {as0} (\<lambda>p. 0)" "live0 \<subseteq> live" "97 \<le> room lo0 live"
    "\<forall>w. idx 39 w \<noteq> 0 \<longrightarrow> as_entry s as0 w = (if upath w = upath USER_HEAP_BASE then data0 OR rw_attr OR DESC_PAGE else 0)"
    using mapped_once [OF attr_pa(1)] by blast
  have va: "idx 39 USER_HEAP_BASE = 1" by (simp add: idx_def USER_HEAP_BASE_def)
  have only: "q = upath USER_HEAP_BASE" if q: "q \<in> paths" "as_ent s as0 q \<noteq> 0" for q
  proof -
    obtain w where w: "upath w = q" "idx 39 w \<noteq> 0" using paths_mk_va [OF q(1)] by blast
    have "as_entry s as0 w \<noteq> 0" using q(2) w(1) by (simp add: as_entry_ent)
    then show ?thesis using s(5) w by (auto split: if_splits)
  qed
  have "card {q \<in> paths. hd q = 1 \<and> as_ent s as0 q \<noteq> 0} \<le> card {upath USER_HEAP_BASE}"
    by (rule card_mono) (use only in auto)
  then have r: "2 + 3 * card {q \<in> paths. hd q = 1 \<and> as_ent s as0 q \<noteq> 0} \<le> room lo0 live" using s(4) by simp
  have small: "2 * unat (page_ref s (pidx pa)) < 65536" if "pa \<in> frames RAM_BASE RAM_TOP" for pa
  proof -
    have "card (maps s {as0} pa) \<le> card {(as0, upath USER_HEAP_BASE)}"
      by (rule card_mono) (use only in \<open>auto simp: maps_def\<close>)
    then show ?thesis using s(2) that by (simp add: ref_ok_def)
  qed
  have e: "as_entry s as0 USER_HEAP_BASE = data0 OR rw_attr OR DESC_PAGE" using s(5) va by simp
  obtain child s' where m: "as_clone as0 s = (child, s')" "child \<notin> live"
    "\<forall>w. idx 39 w = 1 \<longrightarrow> as_entry s' child w = as_entry s' as0 w \<and> as_entry s' as0 w = cow_of (as_entry s as0 w)"
    using fork_shares [OF s(1,2) ram0 insertI1 r small] by blast
  have "child \<noteq> as0" using m(2) s(3) by (auto simp: live0_def)
  moreover have "as_entry s' as0 USER_HEAP_BASE = data0 OR ro_cow OR DESC_PAGE"
    using m(3) va unfolding e [symmetric] cow_attr(4) [symmetric] by simp
  ultimately show ?thesis using m(1,3) va e by metis
qed

end
