(* ===== verification/Shm.thy ===== *)
theory Shm
  imports Vm
begin

text \<open>
  Shared-memory objects, \<open>src/shm.c\<close>: a table of objects that own zeroed pages, each with a
  reference of its own, and their mapping into an address space.
\<close>

definition SHM_MAX :: nat where "SHM_MAX = 16"
definition SHM_PAGES_MAX :: u64 where "SHM_PAGES_MAX = 1024"

record shm_obj =
  shm_used :: bool
  shm_npages :: u64
  shm_pa :: "u64 list"

record shm_state = vm +
  shms :: "shm_obj list"

definition shm_init :: "'a shm_state_scheme \<Rightarrow> 'a shm_state_scheme" where
  "shm_init s = s\<lparr>shms := map (\<lambda>i. (shms s ! i)\<lparr>shm_used := False\<rparr>) [0..<SHM_MAX]\<rparr>"

text \<open>The scan for a free slot.\<close>

fun shm_slot :: "shm_obj list \<Rightarrow> nat \<Rightarrow> nat option" where
  "shm_slot [] i = None"
| "shm_slot (x # xs) i = (if shm_used x then shm_slot xs (i + 1) else Some i)"

definition shm_page :: "nat \<Rightarrow> nat \<Rightarrow> 'a shm_state_scheme \<Rightarrow> 'a shm_state_scheme" where
  "shm_page i p s =
    (case pmm_alloc s of (pa, s) \<Rightarrow>
      let s = zero_page pa s;
          s = s\<lparr>shms := (shms s)[i := (shms s ! i)\<lparr>shm_pa := (shm_pa (shms s ! i))[p := pa]\<rparr>]\<rparr>
      in page_incref pa s)"

definition shm_create :: "u64 \<Rightarrow> 'a shm_state_scheme \<Rightarrow> int \<times> 'a shm_state_scheme" where
  "shm_create len s =
    (let pages = (len + 4095) div 4096 in
     if pages = 0 \<or> pages > SHM_PAGES_MAX then (- 1, s)
     else case shm_slot (take SHM_MAX (shms s)) 0 of
       None \<Rightarrow> (- 1, s)
     | Some i \<Rightarrow>
        let s = s\<lparr>shms := (shms s)[i := (shms s ! i)\<lparr>shm_used := True, shm_npages := pages\<rparr>]\<rparr>
        in (int i, fold (shm_page i) [0..<unat pages] s))"

definition shm_map :: "u64 \<Rightarrow> int \<Rightarrow> 'a shm_state_scheme \<Rightarrow> u64 \<times> 'a shm_state_scheme" where
  "shm_map a handle s =
    (if handle < 0 \<or> handle \<ge> int SHM_MAX \<or> \<not> shm_used (shms s ! nat handle) then (0, s)
     else let ob = shms s ! nat handle
          in as_map_phys a (take (unat (shm_npages ob)) (shm_pa ob)) s)"

subsection \<open>Handles\<close>

lemma shm_slot_range: "shm_slot xs i = Some j \<Longrightarrow> i \<le> j \<and> j < i + length xs \<and> \<not> shm_used (xs ! (j - i))"
proof (induction xs arbitrary: i)
  case (Cons x xs)
  show ?case
  proof (cases "shm_used x")
    case True
    with Cons.prems have "shm_slot xs (i + 1) = Some j" by simp
    from Cons.IH [OF this] show ?thesis by (auto simp: nth_Cons')
  next
    case False
    with Cons.prems show ?thesis by simp
  qed
qed simp

lemma shm_page_frame: "length (shms (shm_page i p s)) = length (shms s)"
  "j \<noteq> i \<Longrightarrow> shms (shm_page i p s) ! j = shms s ! j"
  by (auto simp: shm_page_def page_incref_def zero_page_def pmm_alloc_def Let_def)

text \<open>A new handle is one that was free, and the other objects are untouched.\<close>

lemma shm_create_handle:
  assumes "shm_create len s = (h, s')" "h \<noteq> - 1" "length (shms s) = SHM_MAX"
  shows "0 \<le> h \<and> h < int SHM_MAX \<and> \<not> shm_used (shms s ! nat h) \<and> (\<forall>j. j \<noteq> nat h \<longrightarrow> shms s' ! j = shms s ! j)"
proof -
  obtain i where i: "shm_slot (take SHM_MAX (shms s)) 0 = Some i" "h = int i"
    "s' = fold (shm_page i) [0..<unat ((len + 4095) div 4096)]
       (s\<lparr>shms := (shms s)[i := (shms s ! i)\<lparr>shm_used := True, shm_npages := (len + 4095) div 4096\<rparr>]\<rparr>)"
    using assms(1,2) by (auto simp: shm_create_def Let_def split: if_splits option.splits)
  have "shms (fold (shm_page i) ps t) ! j = shms t ! j" if "j \<noteq> i" for j ps and t :: "'a shm_state_scheme"
    using that by (induction ps arbitrary: t) (simp_all add: shm_page_frame)
  then show ?thesis using shm_slot_range [OF i(1)] assms(3) i(2,3) by auto
qed

end
