(* ===== verification/Net_Dns.thy ===== *)
theory Net_Dns
  imports Net_Bytes
begin

text \<open>
  The resolver of \<open>src/netstack.c\<close> that needs no network: encoding a host name, building a query,
  parsing an answer and recognising a dotted quad. A C string is the list of its bytes before the
  NUL; a message is a byte list whose length is the \<open>len\<close> argument. Every read of a message that
  the code makes is bounds-checked in the model, with \<open>Oob\<close> as its outcome when it leaves the
  message, so that its absence can be proved. \<open>Fail\<close> is the return value -1.
\<close>

subsection \<open>Reading a message\<close>

datatype 'a parse = Oob | Fail | Val 'a

definition rd8 :: "u8 list \<Rightarrow> nat \<Rightarrow> (u8 \<Rightarrow> 'a parse) \<Rightarrow> 'a parse" where
  "rd8 p i k = (if i < length p then k (p ! i) else Oob)"

definition rd16 :: "u8 list \<Rightarrow> nat \<Rightarrow> (u16 \<Rightarrow> 'a parse) \<Rightarrow> 'a parse" where
  "rd16 p i k = (if i + 2 \<le> length p then k (get16 p i) else Oob)"

definition rd32 :: "u8 list \<Rightarrow> nat \<Rightarrow> (u32 \<Rightarrow> 'a parse) \<Rightarrow> 'a parse" where
  "rd32 p i k = (if i + 4 \<le> length p then k (get32 p i) else Oob)"

lemma rd_in [simp]:
  "i < length p \<Longrightarrow> rd8 p i k = k (p ! i)"
  "i + 2 \<le> length p \<Longrightarrow> rd16 p i k' = k' (get16 p i)"
  "i + 4 \<le> length p \<Longrightarrow> rd32 p i k'' = k'' (get32 p i)"
  by (simp_all add: rd8_def rd16_def rd32_def)

subsection \<open>Host names\<close>

abbreviation (input) dot :: u8 where "dot \<equiv> 46"

text \<open>\<open>w\<close> is the length of what was written; \<open>p\<close> is the rest of the name.\<close>

function dns_encode_from :: "nat \<Rightarrow> u8 list \<Rightarrow> u8 list \<Rightarrow> u8 list option" where
  "dns_encode_from cap out p =
     (if p = [] then if length out + 1 > cap then None else Some (out @ [0])
      else let start = takeWhile (\<lambda>c. c \<noteq> dot) p; p = dropWhile (\<lambda>c. c \<noteq> dot) p; label = length start in
        if label = 0 \<or> label > 63 then None
        else if length out + 1 + label \<ge> cap then None
        else dns_encode_from cap (out @ of_nat label # start) (case p of [] \<Rightarrow> [] | _ # q \<Rightarrow> q))"
  by pat_completeness auto
termination
proof (relation "measure (\<lambda>(cap, out, p). length p)")
  fix cap lb :: nat and out p x y :: "u8 list"
  assume a: "p \<noteq> []" "x = takeWhile (\<lambda>c. c \<noteq> dot) p" "y = dropWhile (\<lambda>c. c \<noteq> dot) p" "lb = length x"
    "\<not> (lb = 0 \<or> lb > 63)" "\<not> length out + 1 + lb \<ge> cap"
  have "length p = lb + length y" using a(2-4) by (metis length_append takeWhile_dropWhile_id)
  with a(5) show "((cap, out @ of_nat lb # x, case y of [] \<Rightarrow> [] | _ # q \<Rightarrow> q), cap, out, p)
      \<in> measure (\<lambda>(cap, out, p). length p)"
    by (cases y) auto
qed simp

declare dns_encode_from.simps [simp del]

definition dns_encode_name :: "nat \<Rightarrow> u8 list \<Rightarrow> u8 list option" where
  "dns_encode_name cap host = dns_encode_from cap [] host"

definition dns_build_query :: "u16 \<Rightarrow> u8 list \<Rightarrow> u8 list option" where
  "dns_build_query qid host =
     (case dns_encode_name (512 - 12 - 4) host of
        None \<Rightarrow> None
      | Some name \<Rightarrow> Some (put16 qid @ put16 0x0100 @ put16 1 @ put16 0 @ put16 0 @ put16 0 @ name @
          put16 1 @ put16 1))"

subsection \<open>Answers\<close>

text \<open>The only reads are guarded by \<open>o < len\<close>; \<open>None\<close> is -1. The loop runs over the message.\<close>

function dns_skip_name :: "u8 list \<Rightarrow> nat \<Rightarrow> nat option" where
  "dns_skip_name msg i =
     (if i < length msg then
        let b = msg ! i in
        if b AND 0xC0 = 0xC0 then Some (i + 2)
        else if b = 0 then Some (i + 1)
        else dns_skip_name msg (i + (1 + unat b))
      else None)"
  by pat_completeness auto
termination by (relation "measure (\<lambda>(msg, i). length msg - i)") auto

declare dns_skip_name.simps [simp del]

primrec dns_skip_questions :: "u8 list \<Rightarrow> nat \<Rightarrow> nat \<Rightarrow> nat parse" where
  "dns_skip_questions msg 0 i = Val i"
| "dns_skip_questions msg (Suc n) i =
     (case dns_skip_name msg i of
        None \<Rightarrow> Fail
      | Some i \<Rightarrow> if i + 4 > length msg then Fail else dns_skip_questions msg n (i + 4))"

primrec dns_scan_answers :: "u8 list \<Rightarrow> nat \<Rightarrow> nat \<Rightarrow> u32 parse" where
  "dns_scan_answers msg 0 i = Fail"
| "dns_scan_answers msg (Suc n) i =
     (case dns_skip_name msg i of
        None \<Rightarrow> Fail
      | Some i \<Rightarrow>
          if i + 10 > length msg then Fail
          else rd16 msg i (\<lambda>type. rd16 msg (i + 8) (\<lambda>rdlen.
            let i = i + 10 in
            if i + unat rdlen > length msg then Fail
            else if type = 1 \<and> rdlen = 4 then rd32 msg i Val
            else dns_scan_answers msg n (i + unat rdlen))))"

definition dns_parse_answer :: "u8 list \<Rightarrow> u16 \<Rightarrow> u32 parse" where
  "dns_parse_answer msg qid =
     (if length msg < 12 then Fail
      else rd16 msg 0 (\<lambda>i. if i \<noteq> qid then Fail
      else rd16 msg 2 (\<lambda>fl. if fl AND 0x000F \<noteq> 0 then Fail
      else rd16 msg 4 (\<lambda>qd. rd16 msg 6 (\<lambda>an.
        case dns_skip_questions msg (unat qd) 12 of
          Oob \<Rightarrow> Oob | Fail \<Rightarrow> Fail
        | Val i \<Rightarrow> dns_scan_answers msg (unat an) i)))))"

subsection \<open>Dotted quads\<close>

text \<open>The parser's variables: the parts so far, \<open>cur\<close> and \<open>digits\<close>. The NUL is the end of the list.\<close>

fun quad_from :: "u32 list \<Rightarrow> u32 \<Rightarrow> bool \<Rightarrow> u8 list \<Rightarrow> u32 list option" where
  "quad_from parts cur digits [] = (if \<not> digits \<or> length parts \<ge> 4 then None else Some (parts @ [cur]))"
| "quad_from parts cur digits (c # p) =
     (if c \<ge> 48 \<and> c \<le> 57 then
        let cur = cur * 10 + ucast (c - 48) in
        if cur > 255 then None else quad_from parts cur True p
      else if c = dot then
        if \<not> digits \<or> length parts \<ge> 4 then None else quad_from (parts @ [cur]) 0 False p
      else None)"

definition parse_dotted_quad :: "u8 list \<Rightarrow> u32 option" where
  "parse_dotted_quad s =
     (case quad_from [] 0 False s of
        None \<Rightarrow> None
      | Some parts \<Rightarrow> if length parts \<noteq> 4 then None
          else Some (push_bit 24 (parts ! 0) OR push_bit 16 (parts ! 1) OR push_bit 8 (parts ! 2) OR parts ! 3))"

subsection \<open>Names on the wire\<close>

text \<open>
  The reference: a name is a list of labels of 1 to 63 bytes without a dot, written with dots
  between them, and encoded with a length byte before each and a zero after the last.
\<close>

definition label_ok :: "u8 list \<Rightarrow> bool" where
  "label_ok l \<longleftrightarrow> 0 < length l \<and> length l \<le> 63 \<and> dot \<notin> set l"

fun dotted :: "u8 list list \<Rightarrow> u8 list" where
  "dotted [] = []"
| "dotted [l] = l"
| "dotted (l # ls) = l @ dot # dotted ls"

definition enc_label :: "u8 list \<Rightarrow> u8 list" where "enc_label l = of_nat (length l) # l"

definition enc_labels :: "u8 list list \<Rightarrow> u8 list" where "enc_labels ls = concat (map enc_label ls)"

lemma enc_labels_simps [simp]: "enc_labels [] = []" "enc_labels (l # ls) = enc_label l @ enc_labels ls"
  by (simp_all add: enc_labels_def)

lemma length_enc_label [simp]: "length (enc_label l) = Suc (length l)"
  by (simp add: enc_label_def)

lemma takeWhile_label:
  assumes "dot \<notin> set l"
  shows "takeWhile (\<lambda>c. c \<noteq> dot) l = l" "dropWhile (\<lambda>c. c \<noteq> dot) l = []"
    "takeWhile (\<lambda>c. c \<noteq> dot) (l @ dot # r) = l" "dropWhile (\<lambda>c. c \<noteq> dot) (l @ dot # r) = dot # r"
  using assms by (auto simp: takeWhile_eq_all_conv dropWhile_eq_Nil_conv takeWhile_append dropWhile_append)

lemma dns_encode_from_dotted:
  assumes "\<forall>l \<in> set ls. label_ok l"
  shows "dns_encode_from cap out (dotted ls) =
     (if length out + length (enc_labels ls) + 1 \<le> cap then Some (out @ enc_labels ls @ [0]) else None)"
  using assms
proof (induction ls arbitrary: out rule: dotted.induct)
  case (2 l)
  then have "l \<noteq> []" "length l \<le> 63" "dot \<notin> set l" by (auto simp: label_ok_def)
  then show ?case
    by (subst dns_encode_from.simps) (simp add: takeWhile_label enc_label_def dns_encode_from.simps [of _ _ "[]"])
next
  case (3 l m ls)
  then have l: "l \<noteq> []" "length l \<le> 63" "dot \<notin> set l" by (auto simp: label_ok_def)
  note IH = 3(1) [of "out @ of_nat (length l) # l"]
  show ?case
    using l 3(2) IH
    by (subst dns_encode_from.simps) (auto simp: takeWhile_label Let_def enc_label_def)
qed (simp add: dns_encode_from.simps)

lemma dns_encode_from_length: "dns_encode_from cap out p = Some bs \<Longrightarrow> length bs \<le> cap"
proof (induction cap out p rule: dns_encode_from.induct)
  case (1 cap out p)
  show ?case
  proof (cases "p = []")
    case True
    with 1(2) show ?thesis by (subst (asm) dns_encode_from.simps) (auto split: if_splits)
  next
    case False
    define st where "st = takeWhile (\<lambda>c. c \<noteq> dot) p"
    define rest where "rest = dropWhile (\<lambda>c. c \<noteq> dot) p"
    have e: "dns_encode_from cap out p = (if length st = 0 \<or> length st > 63 then None
        else if length out + 1 + length st \<ge> cap then None
        else dns_encode_from cap (out @ of_nat (length st) # st) (case rest of [] \<Rightarrow> [] | _ # q \<Rightarrow> q))"
      using False by (subst dns_encode_from.simps) (simp add: Let_def st_def rest_def)
    note IH = 1(1) [OF False refl refl refl, folded st_def rest_def]
    show ?thesis using 1(2) IH unfolding e by (auto split: if_splits)
  qed
qed

lemma dns_build_query_length: "dns_build_query qid host = Some q \<Longrightarrow> length q \<le> 512"
  by (auto simp: dns_build_query_def dns_encode_name_def dest!: dns_encode_from_length split: option.splits)

text \<open>Any number of labels ended by the root or by a compression pointer.\<close>

definition wire_name :: "u8 list \<Rightarrow> bool" where
  "wire_name nm \<longleftrightarrow> (\<exists>ls. (\<forall>l \<in> set ls. label_ok l) \<and>
     (nm = enc_labels ls @ [0] \<or> (\<exists>p q. p AND 0xC0 = 0xC0 \<and> nm = enc_labels ls @ [p, q])))"

lemma label_byte: "n \<le> 63 \<Longrightarrow> (of_nat n :: u8) AND 0xC0 = 0"
proof -
  assume "n \<le> 63"
  then have t: "take_bit 6 n = n" by (simp add: take_bit_eq_mod)
  have nb: "\<not> bit n k" if "6 \<le> k" for k
  proof -
    have "bit n k \<longleftrightarrow> bit (take_bit 6 n) k" by (simp only: t)
    with that show ?thesis by (simp add: bit_take_bit_iff)
  qed
  have h: "(0xC0 :: u8) = push_bit 6 3" by simp
  show ?thesis unfolding h
  proof (rule bit_word_eqI)
    fix k assume "k < LENGTH(8)"
    show "bit ((of_nat n :: u8) AND push_bit 6 3) k \<longleftrightarrow> bit (0 :: u8) k"
      using nb [of k] by (cases "k < 6") (simp_all add: bit_and_iff bit_push_bit_iff bit_of_nat_iff del: push_bit_numeral)
  qed
qed

lemma skip_labels:
  assumes "\<forall>l \<in> set ls. label_ok l"
  shows "dns_skip_name (pre @ enc_labels ls @ post) (length pre) =
    dns_skip_name (pre @ enc_labels ls @ post) (length pre + length (enc_labels ls))"
  using assms
proof (induction ls arbitrary: pre)
  case (Cons l ls)
  then have l: "l \<noteq> []" "length l \<le> 63" by (auto simp: label_ok_def)
  then have u: "unat (of_nat (length l) :: u8) = length l" by (simp add: unat_of_nat)
  with l have "(of_nat (length l) :: u8) \<noteq> 0" by (metis length_0_conv unat_0)
  with Cons.IH [of "pre @ enc_label l"] Cons.prems l u show ?case
    by (subst dns_skip_name.simps) (simp add: enc_label_def label_byte add.assoc)
qed simp

lemma skip_wire:
  assumes "wire_name nm"
  shows "dns_skip_name (pre @ nm @ post) (length pre) = Some (length pre + length nm)"
proof -
  obtain ls where ls: "\<forall>l \<in> set ls. label_ok l"
    "nm = enc_labels ls @ [0] \<or> (\<exists>p q. p AND 0xC0 = 0xC0 \<and> nm = enc_labels ls @ [p, q])"
    using assms by (auto simp: wire_name_def)
  from ls(2) show ?thesis
  proof (elim disjE exE conjE)
    assume "nm = enc_labels ls @ [0]"
    then show ?thesis using skip_labels [OF ls(1), of pre "[0] @ post"]
      by (simp add: dns_skip_name.simps [of _ "length pre + length (enc_labels ls)"] nth_append)
  next
    fix p q :: u8 assume "p AND 0xC0 = 0xC0" "nm = enc_labels ls @ [p, q]"
    then show ?thesis using skip_labels [OF ls(1), of pre "[p, q] @ post"]
      by (simp add: dns_skip_name.simps [of _ "length pre + length (enc_labels ls)"] nth_append)
  qed
qed

subsection \<open>Query and answer\<close>

text \<open>A resource record of a response.\<close>

definition rr :: "u8 list \<Rightarrow> u16 \<Rightarrow> u16 \<Rightarrow> u32 \<Rightarrow> u8 list \<Rightarrow> u8 list" where
  "rr nm type cl ttl d = nm @ put16 type @ put16 cl @ put32 ttl @ put16 (of_nat (length d)) @ d"

definition other_rr :: "u8 list \<Rightarrow> bool" where
  "other_rr r \<longleftrightarrow> (\<exists>nm type cl ttl d. r = rr nm type cl ttl d \<and> wire_name nm \<and> length d < 65536 \<and> type \<noteq> 1)"

lemma length_rr [simp]: "length (rr nm type cl ttl d) = length nm + 10 + length d"
  by (simp add: rr_def)

lemma rr_fields:
  assumes "msg = pre @ rr nm type cl ttl d @ post" "i = length pre + length nm"
  shows "get16 msg i = type" "get16 msg (i + 8) = of_nat (length d)"
  using get16_append [of i "pre @ nm" type "put16 cl @ put32 ttl @ put16 (of_nat (length d)) @ d @ post"]
    get16_append [of "i + 8" "pre @ nm @ put16 type @ put16 cl @ put32 ttl" "of_nat (length d)" "d @ post"] assms
  by (simp_all add: rr_def)

lemma scan_rr:
  assumes "wire_name nm" "length d < 65536" and m: "msg = pre @ rr nm type cl ttl d @ post"
  shows "dns_scan_answers msg (Suc n) (length pre) =
    (if type = 1 \<and> length d = 4 then Val (get32 msg (length pre + length nm + 10))
     else dns_scan_answers msg n (length pre + length (rr nm type cl ttl d)))"
proof -
  define i where "i = length pre + length nm"
  have s: "dns_skip_name msg (length pre) = Some i"
    using skip_wire [OF assms(1), of pre] m by (simp add: rr_def i_def)
  have u: "unat (of_nat (length d) :: u16) = length d" using assms(2) by (simp add: unat_of_nat)
  then have e: "(of_nat (length d) :: u16) = 4 \<longleftrightarrow> length d = 4" by (auto simp: word_unat_eq_iff)
  have l: "length msg = i + 10 + length d + length post"
    "length pre + length (rr nm type cl ttl d) = i + 10 + length d" "length pre + length nm + 10 = i + 10"
    using m by (simp_all add: i_def)
  show ?thesis
    unfolding l(2,3) using l(1) by (auto simp: rr_fields [OF m i_def] s u e Let_def)
qed

lemma scan_others:
  assumes "\<forall>r \<in> set rs. other_rr r"
  shows "dns_scan_answers (pre @ concat rs @ post) (length rs + n) (length pre) =
    dns_scan_answers (pre @ concat rs @ post) n (length pre + length (concat rs))"
  using assms
proof (induction rs arbitrary: pre)
  case (Cons r rs)
  then obtain nm type cl ttl d where r: "r = rr nm type cl ttl d" "wire_name nm" "length d < 65536" "type \<noteq> 1"
    by (auto simp: other_rr_def)
  show ?case
    using scan_rr [OF r(2,3), of "pre @ r @ concat rs @ post" pre type cl ttl "concat rs @ post" "length rs + n"]
      Cons.IH [of "pre @ r"] Cons.prems r(4) by (simp add: r(1) [symmetric] add.assoc del: length_rr)
qed simp

lemma scan_finds:
  assumes "\<forall>r \<in> set rs. other_rr r" "wire_name nm" "length rs < n"
  shows "dns_scan_answers (pre @ concat rs @ rr nm 1 cl ttl (put32 ip) @ post) n (length pre) = Val ip"
proof -
  let ?msg = "pre @ concat rs @ rr nm 1 cl ttl (put32 ip) @ post" and ?q = "pre @ concat rs"
  obtain k where k: "n = length rs + Suc k" using assms(3) less_imp_Suc_add by fastforce
  have "dns_scan_answers ?msg n (length pre) = dns_scan_answers ?msg (Suc k) (length ?q)"
    using scan_others [OF assms(1), of pre "rr nm 1 cl ttl (put32 ip) @ post" "Suc k"] by (simp add: k del: dns_scan_answers.simps)
  also have "\<dots> = Val (get32 ?msg (length ?q + length nm + 10))"
    using scan_rr [OF assms(2), of "put32 ip" ?msg ?q 1 cl ttl post k] by (simp del: dns_scan_answers.simps)
  also have "\<dots> = Val ip"
    using get32_append [of "length ?q + length nm + 10"
        "?q @ nm @ put16 1 @ put16 cl @ put32 ttl @ put16 (of_nat (length (put32 ip)))" ip post]
    by (simp add: rr_def)
  finally show ?thesis .
qed

text \<open>
  C22. The resolver's round trip. A host name of labels of at most 63 bytes is encoded exactly when it
  fits, into the standard wire form and within the 512-byte buffer; and any response that carries the
  id and question of that query, no error code, any number of other records and then an A record, each
  with any legal name, compressed or not, yields the address of that record.
\<close>

theorem dns_query_answer:
  assumes "\<forall>l \<in> set ls. label_ok l" "fl AND 0x000F = 0"
    and "\<forall>r \<in> set rs. other_rr r" "wire_name nm" "length rs < unat an"
  shows "if length (enc_labels ls) + 1 \<le> 496
    then \<exists>q. dns_build_query qid (dotted ls) = Some q \<and> length q \<le> 512 \<and>
      q = put16 qid @ put16 0x100 @ put16 1 @ put16 0 @ put16 0 @ put16 0 @
        enc_labels ls @ [0] @ put16 1 @ put16 1 \<and>
      dns_parse_answer (put16 qid @ put16 fl @ put16 1 @ put16 an @ put16 ns @ put16 ar @ drop 12 q @
        concat rs @ rr nm 1 cl ttl (put32 ip) @ post) qid = Val ip
    else dns_build_query qid (dotted ls) = None"
proof (cases "length (enc_labels ls) + 1 \<le> 496")
  case True
  let ?q = "put16 qid @ put16 0x100 @ put16 1 @ put16 0 @ put16 0 @ put16 0 @
        enc_labels ls @ [0] @ put16 1 @ put16 (1 :: u16)"
  let ?h = "put16 qid @ put16 fl @ put16 1 @ put16 an @ put16 ns @ put16 ar"
  let ?e = "enc_labels ls @ [0]" and ?a = "concat rs @ rr nm 1 cl ttl (put32 ip) @ post"
  define msg where "msg = ?h @ ?e @ put16 1 @ put16 1 @ ?a"
  have q: "dns_build_query qid (dotted ls) = Some ?q" "length ?q \<le> 512"
    using True dns_encode_from_dotted [OF assms(1), of 496 "[]"]
    by (simp_all add: dns_build_query_def dns_encode_name_def)
  have f: "get16 msg 0 = qid" "get16 msg 2 = fl" "get16 msg 4 = 1" "get16 msg 6 = an"
    using get16_append [of 0 "[]" qid] get16_append [of 2 "put16 qid" fl]
      get16_append [of 4 "put16 qid @ put16 fl" 1] get16_append [of 6 "put16 qid @ put16 fl @ put16 1" an]
    by (simp_all add: msg_def)
  have w: "wire_name ?e" using assms(1) by (auto simp: wire_name_def)
  have l: "12 \<le> length msg" "12 + length ?e + 4 \<le> length msg" by (simp_all add: msg_def)
  have s: "dns_skip_questions msg (unat (1 :: u16)) 12 = Val (12 + length ?e + 4)"
  proof -
    have "dns_skip_name msg 12 = Some (12 + length ?e)"
      using skip_wire [OF w, of ?h "put16 1 @ put16 1 @ ?a"] by (simp add: msg_def)
    then show ?thesis using l by simp
  qed
  have "dns_scan_answers msg (unat an) (12 + length ?e + 4) = Val ip"
    using scan_finds [OF assms(3-5), of "?h @ ?e @ put16 1 @ put16 1" cl ttl ip post]
    by (simp add: msg_def del: dns_scan_answers.simps)
  then have "dns_parse_answer msg qid = Val ip"
    using l f s assms(2) by (simp add: dns_parse_answer_def del: dns_scan_answers.simps dns_skip_questions.simps)
  with True q show ?thesis by (simp add: msg_def del: dns_scan_answers.simps)
next
  case False
  then show ?thesis
    using dns_encode_from_dotted [OF assms(1), of 496 "[]"]
    by (simp add: dns_build_query_def dns_encode_name_def)
qed

theorem dns_query_answer_witness:
  "\<exists>q. dns_build_query 7 (dotted [[97], [98, 99]]) = Some q \<and>
     dns_parse_answer (put16 7 @ put16 0x8180 @ put16 1 @ put16 2 @ put16 0 @ put16 0 @ drop 12 q @
       concat [rr [0xC0, 12] 5 1 60 [1, 100, 0]] @ rr [0xC0, 12] 1 1 60 (put32 0x0A000202) @ []) 7 = Val 0x0A000202"
proof -
  have w: "wire_name [0xC0, 12]" unfolding wire_name_def
    by (rule exI [of _ "[]"]) (auto intro!: exI [of _ "0xC0"])
  have o: "other_rr (rr [0xC0, 12] 5 1 60 [1, 100, 0])"
    unfolding other_rr_def using w by (intro exI conjI) (rule refl, assumption, simp_all)
  have ls: "\<forall>l \<in> set [[97], [98, 99]]. label_ok l" by (simp add: label_ok_def)
  show ?thesis
    using dns_query_answer [OF ls, of "0x8180" "[rr [0xC0, 12] 5 1 60 [1, 100, 0]]" "[0xC0, 12]" 2 7 0 0 1 60 "0x0A000202" "[]"]
      w o by (auto simp: enc_label_def)
qed

subsection \<open>No read leaves the message\<close>

lemma dns_scan_in_bounds:
  "dns_scan_answers msg n i \<noteq> Oob"
  "dns_scan_answers msg n i = Val ip \<Longrightarrow> \<exists>k. k + 4 \<le> length msg \<and> ip = get32 msg k"
proof -
  have "dns_scan_answers msg n i \<noteq> Oob \<and>
    (dns_scan_answers msg n i = Val ip \<longrightarrow> (\<exists>k. k + 4 \<le> length msg \<and> ip = get32 msg k))"
    by (induction n arbitrary: i)
      (auto simp: Let_def rd32_def split: option.splits if_splits, rule exI, rule conjI [rotated], rule refl, simp)
  then show "dns_scan_answers msg n i \<noteq> Oob"
    "dns_scan_answers msg n i = Val ip \<Longrightarrow> \<exists>k. k + 4 \<le> length msg \<and> ip = get32 msg k" by auto
qed

lemma dns_questions_in_bounds: "dns_skip_questions msg n i \<noteq> Oob"
  by (induction n arbitrary: i) (auto split: option.splits)

lemma dns_parse_in_bounds:
  "dns_parse_answer msg qid \<noteq> Oob"
  "dns_parse_answer msg qid = Val ip \<Longrightarrow> get16 msg 0 = qid \<and> get16 msg 2 AND 0x000F = 0 \<and>
     (\<exists>k. k + 4 \<le> length msg \<and> ip = get32 msg k)"
  using dns_scan_in_bounds dns_questions_in_bounds [of msg]
  by (auto simp: dns_parse_answer_def split: parse.splits if_splits)

text \<open>
  The offset past a name may exceed the message by one, when the message ends in the first byte of a
  compression pointer; the callers' own length tests catch it.
\<close>

lemma dns_skip_name_bound: "dns_skip_name msg i = Some j \<Longrightarrow> i < j \<and> j \<le> length msg + 1"
proof (induction msg i rule: dns_skip_name.induct)
  case (1 msg i)
  note IH = 1(1) and eq = 1(2)
  have i: "i < length msg" using eq by (subst (asm) dns_skip_name.simps) (auto split: if_splits)
  consider "msg ! i AND 0xC0 = 0xC0" | "msg ! i AND 0xC0 \<noteq> 0xC0" "msg ! i = 0"
    | "msg ! i AND 0xC0 \<noteq> 0xC0" "msg ! i \<noteq> 0" by blast
  then show ?case
  proof cases
    case 3
    have "dns_skip_name msg (i + (1 + unat (msg ! i))) = Some j"
      using eq i 3 by (subst (asm) dns_skip_name.simps) simp
    from IH [OF i refl 3 this] show ?thesis by simp
  qed (use eq i in \<open>subst (asm) dns_skip_name.simps, simp\<close>)+
qed

subsection \<open>Dotted quads\<close>

text \<open>The reference: the value of a decimal number, and the parts between the dots.\<close>

definition digit :: "u8 \<Rightarrow> bool" where "digit c \<longleftrightarrow> 48 \<le> c \<and> c \<le> 57"

definition decimal :: "u8 list \<Rightarrow> nat" where
  "decimal ds = foldl (\<lambda>n c. n * 10 + unat (c - 48)) 0 ds"

definition octet :: "u8 list \<Rightarrow> bool" where
  "octet ds \<longleftrightarrow> ds \<noteq> [] \<and> (\<forall>c \<in> set ds. digit c) \<and> decimal ds \<le> 255"

lemma decimal_mono: "n \<le> foldl (\<lambda>n c. n * 10 + unat (c - 48 :: u8)) n ds"
proof (induction ds arbitrary: n)
  case (Cons c ds)
  have "n \<le> n * 10 + unat (c - 48)" by simp
  also have "\<dots> \<le> foldl (\<lambda>n c. n * 10 + unat (c - 48)) (n * 10 + unat (c - 48)) ds" by (rule Cons.IH)
  finally show ?case by simp
qed simp

lemma digit_step:
  assumes "unat (cur :: u32) \<le> 255" "digit c"
  shows "unat (cur * 10 + ucast (c - 48)) = unat cur * 10 + unat (c - 48)" "unat (c - 48) \<le> 9"
proof -
  have "unat (c - 48) = unat c - 48" using assms(2) by (simp add: digit_def unat_sub)
  moreover have "unat c \<le> 57" using assms(2) by (simp add: digit_def word_le_nat_alt)
  ultimately show d: "unat (c - 48) \<le> 9" by simp
  have u: "unat (ucast (c - 48) :: u32) = unat (c - 48)" using unat_u8_less [of "c - 48"] by (simp add: unsigned_ucast_eq take_bit_nat_eq_self)
  then show "unat (cur * 10 + ucast (c - 48)) = unat cur * 10 + unat (c - 48)"
    using assms(1) d by (simp add: unat_word_ariths)
qed

fun split_dot :: "u8 list \<Rightarrow> u8 list list" where
  "split_dot [] = [[]]"
| "split_dot (c # p) = (if c = dot then [] # split_dot p
     else case split_dot p of [] \<Rightarrow> [[c]] | x # xs \<Rightarrow> (c # x) # xs)"

lemma split_dot_Cons: "\<exists>x xs. split_dot p = x # xs"
  by (cases p) (auto split: list.split)

lemma decimal_snoc: "decimal (ds @ [c]) = decimal ds * 10 + unat (c - 48)"
  by (simp add: decimal_def)

lemma decimal_prefix: "decimal ds \<le> decimal (ds @ es)"
  unfolding decimal_def foldl_append by (rule decimal_mono)

lemma quad_from_split:
  assumes "\<forall>c \<in> set pre. digit c" "decimal pre \<le> 255" "split_dot p = x # xs"
  shows "quad_from parts (of_nat (decimal pre)) (pre \<noteq> []) p =
    (if (\<forall>l \<in> set ((pre @ x) # xs). octet l) \<and> length parts + length (x # xs) \<le> 4
     then Some (parts @ map (\<lambda>l. of_nat (decimal l)) ((pre @ x) # xs)) else None)"
  using assms
proof (induction p arbitrary: parts pre x xs)
  case (Cons c p)
  obtain y ys where y: "split_dot p = y # ys" using split_dot_Cons by blast
  consider "digit c" | "c = dot" | "\<not> digit c" "c \<noteq> dot" by blast
  then show ?case
  proof cases
    case 1
    then have c: "c \<noteq> dot" "c \<ge> 48 \<and> c \<le> 57" by (auto simp: digit_def)
    have x: "x = c # y" "xs = ys" using Cons.prems(3) c(1) y by simp_all
    have u: "unat (of_nat (decimal pre) :: u32) = decimal pre" using Cons.prems(2) by (simp add: unat_of_nat)
    have d: "unat (of_nat (decimal pre) * 10 + ucast (c - 48) :: u32) = decimal (pre @ [c])"
      using digit_step(1) [OF _ 1, of "of_nat (decimal pre)"] Cons.prems(2) by (simp add: u decimal_snoc)
    then have d': "(of_nat (decimal pre) * 10 + ucast (c - 48) :: u32) = of_nat (decimal (pre @ [c]))"
      by (metis of_nat_unat ucast_id)
    have g: "(of_nat (decimal (pre @ [c])) :: u32) > 255 \<longleftrightarrow> decimal (pre @ [c]) > 255"
      using d unfolding d' by (simp add: word_less_nat_alt)
    show ?thesis
    proof (cases "decimal (pre @ [c]) > 255")
      case True
      then have "\<not> octet (pre @ x)" using decimal_prefix [of "pre @ [c]" y] by (auto simp: octet_def x)
      with True c show ?thesis by (simp add: d' g)
    next
      case False
      with Cons.IH [of "pre @ [c]" y ys parts] Cons.prems(1) 1 c y show ?thesis by (simp add: d' g x)
    qed
  next
    case 2
    then have x: "x = []" "xs = y # ys" using Cons.prems(3) y by simp_all
    have "pre \<noteq> [] \<Longrightarrow> octet pre" using Cons.prems(1,2) by (simp add: octet_def)
    with Cons.IH [of "[]" y ys "parts @ [of_nat (decimal pre)]"] 2 y show ?thesis
      by (auto simp: x decimal_def octet_def)
  next
    case 3
    then have "x = c # y" using Cons.prems(3) y by simp
    with 3 show ?thesis by (auto simp: octet_def digit_def)
  qed
qed (auto simp: octet_def)

text \<open>
  The literal test is exact: a string is taken for an address if and only if it is four decimal
  numbers of at least one digit and at most 255 between three dots, and the result is the address
  with these octets. No string overflows the accumulator.
\<close>

theorem dotted_quad_exact:
  "parse_dotted_quad s =
    (if length (split_dot s) = 4 \<and> list_all octet (split_dot s)
     then Some (get32 (map (\<lambda>l. of_nat (decimal l)) (split_dot s)) 0) else None)"
proof -
  obtain x xs where x: "split_dot s = x # xs" using split_dot_Cons by blast
  have q: "quad_from [] 0 False s = (if (\<forall>l \<in> set (x # xs). octet l) \<and> length (x # xs) \<le> 4
     then Some (map (\<lambda>l. of_nat (decimal l)) (x # xs)) else None)"
    using quad_from_split [of "[]" s x xs "[]"] x by (simp add: decimal_def)
  show ?thesis
  proof (cases "length (x # xs) = 4 \<and> (\<forall>l \<in> set (x # xs). octet l)")
    case True
    then obtain a b c d where s: "x # xs = [a, b, c, d]" by (auto simp: numeral_eq_Suc length_Suc_conv)
    have o: "(of_nat (decimal l) :: u32) = ucast (of_nat (decimal l) :: u8)" if "octet l" for l
      using that by (simp add: octet_def word_unat_eq_iff unat_of_nat unsigned_ucast_eq take_bit_nat_eq_self)
    show ?thesis using True q o unfolding parse_dotted_quad_def x s by (simp add: get32_def)
  next
    case False
    then show ?thesis using q unfolding parse_dotted_quad_def x list_all_iff by (auto split: if_splits)
  qed
qed

end
