(* ===== verification/Net_Dhcp.thy ===== *)
theory Net_Dhcp
  imports Net_Dns
begin

text \<open>
  The parts of the DHCP client of \<open>src/netstack.c\<close> that need no network: parsing a reply, the timer
  policy of a lease and the message the client sends. The exchange itself is in \<open>Netstack\<close>.
\<close>

subsection \<open>Replies\<close>

record dhcp_lease =
  dl_type :: int
  dl_yiaddr :: u32
  dl_server :: u32
  dl_mask :: u32
  dl_router :: u32
  dl_dns :: u32
  dl_secs :: u32

definition DHCP_COOKIE :: u32 where "DHCP_COOKIE = 0x63825363"

text \<open>One option: the switch on its code, at offset \<open>i\<close> with length \<open>olen\<close>.\<close>

definition dhcp_option :: "u8 list \<Rightarrow> u8 \<Rightarrow> nat \<Rightarrow> nat \<Rightarrow> dhcp_lease \<Rightarrow> dhcp_lease parse" where
  "dhcp_option msg code i olen out =
     (if code = 53 then if olen \<ge> 1 then rd8 msg i (\<lambda>v. Val (out\<lparr>dl_type := int (unat v)\<rparr>)) else Val out
      else if code = 54 then if olen \<ge> 4 then rd32 msg i (\<lambda>v. Val (out\<lparr>dl_server := v\<rparr>)) else Val out
      else if code = 1 then if olen \<ge> 4 then rd32 msg i (\<lambda>v. Val (out\<lparr>dl_mask := v\<rparr>)) else Val out
      else if code = 3 then if olen \<ge> 4 then rd32 msg i (\<lambda>v. Val (out\<lparr>dl_router := v\<rparr>)) else Val out
      else if code = 6 then if olen \<ge> 4 then rd32 msg i (\<lambda>v. Val (out\<lparr>dl_dns := v\<rparr>)) else Val out
      else if code = 51 then if olen \<ge> 4 then rd32 msg i (\<lambda>v. Val (out\<lparr>dl_secs := v\<rparr>)) else Val out
      else Val out)"

text \<open>The loop over the options; its reads of the code and the length are guarded by \<open>i < len\<close>.\<close>

function dhcp_options :: "u8 list \<Rightarrow> nat \<Rightarrow> dhcp_lease \<Rightarrow> dhcp_lease parse" where
  "dhcp_options msg i out =
     (if i < length msg then
        let code = msg ! i; i = i + 1 in
        if code = 255 then Val out
        else if code = 0 then dhcp_options msg i out
        else if i \<ge> length msg then Val out
        else let olen = unat (msg ! i); i = i + 1 in
          if i + olen > length msg then Val out
          else case dhcp_option msg code i olen out of
              Oob \<Rightarrow> Oob | Fail \<Rightarrow> Fail
            | Val out \<Rightarrow> dhcp_options msg (i + olen) out
      else Val out)"
  by pat_completeness auto
termination by (relation "measure (\<lambda>(msg, i, out). length msg - i)") auto

declare dhcp_options.simps [simp del]

definition dhcp_parse :: "u8 list \<Rightarrow> u32 \<Rightarrow> dhcp_lease parse" where
  "dhcp_parse msg xid =
     (if length msg < 240 then Fail
      else rd8 msg 0 (\<lambda>op. if op \<noteq> 2 then Fail
      else rd32 msg 4 (\<lambda>x. if x \<noteq> xid then Fail
      else rd32 msg 236 (\<lambda>c. if c \<noteq> DHCP_COOKIE then Fail
      else rd32 msg 16 (\<lambda>yi. dhcp_options msg 240
        \<lparr>dl_type = -1, dl_yiaddr = yi, dl_server = 0, dl_mask = 0, dl_router = 0, dl_dns = 0, dl_secs = 0\<rparr>)))))"

subsection \<open>The lease clock\<close>

datatype dhcp_action = DHCP_HOLD | DHCP_RENEW | DHCP_REBIND | DHCP_REACQUIRE

definition dhcp_lease_action :: "u64 \<Rightarrow> u64 \<Rightarrow> u64 \<Rightarrow> u64 \<Rightarrow> dhcp_action" where
  "dhcp_lease_action elapsed t1 t2 expiry =
     (if elapsed \<ge> expiry then DHCP_REACQUIRE
      else if elapsed \<ge> t2 then DHCP_REBIND
      else if elapsed \<ge> t1 then DHCP_RENEW
      else DHCP_HOLD)"

definition lease_us :: "u32 \<Rightarrow> u64" where
  "lease_us secs = (if secs \<noteq> 0 then ucast secs else 3600) * 1000000"

definition lease_action :: "u64 \<Rightarrow> u64 \<Rightarrow> dhcp_action" where
  "lease_action elapsed dur = dhcp_lease_action elapsed (dur div 2) (dur * 7 div 8) dur"

subsection \<open>The message of the client\<close>

text \<open>The bytes of \<open>m\<close> up to the end option; \<open>flags\<close> asks for a broadcast reply.\<close>

definition dhcp_msg :: "u8 list \<Rightarrow> u8 \<Rightarrow> u32 \<Rightarrow> u32 \<Rightarrow> u32 \<Rightarrow> u32 \<Rightarrow> bool \<Rightarrow> u8 list" where
  "dhcp_msg mac type xid ciaddr reqip server bcast =
     [1, 1, 6, 0] @ put32 xid @ [0, 0] @ put16 (if bcast then 0x8000 else 0) @ put32 ciaddr @
     replicate 12 0 @ mac @ replicate (236 - 34) 0 @ put32 DHCP_COOKIE @
     [53, 1, type] @ (if reqip \<noteq> 0 then [50, 4] @ put32 reqip else []) @
     (if server \<noteq> 0 then [54, 4] @ put32 server else []) @ [255]"

subsection \<open>Facts\<close>

lemma dhcp_option_in_bounds:
  "i + olen \<le> length msg \<Longrightarrow> \<exists>out'. dhcp_option msg code i olen out = Val out' \<and> dl_yiaddr out' = dl_yiaddr out"
  by (auto simp: dhcp_option_def rd8_def rd32_def)

lemma dhcp_options_in_bounds:
  "\<exists>out'. dhcp_options msg i out = Val out' \<and> dl_yiaddr out' = dl_yiaddr out"
proof (induction msg i out rule: dhcp_options.induct)
  case (1 msg i out)
  show ?case
  proof (cases "i < length msg \<and> msg ! i \<noteq> 255 \<and> msg ! i \<noteq> 0 \<and> i + 1 < length msg \<and>
      i + 2 + unat (msg ! (i + 1)) \<le> length msg")
    case True
    then obtain out' where o: "dhcp_option msg (msg ! i) (i + 2) (unat (msg ! (i + 1))) out = Val out'"
      "dl_yiaddr out' = dl_yiaddr out" using dhcp_option_in_bounds [of "i + 2" "unat (msg ! (i + 1))" msg "msg ! i" out] by auto
    have n: "dhcp_options msg i out = dhcp_options msg (i + 2 + unat (msg ! (i + 1))) out'"
      using True o(1) by (subst dhcp_options.simps) (simp add: Let_def)
    show ?thesis unfolding n o(2) [symmetric]
      using 1(2) [OF _ refl refl _ _ _ refl refl, of out'] True o(1) by simp
  next
    case False
    then show ?thesis
    proof (cases "i < length msg \<and> msg ! i = 0")
      case True
      then have "dhcp_options msg i out = dhcp_options msg (i + 1) out" by (subst dhcp_options.simps) simp
      with 1(1) [OF _ refl refl] True show ?thesis by simp
    qed (subst dhcp_options.simps, auto simp: Let_def)
  qed
qed

text \<open>
  A DHCP reply is parsed safely and only for its own exchange: no message makes the parser read
  past its end, and the parse succeeds exactly for boot replies with the transaction id of the
  request and the cookie, whatever the options hold; the address offered is then the one of the
  message.
\<close>

theorem dhcp_parse_exact:
  "(case dhcp_parse msg xid of
      Oob \<Rightarrow> False
    | Fail \<Rightarrow> \<not> (240 \<le> length msg \<and> msg ! 0 = 2 \<and> get32 msg 4 = xid \<and> get32 msg 236 = DHCP_COOKIE)
    | Val l \<Rightarrow> 240 \<le> length msg \<and> msg ! 0 = 2 \<and> get32 msg 4 = xid \<and> get32 msg 236 = DHCP_COOKIE \<and>
        dl_yiaddr l = get32 msg 16)"
proof (cases "240 \<le> length msg \<and> msg ! 0 = 2 \<and> get32 msg 4 = xid \<and> get32 msg 236 = DHCP_COOKIE")
  case True
  let ?o = "\<lparr>dl_type = -1, dl_yiaddr = get32 msg 16, dl_server = 0, dl_mask = 0, dl_router = 0, dl_dns = 0, dl_secs = 0\<rparr>"
  have "length msg \<noteq> 0" using True by auto
  with True have "dhcp_parse msg xid = dhcp_options msg 240 ?o" by (simp add: dhcp_parse_def)
  with dhcp_options_in_bounds [of msg 240 ?o] True show ?thesis by auto
next
  case False
  then have "dhcp_parse msg xid = Fail" by (auto simp: dhcp_parse_def rd8_def rd32_def)
  with False show ?thesis by simp
qed

end
