(* ===== verification/Netstack.thy ===== *)
theory Netstack
  imports Net_Dhcp
begin

text \<open>
  The network stack of \<open>src/netstack.c\<close> above the driver: Ethernet framing, ARP, IPv4, ICMP, UDP, the
  resolver and the DHCP client. The machine is an oracle in the state: reading \<open>k\<close> of the clock, the
  frame the device holds at poll \<open>k\<close> (the empty list when none) and whether a signal is pending at
  test \<open>k\<close>. The frames handed to the device and the calls into TCP and the sockets are logs.

  The code is mutually recursive: a packet is sent after \<open>arp_resolve\<close>, which waits in \<open>net_pump\<close>,
  which may answer a packet and renew the lease. The model takes \<open>net_pump\<close> as an argument and ties
  the knot with fuel, which also bounds the waiting loops; \<open>None\<close> is running out of it.

  Writing past one of the static buffers is undefined in C; the model records it in \<open>ns_overrun\<close> and
  does not go on with that packet.
\<close>

subsection \<open>State\<close>

record arp_entry =
  ae_ip :: u32
  ae_mac :: "u8 list"
  ae_valid :: bool

datatype upcall = Up_tcp u32 "u8 list" | Up_udp u32 u16 u16 "u8 list"

record net =
  ns_our_mac :: "u8 list"
  ns_our_ip :: u32
  ns_gateway :: u32
  ns_dns :: u32
  ns_mask :: u32
  ns_arp :: "arp_entry list"
  ns_ping_id :: u16
  ns_ping_got :: bool
  ns_ping_seq :: u16
  ns_reply :: "u8 list"
  ns_dns_waiting :: bool
  ns_dns_sport :: u16
  ns_dns_rx :: "u8 list"
  ns_dns_got :: bool
  ns_qid :: u16
  ns_next_sport :: u16
  ns_dhcp_waiting :: bool
  ns_dhcp_rx :: "u8 list"
  ns_dhcp_got :: bool
  ns_lease_valid :: bool
  ns_lease_t0 :: u64
  ns_lease_dur :: u64
  ns_lease_server :: u32
  ns_in_renew :: bool
  ns_ups :: "upcall list"
  ns_hw_mac :: "u8 list"
  ns_nic_ok :: bool
  ns_tx :: "u8 list list"
  ns_rx :: "nat \<Rightarrow> u8 list"
  ns_rx_pos :: nat
  ns_clock :: "nat \<Rightarrow> u64"
  ns_clock_pos :: nat
  ns_sig :: "nat \<Rightarrow> bool"
  ns_sig_pos :: nat
  ns_overrun :: bool

definition overran :: "net \<Rightarrow> net" where "overran s = s\<lparr>ns_overrun := True\<rparr>"

definition NET_TIMEOUT_US :: u64 where "NET_TIMEOUT_US = 2000000"

definition timer_now_us :: "net \<Rightarrow> u64 \<times> net" where
  "timer_now_us s = (ns_clock s (ns_clock_pos s), s\<lparr>ns_clock_pos := Suc (ns_clock_pos s)\<rparr>)"

definition net_signal_pending :: "net \<Rightarrow> bool \<times> net" where
  "net_signal_pending s = (ns_sig s (ns_sig_pos s), s\<lparr>ns_sig_pos := Suc (ns_sig_pos s)\<rparr>)"

subsection \<open>The driver\<close>

text \<open>A frame is sent when a NIC is present and it fits the buffer behind the 12-byte header.\<close>

definition net_send :: "u8 list \<Rightarrow> net \<Rightarrow> int \<times> net" where
  "net_send f s = (if \<not> ns_nic_ok s \<or> length f > 2048 - 12 then (-1, s) else (0, s\<lparr>ns_tx := ns_tx s @ [f]\<rparr>))"

definition net_recv :: "nat \<Rightarrow> net \<Rightarrow> u8 list \<times> net" where
  "net_recv sz s = (if \<not> ns_nic_ok s then ([], s)
     else (take sz (ns_rx s (ns_rx_pos s)), s\<lparr>ns_rx_pos := Suc (ns_rx_pos s)\<rparr>))"

definition net_stack_init :: "net \<Rightarrow> net" where
  "net_stack_init s = s\<lparr>ns_our_mac := ns_hw_mac s, ns_arp := map (\<lambda>e. e\<lparr>ae_valid := False\<rparr>) (ns_arp s)\<rparr>"

subsection \<open>Checksums and framing\<close>

definition inet_csum :: "u8 list \<Rightarrow> u16" where
  "inet_csum p = csum_finish (csum_words p)"

definition udp_checksum :: "u32 \<Rightarrow> u32 \<Rightarrow> u8 list \<Rightarrow> u16" where
  "udp_checksum sip dip seg =
     (let sum = unat (drop_bit 16 sip AND 0xFFFF) + unat (sip AND 0xFFFF) +
                unat (drop_bit 16 dip AND 0xFFFF) + unat (dip AND 0xFFFF) + 17 + length seg + csum_words seg;
          c = csum_finish sum
      in if c \<noteq> 0 then c else 0xFFFF)"

definition eth_send :: "u8 list \<Rightarrow> u16 \<Rightarrow> u8 list \<Rightarrow> net \<Rightarrow> int \<times> net" where
  "eth_send dst ethertype payload s =
     (if 14 + length payload > 1600 then (-1, overran s)
      else net_send (dst @ ns_our_mac s @ put16 ethertype @ payload) s)"

subsection \<open>ARP\<close>

definition arp_find :: "(arp_entry \<Rightarrow> bool) \<Rightarrow> net \<Rightarrow> nat option" where
  "arp_find P s = List.find (\<lambda>i. P (ns_arp s ! i)) [0..<8]"

definition arp_cache_put :: "u32 \<Rightarrow> u8 list \<Rightarrow> net \<Rightarrow> net" where
  "arp_cache_put ip mac s =
     (case arp_find (\<lambda>e. ae_valid e \<and> ae_ip e = ip) s of
        Some i \<Rightarrow> s\<lparr>ns_arp := (ns_arp s)[i := (ns_arp s ! i)\<lparr>ae_mac := mac\<rparr>]\<rparr>
      | None \<Rightarrow> (case arp_find (\<lambda>e. \<not> ae_valid e) s of
          Some i \<Rightarrow> s\<lparr>ns_arp := (ns_arp s)[i := (ns_arp s ! i)\<lparr>ae_ip := ip, ae_valid := True, ae_mac := mac\<rparr>]\<rparr>
        | None \<Rightarrow> s))"

definition arp_cache_get :: "u32 \<Rightarrow> net \<Rightarrow> u8 list option" where
  "arp_cache_get ip s =
     map_option (\<lambda>i. ae_mac (ns_arp s ! i)) (arp_find (\<lambda>e. ae_valid e \<and> ae_ip e = ip) s)"

definition arp_xmit :: "u16 \<Rightarrow> u8 list \<Rightarrow> u32 \<Rightarrow> u8 list \<Rightarrow> net \<Rightarrow> net" where
  "arp_xmit oper tha tpa dst_mac s =
     snd (eth_send dst_mac 0x0806
       (put16 1 @ put16 0x0800 @ [6, 4] @ put16 oper @ ns_our_mac s @ put32 (ns_our_ip s) @ tha @ put32 tpa) s)"

definition arp_input :: "u8 list \<Rightarrow> net \<Rightarrow> net" where
  "arp_input f s =
     (if length f < 14 + 28 then s
      else let a = drop 14 f; oper = get16 a 6; spa = get32 a 14; sha = take 6 (drop 8 a); tpa = get32 a 24;
               s = (if oper = 1 \<and> tpa = ns_our_ip s then arp_xmit 2 sha spa sha s else s)
           in if oper = 2 then arp_cache_put spa sha s else s)"

text \<open>The waiting loop, then the call.\<close>

type_synonym pump = "net \<Rightarrow> (int \<times> net) option"

primrec arp_wait :: "pump \<Rightarrow> u32 \<Rightarrow> u64 \<Rightarrow> nat \<Rightarrow> net \<Rightarrow> (u8 list option \<times> net) option" where
  "arp_wait pump ip start 0 s = None"
| "arp_wait pump ip start (Suc n) s =
     (case timer_now_us s of (now, s) \<Rightarrow>
        if \<not> now - start < NET_TIMEOUT_US then Some (None, s)
        else case pump s of None \<Rightarrow> None | Some (_, s) \<Rightarrow>
          case arp_cache_get ip s of Some mac \<Rightarrow> Some (Some mac, s) | None \<Rightarrow>
          case net_signal_pending s of (sig, s) \<Rightarrow>
            if sig then Some (None, s) else arp_wait pump ip start n s)"

definition arp_resolve :: "pump \<Rightarrow> nat \<Rightarrow> u32 \<Rightarrow> net \<Rightarrow> (u8 list option \<times> net) option" where
  "arp_resolve pump n ip s =
     (case arp_cache_get ip s of
        Some mac \<Rightarrow> Some (Some mac, s)
      | None \<Rightarrow>
          let s = arp_xmit 1 (replicate 6 0) ip (replicate 6 0xFF) s
          in case timer_now_us s of (start, s) \<Rightarrow> arp_wait pump ip start n s)"

subsection \<open>IPv4\<close>

definition ip_packet :: "u32 \<Rightarrow> u32 \<Rightarrow> u8 \<Rightarrow> u8 list \<Rightarrow> u8 list" where
  "ip_packet src dst proto payload =
     (let h = [0x45, 0] @ put16 (of_nat (20 + length payload)) @ put16 0 @ put16 0 @ [64, proto];
          a = put32 src @ put32 dst
      in h @ put16 (inet_csum (h @ put16 0 @ a)) @ a @ payload)"

text \<open>The payload may lie in a static buffer, which is read only after the address is resolved.\<close>

definition ip_send :: "pump \<Rightarrow> nat \<Rightarrow> u32 \<Rightarrow> u8 \<Rightarrow> (net \<Rightarrow> u8 list) \<Rightarrow> net \<Rightarrow> (int \<times> net) option" where
  "ip_send pump n dst_ip proto payload s =
     (let nexthop = (if (dst_ip XOR ns_our_ip s) AND ns_mask s \<noteq> 0 then ns_gateway s else dst_ip)
      in case arp_resolve pump n nexthop s of
           None \<Rightarrow> None
         | Some (None, s) \<Rightarrow> Some (-1, s)
         | Some (Some mac, s) \<Rightarrow>
             if 20 + length (payload s) > 1500 then Some (-1, overran s)
             else Some (eth_send mac 0x0800 (ip_packet (ns_our_ip s) dst_ip proto (payload s)) s))"

definition net_ip_send :: "pump \<Rightarrow> nat \<Rightarrow> u32 \<Rightarrow> u8 \<Rightarrow> u8 list \<Rightarrow> net \<Rightarrow> (int \<times> net) option" where
  "net_ip_send pump n dst_ip proto payload s = ip_send pump n dst_ip proto (\<lambda>_. payload) s"

subsection \<open>ICMP\<close>

definition icmp_input :: "pump \<Rightarrow> nat \<Rightarrow> u32 \<Rightarrow> u8 list \<Rightarrow> net \<Rightarrow> net option" where
  "icmp_input pump n src_ip p s =
     (if length p < 8 then Some s
      else if p ! 0 = 8 then
        if length p > 1500 then Some (overran s)
        else let c = inet_csum ([0, p ! 1, 0, 0] @ drop 4 p);
                 s = s\<lparr>ns_reply := [0, p ! 1] @ put16 c @ drop 4 p @ drop (length p) (ns_reply s)\<rparr>
             in map_option snd (ip_send pump n src_ip 1 (\<lambda>s. take (length p) (ns_reply s)) s)
      else if p ! 0 = 0 then
        if get16 p 4 = ns_ping_id s then Some (s\<lparr>ns_ping_got := True\<rparr>) else Some s
      else Some s)"

subsection \<open>UDP\<close>

definition udp_segment :: "u32 \<Rightarrow> u32 \<Rightarrow> u16 \<Rightarrow> u16 \<Rightarrow> u8 list \<Rightarrow> u8 list" where
  "udp_segment sip dip sport dport payload =
     (let h = put16 sport @ put16 dport @ put16 (of_nat (8 + length payload))
      in h @ put16 (udp_checksum sip dip (h @ put16 0 @ payload)) @ payload)"

definition udp_send :: "pump \<Rightarrow> nat \<Rightarrow> u32 \<Rightarrow> u16 \<Rightarrow> u16 \<Rightarrow> u8 list \<Rightarrow> net \<Rightarrow> (int \<times> net) option" where
  "udp_send pump n dst_ip sport dport payload s =
     (if 8 + length payload > 1500 then Some (-1, overran s)
      else let seg = udp_segment (ns_our_ip s) dst_ip sport dport payload
           in ip_send pump n dst_ip 17 (\<lambda>_. seg) s)"

definition udp_input :: "u32 \<Rightarrow> u8 list \<Rightarrow> net \<Rightarrow> net" where
  "udp_input src_ip p s =
     (if length p < 8 then s
      else let sport = get16 p 0; dport = get16 p 2; ulen = unat (get16 p 4);
               ulen = (if ulen < 8 \<or> ulen > length p then length p else ulen);
               data = take (ulen - 8) (drop 8 p);
               s = (if ns_dns_waiting s \<and> dport = ns_dns_sport s \<and> data \<noteq> []
                    then s\<lparr>ns_dns_rx := take 512 data, ns_dns_got := True\<rparr> else s);
               s = (if ns_dhcp_waiting s \<and> dport = 68 \<and> data \<noteq> []
                    then s\<lparr>ns_dhcp_rx := take 576 data, ns_dhcp_got := True\<rparr> else s)
           in s\<lparr>ns_ups := ns_ups s @ [Up_udp src_ip sport dport data]\<rparr>)"

subsection \<open>Inbound dispatch\<close>

definition ip_input :: "pump \<Rightarrow> nat \<Rightarrow> u8 list \<Rightarrow> net \<Rightarrow> net option" where
  "ip_input pump n pkt s =
     (if length pkt < 20 then Some s
      else let ihl = unat (pkt ! 0 AND 0x0F) * 4 in
        if ihl < 20 \<or> ihl > length pkt then Some s
        else let proto = pkt ! 9; src = get32 pkt 12; dst = get32 pkt 16 in
          if dst \<noteq> ns_our_ip s \<and> dst \<noteq> 0xFFFFFFFF then Some s
          else let total = unat (get16 pkt 2); total = (if total > length pkt then length pkt else total) in
            if total < ihl then Some s
            else let payload = take (total - ihl) (drop ihl pkt) in
              if proto = 1 then icmp_input pump n src payload s
              else if proto = 17 then Some (udp_input src payload s)
              else if proto = 6 then Some (s\<lparr>ns_ups := ns_ups s @ [Up_tcp src payload]\<rparr>)
              else Some s)"

definition net_input :: "pump \<Rightarrow> nat \<Rightarrow> u8 list \<Rightarrow> net \<Rightarrow> net option" where
  "net_input pump n f s =
     (if length f < 14 then Some s
      else let ethertype = get16 f 12 in
        if ethertype = 0x0806 then Some (arp_input f s)
        else if ethertype = 0x0800 then ip_input pump n (drop 14 f) s
        else Some s)"

subsection \<open>The DHCP client\<close>

definition dhcp_send_msg :: "pump \<Rightarrow> nat \<Rightarrow> u8 \<Rightarrow> u32 \<Rightarrow> u32 \<Rightarrow> u32 \<Rightarrow> u32 \<Rightarrow> bool \<Rightarrow> net \<Rightarrow> net option" where
  "dhcp_send_msg pump n type xid ciaddr reqip server bcast s =
     (let m = dhcp_msg (ns_hw_mac s) type xid ciaddr reqip server bcast;
          src = (if bcast then 0 else ns_our_ip s); dst = (if bcast then 0xFFFFFFFF else server);
          udp = udp_segment src dst 68 67 m
      in if bcast then Some (snd (eth_send (replicate 6 0xFF) 0x0800 (ip_packet src dst 17 udp) s))
         else map_option snd (ip_send pump n dst 17 (\<lambda>_. udp) s))"

definition dhcp_apply :: "dhcp_lease \<Rightarrow> net \<Rightarrow> net" where
  "dhcp_apply l s =
     (let s = s\<lparr>ns_our_ip := dl_yiaddr l\<rparr>;
          s = (if dl_mask l \<noteq> 0 then s\<lparr>ns_mask := dl_mask l\<rparr> else s);
          s = (if dl_router l \<noteq> 0 then s\<lparr>ns_gateway := dl_router l\<rparr> else s);
          s = (if dl_dns l \<noteq> 0 then s\<lparr>ns_dns := dl_dns l\<rparr> else s);
          s = (if dl_server l \<noteq> 0 then s\<lparr>ns_lease_server := dl_server l\<rparr> else s);
          s = s\<lparr>ns_lease_dur := lease_us (dl_secs l)\<rparr>
      in case timer_now_us s of (now, s) \<Rightarrow> s\<lparr>ns_lease_t0 := now, ns_lease_valid := True\<rparr>)"

text \<open>The reply when it has the wanted type; the parser never reads out of bounds (\<open>dhcp_parse_exact\<close>).\<close>

definition dhcp_reply :: "u32 \<Rightarrow> int \<Rightarrow> net \<Rightarrow> dhcp_lease option" where
  "dhcp_reply xid want s =
     (if ns_dhcp_got s then
        (case dhcp_parse (ns_dhcp_rx s) xid of Val l \<Rightarrow> if dl_type l = want then Some l else None | _ \<Rightarrow> None)
      else None)"

primrec dhcp_wait_loop :: "pump \<Rightarrow> u32 \<Rightarrow> int \<Rightarrow> u64 \<Rightarrow> nat \<Rightarrow> net \<Rightarrow> (dhcp_lease option \<times> net) option" where
  "dhcp_wait_loop pump xid want start 0 s = None"
| "dhcp_wait_loop pump xid want start (Suc n) s =
     (case timer_now_us s of (now, s) \<Rightarrow>
        if \<not> now - start < NET_TIMEOUT_US then Some (None, s)
        else case pump (s\<lparr>ns_dhcp_got := False\<rparr>) of None \<Rightarrow> None | Some (_, s) \<Rightarrow>
          case dhcp_reply xid want s of Some l \<Rightarrow> Some (Some l, s) | None \<Rightarrow>
          case net_signal_pending s of (sig, s) \<Rightarrow>
            if sig then Some (None, s) else dhcp_wait_loop pump xid want start n s)"

definition dhcp_wait_reply :: "pump \<Rightarrow> nat \<Rightarrow> u32 \<Rightarrow> int \<Rightarrow> net \<Rightarrow> (dhcp_lease option \<times> net) option" where
  "dhcp_wait_reply pump n xid want s =
     (case timer_now_us s of (start, s) \<Rightarrow> dhcp_wait_loop pump xid want start n s)"

text \<open>\<open>True\<close> is the return value 0.\<close>

definition net_dhcp :: "pump \<Rightarrow> nat \<Rightarrow> net \<Rightarrow> (bool \<times> net) option" where
  "net_dhcp pump n s =
     (case timer_now_us s of (now, s) \<Rightarrow>
        let xid = ucast now; s = s\<lparr>ns_dhcp_waiting := True, ns_dhcp_got := False\<rparr>
        in case dhcp_send_msg pump n 1 xid 0 0 0 True s of None \<Rightarrow> None | Some s \<Rightarrow>
           case dhcp_wait_reply pump n xid 2 s of
             None \<Rightarrow> None
           | Some (None, s) \<Rightarrow> Some (False, s\<lparr>ns_dhcp_waiting := False\<rparr>)
           | Some (Some offer, s) \<Rightarrow>
               case dhcp_send_msg pump n 3 xid 0 (dl_yiaddr offer) (dl_server offer) True s of None \<Rightarrow> None | Some s \<Rightarrow>
               case dhcp_wait_reply pump n xid 5 s of
                 None \<Rightarrow> None
               | Some (None, s) \<Rightarrow> Some (False, s\<lparr>ns_dhcp_waiting := False\<rparr>)
               | Some (Some ack, s) \<Rightarrow> Some (True, dhcp_apply ack (s\<lparr>ns_dhcp_waiting := False\<rparr>)))"

definition dhcp_renew :: "pump \<Rightarrow> nat \<Rightarrow> bool \<Rightarrow> net \<Rightarrow> (bool \<times> net) option" where
  "dhcp_renew pump n rebind s =
     (case timer_now_us s of (now, s) \<Rightarrow>
        let xid = ucast now; s = s\<lparr>ns_dhcp_waiting := True, ns_dhcp_got := False\<rparr>
        in case dhcp_send_msg pump n 3 xid (ns_our_ip s) 0 (if rebind then 0 else ns_lease_server s) rebind s of
             None \<Rightarrow> None
           | Some s \<Rightarrow> case dhcp_wait_reply pump n xid 5 s of
               None \<Rightarrow> None
             | Some (None, s) \<Rightarrow> Some (False, s\<lparr>ns_dhcp_waiting := False\<rparr>)
             | Some (Some ack, s) \<Rightarrow> Some (True, dhcp_apply ack (s\<lparr>ns_dhcp_waiting := False\<rparr>)))"

definition dhcp_renew_check :: "pump \<Rightarrow> nat \<Rightarrow> net \<Rightarrow> net option" where
  "dhcp_renew_check pump n s =
     (if \<not> ns_lease_valid s \<or> ns_in_renew s \<or> ns_dhcp_waiting s then Some s
      else case timer_now_us s of (now, s) \<Rightarrow>
        let action = lease_action (now - ns_lease_t0 s) (ns_lease_dur s) in
        if action = DHCP_HOLD then Some s
        else map_option (\<lambda>(_, s). s\<lparr>ns_in_renew := False\<rparr>)
          (let s = s\<lparr>ns_in_renew := True\<rparr> in
           if action = DHCP_RENEW then dhcp_renew pump n False s
           else if action = DHCP_REBIND then dhcp_renew pump n True s
           else net_dhcp pump n (s\<lparr>ns_lease_valid := False\<rparr>)))"

subsection \<open>The pump\<close>

definition pump_once :: "pump \<Rightarrow> nat \<Rightarrow> net \<Rightarrow> (int \<times> net) option" where
  "pump_once pump n s =
     (case dhcp_renew_check pump n s of None \<Rightarrow> None | Some s \<Rightarrow>
      case net_recv 2048 s of (f, s) \<Rightarrow>
        if f \<noteq> [] then (case net_input pump n f s of None \<Rightarrow> None | Some s \<Rightarrow> Some (1, s)) else Some (0, s))"

primrec net_pump :: "nat \<Rightarrow> net \<Rightarrow> (int \<times> net) option" where
  "net_pump 0 s = None"
| "net_pump (Suc n) s = pump_once (net_pump n) n s"

subsection \<open>Ping and resolve\<close>

primrec ping_wait :: "pump \<Rightarrow> u64 \<Rightarrow> nat \<Rightarrow> net \<Rightarrow> (nat option \<times> net) option" where
  "ping_wait pump start 0 s = None"
| "ping_wait pump start (Suc n) s =
     (case timer_now_us s of (now, s) \<Rightarrow>
        if \<not> now - start < NET_TIMEOUT_US then Some (None, s)
        else case pump s of None \<Rightarrow> None | Some (_, s) \<Rightarrow>
          if ns_ping_got s then
            case timer_now_us s of (now, s) \<Rightarrow> Some (Some (unat ((now - start) div 1000)), s)
          else case net_signal_pending s of (sig, s) \<Rightarrow>
            if sig then Some (None, s) else ping_wait pump start n s)"

definition echo_request :: "u16 \<Rightarrow> u16 \<Rightarrow> u8 list" where
  "echo_request pid sq =
     (let r = put16 pid @ put16 sq @ map of_nat [0..<32]
      in [8, 0] @ put16 (inet_csum ([8, 0, 0, 0] @ r)) @ r)"

text \<open>\<open>Some ms\<close> is the return value 0 with the round-trip time, \<open>None\<close> is -1.\<close>

definition net_ping :: "pump \<Rightarrow> nat \<Rightarrow> u32 \<Rightarrow> net \<Rightarrow> (nat option \<times> net) option" where
  "net_ping pump n ip s =
     (let s = s\<lparr>ns_ping_id := ns_ping_id s + 1, ns_ping_got := False, ns_ping_seq := ns_ping_seq s + 1\<rparr>
      in case ip_send pump n ip 1 (\<lambda>_. echo_request (ns_ping_id s) (ns_ping_seq s)) s of
           None \<Rightarrow> None
         | Some (r, s) \<Rightarrow> if r \<noteq> 0 then Some (None, s)
             else case timer_now_us s of (start, s) \<Rightarrow> ping_wait pump start n s)"

primrec dns_wait :: "pump \<Rightarrow> u64 \<Rightarrow> nat \<Rightarrow> net \<Rightarrow> net option" where
  "dns_wait pump start 0 s = None"
| "dns_wait pump start (Suc n) s =
     (case timer_now_us s of (now, s) \<Rightarrow>
        if \<not> now - start < NET_TIMEOUT_US then Some s
        else case pump s of None \<Rightarrow> None | Some (_, s) \<Rightarrow>
          if ns_dns_got s then Some s
          else case net_signal_pending s of (sig, s) \<Rightarrow> if sig then Some s else dns_wait pump start n s)"

definition net_resolve :: "pump \<Rightarrow> nat \<Rightarrow> u8 list \<Rightarrow> net \<Rightarrow> (u32 option \<times> net) option" where
  "net_resolve pump n host s =
     (case parse_dotted_quad host of Some ip \<Rightarrow> Some (Some ip, s) | None \<Rightarrow>
      let qid = ns_qid s + 1; sport = ns_next_sport s; nxt = (if sport + 1 = 0 then 50000 else sport + 1);
          s = s\<lparr>ns_qid := qid, ns_dns_sport := sport, ns_next_sport := nxt, ns_dns_waiting := True,
                ns_dns_got := False, ns_dns_rx := []\<rparr>
      in case dns_build_query qid host of
           None \<Rightarrow> Some (None, s\<lparr>ns_dns_waiting := False\<rparr>)
         | Some query \<Rightarrow>
             case udp_send pump n (ns_dns s) sport 53 query s of
               None \<Rightarrow> None
             | Some (r, s) \<Rightarrow>
                 if r \<noteq> 0 then Some (None, s\<lparr>ns_dns_waiting := False\<rparr>)
                 else case timer_now_us s of (start, s) \<Rightarrow>
                   case dns_wait pump start n s of None \<Rightarrow> None | Some s \<Rightarrow>
                   let s = s\<lparr>ns_dns_waiting := False\<rparr> in
                   if \<not> ns_dns_got s then Some (None, s)
                   else Some (case dns_parse_answer (ns_dns_rx s) qid of Val ip \<Rightarrow> Some ip | _ \<Rightarrow> None, s))"

end
