(* ===== verification/Netstack_Props.thy ===== *)
theory Netstack_Props
  imports Netstack
begin

text \<open>
  What the stack keeps, whatever the network sends: the frames it transmits are well formed, the ARP
  cache holds only what replies said, nothing is written outside a buffer while the frames received
  have the size of Ethernet, and a ping succeeds only on an echo reply.
\<close>

subsection \<open>Checksums\<close>

lemma inet_csum_verifies:
  assumes "even (length h)" "0 < csum_words h"
  shows "inet_csum (h @ put16 (inet_csum (h @ put16 0 @ a)) @ a) = 0"
  using csum_verify [of "csum_words h + csum_words a"] assms by (simp add: inet_csum_def csum_words_append csum_words_put16 ac_simps)

text \<open>A UDP datagram checks at its receiver: the sum over the pseudo-header and it is all ones.\<close>

definition udp_sum :: "u32 \<Rightarrow> u32 \<Rightarrow> u8 list \<Rightarrow> nat" where
  "udp_sum sip dip seg = unat (drop_bit 16 sip AND 0xFFFF) + unat (sip AND 0xFFFF) +
     unat (drop_bit 16 dip AND 0xFFFF) + unat (dip AND 0xFFFF) + 17 + length seg + csum_words seg"

lemma udp_checksum_verifies:
  "csum_finish (udp_sum sip dip (udp_segment sip dip sp dp d)) = 0"
proof -
  let ?h = "put16 sp @ put16 dp @ put16 (of_nat (8 + length d))"
  let ?c = "udp_checksum sip dip (?h @ put16 0 @ d)"
  define s where "s = udp_sum sip dip (?h @ put16 0 @ d)"
  have p: "0 < s" by (simp add: s_def udp_sum_def)
  have c: "?c = (if csum_finish s \<noteq> 0 then csum_finish s else 0xFFFF)"
    by (simp add: udp_checksum_def s_def udp_sum_def Let_def)
  have "udp_sum sip dip (?h @ put16 ?c @ d) = s + unat ?c"
    by (simp add: s_def udp_sum_def csum_words_append csum_words_put16)
  moreover have "csum_finish (s + unat ?c) = 0"
    unfolding c using csum_verify [OF p] csum_finish_ffff [OF p] by auto
  ultimately show ?thesis by (simp add: udp_segment_def Let_def)
qed

subsection \<open>Well-formed frames\<close>

definition ip_ok :: "u8 list \<Rightarrow> bool" where
  "ip_ok p \<longleftrightarrow> 20 \<le> length p \<and> p ! 0 = 0x45 \<and> unat (get16 p 2) = length p \<and> inet_csum (take 20 p) = 0"

definition frame_ok :: "u8 list \<Rightarrow> u8 list \<Rightarrow> bool" where
  "frame_ok mac f \<longleftrightarrow> length f \<le> 1514 \<and> take 6 (drop 6 f) = mac \<and>
     (get16 f 12 = 0x0806 \<and> length f = 42 \<or> get16 f 12 = 0x0800 \<and> ip_ok (drop 14 f))"

lemma ip_packet_ok:
  assumes "length d \<le> 1480"
  shows "ip_ok (ip_packet src dst proto d)" "length (ip_packet src dst proto d) = 20 + length d"
proof -
  define h where "h = [0x45, 0] @ put16 (of_nat (20 + length d)) @ put16 0 @ put16 0 @ [64, proto]"
  let ?a = "put32 src @ put32 dst"
  have p: "ip_packet src dst proto d = h @ put16 (inet_csum (h @ put16 0 @ ?a)) @ ?a @ d"
    by (simp only: ip_packet_def Let_def h_def)
  have l: "length h = 10" by (simp add: h_def)
  show "length (ip_packet src dst proto d) = 20 + length d" using l by (simp add: p)
  have g: "get16 (ip_packet src dst proto d) 2 = of_nat (20 + length d)"
    using get16_append [of 2 "[0x45, 0]" "of_nat (20 + length d)"] by (simp add: p h_def)
  have "inet_csum (h @ put16 (inet_csum (h @ put16 0 @ ?a)) @ ?a) = 0"
    by (rule inet_csum_verifies) (simp_all add: l, simp add: h_def)
  moreover have "take 20 (ip_packet src dst proto d) = h @ put16 (inet_csum (h @ put16 0 @ ?a)) @ ?a"
    by (simp add: p l)
  ultimately have "inet_csum (take 20 (ip_packet src dst proto d)) = 0" by (simp only:)
  moreover have "20 \<le> length (ip_packet src dst proto d)" "ip_packet src dst proto d ! 0 = 0x45"
    by (simp_all add: p l) (simp add: h_def)
  ultimately show "ip_ok (ip_packet src dst proto d)"
    unfolding ip_ok_def using assms g [unfolded p] l by (simp add: p unat_of_nat del: of_nat_add)
qed

subsection \<open>The invariant and the progress relation\<close>

definition arp_reply :: "u8 list \<Rightarrow> u32 \<Rightarrow> u8 list \<Rightarrow> bool" where
  "arp_reply f ip mac \<longleftrightarrow> 42 \<le> length f \<and> get16 f 12 = 0x0806 \<and> get16 (drop 14 f) 6 = 2 \<and>
     get32 (drop 14 f) 14 = ip \<and> take 6 (drop 8 (drop 14 f)) = mac"

definition echo_reply :: "u8 list \<Rightarrow> u16 \<Rightarrow> bool" where
  "echo_reply f pid \<longleftrightarrow> get16 f 12 = 0x0800 \<and> f ! 23 = 1 \<and>
     (let i = 14 + unat (f ! 14 AND 0x0F) * 4 in i + 8 \<le> length f \<and> f ! i = 0 \<and> get16 f (i + 4) = pid)"

text \<open>Frame \<open>k\<close> as \<open>net_recv\<close> delivers it.\<close>

definition rx_frame :: "net \<Rightarrow> nat \<Rightarrow> u8 list" where "rx_frame s k = take 2048 (ns_rx s k)"

definition net_inv :: "net \<Rightarrow> bool" where
  "net_inv s \<longleftrightarrow> length (ns_our_mac s) = 6 \<and> length (ns_hw_mac s) = 6 \<and> length (ns_arp s) = 8 \<and>
     length (ns_reply s) = 1500 \<and> length (ns_dns_rx s) \<le> 512 \<and> length (ns_dhcp_rx s) \<le> 576 \<and>
     (\<forall>e \<in> set (ns_arp s). ae_valid e \<longrightarrow> length (ae_mac e) = 6 \<and>
        (\<exists>k < ns_rx_pos s. arp_reply (rx_frame s k) (ae_ip e) (ae_mac e))) \<and>
     (\<forall>f \<in> set (ns_tx s). frame_ok (ns_our_mac s) f) \<and>
     ((\<forall>k. length (ns_rx s k) \<le> 1514) \<longrightarrow> \<not> ns_overrun s)"

definition net_rel :: "net \<Rightarrow> net \<Rightarrow> bool" where
  "net_rel s s' \<longleftrightarrow> ns_rx s' = ns_rx s \<and> ns_rx_pos s \<le> ns_rx_pos s' \<and> ns_ping_id s' = ns_ping_id s \<and>
     (\<exists>fs. ns_tx s' = ns_tx s @ fs) \<and>
     (ns_ping_got s' \<longrightarrow> ns_ping_got s \<or>
        (\<exists>k. ns_rx_pos s \<le> k \<and> k < ns_rx_pos s' \<and> echo_reply (rx_frame s k) (ns_ping_id s)))"

definition net_ok :: "net \<Rightarrow> net \<Rightarrow> bool" where
  "net_ok s s' \<longleftrightarrow> net_rel s s' \<and> (net_inv s \<longrightarrow> net_inv s')"

lemma net_ok_refl [simp, intro]: "net_ok s s"
  by (simp add: net_ok_def net_rel_def)

lemma net_ok_trans [trans]:
  assumes "net_ok a b" "net_ok b c" shows "net_ok a c"
proof -
  have "rx_frame b = rx_frame a" using assms(1) by (simp add: net_ok_def net_rel_def rx_frame_def fun_eq_iff)
  with assms show ?thesis unfolding net_ok_def net_rel_def
    by (auto dest: order_trans less_le_trans)
qed

text \<open>Steps that touch neither the frames nor what the invariant speaks of.\<close>

lemma net_inv_cong:
  assumes "ns_our_mac s' = ns_our_mac s" "ns_hw_mac s' = ns_hw_mac s" "ns_arp s' = ns_arp s"
    "length (ns_reply s') = length (ns_reply s)" "length (ns_dns_rx s') \<le> max 512 (length (ns_dns_rx s))"
    "length (ns_dhcp_rx s') \<le> max 576 (length (ns_dhcp_rx s))" "ns_rx s' = ns_rx s"
    "ns_rx_pos s \<le> ns_rx_pos s'" "ns_tx s' = ns_tx s" "ns_overrun s' = ns_overrun s" "net_inv s"
  shows "net_inv s'"
proof -
  have r: "rx_frame s' = rx_frame s" using assms(7) by (simp add: rx_frame_def fun_eq_iff)
  have "\<forall>e \<in> set (ns_arp s). ae_valid e \<longrightarrow> length (ae_mac e) = 6 \<and>
        (\<exists>k < ns_rx_pos s'. arp_reply (rx_frame s k) (ae_ip e) (ae_mac e))"
    using assms(8,11) unfolding net_inv_def by (meson less_le_trans)
  then show ?thesis using assms unfolding net_inv_def r by simp
qed

lemma net_ok_local:
  "ns_our_mac s' = ns_our_mac s \<Longrightarrow> ns_hw_mac s' = ns_hw_mac s \<Longrightarrow> ns_arp s' = ns_arp s \<Longrightarrow>
   length (ns_reply s') = length (ns_reply s) \<Longrightarrow> length (ns_dns_rx s') \<le> max 512 (length (ns_dns_rx s)) \<Longrightarrow>
   length (ns_dhcp_rx s') \<le> max 576 (length (ns_dhcp_rx s)) \<Longrightarrow> ns_rx s' = ns_rx s \<Longrightarrow>
   ns_rx_pos s \<le> ns_rx_pos s' \<Longrightarrow> ns_tx s' = ns_tx s \<Longrightarrow> ns_overrun s' = ns_overrun s \<Longrightarrow>
   ns_ping_id s' = ns_ping_id s \<Longrightarrow> ns_ping_got s' \<longrightarrow> ns_ping_got s \<Longrightarrow> net_ok s s'"
  unfolding net_ok_def net_rel_def using net_inv_cong [of s' s] by auto

lemma timer_ok: "timer_now_us s = (now, s') \<Longrightarrow> net_ok s s'"
  by (auto simp: timer_now_us_def intro!: net_ok_local)

lemma signal_ok: "net_signal_pending s = (sig, s') \<Longrightarrow> net_ok s s'"
  by (auto simp: net_signal_pending_def intro!: net_ok_local)

lemma recv_ok: "net_recv n s = (f, s') \<Longrightarrow> net_ok s s'"
  by (auto simp: net_recv_def split: if_splits intro!: net_ok_local)

lemma eth_send_ok:
  assumes "eth_send d et p s = (r, s')"
    and c: "net_inv s \<longrightarrow> length p \<le> 1500 \<and> length d = 6 \<and>
      (et = 0x0806 \<and> length p = 28 \<or> et = 0x0800 \<and> ip_ok p)"
  shows "net_ok s s'"
proof -
  let ?f = "d @ ns_our_mac s @ put16 et @ p"
  consider "s' = s" | "s' = overran s" "\<not> net_inv s" | "s' = s\<lparr>ns_tx := ns_tx s @ [?f]\<rparr>"
  proof -
    have o: "14 + length p > 1600 \<Longrightarrow> \<not> net_inv s" using c by auto
    show thesis using assms(1) o that unfolding eth_send_def net_send_def by (metis Pair_inject)
  qed
  then show ?thesis
  proof cases
    case 3
    have "frame_ok (ns_our_mac s) ?f" if "net_inv s"
    proof -
      have "length (ns_our_mac s) = 6" using that by (simp add: net_inv_def)
      then show ?thesis using get16_append [of 12 "d @ ns_our_mac s" et p] c that by (auto simp: frame_ok_def)
    qed
    then show ?thesis by (auto simp: 3 net_ok_def net_rel_def net_inv_def rx_frame_def)
  qed (auto simp: net_ok_def net_rel_def overran_def)
qed

lemma arp_xmit_ok: "length tha = 6 \<Longrightarrow> length dst = 6 \<Longrightarrow> net_ok s (arp_xmit oper tha tpa dst s)"
  unfolding arp_xmit_def by (rule eth_send_ok [OF prod.collapse [symmetric]]) (simp add: net_inv_def)

subsection \<open>The ARP cache\<close>

lemma arp_find_Some:
  "arp_find P s = Some i \<Longrightarrow> i < 8 \<and> P (ns_arp s ! i) \<and> (\<forall>j < i. \<not> P (ns_arp s ! j))"
  by (auto simp: arp_find_def find_Some_iff)

lemma arp_find_None: "arp_find P s = None \<longleftrightarrow> (\<forall>i < 8. \<not> P (ns_arp s ! i))"
  by (auto simp: arp_find_def find_None_iff)

lemma arp_put_frame:
  "ns_tx (arp_cache_put ip mac s) = ns_tx s" "ns_rx (arp_cache_put ip mac s) = ns_rx s"
  "ns_rx_pos (arp_cache_put ip mac s) = ns_rx_pos s" "ns_ping_got (arp_cache_put ip mac s) = ns_ping_got s"
  "ns_ping_id (arp_cache_put ip mac s) = ns_ping_id s"
  by (simp_all add: arp_cache_put_def split: option.split)

lemma arp_put_ok:
  assumes "length mac = 6" "k < ns_rx_pos s" "arp_reply (rx_frame s k) ip mac"
  shows "net_ok s (arp_cache_put ip mac s)"
proof -
  have "net_inv (arp_cache_put ip mac s)" if "net_inv s"
  proof -
    let ?ok = "\<lambda>e. ae_valid e \<longrightarrow> length (ae_mac e) = 6 \<and>
        (\<exists>k < ns_rx_pos s. arp_reply (rx_frame s k) (ae_ip e) (ae_mac e))"
    have a: "\<forall>e \<in> set (ns_arp s). ?ok e" using that by (simp add: net_inv_def)
    have n: "?ok ((ns_arp s ! i)\<lparr>ae_mac := mac\<rparr>)" if "ae_ip (ns_arp s ! i) = ip" for i
      using assms that by auto
    have m: "?ok ((ns_arp s ! i)\<lparr>ae_ip := ip, ae_valid := True, ae_mac := mac\<rparr>)" for i
      using assms by auto
    have "\<forall>e \<in> set (ns_arp (arp_cache_put ip mac s)). ?ok e"
      using a n m by (auto simp: arp_cache_put_def dest!: arp_find_Some set_update_subset_insert [THEN subsetD]
          split: option.splits)
    moreover have "length (ns_arp (arp_cache_put ip mac s)) = 8" using that
      by (auto simp: net_inv_def arp_cache_put_def split: option.split)
    moreover have "net_inv t = net_inv (s\<lparr>ns_arp := ns_arp t\<rparr>)" if "t = arp_cache_put ip mac s" for t
      unfolding that by (simp add: arp_cache_put_def split: option.split)
    ultimately show ?thesis using that by (auto simp: net_inv_def rx_frame_def)
  qed
  then show ?thesis by (simp add: net_ok_def net_rel_def arp_put_frame)
qed

lemma arp_get_mac: "net_inv s \<Longrightarrow> arp_cache_get ip s = Some mac \<Longrightarrow> length mac = 6 \<and>
    (\<exists>k < ns_rx_pos s. arp_reply (rx_frame s k) ip mac)"
  by (auto simp: arp_cache_get_def net_inv_def dest!: arp_find_Some)

lemma arp_input_ok:
  assumes "f = rx_frame s k" "k < ns_rx_pos s" "get16 f 12 = 0x0806"
  shows "net_ok s (arp_input f s)"
proof (cases "length f < 42")
  case False
  define sha spa where "sha = take 6 (drop 8 (drop 14 f))" and "spa = get32 (drop 14 f) 14"
  define s' where "s' = (if get16 (drop 14 f) 6 = 1 \<and> get32 (drop 14 f) 24 = ns_our_ip s
      then arp_xmit 2 sha spa sha s else s)"
  have l: "length sha = 6" using False by (simp add: sha_def)
  have ok: "net_ok s s'" using arp_xmit_ok [OF l l] by (simp add: s'_def)
  have e: "arp_input f s = (if get16 (drop 14 f) 6 = 2 then arp_cache_put spa sha s' else s')"
    using False by (simp add: arp_input_def Let_def s'_def sha_def spa_def)
  show ?thesis
  proof (cases "get16 (drop 14 f) 6 = 2")
    case True
    then have "s' = s" by (simp add: s'_def)
    have "arp_reply (rx_frame s k) spa sha"
      using False True assms(1,3) by (simp add: arp_reply_def sha_def spa_def)
    from arp_put_ok [OF l assms(2) this] show ?thesis using e True \<open>s' = s\<close> by simp
  qed (use e ok in simp)
qed (simp add: arp_input_def)

lemma udp_input_ok: "net_ok s (udp_input src p s)"
proof -
  have "min 512 a \<le> max 512 b" "min 576 a \<le> max 576 b" "min a (min 512 c) \<le> max 512 b"
    "min a (min 576 c) \<le> max 576 b"
    "min a 512 \<le> max 512 b" "min a 576 \<le> max 576 b" for a b c :: nat by linarith+
  then show ?thesis by (intro net_ok_local) (simp_all add: udp_input_def Let_def)
qed

subsection \<open>The contract of the pump\<close>

text \<open>
  Everything that waits relies on two laws of \<open>net_pump\<close> only: it keeps the invariant and makes
  progress in the sense of \<open>net_rel\<close>.
\<close>

locale pump_law =
  fixes pump :: pump and n :: nat
  assumes pump_ok: "pump s = Some (r, s') \<Longrightarrow> net_ok s s'"
begin

lemma arp_wait_ok:
  "arp_wait pump ip start m s = Some (r, s') \<Longrightarrow> net_ok s s' \<and> (\<forall>mac. r = Some mac \<longrightarrow> arp_cache_get ip s' = Some mac)"
proof (induction m arbitrary: s)
  case (Suc m)
  obtain now s1 where t: "timer_now_us s = (now, s1)" by fastforce
  show ?case
  proof (cases "now - start < NET_TIMEOUT_US")
    case True
    then obtain r2 s2 where p: "pump s1 = Some (r2, s2)" using Suc.prems t by (auto split: option.splits)
    have ok: "net_ok s s2" using timer_ok [OF t] pump_ok [OF p] by (rule net_ok_trans)
    obtain sg s3 where g: "net_signal_pending s2 = (sg, s3)" by fastforce
    show ?thesis
    proof (cases "arp_cache_get ip s2")
      case None
      with Suc.prems True t p g have "(if sg then Some (None, s3) else arp_wait pump ip start m s3) = Some (r, s')"
        by simp
      with Suc.IH [of s3] net_ok_trans [OF ok signal_ok [OF g]] show ?thesis
        by (auto split: if_splits intro: net_ok_trans)
    qed (use Suc.prems True t p ok in auto)
  qed (use Suc.prems t timer_ok [OF t] in auto)
qed simp

lemma arp_resolve_ok:
  assumes "arp_resolve pump n ip s = Some (r, s')"
  shows "net_ok s s'" "r = Some mac \<Longrightarrow> arp_cache_get ip s' = Some mac"
proof -
  have "net_ok s s' \<and> (\<forall>mac. r = Some mac \<longrightarrow> arp_cache_get ip s' = Some mac)"
  proof (cases "arp_cache_get ip s")
    case None
    define s1 where "s1 = arp_xmit 1 (replicate 6 0) ip (replicate 6 0xFF) s"
    obtain st s2 where t: "timer_now_us s1 = (st, s2)" by fastforce
    have "net_ok s s2" using arp_xmit_ok timer_ok [OF t] unfolding s1_def by (rule net_ok_trans) simp_all
    moreover have "arp_wait pump ip st n s2 = Some (r, s')"
      using assms None t by (simp add: arp_resolve_def s1_def)
    ultimately show ?thesis using arp_wait_ok net_ok_trans by blast
  qed (use assms in \<open>auto simp: arp_resolve_def\<close>)
  then show "net_ok s s'" "r = Some mac \<Longrightarrow> arp_cache_get ip s' = Some mac" by auto
qed

lemma ip_send_ok:
  assumes "ip_send pump n dst proto payload s = Some (r, s')"
    and "\<And>t. net_inv s \<Longrightarrow> ns_rx t = ns_rx s \<Longrightarrow> \<forall>k. length (ns_rx s k) \<le> 1514 \<Longrightarrow> length (payload t) \<le> 1480"
  shows "net_ok s s'"
proof -
  define nh where "nh = (if (dst XOR ns_our_ip s) AND ns_mask s \<noteq> 0 then ns_gateway s else dst)"
  obtain m s1 where r: "arp_resolve pump n nh s = Some (m, s1)"
    using assms(1) by (auto simp: ip_send_def Let_def nh_def [symmetric] split: option.splits)
  note ok = arp_resolve_ok [OF r]
  show ?thesis
  proof (cases m)
    case None
    then show ?thesis using assms(1) r ok by (simp add: ip_send_def Let_def nh_def [symmetric])
  next
    case (Some mac)
    let ?p = "payload s1"
    have e: "Some (r, s') = (if 20 + length ?p > 1500 then Some (-1, overran s1)
        else Some (eth_send mac 0x0800 (ip_packet (ns_our_ip s1) dst proto ?p) s1))"
      using assms(1) r Some by (simp add: ip_send_def Let_def nh_def [symmetric])
    show ?thesis
    proof (cases "20 + length ?p > 1500")
      case True
      have "ns_rx s1 = ns_rx s" using ok(1) by (simp add: net_ok_def net_rel_def)
      with True assms(2) [of s1] have "net_inv s \<Longrightarrow> \<not> (\<forall>k. length (ns_rx s1 k) \<le> 1514)" by force
      with True e ok(1) show ?thesis by (auto simp: net_ok_def net_rel_def net_inv_def overran_def rx_frame_def)
    next
      case False
      have "length mac = 6" if "net_inv s1" using arp_get_mac [OF that] ok(2) Some by blast
      moreover have "length (ip_packet (ns_our_ip s1) dst proto ?p) \<le> 1500" "ip_ok (ip_packet (ns_our_ip s1) dst proto ?p)"
        using ip_packet_ok [of ?p] False by simp_all
      moreover have "eth_send mac 0x0800 (ip_packet (ns_our_ip s1) dst proto ?p) s1 = (r, s')"
        using e False by (simp split: if_splits)
      ultimately have "net_ok s1 s'" by (intro eth_send_ok) auto
      with ok(1) show ?thesis by (rule net_ok_trans)
    qed
  qed
qed

lemma icmp_input_ok:
  assumes "icmp_input pump n src p s = Some s'" and l: "(\<forall>k. length (ns_rx s k) \<le> 1514) \<longrightarrow> length p \<le> 1480"
  shows "net_ok s s' \<or> s' = s\<lparr>ns_ping_got := True\<rparr> \<and> 8 \<le> length p \<and> p ! 0 = 0 \<and> get16 p 4 = ns_ping_id s"
proof (cases "8 \<le> length p \<and> p ! 0 = 8")
  case True
  show ?thesis
  proof (cases "length p > 1500")
    case big: True
    then have "s' = overran s" using assms(1) True by (simp add: icmp_input_def)
    then show ?thesis using l big by (auto simp: net_ok_def net_rel_def net_inv_def overran_def rx_frame_def)
  next
    case False
    define s1 where "s1 = s\<lparr>ns_reply := [0, p ! 1] @ put16 (inet_csum ([0, p ! 1, 0, 0] @ drop 4 p)) @ drop 4 p @
      drop (length p) (ns_reply s)\<rparr>"
    obtain r where r: "ip_send pump n src 1 (\<lambda>s. take (length p) (ns_reply s)) s1 = Some (r, s')"
      using assms(1) True False by (auto simp: icmp_input_def Let_def s1_def)
    have "net_ok s s1"
    proof (cases "length (ns_reply s) = 1500")
      case True
      with False \<open>8 \<le> length p \<and> p ! 0 = 8\<close> show ?thesis unfolding s1_def by (intro net_ok_local) simp_all
    qed (simp add: net_ok_def net_rel_def net_inv_def s1_def rx_frame_def)
    moreover have "net_ok s1 s'"
      by (rule ip_send_ok [OF r]) (use l in \<open>auto simp: s1_def\<close>)
    ultimately have "net_ok s s'" by (rule net_ok_trans)
    then show ?thesis ..
  qed
qed (use assms(1) in \<open>auto simp: icmp_input_def split: if_splits\<close>)

lemma ip_input_ok:
  assumes "ip_input pump n pkt s = Some s'" and l: "(\<forall>k. length (ns_rx s k) \<le> 1514) \<longrightarrow> length pkt \<le> 1500"
  shows "net_ok s s' \<or> s' = s\<lparr>ns_ping_got := True\<rparr> \<and> pkt ! 9 = 1 \<and>
    (let i = unat (pkt ! 0 AND 0x0F) * 4 in i + 8 \<le> length pkt \<and> pkt ! i = 0 \<and> get16 pkt (i + 4) = ns_ping_id s)"
proof -
  define ihl where "ihl = unat (pkt ! 0 AND 0x0F) * 4"
  define tot where "tot = (if unat (get16 pkt 2) > length pkt then length pkt else unat (get16 pkt 2))"
  define pay where "pay = take (tot - ihl) (drop ihl pkt)"
  have c: "s' = s \<or> icmp_input pump n (get32 pkt 12) pay s = Some s' \<and> pkt ! 9 = 1 \<and> 20 \<le> ihl \<or>
      s' = udp_input (get32 pkt 12) pay s \<or> s' = s\<lparr>ns_ups := ns_ups s @ [Up_tcp (get32 pkt 12) pay]\<rparr>"
    using assms(1) unfolding ip_input_def Let_def ihl_def [symmetric] tot_def [symmetric] pay_def [symmetric]
    by (auto split: if_splits)
  have pl: "20 \<le> ihl \<Longrightarrow> (\<forall>k. length (ns_rx s k) \<le> 1514) \<longrightarrow> length pay \<le> 1480" using l by (auto simp: pay_def)
  have nj: "pay ! j = pkt ! (ihl + j)" if "j < length pay" for j
  proof -
    have "ihl \<le> length pkt" "j < tot - ihl" using that by (auto simp: pay_def)
    then show ?thesis using nth_drop [of ihl pkt j] by (simp add: pay_def)
  qed
  have pj: "8 \<le> length pay \<Longrightarrow> pay ! 0 = pkt ! ihl \<and> get16 pay 4 = get16 pkt (ihl + 4)"
    using nj [of 0] nj [of 4] nj [of 5] by (cases pay) (auto simp: get16_def add.commute)
  have pb: "8 \<le> length pay \<Longrightarrow> ihl + 8 \<le> length pkt" by (auto simp: pay_def)
  from c consider "s' = s" | "icmp_input pump n (get32 pkt 12) pay s = Some s'" "pkt ! 9 = 1" "20 \<le> ihl"
    | "s' = udp_input (get32 pkt 12) pay s" | "s' = s\<lparr>ns_ups := ns_ups s @ [Up_tcp (get32 pkt 12) pay]\<rparr>" by blast
  then show ?thesis
  proof cases
    case 2
    from icmp_input_ok [OF 2(1) pl [OF 2(3)]] 2(2) pj pb show ?thesis
      unfolding Let_def ihl_def [symmetric] by auto
  next
    case 4
    have "net_ok s s'" unfolding 4 by (rule net_ok_local) simp_all
    then show ?thesis ..
  qed (auto simp: udp_input_ok)
qed

lemma net_input_ok:
  assumes "net_input pump n f s = Some s'" "f = rx_frame s k" "k < ns_rx_pos s"
  shows "net_ok s s' \<or> s' = s\<lparr>ns_ping_got := True\<rparr> \<and> echo_reply f (ns_ping_id s)"
proof -
  consider "s' = s" | "14 \<le> length f" "get16 f 12 = 0x0806" "s' = arp_input f s"
    | "14 \<le> length f" "get16 f 12 = 0x0800" "ip_input pump n (drop 14 f) s = Some s'"
    using assms(1) by (auto simp: net_input_def Let_def split: if_splits)
  then show ?thesis
  proof cases
    case 2
    then show ?thesis using arp_input_ok [OF assms(2,3) 2(2)] by simp
  next
    case 3
    have "(\<forall>k. length (ns_rx s k) \<le> 1514) \<longrightarrow> length (drop 14 f) \<le> 1500"
    proof
      assume "\<forall>k. length (ns_rx s k) \<le> 1514"
      then have "length (ns_rx s k) \<le> 1514" by blast
      then show "length (drop 14 f) \<le> 1500" by (simp add: assms(2) rx_frame_def)
    qed
    from ip_input_ok [OF 3(3) this] show ?thesis
    proof
      assume a: "s' = s\<lparr>ns_ping_got := True\<rparr> \<and> drop 14 f ! 9 = 1 \<and>
        (let i = unat (drop 14 f ! 0 AND 0x0F) * 4 in i + 8 \<le> length (drop 14 f) \<and> drop 14 f ! i = 0 \<and>
          get16 (drop 14 f) (i + 4) = ns_ping_id s)"
      have "echo_reply f (ns_ping_id s)"
        using a 3(1,2) by (auto simp: echo_reply_def Let_def get16_def add.assoc)
      with a show ?thesis by simp
    qed simp
  qed simp
qed

lemma udp_send_ok:
  assumes "udp_send pump n dst sp dp d s = Some (r, s')"
    and "net_inv s \<Longrightarrow> \<forall>k. length (ns_rx s k) \<le> 1514 \<Longrightarrow> length d \<le> 1472"
  shows "net_ok s s'"
proof (cases "8 + length d > 1500")
  case True
  then have "s' = overran s" using assms(1) by (simp add: udp_send_def)
  with True assms(2) show ?thesis by (force simp: net_ok_def net_rel_def net_inv_def overran_def rx_frame_def)
next
  case False
  then show ?thesis using assms(1) unfolding udp_send_def Let_def
    by (simp, elim ip_send_ok) (use assms(2) in \<open>auto simp: udp_segment_def Let_def\<close>)
qed

lemma dhcp_send_msg_ok:
  assumes "dhcp_send_msg pump n type xid ci rq sv bc s = Some s'"
  shows "net_ok s s'"
proof -
  define m where "m = dhcp_msg (ns_hw_mac s) type xid ci rq sv bc"
  define udp where "udp = udp_segment (if bc then 0 else ns_our_ip s) (if bc then 0xFFFFFFFF else sv) 68 67 m"
  have l: "net_inv s \<Longrightarrow> length udp \<le> 272" by (simp add: udp_def udp_segment_def Let_def m_def dhcp_msg_def net_inv_def)
  show ?thesis
  proof (cases bc)
    case True
    then have s': "s' = snd (eth_send (replicate 6 0xFF) 0x0800 (ip_packet 0 0xFFFFFFFF 17 udp) s)"
      using assms by (simp add: dhcp_send_msg_def Let_def m_def udp_def)
    show ?thesis unfolding s'
      by (rule eth_send_ok [OF prod.collapse [symmetric]]) (use l ip_packet_ok [of udp] in \<open>auto\<close>)
  next
    case False
    then obtain r where "ip_send pump n sv 17 (\<lambda>_. udp) s = Some (r, s')"
      using assms by (auto simp: dhcp_send_msg_def Let_def m_def udp_def)
    then show ?thesis by (rule ip_send_ok) (use l in simp)
  qed
qed

lemma dhcp_wait_ok: "dhcp_wait_loop pump xid want start m s = Some (r, s') \<Longrightarrow> net_ok s s' \<and>
    (\<forall>l. r = Some l \<longrightarrow> dhcp_parse (ns_dhcp_rx s') xid = Val l \<and> dl_type l = want)"
proof (induction m arbitrary: s)
  case (Suc m)
  obtain now s1 where t: "timer_now_us s = (now, s1)" by fastforce
  show ?case
  proof (cases "now - start < NET_TIMEOUT_US")
    case True
    then obtain r2 s2 where p: "pump (s1\<lparr>ns_dhcp_got := False\<rparr>) = Some (r2, s2)"
      using Suc.prems t by (auto split: option.splits)
    have "net_ok s1 (s1\<lparr>ns_dhcp_got := False\<rparr>)" by (rule net_ok_local) simp_all
    then have ok: "net_ok s s2" using timer_ok [OF t] pump_ok [OF p] net_ok_trans by blast
    obtain sg s3 where g: "net_signal_pending s2 = (sg, s3)" by fastforce
    show ?thesis
    proof (cases "dhcp_reply xid want s2")
      case None
      with Suc.prems True t p g have
        "(if sg then Some (None, s3) else dhcp_wait_loop pump xid want start m s3) = Some (r, s')" by simp
      with Suc.IH [of s3] net_ok_trans [OF ok signal_ok [OF g]] show ?thesis
        by (auto split: if_splits intro: net_ok_trans)
    next
      case (Some l)
      moreover have "dhcp_parse (ns_dhcp_rx s2) xid = Val l \<and> dl_type l = want"
        using Some by (auto simp: dhcp_reply_def split: if_splits parse.splits)
      ultimately show ?thesis using Suc.prems True t p ok by auto
    qed
  qed (use Suc.prems t timer_ok [OF t] in auto)
qed simp

lemma dhcp_wait_reply_ok: "dhcp_wait_reply pump n xid want s = Some (r, s') \<Longrightarrow> net_ok s s' \<and>
    (\<forall>l. r = Some l \<longrightarrow> dhcp_parse (ns_dhcp_rx s') xid = Val l \<and> dl_type l = want)"
  unfolding dhcp_wait_reply_def using timer_ok [of s] dhcp_wait_ok net_ok_trans
  by (fastforce split: prod.splits)

lemma dhcp_apply_ok: "net_ok s (dhcp_apply l s)"
  by (rule net_ok_local) (simp_all add: dhcp_apply_def timer_now_us_def Let_def)

text \<open>The tail of an exchange: a request, the wait for its ACK, and the lease.\<close>

lemma request_ok:
  assumes "(case dhcp_wait_reply pump n xid 5 s of
       None \<Rightarrow> None
     | Some (None, s) \<Rightarrow> Some (False, s\<lparr>ns_dhcp_waiting := False\<rparr>)
     | Some (Some ack, s) \<Rightarrow> Some (True, dhcp_apply ack (s\<lparr>ns_dhcp_waiting := False\<rparr>))) = Some (r, s')"
  shows "net_ok s s'"
proof -
  obtain l t where w: "dhcp_wait_reply pump n xid 5 s = Some (l, t)" using assms by (auto split: option.splits)
  have "net_ok t (t\<lparr>ns_dhcp_waiting := False\<rparr>)" by (rule net_ok_local) simp_all
  with dhcp_wait_reply_ok [OF w] have "net_ok s (t\<lparr>ns_dhcp_waiting := False\<rparr>)" using net_ok_trans by blast
  with assms w show ?thesis by (auto split: option.splits intro: net_ok_trans dhcp_apply_ok)
qed

lemma net_dhcp_ok:
  assumes "net_dhcp pump n s = Some (r, s')" shows "net_ok s s'"
proof -
  obtain now s1 where t: "timer_now_us s = (now, s1)" by fastforce
  define s2 where "s2 = s1\<lparr>ns_dhcp_waiting := True, ns_dhcp_got := False\<rparr>"
  have "net_ok s1 s2" unfolding s2_def by (rule net_ok_local) simp_all
  with timer_ok [OF t] have ok2: "net_ok s s2" by (rule net_ok_trans)
  obtain s3 where d: "dhcp_send_msg pump n 1 (ucast now) 0 0 0 True s2 = Some s3"
    using assms t by (auto simp: net_dhcp_def s2_def Let_def split: option.splits)
  obtain l s4 where w: "dhcp_wait_reply pump n (ucast now) 2 s3 = Some (l, s4)"
    using assms t d by (auto simp: net_dhcp_def s2_def Let_def split: option.splits)
  have ok4: "net_ok s s4" using ok2 dhcp_send_msg_ok [OF d] dhcp_wait_reply_ok [OF w] net_ok_trans by blast
  show ?thesis
  proof (cases l)
    case None
    have "net_ok s4 (s4\<lparr>ns_dhcp_waiting := False\<rparr>)" by (rule net_ok_local) simp_all
    with None assms t d w ok4 show ?thesis
      by (auto simp: net_dhcp_def s2_def [symmetric] Let_def intro: net_ok_trans)
  next
    case (Some offer)
    then obtain s5 where e: "dhcp_send_msg pump n 3 (ucast now) 0 (dl_yiaddr offer) (dl_server offer) True s4 = Some s5"
      using assms t d w by (auto simp: net_dhcp_def s2_def [symmetric] Let_def split: option.splits)
    have "net_ok s5 s'" by (rule request_ok [of "ucast now" s5 r s'])
      (use assms t d w Some e in \<open>simp add: net_dhcp_def s2_def [symmetric] Let_def\<close>)
    with ok4 dhcp_send_msg_ok [OF e] show ?thesis using net_ok_trans by blast
  qed
qed

lemma dhcp_renew_ok:
  assumes "dhcp_renew pump n rb s = Some (r, s')" shows "net_ok s s'"
proof -
  obtain now s1 where t: "timer_now_us s = (now, s1)" by fastforce
  define s2 where "s2 = s1\<lparr>ns_dhcp_waiting := True, ns_dhcp_got := False\<rparr>"
  have "net_ok s1 s2" unfolding s2_def by (rule net_ok_local) simp_all
  with timer_ok [OF t] have ok2: "net_ok s s2" by (rule net_ok_trans)
  have e: "dhcp_renew pump n rb s =
     (case dhcp_send_msg pump n 3 (ucast now) (ns_our_ip s2) 0 (if rb then 0 else ns_lease_server s2) rb s2 of
        None \<Rightarrow> None
      | Some s \<Rightarrow> case dhcp_wait_reply pump n (ucast now) 5 s of
          None \<Rightarrow> None
        | Some (None, s) \<Rightarrow> Some (False, s\<lparr>ns_dhcp_waiting := False\<rparr>)
        | Some (Some ack, s) \<Rightarrow> Some (True, dhcp_apply ack (s\<lparr>ns_dhcp_waiting := False\<rparr>)))"
    by (simp only: dhcp_renew_def t prod.case Let_def s2_def)
  obtain s3 where d: "dhcp_send_msg pump n 3 (ucast now) (ns_our_ip s2) 0 (if rb then 0 else ns_lease_server s2) rb s2 = Some s3"
    using assms unfolding e by (cases "dhcp_send_msg pump n 3 (ucast now) (ns_our_ip s2) 0 (if rb then 0 else ns_lease_server s2) rb s2") auto
  have "net_ok s3 s'" by (rule request_ok [of "ucast now" s3 r s']) (use assms in \<open>simp only: e d option.case\<close>)
  with ok2 dhcp_send_msg_ok [OF d] show ?thesis using net_ok_trans by blast
qed

lemma dhcp_renew_check_ok:
  assumes "dhcp_renew_check pump n s = Some s'" shows "net_ok s s'"
proof -
  obtain now s1 where t: "timer_now_us s = (now, s1)" by fastforce
  define s2 where "s2 = s1\<lparr>ns_in_renew := True\<rparr>"
  have "net_ok s1 s2" "net_ok s2 (s2\<lparr>ns_lease_valid := False\<rparr>)" unfolding s2_def by (rule net_ok_local; simp)+
  then have ok2: "net_ok s s2" "net_ok s (s2\<lparr>ns_lease_valid := False\<rparr>)" using timer_ok [OF t] net_ok_trans by blast+
  define act where "act = lease_action (now - ns_lease_t0 s1) (ns_lease_dur s1)"
  have e: "dhcp_renew_check pump n s = (if \<not> ns_lease_valid s \<or> ns_in_renew s \<or> ns_dhcp_waiting s then Some s
      else if act = DHCP_HOLD then Some s1 else map_option (\<lambda>(_, s). s\<lparr>ns_in_renew := False\<rparr>)
        (if act = DHCP_RENEW then dhcp_renew pump n False s2
         else if act = DHCP_REBIND then dhcp_renew pump n True s2 else net_dhcp pump n (s2\<lparr>ns_lease_valid := False\<rparr>)))"
    by (simp add: dhcp_renew_check_def t act_def s2_def Let_def)
  have fin: "net_ok s (b\<lparr>ns_in_renew := False\<rparr>)" if "net_ok s b" for b
    by (rule net_ok_trans [OF that]) (rule net_ok_local; simp)
  show ?thesis
    using assms timer_ok [OF t] unfolding e
    by (auto split: if_splits intro: fin dest!: net_ok_trans [OF ok2(1) dhcp_renew_ok] net_ok_trans [OF ok2(2) net_dhcp_ok])
qed

text \<open>One turn of the pump obeys the law when the pump it calls does.\<close>

lemma pump_once_ok:
  assumes "pump_once pump n s = Some (r, s')" shows "net_ok s s'"
proof -
  obtain s1 where c: "dhcp_renew_check pump n s = Some s1" using assms by (auto simp: pump_once_def split: option.splits)
  obtain f s2 where v: "net_recv 2048 s1 = (f, s2)" by fastforce
  have ok1: "net_ok s s1" and ok2: "net_ok s s2"
    using dhcp_renew_check_ok [OF c] recv_ok [OF v] net_ok_trans by blast+
  show ?thesis
  proof (cases "f = []")
    case True
    with assms c v ok2 show ?thesis by (simp add: pump_once_def)
  next
    case False
    then have k: "f = rx_frame s2 (ns_rx_pos s1)" "ns_rx_pos s2 = Suc (ns_rx_pos s1)" "ns_ping_id s2 = ns_ping_id s1"
        "ns_rx s2 = ns_rx s1"
      using v by (auto simp: net_recv_def rx_frame_def split: if_splits)
    have n: "net_input pump n f s2 = Some s'"
      using assms c v False by (auto simp: pump_once_def split: option.splits)
    from net_input_ok [OF n k(1)] k(2) have
      "net_ok s2 s' \<or> s' = s2\<lparr>ns_ping_got := True\<rparr> \<and> echo_reply f (ns_ping_id s2)" by simp
    then show ?thesis
    proof
      assume e: "s' = s2\<lparr>ns_ping_got := True\<rparr> \<and> echo_reply f (ns_ping_id s2)"
      have r: "ns_rx s1 = ns_rx s" "ns_ping_id s1 = ns_ping_id s" "ns_rx_pos s \<le> ns_rx_pos s1"
        using ok1 by (simp_all add: net_ok_def net_rel_def)
      have "echo_reply (rx_frame s (ns_rx_pos s1)) (ns_ping_id s)" using e k r by (simp add: rx_frame_def)
      moreover have "net_inv s2 \<Longrightarrow> net_inv s'" using e by (simp add: net_inv_def rx_frame_def)
      ultimately show ?thesis using ok2 r k e by (auto simp: net_ok_def net_rel_def)
    qed (use ok2 net_ok_trans in blast)
  qed
qed

end

text \<open>Every pump the fuel builds obeys the law.\<close>

lemma net_pump_ok: "net_pump n s = Some (r, s') \<Longrightarrow> net_ok s s'"
proof (induction n arbitrary: s r s')
  case (Suc n)
  have "pump_law (net_pump n)" by unfold_locales (rule Suc.IH)
  from pump_law.pump_once_ok [OF this] Suc.prems show ?case by simp
qed simp

interpretation np: pump_law "net_pump n" for n
  by unfold_locales (rule net_pump_ok)

subsection \<open>Ping and resolve\<close>

context pump_law
begin

lemma ping_wait_ok: "ping_wait pump start m s = Some (r, s') \<Longrightarrow> net_ok s s' \<and> (r \<noteq> None \<longrightarrow> ns_ping_got s')"
proof (induction m arbitrary: s)
  case (Suc m)
  obtain now s1 where t: "timer_now_us s = (now, s1)" by fastforce
  show ?case
  proof (cases "now - start < NET_TIMEOUT_US")
    case True
    then obtain r2 s2 where p: "pump s1 = Some (r2, s2)" using Suc.prems t by (auto split: option.splits)
    have ok: "net_ok s s2" using timer_ok [OF t] pump_ok [OF p] by (rule net_ok_trans)
    obtain n3 t3 where t3: "timer_now_us s2 = (n3, t3)" by fastforce
    obtain sg s3 where g: "net_signal_pending s2 = (sg, s3)" by fastforce
    have "ns_ping_got t3 = ns_ping_got s2" using t3 by (auto simp: timer_now_us_def)
    with Suc.prems True t p g t3 Suc.IH [of s3] ok net_ok_trans [OF ok signal_ok [OF g]] net_ok_trans [OF ok timer_ok [OF t3]]
    show ?thesis by (auto split: if_splits intro: net_ok_trans)
  qed (use Suc.prems t timer_ok [OF t] in auto)
qed simp

lemma length_echo_request: "length (echo_request a b) = 40"
  by (simp add: echo_request_def Let_def)

lemma net_ping_ok:
  assumes "net_ping pump n ip s = Some (r, s')"
  shows "(net_inv s \<longrightarrow> net_inv s') \<and> (r \<noteq> None \<longrightarrow>
    (\<exists>k. ns_rx_pos s \<le> k \<and> k < ns_rx_pos s' \<and> echo_reply (rx_frame s k) (ns_ping_id s + 1)))"
proof -
  define s1 where "s1 = s\<lparr>ns_ping_id := ns_ping_id s + 1, ns_ping_got := False, ns_ping_seq := ns_ping_seq s + 1\<rparr>"
  have i: "net_inv s1 = net_inv s" by (simp add: s1_def net_inv_def rx_frame_def)
  obtain q s2 where p: "ip_send pump n ip 1 (\<lambda>_. echo_request (ns_ping_id s1) (ns_ping_seq s1)) s1 = Some (q, s2)"
    using assms by (auto simp: net_ping_def s1_def [symmetric] Let_def split: option.splits)
  have ok: "net_ok s1 s2" by (rule ip_send_ok [OF p]) (simp add: length_echo_request)
  obtain st s3 where t: "timer_now_us s2 = (st, s3)" by fastforce
  have "net_ok s1 s' \<and> (r \<noteq> None \<longrightarrow> ns_ping_got s')"
    using assms p t ok ping_wait_ok net_ok_trans [OF ok timer_ok [OF t]] net_ok_trans
    by (auto simp: net_ping_def s1_def [symmetric] Let_def split: if_splits)
  then show ?thesis by (auto simp: net_ok_def net_rel_def i) (auto simp: s1_def rx_frame_def)
qed

lemma dns_wait_ok: "dns_wait pump start m s = Some s' \<Longrightarrow> net_ok s s'"
proof (induction m arbitrary: s)
  case (Suc m)
  obtain now s1 where t: "timer_now_us s = (now, s1)" by fastforce
  show ?case
  proof (cases "now - start < NET_TIMEOUT_US")
    case True
    then obtain r2 s2 where p: "pump s1 = Some (r2, s2)" using Suc.prems t by (auto split: option.splits)
    have ok: "net_ok s s2" using timer_ok [OF t] pump_ok [OF p] by (rule net_ok_trans)
    obtain sg s3 where g: "net_signal_pending s2 = (sg, s3)" by fastforce
    with Suc.prems True t p Suc.IH [of s3] ok net_ok_trans [OF ok signal_ok [OF g]]
    show ?thesis by (auto split: if_splits intro: net_ok_trans)
  qed (use Suc.prems t timer_ok [OF t] in auto)
qed simp

lemma net_resolve_ok:
  assumes "net_resolve pump n host s = Some (r, s')" shows "net_ok s s'"
proof (cases "parse_dotted_quad host")
  case None
  define s1 where "s1 = s\<lparr>ns_qid := ns_qid s + 1, ns_dns_sport := ns_next_sport s,
    ns_next_sport := (if ns_next_sport s + 1 = 0 then 50000 else ns_next_sport s + 1), ns_dns_waiting := True,
    ns_dns_got := False, ns_dns_rx := []\<rparr>"
  have ok1: "net_ok s s1" unfolding s1_def by (rule net_ok_local) simp_all
  have fin: "net_ok s (b\<lparr>ns_dns_waiting := False\<rparr>)" if "net_ok s b" for b
    by (rule net_ok_trans [OF that]) (rule net_ok_local; simp)
  show ?thesis
  proof (cases "dns_build_query (ns_qid s + 1) host")
    case None
    with assms \<open>parse_dotted_quad host = None\<close> fin [OF ok1] show ?thesis
      by (simp add: net_resolve_def Let_def s1_def)
  next
    case (Some q)
    have e: "net_resolve pump n host s = (case udp_send pump n (ns_dns s1) (ns_next_sport s) 53 q s1 of
               None \<Rightarrow> None
             | Some (r, t) \<Rightarrow>
                 if r \<noteq> 0 then Some (None, t\<lparr>ns_dns_waiting := False\<rparr>)
                 else case timer_now_us t of (start, t) \<Rightarrow>
                   case dns_wait pump start n t of None \<Rightarrow> None | Some t \<Rightarrow>
                   let t = t\<lparr>ns_dns_waiting := False\<rparr> in
                   if \<not> ns_dns_got t then Some (None, t)
                   else Some (case dns_parse_answer (ns_dns_rx t) (ns_qid s + 1) of Val ip \<Rightarrow> Some ip | _ \<Rightarrow> None, t))"
      by (simp only: net_resolve_def None option.case Let_def s1_def Some)
    obtain u s2 where u: "udp_send pump n (ns_dns s1) (ns_next_sport s) 53 q s1 = Some (u, s2)"
      using assms unfolding e by (auto split: option.splits)
    have ok2: "net_ok s s2"
      using ok1 by (rule net_ok_trans) (rule udp_send_ok [OF u], use dns_build_query_length [OF Some] in simp)
    obtain st s3 where t: "timer_now_us s2 = (st, s3)" by fastforce
    show ?thesis
      using assms u t fin [OF ok2] net_ok_trans [OF net_ok_trans [OF ok2 timer_ok [OF t]] dns_wait_ok]
      unfolding e by (auto simp: Let_def split: if_splits option.splits intro!: fin)
  qed
qed (use assms in \<open>simp add: net_resolve_def\<close>)

end

subsection \<open>The stack in use\<close>

text \<open>The state at boot: empty logs, and the static buffers at their sizes.\<close>

definition net_boot :: "net \<Rightarrow> bool" where
  "net_boot s \<longleftrightarrow> length (ns_hw_mac s) = 6 \<and> length (ns_arp s) = 8 \<and> length (ns_reply s) = 1500 \<and>
     ns_dns_rx s = [] \<and> ns_dhcp_rx s = [] \<and> ns_tx s = [] \<and> \<not> ns_overrun s"

text \<open>The calls the rest of the kernel makes, with the sizes that fit an Ethernet frame.\<close>

inductive net_reach :: "net \<Rightarrow> bool" where
  init: "net_boot s \<Longrightarrow> net_reach (net_stack_init s)"
| pump: "net_reach s \<Longrightarrow> net_pump n s = Some (r, s') \<Longrightarrow> net_reach s'"
| ping: "net_reach s \<Longrightarrow> net_ping (net_pump n) n ip s = Some (q, s') \<Longrightarrow> net_reach s'"
| resolve: "net_reach s \<Longrightarrow> net_resolve (net_pump n) n host s = Some (a, s') \<Longrightarrow> net_reach s'"
| dhcp: "net_reach s \<Longrightarrow> net_dhcp (net_pump n) n s = Some (b, s') \<Longrightarrow> net_reach s'"
| udp: "net_reach s \<Longrightarrow> length d \<le> 1472 \<Longrightarrow> udp_send (net_pump n) n ip sp dp d s = Some (r, s') \<Longrightarrow> net_reach s'"
| ip: "net_reach s \<Longrightarrow> length d \<le> 1480 \<Longrightarrow> net_ip_send (net_pump n) n ip proto d s = Some (r, s') \<Longrightarrow> net_reach s'"

lemma net_reach_inv: "net_reach s \<Longrightarrow> net_inv s"
proof (induction rule: net_reach.induct)
  case (init s)
  then show ?case by (auto simp: net_boot_def net_inv_def net_stack_init_def)
next
  case (pump s n r s')
  then show ?case using net_pump_ok by (auto simp: net_ok_def)
next
  case (ping s n ip q s')
  then show ?case using np.net_ping_ok by blast
next
  case (resolve s n host a s')
  then show ?case using np.net_resolve_ok by (auto simp: net_ok_def)
next
  case (dhcp s n b s')
  then show ?case using np.net_dhcp_ok by (auto simp: net_ok_def)
next
  case (udp s d n ip sp dp r s')
  have "net_ok s s'" by (rule np.udp_send_ok [OF udp.hyps(3)]) (use udp.hyps(2) in simp)
  then show ?case using udp.IH by (simp add: net_ok_def)
next
  case (ip s d n dst proto r s')
  have "net_ok s s'" by (rule np.ip_send_ok [OF ip.hyps(3)[unfolded net_ip_send_def]]) (use ip.hyps(2) in simp)
  then show ?case using ip.IH by (simp add: net_ok_def)
qed



text \<open>
  A ping succeeds only on an answer: when \<open>net_ping\<close> returns a time, an ICMP echo reply with the
  identifier of this ping arrived after the call began.
\<close>

theorem ping_needs_reply:
  assumes "net_ping (net_pump n) n ip s = Some (Some ms, s')"
  shows "\<exists>k. ns_rx_pos s \<le> k \<and> k < ns_rx_pos s' \<and> echo_reply (take 2048 (ns_rx s k)) (ns_ping_id s + 1)"
  using np.net_ping_ok [OF assms] by (auto simp: rx_frame_def)

subsection \<open>Overruns\<close>

text \<open>
  The sizes are not checked anywhere: a datagram of a user program with more than 1492 bytes is copied
  past the end of \<open>seg\<close>, and an echo request of more than 1480 bytes past the end of \<open>pkt\<close>.
\<close>

lemma udp_send_overruns:
  "1492 < length d \<Longrightarrow> udp_send pump n ip sp dp d s = Some (-1, overran s)"
  by (simp add: udp_send_def)

lemma icmp_input_overruns:
  assumes "p ! 0 = 8" "1480 < length p" "arp_cache_get src s = Some mac" "(src XOR ns_our_ip s) AND ns_mask s = 0"
    "length (ns_reply s) = 1500"
  shows "\<exists>s'. icmp_input pump n src p s = Some s' \<and> ns_overrun s'"
  using assms by (auto simp: icmp_input_def Let_def ip_send_def arp_resolve_def arp_cache_get_def arp_find_def overran_def)

subsection \<open>A concrete run\<close>

text \<open>The card asks who 10.0.2.2 is, hears it, pings it and hears the answer.\<close>

definition gw_mac :: "u8 list" where "gw_mac = [2, 0, 0, 0, 0, 2]"

definition gw_arp :: "u8 list" where
  "gw_arp = [2, 0, 0, 0, 0, 1] @ gw_mac @ put16 0x0806 @ [0, 1, 8, 0, 6, 4, 0, 2] @ gw_mac @ [10, 0, 2, 2] @
     [2, 0, 0, 0, 0, 1] @ [10, 0, 2, 15]"

definition gw_echo :: "u8 list" where
  "gw_echo = [2, 0, 0, 0, 0, 1] @ gw_mac @ put16 0x0800 @
     [0x45, 0, 0, 28, 0, 0, 0, 0, 64, 1, 0, 0, 10, 0, 2, 2, 10, 0, 2, 15] @ [0, 0, 0, 0, 0, 1, 0, 1]"

text \<open>In evaluations the large buffer and the checksums stay folded.\<close>

definition zero_reply :: "u8 list" where "zero_reply = replicate 1500 0"

declare zero_reply_def [code del] inet_csum_def [code del]

definition net0 :: net where
  "net0 = \<lparr>ns_our_mac = replicate 6 0, ns_our_ip = 0x0A00020F, ns_gateway = 0x0A000202, ns_dns = 0x0A000203,
     ns_mask = 0xFFFFFF00, ns_arp = replicate 8 \<lparr>ae_ip = 0, ae_mac = [], ae_valid = False\<rparr>, ns_ping_id = 0,
     ns_ping_got = False, ns_ping_seq = 0, ns_reply = zero_reply, ns_dns_waiting = False, ns_dns_sport = 0,
     ns_dns_rx = [], ns_dns_got = False, ns_qid = 0, ns_next_sport = 50000, ns_dhcp_waiting = False,
     ns_dhcp_rx = [], ns_dhcp_got = False, ns_lease_valid = False, ns_lease_t0 = 0, ns_lease_dur = 0,
     ns_lease_server = 0, ns_in_renew = False, ns_ups = [], ns_hw_mac = [2, 0, 0, 0, 0, 1], ns_nic_ok = True,
     ns_tx = [], ns_rx = (\<lambda>k. if k = 0 then gw_arp else if k = 1 then gw_echo else []), ns_rx_pos = 0,
     ns_clock = (\<lambda>_. 0), ns_clock_pos = 0, ns_sig = (\<lambda>_. False), ns_sig_pos = 0, ns_overrun = False\<rparr>"

lemma boot0: "net_boot net0"
  by (simp add: net_boot_def net0_def zero_reply_def)

lemma ping0:
  "case net_ping (net_pump 2) 2 0x0A000202 (net_stack_init net0) of None \<Rightarrow> False
   | Some (r, s) \<Rightarrow> r = Some 0 \<and> map length (ns_tx s) = [42, 74] \<and> ns_rx_pos s = 2 \<and>
       arp_cache_get 0x0A000202 s = Some gw_mac"
  by code_simp

lemma ping0_state:
  obtains s where "net_ping (net_pump 2) 2 0x0A000202 (net_stack_init net0) = Some (Some 0, s)"
    "map length (ns_tx s) = [42, 74]" "ns_rx_pos s = 2" "arp_cache_get 0x0A000202 s = Some gw_mac"
  using ping0 by (auto split: option.splits)



theorem ping_needs_reply_witness:
  "\<exists>k. k < 2 \<and> echo_reply (take 2048 (ns_rx net0 k)) 1"
proof -
  obtain s where s: "net_ping (net_pump 2) 2 0x0A000202 (net_stack_init net0) = Some (Some 0, s)"
    "map length (ns_tx s) = [42, 74]" "ns_rx_pos s = 2" "arp_cache_get 0x0A000202 s = Some gw_mac"
    by (rule ping0_state)
  from ping_needs_reply [OF s(1)] s(3) show ?thesis by (auto simp: net_stack_init_def net0_def)
qed

end
