(* ===== verification/Vfs.thy ===== *)
theory Vfs
  imports Prelude
begin

text \<open>
  The path layer of \<open>src/vfs.c\<close>. A vnode is a value of type \<open>'v\<close>, and the state of the file systems
  a value of type \<open>'s\<close>; the table of operations of a vnode is a record of functions in which \<open>None\<close>
  is a NULL entry. A C string is the list of its bytes before the NUL. The result \<open>None\<close> of an
  operation is undefined behaviour: a write outside an array or through a null pointer.
\<close>

subsection \<open>Vnodes\<close>

datatype vnode_type = VN_FILE | VN_DIR | VN_SYMLINK

type_synonym path = "u8 list"

abbreviation (input) slash :: u8 where "slash \<equiv> 47"

record ('v, 's) vnode_ops =
  vo_read :: "('v \<Rightarrow> u64 \<Rightarrow> u64 \<Rightarrow> 's \<Rightarrow> ((int \<times> u8 list) \<times> 's) option) option"
  vo_write :: "('v \<Rightarrow> u64 \<Rightarrow> u8 list \<Rightarrow> 's \<Rightarrow> (int \<times> 's) option) option"
  vo_lookup :: "('v \<Rightarrow> path \<Rightarrow> 's \<Rightarrow> ('v option \<times> 's) option) option"
  vo_create :: "('v \<Rightarrow> path \<Rightarrow> vnode_type \<Rightarrow> 's \<Rightarrow> ('v option \<times> 's) option) option"
  vo_readdir :: "('v \<Rightarrow> int \<Rightarrow> 's \<Rightarrow> (path option \<times> 's) option) option"
  vo_truncate :: "('v \<Rightarrow> 's \<Rightarrow> (int \<times> 's) option) option"
  vo_unlink :: "('v \<Rightarrow> path \<Rightarrow> 's \<Rightarrow> (int \<times> 's) option) option"
  vo_readlink :: "('v \<Rightarrow> nat \<Rightarrow> 's \<Rightarrow> (u8 list option \<times> 's) option) option"
  vo_symlink :: "('v \<Rightarrow> path \<Rightarrow> path \<Rightarrow> 's \<Rightarrow> (int \<times> 's) option) option"
  vo_rename :: "('v \<Rightarrow> path \<Rightarrow> 'v \<Rightarrow> path \<Rightarrow> 's \<Rightarrow> (int \<times> 's) option) option"
  vo_link :: "('v \<Rightarrow> path \<Rightarrow> 'v \<Rightarrow> 's \<Rightarrow> (int \<times> 's) option) option"

text \<open>The fields of \<open>struct vnode\<close>: the type, the size and the operations.\<close>

record ('v, 's) vnodes =
  vn_type :: "'s \<Rightarrow> 'v \<Rightarrow> vnode_type"
  vn_size :: "'s \<Rightarrow> 'v \<Rightarrow> u64"
  vn_ops :: "'v \<Rightarrow> ('v, 's) vnode_ops"

subsection \<open>Mounts\<close>

record 'v vfs =
  vfs_root :: "'v option"
  vfs_mounts :: "(path \<times> 'v) list"

definition vfs_mount_root :: "'v option \<Rightarrow> 'v vfs \<Rightarrow> 'v vfs" where
  "vfs_mount_root r m = m\<lparr>vfs_mounts := [], vfs_root := r\<rparr>"

definition vfs_mount_at :: "path \<Rightarrow> 'v \<Rightarrow> 'v vfs \<Rightarrow> 'v vfs" where
  "vfs_mount_at p r m = (if length (vfs_mounts m) < 4 then m\<lparr>vfs_mounts := vfs_mounts m @ [(p, r)]\<rparr> else m)"

subsection \<open>Walking a path\<close>

text \<open>The component at the front, at most 31 bytes, and what follows it and its slash.\<close>

definition component :: "path \<Rightarrow> path" where
  "component p = take 31 (takeWhile (\<lambda>c. c \<noteq> slash) p)"

definition after_component :: "path \<Rightarrow> path" where
  "after_component p = (case drop (length (component p)) p of [] \<Rightarrow> [] | c # q \<Rightarrow> if c = slash then q else c # q)"

definition vfs_readlink :: "('v, 's) vnodes \<Rightarrow> 'v \<Rightarrow> nat \<Rightarrow> 's \<Rightarrow> (u8 list option \<times> 's) option" where
  "vfs_readlink N vn len s = (case vo_readlink (vn_ops N vn) of None \<Rightarrow> Some (None, s) | Some f \<Rightarrow> f vn len s)"

lemma after_component_less: "p \<noteq> [] \<Longrightarrow> length (after_component p) < length p"
proof -
  assume p: "p \<noteq> []"
  show ?thesis
  proof (cases "component p = []")
    case True
    with p have "hd p = slash" by (cases p) (auto simp: component_def split: if_splits)
    with p True show ?thesis by (cases p) (auto simp: after_component_def)
  next
    case False
    have "length (after_component p) \<le> length (drop (length (component p)) p)"
      unfolding after_component_def by (cases "drop (length (component p)) p") simp_all
    with False p show ?thesis by (cases "component p"; cases p) auto
  qed
qed

text \<open>A target stops at a NUL byte; the mutual recursion is bounded by the number of hops.\<close>

function walk_from_d :: "('v, 's) vnodes \<Rightarrow> 'v vfs \<Rightarrow> 'v \<Rightarrow> path \<Rightarrow> nat \<Rightarrow> 's \<Rightarrow> ('v option \<times> 's) option"
  and resolve_symlink :: "('v, 's) vnodes \<Rightarrow> 'v vfs \<Rightarrow> 'v \<Rightarrow> 'v \<Rightarrow> nat \<Rightarrow> 's \<Rightarrow> ('v option \<times> 's) option" where
  "walk_from_d N m cur p depth s =
     (if p = [] then Some (Some cur, s)
      else if component p = [] then walk_from_d N m cur (after_component p) depth s
      else case vo_lookup (vn_ops N cur) of None \<Rightarrow> Some (None, s) | Some lookup \<Rightarrow>
        case lookup cur (component p) s of
          None \<Rightarrow> None
        | Some (None, s) \<Rightarrow> Some (None, s)
        | Some (Some nxt, s) \<Rightarrow>
            if vn_type N s nxt = VN_SYMLINK then
              (case resolve_symlink N m nxt cur depth s of
                 None \<Rightarrow> None
               | Some (None, s) \<Rightarrow> Some (None, s)
               | Some (Some nxt, s) \<Rightarrow> walk_from_d N m nxt (after_component p) depth s)
            else walk_from_d N m nxt (after_component p) depth s)"
| "resolve_symlink N m link parent depth s =
     (if depth \<ge> 8 then Some (None, s)
      else case vfs_readlink N link 127 s of
          None \<Rightarrow> None
        | Some (None, s) \<Rightarrow> Some (None, s)
        | Some (Some buf, s) \<Rightarrow>
            if buf = [] then Some (None, s)
            else let target = takeWhile (\<lambda>c. c \<noteq> 0) buf in
              if target \<noteq> [] \<and> hd target = slash then
                (case vfs_root m of None \<Rightarrow> Some (None, s) | Some r \<Rightarrow> walk_from_d N m r (tl target) (depth + 1) s)
              else walk_from_d N m parent target (depth + 1) s)"
  by pat_completeness auto
termination
  by (relation "measures [\<lambda>x. case x of Inl (N, m, cur, p, depth, s) \<Rightarrow> 2 * (8 - depth)
        | Inr (N, m, l, q, depth, s) \<Rightarrow> 2 * (8 - depth),
      \<lambda>x. case x of Inl (N, m, cur, p, depth, s) \<Rightarrow> length p | Inr _ \<Rightarrow> 0]")
    (auto simp: after_component_less)

declare walk_from_d.simps [simp del] resolve_symlink.simps [simp del]

definition walk_from :: "('v, 's) vnodes \<Rightarrow> 'v vfs \<Rightarrow> 'v \<Rightarrow> path \<Rightarrow> 's \<Rightarrow> ('v option \<times> 's) option" where
  "walk_from N m cur p s = walk_from_d N m cur p 0 s"

fun under :: "path \<Rightarrow> path \<Rightarrow> bool" where
  "under [] path = (path = [] \<or> hd path = slash)"
| "under (c # pfx) [] = False"
| "under (c # pfx) (d # path) = (c = d \<and> under pfx path)"

definition vfs_lookup :: "('v, 's) vnodes \<Rightarrow> 'v vfs \<Rightarrow> path \<Rightarrow> 's \<Rightarrow> ('v option \<times> 's) option" where
  "vfs_lookup N m path s =
     (if path = [] \<or> hd path \<noteq> slash then
        (case vfs_root m of None \<Rightarrow> Some (None, s)
         | Some r \<Rightarrow> if path = [] then Some (Some r, s) else walk_from N m r path s)
      else case List.find (\<lambda>(pfx, _). under pfx path) (vfs_mounts m) of
          Some (pfx, r) \<Rightarrow>
            let sub = drop (length pfx) path; sub = (if sub \<noteq> [] \<and> hd sub = slash then tl sub else sub)
            in if sub = [] then Some (Some r, s) else walk_from N m r sub s
        | None \<Rightarrow> (case vfs_root m of None \<Rightarrow> Some (None, s)
            | Some r \<Rightarrow> if tl path = [] then Some (Some r, s) else walk_from N m r (tl path) s))"

subsection \<open>Splitting off the last name\<close>

text \<open>
  The parent goes into an array of 128 bytes with its NUL, the name into one of \<open>lim + 1\<close>: the name is
  cut, the parent is not.
\<close>

datatype split = No_slash | Overflow | Split path path

definition split_path :: "nat \<Rightarrow> path \<Rightarrow> split" where
  "split_path lim path =
     (if slash \<notin> set path then No_slash
      else let name = rev (takeWhile (\<lambda>c. c \<noteq> slash) (rev path));
               k = length path - length name - 1; parent = take k path
           in if k = 0 then Split [slash] (take lim name)
              else if k \<ge> 128 then Overflow
              else Split parent (take lim name))"

subsection \<open>Operations on directories\<close>

definition vfs_create :: "('v, 's) vnodes \<Rightarrow> 'v vfs \<Rightarrow> path \<Rightarrow> vnode_type \<Rightarrow> 's \<Rightarrow> ('v option \<times> 's) option" where
  "vfs_create N m path t s =
     (case split_path 31 path of
        No_slash \<Rightarrow> Some (None, s) | Overflow \<Rightarrow> None
      | Split parent name \<Rightarrow> (case vfs_lookup N m parent s of
            None \<Rightarrow> None
          | Some (None, s) \<Rightarrow> Some (None, s)
          | Some (Some dir, s) \<Rightarrow> (case vo_create (vn_ops N dir) of
                None \<Rightarrow> Some (None, s) | Some create \<Rightarrow> create dir name t s)))"

definition vfs_unlink :: "('v, 's) vnodes \<Rightarrow> 'v vfs \<Rightarrow> path \<Rightarrow> 's \<Rightarrow> (int \<times> 's) option" where
  "vfs_unlink N m path s =
     (case split_path 31 path of
        No_slash \<Rightarrow> Some (-1, s) | Overflow \<Rightarrow> None
      | Split parent name \<Rightarrow> (case vfs_lookup N m parent s of
            None \<Rightarrow> None
          | Some (None, s) \<Rightarrow> Some (-1, s)
          | Some (Some dir, s) \<Rightarrow> (case vo_unlink (vn_ops N dir) of
                None \<Rightarrow> Some (-1, s) | Some unlink \<Rightarrow> unlink dir name s)))"

definition vfs_symlink :: "('v, 's) vnodes \<Rightarrow> 'v vfs \<Rightarrow> path \<Rightarrow> path \<Rightarrow> 's \<Rightarrow> (int \<times> 's) option" where
  "vfs_symlink N m linkpath target s =
     (case split_path 63 linkpath of
        No_slash \<Rightarrow> Some (-1, s) | Overflow \<Rightarrow> None
      | Split parent name \<Rightarrow> (case vfs_lookup N m parent s of
            None \<Rightarrow> None
          | Some (None, s) \<Rightarrow> Some (-1, s)
          | Some (Some dir, s) \<Rightarrow> (case vo_symlink (vn_ops N dir) of
                None \<Rightarrow> Some (-1, s) | Some mk \<Rightarrow> mk dir name target s)))"

definition vfs_rename :: "('v, 's) vnodes \<Rightarrow> 'v vfs \<Rightarrow> path \<Rightarrow> path \<Rightarrow> 's \<Rightarrow> (int \<times> 's) option" where
  "vfs_rename N m oldpath newpath s =
     (case split_path 63 oldpath of
        No_slash \<Rightarrow> Some (-1, s) | Overflow \<Rightarrow> None
      | Split op on \<Rightarrow> (case split_path 63 newpath of
            No_slash \<Rightarrow> Some (-1, s) | Overflow \<Rightarrow> None
          | Split np nn \<Rightarrow> (case vfs_lookup N m op s of
                None \<Rightarrow> None
              | Some (od, s) \<Rightarrow> (case vfs_lookup N m np s of
                    None \<Rightarrow> None
                  | Some (nd, s) \<Rightarrow> (case (od, nd) of
                        (Some od, Some nd) \<Rightarrow> (case vo_rename (vn_ops N od) of
                            None \<Rightarrow> Some (-1, s) | Some ren \<Rightarrow> ren od on nd nn s)
                      | _ \<Rightarrow> Some (-1, s))))))"

definition vfs_link :: "('v, 's) vnodes \<Rightarrow> 'v vfs \<Rightarrow> path \<Rightarrow> path \<Rightarrow> 's \<Rightarrow> (int \<times> 's) option" where
  "vfs_link N m oldpath newpath s =
     (case vfs_lookup N m oldpath s of
        None \<Rightarrow> None
      | Some (None, s) \<Rightarrow> Some (-1, s)
      | Some (Some target, s) \<Rightarrow> (case split_path 63 newpath of
            No_slash \<Rightarrow> Some (-1, s) | Overflow \<Rightarrow> None
          | Split parent name \<Rightarrow> (case vfs_lookup N m parent s of
                None \<Rightarrow> None
              | Some (None, s) \<Rightarrow> Some (-1, s)
              | Some (Some dir, s) \<Rightarrow> (case vo_link (vn_ops N dir) of
                    None \<Rightarrow> Some (-1, s) | Some lnk \<Rightarrow> lnk dir name target s))))"

definition vfs_readdir :: "('v, 's) vnodes \<Rightarrow> 'v \<Rightarrow> int \<Rightarrow> 's \<Rightarrow> (path option \<times> 's) option" where
  "vfs_readdir N dir i s = (case vo_readdir (vn_ops N dir) of None \<Rightarrow> Some (None, s) | Some f \<Rightarrow> f dir i s)"

definition vfs_truncate :: "('v, 's) vnodes \<Rightarrow> 'v \<Rightarrow> 's \<Rightarrow> (int \<times> 's) option" where
  "vfs_truncate N vn s = (case vo_truncate (vn_ops N vn) of None \<Rightarrow> Some (-1, s) | Some f \<Rightarrow> f vn s)"

subsection \<open>Walking is one lookup per name\<close>

text \<open>The names between the slashes, empty ones left out.\<close>

fun names_acc :: "path \<Rightarrow> path \<Rightarrow> path list" where
  "names_acc cur [] = (if cur = [] then [] else [cur])"
| "names_acc cur (c # p) = (if c = slash then (if cur = [] then [] else [cur]) @ names_acc [] p else names_acc (cur @ [c]) p)"

definition names :: "path \<Rightarrow> path list" where "names p = names_acc [] p"

text \<open>One lookup per name, and the target in place of a symbolic link.\<close>

primrec walk_names :: "('v, 's) vnodes \<Rightarrow> 'v vfs \<Rightarrow> nat \<Rightarrow> path list \<Rightarrow> 'v \<Rightarrow> 's \<Rightarrow> ('v option \<times> 's) option" where
  "walk_names N m depth [] cur s = Some (Some cur, s)"
| "walk_names N m depth (n # ns) cur s =
     (case vo_lookup (vn_ops N cur) of None \<Rightarrow> Some (None, s) | Some lookup \<Rightarrow>
      case lookup cur n s of
        None \<Rightarrow> None
      | Some (None, s) \<Rightarrow> Some (None, s)
      | Some (Some nxt, s) \<Rightarrow>
          if vn_type N s nxt = VN_SYMLINK then
            (case resolve_symlink N m nxt cur depth s of
               None \<Rightarrow> None | Some (None, s) \<Rightarrow> Some (None, s) | Some (Some nxt, s) \<Rightarrow> walk_names N m depth ns nxt s)
          else walk_names N m depth ns nxt s)"

lemma takeWhile_noslash: "slash \<notin> set p \<Longrightarrow> takeWhile (\<lambda>c. c \<noteq> slash) p = p"
  by (induction p) auto

lemma component_short: "slash \<notin> set p \<Longrightarrow> component p = take 31 p"
  by (simp add: component_def takeWhile_noslash)

lemma names_acc_noslash: "slash \<notin> set q \<Longrightarrow> names_acc cur (q @ p) = names_acc (cur @ q) p"
  by (induction q arbitrary: cur) auto

lemma names_step:
  assumes "p \<noteq> []" "\<forall>n \<in> set (names p). length n \<le> 31"
  shows "names p = (if component p = [] then [] else [component p]) @ names (after_component p)"
    "component p \<noteq> [] \<Longrightarrow> length (component p) \<le> 31 \<and> slash \<notin> set (component p)"
proof -
  define q where "q = takeWhile (\<lambda>c. c \<noteq> slash) p"
  define r where "r = dropWhile (\<lambda>c. c \<noteq> slash) p"
  have p: "p = q @ r" "slash \<notin> set q" "r = [] \<or> hd r = slash"
    using hd_dropWhile [of "\<lambda>c. c \<noteq> slash" p] by (auto simp: q_def r_def dest: set_takeWhileD)
  have n: "names p = (case r of [] \<Rightarrow> (if q = [] then [] else [q]) | _ # r' \<Rightarrow> (if q = [] then [] else [q]) @ names r')"
    using p(3) by (subst p(1)) (auto simp: names_def names_acc_noslash [OF p(2)] split: list.split)
  have l: "length q \<le> 31" using assms(2) n by (cases "q = []"; cases r) auto
  then have c: "component p = q" by (simp add: component_def q_def)
  have "after_component p = (case r of [] \<Rightarrow> [] | _ # r' \<Rightarrow> r')"
  proof -
    have "drop (length (component p)) p = r" unfolding c using p(1) by (metis append_eq_conv_conj)
    then show ?thesis using p(3) by (auto simp: after_component_def split: list.split)
  qed
  with n c show "names p = (if component p = [] then [] else [component p]) @ names (after_component p)"
    by (cases r) (simp_all add: names_def)
  show "component p \<noteq> [] \<Longrightarrow> length (component p) \<le> 31 \<and> slash \<notin> set (component p)" using l p(2) by (simp add: c)
qed

lemma walk_names_code:
  "\<forall>n \<in> set (names p). length n \<le> 31 \<Longrightarrow> walk_from_d N m cur p depth s = walk_names N m depth (names p) cur s"
proof (induction p arbitrary: cur s rule: length_induct)
  case (1 p)
  show ?case
  proof (cases "p = []")
    case True
    then show ?thesis by (simp add: walk_from_d.simps names_def)
  next
    case False
    note st = names_step [OF False 1(2)]
    have IH: "walk_from_d N m cur (after_component p) depth s = walk_names N m depth (names (after_component p)) cur s"
      for cur s
    proof -
      have "\<forall>n \<in> set (names (after_component p)). length n \<le> 31" using 1(2) by (subst (asm) st(1)) auto
      with 1(1) after_component_less [OF False] show ?thesis by blast
    qed
    show ?thesis
    proof (cases "component p = []")
      case True
      with False IH show ?thesis by (subst walk_from_d.simps) (simp add: st(1))
    next
      case c: False
      with False show ?thesis
        by (subst walk_from_d.simps, unfold IH) (simp add: st(1))
    qed
  qed
qed

text \<open>
  C25. Path resolution is one lookup per name: for every path whose names have at most 31 bytes,
  \<open>vfs_lookup\<close> from the root gives what looking up its names one after the other gives, from left to
  right, with symbolic links replaced by what they resolve to; repeated and trailing slashes do not
  matter, nor whether the path starts with one.
\<close>

theorem lookup_by_names:
  assumes "\<forall>n \<in> set (names path). length n \<le> 31" "vfs_mounts m = []" "vfs_root m = Some r"
  shows "vfs_lookup N m path s = walk_names N m 0 (names path) r s"
proof (cases "path \<noteq> [] \<and> hd path = slash")
  case True
  then obtain p where p: "path = slash # p" by (cases path) auto
  have n: "names path = names p" by (simp add: p names_def)
  show ?thesis
    using walk_names_code [of p N m r 0 s] assms unfolding n
    by (cases "p = []") (auto simp: vfs_lookup_def walk_from_def p names_def)
next
  case False
  then show ?thesis using walk_names_code [of path N m r 0 s] assms
    by (auto simp: vfs_lookup_def walk_from_def names_def)
qed

subsection \<open>Symbolic links\<close>

text \<open>
  A link that leads back to itself: the target, read from the link, is its own name. Every hop counts,
  so the walk gives up, with no vnode, after eight.
\<close>

lemma self_link_fails:
  assumes "vo_lookup (vn_ops N d) = Some lookup" "\<And>s. lookup d n s = Some (Some l, s)"
    "\<And>s. vn_type N s l = VN_SYMLINK" "vo_readlink (vn_ops N l) = Some rd" "\<And>s. rd l 127 s = Some (Some n, s)"
    "n \<noteq> []" "length n \<le> 31" "slash \<notin> set n" "0 \<notin> set n" "depth \<le> 8"
  shows "walk_from_d N m d n depth s = Some (None, s)"
  using assms(10)
proof (induction "8 - depth" arbitrary: depth)
  case 0
  have c: "component n = n" using assms(7,8) by (simp add: component_short)
  show ?case using 0 assms(1-3,6) by (subst walk_from_d.simps) (simp add: c resolve_symlink.simps)
next
  case (Suc k)
  have c: "component n = n" using assms(7,8) by (simp add: component_short)
  have t: "takeWhile (\<lambda>c. c \<noteq> 0) n = n" using assms(9) by (auto simp: takeWhile_eq_all_conv)
  have "hd n \<noteq> slash" using assms(6,8) by (cases n) auto
  moreover have "walk_from_d N m d n (depth + 1) s = Some (None, s)" using Suc by simp
  ultimately have "resolve_symlink N m l d depth s = Some (None, s)"
    using Suc.hyps(2) assms(4-6) by (simp add: resolve_symlink.simps vfs_readlink_def t)
  then show ?case using assms(1-3,6) by (subst walk_from_d.simps) (simp add: c)
qed

subsection \<open>Names that do not fit\<close>

text \<open>
  A name of more than 31 bytes is not refused but read as two names, while \<open>vfs_create\<close> cuts it: what
  was created under a long name is not found under it.
\<close>

lemma long_name_splits:
  assumes "slash \<notin> set p" "31 < length p"
  shows "component p = take 31 p" "after_component p = drop 31 p"
    "split_path 31 (slash # p) = Split [slash] (take 31 p)"
proof -
  show c: "component p = take 31 p" using assms(1) by (rule component_short)
  obtain c q where d: "drop 31 p = c # q" using assms(2) by (cases "drop 31 p") auto
  then have "c \<in> set p" by (metis in_set_dropD list.set_intros(1))
  then show "after_component p = drop 31 p" using assms(1) d assms(2) by (auto simp: after_component_def c)
  have "takeWhile (\<lambda>c. c \<noteq> slash) (rev p @ [slash]) = rev p" using assms(1) by (auto simp: takeWhile_append)
  then show "split_path 31 (slash # p) = Split [slash] (take 31 p)" by (simp add: split_path_def Let_def)
qed

text \<open>The array of the parent is not checked: a directory path of 128 bytes or more overruns it.\<close>

lemma create_overruns:
  assumes "slash \<notin> set n" "128 \<le> length d"
  shows "vfs_create N m (d @ slash # n) t s = None"
proof -
  have "takeWhile (\<lambda>c. c \<noteq> slash) (rev n @ slash # rev d) = rev n" using assms(1) by (auto simp: takeWhile_append)
  moreover have "d \<noteq> []" using assms(2) by auto
  ultimately show ?thesis using assms by (simp add: vfs_create_def split_path_def Let_def)
qed

end
