(* ===== verification/Ramfs.thy ===== *)
theory Ramfs
  imports Vfs
begin

text \<open>
  The in-memory file system of \<open>src/ramfs.c\<close>, behind the interface of \<open>Vfs\<close>. A node is named by its
  index, in order of creation (nodes are never freed); the linked list of the children of a directory
  is the list of their indices, newest first. The buffer of a file is a list of \<open>cap\<close> bytes. The
  allocator is an oracle: call \<open>k\<close> of \<open>kmalloc\<close>, for \<open>n\<close> bytes, gives \<open>None\<close> for NULL or a buffer with
  whatever it contains.
\<close>

subsection \<open>Nodes\<close>

record ramfs_node =
  rn_name :: path
  rn_type :: vnode_type
  rn_data :: "u8 list"
  rn_size :: u64
  rn_children :: "nat list"

record ramfs =
  rf_nodes :: "ramfs_node list"
  rf_malloc :: "nat \<Rightarrow> u64 \<Rightarrow> u8 list option"
  rf_calls :: nat

definition rf_node :: "ramfs \<Rightarrow> nat \<Rightarrow> ramfs_node" where "rf_node s v = rf_nodes s ! v"

definition rf_set :: "nat \<Rightarrow> ramfs_node \<Rightarrow> ramfs \<Rightarrow> ramfs" where
  "rf_set v n s = s\<lparr>rf_nodes := (rf_nodes s)[v := n]\<rparr>"

definition rf_alloc :: "u64 \<Rightarrow> ramfs \<Rightarrow> u8 list option \<times> ramfs" where
  "rf_alloc n s = (rf_malloc s (rf_calls s) n, s\<lparr>rf_calls := Suc (rf_calls s)\<rparr>)"

fun rstreq :: "path \<Rightarrow> path \<Rightarrow> bool" where
  "rstreq (a # as) (b # bs) = (a = b \<and> rstreq as bs)"
| "rstreq as bs = (as = [] \<and> bs = [])"

definition copy_name :: "path \<Rightarrow> path" where "copy_name src = take 31 src"

text \<open>A node of 112 bytes; its pointer is not tested, so running out of heap is undefined.\<close>

definition new_node :: "path \<Rightarrow> vnode_type \<Rightarrow> ramfs \<Rightarrow> (nat \<times> ramfs) option" where
  "new_node name t s =
     (case rf_alloc 112 s of
        (None, s) \<Rightarrow> None
      | (Some _, s) \<Rightarrow> Some (length (rf_nodes s), s\<lparr>rf_nodes := rf_nodes s @
          [\<lparr>rn_name = copy_name name, rn_type = t, rn_data = [], rn_size = 0, rn_children = []\<rparr>]\<rparr>))"

subsection \<open>Operations\<close>

definition ramfs_lookup :: "nat \<Rightarrow> path \<Rightarrow> ramfs \<Rightarrow> (nat option \<times> ramfs) option" where
  "ramfs_lookup d name s = Some (List.find (\<lambda>c. rstreq (rn_name (rf_node s c)) name) (rn_children (rf_node s d)), s)"

definition ramfs_create :: "nat \<Rightarrow> path \<Rightarrow> vnode_type \<Rightarrow> ramfs \<Rightarrow> (nat option \<times> ramfs) option" where
  "ramfs_create d name t s =
     (case new_node name t s of
        None \<Rightarrow> None
      | Some (n, s) \<Rightarrow> Some (Some n,
          rf_set d ((rf_node s d)\<lparr>rn_children := n # rn_children (rf_node s d)\<rparr>) s))"

definition ramfs_read :: "nat \<Rightarrow> u64 \<Rightarrow> u64 \<Rightarrow> ramfs \<Rightarrow> ((int \<times> u8 list) \<times> ramfs) option" where
  "ramfs_read v off len s =
     (let n = rf_node s v in
      if off \<ge> rn_size n then Some ((0, []), s)
      else let avail = rn_size n - off; len = (if len > avail then avail else len) in
        if unat off + unat len > length (rn_data n) then None
        else Some ((int_of_u64 len, take (unat len) (drop (unat off) (rn_data n))), s))"

definition grow_cap :: "u64 \<Rightarrow> u64 \<Rightarrow> u64" where
  "grow_cap cap end =
     (let c = cap * 2; c = (if c < end then end else c) in if c < 64 then 64 else c)"

definition patch :: "nat \<Rightarrow> u8 list \<Rightarrow> u8 list \<Rightarrow> u8 list" where
  "patch off bs data = take off data @ bs @ drop (off + length bs) data"

definition ramfs_store :: "nat \<Rightarrow> u64 \<Rightarrow> u8 list \<Rightarrow> ramfs \<Rightarrow> (int \<times> ramfs) option" where
  "ramfs_store v off bs s =
     (let n = rf_node s v; end = off + of_nat (length bs) in
      if unat off + length bs > length (rn_data n) then None
      else let n = n\<lparr>rn_data := patch (unat off) bs (rn_data n)\<rparr>;
               n = (if end > rn_size n then n\<lparr>rn_size := end\<rparr> else n)
           in Some (int_of_u64 (of_nat (length bs)), rf_set v n s))"

definition ramfs_write :: "nat \<Rightarrow> u64 \<Rightarrow> u8 list \<Rightarrow> ramfs \<Rightarrow> (int \<times> ramfs) option" where
  "ramfs_write v off bs s =
     (let n = rf_node s v; cap = of_nat (length (rn_data n)); end = off + of_nat (length bs) in
      if end > cap then
        (case rf_alloc (grow_cap cap end) s of
           (None, s) \<Rightarrow> Some (-1, s)
         | (Some nd, s) \<Rightarrow>
             if unat (rn_size n) > length nd then None
             else ramfs_store v off bs
               (rf_set v (n\<lparr>rn_data := take (unat (rn_size n)) (rn_data n) @ drop (unat (rn_size n)) nd\<rparr>) s))
      else ramfs_store v off bs s)"

definition ramfs_truncate :: "nat \<Rightarrow> ramfs \<Rightarrow> (int \<times> ramfs) option" where
  "ramfs_truncate v s = Some (0, rf_set v ((rf_node s v)\<lparr>rn_size := 0\<rparr>) s)"

definition ramfs_readdir :: "nat \<Rightarrow> int \<Rightarrow> ramfs \<Rightarrow> (path option \<times> ramfs) option" where
  "ramfs_readdir d i s =
     (let cs = rn_children (rf_node s d)
      in Some (if 0 \<le> i \<and> nat i < length cs then Some (copy_name (rn_name (rf_node s (cs ! nat i)))) else None, s))"

definition ramfs_ops :: "(nat, ramfs) vnode_ops" where
  "ramfs_ops = \<lparr>vo_read = Some ramfs_read, vo_write = Some ramfs_write, vo_lookup = Some ramfs_lookup,
     vo_create = Some ramfs_create, vo_readdir = Some ramfs_readdir, vo_truncate = Some ramfs_truncate,
     vo_unlink = None, vo_readlink = None, vo_symlink = None, vo_rename = None, vo_link = None\<rparr>"

definition ramfs_vnodes :: "(nat, ramfs) vnodes" where
  "ramfs_vnodes = \<lparr>vn_type = \<lambda>s v. rn_type (rf_node s v), vn_size = \<lambda>s v. rn_size (rf_node s v), vn_ops = \<lambda>_. ramfs_ops\<rparr>"

definition ramfs_mount :: "ramfs \<Rightarrow> (nat \<times> ramfs) option" where
  "ramfs_mount s = new_node [slash] VN_DIR s"

subsection \<open>The invariant\<close>

definition node_ok :: "ramfs_node \<Rightarrow> bool" where
  "node_ok n \<longleftrightarrow> unat (rn_size n) \<le> length (rn_data n) \<and> (\<exists>cap :: u64. length (rn_data n) = unat cap)"

text \<open>A buffer has the size that was asked for; the children of a directory are younger than it.\<close>

definition malloc_ok :: "(nat \<Rightarrow> u64 \<Rightarrow> u8 list option) \<Rightarrow> bool" where
  "malloc_ok f \<longleftrightarrow> (\<forall>k n b. f k n = Some b \<longrightarrow> length b = unat n)"

definition kids_ok :: "ramfs \<Rightarrow> nat \<Rightarrow> bool" where
  "kids_ok s d \<longleftrightarrow> (\<forall>c \<in> set (rn_children (rf_node s d)). d < c \<and> c < length (rf_nodes s))"

definition ram_ok :: "ramfs \<Rightarrow> bool" where
  "ram_ok s \<longleftrightarrow> malloc_ok (rf_malloc s) \<and>
     (\<forall>v < length (rf_nodes s). node_ok (rf_node s v) \<and> kids_ok s v)"

text \<open>What a file holds: the abstract file is a byte list.\<close>

definition content :: "ramfs \<Rightarrow> nat \<Rightarrow> u8 list" where
  "content s v = take (unat (rn_size (rf_node s v))) (rn_data (rf_node s v))"

lemma rf_node_set [simp]:
  "v < length (rf_nodes s) \<Longrightarrow> rf_node (rf_set v n s) w = (if w = v then n else rf_node s w)"
  "length (rf_nodes (rf_set v n s)) = length (rf_nodes s)" "rf_malloc (rf_set v n s) = rf_malloc s"
  by (simp_all add: rf_node_def rf_set_def)

lemma rf_node_calls [simp]: "rf_node (s\<lparr>rf_calls := k\<rparr>) v = rf_node s v"
  by (simp add: rf_node_def)

lemma ram_okD:
  assumes "ram_ok s"
  shows "malloc_ok (rf_malloc s)" "v < length (rf_nodes s) \<Longrightarrow> node_ok (rf_node s v)"
    "v < length (rf_nodes s) \<Longrightarrow> c \<in> set (rn_children (rf_node s v)) \<Longrightarrow> v < c \<and> c < length (rf_nodes s)"
  using assms unfolding ram_ok_def kids_ok_def by blast+

lemma ram_ok_set:
  assumes "ram_ok s" "v < length (rf_nodes s)" "node_ok n" "rn_children n = rn_children (rf_node s v)"
  shows "ram_ok (rf_set v n s)"
proof -
  have "kids_ok (rf_set v n s) w = kids_ok s w" for w using assms(2,4) by (simp add: kids_ok_def)
  with assms show ?thesis by (simp add: ram_ok_def)
qed

lemma ram_ok_calls [simp]: "ram_ok (s\<lparr>rf_calls := k\<rparr>) = ram_ok s"
  by (simp add: ram_ok_def kids_ok_def)

lemma rstreq_eq [simp]: "rstreq a b = (a = b)"
  by (induction a b rule: rstreq.induct) auto

lemma grow_cap_ge: "end \<le> grow_cap cap end" "64 \<le> grow_cap cap end"
  by (auto simp: grow_cap_def Let_def not_less)

lemma take_patch:
  "k \<le> length d \<Longrightarrow> off + length bs \<le> length d \<Longrightarrow>
   take (max k (off + length bs)) (patch off bs d) =
     take off d @ bs @ take (k - (off + length bs)) (drop (off + length bs) d)"
proof (cases "k \<le> off + length bs")
  case False
  then have "max k (off + length bs) = off + length bs + (k - (off + length bs))" by simp
  with False show "k \<le> length d \<Longrightarrow> off + length bs \<le> length d \<Longrightarrow> ?thesis" by (simp add: patch_def)
qed (simp add: patch_def)

subsection \<open>Files\<close>

lemma ramfs_store_ok:
  assumes "ram_ok s" "v < length (rf_nodes s)" "unat off + length bs < 2 ^ 31"
    "unat off + length bs \<le> length (rn_data (rf_node s v))"
  shows "\<exists>s'. ramfs_store v off bs s = Some (int (length bs), s') \<and> ram_ok s' \<and>
     length (rf_nodes s') = length (rf_nodes s) \<and>
     (\<forall>w. w \<noteq> v \<longrightarrow> content s' w = content s w) \<and>
     content s' v = take (unat off) (rn_data (rf_node s v)) @ bs @ drop (unat off + length bs) (content s v)"
proof -
  let ?n = "rf_node s v" and ?e = "off + of_nat (length bs)"
  have ok: "unat (rn_size ?n) \<le> length (rn_data ?n)" "\<exists>cap :: u64. length (rn_data ?n) = unat cap"
    using ram_okD(2) [OF assms(1,2)] by (simp_all add: node_ok_def)
  have e: "unat ?e = unat off + length bs" using assms(3) by (simp add: unat_word_ariths unat_of_nat)
  define n' where "n' = (if ?e > rn_size ?n then ?n\<lparr>rn_data := patch (unat off) bs (rn_data ?n), rn_size := ?e\<rparr>
      else ?n\<lparr>rn_data := patch (unat off) bs (rn_data ?n)\<rparr>)"
  have s: "unat (rn_size n') = max (unat (rn_size ?n)) (unat off + length bs)"
    "rn_data n' = patch (unat off) bs (rn_data ?n)" "rn_children n' = rn_children ?n"
    using e by (auto simp: n'_def max_def word_less_nat_alt)
  have l: "length (patch (unat off) bs (rn_data ?n)) = length (rn_data ?n)" using assms(4) by (simp add: patch_def)
  have n: "node_ok n'" using s ok l assms(4) by (simp add: node_ok_def)
  have r: "ramfs_store v off bs s = Some (int (length bs), rf_set v n' s)"
    using assms(3,4) int_of_u64_small [of "length bs"] by (simp add: ramfs_store_def Let_def n'_def)
  have "take (unat (rn_size n')) (rn_data n') = take (unat off) (rn_data ?n) @ bs @ drop (unat off + length bs) (content s v)"
    unfolding s using take_patch [OF ok(1) assms(4)] by (simp add: content_def drop_take)
  then have "content (rf_set v n' s) v = take (unat off) (rn_data ?n) @ bs @ drop (unat off + length bs) (content s v)"
    using assms(2) by (simp add: content_def)
  moreover have "ram_ok (rf_set v n' s)" using assms(1,2) n s(3) by (rule ram_ok_set)
  ultimately show ?thesis using r assms(2) by (auto simp: content_def)
qed

lemma ramfs_read_content:
  assumes "ram_ok s" "v < length (rf_nodes s)" "n < 2 ^ 31"
  shows "ramfs_read v p (of_nat n) s = (let d = take n (drop (unat p) (content s v)) in Some ((int (length d), d), s))"
proof -
  let ?n = "rf_node s v"
  have le: "unat (rn_size ?n) \<le> length (rn_data ?n)" using ram_okD(2) [OF assms(1,2)] by (simp add: node_ok_def)
  have un: "unat (of_nat n :: u64) = n" using assms(3) by (simp add: unat_of_nat)
  show ?thesis
  proof (cases "rn_size ?n \<le> p")
    case True
    then have "content s v = [] \<or> length (content s v) \<le> unat p" using le by (simp add: content_def word_le_nat_alt)
    then show ?thesis using True by (auto simp: ramfs_read_def Let_def)
  next
    case False
    then have p: "unat p < unat (rn_size ?n)" "unat (rn_size ?n - p) = unat (rn_size ?n) - unat p"
      by (simp_all add: not_le word_less_nat_alt unat_sub word_le_nat_alt)
    define len where "len = (if of_nat n > rn_size ?n - p then rn_size ?n - p else (of_nat n :: u64))"
    have u: "unat len = min n (unat (rn_size ?n) - unat p)"
      using p un by (auto simp: len_def word_less_nat_alt)
    have i: "int_of_u64 len = int (unat len)"
    proof -
      have "unat len < 2 ^ 31" using u assms(3) by simp
      from int_of_u64_small [OF this] show ?thesis by simp
    qed
    have "take (unat len) (drop (unat p) (rn_data ?n)) = take n (drop (unat p) (content s v))"
      unfolding u content_def by (simp add: drop_take min.commute)
    moreover have "length (take n (drop (unat p) (content s v))) = unat len"
      unfolding u content_def using le by (simp add: min.commute)
    moreover have "unat p + unat len \<le> length (rn_data ?n)" using p u le by auto
    ultimately show ?thesis using False p u le i
      by (simp add: ramfs_read_def Let_def len_def [symmetric])
  qed
qed

text \<open>
  C24. A RAM file is a byte array. A write either changes nothing and returns -1, when the heap is
  exhausted, or puts all its bytes at the offset and leaves the rest of the file and every other file
  as they were; when the offset lies beyond the end, the gap gets some bytes. A read returns exactly
  the bytes of the file at the offset, as many as were asked for and are there.
\<close>

theorem ramfs_file:
  assumes "ram_ok s" "v < length (rf_nodes s)" "unat off + length bs < 2 ^ 31"
  shows "\<exists>r s'. ramfs_write v off bs s = Some (r, s') \<and> ram_ok s' \<and>
     (\<forall>w. w \<noteq> v \<longrightarrow> content s' w = content s w) \<and>
     (if r = -1 then content s' v = content s v
      else r = int (length bs) \<and> (\<exists>gap. length gap = unat off - length (content s v) \<and>
        content s' v = take (unat off) (content s v) @ gap @ bs @ drop (unat off + length bs) (content s v))) \<and>
     (\<forall>p n. n < 2 ^ 31 \<longrightarrow> ramfs_read v p (of_nat n) s' =
        (let d = take n (drop (unat p) (content s' v)) in Some ((int (length d), d), s')))"
proof -
  let ?n = "rf_node s v" and ?e = "off + of_nat (length bs)" and ?c = "content s v"
  obtain cap :: u64 where cap: "unat (rn_size ?n) \<le> length (rn_data ?n)" "length (rn_data ?n) = unat cap"
    using ram_okD(2) [OF assms(1,2)] by (auto simp: node_ok_def)
  have c: "length ?c = unat (rn_size ?n)" using cap(1) by (simp add: content_def)
  have e: "unat ?e = unat off + length bs" using assms(3) by (simp add: unat_word_ariths unat_of_nat)
  have pre: "\<exists>gap. length gap = unat off - length ?c \<and> take (unat off) d = take (unat off) ?c @ gap"
    if "take (unat (rn_size ?n)) d = ?c" "unat off \<le> length d" for d
  proof (intro exI conjI)
    show "length (drop (length ?c) (take (unat off) d)) = unat off - length ?c" using that(2) by simp
    have "take (unat off) ?c = take (length ?c) (take (unat off) d)"
      using that(1) c by (metis min.commute take_take)
    then show "take (unat off) d = take (unat off) ?c @ drop (length ?c) (take (unat off) d)"
      by (metis append_take_drop_id)
  qed
  define W where "W r s' \<longleftrightarrow> ram_ok s' \<and> length (rf_nodes s') = length (rf_nodes s) \<and>
     (\<forall>w. w \<noteq> v \<longrightarrow> content s' w = content s w) \<and>
     (if r = -1 then content s' v = ?c
      else r = int (length bs) \<and> (\<exists>gap. length gap = unat off - length ?c \<and>
        content s' v = take (unat off) ?c @ gap @ bs @ drop (unat off + length bs) ?c))" for r s'
  have "\<exists>r s'. ramfs_write v off bs s = Some (r, s') \<and> W r s'"
  proof (cases "?e > cap")
    case False
    then have le: "unat off + length bs \<le> length (rn_data ?n)" using e cap(2) by (simp add: word_less_nat_alt)
    have "ramfs_write v off bs s = ramfs_store v off bs s"
      using False cap(2) by (simp add: ramfs_write_def Let_def)
    moreover have "take (unat (rn_size ?n)) (rn_data ?n) = ?c" by (simp add: content_def)
    ultimately show ?thesis using ramfs_store_ok [OF assms le] pre [of "rn_data ?n"] le unfolding W_def by fastforce
  next
    case True
    let ?s = "s\<lparr>rf_calls := Suc (rf_calls s)\<rparr>"
    show ?thesis
    proof (cases "rf_malloc s (rf_calls s) (grow_cap cap ?e)")
      case None
      then have "ramfs_write v off bs s = Some (-1, ?s)"
        using True cap(2) by (simp add: ramfs_write_def Let_def rf_alloc_def)
      moreover have "W (-1) ?s" using assms(1) by (simp add: W_def content_def)
      ultimately show ?thesis by blast
    next
      case (Some nd)
      then have nd: "length nd = unat (grow_cap cap ?e)" using ram_okD(1) [OF assms(1)] by (simp add: malloc_ok_def)
      have g: "unat off + length bs \<le> length nd" "unat (rn_size ?n) \<le> length nd"
        using grow_cap_ge(1) [of ?e cap] e cap True nd by (simp_all add: word_le_nat_alt word_less_nat_alt)
      define d where "d = take (unat (rn_size ?n)) (rn_data ?n) @ drop (unat (rn_size ?n)) nd"
      have d: "length d = length nd" "take (unat (rn_size ?n)) d = ?c" using g(2) cap(1) by (simp_all add: d_def content_def)
      define t where "t = rf_set v (?n\<lparr>rn_data := d\<rparr>) ?s"
      have w: "ramfs_write v off bs s = ramfs_store v off bs t"
        using True Some cap(2) g(2) by (simp add: ramfs_write_def Let_def rf_alloc_def t_def d_def)
      have "ram_ok t" unfolding t_def
      proof (rule ram_ok_set)
        show "node_ok (?n\<lparr>rn_data := d\<rparr>)" using g(2) d(1) nd by (auto simp: node_ok_def)
      qed (use assms(1,2) in simp_all)
      moreover have tn: "rf_node t v = ?n\<lparr>rn_data := d\<rparr>" "length (rf_nodes t) = length (rf_nodes s)"
        "content t v = ?c" "w \<noteq> v \<Longrightarrow> content t w = content s w" for w
        using assms(2) d(2) by (simp_all add: t_def content_def)
      ultimately have "\<exists>s'. ramfs_store v off bs t = Some (int (length bs), s') \<and> ram_ok s' \<and>
         length (rf_nodes s') = length (rf_nodes s) \<and> (\<forall>w. w \<noteq> v \<longrightarrow> content s' w = content s w) \<and>
         content s' v = take (unat off) d @ bs @ drop (unat off + length bs) ?c"
        using ramfs_store_ok [of t v off bs] assms(2,3) g(1) d(1) by simp
      then show ?thesis using pre [OF d(2)] g(1) d(1) unfolding w W_def by fastforce
    qed
  qed
  then obtain r s' where w: "ramfs_write v off bs s = Some (r, s')" "W r s'" by blast
  have rd: "ramfs_read v p (of_nat n) s' = (let d = take n (drop (unat p) (content s' v)) in Some ((int (length d), d), s'))"
    if "n < 2 ^ 31" for p n
    using ramfs_read_content [of s' v n p] w(2) assms(2) that by (simp add: W_def)
  show ?thesis using w rd unfolding W_def by blast
qed

subsection \<open>Directories\<close>

text \<open>Paths in a RAM file system: lookups change nothing, and symbolic links lead nowhere.\<close>

definition child :: "ramfs \<Rightarrow> nat \<Rightarrow> path \<Rightarrow> nat option" where
  "child s d n = List.find (\<lambda>c. rn_name (rf_node s c) = n) (rn_children (rf_node s d))"

fun rwalk :: "ramfs \<Rightarrow> nat \<Rightarrow> path list \<Rightarrow> nat option" where
  "rwalk s d [] = Some d"
| "rwalk s d (n # ns) = (case child s d n of None \<Rightarrow> None
     | Some c \<Rightarrow> if rn_type (rf_node s c) = VN_SYMLINK then None else rwalk s c ns)"

lemma ramfs_vnodes_simps [simp]:
  "vn_ops ramfs_vnodes v = ramfs_ops" "vn_type ramfs_vnodes s v = rn_type (rf_node s v)"
  "vo_lookup ramfs_ops = Some ramfs_lookup" "vo_create ramfs_ops = Some ramfs_create" "vo_readlink ramfs_ops = None"
  by (simp_all add: ramfs_vnodes_def ramfs_ops_def)

lemma ramfs_lookup_child: "ramfs_lookup d n s = Some (child s d n, s)"
  by (simp add: ramfs_lookup_def child_def)

lemma walk_rwalk: "walk_names ramfs_vnodes m depth ns d s = Some (rwalk s d ns, s)"
  by (induction ns arbitrary: d)
    (auto simp: ramfs_lookup_child resolve_symlink.simps vfs_readlink_def split: option.split)

lemma rwalk_append: "rwalk s d (ms @ ns) = (case rwalk s d ms of None \<Rightarrow> None | Some e \<Rightarrow> rwalk s e ns)"
  by (induction ms arbitrary: d) (auto split: option.split)

lemma child_in: "child s d n = Some c \<Longrightarrow> c \<in> set (rn_children (rf_node s d))"
  by (auto simp: child_def find_Some_iff)

lemma rwalk_up:
  assumes "ram_ok s" "rwalk s d ns = Some e" "d < length (rf_nodes s)"
  shows "d \<le> e \<and> e < length (rf_nodes s)"
  using assms(2,3)
proof (induction ns arbitrary: d)
  case (Cons n ns)
  then obtain c where c: "child s d n = Some c" "rwalk s c ns = Some e" by (auto split: option.splits if_splits)
  have "d < c" "c < length (rf_nodes s)" using ram_okD(3) [OF assms(1) Cons.prems(2) child_in [OF c(1)]] by auto
  with Cons.IH [OF c(2)] show ?case by auto
qed simp

lemma ramfs_create_spec:
  assumes "ram_ok s" "d < length (rf_nodes s)" "ramfs_create d n t s = Some (x, s')"
  shows "x = Some (length (rf_nodes s))" "length (rf_nodes s') = Suc (length (rf_nodes s))" "rf_malloc s' = rf_malloc s"
    "w < length (rf_nodes s) \<Longrightarrow> rf_node s' w = (if w = d then (rf_node s d)\<lparr>rn_children := length (rf_nodes s) # rn_children (rf_node s d)\<rparr> else rf_node s w)"
    "rf_node s' (length (rf_nodes s)) = \<lparr>rn_name = copy_name n, rn_type = t, rn_data = [], rn_size = 0, rn_children = []\<rparr>"
  using assms by (auto simp: ramfs_create_def new_node_def rf_alloc_def rf_node_def rf_set_def nth_append split: option.splits)

lemma ramfs_create_ok:
  assumes "ram_ok s" "d < length (rf_nodes s)" "ramfs_create d n t s = Some (x, s')"
  shows "ram_ok s'"
proof -
  note c = ramfs_create_spec [OF assms]
  have "node_ok (rf_node s' w) \<and> kids_ok s' w" if w: "w < length (rf_nodes s')" for w
  proof (cases "w = length (rf_nodes s)")
    case True
    have "\<exists>cap :: u64. unat cap = 0" by (rule exI [of _ 0]) simp
    with True c(5) show ?thesis by (auto simp: node_ok_def kids_ok_def)
  next
    case False
    then have l: "w < length (rf_nodes s)" using w c(2) by simp
    have k: "\<forall>x \<in> set (rn_children (rf_node s w)). w < x \<and> x < length (rf_nodes s)"
      using ram_okD(3) [OF assms(1) l] by blast
    have n: "node_ok (rf_node s' w)" using ram_okD(2) [OF assms(1) l] c(4) [OF l] by (cases "w = d") (simp_all add: node_ok_def)
    have "kids_ok s' w" unfolding kids_ok_def c(2)
    proof
      fix x assume "x \<in> set (rn_children (rf_node s' w))"
      then have "x = length (rf_nodes s) \<or> x \<in> set (rn_children (rf_node s w))"
        using c(4) [OF l] by (auto split: if_splits)
      then show "w < x \<and> x < Suc (length (rf_nodes s))" using k l by (metis less_Suc_eq)
    qed
    with n show ?thesis ..
  qed
  with ram_okD(1) [OF assms(1)] c(3) show ?thesis by (simp add: ram_ok_def)
qed

text \<open>A walk that ends in the directory does not notice the new entry on its way.\<close>

lemma rwalk_create:
  assumes "ram_ok s" "d < length (rf_nodes s)" "ramfs_create d n t s = Some (x, s')"
    and "rwalk s e ns = Some d" "e < length (rf_nodes s)"
  shows "rwalk s' e ns = Some d"
  using assms(4,5)
proof (induction ns arbitrary: e)
  case (Cons a ns)
  note c = ramfs_create_spec [OF assms(1-3)]
  obtain y where y: "child s e a = Some y" "rn_type (rf_node s y) \<noteq> VN_SYMLINK" "rwalk s y ns = Some d"
    using Cons.prems(1) by (auto split: option.splits if_splits)
  have l: "e < y" "y < length (rf_nodes s)" using ram_okD(3) [OF assms(1) Cons.prems(2) child_in [OF y(1)]] by auto
  have "e \<noteq> d" using rwalk_up [OF assms(1) y(3) l(2)] l by simp
  have same: "rn_name (rf_node s' w) = rn_name (rf_node s w)" "rn_type (rf_node s' w) = rn_type (rf_node s w)"
    if "w < length (rf_nodes s)" for w using c(4) [OF that] by simp_all
  have "child s' e a = child s e a"
  proof -
    have "rn_children (rf_node s' e) = rn_children (rf_node s e)" using c(4) [OF Cons.prems(2)] \<open>e \<noteq> d\<close> by simp
    moreover have "\<forall>w \<in> set (rn_children (rf_node s e)). rn_name (rf_node s' w) = rn_name (rf_node s w)"
      using same ram_okD(3) [OF assms(1) Cons.prems(2)] by blast
    ultimately show ?thesis unfolding child_def by (auto intro!: find_cong)
  qed
  with y same [OF l(2)] Cons.IH [OF y(3) l(2)] show ?case by simp
qed simp

lemma names_snoc:
  assumes "slash \<notin> set n" "n \<noteq> []"
  shows "names (p @ slash # n) = names p @ [n]"
proof -
  have e: "names_acc [] n = [n]" using names_acc_noslash [OF assms(1), of "[]" "[]"] assms(2) by simp
  have "names_acc cur (p @ slash # n) = names_acc cur p @ [n]" for cur
    by (induction p arbitrary: cur) (auto simp: e)
  then show ?thesis by (simp add: names_def)
qed

lemma split_path_snoc:
  assumes "slash \<notin> set n" "length n \<le> lim" "length p < 128"
  shows "split_path lim (p @ slash # n) = Split (if p = [] then [slash] else p) n"
proof -
  have "takeWhile (\<lambda>c. c \<noteq> slash) (rev n @ slash # rev p) = rev n" using assms(1) by (auto simp: takeWhile_append)
  then show ?thesis using assms by (simp add: split_path_def Let_def)
qed

text \<open>
  C12. What is created is found: after \<open>vfs_create\<close> of a file or directory under any existing directory
  of the RAM file system, \<open>vfs_lookup\<close> of the same path gives that vnode; it is new and empty, and all
  existing files keep their contents.
\<close>

theorem create_then_lookup:
  assumes "ram_ok s" "r < length (rf_nodes s)" "vfs_root m = Some r" "vfs_mounts m = []"
    and "\<forall>x \<in> set (names p). length x \<le> 31" "slash \<notin> set n" "n \<noteq> []" "length n \<le> 31" "length p < 128"
    and "p \<noteq> [] \<longrightarrow> hd p = slash" "t \<noteq> VN_SYMLINK"
    and "vfs_create ramfs_vnodes m (p @ slash # n) t s = Some (Some v, s')"
  shows "vfs_lookup ramfs_vnodes m (p @ slash # n) s' = Some (Some v, s') \<and> ram_ok s' \<and>
    v = length (rf_nodes s) \<and> content s' v = [] \<and> (\<forall>w < v. content s' w = content s w)"
proof -
  let ?d = "if p = [] then [slash] else p"
  have d: "names ?d = names p" by (simp add: names_def)
  have l: "vfs_lookup ramfs_vnodes m ?d s = Some (rwalk s r (names p), s)"
    using lookup_by_names [of ?d m r ramfs_vnodes s] assms(3-5) unfolding d by (simp add: walk_rwalk)
  obtain e where e: "rwalk s r (names p) = Some e" "ramfs_create e n t s = Some (Some v, s')"
    using assms(12) l by (auto simp: vfs_create_def split_path_snoc [OF assms(6,8,9)] split: option.splits)
  have el: "e < length (rf_nodes s)" using rwalk_up [OF assms(1) e(1) assms(2)] by simp
  note c = ramfs_create_spec [OF assms(1) el e(2)]
  have "rwalk s' r (names p) = Some e" by (rule rwalk_create [OF assms(1) el e(2,1) assms(2)])
  moreover have "child s' e n = Some v"
    using c(1) c(4) [OF el] c(5) assms(8) by (simp add: child_def copy_name_def)
  moreover have "rn_type (rf_node s' v) = t" using c(1,5) by simp
  ultimately have "rwalk s' r (names (p @ slash # n)) = Some v"
    using assms(11) by (simp add: names_snoc [OF assms(6,7)] rwalk_append)
  moreover have "\<forall>x \<in> set (names (p @ slash # n)). length x \<le> 31" using assms(5,8) by (auto simp: names_snoc [OF assms(6,7)])
  ultimately have "vfs_lookup ramfs_vnodes m (p @ slash # n) s' = Some (Some v, s')"
    using lookup_by_names [of "p @ slash # n" m r ramfs_vnodes s'] assms(3,4) by (simp add: walk_rwalk)
  moreover have "content s' v = []" using c(1,5) by (simp add: content_def)
  moreover have "\<forall>w < v. content s' w = content s w" using c(1) c(4) by (simp add: content_def)
  ultimately show ?thesis using ramfs_create_ok [OF assms(1) el e(2)] c(1) by simp
qed

subsection \<open>Holes\<close>

text \<open>
  The buffer of a file that grows is not cleared: after a write beyond the end, the gap shows what the
  allocator left there.
\<close>

lemma ramfs_hole:
  assumes "v < length (rf_nodes s)" "rn_size (rf_node s v) = 0" "rn_data (rf_node s v) = []"
    "rf_malloc s (rf_calls s) 64 = Some junk" "length junk = 64"
  shows "\<exists>s'. ramfs_write v 4 [b] s = Some (1, s') \<and> content s' v = take 4 junk @ [b]"
proof -
  have "int_of_u64 1 = 1" using int_of_u64_small [of 1] by simp
  with assms show ?thesis
    by (simp add: ramfs_write_def ramfs_store_def Let_def rf_alloc_def grow_cap_def content_def patch_def)
qed

subsection \<open>Examples\<close>

definition ram0 :: ramfs where
  "ram0 = \<lparr>rf_nodes = [\<lparr>rn_name = [slash], rn_type = VN_DIR, rn_data = [], rn_size = 0, rn_children = [1]\<rparr>,
      \<lparr>rn_name = [97], rn_type = VN_FILE, rn_data = [], rn_size = 0, rn_children = []\<rparr>],
    rf_malloc = \<lambda>k n. Some (replicate (unat n) 0), rf_calls = 0\<rparr>"

definition ram_vfs :: "nat vfs" where "ram_vfs = \<lparr>vfs_root = Some 0, vfs_mounts = []\<rparr>"

lemma ram0_ok: "ram_ok ram0"
proof -
  have "node_ok (rf_node ram0 v) \<and> kids_ok ram0 v" if "v < 2" for v
    using that by (auto simp: less_2_cases_iff ram0_def rf_node_def node_ok_def kids_ok_def intro: exI [of _ 0])
  moreover have "malloc_ok (rf_malloc ram0)" by (simp add: malloc_ok_def ram0_def)
  ultimately show ?thesis by (simp add: ram_ok_def) (simp add: ram0_def)
qed

theorem ramfs_file_witness:
  "\<exists>s'. ramfs_write 1 0 [5, 6] ram0 = Some (2, s') \<and> content s' 1 = [5, 6] \<and>
     ramfs_read 1 1 (of_nat 9) s' = Some ((1, [6]), s')"
proof -
  have l: "1 < length (rf_nodes ram0)" "content ram0 1 = []" by (simp_all add: ram0_def content_def rf_node_def)
  have w: "fst (the (ramfs_write 1 0 [5, 6] ram0)) = 2"
    using int_of_u64_small [of 2]
    by (simp add: ramfs_write_def ramfs_store_def Let_def rf_alloc_def grow_cap_def ram0_def rf_node_def rf_set_def)
  obtain r s' where s': "ramfs_write 1 0 [5, 6] ram0 = Some (r, s')"
    "if r = -1 then content s' 1 = content ram0 1 else r = int (length [5, 6 :: u8]) \<and>
       (\<exists>gap. length gap = unat (0 :: u64) - length (content ram0 1) \<and> content s' 1 =
         take (unat (0 :: u64)) (content ram0 1) @ gap @ [5, 6] @ drop (unat (0 :: u64) + length [5, 6 :: u8]) (content ram0 1))"
    "\<forall>p n. n < 2 ^ 31 \<longrightarrow> ramfs_read 1 p (of_nat n) s' =
        (let d = take n (drop (unat p) (content s' 1)) in Some ((int (length d), d), s'))"
    using ramfs_file [OF ram0_ok l(1), of 0 "[5, 6]"] by auto
  then have c: "content s' 1 = [5, 6]" "r = 2" using w l(2) by auto
  have "ramfs_read 1 1 (of_nat 9) s' = Some ((1, [6]), s')" using s'(3) [rule_format, of 9 1] c by simp
  with s'(1) c show ?thesis by blast
qed

theorem lookup_by_names_witness:
  "vfs_lookup ramfs_vnodes ram_vfs [slash, slash, 97, slash] ram0 =
     walk_names ramfs_vnodes ram_vfs 0 (names [slash, slash, 97, slash]) 0 ram0 \<and>
   names [slash, slash, 97, slash] = [[97]]"
proof -
  have n: "names [slash, slash, 97, slash] = [[97]]" by (simp add: names_def)
  then show ?thesis using lookup_by_names [of "[slash, slash, 97, slash]" ram_vfs 0 ramfs_vnodes ram0]
    by (simp add: ram_vfs_def)
qed

theorem create_then_lookup_witness:
  "\<exists>s'. vfs_create ramfs_vnodes ram_vfs [slash, 98] VN_FILE ram0 = Some (Some 2, s') \<and>
     vfs_lookup ramfs_vnodes ram_vfs [slash, 98] s' = Some (Some 2, s')"
proof -
  have "\<exists>s'. vfs_create ramfs_vnodes ram_vfs [slash, 98] VN_FILE ram0 = Some (Some 2, s')"
    by (simp add: vfs_create_def split_path_def Let_def vfs_lookup_def ram_vfs_def ramfs_create_def new_node_def
        rf_alloc_def ram0_def)
  then obtain s' where s': "vfs_create ramfs_vnodes ram_vfs ([] @ slash # [98]) VN_FILE ram0 = Some (Some 2, s')" by auto
  have "0 < length (rf_nodes ram0)" "vfs_root ram_vfs = Some 0" "vfs_mounts ram_vfs = []"
    by (simp_all add: ram0_def ram_vfs_def)
  from create_then_lookup [OF ram0_ok this _ _ _ _ _ _ _ s'] s' show ?thesis by (auto simp: names_def)
qed

end
