(* ===== verification/Kstring.thy ===== *)
theory Kstring
  imports Prelude
begin

text \<open>
  The memory functions of \<open>src/string.c\<close>, over a memory of bytes addressed by natural numbers, so that
  overlapping ranges are the overlap they are in C. Each loop is a fold over its index in the order the
  code takes it.
\<close>

type_synonym memory = "nat \<Rightarrow> u8"

definition memset :: "nat \<Rightarrow> int \<Rightarrow> nat \<Rightarrow> memory \<Rightarrow> memory" where
  "memset dst c n = fold (\<lambda>i m. m(dst + i := word_of_int c)) [0..<n]"

definition memcpy :: "nat \<Rightarrow> nat \<Rightarrow> nat \<Rightarrow> memory \<Rightarrow> memory" where
  "memcpy dst src n = fold (\<lambda>i m. m(dst + i := m (src + i))) [0..<n]"

definition memmove :: "nat \<Rightarrow> nat \<Rightarrow> nat \<Rightarrow> memory \<Rightarrow> memory" where
  "memmove dst src n m =
     (if dst = src \<or> n = 0 then m
      else if dst < src then fold (\<lambda>i m. m(dst + i := m (src + i))) [0..<n] m
      else fold (\<lambda>i m. m(dst + (i - 1) := m (src + (i - 1)))) (rev [1..<n + 1]) m)"

fun memcmp_from :: "memory \<Rightarrow> nat \<Rightarrow> nat \<Rightarrow> nat \<Rightarrow> int" where
  "memcmp_from m a b 0 = 0"
| "memcmp_from m a b (Suc n) =
     (if m a \<noteq> m b then int (unat (m a)) - int (unat (m b)) else memcmp_from m (a + 1) (b + 1) n)"

definition memcmp :: "nat \<Rightarrow> nat \<Rightarrow> nat \<Rightarrow> memory \<Rightarrow> int" where
  "memcmp a b n m = memcmp_from m a b n"

subsection \<open>Specifications\<close>

text \<open>The bytes of a range.\<close>

definition bytes_at :: "memory \<Rightarrow> nat \<Rightarrow> nat \<Rightarrow> u8 list" where
  "bytes_at m a n = map (\<lambda>i. m (a + i)) [0..<n]"

definition copied :: "nat \<Rightarrow> nat \<Rightarrow> nat \<Rightarrow> memory \<Rightarrow> memory" where
  "copied dst src n m = (\<lambda>x. if dst \<le> x \<and> x < dst + n then m (src + (x - dst)) else m x)"

lemma memset_spec: "memset dst c n m = (\<lambda>x. if dst \<le> x \<and> x < dst + n then word_of_int c else m x)"
  by (induction n) (auto simp: memset_def fun_eq_iff)

lemma forward_copy:
  assumes "dst \<le> src \<or> src + n \<le> dst" "k \<le> n"
  shows "fold (\<lambda>i m. m(dst + i := m (src + i))) [0..<k] m = copied dst src k m"
  using assms(2)
proof (induction k)
  case (Suc k)
  have IH: "fold (\<lambda>i m. m(dst + i := m (src + i))) [0..<k] m = copied dst src k m"
    by (rule Suc.IH) (use Suc.prems in simp)
  have e: "copied dst src k m (src + k) = m (src + k)" using assms(1) Suc.prems by (auto simp: copied_def)
  have "fold (\<lambda>i m. m(dst + i := m (src + i))) [0..<Suc k] m = (copied dst src k m)(dst + k := m (src + k))"
    by (simp only: upt_Suc le0 if_True fold_append o_apply IH fold_simps id_apply e)
  also have "\<dots> = copied dst src (Suc k) m" by (auto simp: copied_def intro!: ext)
  finally show ?case .
qed (auto simp: copied_def fun_eq_iff)

lemma backward_copy:
  assumes "src \<le> dst"
  shows "fold (\<lambda>i m. m(dst + (i - 1) := m (src + (i - 1)))) (rev [1..<k + 1]) m = copied dst src k m"
proof -
  let ?f = "\<lambda>i m. m(dst + (i - 1) := m (src + (i - 1)))"
  have "fold ?f (rev [j + 1..<j + k + 1]) m =
    (\<lambda>x. if dst + j \<le> x \<and> x < dst + j + k then m (src + (x - dst)) else m x)" for j
  proof (induction k arbitrary: j)
    case (Suc k)
    let ?r = "\<lambda>x. if dst + Suc j \<le> x \<and> x < dst + Suc j + k then m (src + (x - dst)) else m x"
    have r: "rev [j + 1..<j + Suc k + 1] = rev [Suc j + 1..<Suc j + k + 1] @ [j + 1]"
      by (simp add: upt_conv_Cons del: upt_Suc)
    have e: "?r (src + j) = m (src + j)" using assms by auto
    have "fold ?f (rev [j + 1..<j + Suc k + 1]) m = ?r(dst + j := ?r (src + j))"
      by (simp only: r fold_append o_apply Suc.IH fold_simps id_apply add_diff_cancel_right')
    also have "\<dots> = (\<lambda>x. if dst + j \<le> x \<and> x < dst + j + Suc k then m (src + (x - dst)) else m x)"
      unfolding e by (auto intro!: ext)
    finally show ?case .
  qed (auto simp: fun_eq_iff)
  from this [of 0] show ?thesis by (simp add: copied_def)
qed

text \<open>
  \<open>memmove\<close> copies correctly whether the ranges overlap or not and in whichever direction: afterwards
  the destination holds what the source held before, and nothing else changed. \<open>memcpy\<close> does so when
  the ranges are disjoint, or when the destination lies below.
\<close>

theorem memmove_copies: "memmove dst src n m = copied dst src n m"
proof -
  consider "dst = src" | "dst < src" | "src < dst" by linarith
  then show ?thesis
  proof cases
    case 1
    then show ?thesis by (auto simp: memmove_def copied_def fun_eq_iff)
  next
    case 2
    then show ?thesis using forward_copy [of dst src n n m] by (cases "n = 0") (simp_all add: memmove_def copied_def)
  next
    case 3
    then show ?thesis using backward_copy [of src dst n m]
      by (cases "n = 0") (simp_all add: memmove_def copied_def)
  qed
qed

lemma memcpy_copies: "dst \<le> src \<or> src + n \<le> dst \<Longrightarrow> memcpy dst src n m = copied dst src n m"
  unfolding memcpy_def by (rule forward_copy) auto

text \<open>The sign of \<open>memcmp\<close> is the lexicographic order of the ranges, and 0 is equality.\<close>

lemma memcmp_eq: "memcmp a b n m = 0 \<longleftrightarrow> bytes_at m a n = bytes_at m b n"
proof -
  have "memcmp_from m a b n = 0 \<longleftrightarrow> (\<forall>i < n. m (a + i) = m (b + i))"
    by (induction n arbitrary: a b) (auto simp: All_less_Suc2 word_uint_eq_iff)
  then show ?thesis by (simp add: memcmp_def bytes_at_def map_eq_conv Ball_def)
qed

lemma memcmp_neg:
  "memcmp a b n m < 0 \<longleftrightarrow> (\<exists>k < n. (\<forall>i < k. m (a + i) = m (b + i)) \<and> m (a + k) < m (b + k))"
proof -
  have "memcmp_from m a b n < 0 \<longleftrightarrow> (\<exists>k < n. (\<forall>i < k. m (a + i) = m (b + i)) \<and> m (a + k) < m (b + k))"
  proof (induction n arbitrary: a b)
    case (Suc n)
    show ?case
    proof (cases "m a = m b")
      case True
      with Suc [of "a + 1" "b + 1"] show ?thesis by (auto simp: Ex_less_Suc2 All_less_Suc2)
    next
      case False
      then show ?thesis by (auto simp: Ex_less_Suc2 All_less_Suc2 word_less_def)
    qed
  qed simp
  then show ?thesis by (simp add: memcmp_def)
qed

end
