(* ===== verification/Socket.thy ===== *)
theory Socket
  imports Tcp_Api
begin

text \<open>
  The socket layer of \<open>src/socket.c\<close> over the TCP calls of \<open>Tcp_Api\<close>. A socket is named by its index
  in the table; the singly linked queue of datagrams is a list, oldest first. A call on a NULL socket
  returns its error value at once and has no index. The allocator is an argument of
  \<open>socket_udp_input\<close>: whether \<open>kmalloc\<close> gives a datagram. A datagram sent is an entry of a log, with
  the return value of \<open>net_udp_send\<close> as an argument.
\<close>

subsection \<open>State\<close>

definition NSOCK :: nat where "NSOCK = 8"
definition DGRAM_MAX :: nat where "DGRAM_MAX = 1500"
definition QDEPTH :: nat where "QDEPTH = 8"

datatype sock_type = SOCK_DGRAM | SOCK_STREAM | SOCK_OTHER

record dgram =
  d_sip :: u32
  d_sport :: u16
  d_data :: "u8 list"

record socket =
  so_used :: bool
  so_type :: sock_type
  so_lport :: u16
  so_queue :: "dgram list"
  so_qcount :: nat
  so_tcp :: "nat option"

record sock_sys =
  ss_socks :: "socket list"
  ss_next_eph :: u16
  ss_tcp :: tcp_sys
  ss_sent :: "(u32 \<times> u16 \<times> u16 \<times> u8 list) list"

definition sock :: "sock_sys \<Rightarrow> nat \<Rightarrow> socket" where "sock s i = ss_socks s ! i"

definition set_sock :: "nat \<Rightarrow> socket \<Rightarrow> sock_sys \<Rightarrow> sock_sys" where
  "set_sock i k s = s\<lparr>ss_socks := (ss_socks s)[i := k]\<rparr>"

definition free_slot :: "sock_sys \<Rightarrow> nat option" where
  "free_slot s = List.find (\<lambda>i. \<not> so_used (sock s i)) [0..<NSOCK]"

subsection \<open>Creating and freeing\<close>

definition socket_alloc :: "sock_type \<Rightarrow> sock_sys \<Rightarrow> nat option \<times> sock_sys" where
  "socket_alloc t s =
     (case free_slot s of None \<Rightarrow> (None, s)
      | Some i \<Rightarrow>
          let k = \<lparr>so_used = True, so_type = t, so_lport = 0, so_queue = [], so_qcount = 0, so_tcp = None\<rparr> in
          if t = SOCK_STREAM then
            (case tcp_new (ts_conns (ss_tcp s)) of
               None \<Rightarrow> (None, set_sock i (k\<lparr>so_used := False\<rparr>) s)
             | Some (c, cs) \<Rightarrow> (Some i, set_sock i (k\<lparr>so_tcp := Some c\<rparr>)
                 (s\<lparr>ss_tcp := (ss_tcp s)\<lparr>ts_conns := cs\<rparr>\<rparr>)))
          else (Some i, set_sock i k s))"

text \<open>Closing the connection may wait; \<open>None\<close> is that the ticks do not suffice.\<close>

definition socket_free :: "u32 \<Rightarrow> u64 \<Rightarrow> tick list \<Rightarrow> nat \<Rightarrow> sock_sys \<Rightarrow> sock_sys option" where
  "socket_free our_ip start tks i s =
     (let done = (\<lambda>s. set_sock i ((sock s i)\<lparr>so_used := False, so_queue := [], so_qcount := 0, so_lport := 0, so_tcp := None\<rparr>) s)
      in case so_tcp (sock s i) of
           None \<Rightarrow> Some (done s)
         | Some c \<Rightarrow> map_option (\<lambda>t. done (s\<lparr>ss_tcp := t\<rparr>)) (tcp_close our_ip c start tks (ss_tcp s)))"

subsection \<open>Streams\<close>

definition stream_conn :: "nat \<Rightarrow> sock_sys \<Rightarrow> nat option" where
  "stream_conn i s = (if so_type (sock s i) = SOCK_STREAM then so_tcp (sock s i) else None)"

definition socket_connect :: "u32 \<Rightarrow> u64 \<Rightarrow> u64 \<Rightarrow> tick list \<Rightarrow> nat \<Rightarrow> u32 \<Rightarrow> u16 \<Rightarrow> sock_sys \<Rightarrow> (int \<times> sock_sys) option" where
  "socket_connect our_ip t_isn t_start tks i ip port s =
     (case stream_conn i s of None \<Rightarrow> Some (-1, s)
      | Some c \<Rightarrow> map_option (\<lambda>(r, t). (r, s\<lparr>ss_tcp := t\<rparr>)) (tcp_connect our_ip c ip port t_isn t_start tks (ss_tcp s)))"

definition socket_read :: "u32 \<Rightarrow> tick list \<Rightarrow> nat \<Rightarrow> nat \<Rightarrow> sock_sys \<Rightarrow> (int \<times> u8 list \<times> sock_sys) option" where
  "socket_read our_ip tks i len s =
     (case stream_conn i s of None \<Rightarrow> Some (-1, [], s)
      | Some c \<Rightarrow> map_option (\<lambda>(r, bs, t). (r, bs, s\<lparr>ss_tcp := t\<rparr>)) (tcp_recv our_ip c len tks (ss_tcp s)))"

definition socket_write :: "u32 \<Rightarrow> tick list \<Rightarrow> nat \<Rightarrow> u8 list \<Rightarrow> sock_sys \<Rightarrow> (int \<times> sock_sys \<times> tick list) option" where
  "socket_write our_ip tks i bs s =
     (case stream_conn i s of None \<Rightarrow> Some (-1, s, tks)
      | Some c \<Rightarrow> map_option (\<lambda>(r, t, tks). (r, s\<lparr>ss_tcp := t\<rparr>, tks)) (tcp_send our_ip c bs tks (ss_tcp s)))"

definition socket_listen :: "nat \<Rightarrow> sock_sys \<Rightarrow> int \<times> sock_sys" where
  "socket_listen i s =
     (case stream_conn i s of None \<Rightarrow> (-1, s)
      | Some c \<Rightarrow> if so_lport (sock s i) = 0 then (-1, s)
          else (0, s\<lparr>ss_tcp := tcp_listen c (so_lport (sock s i)) (ss_tcp s)\<rparr>))"

text \<open>The child is wrapped in a fresh socket, or closed when there is none.\<close>

definition socket_accept :: "u32 \<Rightarrow> u64 \<Rightarrow> tick list \<Rightarrow> tick list \<Rightarrow> nat \<Rightarrow> sock_sys \<Rightarrow> (nat option \<times> sock_sys) option" where
  "socket_accept our_ip start tks tks' i s =
     (case stream_conn i s of None \<Rightarrow> Some (None, s)
      | Some c \<Rightarrow> (case tcp_accept our_ip c tks (ss_tcp s) of
            None \<Rightarrow> None
          | Some (None, t) \<Rightarrow> Some (None, s\<lparr>ss_tcp := t\<rparr>)
          | Some (Some child, t) \<Rightarrow>
              let s = s\<lparr>ss_tcp := t\<rparr> in
              case free_slot s of
                Some j \<Rightarrow> Some (Some j, set_sock j \<lparr>so_used = True, so_type = SOCK_STREAM, so_lport = so_lport (sock s i),
                    so_queue = [], so_qcount = 0, so_tcp = Some child\<rparr> s)
              | None \<Rightarrow> map_option (\<lambda>t. (None, s\<lparr>ss_tcp := t\<rparr>)) (tcp_close our_ip child start tks' (ss_tcp s))))"

datatype shut = SHUT_RD | SHUT_WR | SHUT_RDWR

definition socket_shutdown :: "u32 \<Rightarrow> nat \<Rightarrow> shut \<Rightarrow> sock_sys \<Rightarrow> int \<times> sock_sys" where
  "socket_shutdown our_ip i how s =
     (case stream_conn i s of
        Some c \<Rightarrow> if how = SHUT_WR \<or> how = SHUT_RDWR then (0, s\<lparr>ss_tcp := tcp_shutdown our_ip c (ss_tcp s)\<rparr>) else (0, s)
      | None \<Rightarrow> (0, s))"

subsection \<open>Readiness\<close>

text \<open>A stream socket always has a connection (\<open>socks_ok\<close>); without one \<open>tcp_readable\<close> gets NULL and says 0.\<close>

definition socket_readable :: "nat \<Rightarrow> sock_sys \<Rightarrow> bool" where
  "socket_readable i s =
     (case so_type (sock s i) of
        SOCK_DGRAM \<Rightarrow> so_qcount (sock s i) > 0
      | SOCK_STREAM \<Rightarrow> (case so_tcp (sock s i) of None \<Rightarrow> False | Some c \<Rightarrow> tcp_readable (ts_conn (ss_tcp s) c))
      | SOCK_OTHER \<Rightarrow> False)"

definition socket_writable :: "nat \<Rightarrow> sock_sys \<Rightarrow> bool" where
  "socket_writable i s =
     (case so_type (sock s i) of
        SOCK_DGRAM \<Rightarrow> True
      | SOCK_STREAM \<Rightarrow> (case so_tcp (sock s i) of None \<Rightarrow> False | Some c \<Rightarrow> tcp_writable (ts_conn (ss_tcp s) c))
      | SOCK_OTHER \<Rightarrow> False)"

subsection \<open>Datagrams\<close>

definition socket_bind :: "nat \<Rightarrow> u16 \<Rightarrow> sock_sys \<Rightarrow> int \<times> sock_sys" where
  "socket_bind i port s =
     (if \<exists>j \<in> set [0..<NSOCK]. so_used (sock s j) \<and> j \<noteq> i \<and> so_lport (sock s j) = port then (-1, s)
      else (0, set_sock i ((sock s i)\<lparr>so_lport := port\<rparr>) s))"

definition socket_sendto :: "int \<Rightarrow> nat \<Rightarrow> u8 list \<Rightarrow> u32 \<Rightarrow> u16 \<Rightarrow> sock_sys \<Rightarrow> int \<times> sock_sys" where
  "socket_sendto ret i bs dst port s =
     (if so_type (sock s i) \<noteq> SOCK_DGRAM then (-1, s)
      else let s = (if so_lport (sock s i) = 0
                    then let s = set_sock i ((sock s i)\<lparr>so_lport := ss_next_eph s\<rparr>) s;
                             nxt = ss_next_eph s + 1
                         in s\<lparr>ss_next_eph := if nxt = 0 then 49152 else nxt\<rparr>
                    else s)
        in (ret, s\<lparr>ss_sent := ss_sent s @ [(dst, so_lport (sock s i), port, bs)]\<rparr>))"

text \<open>The socket a datagram goes to: the first bound to its port.\<close>

definition udp_dest :: "u16 \<Rightarrow> sock_sys \<Rightarrow> nat option" where
  "udp_dest port s =
     List.find (\<lambda>i. so_used (sock s i) \<and> so_type (sock s i) = SOCK_DGRAM \<and> so_lport (sock s i) = port) [0..<NSOCK]"

definition socket_udp_input :: "bool \<Rightarrow> u32 \<Rightarrow> u16 \<Rightarrow> u16 \<Rightarrow> u8 list \<Rightarrow> sock_sys \<Rightarrow> sock_sys" where
  "socket_udp_input mem src_ip src_port dst_port bs s =
     (case udp_dest dst_port s of None \<Rightarrow> s
      | Some i \<Rightarrow>
          let k = sock s i in
          if so_qcount k \<ge> QDEPTH then s
          else if \<not> mem then s
          else set_sock i (k\<lparr>so_queue := so_queue k @ [\<lparr>d_sip = src_ip, d_sport = src_port, d_data = take DGRAM_MAX bs\<rparr>],
                             so_qcount := so_qcount k + 1\<rparr>) s)"

text \<open>What arrives while \<open>socket_recvfrom\<close> pumps the network, and whether a signal is pending then.\<close>

record arrival =
  ar_dgrams :: "(bool \<times> u32 \<times> u16 \<times> u16 \<times> u8 list) list"
  ar_intr :: bool

definition deliver :: "(bool \<times> u32 \<times> u16 \<times> u16 \<times> u8 list) list \<Rightarrow> sock_sys \<Rightarrow> sock_sys" where
  "deliver ds s = fold (\<lambda>(mem, ip, sp, dp, bs). socket_udp_input mem ip sp dp bs) ds s"

definition recv_take :: "nat \<Rightarrow> nat \<Rightarrow> sock_sys \<Rightarrow> dgram option \<times> sock_sys" where
  "recv_take i len s =
     (let k = sock s i in
      case so_queue k of
        [] \<Rightarrow> (None, s)
      | d # q \<Rightarrow> (Some (d\<lparr>d_data := take len (d_data d)\<rparr>),
          set_sock i (k\<lparr>so_queue := q, so_qcount := so_qcount k - 1\<rparr>) s))"

text \<open>\<open>None\<close>: still waiting; \<open>Some (None, s)\<close>: -1.\<close>

fun recv_wait :: "nat \<Rightarrow> nat \<Rightarrow> arrival list \<Rightarrow> sock_sys \<Rightarrow> (dgram option \<times> sock_sys) option" where
  "recv_wait i len as s =
     (if so_qcount (sock s i) > 0 then Some (recv_take i len s)
      else case as of [] \<Rightarrow> None
        | a # as' \<Rightarrow>
            let s = deliver (ar_dgrams a) s in
            if so_qcount (sock s i) > 0 then Some (recv_take i len s)
            else if ar_intr a then Some (None, s)
            else recv_wait i len as' s)"

declare recv_wait.simps [simp del]

definition socket_recvfrom :: "nat \<Rightarrow> nat \<Rightarrow> arrival list \<Rightarrow> sock_sys \<Rightarrow> (dgram option \<times> sock_sys) option" where
  "socket_recvfrom i len as s =
     (if so_type (sock s i) \<noteq> SOCK_DGRAM then Some (None, s) else recv_wait i len as s)"

subsection \<open>The queue is a bounded FIFO\<close>

definition so_push :: "socket \<Rightarrow> dgram \<Rightarrow> socket" where
  "so_push k d = (if so_qcount k \<ge> QDEPTH then k else k\<lparr>so_queue := so_queue k @ [d], so_qcount := so_qcount k + 1\<rparr>)"

definition so_pop :: "socket \<Rightarrow> (dgram \<times> socket) option" where
  "so_pop k = (case so_queue k of [] \<Rightarrow> None | d # q \<Rightarrow> Some (d, k\<lparr>so_queue := q, so_qcount := so_qcount k - 1\<rparr>))"

definition queue_ok :: "socket \<Rightarrow> bool" where
  "queue_ok k \<longleftrightarrow> so_qcount k = length (so_queue k) \<and> so_qcount k \<le> QDEPTH"

interpretation uf: bounded_fifo so_push so_pop so_queue queue_ok QDEPTH
proof unfold_locales
  fix q x xs assume "queue_ok q" "so_queue q = x # xs"
  then show "\<exists>q'. so_pop q = Some (x, q') \<and> queue_ok q' \<and> so_queue q' = xs"
    by (auto simp: so_pop_def queue_ok_def)
qed (auto simp: so_push_def so_pop_def queue_ok_def)

lemma so_push_fields [simp]:
  "so_used (so_push k d) = so_used k" "so_type (so_push k d) = so_type k" "so_lport (so_push k d) = so_lport k"
  by (simp_all add: so_push_def)

text \<open>What a datagram is to a socket bound to \<open>p\<close>.\<close>

fun for_port :: "u16 \<Rightarrow> bool \<times> u32 \<times> u16 \<times> u16 \<times> u8 list \<Rightarrow> dgram list" where
  "for_port p (mem, ip, sp, dp, bs) =
     (if dp = p \<and> mem then [\<lparr>d_sip = ip, d_sport = sp, d_data = take DGRAM_MAX bs\<rparr>] else [])"

text \<open>Socket \<open>i\<close> is the one datagram socket bound to \<open>p\<close>.\<close>

definition bound_to :: "sock_sys \<Rightarrow> nat \<Rightarrow> u16 \<Rightarrow> bool" where
  "bound_to s i p \<longleftrightarrow> length (ss_socks s) = NSOCK \<and> i < NSOCK \<and> (\<forall>j < NSOCK.
     (so_used (sock s j) \<and> so_type (sock s j) = SOCK_DGRAM \<and> so_lport (sock s j) = p) = (j = i))"

lemma bound_dest:
  assumes "bound_to s i p"
  shows "udp_dest p s = Some i"
proof -
  have b: "i < NSOCK" "\<And>j. j < NSOCK \<Longrightarrow>
      (so_used (sock s j) \<and> so_type (sock s j) = SOCK_DGRAM \<and> so_lport (sock s j) = p) = (j = i)"
    using assms unfolding bound_to_def by blast+
  have "\<not> (so_used (sock s j) \<and> so_type (sock s j) = SOCK_DGRAM \<and> so_lport (sock s j) = p)" if "j < i" for j
    using b that by (metis less_trans less_irrefl)
  with b show ?thesis unfolding udp_dest_def find_Some_iff by (intro exI [of _ i]) simp
qed

lemma udp_dest_bound:
  assumes "bound_to s i p" "udp_dest q s = Some j"
  shows "j < NSOCK" "so_lport (sock s j) = q" "q \<noteq> p \<Longrightarrow> j \<noteq> i"
proof -
  have j: "j < NSOCK" "so_used (sock s j) \<and> so_type (sock s j) = SOCK_DGRAM \<and> so_lport (sock s j) = q"
    using assms(2) by (auto simp: udp_dest_def find_Some_iff)
  then show "j < NSOCK" "so_lport (sock s j) = q" by auto
  show "j \<noteq> i" if "q \<noteq> p" using j that assms(1) by (auto simp: bound_to_def)
qed

lemma udp_input_push:
  assumes "bound_to s i p" and s'_def: "s' = socket_udp_input mem ip sp dp bs s"
  shows "sock s' i = uf.pushes (sock s i) (for_port p (mem, ip, sp, dp, bs)) \<and> bound_to s' i p"
proof -
  have l: "length (ss_socks s) = NSOCK" "i < NSOCK" using assms(1) by (auto simp: bound_to_def)
  have eff: "(s' = s \<and> (mem \<longrightarrow> (case udp_dest dp s of None \<Rightarrow> True | Some j \<Rightarrow> so_qcount (sock s j) \<ge> QDEPTH))) \<or>
      (\<exists>j. udp_dest dp s = Some j \<and> mem \<and>
        s' = set_sock j (so_push (sock s j) \<lparr>d_sip = ip, d_sport = sp, d_data = take DGRAM_MAX bs\<rparr>) s)"
    by (auto simp: s'_def socket_udp_input_def Let_def so_push_def split: option.split)
  from eff consider (same) "s' = s" "mem \<longrightarrow> (case udp_dest dp s of None \<Rightarrow> True | Some j \<Rightarrow> so_qcount (sock s j) \<ge> QDEPTH)"
    | (put) j where "udp_dest dp s = Some j" "mem"
      "s' = set_sock j (so_push (sock s j) \<lparr>d_sip = ip, d_sport = sp, d_data = take DGRAM_MAX bs\<rparr>) s" by blast
  then show ?thesis
  proof cases
    case same
    then show ?thesis using assms(1) bound_dest [OF assms(1)] by (auto simp: so_push_def)
  next
    case put
    note j = udp_dest_bound [OF assms(1) put(1)]
    have sk: "sock s' k = (if k = j then so_push (sock s j) \<lparr>d_sip = ip, d_sport = sp, d_data = take DGRAM_MAX bs\<rparr> else sock s k)"
      if "k < NSOCK" for k using that j(1) l(1) by (simp add: put(3) sock_def set_sock_def nth_list_update)
    have "bound_to s' i p" using assms(1) sk l(1) by (auto simp: bound_to_def put(3) set_sock_def)
    moreover have "sock s' i = uf.pushes (sock s i) (for_port p (mem, ip, sp, dp, bs))"
    proof (cases "dp = p")
      case True
      then have "j = i" using put(1) bound_dest [OF assms(1)] by simp
      then show ?thesis using sk [OF l(2)] True put(2) by simp
    qed (use sk [OF l(2)] j(3) in auto)
    ultimately show ?thesis by blast
  qed
qed

lemma deliver_pushes:
  "bound_to s i p \<Longrightarrow> sock (deliver ds s) i = uf.pushes (sock s i) (concat (map (for_port p) ds)) \<and> bound_to (deliver ds s) i p"
proof (induction ds arbitrary: s)
  case (Cons d ds)
  obtain mem ip sp dp bs where d: "d = (mem, ip, sp, dp, bs)" by (cases d)
  note u = udp_input_push [OF Cons.prems refl, of mem ip sp dp bs]
  with Cons.IH show ?case by (simp add: d deliver_def uf.pushes_append)
qed (simp add: deliver_def)

text \<open>
  C40. A datagram socket is a queue of at most eight datagrams. Of all that arrives, in any mixture with
  traffic for other ports, exactly the datagrams for its port are appended in order, cut to 1500
  bytes, as long as there is room and memory; the excess is dropped and never reorders what is queued.
  A receive then returns the oldest, at most as many bytes as asked for, and leaves the rest queued.
\<close>

theorem udp_queue:
  assumes "bound_to s i p" "queue_ok (sock s i)"
  shows "let q = so_queue (sock s i) @ take (QDEPTH - length (so_queue (sock s i))) (concat (map (for_port p) ds))
    in so_queue (sock (deliver ds s) i) = q \<and> queue_ok (sock (deliver ds s) i) \<and>
      (case q of [] \<Rightarrow> socket_recvfrom i len [] (deliver ds s) = None
       | d # q' \<Rightarrow> \<exists>s'. socket_recvfrom i len [] (deliver ds s) = Some (Some (d\<lparr>d_data := take len (d_data d)\<rparr>), s') \<and>
           so_queue (sock s' i) = q' \<and> queue_ok (sock s' i))"
proof -
  let ?t = "deliver ds s"
  note d = deliver_pushes [OF assms(1), of ds]
  have q: "so_queue (sock ?t i) = so_queue (sock s i) @
      take (QDEPTH - length (so_queue (sock s i))) (concat (map (for_port p) ds))" "queue_ok (sock ?t i)"
    using d uf.pushes_contents [OF assms(2)] uf.pushes_inv [OF assms(2)] by simp_all
  have ty: "so_type (sock ?t i) = SOCK_DGRAM" "i < length (ss_socks ?t)" using d by (auto simp: bound_to_def)
  have "case so_queue (sock ?t i) of [] \<Rightarrow> socket_recvfrom i len [] ?t = None
       | d # q' \<Rightarrow> \<exists>s'. socket_recvfrom i len [] ?t = Some (Some (d\<lparr>d_data := take len (d_data d)\<rparr>), s') \<and>
           so_queue (sock s' i) = q' \<and> queue_ok (sock s' i)"
    using q(2) ty by (auto simp: socket_recvfrom_def recv_wait.simps recv_take_def Let_def queue_ok_def sock_def
        set_sock_def split: list.split)
  with q show ?thesis by (simp add: Let_def)
qed

subsection \<open>Ports\<close>

text \<open>Two sockets never get the same port from \<open>socket_bind\<close> \<dots>\<close>

lemma bind_unique:
  assumes "length (ss_socks s) = NSOCK" "i < NSOCK" "j < NSOCK" "j \<noteq> i" "so_used (sock s j)" "socket_bind i port s = (0, s')"
  shows "so_lport (sock s' j) \<noteq> so_lport (sock s' i)"
  using assms by (auto simp: socket_bind_def sock_def set_sock_def split: if_splits)

text \<open>\<dots> but the port \<open>socket_sendto\<close> chooses is not compared with those in use.\<close>

lemma sendto_shares_port:
  assumes "length (ss_socks s) = NSOCK" "i < NSOCK" "j < NSOCK" "j \<noteq> i"
    and "so_type (sock s i) = SOCK_DGRAM" "so_lport (sock s i) = 0" "so_lport (sock s j) = ss_next_eph s"
  shows "so_lport (sock (snd (socket_sendto r i bs dst port s)) i) = so_lport (sock (snd (socket_sendto r i bs dst port s)) j)"
  using assms by (simp add: socket_sendto_def Let_def sock_def set_sock_def)

text \<open>A port of 0 cannot be bound while another socket has none.\<close>

lemma bind_zero_refused:
  assumes "j < NSOCK" "j \<noteq> i" "so_used (sock s j)" "so_lport (sock s j) = 0"
  shows "socket_bind i 0 s = (-1, s)"
  using assms by (auto simp: socket_bind_def)

subsection \<open>An example\<close>

definition socks0 :: sock_sys where
  "socks0 = \<lparr>ss_socks = \<lparr>so_used = True, so_type = SOCK_DGRAM, so_lport = 7, so_queue = [], so_qcount = 0, so_tcp = None\<rparr> #
      replicate 7 \<lparr>so_used = False, so_type = SOCK_OTHER, so_lport = 0, so_queue = [], so_qcount = 0, so_tcp = None\<rparr>,
    ss_next_eph = 49152, ss_tcp = \<lparr>ts_conns = [], ts_next_lport = 0, ts_out = []\<rparr>, ss_sent = []\<rparr>"

theorem udp_queue_witness:
  "\<exists>s'. socket_recvfrom 0 2 [] (deliver [(True, 1, 9, 8, [5]), (True, 1, 9, 7, [1, 2, 3])] socks0) =
     Some (Some \<lparr>d_sip = 1, d_sport = 9, d_data = [1, 2]\<rparr>, s') \<and> so_queue (sock s' 0) = []"
proof -
  have b: "bound_to socks0 0 7"
    by (auto simp: bound_to_def socks0_def NSOCK_def sock_def nth_Cons split: nat.splits)
  have q: "queue_ok (sock socks0 0)" "so_queue (sock socks0 0) = []" by (simp_all add: queue_ok_def socks0_def sock_def)
  show ?thesis using udp_queue [OF b q(1), of "[(True, 1, 9, 8, [5]), (True, 1, 9, 7, [1, 2, 3])]" 2]
    by (auto simp: q(2) QDEPTH_def DGRAM_MAX_def Let_def)
qed

end
