(* ===== verification/Files.thy ===== *)
theory Files
  imports Pipe Pty Socket Vfs Sched "HOL-Library.Monad_Syntax"
begin

text \<open>
  Open files: the handles of \<open>src/vfs.c\<close>, the calls of \<open>src/syscall.c\<close> on file descriptors and the
  readiness scan of \<open>src/poll.c\<close>, over the scheduler, pipes, pseudo terminals, sockets and the file
  systems. A pointer to a file, pipe or pty is its address, a number; the address \<open>kmalloc\<close> returns is
  an argument (the code never tests it for NULL). The result \<open>None\<close> of an operation is undefined
  behaviour, a use of a freed object or a null pointer, or a wait that does not end with the ticks
  given. A call that sleeps gives up the processor in the model of the scheduler and continues with
  the loop variables of its result.
\<close>

subsection \<open>State\<close>

record 'v kfile =
  f_vnode :: "'v option"
  f_off :: u64
  f_pipe :: "nat option"
  f_sock :: "nat option"
  f_pty :: "nat option"
  f_is_master :: bool
  f_writable :: bool
  f_ref :: int

record ('v, 's) kstate =
  k_files :: "nat \<Rightarrow> 'v kfile option"
  k_pipes :: "nat \<Rightarrow> pipe option"
  k_ptys :: "nat \<Rightarrow> pty option"
  k_socks :: sock_sys
  k_fs :: 's
  k_sched :: sched
  k_uart :: "u8 list"

definition put_file :: "nat \<Rightarrow> 'v kfile \<Rightarrow> ('v, 's) kstate \<Rightarrow> ('v, 's) kstate" where
  "put_file f h s = s\<lparr>k_files := (k_files s)(f \<mapsto> h)\<rparr>"

definition new_file :: "'v option \<Rightarrow> nat option \<Rightarrow> nat option \<Rightarrow> nat option \<Rightarrow> bool \<Rightarrow> bool \<Rightarrow> 'v kfile" where
  "new_file vn pi so pt master wr = \<lparr>f_vnode = vn, f_off = 0, f_pipe = pi, f_sock = so, f_pty = pt,
     f_is_master = master, f_writable = wr, f_ref = 1\<rparr>"

text \<open>Wait channels are the addresses of the pipe and of the two counts of the pty.\<close>

definition chan :: "nat \<Rightarrow> u64" where "chan p = word_of_nat p"
definition chan_out :: "nat \<Rightarrow> u64" where "chan_out p = word_of_nat (p + 4104)"
definition chan_in :: "nat \<Rightarrow> u64" where "chan_in p = word_of_nat (p + 8212)"

definition pty_events :: "nat \<Rightarrow> pty_event list \<Rightarrow> sched \<Rightarrow> sched" where
  "pty_events p = fold (\<lambda>e sc. case e of WakeIn \<Rightarrow> sched_wake (chan_in p) sc | WakeOut \<Rightarrow> sched_wake (chan_out p) sc
     | Kill g sig \<Rightarrow> snd (sched_kill g (int sig) sc))"

subsection \<open>Reading and writing through a handle\<close>

definition kpipe_read :: "nat \<Rightarrow> u64 \<Rightarrow> ('v, 's) kstate \<Rightarrow> ((unit, int \<times> u8 list) outcome \<times> ('v, 's) kstate) option" where
  "kpipe_read p len s = do {
     q \<leftarrow> k_pipes s p;
     (case pipe_read q (unat len) of
        (Sleep _, _, _) \<Rightarrow> Some (Sleep (), s\<lparr>k_sched := sched_block (chan p) (k_sched s)\<rparr>)
      | (Done bs, woke, q) \<Rightarrow> Some (Done (int (length bs), bs), s\<lparr>k_pipes := (k_pipes s)(p \<mapsto> q),
           k_sched := if woke then sched_wake (chan p) (k_sched s) else k_sched s\<rparr>)) }"

text \<open>
  Every turn of the outer loop that stores bytes wakes the sleepers of the pipe; the count grew if
  there was one. \<open>n\<close> and \<open>bs\<close> are the loop variables.
\<close>

definition kpipe_write :: "nat \<Rightarrow> nat \<Rightarrow> u8 list \<Rightarrow> ('v, 's) kstate \<Rightarrow> ((nat \<times> u8 list, int) outcome \<times> ('v, 's) kstate) option" where
  "kpipe_write p n bs s = do {
     q \<leftarrow> k_pipes s p;
     (r, q') \<leftarrow> pipe_write_loop q n bs;
     let s' = s\<lparr>k_pipes := (k_pipes s)(p \<mapsto> q'),
               k_sched := if p_count q' \<noteq> p_count q then sched_wake (chan p) (k_sched s) else k_sched s\<rparr>;
     Some (r, case r of Sleep _ \<Rightarrow> s'\<lparr>k_sched := sched_block (chan p) (k_sched s')\<rparr> | Done _ \<Rightarrow> s') }"

definition kpty_read :: "bool \<Rightarrow> nat \<Rightarrow> u64 \<Rightarrow> ('v, 's) kstate \<Rightarrow> ((unit, int \<times> u8 list) outcome \<times> ('v, 's) kstate) option" where
  "kpty_read master p len s = do {
     q \<leftarrow> k_ptys s p;
     (case (if master then pty_master_read q (unat len) else pty_slave_read q (unat len)) of
        (Sleep _, _) \<Rightarrow> Some (Sleep (), s\<lparr>k_sched := sched_block (if master then chan_out p else chan_in p) (k_sched s)\<rparr>)
      | (Done bs, q) \<Rightarrow> Some (Done (int (length bs), bs), s\<lparr>k_ptys := (k_ptys s)(p \<mapsto> q)\<rparr>)) }"

definition kpty_write :: "bool \<Rightarrow> nat \<Rightarrow> u8 list \<Rightarrow> ('v, 's) kstate \<Rightarrow> (int \<times> ('v, 's) kstate) option" where
  "kpty_write master p bs s = do {
     q \<leftarrow> k_ptys s p;
     (case (if master then pty_master_write q bs else pty_slave_write q bs) of
        (n, q, ev) \<Rightarrow> Some (int n, s\<lparr>k_ptys := (k_ptys s)(p \<mapsto> q), k_sched := pty_events p ev (k_sched s)\<rparr>)) }"

definition vfs_read :: "('v, 's) vnodes \<Rightarrow> nat \<Rightarrow> u64 \<Rightarrow> ('v, 's) kstate \<Rightarrow> ((unit, int \<times> u8 list) outcome \<times> ('v, 's) kstate) option" where
  "vfs_read N f len s = do {
     h \<leftarrow> k_files s f;
     (case f_pipe h of Some p \<Rightarrow> kpipe_read p len s
      | None \<Rightarrow> case f_pty h of Some p \<Rightarrow> kpty_read (f_is_master h) p len s
      | None \<Rightarrow> do {
          vn \<leftarrow> f_vnode h;
          (case vo_read (vn_ops N vn) of
             None \<Rightarrow> Some (Done (-1, []), s)
           | Some rd \<Rightarrow> do {
               ((n, bs), fs) \<leftarrow> rd vn (f_off h) len (k_fs s);
               Some (Done (n, bs), (if n > 0 then put_file f (h\<lparr>f_off := f_off h + word_of_int n\<rparr>) else id) (s\<lparr>k_fs := fs\<rparr>)) }) }) }"

definition vfs_write :: "('v, 's) vnodes \<Rightarrow> nat \<Rightarrow> u8 list \<Rightarrow> ('v, 's) kstate \<Rightarrow> ((nat \<times> u8 list, int) outcome \<times> ('v, 's) kstate) option" where
  "vfs_write N f bs s = do {
     h \<leftarrow> k_files s f;
     (case f_pipe h of Some p \<Rightarrow> kpipe_write p 0 bs s
      | None \<Rightarrow> case f_pty h of Some p \<Rightarrow> map_option (\<lambda>(n, s). (Done n, s)) (kpty_write (f_is_master h) p bs s)
      | None \<Rightarrow> do {
          vn \<leftarrow> f_vnode h;
          (case vo_write (vn_ops N vn) of
             None \<Rightarrow> Some (Done (-1), s)
           | Some wr \<Rightarrow> do {
               (n, fs) \<leftarrow> wr vn (f_off h) bs (k_fs s);
               Some (Done n, (if n > 0 then put_file f (h\<lparr>f_off := f_off h + word_of_int n\<rparr>) else id) (s\<lparr>k_fs := fs\<rparr>)) }) }) }"

subsection \<open>Opening, sharing and closing handles\<close>

definition vfs_open :: "('v, 's) vnodes \<Rightarrow> 'v vfs \<Rightarrow> nat \<Rightarrow> path \<Rightarrow> ('v, 's) kstate \<Rightarrow> (nat option \<times> ('v, 's) kstate) option" where
  "vfs_open N m a path s = do {
     (v, fs) \<leftarrow> vfs_lookup N m path (k_fs s);
     (case v of None \<Rightarrow> Some (None, s\<lparr>k_fs := fs\<rparr>)
      | Some vn \<Rightarrow> Some (Some a, put_file a (new_file (Some vn) None None None False False) (s\<lparr>k_fs := fs\<rparr>))) }"

definition file_dup :: "nat \<Rightarrow> ('v, 's) kstate \<Rightarrow> ('v, 's) kstate option" where
  "file_dup f s = do { h \<leftarrow> k_files s f; Some (put_file f (h\<lparr>f_ref := f_ref h + 1\<rparr>) s) }"

definition kpipe_close :: "bool \<Rightarrow> nat \<Rightarrow> ('v, 's) kstate \<Rightarrow> ('v, 's) kstate option" where
  "kpipe_close wr p s = do {
     q \<leftarrow> k_pipes s p;
     Some (s\<lparr>k_pipes := (k_pipes s)(p := pipe_close wr q), k_sched := sched_wake (chan p) (k_sched s)\<rparr>) }"

definition kpty_close :: "bool \<Rightarrow> nat \<Rightarrow> ('v, 's) kstate \<Rightarrow> ('v, 's) kstate option" where
  "kpty_close master p s = do {
     q \<leftarrow> k_ptys s p;
     Some (s\<lparr>k_ptys := (k_ptys s)(p := fst (pty_close master q)),
             k_sched := pty_events p (snd (pty_close master q)) (k_sched s)\<rparr>) }"

text \<open>What the close of socket \<open>i\<close> waits on: our address, the time and the ticks.\<close>

type_synonym close_env = "nat \<Rightarrow> u32 \<times> u64 \<times> tick list"

definition ksock_free :: "close_env \<Rightarrow> nat \<Rightarrow> ('v, 's) kstate \<Rightarrow> ('v, 's) kstate option" where
  "ksock_free E i s = (case E i of (ip, start, tks) \<Rightarrow>
     map_option (\<lambda>k. s\<lparr>k_socks := k\<rparr>) (socket_free ip start tks i (k_socks s)))"

definition vfs_close :: "close_env \<Rightarrow> nat \<Rightarrow> ('v, 's) kstate \<Rightarrow> ('v, 's) kstate option" where
  "vfs_close E f s = do {
     h \<leftarrow> k_files s f;
     if f_ref h - 1 > 0 then Some (put_file f (h\<lparr>f_ref := f_ref h - 1\<rparr>) s)
     else do {
       s \<leftarrow> (case f_pipe h of None \<Rightarrow> Some s | Some p \<Rightarrow> kpipe_close (f_writable h) p s);
       s \<leftarrow> (case f_pty h of None \<Rightarrow> Some s | Some p \<Rightarrow> kpty_close (f_is_master h) p s);
       s \<leftarrow> (case f_sock h of None \<Rightarrow> Some s | Some i \<Rightarrow> ksock_free E i s);
       Some (s\<lparr>k_files := (k_files s)(f := None)\<rparr>) } }"

subsection \<open>Descriptors\<close>

definition EBADF :: int where "EBADF = 9"
definition EMFILE :: int where "EMFILE = 24"
definition ENOENT :: int where "ENOENT = 2"
definition EINVAL :: int where "EINVAL = 22"

text \<open>There is a current process whenever a system call runs.\<close>

definition fds :: "('v, 's) kstate \<Rightarrow> nat option list" where "fds s = t_fds (current (k_sched s))"

definition set_fd :: "nat \<Rightarrow> nat option \<Rightarrow> ('v, 's) kstate \<Rightarrow> ('v, 's) kstate" where
  "set_fd i v s = s\<lparr>k_sched := upd_current (\<lambda>t. t\<lparr>t_fds := (t_fds t)[i := v]\<rparr>) (k_sched s)\<rparr>"

definition free_fd :: "nat \<Rightarrow> ('v, 's) kstate \<Rightarrow> nat option" where
  "free_fd lo s = List.find (\<lambda>i. fds s ! i = None) [lo..<16]"

definition fd_file :: "nat \<Rightarrow> ('v, 's) kstate \<Rightarrow> nat option" where
  "fd_file fd s = (if fd < 16 then fds s ! fd else None)"

definition install2 :: "close_env \<Rightarrow> nat \<Rightarrow> nat \<Rightarrow> ('v, 's) kstate \<Rightarrow> ((int + nat \<times> nat) \<times> ('v, 's) kstate) option" where
  "install2 E a b s =
     (case free_fd 3 s of
        None \<Rightarrow> do { s \<leftarrow> vfs_close E a s; s \<leftarrow> vfs_close E b s; Some (Inl (- EMFILE), s) }
      | Some r \<Rightarrow>
          let s' = set_fd r (Some a) s in
          case free_fd 3 s' of
            None \<Rightarrow> do { s \<leftarrow> vfs_close E a (set_fd r None s'); s \<leftarrow> vfs_close E b s; Some (Inl (- EMFILE), s) }
          | Some w \<Rightarrow> Some (Inr (r, w), set_fd w (Some b) s'))"

definition pipe_make :: "close_env \<Rightarrow> nat \<Rightarrow> u8 list \<Rightarrow> nat \<Rightarrow> nat \<Rightarrow> ('v, 's) kstate \<Rightarrow> ((int + nat \<times> nat) \<times> ('v, 's) kstate) option" where
  "pipe_make E p raw a b s =
     (let s = s\<lparr>k_pipes := (k_pipes s)(p \<mapsto> pipe_alloc raw)\<rparr>;
          s = put_file a (new_file None (Some p) None None False False) s;
          s = put_file b (new_file None (Some p) None None False True) s
      in install2 E a b s)"

definition pty_make :: "close_env \<Rightarrow> nat \<Rightarrow> u8 list \<times> u8 list \<times> u8 list \<Rightarrow> nat \<Rightarrow> nat \<Rightarrow> ('v, 's) kstate \<Rightarrow> ((int + nat \<times> nat) \<times> ('v, 's) kstate) option" where
  "pty_make E p raw a b s =
     (let s = s\<lparr>k_ptys := (k_ptys s)(p \<mapsto> (case raw of (o', i, l) \<Rightarrow> pty_alloc o' i l))\<rparr>;
          s = put_file a (new_file None None None (Some p) True True) s;
          s = put_file b (new_file None None None (Some p) False True) s
      in install2 E a b s)"

text \<open>\<open>con\<close> is the vnode of the console.\<close>

definition console_file_new :: "'v \<Rightarrow> nat \<Rightarrow> ('v, 's) kstate \<Rightarrow> ('v, 's) kstate" where
  "console_file_new con a s = put_file a (new_file (Some con) None None None False True) s"

definition dup_fd_handle :: "'v \<Rightarrow> nat \<Rightarrow> nat \<Rightarrow> ('v, 's) kstate \<Rightarrow> (nat option \<times> ('v, 's) kstate) option" where
  "dup_fd_handle con a from s =
     (case fds s ! from of
        Some f \<Rightarrow> map_option (\<lambda>s. (Some f, s)) (file_dup f s)
      | None \<Rightarrow> if from \<le> 2 then Some (Some a, console_file_new con a s) else Some (None, s))"

definition sys_close :: "close_env \<Rightarrow> nat \<Rightarrow> ('v, 's) kstate \<Rightarrow> (int \<times> ('v, 's) kstate) option" where
  "sys_close E fd s =
     (case fd_file fd s of
        Some f \<Rightarrow> do { s \<leftarrow> vfs_close E f s; Some (0, set_fd fd None s) }
      | None \<Rightarrow> Some (- EBADF, s))"

text \<open>The common end of \<open>dup2\<close> and \<open>dup3\<close>.\<close>

definition dup_onto :: "close_env \<Rightarrow> 'v \<Rightarrow> nat \<Rightarrow> int \<Rightarrow> nat \<Rightarrow> nat \<Rightarrow> ('v, 's) kstate \<Rightarrow> (int \<times> ('v, 's) kstate) option" where
  "dup_onto E con a bad old new s = do {
     (d, s) \<leftarrow> dup_fd_handle con a old s;
     (case d of None \<Rightarrow> Some (bad, s)
      | Some f \<Rightarrow> do {
          s \<leftarrow> (case fds s ! new of None \<Rightarrow> Some s | Some g \<Rightarrow> vfs_close E g s);
          Some (int new, set_fd new (Some f) s) }) }"

definition sys_dup2 :: "close_env \<Rightarrow> 'v \<Rightarrow> nat \<Rightarrow> nat \<Rightarrow> nat \<Rightarrow> ('v, 's) kstate \<Rightarrow> (int \<times> ('v, 's) kstate) option" where
  "sys_dup2 E con a old new s =
     (if old \<ge> 16 \<or> new \<ge> 16 then Some (-1, s)
      else if old \<noteq> new then dup_onto E con a (-1) old new s
      else Some (int new, s))"

definition sys_dup3 :: "close_env \<Rightarrow> 'v \<Rightarrow> nat \<Rightarrow> nat \<Rightarrow> nat \<Rightarrow> ('v, 's) kstate \<Rightarrow> (int \<times> ('v, 's) kstate) option" where
  "sys_dup3 E con a old new s =
     (if old \<ge> 16 \<or> new \<ge> 16 then Some (- EBADF, s)
      else if old = new then Some (- EINVAL, s)
      else dup_onto E con a (- EBADF) old new s)"

definition fcntl_dupfd :: "'v \<Rightarrow> nat \<Rightarrow> nat \<Rightarrow> int \<Rightarrow> ('v, 's) kstate \<Rightarrow> (int \<times> ('v, 's) kstate) option" where
  "fcntl_dupfd con a fd mn s =
     (if fd \<ge> 16 then Some (- EBADF, s)
      else case free_fd (nat mn) s of
          None \<Rightarrow> Some (- EMFILE, s)
        | Some i \<Rightarrow> do {
            (d, s) \<leftarrow> dup_fd_handle con a fd s;
            (case d of None \<Rightarrow> Some (- EBADF, s) | Some f \<Rightarrow> Some (int i, set_fd i (Some f) s)) })"

subsection \<open>System calls on descriptors\<close>

text \<open>\<open>key\<close> is what \<open>console_getc\<close> returned, \<open>our_ip\<close> and \<open>tks\<close> what the TCP calls use.\<close>

definition sys_read :: "('v, 's) vnodes \<Rightarrow> u32 \<Rightarrow> tick list \<Rightarrow> u8 option \<Rightarrow> nat \<Rightarrow> u64 \<Rightarrow> ('v, 's) kstate \<Rightarrow> ((unit, int \<times> u8 list) outcome \<times> ('v, 's) kstate) option" where
  "sys_read N our_ip tks key fd len s =
     (case fd_file fd s of
        Some f \<Rightarrow> do {
          h \<leftarrow> k_files s f;
          (case f_sock h of
             Some i \<Rightarrow> do {
               (r, bs, k) \<leftarrow> socket_read our_ip tks i (unat (ucast len :: u32)) (k_socks s);
               Some (Done (r, bs), s\<lparr>k_socks := k\<rparr>) }
           | None \<Rightarrow> vfs_read N f len s) }
      | None \<Rightarrow>
          if fd = 0 then
            (if len = 0 then Some (Done (0, []), s)
             else case key of None \<Rightarrow> Some (Done (0, []), s) | Some c \<Rightarrow> Some (Done (1, [c]), s))
          else Some (Done (- EBADF, []), s))"

definition sys_write :: "('v, 's) vnodes \<Rightarrow> u32 \<Rightarrow> tick list \<Rightarrow> nat \<Rightarrow> u8 list \<Rightarrow> ('v, 's) kstate \<Rightarrow> ((nat \<times> u8 list, int) outcome \<times> ('v, 's) kstate) option" where
  "sys_write N our_ip tks fd bs s =
     (case fd_file fd s of
        Some f \<Rightarrow> do {
          h \<leftarrow> k_files s f;
          (case f_sock h of
             Some i \<Rightarrow> do {
               (r, k, _) \<leftarrow> socket_write our_ip tks i bs (k_socks s);
               Some (Done r, s\<lparr>k_socks := k\<rparr>) }
           | None \<Rightarrow> vfs_write N f bs s) }
      | None \<Rightarrow>
          if fd = 1 \<or> fd = 2 then Some (Done (int (length bs)), s\<lparr>k_uart := k_uart s @ bs\<rparr>)
          else Some (Done (- EBADF), s))"

text \<open>
  \<open>resolve_path\<close> joins a relative path to the working directory, in a buffer of 512 bytes, and copies
  its components to an output of \<open>sz\<close> bytes, dropping \<open>.\<close> and popping at \<open>..\<close>.
\<close>

definition joined_path :: "path \<Rightarrow> path \<Rightarrow> path" where
  "joined_path cwd p =
     (if p \<noteq> [] \<and> hd p = slash then take 511 p
      else let n = take 511 cwd; n = (if n = [] \<or> last n \<noteq> slash then take 511 (n @ [slash]) else n) in take 511 (n @ p))"

definition pop_component :: "path \<Rightarrow> path" where
  "pop_component out = butlast (rev (dropWhile (\<lambda>c. c \<noteq> slash) (rev out)))"

definition add_component :: "nat \<Rightarrow> path \<Rightarrow> path \<Rightarrow> path" where
  "add_component sz c out =
     (if c = [46] then out
      else if c = [46, 46] then pop_component out
      else take (sz - 1) ((if length out < sz - 1 then out @ [slash] else out) @ c))"

function canon :: "nat \<Rightarrow> path \<Rightarrow> path \<Rightarrow> path" where
  "canon sz tmp out =
     (let tmp = dropWhile (\<lambda>c. c = slash) tmp in
      if tmp = [] then out
      else canon sz (dropWhile (\<lambda>c. c \<noteq> slash) tmp) (add_component sz (takeWhile (\<lambda>c. c \<noteq> slash) tmp) out))"
  by pat_completeness auto
termination
proof (relation "measure (\<lambda>(_, tmp, _). length tmp)", goal_cases)
  case (2 sz tmp out x)
  then obtain c q where x: "x = c # q" by (meson list.exhaust)
  have "c \<noteq> slash" using hd_dropWhile [of "\<lambda>c. c = slash" tmp] 2 x by (metis list.sel(1))
  note x = x this
  have "length (dropWhile (\<lambda>c. c \<noteq> slash) x) < length x"
    using x length_dropWhile_le [of "\<lambda>c. c \<noteq> slash" q] by simp
  moreover have "length x \<le> length tmp" using 2 by (simp add: length_dropWhile_le)
  ultimately show ?case by simp
qed simp

declare canon.simps [simp del]

definition resolve_path :: "path \<Rightarrow> path \<Rightarrow> nat \<Rightarrow> path" where
  "resolve_path cwd p sz = (let out = canon sz (joined_path cwd p) [] in if out = [] then [slash] else out)"

definition cwd_path :: "path \<Rightarrow> ('v, 's) kstate \<Rightarrow> path" where
  "cwd_path p s = resolve_path (t_cwd (current (k_sched s))) p 256"

definition O_CREAT :: u32 where "O_CREAT = 0x40"
definition O_TRUNC :: u32 where "O_TRUNC = 0x200"
definition O_APPEND :: u32 where "O_APPEND = 0x400"

definition open_or_create :: "('v, 's) vnodes \<Rightarrow> 'v vfs \<Rightarrow> nat \<Rightarrow> path \<Rightarrow> u32 \<Rightarrow> ('v, 's) kstate \<Rightarrow> (nat option \<times> ('v, 's) kstate) option" where
  "open_or_create N m a path flags s = do {
     (f, s) \<leftarrow> vfs_open N m a path s;
     if f = None \<and> tio_on flags O_CREAT then do {
       (_, fs) \<leftarrow> vfs_create N m path VN_FILE (k_fs s);
       vfs_open N m a path (s\<lparr>k_fs := fs\<rparr>) }
     else Some (f, s) }"

definition open_trunc :: "('v, 's) vnodes \<Rightarrow> nat \<Rightarrow> 'v \<Rightarrow> u32 \<Rightarrow> ('v, 's) kstate \<Rightarrow> ('v, 's) kstate option" where
  "open_trunc N f vn flags s =
     (if tio_on flags O_TRUNC then do {
        h \<leftarrow> k_files s f;
        (_, fs) \<leftarrow> vfs_truncate N vn (k_fs s);
        Some (put_file f (h\<lparr>f_off := 0\<rparr>) (s\<lparr>k_fs := fs\<rparr>)) }
      else Some s)"

definition open_append :: "('v, 's) vnodes \<Rightarrow> nat \<Rightarrow> 'v \<Rightarrow> u32 \<Rightarrow> ('v, 's) kstate \<Rightarrow> ('v, 's) kstate option" where
  "open_append N f vn flags s =
     (if tio_on flags O_APPEND then do {
        h \<leftarrow> k_files s f;
        Some (put_file f (h\<lparr>f_off := vn_size N (k_fs s) vn\<rparr>) s) }
      else Some s)"

text \<open>A file that \<open>vfs_open\<close> returned has its vnode.\<close>

definition open_adjust :: "('v, 's) vnodes \<Rightarrow> nat \<Rightarrow> u32 \<Rightarrow> ('v, 's) kstate \<Rightarrow> ('v, 's) kstate option" where
  "open_adjust N f flags s = do {
     h \<leftarrow> k_files s f;
     vn \<leftarrow> f_vnode h;
     s \<leftarrow> open_trunc N f vn flags s;
     open_append N f vn flags s }"

definition sys_openat :: "close_env \<Rightarrow> ('v, 's) vnodes \<Rightarrow> 'v vfs \<Rightarrow> nat \<Rightarrow> path \<Rightarrow> u32 \<Rightarrow> ('v, 's) kstate \<Rightarrow> (int \<times> ('v, 's) kstate) option" where
  "sys_openat E N m a p flags s = do {
     (f, s) \<leftarrow> open_or_create N m a (cwd_path p s) flags s;
     (case f of None \<Rightarrow> Some (- ENOENT, s)
      | Some f \<Rightarrow> do {
          s \<leftarrow> open_adjust N f flags s;
          (case free_fd 3 s of
             Some i \<Rightarrow> Some (int i, set_fd i (Some f) s)
           | None \<Rightarrow> do { s \<leftarrow> vfs_close E f s; Some (- EMFILE, s) }) }) }"

definition install_sock :: "close_env \<Rightarrow> nat \<Rightarrow> nat \<Rightarrow> ('v, 's) kstate \<Rightarrow> (int \<times> ('v, 's) kstate) option" where
  "install_sock E a i s =
     (let s' = put_file a (new_file None None (Some i) None False False) s in
      case free_fd 3 s' of
        Some fd \<Rightarrow> Some (int fd, set_fd fd (Some a) s')
      | None \<Rightarrow> do { s \<leftarrow> ksock_free E i s'; Some (-1, s\<lparr>k_files := (k_files s)(a := None)\<rparr>) })"

definition sys_socket :: "close_env \<Rightarrow> nat \<Rightarrow> sock_type \<Rightarrow> ('v, 's) kstate \<Rightarrow> (int \<times> ('v, 's) kstate) option" where
  "sys_socket E a t s =
     (case socket_alloc t (k_socks s) of
        (None, k) \<Rightarrow> Some (-1, s\<lparr>k_socks := k\<rparr>)
      | (Some i, k) \<Rightarrow> install_sock E a i (s\<lparr>k_socks := k\<rparr>))"

definition fd_sock :: "nat \<Rightarrow> ('v, 's) kstate \<Rightarrow> nat option" where
  "fd_sock fd s = do { f \<leftarrow> fd_file fd s; h \<leftarrow> k_files s f; f_sock h }"

definition sys_accept :: "close_env \<Rightarrow> u32 \<Rightarrow> u64 \<Rightarrow> tick list \<Rightarrow> tick list \<Rightarrow> nat \<Rightarrow> nat \<Rightarrow> ('v, 's) kstate \<Rightarrow> (int \<times> ('v, 's) kstate) option" where
  "sys_accept E our_ip start tks tks' a fd s =
     (case fd_sock fd s of None \<Rightarrow> Some (-1, s)
      | Some i \<Rightarrow> do {
          (ns, k) \<leftarrow> socket_accept our_ip start tks tks' i (k_socks s);
          (case ns of None \<Rightarrow> Some (-1, s\<lparr>k_socks := k\<rparr>)
           | Some j \<Rightarrow> install_sock E a j (s\<lparr>k_socks := k\<rparr>)) })"

definition sys_bind :: "nat \<Rightarrow> u16 \<Rightarrow> ('v, 's) kstate \<Rightarrow> int \<times> ('v, 's) kstate" where
  "sys_bind fd port s =
     (case fd_sock fd s of None \<Rightarrow> (-1, s)
      | Some i \<Rightarrow> (case socket_bind i port (k_socks s) of (r, k) \<Rightarrow> (r, s\<lparr>k_socks := k\<rparr>)))"

definition sys_lseek :: "('v, 's) vnodes \<Rightarrow> nat \<Rightarrow> u64 \<Rightarrow> int \<Rightarrow> ('v, 's) kstate \<Rightarrow> (int \<times> ('v, 's) kstate)" where
  "sys_lseek N fd off whence s =
     (case do { f \<leftarrow> fd_file fd s; h \<leftarrow> k_files s f; vn \<leftarrow> f_vnode h; Some (f, h, vn) } of
        None \<Rightarrow> (- EBADF, s)
      | Some (f, h, vn) \<Rightarrow>
          let base = (if whence = 1 then f_off h else if whence = 2 then vn_size N (k_fs s) vn else 0);
              neu = base + off
          in if sint neu < 0 then (- EINVAL, s) else (sint neu, put_file f (h\<lparr>f_off := neu\<rparr>) s))"

subsection \<open>Processes\<close>

definition sys_fork :: "u64 \<Rightarrow> u64 \<Rightarrow> nat option \<Rightarrow> trapframe \<Rightarrow> ('v, 's) kstate \<Rightarrow> (int \<times> ('v, 's) kstate) option" where
  "sys_fork kstack fork_ret as tf s =
     (case sched_fork kstack fork_ret as tf (k_sched s) of
        (pid, dups, sc) \<Rightarrow> do { s \<leftarrow> fold_option file_dup dups s; Some (pid, s\<lparr>k_sched := sc\<rparr>) })"

definition close_slot :: "close_env \<Rightarrow> nat \<Rightarrow> ('v, 's) kstate \<Rightarrow> ('v, 's) kstate option" where
  "close_slot E i s = (case fds s ! i of None \<Rightarrow> Some s | Some f \<Rightarrow> do { s \<leftarrow> vfs_close E f s; Some (set_fd i None s) })"

definition sys_exit :: "close_env \<Rightarrow> u64 \<Rightarrow> int \<Rightarrow> seats \<Rightarrow> ('v, 's) kstate \<Rightarrow> (seats \<times> ('v, 's) kstate) option" where
  "sys_exit E inq status st s = do {
     s \<leftarrow> fold_option (close_slot E) [0..<16] s;
     (case thread_exit inq status st (k_sched s) of (_, st, sc) \<Rightarrow> Some (st, s\<lparr>k_sched := sc\<rparr>)) }"

subsection \<open>poll\<close>

definition POLLIN :: u16 where "POLLIN = 0x001"
definition POLLOUT :: u16 where "POLLOUT = 0x004"
definition POLLERR :: u16 where "POLLERR = 0x008"
definition POLLHUP :: u16 where "POLLHUP = 0x010"

record pollfd =
  pf_fd :: int
  pf_events :: u16
  pf_revents :: u16

text \<open>Read readiness, write readiness and hang-up of a file; \<open>None\<close>: a freed object.\<close>

definition file_ready :: "('v, 's) kstate \<Rightarrow> 'v kfile \<Rightarrow> (bool \<times> bool \<times> bool) option" where
  "file_ready s h =
     (case f_sock h of Some i \<Rightarrow> Some (socket_readable i (k_socks s), socket_writable i (k_socks s), False)
      | None \<Rightarrow> case f_pipe h of Some p \<Rightarrow> do {
            q \<leftarrow> k_pipes s p;
            Some (pipe_readable (f_writable h) q, pipe_writable (f_writable h) q, pipe_hangup (f_writable h) q) }
      | None \<Rightarrow> case f_pty h of Some p \<Rightarrow> do {
            q \<leftarrow> k_ptys s p;
            Some (if f_is_master h then pty_master_readable q else pty_slave_readable q, True, False) }
      | None \<Rightarrow> Some (True, True, False))"

definition poll_bits :: "u16 \<Rightarrow> bool \<times> bool \<times> bool \<Rightarrow> u16" where
  "poll_bits ev rwh = (case rwh of (rd, wr, hup) \<Rightarrow>
     (if ev AND POLLIN \<noteq> 0 \<and> rd then POLLIN else 0) OR (if ev AND POLLOUT \<noteq> 0 \<and> wr then POLLOUT else 0) OR
     (if hup then POLLHUP else 0))"

definition poll_one :: "('v, 's) kstate \<Rightarrow> pollfd \<Rightarrow> pollfd option" where
  "poll_one s p =
     (if pf_fd p < 0 then Some (p\<lparr>pf_revents := 0\<rparr>)
      else case fd_file (nat (pf_fd p)) s of
          None \<Rightarrow> Some (p\<lparr>pf_revents := POLLERR\<rparr>)
        | Some f \<Rightarrow> do {
            h \<leftarrow> k_files s f; r \<leftarrow> file_ready s h;
            Some (p\<lparr>pf_revents := poll_bits (pf_events p) r\<rparr>) })"

primrec poll_scan :: "('v, 's) kstate \<Rightarrow> pollfd list \<Rightarrow> (nat \<times> pollfd list) option" where
  "poll_scan s [] = Some (0, [])"
| "poll_scan s (p # ps) = do {
     p \<leftarrow> poll_one s p;
     (n, ps) \<leftarrow> poll_scan s ps;
     Some (if pf_revents p \<noteq> 0 then n + 1 else n, p # ps) }"

text \<open>
  The loop of \<open>SYS_POLL\<close>: each turn has the state it sees, whether a signal is pending and the time
  since the start. \<open>None\<close>: it still waits after the last turn.
\<close>

fun poll_loop :: "int \<Rightarrow> pollfd list \<Rightarrow> (('v, 's) kstate \<times> bool \<times> u64) list \<Rightarrow> (int \<times> pollfd list) option" where
  "poll_loop timeout ps [] = None"
| "poll_loop timeout ps ((s, sig, elapsed) # rounds) = do {
     (r, ps) \<leftarrow> poll_scan s ps;
     if r > 0 then Some (int r, ps)
     else if timeout = 0 then Some (0, ps)
     else if sig then Some (-1, ps)
     else if timeout > 0 \<and> elapsed \<ge> of_int timeout * 1000 then Some (0, ps)
     else poll_loop timeout ps rounds }"

definition sys_poll :: "int \<Rightarrow> pollfd list \<Rightarrow> (('v, 's) kstate \<times> bool \<times> u64) list \<Rightarrow> (int \<times> pollfd list) option" where
  "sys_poll timeout ps rounds = (if length ps > 16 then Some (-1, ps) else poll_loop timeout ps rounds)"

end
