(* ===== verification/Files_Inv.thy ===== *)
theory Files_Inv
  imports Files Sched_Props "HOL-Library.Multiset"
begin

text \<open>
  The invariant of open files. \<open>profile\<close> is what the descriptors of all processes look like, and
  no call of the scheduler changes it but fork, exit and wait; \<open>waiters\<close> are the channels with a
  sleeper. The invariant \<open>kinv\<close> says that the reference count of every open file is the number of its
  descriptors and that every pipe end, pty end and socket is open exactly while a file stands for it;
  its argument counts references that are in the hands of a call. Closing a handle keeps it.
\<close>

subsection \<open>Descriptor tables and sleepers under the scheduler\<close>

definition profile :: "sched \<Rightarrow> (nat option list \<times> bool) multiset" where
  "profile sc = image_mset (\<lambda>t. (t_fds t, t_state t = THREAD_ZOMBIE)) (mset (sc_ring sc))"

definition asleep :: "thread \<Rightarrow> bool" where
  "asleep t \<longleftrightarrow> t_state t = THREAD_BLOCKED \<or> t_state t = THREAD_SLEEPING"

definition waiters :: "sched \<Rightarrow> u64 set" where
  "waiters sc = t_wait_chan ` {t \<in> set (sc_ring sc). asleep t}"

lemmas sched_view = profile_def waiters_def asleep_def

text \<open>A thread that looks the same, and one that sleeps on nothing new.\<close>

definition like :: "thread \<Rightarrow> thread \<Rightarrow> bool" where
  "like t t' \<longleftrightarrow> t_fds t' = t_fds t \<and> (t_state t' = THREAD_ZOMBIE) = (t_state t = THREAD_ZOMBIE)"

definition sleeps_less :: "thread \<Rightarrow> thread \<Rightarrow> bool" where
  "sleeps_less t t' \<longleftrightarrow> (asleep t' \<longrightarrow> asleep t \<and> t_wait_chan t' = t_wait_chan t)"

lemma view_all2:
  assumes "list_all2 (\<lambda>t t'. like t t' \<and> sleeps_less t t') (sc_ring s) (sc_ring s')"
  shows "profile s' = profile s" "waiters s' \<subseteq> waiters s"
proof -
  have "list_all2 (\<lambda>t t'. like t t' \<and> sleeps_less t t') r r' \<Longrightarrow>
      mset (map (\<lambda>t. (t_fds t, t_state t = THREAD_ZOMBIE)) r') = mset (map (\<lambda>t. (t_fds t, t_state t = THREAD_ZOMBIE)) r) \<and>
      t_wait_chan ` {t \<in> set r'. asleep t} \<subseteq> t_wait_chan ` {t \<in> set r. asleep t}" for r r'
  proof (induction r r' rule: list_all2_induct)
    case (Cons t ts t' ts')
    have "t_wait_chan ` {x \<in> set (t' # ts'). asleep x} \<subseteq> t_wait_chan ` {x \<in> set (t # ts). asleep x}"
    proof
      fix c assume "c \<in> t_wait_chan ` {x \<in> set (t' # ts'). asleep x}"
      then consider "asleep t'" "c = t_wait_chan t'" | "c \<in> t_wait_chan ` {x \<in> set ts'. asleep x}" by auto
      then show "c \<in> t_wait_chan ` {x \<in> set (t # ts). asleep x}"
      proof cases
        case 1
        with Cons(1) show ?thesis by (force simp: sleeps_less_def)
      qed (use Cons(3) in auto)
    qed
    with Cons show ?case by (simp add: like_def)
  qed simp
  from this [OF assms] show "profile s' = profile s" "waiters s' \<subseteq> waiters s"
    by (simp_all add: profile_def waiters_def)
qed

lemma view_map:
  assumes "\<And>t. t \<in> set (sc_ring s) \<Longrightarrow> like t (f t) \<and> sleeps_less t (f t)" "sc_ring s' = map f (sc_ring s)"
  shows "profile s' = profile s" "waiters s' \<subseteq> waiters s"
proof -
  have "list_all2 (\<lambda>t t'. like t t' \<and> sleeps_less t t') (sc_ring s) (sc_ring s')"
    using assms by (auto simp: list_all2_conv_all_nth)
  from view_all2 [OF this] show "profile s' = profile s" "waiters s' \<subseteq> waiters s" .
qed

lemma mset_rotate: "mset (rotate n r) = mset r"
  unfolding rotate_drop_take by (metis append_take_drop_id mset_append union_commute)

lemma view_ring: "mset (sc_ring s) = mset (sc_ring s') \<Longrightarrow> profile s = profile s' \<and> waiters s = waiters s'"
  by (simp add: profile_def waiters_def flip: set_mset_mset)

lemma view_schedule:
  assumes "sc_ring s \<noteq> []"
  shows "profile (schedule s) = profile s" "waiters (schedule s) = waiters s"
proof -
  obtain c ts where r: "sc_ring s = c # ts" using assms by (cases "sc_ring s") auto
  let ?g = "s\<lparr>sc_ring := given_up s\<rparr>"
  have g: "profile ?g = profile s \<and> waiters ?g = waiters s"
    by (auto simp: profile_def waiters_def given_up_def r asleep_def set_state_def image_iff)
  have "profile (schedule s) = profile ?g \<and> waiters (schedule s) = waiters ?g"
    using schedule_cases [OF assms]
  proof (elim disjE exE conjE)
    fix k assume k: "k < length (sc_ring s)" "runnable (rotate 1 (given_up s) ! k)"
      and e: "sc_ring (schedule s) = (case rotate (k + 1) (given_up s) of [] \<Rightarrow> [] | t # ts \<Rightarrow> set_state THREAD_RUNNING t # ts)"
    have ne: "given_up s \<noteq> []" by (simp add: given_up_def r)
    then obtain t us where tu: "rotate (k + 1) (given_up s) = t # us" by (metis list.exhaust rotate_is_Nil_conv)
    have len: "length (given_up s) = length (sc_ring s)" by (simp add: given_up_def r)
    have t: "runnable t"
      using rotate_one_more [of k "given_up s"] k ne len tu by simp
    have m: "mset (given_up s) = mset (t # us)" by (metis mset_rotate tu)
    have "profile ?g = profile (s\<lparr>sc_ring := t # us\<rparr>) \<and> waiters ?g = waiters (s\<lparr>sc_ring := t # us\<rparr>)"
      by (rule view_ring) (simp add: m)
    moreover have "profile (schedule s) = profile (s\<lparr>sc_ring := t # us\<rparr>) \<and> waiters (schedule s) = waiters (s\<lparr>sc_ring := t # us\<rparr>)"
      using t e tu by (auto simp: profile_def waiters_def runnable_def set_state_def asleep_def)
    ultimately show ?thesis by simp
  qed (simp add: r)
  with g show "profile (schedule s) = profile s" "waiters (schedule s) = waiters s" by simp_all
qed

lemma profile_ne: "profile s = profile s' \<Longrightarrow> sc_ring s = [] \<longleftrightarrow> sc_ring s' = []"
  by (metis profile_def image_mset_is_empty_iff mset_zero_iff)

lemma view_upd:
  assumes "sc_ring s \<noteq> []" "like (current s) (f (current s))"
  shows "profile (upd_current f s) = profile s"
    "waiters (upd_current f s) \<subseteq> waiters s \<union> (if asleep (f (current s)) then {t_wait_chan (f (current s))} else {})"
  using assms by (cases "sc_ring s"; auto simp: profile_def waiters_def current_def upd_current_def like_def)+

lemma upd_current_ring: "sc_ring (upd_current f s) = [] \<longleftrightarrow> sc_ring s = []"
  by (simp add: upd_current_def split: list.split)

lemma view_wake:
  shows "profile (sched_wake c s) = profile s" "waiters (sched_wake c s) = waiters s - {c}"
proof -
  show "profile (sched_wake c s) = profile s"
    by (rule view_map [where f = "\<lambda>t. if waits_on c t then t\<lparr>t_state := THREAD_RUNNABLE, t_wait_chan := 0\<rparr> else t"])
      (auto simp: like_def sleeps_less_def waits_on_def sched_wake_def asleep_def)
  show "waiters (sched_wake c s) = waiters s - {c}"
    by (auto simp: waiters_def sched_wake_def asleep_def waits_on_def image_iff)
qed

lemma view_signal: "like t (signal_send sig t) \<and> sleeps_less t (signal_send sig t)"
  by (auto simp: signal_send_def like_def sleeps_less_def asleep_def Let_def)

lemma like_refl [simp]: "like t t" "sleeps_less t t" by (simp_all add: like_def sleeps_less_def)

lemma upd_first_all2:
  assumes "upd_first P f r = Some r'" "\<And>t. like t (f t) \<and> sleeps_less t (f t)"
  shows "list_all2 (\<lambda>t t'. like t t' \<and> sleeps_less t t') r r'"
  using assms(1)
proof (induction r arbitrary: r')
  case (Cons t ts)
  show ?case
  proof (cases "P t")
    case True
    with Cons.prems assms(2) [of t] show ?thesis by (auto intro!: list_all2_refl)
  next
    case False
    with Cons.prems obtain ts' where "upd_first P f ts = Some ts'" "r' = t # ts'" by auto
    with Cons.IH show ?thesis by simp
  qed
qed simp

definition quiet :: "sched \<Rightarrow> sched \<Rightarrow> bool" where
  "quiet s s' \<longleftrightarrow> profile s' = profile s \<and> waiters s' \<subseteq> waiters s"

lemma quiet_refl [simp]: "quiet s s" by (simp add: quiet_def)

lemma quiet_trans: "quiet s s' \<Longrightarrow> quiet s' s'' \<Longrightarrow> quiet s s''" by (auto simp: quiet_def)

lemma quiet_ne: "quiet s s' \<Longrightarrow> sc_ring s = [] \<longleftrightarrow> sc_ring s' = []"
  unfolding quiet_def by (metis profile_ne)

lemma quiet_kill: "quiet s (snd (sched_kill pid sig s))"
proof (cases "pid < 0")
  case True
  let ?f = "\<lambda>t. if in_group (- pid) t then signal_send sig t else t"
  have r: "sc_ring (snd (sched_kill pid sig s)) = map ?f (sc_ring s)" by (simp add: sched_kill_def True)
  have "\<And>t. like t (?f t) \<and> sleeps_less t (?f t)" using view_signal by auto
  from view_map [OF this r] show ?thesis by (simp add: quiet_def)
next
  case False
  show ?thesis
  proof (cases "upd_first (\<lambda>t. t_id t = pid) (signal_send sig) (sc_ring s)")
    case (Some r)
    then have "list_all2 (\<lambda>t t'. like t t' \<and> sleeps_less t t') (sc_ring s) r"
      by (rule upd_first_all2) (simp add: view_signal)
    with view_all2 [of s "s\<lparr>sc_ring := r\<rparr>"] Some False show ?thesis by (simp add: sched_kill_def quiet_def)
  qed (use False in \<open>simp add: sched_kill_def\<close>)
qed

lemma quiet_setpgid: "quiet s (snd (sched_setpgid pid pgid s))"
proof -
  let ?P = "\<lambda>t. pid = 0 \<and> t_id t = t_id (current s) \<or> pid \<noteq> 0 \<and> t_id t = pid"
  let ?f = "\<lambda>t. t\<lparr>t_pgid := (if pgid = 0 then t_id t else pgid)\<rparr>"
  show ?thesis
  proof (cases "upd_first ?P ?f (sc_ring s)")
    case (Some r)
    then have "list_all2 (\<lambda>t t'. like t t' \<and> sleeps_less t t') (sc_ring s) r"
      by (rule upd_first_all2) (simp add: like_def sleeps_less_def asleep_def)
    with view_all2 [of s "s\<lparr>sc_ring := r\<rparr>"] Some show ?thesis by (simp add: sched_setpgid_def quiet_def)
  qed (simp add: sched_setpgid_def)
qed

lemma quiet_map:
  "(\<And>t. t \<in> set (sc_ring s) \<Longrightarrow> like t (f t) \<and> sleeps_less t (f t)) \<Longrightarrow> sc_ring s' = map f (sc_ring s) \<Longrightarrow> quiet s s'"
  unfolding quiet_def using view_map by blast

lemma quiet_tick: "quiet s (snd (sched_tick s))"
proof (cases "sc_started s")
  case True
  let ?f = "\<lambda>t. if t_state t = THREAD_SLEEPING \<and> t_wake_tick t \<le> sc_jiffies s + 1 then set_state THREAD_RUNNABLE t else t"
  have "sc_ring (snd (sched_tick s)) = map ?f (sc_ring s)" using True by (simp add: sched_tick_def Let_def)
  then show ?thesis by (rule quiet_map [rotated]) (auto simp: like_def sleeps_less_def asleep_def set_state_def)
qed (simp add: sched_tick_def)

lemma quiet_schedule: "sc_ring s \<noteq> [] \<Longrightarrow> quiet s (schedule s)"
  by (simp add: quiet_def view_schedule)

lemma quiet_resume: "sc_ring s \<noteq> [] \<Longrightarrow> t_state (current s) = THREAD_RUNNING \<Longrightarrow> quiet s (block_resume s)"
  using view_upd [of s "\<lambda>t. t\<lparr>t_wait_chan := 0\<rparr>"]
  by (simp add: quiet_def block_resume_def like_def asleep_def)

text \<open>A call that sleeps on a channel.\<close>

lemma view_sleep:
  assumes "sc_ring s \<noteq> []" "t_state (current s) = THREAD_RUNNING"
  shows "profile (sched_block c s) = profile s" "waiters (sched_block c s) \<subseteq> insert c (waiters s)"
    "profile (sched_wait_event c n s) = profile s" "waiters (sched_wait_event c n s) \<subseteq> insert c (waiters s)"
    "profile (sleep_ticks n s) = profile s" "waiters (sleep_ticks n s) \<subseteq> insert (t_wait_chan (current s)) (waiters s)"
proof -
  note u = view_upd [OF assms(1)]
  show "profile (sched_block c s) = profile s" "waiters (sched_block c s) \<subseteq> insert c (waiters s)"
    using assms u [of "\<lambda>t. t\<lparr>t_wait_chan := c, t_state := THREAD_BLOCKED\<rparr>"]
    by (auto simp: sched_block_def view_schedule upd_current_ring like_def asleep_def)
  show "profile (sched_wait_event c n s) = profile s" "waiters (sched_wait_event c n s) \<subseteq> insert c (waiters s)"
    using assms u [of "\<lambda>t. t\<lparr>t_wait_chan := c, t_wake_tick := sc_jiffies s + n, t_state := THREAD_SLEEPING\<rparr>"]
    by (auto simp: sched_wait_event_def view_schedule upd_current_ring like_def asleep_def)
  show "profile (sleep_ticks n s) = profile s" "waiters (sleep_ticks n s) \<subseteq> insert (t_wait_chan (current s)) (waiters s)"
    using assms u [of "\<lambda>t. t\<lparr>t_wake_tick := sc_jiffies s + n, t_state := THREAD_SLEEPING\<rparr>"]
    by (auto simp: sleep_ticks_def view_schedule upd_current_ring like_def asleep_def)
qed

text \<open>A step beside the current thread: it keeps running, with its descriptors.\<close>

definition running :: "sched \<Rightarrow> bool" where
  "running sc \<longleftrightarrow> sched_ok sc \<and> t_wait_chan (current sc) = 0"

lemma runningD: "running sc \<Longrightarrow> sc_ring sc \<noteq> [] \<and> t_state (current sc) = THREAD_RUNNING \<and> t_wait_chan (current sc) = 0"
  using ring_ok_ne by (auto simp: running_def sched_ok_def)

definition steady :: "sched \<Rightarrow> sched \<Rightarrow> bool" where
  "steady s s' \<longleftrightarrow> quiet s s' \<and> (running s \<longrightarrow> running s' \<and> t_fds (current s') = t_fds (current s) \<and>
     t_id (current s') = t_id (current s))"

lemma steady_refl [simp]: "steady s s" by (simp add: steady_def)

lemma steady_trans: "steady s s' \<Longrightarrow> steady s' s'' \<Longrightarrow> steady s s''"
  unfolding steady_def using quiet_trans by metis

lemma steady_quiet: "steady s s' \<Longrightarrow> quiet s s'" by (simp add: steady_def)

lemma steady_head:
  "quiet s s' \<Longrightarrow> (sched_ok s \<Longrightarrow> sched_ok s') \<Longrightarrow>
     (sc_ring s \<noteq> [] \<and> t_state (current s) = THREAD_RUNNING \<Longrightarrow> t_fds (current s') = t_fds (current s) \<and>
        t_wait_chan (current s') = t_wait_chan (current s) \<and> t_id (current s') = t_id (current s)) \<Longrightarrow> steady s s'"
  using runningD [of s] by (simp add: steady_def running_def)

lemma steady_wake: "steady s (sched_wake c s)"
proof (rule steady_head)
  show "quiet s (sched_wake c s)" by (auto simp: quiet_def view_wake)
  show "sched_ok s \<Longrightarrow> sched_ok (sched_wake c s)" by (rule sched_ok_wake)
  assume "sc_ring s \<noteq> [] \<and> t_state (current s) = THREAD_RUNNING"
  then show "t_fds (current (sched_wake c s)) = t_fds (current s) \<and>
     t_wait_chan (current (sched_wake c s)) = t_wait_chan (current s) \<and> t_id (current (sched_wake c s)) = t_id (current s)"
    by (cases "sc_ring s") (auto simp: sched_wake_def current_def waits_on_def)
qed

lemma signal_running:
  "t_state t = THREAD_RUNNING \<Longrightarrow> t_fds (signal_send sig t) = t_fds t \<and> t_wait_chan (signal_send sig t) = t_wait_chan t \<and>
     t_id (signal_send sig t) = t_id t"
  by (simp add: signal_send_def Let_def)

lemma steady_kill: "steady s (snd (sched_kill pid sig s))"
proof (rule steady_head [OF quiet_kill sched_ok_kill])
  assume "sc_ring s \<noteq> [] \<and> t_state (current s) = THREAD_RUNNING"
  then obtain t ts where r: "sc_ring s = t # ts" "t_state t = THREAD_RUNNING" by (cases "sc_ring s") (auto simp: current_def)
  show "t_fds (current (snd (sched_kill pid sig s))) = t_fds (current s) \<and>
     t_wait_chan (current (snd (sched_kill pid sig s))) = t_wait_chan (current s) \<and>
     t_id (current (snd (sched_kill pid sig s))) = t_id (current s)"
    using r signal_running [OF r(2)] by (auto simp: sched_kill_def current_def split: option.split if_splits)
qed

lemma steady_pty_events: "steady s (pty_events p evs s)"
proof (induction evs arbitrary: s)
  case (Cons e evs)
  have "steady s (case e of WakeIn \<Rightarrow> sched_wake (chan_in p) s | WakeOut \<Rightarrow> sched_wake (chan_out p) s
     | Kill g sig \<Rightarrow> snd (sched_kill g (int sig) s))"
    by (cases e) (simp_all add: steady_kill steady_wake)
  with Cons show ?case unfolding pty_events_def by (simp add: steady_trans)
qed (simp add: pty_events_def)

lemmas quiet_pty_events = steady_pty_events [THEN steady_quiet]

subsection \<open>What a file stands for\<close>

datatype kobj = PipeR nat | PipeW nat | PtyM nat | PtyS nat | SockO nat | Plain

definition obj :: "'v kfile \<Rightarrow> kobj" where
  "obj h = (case f_pipe h of Some p \<Rightarrow> if f_writable h then PipeW p else PipeR p
     | None \<Rightarrow> case f_pty h of Some p \<Rightarrow> if f_is_master h then PtyM p else PtyS p
     | None \<Rightarrow> case f_sock h of Some i \<Rightarrow> SockO i | None \<Rightarrow> Plain)"

definition single :: "'v kfile \<Rightarrow> bool" where
  "single h \<longleftrightarrow> (f_pipe h \<noteq> None \<longrightarrow> f_pty h = None \<and> f_sock h = None) \<and> (f_pty h \<noteq> None \<longrightarrow> f_sock h = None) \<and>
     (obj h = Plain \<longrightarrow> f_vnode h \<noteq> None)"

fun open_obj :: "('v, 's) kstate \<Rightarrow> kobj \<Rightarrow> bool" where
  "open_obj s (PipeR p) = (\<exists>q. k_pipes s p = Some q \<and> p_readers q \<noteq> 0)"
| "open_obj s (PipeW p) = (\<exists>q. k_pipes s p = Some q \<and> p_writers q \<noteq> 0)"
| "open_obj s (PtyM p) = (\<exists>q. k_ptys s p = Some q \<and> t_master_open q)"
| "open_obj s (PtyS p) = (\<exists>q. k_ptys s p = Some q \<and> t_slave_open q)"
| "open_obj s (SockO i) = (i < NSOCK \<and> so_used (sock (k_socks s) i))"
| "open_obj s Plain = False"

definition pipe_wf :: "pipe \<Rightarrow> bool" where
  "pipe_wf q \<longleftrightarrow> pipe_ok q \<and> p_readers q \<in> {0, 1} \<and> p_writers q \<in> {0, 1} \<and> \<not> (p_readers q = 0 \<and> p_writers q = 0)"

definition objs_ok :: "('v, 's) kstate \<Rightarrow> bool" where
  "objs_ok s \<longleftrightarrow> (\<forall>p q. k_pipes s p = Some q \<longrightarrow> pipe_wf q) \<and>
     (\<forall>p q. k_ptys s p = Some q \<longrightarrow> t_master_open q \<or> t_slave_open q) \<and> length (ss_socks (k_socks s)) = NSOCK"

subsection \<open>The invariant\<close>

definition refs :: "nat \<Rightarrow> sched \<Rightarrow> nat" where
  "refs f sc = (\<Sum>(T, z) \<in># profile sc. count_list T (Some f))"

definition tables_ok :: "sched \<Rightarrow> bool" where
  "tables_ok sc \<longleftrightarrow> sc_ring sc \<noteq> [] \<and> (\<forall>x \<in># profile sc. length (fst x) = 16 \<and> (snd x \<longrightarrow> fst x = replicate 16 None))"

definition kinv :: "(nat \<Rightarrow> int) \<Rightarrow> ('v, 's) kstate \<Rightarrow> bool" where
  "kinv P s \<longleftrightarrow> objs_ok s \<and> tables_ok (k_sched s) \<and>
     (\<forall>f. int (refs f (k_sched s)) + P f = (case k_files s f of None \<Rightarrow> 0 | Some h \<Rightarrow> f_ref h)) \<and>
     (\<forall>f h. k_files s f = Some h \<longrightarrow> f_ref h > 0 \<and> single h \<and> (obj h \<noteq> Plain \<longrightarrow> open_obj s (obj h))) \<and>
     (\<forall>x. open_obj s x \<longrightarrow> (\<exists>f h. k_files s f = Some h \<and> obj h = x)) \<and>
     (\<forall>f g h h'. k_files s f = Some h \<and> k_files s g = Some h' \<and> obj h = obj h' \<and> obj h \<noteq> Plain \<longrightarrow> f = g)"

text \<open>A pipe on which a sleeper is right to sleep.\<close>

definition stuck :: "pipe \<Rightarrow> bool" where
  "stuck q \<longleftrightarrow> (p_count q = 0 \<and> p_writers q > 0) \<or> (p_count q = PIPE_SIZE \<and> p_readers q > 0)"

definition wake_ok :: "('v, 's) kstate \<Rightarrow> bool" where
  "wake_ok s \<longleftrightarrow> (\<forall>p q. k_pipes s p = Some q \<longrightarrow> p < 2 ^ 64 \<and> chan p \<noteq> 0 \<and> (chan p \<in> waiters (k_sched s) \<longrightarrow> stuck q)) \<and>
     (\<forall>p p'. k_ptys s p \<noteq> None \<and> k_pipes s p' \<noteq> None \<longrightarrow> chan_in p \<noteq> chan p' \<and> chan_out p \<noteq> chan p')"

lemma chan_inj: "p < 2 ^ 64 \<Longrightarrow> p' < 2 ^ 64 \<Longrightarrow> chan p = chan p' \<longleftrightarrow> p = p'"
  by (simp add: chan_def word_unat_eq_iff unsigned_of_nat take_bit_eq_mod)

lemma kinvD:
  assumes "kinv P s"
  shows "objs_ok s" "tables_ok (k_sched s)"
    "\<And>f. int (refs f (k_sched s)) + P f = (case k_files s f of None \<Rightarrow> 0 | Some h \<Rightarrow> f_ref h)"
    "\<And>f h. k_files s f = Some h \<Longrightarrow> f_ref h > 0 \<and> single h \<and> (obj h \<noteq> Plain \<longrightarrow> open_obj s (obj h))"
    "\<And>x. open_obj s x \<Longrightarrow> \<exists>f h. k_files s f = Some h \<and> obj h = x"
    "\<And>f g h h'. k_files s f = Some h \<Longrightarrow> k_files s g = Some h' \<Longrightarrow> obj h = obj h' \<Longrightarrow> obj h \<noteq> Plain \<Longrightarrow> f = g"
  using assms unfolding kinv_def by blast+

lemma kinvI:
  assumes "objs_ok s" "tables_ok (k_sched s)"
    "\<And>f. int (refs f (k_sched s)) + P f = (case k_files s f of None \<Rightarrow> 0 | Some h \<Rightarrow> f_ref h)"
    "\<And>f h. k_files s f = Some h \<Longrightarrow> f_ref h > 0 \<and> single h \<and> (obj h \<noteq> Plain \<longrightarrow> open_obj s (obj h))"
    "\<And>x. open_obj s x \<Longrightarrow> \<exists>f h. k_files s f = Some h \<and> obj h = x"
    "\<And>f g h h'. k_files s f = Some h \<Longrightarrow> k_files s g = Some h' \<Longrightarrow> obj h = obj h' \<Longrightarrow> obj h \<noteq> Plain \<Longrightarrow> f = g"
  shows "kinv P s"
  using assms unfolding kinv_def by blast

lemma profile_same:
  "profile sc' = profile sc \<Longrightarrow> refs f sc' = refs f sc"
  "profile sc' = profile sc \<Longrightarrow> tables_ok sc' = tables_ok sc"
  using profile_ne [of sc' sc] by (simp_all add: refs_def tables_ok_def)

text \<open>Frame: the invariant looks at the files, what is open, and the profile.\<close>

lemma kinv_frame:
  assumes "kinv P s" "objs_ok s'" "\<And>x. open_obj s' x = open_obj s x" "k_files s' = k_files s"
    "profile (k_sched s') = profile (k_sched s)"
  shows "kinv P s'"
  using assms(1) unfolding kinv_def assms(3,4) profile_same [OF assms(5)] using assms(2) by blast

lemma kinv_quiet:
  assumes "kinv P s" "profile sc = profile (k_sched s)"
  shows "kinv P (s\<lparr>k_sched := sc\<rparr>)"
proof (rule kinv_frame [OF assms(1)])
  show "objs_ok (s\<lparr>k_sched := sc\<rparr>)" using kinvD(1) [OF assms(1)] by (simp add: objs_ok_def)
  show "open_obj (s\<lparr>k_sched := sc\<rparr>) x = open_obj s x" for x by (cases x) auto
qed (simp_all add: assms(2))

lemma kinv_ext: "kinv P s \<Longrightarrow> (\<And>f. P f = P' f) \<Longrightarrow> kinv P' s"
  by (metis ext)

subsection \<open>Closing\<close>

definition close_obj :: "close_env \<Rightarrow> 'v kfile \<Rightarrow> ('v, 's) kstate \<Rightarrow> ('v, 's) kstate option" where
  "close_obj E h s = do {
     s \<leftarrow> (case f_pipe h of None \<Rightarrow> Some s | Some p \<Rightarrow> kpipe_close (f_writable h) p s);
     s \<leftarrow> (case f_pty h of None \<Rightarrow> Some s | Some p \<Rightarrow> kpty_close (f_is_master h) p s);
     (case f_sock h of None \<Rightarrow> Some s | Some i \<Rightarrow> ksock_free E i s) }"

lemma vfs_close_obj:
  "vfs_close E f s = do {
     h \<leftarrow> k_files s f;
     if f_ref h - 1 > 0 then Some (put_file f (h\<lparr>f_ref := f_ref h - 1\<rparr>) s)
     else do { s \<leftarrow> close_obj E h s; Some (s\<lparr>k_files := (k_files s)(f := None)\<rparr>) } }"
  unfolding vfs_close_def close_obj_def bind_assoc ..

lemma socket_free_used:
  assumes "socket_free ip start tks i k = Some k'" "length (ss_socks k) = NSOCK" "i < NSOCK"
  shows "length (ss_socks k') = NSOCK" "j < NSOCK \<Longrightarrow> so_used (sock k' j) = (so_used (sock k j) \<and> j \<noteq> i)"
  using assms by (auto simp: socket_free_def Let_def set_sock_def sock_def nth_list_update split: option.splits if_splits)

text \<open>A step that keeps the files, only shrinks what is open by \<open>x\<close>, and wakes at most.\<close>

definition closes :: "kobj \<Rightarrow> ('v, 's) kstate \<Rightarrow> ('v, 's) kstate \<Rightarrow> bool" where
  "closes x s s' \<longleftrightarrow> objs_ok s' \<and> (\<forall>y. open_obj s' y = (open_obj s y \<and> y \<noteq> x)) \<and> k_files s' = k_files s \<and>
     steady (k_sched s) (k_sched s') \<and> (wake_ok s \<longrightarrow> wake_ok s')"

lemma pipe_close_wf:
  assumes "pipe_wf q" "(if wr then p_writers q else p_readers q) \<noteq> 0"
  shows "pipe_close wr q = Some q' \<Longrightarrow> pipe_wf q'"
  using assms by (auto simp: pipe_close_def pipe_wf_def pipe_ok_def Let_def split: if_splits)

lemma wake_frame:
  assumes "wake_ok s" "waiters (k_sched s') \<subseteq> waiters (k_sched s)"
    "\<And>p q. k_pipes s' p = Some q \<Longrightarrow> k_pipes s p = Some q \<or> k_pipes s p \<noteq> None \<and> chan p \<notin> waiters (k_sched s')"
    "\<And>p. k_ptys s' p \<noteq> None \<Longrightarrow> k_ptys s p \<noteq> None"
  shows "wake_ok s'"
proof -
  note w = assms(1) [unfolded wake_ok_def]
  have "p < 2 ^ 64 \<and> chan p \<noteq> 0 \<and> (chan p \<in> waiters (k_sched s') \<longrightarrow> stuck q)" if "k_pipes s' p = Some q" for p q
    using assms(3) [OF that] w assms(2) by blast
  moreover have "k_pipes s' p' \<noteq> None \<Longrightarrow> k_pipes s p' \<noteq> None" for p' using assms(3) by fastforce
  ultimately show ?thesis using w assms(4) unfolding wake_ok_def by blast
qed

lemma kpipe_close_closes:
  assumes "objs_ok s" "kpipe_close wr p s = Some s'" "open_obj s (if wr then PipeW p else PipeR p)"
  shows "closes (if wr then PipeW p else PipeR p) s s'"
proof -
  from assms(2) obtain q where q: "k_pipes s p = Some q"
    and s': "s' = s\<lparr>k_pipes := (k_pipes s)(p := pipe_close wr q), k_sched := sched_wake (chan p) (k_sched s)\<rparr>"
    by (auto simp: kpipe_close_def bind_eq_Some_conv)
  have wf: "pipe_wf q" using assms(1) q by (auto simp: objs_ok_def)
  have "(if wr then p_writers q else p_readers q) \<noteq> 0" using assms(3) q by (auto split: if_splits)
  then have "objs_ok s'" using assms(1) pipe_close_wf [OF wf, of wr] by (auto simp: objs_ok_def s')
  moreover have "open_obj s' y = (open_obj s y \<and> y \<noteq> (if wr then PipeW p else PipeR p))" for y
    using wf assms(3) q by (cases y; cases wr) (auto simp: s' pipe_close_def pipe_wf_def Let_def)
  moreover have "wake_ok s \<Longrightarrow> wake_ok s'"
    by (rule wake_frame [of s]) (auto simp: s' view_wake q split: if_splits)
  ultimately show ?thesis by (auto simp: closes_def s' steady_wake)
qed

lemma kpty_close_closes:
  assumes "objs_ok s" "kpty_close m p s = Some s'" "open_obj s (if m then PtyM p else PtyS p)"
  shows "closes (if m then PtyM p else PtyS p) s s'"
proof -
  from assms(2) obtain q where q: "k_ptys s p = Some q"
    and s': "s' = s\<lparr>k_ptys := (k_ptys s)(p := fst (pty_close m q)), k_sched := pty_events p (snd (pty_close m q)) (k_sched s)\<rparr>"
    by (auto simp: kpty_close_def bind_eq_Some_conv)
  have qu: "steady (k_sched s) (k_sched s')" by (simp add: s' steady_pty_events)
  have wf: "t_master_open q \<or> t_slave_open q" using assms(1) q by (auto simp: objs_ok_def)
  have "objs_ok s'" using assms(1) wf by (auto simp: objs_ok_def s' pty_close_def split: if_splits)
  moreover have "open_obj s' y = (open_obj s y \<and> y \<noteq> (if m then PtyM p else PtyS p))" for y
    using wf assms(3) q by (cases y; cases m) (auto simp: s' pty_close_def)
  moreover have "wake_ok s \<Longrightarrow> wake_ok s'"
    using steady_quiet [OF qu] by (elim wake_frame) (auto simp: quiet_def s' q split: if_splits)
  ultimately show ?thesis using qu by (auto simp: closes_def s')
qed

lemma ksock_free_closes:
  assumes "objs_ok s" "ksock_free E i s = Some s'" "open_obj s (SockO i)"
  shows "closes (SockO i) s s'"
proof -
  from assms(2) obtain k ip start tks where k: "socket_free ip start tks i (k_socks s) = Some k" "s' = s\<lparr>k_socks := k\<rparr>"
    by (auto simp: ksock_free_def split: prod.splits)
  have i: "i < NSOCK" "length (ss_socks (k_socks s)) = NSOCK" using assms(1,3) by (auto simp: objs_ok_def)
  note u = socket_free_used [OF k(1) i(2,1)]
  have "open_obj s' y = (open_obj s y \<and> y \<noteq> SockO i)" for y
    using u by (cases y) (auto simp: k(2))
  moreover have "wake_ok s \<Longrightarrow> wake_ok s'" by (simp add: wake_ok_def k(2))
  ultimately show ?thesis using assms(1) u(1) by (auto simp: closes_def objs_ok_def k(2))
qed

lemma close_obj_closes:
  assumes "objs_ok s" "close_obj E h s = Some s'" "single h" "obj h \<noteq> Plain \<longrightarrow> open_obj s (obj h)"
  shows "closes (obj h) s s'"
proof -
  have plain: "closes Plain s s" using assms(1)
    by (auto simp: closes_def)
  show ?thesis
  proof (cases "f_pipe h")
    case (Some p)
    with assms show ?thesis
      by (auto simp: close_obj_def single_def obj_def split: bind_splits if_splits dest: kpipe_close_closes)
  next
    case None
    note n = None
    show ?thesis
    proof (cases "f_pty h")
      case (Some p)
      with n assms show ?thesis
        by (auto simp: close_obj_def single_def obj_def split: bind_splits if_splits dest: kpty_close_closes)
    next
      case None
      show ?thesis
      proof (cases "f_sock h")
        case (Some i)
        with n None assms show ?thesis by (auto simp: close_obj_def obj_def dest: ksock_free_closes)
      qed (use n None assms plain in \<open>simp add: close_obj_def obj_def\<close>)
    qed
  qed
qed

lemma put_file_simps [simp]:
  "k_files (put_file f h s) = (k_files s)(f \<mapsto> h)" "k_pipes (put_file f h s) = k_pipes s"
  "k_ptys (put_file f h s) = k_ptys s" "k_socks (put_file f h s) = k_socks s" "k_fs (put_file f h s) = k_fs s"
  "k_sched (put_file f h s) = k_sched s" "k_uart (put_file f h s) = k_uart s"
  "objs_ok (put_file f h s) = objs_ok s" "wake_ok (put_file f h s) = wake_ok s"
  by (simp_all add: put_file_def objs_ok_def wake_ok_def)

lemma open_put_file [simp]: "open_obj (put_file f h s) x = open_obj s x" by (cases x) auto

lemma obj_upd [simp]:
  "obj (h\<lparr>f_ref := r\<rparr>) = obj h" "obj (h\<lparr>f_off := off\<rparr>) = obj h"
  by (simp_all add: obj_def split: option.split)

lemma single_upd [simp]:
  "single (h\<lparr>f_ref := r\<rparr>) = single h" "single (h\<lparr>f_off := off\<rparr>) = single h"
  by (simp_all add: single_def)

text \<open>A change of the reference count alone.\<close>

lemma kinv_ref:
  assumes "kinv P s" "k_files s f = Some h" "f_ref h + d > 0"
  shows "kinv (P(f := P f + d)) (put_file f (h\<lparr>f_ref := f_ref h + d\<rparr>) s)"
proof (rule kinvI)
  note k = kinvD [OF assms(1)]
  show "objs_ok (put_file f (h\<lparr>f_ref := f_ref h + d\<rparr>) s)" "tables_ok (k_sched (put_file f (h\<lparr>f_ref := f_ref h + d\<rparr>) s))"
    using k(1,2) by simp_all
  show "int (refs g (k_sched (put_file f (h\<lparr>f_ref := f_ref h + d\<rparr>) s))) + (P(f := P f + d)) g =
      (case k_files (put_file f (h\<lparr>f_ref := f_ref h + d\<rparr>) s) g of None \<Rightarrow> 0 | Some h \<Rightarrow> f_ref h)" for g
    using k(3) [of g] k(3) [of f] assms(2) by (cases "g = f") simp_all
  show "f_ref h' > 0 \<and> single h' \<and> (obj h' \<noteq> Plain \<longrightarrow> open_obj (put_file f (h\<lparr>f_ref := f_ref h + d\<rparr>) s) (obj h'))"
    if "k_files (put_file f (h\<lparr>f_ref := f_ref h + d\<rparr>) s) g = Some h'" for g h'
    using that k(4) assms(2,3) by (auto split: if_splits)
  show "\<exists>g h'. k_files (put_file f (h\<lparr>f_ref := f_ref h + d\<rparr>) s) g = Some h' \<and> obj h' = x"
    if "open_obj (put_file f (h\<lparr>f_ref := f_ref h + d\<rparr>) s) x" for x
  proof -
    from that have "open_obj s x" by simp
    from k(5) [OF this] obtain g h' where "k_files s g = Some h'" "obj h' = x" by blast
    then show ?thesis using assms(2) by (cases "g = f") (auto intro: exI [of _ g])
  qed
  show "a = b" if "k_files (put_file f (h\<lparr>f_ref := f_ref h + d\<rparr>) s) a = Some h1"
    "k_files (put_file f (h\<lparr>f_ref := f_ref h + d\<rparr>) s) b = Some h2" "obj h1 = obj h2" "obj h1 \<noteq> Plain" for a b h1 h2
    using that k(6) assms(2) by (auto split: if_splits)
qed

lemma vfs_close_inv:
  assumes "kinv P s" "vfs_close E f s = Some s'"
  shows "kinv (P(f := P f - 1)) s'" "wake_ok s \<Longrightarrow> wake_ok s'" "steady (k_sched s) (k_sched s')"
proof -
  note k = kinvD [OF assms(1)]
  from assms(2) obtain h where h: "k_files s f = Some h" by (auto simp: vfs_close_def bind_eq_Some_conv)
  have "kinv (P(f := P f - 1)) s' \<and> (wake_ok s \<longrightarrow> wake_ok s') \<and> steady (k_sched s) (k_sched s')"
  proof (cases "f_ref h - 1 > 0")
    case True
    then show ?thesis using assms(2) kinv_ref [OF assms(1) h, of "-1"] by (auto simp: vfs_close_def h)
  next
    case False
    with assms(2) h obtain s1 where s1: "close_obj E h s = Some s1" "s' = s1\<lparr>k_files := (k_files s1)(f := None)\<rparr>"
      by (auto simp: vfs_close_obj bind_eq_Some_conv)
    have r: "f_ref h = 1" "single h" "obj h \<noteq> Plain \<longrightarrow> open_obj s (obj h)" using k(4) [OF h] False by auto
    note c = close_obj_closes [OF k(1) s1(1) r(2,3), unfolded closes_def]
    have "open_obj s' x = open_obj s1 x" for x by (cases x) (auto simp: s1(2))
    then have op: "open_obj s' x = (open_obj s x \<and> x \<noteq> obj h)" for x using c by blast
    have fl: "k_files s' = (k_files s)(f := None)" using c s1(2) by simp
    have pr: "profile (k_sched s') = profile (k_sched s)" using c s1(2) by (simp add: quiet_def steady_def)
    have "kinv (P(f := P f - 1)) s'"
    proof (rule kinvI)
      show "objs_ok s'" using c by (simp add: s1(2) objs_ok_def)
      show "tables_ok (k_sched s')" using k(2) by (simp add: profile_same(2) [OF pr])
      show "int (refs g (k_sched s')) + (P(f := P f - 1)) g = (case k_files s' g of None \<Rightarrow> 0 | Some h \<Rightarrow> f_ref h)" for g
        using k(3) [of g] h r(1) by (auto simp: profile_same(1) [OF pr] fl)
      show "f_ref h' > 0 \<and> single h' \<and> (obj h' \<noteq> Plain \<longrightarrow> open_obj s' (obj h'))" if "k_files s' g = Some h'" for g h'
        using that k(4) [of g h'] k(6) [OF _ h, of g h'] by (auto simp: fl op split: if_splits)
      show "\<exists>g h'. k_files s' g = Some h' \<and> obj h' = x" if x: "open_obj s' x" for x
      proof -
        from x have "open_obj s x" by (simp add: op)
        from k(5) [OF this] obtain g h' where "k_files s g = Some h'" "obj h' = x" by blast
        moreover have "g \<noteq> f" using calculation x h by (auto simp: op)
        ultimately show ?thesis by (auto simp: fl intro!: exI [of _ g])
      qed
      show "a = b" if "k_files s' a = Some h1" "k_files s' b = Some h2" "obj h1 = obj h2" "obj h1 \<noteq> Plain" for a b h1 h2
        using that k(6) by (auto simp: fl split: if_splits)
    qed
    moreover have "wake_ok s' = wake_ok s1" by (simp add: s1(2) wake_ok_def)
    moreover have "k_sched s' = k_sched s1" by (simp add: s1(2))
    ultimately show ?thesis using c by metis
  qed
  then show "kinv (P(f := P f - 1)) s'" "wake_ok s \<Longrightarrow> wake_ok s'" "steady (k_sched s) (k_sched s')" by iprover+
qed

subsection \<open>References in hand\<close>

text \<open>\<open>inc f d P\<close>: the call holds \<open>d\<close> more references to \<open>f\<close>.\<close>

definition inc :: "nat option \<Rightarrow> int \<Rightarrow> (nat \<Rightarrow> int) \<Rightarrow> nat \<Rightarrow> int" where
  "inc v d P = (\<lambda>f. if v = Some f then P f + d else P f)"

lemma inc_None [simp]: "inc None d P = P" by (simp add: inc_def)

lemma inc_cancel [simp]: "inc v d (inc v e P) = inc v (d + e) P" "inc v 0 P = P"
  by (auto simp: inc_def)

lemma inc_swap: "inc v d (inc w e P) = inc w e (inc v d P)"
  by (auto simp: inc_def)

lemma inc_Some: "inc (Some f) d P = P(f := P f + d)" by (auto simp: inc_def)

definition held :: "('v, 's) kstate \<Rightarrow> (nat \<Rightarrow> int) \<Rightarrow> bool" where
  "held s P \<longleftrightarrow> kinv P s \<and> wake_ok s \<and> running (k_sched s)"

lemma count_list_update:
  "i < length xs \<Longrightarrow> count_list (xs[i := v]) x + (if xs ! i = x then 1 else 0) = count_list xs x + (if v = x then 1 else 0)"
proof (induction xs arbitrary: i)
  case (Cons y ys)
  then show ?case
  proof (cases i)
    case (Suc j)
    with Cons have "count_list (ys[j := v]) x + (if ys ! j = x then 1 else 0) = count_list ys x + (if v = x then 1 else 0)" by simp
    with Suc show ?thesis by (simp split: if_splits)
  qed simp
qed simp

lemma held_set_fd:
  assumes "held s P" "i < 16"
  shows "held (set_fd i v s) (inc (fds s ! i) 1 (inc v (-1) P))" "fds (set_fd i v s) = (fds s)[i := v]"
proof -
  have k: "kinv P s" "wake_ok s" "running (k_sched s)" using assms(1) by (simp_all add: held_def)
  obtain t ts where r: "sc_ring (k_sched s) = t # ts" using runningD [OF k(3)] by (cases "sc_ring (k_sched s)") auto
  have st: "t_state t = THREAD_RUNNING" "t_wait_chan t = 0" using runningD [OF k(3)] r by (auto simp: current_def)
  let ?t = "t\<lparr>t_fds := (t_fds t)[i := v]\<rparr>" and ?s = "set_fd i v s"
  have r': "sc_ring (k_sched ?s) = ?t # ts" by (simp add: set_fd_def upd_current_def r)
  have fd: "fds s = t_fds t" by (simp add: fds_def current_def r)
  show fd': "fds ?s = (fds s)[i := v]" by (simp add: fds_def current_def r' r)
  define M where "M = image_mset (\<lambda>t. (t_fds t, t_state t = THREAD_ZOMBIE)) (mset ts)"
  have p: "profile (k_sched s) = add_mset (t_fds t, False) M" "profile (k_sched ?s) = add_mset ((t_fds t)[i := v], False) M"
    using st by (simp_all add: profile_def r r' M_def)
  have len: "length (t_fds t) = 16" using kinvD(2) [OF k(1)] p by (auto simp: tables_ok_def)
  have eqs: "k_files ?s = k_files s" "k_pipes ?s = k_pipes s" "k_ptys ?s = k_ptys s" "k_socks ?s = k_socks s"
    by (simp_all add: set_fd_def)
  have op: "open_obj ?s x = open_obj s x" for x by (cases x) (simp_all add: eqs)
  have "kinv (inc (fds s ! i) 1 (inc v (-1) P)) ?s"
  proof (rule kinvI)
    show "objs_ok ?s" using kinvD(1) [OF k(1)] by (simp add: objs_ok_def eqs)
    show "tables_ok (k_sched ?s)" using kinvD(2) [OF k(1)] p len by (auto simp: tables_ok_def r')
    show "int (refs f (k_sched ?s)) + inc (fds s ! i) 1 (inc v (-1) P) f = (case k_files ?s f of None \<Rightarrow> 0 | Some h \<Rightarrow> f_ref h)" for f
      using kinvD(3) [OF k(1), of f] count_list_update [of i "t_fds t" v "Some f"] assms(2) len
      unfolding eqs by (auto simp: refs_def p inc_def fd)
    show "f_ref h > 0 \<and> single h \<and> (obj h \<noteq> Plain \<longrightarrow> open_obj ?s (obj h))" if "k_files ?s f = Some h" for f h
      using that kinvD(4) [OF k(1)] unfolding op eqs by blast
    show "\<exists>f h. k_files ?s f = Some h \<and> obj h = x" if "open_obj ?s x" for x
      using that kinvD(5) [OF k(1)] unfolding op eqs by blast
    show "f = g" if "k_files ?s f = Some h" "k_files ?s g = Some h'" "obj h = obj h'" "obj h \<noteq> Plain" for f g h h'
      using that kinvD(6) [OF k(1)] unfolding eqs by blast
  qed
  moreover have "waiters (k_sched ?s) = waiters (k_sched s)" using st by (auto simp: waiters_def r r' asleep_def)
  then have "wake_ok ?s" using k(2) by (simp add: wake_ok_def eqs)
  moreover have "sched_ok (k_sched ?s)"
    using k(3) sched_ok_upd [of "k_sched s" "\<lambda>t. t\<lparr>t_fds := (t_fds t)[i := v]\<rparr>"] by (simp add: running_def set_fd_def calm_def)
  then have "running (k_sched ?s)" using st by (simp add: running_def current_def r')
  ultimately show "held ?s (inc (fds s ! i) 1 (inc v (-1) P))" by (simp add: held_def)
qed

lemma held_fds: "held s P \<Longrightarrow> length (fds s) = 16"
proof -
  assume h: "held s P"
  then obtain t ts where "sc_ring (k_sched s) = t # ts" by (cases "sc_ring (k_sched s)") (auto simp: held_def dest: runningD)
  with h show ?thesis by (auto simp: held_def fds_def current_def tables_ok_def profile_def dest!: kinvD(2))
qed

lemma refs_fd:
  assumes "held s P" "i < 16" "fds s ! i = Some f"
  shows "refs f (k_sched s) > 0"
proof -
  obtain t ts where r: "sc_ring (k_sched s) = t # ts" using assms(1) by (cases "sc_ring (k_sched s)") (auto simp: held_def dest: runningD)
  have "Some f \<in> set (t_fds t)" using assms held_fds [OF assms(1)] by (auto simp: fds_def current_def r in_set_conv_nth)
  then have "count_list (t_fds t) (Some f) > 0" by (metis count_list_0_iff neq0_conv)
  then show ?thesis by (simp add: refs_def profile_def r)
qed

text \<open>A descriptor of the running process has its file.\<close>

lemma fd_live:
  assumes "held s P" "i < 16" "fds s ! i = Some f" "P f \<ge> 0"
  shows "\<exists>h. k_files s f = Some h \<and> f_ref h > P f"
proof -
  have "int (refs f (k_sched s)) + P f > P f" using refs_fd [OF assms(1-3)] by simp
  with kinvD(3) [of P s f] assms(1,4) show ?thesis by (auto simp: held_def split: option.splits)
qed

lemma held_close:
  assumes "held s P" "vfs_close E f s = Some s'"
  shows "held s' (inc (Some f) (-1) P)" "fds s' = fds s" "t_id (current (k_sched s')) = t_id (current (k_sched s))"
  using assms vfs_close_inv [of P s E f s'] by (auto simp: held_def steady_def inc_Some fds_def)

lemma held_dup:
  assumes "held s P" "k_files s f = Some h"
  shows "\<exists>s'. file_dup f s = Some s' \<and> held s' (inc (Some f) 1 P) \<and> fds s' = fds s"
proof -
  have k: "kinv P s" "f_ref h + 1 > 0" using assms kinvD(4) [of P s f h] by (auto simp: held_def)
  show ?thesis using kinv_ref [OF k(1) assms(2) k(2)] assms by (simp add: file_dup_def held_def inc_Some fds_def)
qed

lemma fds_put [simp]: "fds (put_file f h s) = fds s" by (simp add: fds_def)

text \<open>A new handle at a free address, for an object that just became open.\<close>

lemma held_new:
  assumes "held s P" "k_files s a = None" "f_ref h = 1" "single h"
    and s': "objs_ok s'" "wake_ok s'" "k_sched s' = k_sched s" "k_files s' = (k_files s)(a \<mapsto> h)"
    and op: "\<And>x. open_obj s' x = (open_obj s x \<or> x = obj h \<and> x \<noteq> Plain)" and fresh: "\<not> open_obj s (obj h)"
  shows "held s' (inc (Some a) 1 P)" "fds s' = fds s"
proof -
  have k: "kinv P s" using assms(1) by (simp add: held_def)
  have "kinv (inc (Some a) 1 P) s'"
  proof (rule kinvI)
    show "tables_ok (k_sched s')" using kinvD(2) [OF k] by (simp add: s')
    show "int (refs f (k_sched s')) + inc (Some a) 1 P f = (case k_files s' f of None \<Rightarrow> 0 | Some h \<Rightarrow> f_ref h)" for f
      using kinvD(3) [OF k, of f] assms(2,3) by (auto simp: s' inc_def)
    show "f_ref h' > 0 \<and> single h' \<and> (obj h' \<noteq> Plain \<longrightarrow> open_obj s' (obj h'))" if "k_files s' f = Some h'" for f h'
      using that kinvD(4) [OF k] assms(3,4) by (auto simp: s' op split: if_splits)
    show "\<exists>f h'. k_files s' f = Some h' \<and> obj h' = x" if "open_obj s' x" for x
    proof (cases "open_obj s x")
      case True
      from kinvD(5) [OF k this] obtain f h' where f: "k_files s f = Some h'" "obj h' = x" by blast
      then have "f \<noteq> a" using assms(2) by auto
      with f show ?thesis by (auto simp: s' intro!: exI [of _ f])
    qed (use that in \<open>auto simp: op s'\<close>)
    show "f = g" if "k_files s' f = Some h1" "k_files s' g = Some h2" "obj h1 = obj h2" "obj h1 \<noteq> Plain" for f g h1 h2
    proof -
      have no: "obj h2 \<noteq> obj h" if "k_files s g = Some h2" "obj h2 \<noteq> Plain" for g h2
        using kinvD(4) [OF k that(1)] that(2) fresh by metis
      show ?thesis
      proof (cases "f = a \<or> g = a")
        case True
        with that no [of f h1] no [of g h2] show ?thesis by (auto simp: s' split: if_splits)
      next
        case False
        with that kinvD(6) [OF k, of f h1 g h2] show ?thesis by (simp add: s')
      qed
    qed
  qed (rule s')
  then show "held s' (inc (Some a) 1 P)" "fds s' = fds s" using assms(1) s' by (simp_all add: held_def fds_def)
qed

end
