(* ===== verification/Files_Calls.thy ===== *)
theory Files_Calls
  imports Files_Inv
begin

text \<open>
  Every call on files keeps the invariant of open files: a call that does not sleep keeps \<open>held\<close> (the
  caller still runs), one that may sleep gives \<open>kok\<close>, what holds between system calls.
\<close>

subsection \<open>Every call keeps the invariant\<close>

lemma held_eq: "held s P \<Longrightarrow> P = Q \<Longrightarrow> held s Q" by simp

lemma inc_pointwise: "(inc v d P = Q) = (\<forall>f. inc v d P f = Q f)" by (simp add: fun_eq_iff)

lemma free_fdD: "free_fd lo s = Some i \<Longrightarrow> lo \<le> i \<and> i < 16 \<and> fds s ! i = None"
  by (auto simp: free_fd_def find_Some_iff)

lemma fd_fileD: "fd_file i s = Some f \<Longrightarrow> i < 16 \<and> fds s ! i = Some f"
  by (simp add: fd_file_def split: if_splits)

lemma held_sys_close:
  assumes "held s P" "sys_close E fd s = Some (r, s')"
  shows "held s' P"
proof (cases "fd_file fd s")
  case (Some f)
  note fd = fd_fileD [OF Some]
  from assms(2) Some obtain s1 where s1: "vfs_close E f s = Some s1" "s' = set_fd fd None s1"
    by (auto simp: sys_close_def bind_eq_Some_conv)
  note c = held_close [OF assms(1) s1(1)]
  have "held s' (inc (fds s1 ! fd) 1 (inc None (-1) (inc (Some f) (-1) P)))"
    unfolding s1(2) using held_set_fd(1) [OF c(1)] fd by blast
  then show ?thesis by (simp add: c(2) fd)
qed (use assms in \<open>simp add: sys_close_def\<close>)

text \<open>Addresses \<open>kmalloc\<close> may return for a file.\<close>

definition fresh_file :: "nat \<Rightarrow> ('v, 's) kstate \<Rightarrow> bool" where "fresh_file a s \<longleftrightarrow> k_files s a = None"

lemma single_Plain [simp]:
  "obj (new_file (Some vn) None None None m w) = Plain" "single (new_file (Some vn) None None None m w)"
  "f_ref (new_file vn' pi so pt m w) = 1"
  by (simp_all add: obj_def new_file_def single_def)

lemma held_plain:
  assumes "held s P" "fresh_file a s"
  shows "held (put_file a (new_file (Some vn) None None None m w) s) (inc (Some a) 1 P)"
  by (rule held_new(1) [OF assms(1) assms(2) [unfolded fresh_file_def], where h = "new_file (Some vn) None None None m w"])
    (use assms in \<open>auto simp: held_def kinv_def\<close>)

lemma held_dup_fd:
  assumes "held s (\<lambda>_. 0)" "fresh_file a s" "from < 16" "dup_fd_handle con a from s = Some (d, s')"
  shows "held s' (inc d 1 (\<lambda>_. 0)) \<and> fds s' = fds s"
proof (cases "fds s ! from")
  case (Some f)
  from fd_live [OF assms(1,3) Some] obtain h where "k_files s f = Some h" by auto
  from held_dup [OF assms(1) this] Some assms(4) show ?thesis by (auto simp: dup_fd_handle_def)
next
  case None
  with assms held_plain [OF assms(1,2)] show ?thesis
    by (auto simp: dup_fd_handle_def console_file_new_def split: if_splits)
qed

lemma held_dup_onto:
  assumes "held s (\<lambda>_. 0)" "fresh_file a s" "old < 16" "new < 16" "dup_onto E con a bad old new s = Some (r, s')"
  shows "held s' (\<lambda>_. 0)"
proof -
  from assms(5) obtain d s1 where d: "dup_fd_handle con a old s = Some (d, s1)" by (auto simp: dup_onto_def bind_eq_Some_conv)
  note h1 = held_dup_fd [OF assms(1-3) d]
  show ?thesis
  proof (cases d)
    case (Some f)
    with assms(5) d obtain s2 where
      s2: "(case fds s1 ! new of None \<Rightarrow> Some s1 | Some g \<Rightarrow> vfs_close E g s1) = Some s2" "s' = set_fd new (Some f) s2"
      by (auto simp: dup_onto_def bind_eq_Some_conv)
    have h2: "held s2 (inc (fds s1 ! new) (-1) (inc d 1 (\<lambda>_. 0))) \<and> fds s2 = fds s1"
    proof (cases "fds s1 ! new")
      case (Some g)
      then show ?thesis using held_close [OF h1 [THEN conjunct1]] s2(1) by simp
    qed (use h1 s2 in simp)
    have "held s' (inc (fds s2 ! new) 1 (inc (Some f) (-1) (inc (fds s1 ! new) (-1) (inc d 1 (\<lambda>_. 0)))))"
      unfolding s2(2) using held_set_fd(1) h2 assms(4) by blast
    then show ?thesis by (rule held_eq) (use h2 Some in \<open>auto simp: inc_def fun_eq_iff\<close>)
  qed (use h1 d assms(5) in \<open>simp add: dup_onto_def\<close>)
qed

lemma held_dup2:
  "held s (\<lambda>_. 0) \<Longrightarrow> fresh_file a s \<Longrightarrow> sys_dup2 E con a old new s = Some (r, s') \<Longrightarrow> held s' (\<lambda>_. 0)"
  "held s (\<lambda>_. 0) \<Longrightarrow> fresh_file a s \<Longrightarrow> sys_dup3 E con a old new s = Some (r, s') \<Longrightarrow> held s' (\<lambda>_. 0)"
  by (auto simp: sys_dup2_def sys_dup3_def split: if_splits dest: held_dup_onto [rotated -1])

lemma held_dupfd:
  assumes "held s (\<lambda>_. 0)" "fresh_file a s" "fcntl_dupfd con a fd mn s = Some (r, s')"
  shows "held s' (\<lambda>_. 0)"
proof (cases "fd \<ge> 16 \<or> free_fd (nat mn) s = None")
  case True
  with assms show ?thesis by (auto simp: fcntl_dupfd_def split: if_splits)
next
  case False
  then obtain i where i: "free_fd (nat mn) s = Some i" "fd < 16" by auto
  with assms(3) obtain d s1 where d1: "dup_fd_handle con a fd s = Some (d, s1)"
    by (auto simp: fcntl_dupfd_def bind_eq_Some_conv)
  with assms(3) i have "s' = (case d of None \<Rightarrow> s1 | Some f \<Rightarrow> set_fd i (Some f) s1)"
    by (auto simp: fcntl_dupfd_def split: option.splits)
  note d = d1 this
  note h1 = held_dup_fd [OF assms(1,2) i(2) d(1)]
  show ?thesis
  proof (cases d)
    case (Some f)
    have "held s' (inc (fds s1 ! i) 1 (inc (Some f) (-1) (inc d 1 (\<lambda>_. 0))))"
      unfolding d(2) Some option.case
      by (rule held_set_fd(1)) (use h1 free_fdD [OF i(1)] Some in auto)
    then show ?thesis by (rule held_eq) (use h1 free_fdD [OF i(1)] Some in \<open>auto simp: inc_def\<close>)
  qed (use h1 d in simp)
qed

lemma held_install2:
  assumes "held s (inc (Some a) 1 (inc (Some b) 1 (\<lambda>_. 0)))" "install2 E a b s = Some (r, s')"
  shows "held s' (\<lambda>_. 0)"
proof -
  have undo: "held s2 (\<lambda>_. 0)" if "held s0 (inc (Some a) 1 (inc (Some b) 1 (\<lambda>_. 0)))" "vfs_close E a s0 = Some s1" "vfs_close E b s1 = Some s2" for s0 s1 s2
  proof -
    note h = held_close(1) [OF held_close(1) [OF that(1,2)] that(3)]
    then show ?thesis by (rule held_eq) (auto simp: inc_def fun_eq_iff)
  qed
  show ?thesis
  proof (cases "free_fd 3 s")
    case None
    with assms(2) undo [OF assms(1)] show ?thesis by (auto simp: install2_def bind_eq_Some_conv)
  next
    case (Some i)
    let ?s = "set_fd i (Some a) s"
    have h1: "held ?s (inc (Some b) 1 (\<lambda>_. 0))" "fds ?s = (fds s)[i := Some a]"
    proof -
      show "fds ?s = (fds s)[i := Some a]" using held_set_fd(2) [OF assms(1)] free_fdD [OF Some] by blast
      have "held ?s (inc (fds s ! i) 1 (inc (Some a) (-1) (inc (Some a) 1 (inc (Some b) 1 (\<lambda>_. 0)))))"
        using held_set_fd(1) [OF assms(1)] free_fdD [OF Some] by blast
      then show "held ?s (inc (Some b) 1 (\<lambda>_. 0))" by (rule held_eq) (use free_fdD [OF Some] in auto)
    qed
    show ?thesis
    proof (cases "free_fd 3 ?s")
      case (Some j)
      have "held (set_fd j (Some b) ?s) (inc (fds ?s ! j) 1 (inc (Some b) (-1) (inc (Some b) 1 (\<lambda>_. 0))))"
        using held_set_fd(1) [OF h1(1)] free_fdD [OF Some] by blast
      then have "held (set_fd j (Some b) ?s) (\<lambda>_. 0)" by (rule held_eq) (use free_fdD [OF Some] in auto)
      with assms(2) \<open>free_fd 3 s = Some i\<close> Some show ?thesis by (auto simp: install2_def Let_def)
    next
      case None
      have i: "i < 16" using free_fdD [OF \<open>free_fd 3 s = Some i\<close>] by simp
      then have "fds ?s ! i = Some a" using h1(2) held_fds [OF assms(1)] by simp
      then have "held (set_fd i None ?s) (inc (Some a) 1 (inc (Some b) 1 (\<lambda>_. 0)))"
        using held_set_fd(1) [OF h1(1) i, of None] by simp
      from undo [OF this] assms(2) \<open>free_fd 3 s = Some i\<close> None show ?thesis
        by (auto simp: install2_def Let_def bind_eq_Some_conv)
    qed
  qed
qed

text \<open>Addresses \<open>kmalloc\<close> may return for a pipe and for a pty: free, and no wait channel of the other kind.\<close>

definition fresh_pipe :: "nat \<Rightarrow> ('v, 's) kstate \<Rightarrow> bool" where
  "fresh_pipe p s \<longleftrightarrow> k_pipes s p = None \<and> p < 2 ^ 64 \<and> chan p \<noteq> 0 \<and>
     (\<forall>t. k_ptys s t \<noteq> None \<longrightarrow> chan_in t \<noteq> chan p \<and> chan_out t \<noteq> chan p)"

definition fresh_pty :: "nat \<Rightarrow> ('v, 's) kstate \<Rightarrow> bool" where
  "fresh_pty t s \<longleftrightarrow> k_ptys s t = None \<and> (\<forall>p. k_pipes s p \<noteq> None \<longrightarrow> chan_in t \<noteq> chan p \<and> chan_out t \<noteq> chan p)"

lemma pipe_alloc_wf: "length raw = PIPE_SIZE \<Longrightarrow> pipe_wf (pipe_alloc raw) \<and> pipe_wf ((pipe_alloc raw)\<lparr>p_readers := 0\<rparr>)"
  by (simp add: pipe_wf_def pipe_ok_def pipe_alloc_def)

lemma held_pipe_make:
  assumes "held s (\<lambda>_. 0)" "fresh_pipe p s" "fresh_file a s" "fresh_file b s" "a \<noteq> b" "length raw = PIPE_SIZE"
    and "pipe_make E p raw a b s = Some (r, s')"
  shows "held s' (\<lambda>_. 0)"
proof -
  let ?q = "pipe_alloc raw"
  let ?ha = "new_file None (Some p) None None False False" and ?hb = "new_file None (Some p) None None False True"
  let ?s1 = "put_file b ?hb (s\<lparr>k_pipes := (k_pipes s)(p \<mapsto> ?q\<lparr>p_readers := 0\<rparr>)\<rparr>)"
  let ?s2 = "put_file b ?hb (put_file a ?ha (s\<lparr>k_pipes := (k_pipes s)(p \<mapsto> ?q)\<rparr>))"
  have p: "k_pipes s p = None" "p < 2 ^ 64" "chan p \<noteq> 0" using assms(2) by (simp_all add: fresh_pipe_def)
  have s: "objs_ok s" "wake_ok s" using assms(1) by (auto simp: held_def kinv_def)
  note wf = pipe_alloc_wf [OF assms(6)]
  have o: "obj ?ha = PipeR p" "obj ?hb = PipeW p" "single ?ha" "single ?hb"
    by (simp_all add: obj_def new_file_def single_def)
  have "held ?s1 (inc (Some b) 1 (\<lambda>_. 0))"
  proof (rule held_new(1) [OF assms(1), where h = ?hb])
    show "objs_ok ?s1" using s(1) wf by (simp add: objs_ok_def)
    show "wake_ok ?s1" using s(2) assms(2) by (auto simp: wake_ok_def fresh_pipe_def stuck_def pipe_alloc_def)
    show "open_obj ?s1 x = (open_obj s x \<or> x = obj ?hb \<and> x \<noteq> Plain)" for x
      using p(1) by (cases x) (auto simp: o pipe_alloc_def)
  qed (use assms(4) p(1) in \<open>simp_all add: o fresh_file_def\<close>)
  then have "held ?s2 (inc (Some a) 1 (inc (Some b) 1 (\<lambda>_. 0)))"
  proof (rule held_new(1) [where h = ?ha])
    show "objs_ok ?s2" using s(1) wf by (simp add: objs_ok_def)
    show "wake_ok ?s2" using s(2) assms(2) by (auto simp: wake_ok_def fresh_pipe_def stuck_def pipe_alloc_def)
    show "open_obj ?s2 x = (open_obj ?s1 x \<or> x = obj ?ha \<and> x \<noteq> Plain)" for x
      using p(1) by (cases x) (auto simp: o pipe_alloc_def)
    show "k_files ?s2 = (k_files ?s1)(a \<mapsto> ?ha)" using assms(5) by (auto simp: fun_eq_iff)
  qed (use assms(3,5) p(1) in \<open>simp_all add: o fresh_file_def\<close>)
  from held_install2 [OF this] assms(7) show ?thesis by (simp add: pipe_make_def Let_def)
qed

lemma held_pty_make:
  assumes "held s (\<lambda>_. 0)" "fresh_pty p s" "fresh_file a s" "fresh_file b s" "a \<noteq> b"
    and "pty_make E p raw a b s = Some (r, s')"
  shows "held s' (\<lambda>_. 0)"
proof -
  let ?q = "case raw of (o', i, l) \<Rightarrow> pty_alloc o' i l"
  let ?ha = "new_file None None None (Some p) True True" and ?hb = "new_file None None None (Some p) False True"
  let ?s1 = "put_file a ?ha (s\<lparr>k_ptys := (k_ptys s)(p \<mapsto> ?q\<lparr>t_slave_open := False\<rparr>)\<rparr>)"
  let ?s2 = "put_file b ?hb (put_file a ?ha (s\<lparr>k_ptys := (k_ptys s)(p \<mapsto> ?q)\<rparr>))"
  have p: "k_ptys s p = None" using assms(2) by (simp add: fresh_pty_def)
  have s: "objs_ok s" "wake_ok s" using assms(1) by (auto simp: held_def kinv_def)
  have q: "t_master_open ?q" "t_slave_open ?q" by (cases raw; simp add: pty_alloc_def)+
  have o: "obj ?ha = PtyM p" "obj ?hb = PtyS p" "single ?ha" "single ?hb"
    by (simp_all add: obj_def new_file_def single_def)
  have "held ?s1 (inc (Some a) 1 (\<lambda>_. 0))"
  proof (rule held_new(1) [OF assms(1), where h = ?ha])
    show "objs_ok ?s1" using s(1) q by (simp add: objs_ok_def)
    show "wake_ok ?s1" using s(2) assms(2) by (auto simp: wake_ok_def fresh_pty_def)
    show "open_obj ?s1 x = (open_obj s x \<or> x = obj ?ha \<and> x \<noteq> Plain)" for x
      using p q by (cases x) (auto simp: o)
  qed (use assms(3) p in \<open>simp_all add: o fresh_file_def\<close>)
  then have "held ?s2 (inc (Some b) 1 (inc (Some a) 1 (\<lambda>_. 0)))"
  proof (rule held_new(1) [where h = ?hb])
    show "objs_ok ?s2" using s(1) q by (simp add: objs_ok_def)
    show "wake_ok ?s2" using s(2) assms(2) by (auto simp: wake_ok_def fresh_pty_def)
    show "open_obj ?s2 x = (open_obj ?s1 x \<or> x = obj ?hb \<and> x \<noteq> Plain)" for x
      using p q by (cases x) (auto simp: o)
    show "k_files ?s2 = (k_files ?s1)(b \<mapsto> ?hb)" by simp
  qed (use assms(4,5) p in \<open>simp_all add: o fresh_file_def\<close>)
  then have "held ?s2 (inc (Some a) 1 (inc (Some b) 1 (\<lambda>_. 0)))" by (simp add: inc_swap)
  from held_install2 [OF this] assms(6) show ?thesis by (simp add: pty_make_def Let_def)
qed

text \<open>Sockets.\<close>

definition opens_sock :: "nat option \<Rightarrow> sock_sys \<Rightarrow> sock_sys \<Rightarrow> bool" where
  "opens_sock r k k' \<longleftrightarrow> length (ss_socks k') = NSOCK \<and>
     (\<forall>j < NSOCK. so_used (sock k' j) = (so_used (sock k j) \<or> r = Some j)) \<and>
     (case r of None \<Rightarrow> True | Some i \<Rightarrow> i < NSOCK \<and> \<not> so_used (sock k i))"

lemma free_slotD: "free_slot k = Some i \<Longrightarrow> i < NSOCK \<and> \<not> so_used (sock k i)"
  by (auto simp: free_slot_def find_Some_iff)

lemma opens_None: "length (ss_socks k) = NSOCK \<Longrightarrow> opens_sock None k k"
  by (simp add: opens_sock_def)

lemma set_sock_len [simp]: "length (ss_socks (set_sock i v k)) = length (ss_socks k)"
  by (simp add: set_sock_def)

lemma sock_set: "length (ss_socks k) = NSOCK \<Longrightarrow> j < NSOCK \<Longrightarrow> sock (set_sock i v k) j = (if j = i then v else sock k j)"
  by (simp add: sock_def set_sock_def nth_list_update)

lemma sock_tcp [simp]: "sock (k\<lparr>ss_tcp := t\<rparr>) j = sock k j" "free_slot (k\<lparr>ss_tcp := t\<rparr>) = free_slot k"
  by (simp_all add: sock_def free_slot_def)

lemma socket_alloc_opens:
  assumes "length (ss_socks k) = NSOCK" "socket_alloc t k = (r, k')"
  shows "opens_sock r k k'"
proof (cases "free_slot k")
  case (Some i)
  from free_slotD [OF Some] assms show ?thesis
    by (auto simp: socket_alloc_def Some Let_def opens_sock_def sock_set split: if_splits option.splits)
qed (use assms opens_None in \<open>auto simp: socket_alloc_def\<close>)

lemma socket_accept_opens:
  assumes "length (ss_socks k) = NSOCK" "socket_accept our_ip start tks tks' i k = Some (r, k')"
  shows "opens_sock r k k'"
proof (cases "free_slot k")
  case (Some j)
  from free_slotD [OF Some] assms show ?thesis
    by (auto simp: socket_accept_def Some Let_def opens_sock_def sock_set split: if_splits option.splits)
next
  case None
  with assms show ?thesis
    by (auto simp: socket_accept_def Let_def opens_sock_def split: if_splits option.splits)
qed

lemma kinv_socks:
  assumes "held s P" "length (ss_socks k) = NSOCK" "\<And>j. j < NSOCK \<Longrightarrow> so_used (sock k j) = so_used (sock (k_socks s) j)"
  shows "held (s\<lparr>k_socks := k\<rparr>) P"
proof -
  have "kinv P (s\<lparr>k_socks := k\<rparr>)"
  proof (rule kinv_frame [of P s])
    have "objs_ok s" using assms(1) kinvD(1) by (auto simp: held_def)
    then show "objs_ok (s\<lparr>k_socks := k\<rparr>)" using assms(2) by (simp add: objs_ok_def)
    show "open_obj (s\<lparr>k_socks := k\<rparr>) x = open_obj s x" for x using assms(3) by (cases x) auto
  qed (use assms(1) in \<open>simp_all add: held_def\<close>)
  then show ?thesis using assms(1) by (simp add: held_def wake_ok_def)
qed

lemma held_install_sock:
  assumes "held s (\<lambda>_. 0)" "fresh_file a s" "opens_sock (Some i) (k_socks s) k"
    "install_sock E a i (s\<lparr>k_socks := k\<rparr>) = Some (r, s')"
  shows "held s' (\<lambda>_. 0)"
proof -
  let ?h = "new_file None None (Some i) None False False"
  let ?s = "put_file a ?h (s\<lparr>k_socks := k\<rparr>)"
  have o: "obj ?h = SockO i" "single ?h" by (simp_all add: obj_def new_file_def single_def)
  have s: "objs_ok s" "wake_ok s" using assms(1) by (auto simp: held_def kinv_def)
  have k: "length (ss_socks k) = NSOCK" "i < NSOCK" "\<not> so_used (sock (k_socks s) i)"
    "\<And>j. j < NSOCK \<Longrightarrow> so_used (sock k j) = (so_used (sock (k_socks s) j) \<or> j = i)"
    using assms(3) by (auto simp: opens_sock_def)
  have h: "held ?s (inc (Some a) 1 (\<lambda>_. 0))"
  proof (rule held_new(1) [OF assms(1), where h = ?h])
    show "objs_ok ?s" using s(1) k(1) by (simp add: objs_ok_def)
    show "wake_ok ?s" using s(2) by (simp add: wake_ok_def)
    show "open_obj ?s x = (open_obj s x \<or> x = obj ?h \<and> x \<noteq> Plain)" for x
      using k by (cases x) (auto simp: o)
  qed (use assms(2) k in \<open>simp_all add: o fresh_file_def\<close>)
  show ?thesis
  proof (cases "free_fd 3 ?s")
    case (Some fd)
    have "held (set_fd fd (Some a) ?s) (inc (fds ?s ! fd) 1 (inc (Some a) (-1) (inc (Some a) 1 (\<lambda>_. 0))))"
      using held_set_fd(1) [OF h] free_fdD [OF Some] by blast
    then have "held (set_fd fd (Some a) ?s) (\<lambda>_. 0)" by (rule held_eq) (use free_fdD [OF Some] in auto)
    with assms(4) Some show ?thesis by (auto simp: install_sock_def Let_def)
  next
    case None
    with assms(4) obtain s1 where s1: "ksock_free E i ?s = Some s1" "s' = s1\<lparr>k_files := (k_files s1)(a := None)\<rparr>"
      by (auto simp: install_sock_def Let_def bind_eq_Some_conv)
    have "vfs_close E a ?s = Some s'" using s1 by (simp add: vfs_close_def new_file_def)
    from held_close(1) [OF h this] show ?thesis by simp
  qed
qed

lemma held_sys_socket:
  assumes "held s (\<lambda>_. 0)" "fresh_file a s" "sys_socket E a t s = Some (r, s')"
  shows "held s' (\<lambda>_. 0)"
proof -
  obtain i k where k: "socket_alloc t (k_socks s) = (i, k)" by force
  have l: "length (ss_socks (k_socks s)) = NSOCK" using assms(1) by (auto simp: held_def objs_ok_def dest!: kinvD(1))
  note op = socket_alloc_opens [OF l k]
  show ?thesis
  proof (cases i)
    case None
    with op assms(3) k kinv_socks [OF assms(1), of k] show ?thesis by (auto simp: sys_socket_def opens_sock_def)
  next
    case (Some j)
    with op assms k held_install_sock [of s a j k E r s'] show ?thesis by (simp add: sys_socket_def)
  qed
qed

lemma held_sys_accept:
  assumes "held s (\<lambda>_. 0)" "fresh_file a s" "sys_accept E our_ip start tks tks' a fd s = Some (r, s')"
  shows "held s' (\<lambda>_. 0)"
proof (cases "fd_sock fd s")
  case (Some i)
  from assms(3) Some obtain n k where k: "socket_accept our_ip start tks tks' i (k_socks s) = Some (n, k)"
    by (auto simp: sys_accept_def bind_eq_Some_conv)
  have l: "length (ss_socks (k_socks s)) = NSOCK" using assms(1) by (auto simp: held_def objs_ok_def dest!: kinvD(1))
  note op = socket_accept_opens [OF l k]
  show ?thesis
  proof (cases n)
    case None
    with op assms(3) k Some kinv_socks [OF assms(1), of k] show ?thesis by (auto simp: sys_accept_def opens_sock_def)
  next
    case (Some j)
    with op assms k \<open>fd_sock fd s = Some i\<close> held_install_sock [of s a j k E r s'] show ?thesis by (simp add: sys_accept_def)
  qed
qed (use assms in \<open>simp add: sys_accept_def\<close>)

text \<open>Files: the offset and the state of the file system are not part of the invariant.\<close>

lemma kinv_upd:
  assumes "kinv P s" "k_files s f = Some h" "obj h' = obj h" "single h'" "f_ref h' = f_ref h"
  shows "kinv P (put_file f h' s)"
proof (rule kinvI)
  note k = kinvD [OF assms(1)]
  show "objs_ok (put_file f h' s)" "tables_ok (k_sched (put_file f h' s))" using k(1,2) by simp_all
  show "int (refs g (k_sched (put_file f h' s))) + P g = (case k_files (put_file f h' s) g of None \<Rightarrow> 0 | Some h \<Rightarrow> f_ref h)" for g
    using k(3) [of g] assms(2,5) by (cases "g = f") simp_all
  show "f_ref h1 > 0 \<and> single h1 \<and> (obj h1 \<noteq> Plain \<longrightarrow> open_obj (put_file f h' s) (obj h1))"
    if "k_files (put_file f h' s) g = Some h1" for g h1
  proof (cases "g = f")
    case True
    with that have "h1 = h'" by simp
    with k(4) [OF assms(2)] assms(3-5) show ?thesis by simp
  next
    case False
    with that have "k_files s g = Some h1" by simp
    from k(4) [OF this] show ?thesis by simp
  qed
  show "\<exists>g h1. k_files (put_file f h' s) g = Some h1 \<and> obj h1 = x" if x: "open_obj (put_file f h' s) x" for x
  proof -
    from x have "open_obj s x" by simp
    from k(5) [OF this] obtain g h1 where "k_files s g = Some h1" "obj h1 = x" by blast
    then show ?thesis using assms(2,3) by (cases "g = f") (auto intro: exI [of _ g])
  qed
  show "a = b" if a: "k_files (put_file f h' s) a = Some h1" and b: "k_files (put_file f h' s) b = Some h2"
    and o: "obj h1 = obj h2" "obj h1 \<noteq> Plain" for a b h1 h2
  proof -
    obtain g1 where g1: "k_files s a = Some g1" "obj g1 = obj h1" using a assms(2,3) by (cases "a = f") auto
    obtain g2 where g2: "k_files s b = Some g2" "obj g2 = obj h2" using b assms(2,3) by (cases "b = f") auto
    show ?thesis by (rule k(6) [OF g1(1) g2(1)]) (use g1 g2 o in simp_all)
  qed
qed

lemma held_upd:
  "held s P \<Longrightarrow> k_files s f = Some h \<Longrightarrow> held (put_file f (h\<lparr>f_off := off\<rparr>) s) P"
  using kinv_upd [of P s f h "h\<lparr>f_off := off\<rparr>"] kinvD(4) [of P s f h] by (auto simp: held_def)

lemma objs_ok_fs [simp]: "objs_ok (s\<lparr>k_fs := fs\<rparr>) = objs_ok s" "wake_ok (s\<lparr>k_fs := fs\<rparr>) = wake_ok s"
  "objs_ok (s\<lparr>k_uart := u\<rparr>) = objs_ok s" "wake_ok (s\<lparr>k_uart := u\<rparr>) = wake_ok s"
  by (simp_all add: objs_ok_def wake_ok_def)

lemma open_fs [simp]: "open_obj (s\<lparr>k_fs := fs\<rparr>) x = open_obj s x" "open_obj (s\<lparr>k_uart := u\<rparr>) x = open_obj s x"
  by (cases x; simp)+

lemma kinv_fs [simp]: "kinv P (s\<lparr>k_fs := fs\<rparr>) = kinv P s" "kinv P (s\<lparr>k_uart := u\<rparr>) = kinv P s"
  by (simp_all add: kinv_def)

lemma held_fs [simp]: "held (s\<lparr>k_fs := fs\<rparr>) P = held s P" "held (s\<lparr>k_uart := u\<rparr>) P = held s P"
  "fresh_file a (s\<lparr>k_fs := fs\<rparr>) = fresh_file a s"
  by (simp_all add: held_def fresh_file_def)

lemma held_vfs_open:
  assumes "held s (\<lambda>_. 0)" "fresh_file a s" "vfs_open N m a path s = Some (v, s')"
  shows "held s' (inc v 1 (\<lambda>_. 0)) \<and> (v = None \<longrightarrow> fresh_file a s')"
proof -
  from assms(3) obtain x fs where x: "vfs_lookup N m path (k_fs s) = Some (x, fs)" by (auto simp: vfs_open_def bind_eq_Some_conv)
  have h: "held (s\<lparr>k_fs := fs\<rparr>) (\<lambda>_. 0)" "fresh_file a (s\<lparr>k_fs := fs\<rparr>)" using assms(1,2) by simp_all
  show ?thesis using assms(3) x h held_plain [OF h] by (cases x) (auto simp: vfs_open_def)
qed

lemma held_open_or_create:
  assumes "held s (\<lambda>_. 0)" "fresh_file a s" "open_or_create N m a path flags s = Some (v, s')"
  shows "held s' (inc v 1 (\<lambda>_. 0))"
proof -
  from assms(3) obtain v1 s1 where s1: "vfs_open N m a path s = Some (v1, s1)"
    by (auto simp: open_or_create_def bind_eq_Some_conv)
  note h1 = held_vfs_open [OF assms(1,2) s1]
  show ?thesis
  proof (cases "v1 = None \<and> tio_on flags O_CREAT")
    case True
    with assms(3) s1 obtain fs where "vfs_open N m a path (s1\<lparr>k_fs := fs\<rparr>) = Some (v, s')"
      by (auto simp: open_or_create_def bind_eq_Some_conv)
    with held_vfs_open [of "s1\<lparr>k_fs := fs\<rparr>" a N m path v s'] h1 True show ?thesis by simp
  next
    case False
    with assms(3) s1 h1 show ?thesis by (simp add: open_or_create_def)
  qed
qed

lemma held_open_adjust:
  assumes "held s P" "open_adjust N f flags s = Some s'"
  shows "held s' P"
proof -
  from assms(2) obtain h vn s1 where h: "k_files s f = Some h"
    and s1: "open_trunc N f vn flags s = Some s1" and s': "open_append N f vn flags s1 = Some s'"
    by (auto simp: open_adjust_def bind_eq_Some_conv)
  have "held s1 P"
    using s1 h assms(1) held_upd [of "s\<lparr>k_fs := _\<rparr>" P f h] by (auto simp: open_trunc_def bind_eq_Some_conv split: if_splits)
  with s' held_upd [of s1 P f] show ?thesis by (auto simp: open_append_def bind_eq_Some_conv split: if_splits)
qed

lemma held_openat:
  assumes "held s (\<lambda>_. 0)" "fresh_file a s" "sys_openat E N m a p flags s = Some (r, s')"
  shows "held s' (\<lambda>_. 0)"
proof -
  from assms(3) obtain v s2 where s2: "open_or_create N m a (cwd_path p s) flags s = Some (v, s2)"
    by (auto simp: sys_openat_def bind_eq_Some_conv)
  note h2 = held_open_or_create [OF assms(1,2) s2]
  show ?thesis
  proof (cases v)
    case (Some f)
    with assms(3) s2 obtain s4 where s4: "open_adjust N f flags s2 = Some s4" by (auto simp: sys_openat_def bind_eq_Some_conv)
    note h4 = held_open_adjust [OF h2 s4]
    show ?thesis
    proof (cases "free_fd 3 s4")
      case (Some i)
      have "held (set_fd i (Some f) s4) (inc (fds s4 ! i) 1 (inc (Some f) (-1) (inc v 1 (\<lambda>_. 0))))"
        using held_set_fd(1) [OF h4] free_fdD [OF Some] by blast
      then have "held (set_fd i (Some f) s4) (\<lambda>_. 0)" by (rule held_eq) (use free_fdD [OF Some] \<open>v = Some f\<close> in auto)
      with assms(3) s2 s4 Some \<open>v = Some f\<close> show ?thesis by (simp add: sys_openat_def)
    next
      case None
      with assms(3) s2 s4 \<open>v = Some f\<close> have "vfs_close E f s4 = Some s'" by (auto simp: sys_openat_def bind_eq_Some_conv)
      with held_close(1) [OF h4, of E f s'] \<open>v = Some f\<close> show ?thesis by simp
    qed
  qed (use assms(3) s2 h2 in \<open>simp add: sys_openat_def\<close>)
qed

lemma held_lseek: "held s (\<lambda>_. 0) \<Longrightarrow> sys_lseek N fd off wh s = (r, s') \<Longrightarrow> held s' (\<lambda>_. 0)"
  using held_upd by (auto simp: sys_lseek_def bind_eq_Some_conv Let_def split: option.splits if_splits)

subsection \<open>Reads and writes\<close>

text \<open>What holds between system calls.\<close>

definition kok :: "('v, 's) kstate \<Rightarrow> bool" where
  "kok s \<longleftrightarrow> kinv (\<lambda>_. 0) s \<and> wake_ok s \<and> sched_ok (k_sched s)"

lemma held_kok: "held s (\<lambda>_. 0) \<Longrightarrow> kok s" by (simp add: held_def kok_def running_def)

definition can_sleep :: "('v, 's) kstate \<Rightarrow> bool" where "can_sleep s \<longleftrightarrow> t_id (current (k_sched s)) \<noteq> 0"

lemma sched_ok_block: "sched_ok s \<Longrightarrow> t_id (current s) \<noteq> 0 \<Longrightarrow> sched_ok (sched_block c s)"
  unfolding sched_block_def by (intro schedule_ok(1) parked_upd) auto

lemma sched_ok_event: "sched_ok s \<Longrightarrow> t_id (current s) \<noteq> 0 \<Longrightarrow> sched_ok (sched_wait_event c n s)"
  unfolding sched_wait_event_def by (intro schedule_ok(1) parked_upd) auto

lemma sched_ok_sleep: "sched_ok s \<Longrightarrow> t_id (current s) \<noteq> 0 \<Longrightarrow> sched_ok (sleep_ticks n s)"
  unfolding sleep_ticks_def by (intro schedule_ok(1) parked_upd) auto

text \<open>The scheduler alone takes a step after which nobody sleeps on a pipe without a reason.\<close>

lemma kok_sched:
  assumes "kok s" "sched_ok sc" "profile sc = profile (k_sched s)"
    "\<And>p q. k_pipes s p = Some q \<Longrightarrow> chan p \<in> waiters sc \<Longrightarrow> chan p \<in> waiters (k_sched s) \<or> stuck q"
  shows "kok (s\<lparr>k_sched := sc\<rparr>)"
proof -
  have "wake_ok (s\<lparr>k_sched := sc\<rparr>)" using assms(1,4) unfolding kok_def wake_ok_def by auto
  moreover have "kinv (\<lambda>_. 0) (s\<lparr>k_sched := sc\<rparr>)" using assms(1,3) kinv_quiet by (auto simp: kok_def)
  ultimately show ?thesis using assms(2) by (simp add: kok_def)
qed

lemma kok_quiet: "kok s \<Longrightarrow> sched_ok sc \<Longrightarrow> quiet (k_sched s) sc \<Longrightarrow> kok (s\<lparr>k_sched := sc\<rparr>)"
  by (rule kok_sched) (auto simp: quiet_def)

lemma kok_block:
  assumes "held s (\<lambda>_. 0)" "can_sleep s" "\<And>p q. k_pipes s p = Some q \<Longrightarrow> chan p = c \<Longrightarrow> stuck q"
  shows "kok (s\<lparr>k_sched := sched_block c (k_sched s)\<rparr>)"
proof (rule kok_sched)
  have r: "running (k_sched s)" using assms(1) by (simp add: held_def)
  note v = view_sleep [of "k_sched s", OF conjunct1 [OF runningD [OF r]] conjunct1 [OF conjunct2 [OF runningD [OF r]]]]
  show "sched_ok (sched_block c (k_sched s))" using r assms(2) by (simp add: running_def can_sleep_def sched_ok_block)
  show "profile (sched_block c (k_sched s)) = profile (k_sched s)" by (rule v(1))
  show "chan p \<in> waiters (k_sched s) \<or> stuck q" if "k_pipes s p = Some q" "chan p \<in> waiters (sched_block c (k_sched s))" for p q
    using that v(2) [of c] assms(3) by blast
qed (rule held_kok [OF assms(1)])

text \<open>A pipe changes its contents, and its sleepers are woken if it does.\<close>

lemma held_pipe:
  assumes "held s P" "k_pipes s p = Some q" "pipe_wf q'" "p_readers q' = p_readers q" "p_writers q' = p_writers q"
    and sc: "sc = (if woke then sched_wake (chan p) (k_sched s) else k_sched s)" "\<not> woke \<Longrightarrow> q' = q"
  shows "held (s\<lparr>k_pipes := (k_pipes s)(p \<mapsto> q'), k_sched := sc\<rparr>) P"
proof -
  let ?s = "s\<lparr>k_pipes := (k_pipes s)(p \<mapsto> q'), k_sched := sc\<rparr>"
  have k: "kinv P s" "wake_ok s" "running (k_sched s)" using assms(1) by (simp_all add: held_def)
  have st: "steady (k_sched s) sc" by (simp add: sc steady_wake)
  have "kinv P ?s"
  proof (rule kinv_frame [OF k(1)])
    show "objs_ok ?s" using kinvD(1) [OF k(1)] assms(3) by (simp add: objs_ok_def)
    show "open_obj ?s x = open_obj s x" for x using assms(2,4,5) by (cases x) auto
  qed (use st in \<open>simp_all add: steady_def quiet_def\<close>)
  moreover have "wake_ok ?s"
    by (rule wake_frame [OF k(2)]) (use assms(2) sc in \<open>auto simp: view_wake split: if_splits\<close>)
  moreover have "running (k_sched ?s)" using st k(3) by (simp add: steady_def)
  ultimately show ?thesis by (simp add: held_def)
qed

lemma held_pipe_wf: "held s P \<Longrightarrow> k_pipes s p = Some q \<Longrightarrow> pipe_wf q"
  using kinvD(1) [of P s] unfolding held_def objs_ok_def by blast

lemma wake_chan: "held s P \<Longrightarrow> k_pipes s p = Some q \<Longrightarrow> k_pipes s p' = Some q' \<Longrightarrow> chan p' = chan p \<Longrightarrow> q' = q"
  using chan_inj [of p' p] by (auto simp: held_def wake_ok_def)

lemma kok_pipe_read:
  assumes "held s (\<lambda>_. 0)" "can_sleep s" "kpipe_read p len s = Some (r, s')"
  shows "kok s'"
proof -
  from assms(3) obtain q where q: "k_pipes s p = Some q" by (auto simp: kpipe_read_def bind_eq_Some_conv)
  note wf = held_pipe_wf [OF assms(1) q]
  obtain out woke q' where rd: "pipe_read q (unat len) = (out, woke, q')" by (cases "pipe_read q (unat len)") auto
  show ?thesis
  proof (cases out)
    case (Sleep u)
    then have "stuck q" using rd by (auto simp: pipe_read_def stuck_def split: if_splits prod.splits)
    moreover have "s' = s\<lparr>k_sched := sched_block (chan p) (k_sched s)\<rparr>" using assms(3) q rd Sleep by (simp add: kpipe_read_def)
    ultimately show ?thesis using kok_block [OF assms(1,2), of "chan p"] wake_chan [OF assms(1) q] by metis
  next
    case (Done bs)
    then have s': "s' = s\<lparr>k_pipes := (k_pipes s)(p \<mapsto> q'), k_sched := if woke then sched_wake (chan p) (k_sched s) else k_sched s\<rparr>"
      using assms(3) q rd by (simp add: kpipe_read_def)
    have ends: "p_readers q' = p_readers q \<and> p_writers q' = p_writers q"
    proof -
      have "pipe_read q (unat len) = (if p_count q = 0 \<and> p_writers q > 0 then (Sleep (), False, q)
         else if p_count q = 0 then (Done [], False, q)
         else (Done (fst (pipe_drain (unat len) q)), True, snd (pipe_drain (unat len) q)))"
        by (simp add: pipe_read_def split: prod.splits)
      with rd show ?thesis by (auto split: if_splits)
    qed
    moreover have "\<not> woke \<Longrightarrow> q' = q" using rd by (auto simp: pipe_read_def split: if_splits prod.splits)
    moreover have "pipe_wf q'"
      using wf ends pipe_read_spec(1) [of q "unat len" bs woke q'] rd Done by (simp add: pipe_wf_def)
    ultimately have "held s' (\<lambda>_. 0)" unfolding s' by (intro held_pipe [OF assms(1) q]) auto
    then show ?thesis by (rule held_kok)
  qed
qed

lemma pipe_write_loop_ends:
  assumes "pipe_ok q" "pipe_write_loop q n bs = Some (out, q')"
  shows "p_readers q' = p_readers q \<and> p_writers q' = p_writers q \<and> (p_count q' = p_count q \<longrightarrow> q' = q) \<and>
    (\<forall>x. out = Sleep x \<longrightarrow> p_count q' = PIPE_SIZE \<and> p_readers q' > 0)"
proof (cases "p_readers q = 0")
  case True
  then show ?thesis using assms
    by (cases "bs = []") (auto simp: pipe_write_loop.simps [of q n "[]"] pipe_write_loop_broken split: if_splits)
next
  case False
  then have rd: "0 < p_readers q" using assms(1) by (simp add: pipe_ok_def)
  note sp = pipe_write_loop_spec [OF assms(1) rd, of n bs]
  have q': "q' = fst (pipe_fill q bs)" using assms(2) sp by (auto split: if_splits)
  have cnt: "p_count q' = p_count q + min (length bs) (PIPE_SIZE - p_count q)" using pipe_fill_count [OF assms(1)] by (simp add: q')
  have "q' = q" if "p_count q' = p_count q"
  proof (cases "p_count q < PIPE_SIZE")
    case True
    with that cnt have "bs = []" by (auto simp: min_def split: if_splits)
    then show ?thesis by (simp add: q')
  next
    case False
    then show ?thesis by (cases bs) (auto simp: q')
  qed
  moreover have "p_count q' = PIPE_SIZE \<and> p_readers q' > 0" if "out = Sleep x" for x
    using that assms sp cnt rd pipe_ok_bound [OF assms(1)] by (auto simp: q' split: if_splits)
  ultimately show ?thesis by (simp add: q')
qed

lemma kok_pipe_write:
  assumes "held s (\<lambda>_. 0)" "can_sleep s" "kpipe_write p n bs s = Some (r, s')"
  shows "kok s'"
proof -
  from assms(3) obtain q out q' where q: "k_pipes s p = Some q" and w: "pipe_write_loop q n bs = Some (out, q')"
    by (auto simp: kpipe_write_def bind_eq_Some_conv)
  note wf = held_pipe_wf [OF assms(1) q]
  have e: "p_readers q' = p_readers q" "p_writers q' = p_writers q" "p_count q' = p_count q \<longrightarrow> q' = q"
    "\<forall>x. out = Sleep x \<longrightarrow> p_count q' = PIPE_SIZE \<and> p_readers q' > 0"
    using pipe_write_loop_ends [OF _ w] wf by (auto simp: pipe_wf_def)
  have wf': "pipe_wf q'" using wf e pipe_write_loop_step(1) [OF _ w] by (simp add: pipe_wf_def)
  define s1 where "s1 = s\<lparr>k_pipes := (k_pipes s)(p \<mapsto> q'), k_sched := if p_count q' \<noteq> p_count q then sched_wake (chan p) (k_sched s) else k_sched s\<rparr>"
  have h1: "held s1 (\<lambda>_. 0)" unfolding s1_def by (rule held_pipe [OF assms(1) q wf' e(1,2)]) (use e(3) in auto)
  have s': "s' = (case out of Sleep _ \<Rightarrow> s1\<lparr>k_sched := sched_block (chan p) (k_sched s1)\<rparr> | Done _ \<Rightarrow> s1)"
    using assms(3) q w unfolding kpipe_write_def s1_def Let_def by auto
  show ?thesis
  proof (cases out)
    case (Sleep x)
    have q1: "k_pipes s1 p = Some q'" by (simp add: s1_def)
    have "t_id (current (sched_wake (chan p) (k_sched s))) = t_id (current (k_sched s))"
      by (rule wake_current_id) (use assms(1) runningD in \<open>auto simp: held_def\<close>)
    then have "can_sleep s1" using assms(2) by (simp add: can_sleep_def s1_def)
    moreover have "stuck q'" using e(4) Sleep by (simp add: stuck_def)
    ultimately show ?thesis using kok_block [OF h1, of "chan p"] wake_chan [OF h1 q1] by (auto simp: s' Sleep)
  qed (use h1 s' held_kok in auto)
qed

text \<open>A pty keeps both ends open under reads and writes.\<close>

definition ends_of :: "pty \<Rightarrow> bool \<times> bool" where "ends_of q = (t_master_open q, t_slave_open q)"

lemma ends_master_write: "ends_of (fst (snd (pty_master_write q bs))) = ends_of q"
proof -
  have e: "ends_of (fst (echo_if b cs p)) = ends_of p" for b cs p by (simp add: echo_if_pushes ends_of_def)
  have c: "ends_of (fst (commit_line p)) = ends_of p" for p by (simp add: commit_line_def ends_of_def)
  have u [simp]: "ends_of (p\<lparr>t_line := l, t_line_len := n\<rparr>) = ends_of p" "ends_of (p\<lparr>t_line_len := n\<rparr>) = ends_of p"
    "ends_of (p\<lparr>t_in := i\<rparr>) = ends_of p" "ends_of (p\<lparr>t_line := l\<rparr>) = ends_of p" for p l n i by (simp_all add: ends_of_def)
  have cm [simp]: "fst (case x of (p, ev) \<Rightarrow> case commit_line p of (p, ev') \<Rightarrow> (p, ev @ ev')) = fst (commit_line (fst x))"
    for x :: "pty \<times> pty_event list" by (simp split: prod.split)
  have b: "ends_of (fst (master_byte p c)) = ends_of p" for p c
    unfolding master_byte_key Let_def using e c by (cases "key_of (t_tio p) c") (simp_all add: fst_case_ev split: if_split)
  have "ends_of (fst (master_bytes q bs)) = ends_of q"
  proof (induction bs arbitrary: q)
    case (Cons x xs)
    obtain p ev where p: "master_byte q x = (p, ev)" by force
    obtain r ev' where r: "master_bytes p xs = (r, ev')" by force
    from Cons [of p] b [of q x] show ?case by (simp add: p r)
  qed simp
  then show ?thesis by (simp add: pty_master_write_def split: prod.split)
qed

lemma ends_of_eq: "ends_of q' = ends_of q \<Longrightarrow> t_master_open q' = t_master_open q \<and> t_slave_open q' = t_slave_open q"
  by (simp add: ends_of_def)

lemma held_pty:
  assumes "held s P" "k_ptys s p = Some q" "ends_of q' = ends_of q" "steady (k_sched s) sc"
  shows "held (s\<lparr>k_ptys := (k_ptys s)(p \<mapsto> q'), k_sched := sc\<rparr>) P"
proof -
  let ?s = "s\<lparr>k_ptys := (k_ptys s)(p \<mapsto> q'), k_sched := sc\<rparr>"
  have k: "kinv P s" "wake_ok s" "running (k_sched s)" using assms(1) by (simp_all add: held_def)
  note e = ends_of_eq [OF assms(3)]
  have "kinv P ?s"
  proof (rule kinv_frame [OF k(1)])
    show "objs_ok ?s" using kinvD(1) [OF k(1)] e assms(2) by (auto simp: objs_ok_def)
    show "open_obj ?s x = open_obj s x" for x using assms(2) e by (cases x) auto
  qed (use assms(4) in \<open>simp_all add: steady_def quiet_def\<close>)
  moreover have "wake_ok ?s"
    by (rule wake_frame [OF k(2)]) (use assms(2,4) in \<open>auto simp: steady_def quiet_def split: if_splits\<close>)
  moreover have "running (k_sched ?s)" using assms(4) k(3) by (simp add: steady_def)
  ultimately show ?thesis by (simp add: held_def)
qed

lemma kok_pty_read:
  assumes "held s (\<lambda>_. 0)" "can_sleep s" "kpty_read m p len s = Some (r, s')"
  shows "kok s'"
proof -
  from assms(3) obtain q where q: "k_ptys s p = Some q" by (auto simp: kpty_read_def bind_eq_Some_conv)
  obtain out q' where rd: "(if m then pty_master_read q (unat len) else pty_slave_read q (unat len)) = (out, q')" by force
  have e: "ends_of q' = ends_of q"
    using rd by (auto simp: pty_master_read_def pty_slave_read_def ends_of_def split: if_splits prod.splits)
  show ?thesis
  proof (cases out)
    case (Sleep u)
    have "chan_in p \<noteq> chan p' \<and> chan_out p \<noteq> chan p'" if "k_pipes s p' \<noteq> None" for p'
      using assms(1) q that by (auto simp: held_def wake_ok_def)
    then have "kok (s\<lparr>k_sched := sched_block (if m then chan_out p else chan_in p) (k_sched s)\<rparr>)"
      by (intro kok_block [OF assms(1,2)]) (metis option.discI)
    with assms(3) q rd Sleep show ?thesis by (simp add: kpty_read_def)
  next
    case (Done bs)
    then have s': "s' = s\<lparr>k_ptys := (k_ptys s)(p \<mapsto> q')\<rparr>" using assms(3) q rd by (simp add: kpty_read_def)
    have "held (s\<lparr>k_ptys := (k_ptys s)(p \<mapsto> q'), k_sched := k_sched s\<rparr>) (\<lambda>_. 0)"
      by (rule held_pty [OF assms(1) q e]) simp
    then show ?thesis using held_kok by (simp add: s')
  qed
qed

lemma held_pty_write:
  assumes "held s P" "kpty_write m p bs s = Some (r, s')"
  shows "held s' P"
proof -
  from assms(2) obtain q where q: "k_ptys s p = Some q" by (auto simp: kpty_write_def bind_eq_Some_conv)
  obtain n q' ev where w: "(if m then pty_master_write q bs else pty_slave_write q bs) = (n, q', ev)"
    by (cases "if m then pty_master_write q bs else pty_slave_write q bs") auto
  have e: "ends_of q' = ends_of q"
    using w ends_master_write [of q bs] by (auto simp: pty_slave_write_def ends_of_def Let_def split: if_splits)
  have "s' = s\<lparr>k_ptys := (k_ptys s)(p \<mapsto> q'), k_sched := pty_events p ev (k_sched s)\<rparr>"
    using assms(2) q w by (simp add: kpty_write_def)
  then show ?thesis using held_pty [OF assms(1) q e steady_pty_events] by simp
qed

text \<open>Reading and writing through a handle.\<close>

lemma held_advance:
  "held s P \<Longrightarrow> k_files s f = Some h \<Longrightarrow> held ((if n > 0 then put_file f (h\<lparr>f_off := off\<rparr>) else id) (s\<lparr>k_fs := fs\<rparr>)) P"
  using held_upd [of "s\<lparr>k_fs := fs\<rparr>" P f h off] by simp

lemma kok_vfs_read:
  assumes "held s (\<lambda>_. 0)" "can_sleep s" "vfs_read N f len s = Some (r, s')"
  shows "kok s'"
proof -
  from assms(3) obtain h where h: "k_files s f = Some h" by (auto simp: vfs_read_def bind_eq_Some_conv)
  consider (pipe) p where "f_pipe h = Some p" | (pty) p where "f_pipe h = None" "f_pty h = Some p"
    | (vn) "f_pipe h = None" "f_pty h = None" by fastforce
  then show ?thesis
  proof cases
    case vn
    with assms(3) h obtain vn where v: "f_vnode h = Some vn" by (auto simp: vfs_read_def bind_eq_Some_conv)
    show ?thesis
    proof (cases "vo_read (vn_ops N vn)")
      case None
      with assms vn h v show ?thesis by (auto simp: vfs_read_def intro: held_kok)
    next
      case (Some rd)
      with assms(3) vn h v obtain n bs fs where
        "s' = (if n > 0 then put_file f (h\<lparr>f_off := f_off h + word_of_int n\<rparr>) else id) (s\<lparr>k_fs := fs\<rparr>)"
        by (auto simp: vfs_read_def bind_eq_Some_conv)
      then show ?thesis by (simp only: held_kok [OF held_advance [OF assms(1) h]])
    qed
  qed (use assms h kok_pipe_read kok_pty_read in \<open>auto simp: vfs_read_def\<close>)
qed

lemma kok_vfs_write:
  assumes "held s (\<lambda>_. 0)" "can_sleep s" "vfs_write N f bs s = Some (r, s')"
  shows "kok s'"
proof -
  from assms(3) obtain h where h: "k_files s f = Some h" by (auto simp: vfs_write_def bind_eq_Some_conv)
  consider (pipe) p where "f_pipe h = Some p" | (pty) p where "f_pipe h = None" "f_pty h = Some p"
    | (vn) "f_pipe h = None" "f_pty h = None" by fastforce
  then show ?thesis
  proof cases
    case vn
    with assms(3) h obtain vn where v: "f_vnode h = Some vn" by (auto simp: vfs_write_def bind_eq_Some_conv)
    show ?thesis
    proof (cases "vo_write (vn_ops N vn)")
      case None
      with assms vn h v show ?thesis by (auto simp: vfs_write_def intro: held_kok)
    next
      case (Some wr)
      with assms(3) vn h v obtain n fs where
        "s' = (if n > 0 then put_file f (h\<lparr>f_off := f_off h + word_of_int n\<rparr>) else id) (s\<lparr>k_fs := fs\<rparr>)"
        by (auto simp: vfs_write_def bind_eq_Some_conv)
      then show ?thesis by (simp only: held_kok [OF held_advance [OF assms(1) h]])
    qed
  next
    case pty
    with assms(3) h obtain n s1 where "kpty_write (f_is_master h) p bs s = Some (n, s1)" "s' = s1"
      by (auto simp: vfs_write_def)
    with held_pty_write [OF assms(1)] show ?thesis by (auto intro: held_kok)
  qed (use assms h kok_pipe_write in \<open>auto simp: vfs_write_def\<close>)
qed

lemma held_len: "held s P \<Longrightarrow> length (ss_socks (k_socks s)) = NSOCK"
  using kinvD(1) [of P s] by (simp add: held_def objs_ok_def)

lemma held_tcp:
  assumes "held s P" "ss_socks k = ss_socks (k_socks s)"
  shows "held (s\<lparr>k_socks := k\<rparr>) P"
  by (rule kinv_socks [OF assms(1)]) (use held_len [OF assms(1)] assms(2) in \<open>simp_all add: sock_def\<close>)

lemma kok_sys_read:
  assumes "held s (\<lambda>_. 0)" "can_sleep s" "sys_read N our_ip tks key fd len s = Some (r, s')"
  shows "kok s'"
proof (cases "fd_file fd s")
  case (Some f)
  with assms(3) obtain h where h: "k_files s f = Some h" by (auto simp: sys_read_def bind_eq_Some_conv)
  show ?thesis
  proof (cases "f_sock h")
    case None
    with assms(3) h Some have "vfs_read N f len s = Some (r, s')" by (simp add: sys_read_def)
    with kok_vfs_read [OF assms(1,2)] show ?thesis by blast
  next
    case (Some i)
    with assms(3) h \<open>fd_file fd s = Some f\<close> obtain n bs k where
      k: "socket_read our_ip tks i (unat (ucast len :: u32)) (k_socks s) = Some (n, bs, k)" "s' = s\<lparr>k_socks := k\<rparr>"
      by (auto simp: sys_read_def bind_eq_Some_conv)
    have "ss_socks k = ss_socks (k_socks s)" using k(1) by (auto simp: socket_read_def split: option.splits)
    with k(2) held_tcp [OF assms(1)] show ?thesis by (auto intro: held_kok)
  qed
qed (use assms held_kok in \<open>auto simp: sys_read_def split: if_splits option.splits\<close>)

lemma kok_sys_write:
  assumes "held s (\<lambda>_. 0)" "can_sleep s" "sys_write N our_ip tks fd bs s = Some (r, s')"
  shows "kok s'"
proof (cases "fd_file fd s")
  case (Some f)
  with assms(3) obtain h where h: "k_files s f = Some h" by (auto simp: sys_write_def bind_eq_Some_conv)
  show ?thesis
  proof (cases "f_sock h")
    case None
    with assms(3) h Some have "vfs_write N f bs s = Some (r, s')" by (simp add: sys_write_def)
    with kok_vfs_write [OF assms(1,2)] show ?thesis by blast
  next
    case (Some i)
    with assms(3) h \<open>fd_file fd s = Some f\<close> obtain n k x where
      k: "socket_write our_ip tks i bs (k_socks s) = Some (n, k, x)" "s' = s\<lparr>k_socks := k\<rparr>"
      by (auto simp: sys_write_def bind_eq_Some_conv)
    have "ss_socks k = ss_socks (k_socks s)" using k(1) by (auto simp: socket_write_def split: option.splits)
    with k(2) held_tcp [OF assms(1)] show ?thesis by (auto intro: held_kok)
  qed
qed (use assms held_kok in \<open>auto simp: sys_write_def split: if_splits\<close>)

subsection \<open>Fork and exit\<close>

text \<open>Sharing every open file of the caller, once per descriptor.\<close>

lemma dup_all:
  assumes "held s P" "\<And>f. f \<in> set fs \<Longrightarrow> k_files s f \<noteq> None" "fold_option file_dup fs s = Some s'"
  shows "held s' (\<lambda>f. P f + int (count_list fs f)) \<and> k_sched s' = k_sched s"
  using assms
proof (induction fs arbitrary: s P)
  case (Cons f fs)
  from Cons.prems(2) [of f] obtain h where h: "k_files s f = Some h" by auto
  from held_dup [OF Cons.prems(1) h] obtain s1 where s1: "file_dup f s = Some s1" "held s1 (inc (Some f) 1 P)" by blast
  have s1': "k_sched s1 = k_sched s" "\<And>g. k_files s g \<noteq> None \<Longrightarrow> k_files s1 g \<noteq> None"
    using s1(1) h by (auto simp: file_dup_def put_file_def)
  have "held s' (\<lambda>g. inc (Some f) 1 P g + int (count_list fs g)) \<and> k_sched s' = k_sched s1"
    by (rule Cons.IH [OF s1(2)]) (use Cons.prems s1 s1' in auto)
  moreover have "(\<lambda>g. inc (Some f) 1 P g + int (count_list fs g)) = (\<lambda>g. P g + int (count_list (f # fs) g))"
    by (auto simp: inc_def)
  ultimately show ?case by (simp only: s1'(1))
qed simp

lemma count_fds: "count_list (List.map_filter id T) f = count_list T (Some f)"
  by (induction T) (auto simp: map_filter_def split: option.split)

lemma refs_link:
  assumes "sc_ring sc \<noteq> []" "t_state t \<noteq> THREAD_ZOMBIE" "length (t_fds t) = 16" "tables_ok sc"
  shows "refs f (link_tail t sc) = refs f sc + count_list (t_fds t) (Some f)" "tables_ok (link_tail t sc)"
    "asleep t \<longrightarrow> t_wait_chan t \<in> W \<Longrightarrow> waiters (link_tail t sc) \<subseteq> waiters sc \<union> W"
proof -
  have p: "profile (link_tail t sc) = add_mset (t_fds t, False) (profile sc)" using assms(1,2) by (simp add: profile_def link_tail_def)
  show "refs f (link_tail t sc) = refs f sc + count_list (t_fds t) (Some f)" by (simp add: refs_def p)
  have "sc_ring (link_tail t sc) \<noteq> []" using assms(1) by (simp add: link_tail_def)
  then show "tables_ok (link_tail t sc)" using assms by (auto simp: tables_ok_def p)
  show "asleep t \<longrightarrow> t_wait_chan t \<in> W \<Longrightarrow> waiters (link_tail t sc) \<subseteq> waiters sc \<union> W"
    using assms(1) by (auto simp: waiters_def link_tail_def)
qed

lemma kok_link:
  assumes "held s P" "\<And>f. P f = int (count_list (t_fds t) (Some f))" "t_state t = THREAD_RUNNABLE" "length (t_fds t) = 16"
    "sched_ok (link_tail t (k_sched s))"
  shows "kok (s\<lparr>k_sched := link_tail t (k_sched s)\<rparr>)"
proof -
  let ?s = "s\<lparr>k_sched := link_tail t (k_sched s)\<rparr>"
  have k: "kinv P s" "wake_ok s" "running (k_sched s)" using assms(1) by (simp_all add: held_def)
  note l = refs_link [of "k_sched s" t, OF conjunct1 [OF runningD [OF k(3)]] _ assms(4) kinvD(2) [OF k(1)]]
  have eqs: "k_files ?s = k_files s" "k_pipes ?s = k_pipes s" "k_ptys ?s = k_ptys s" "k_socks ?s = k_socks s" by simp_all
  have op: "open_obj ?s x = open_obj s x" for x by (cases x) simp_all
  have "kinv (\<lambda>_. 0) ?s"
  proof (rule kinvI)
    show "objs_ok ?s" using kinvD(1) [OF k(1)] by (simp add: objs_ok_def)
    show "tables_ok (k_sched ?s)" using l(2) assms(3) by simp
    show "int (refs f (k_sched ?s)) + 0 = (case k_files ?s f of None \<Rightarrow> 0 | Some h \<Rightarrow> f_ref h)" for f
      using kinvD(3) [OF k(1), of f] l(1) [of f] assms(2,3) by simp
    show "f_ref h > 0 \<and> single h \<and> (obj h \<noteq> Plain \<longrightarrow> open_obj ?s (obj h))" if "k_files ?s f = Some h" for f h
      using that kinvD(4) [OF k(1)] unfolding op eqs by blast
    show "\<exists>f h. k_files ?s f = Some h \<and> obj h = x" if "open_obj ?s x" for x
      using that kinvD(5) [OF k(1)] unfolding op eqs by blast
    show "f = g" if "k_files ?s f = Some h" "k_files ?s g = Some h'" "obj h = obj h'" "obj h \<noteq> Plain" for f g h h'
      using that kinvD(6) [OF k(1)] unfolding eqs by blast
  qed
  moreover have "waiters (link_tail t (k_sched s)) \<subseteq> waiters (k_sched s)"
    using l(3) [of "{}"] assms(3) by (simp add: asleep_def)
  then have "wake_ok ?s" using k(2) unfolding wake_ok_def by auto
  ultimately show ?thesis using assms(5) by (simp add: kok_def)
qed

lemma kok_fork:
  assumes "held s (\<lambda>_. 0)" "sys_fork kstack fork_ret as tf s = Some (pid, s')"
  shows "kok s'"
proof -
  obtain t where f: "sched_fork kstack fork_ret as tf (k_sched s) = (t_id t, List.map_filter id (fds s), link_tail t (k_sched s))"
    "t_state t = THREAD_RUNNABLE" "t_fds t = fds s" "t_id t = sc_next_id (k_sched s)"
    by (simp add: sched_fork_def Let_def fds_def sig_init_def)
  from assms(2) f(1) obtain s1 where s1: "fold_option file_dup (List.map_filter id (fds s)) s = Some s1"
    "s' = s1\<lparr>k_sched := link_tail t (k_sched s)\<rparr>" by (auto simp: sys_fork_def bind_eq_Some_conv)
  have live: "k_files s f \<noteq> None" if "f \<in> set (List.map_filter id (fds s))" for f
  proof -
    from that have "Some f \<in> set (fds s)" by (auto simp: map_filter_def)
    then obtain i where "i < 16" "fds s ! i = Some f" using held_fds [OF assms(1)] by (auto simp: in_set_conv_nth)
    from fd_live [OF assms(1) this] show ?thesis by auto
  qed
  from dup_all [OF assms(1) live s1(1)] have h: "held s1 (\<lambda>f. int (count_list (t_fds t) (Some f)))" "k_sched s1 = k_sched s"
    by (simp_all add: count_fds f(3))
  have "sched_ok (link_tail t (k_sched s1))"
    using assms(1) f h(2) by (intro sched_ok_link) (auto simp: held_def running_def)
  then have "kok (s1\<lparr>k_sched := link_tail t (k_sched s1)\<rparr>)"
    by (intro kok_link [OF h(1)]) (use f held_fds [OF assms(1)] in auto)
  then show ?thesis by (simp add: s1(2) h(2))
qed

lemma held_close_slot:
  assumes "held s (\<lambda>_. 0)" "i < 16" "close_slot E i s = Some s'"
  shows "held s' (\<lambda>_. 0)" "fds s' = (fds s)[i := None]" "can_sleep s' = can_sleep s"
proof -
  have "held s' (\<lambda>_. 0) \<and> fds s' = (fds s)[i := None] \<and> can_sleep s' = can_sleep s"
  proof (cases "fds s ! i")
    case None
    have "(fds s)[i := None] = fds s" by (metis None list_update_id)
    moreover have "s' = s" using assms(3) None by (simp add: close_slot_def)
    ultimately show ?thesis using assms(1) by metis
  next
    case (Some f)
    with assms(3) obtain s1 where s1: "vfs_close E f s = Some s1" "s' = set_fd i None s1"
      by (auto simp: close_slot_def bind_eq_Some_conv)
    note c = held_close [OF assms(1) s1(1)]
    have "held s' (inc (fds s1 ! i) 1 (inc None (-1) (inc (Some f) (-1) (\<lambda>_. 0))))" "fds s' = (fds s1)[i := None]"
      unfolding s1(2) using held_set_fd [OF c(1) assms(2)] by blast+
    moreover have "sc_ring (k_sched s1) \<noteq> []" using c(1) runningD by (auto simp: held_def)
    then have "can_sleep s' = can_sleep s"
      using upd_current_id [of "k_sched s1" "\<lambda>t. t\<lparr>t_fds := (t_fds t)[i := None]\<rparr>"]
      by (simp add: can_sleep_def s1(2) set_fd_def c(3))
    ultimately show ?thesis by (simp add: c(2) Some)
  qed
  then show "held s' (\<lambda>_. 0)" "fds s' = (fds s)[i := None]" "can_sleep s' = can_sleep s" by simp_all
qed

lemma held_close_all:
  "n \<le> 16 \<Longrightarrow> held s (\<lambda>_. 0) \<Longrightarrow> fold_option (close_slot E) [0..<n] s = Some s' \<Longrightarrow>
     held s' (\<lambda>_. 0) \<and> (\<forall>j < n. fds s' ! j = None) \<and> can_sleep s' = can_sleep s"
proof (induction n arbitrary: s')
  case (Suc n)
  have app: "fold_option f (xs @ [x]) s = fold_option f xs s \<bind> f x" for f :: "nat \<Rightarrow> ('a, 'b) kstate \<Rightarrow> ('a, 'b) kstate option" and xs x s
    by (induction xs arbitrary: s) (auto split: option.split)
  from Suc.prems(3) obtain s1 where s1: "fold_option (close_slot E) [0..<n] s = Some s1" "close_slot E n s1 = Some s'"
    by (auto simp: app bind_eq_Some_conv)
  from Suc.IH [OF _ Suc.prems(2) s1(1)] Suc.prems(1) have h: "held s1 (\<lambda>_. 0)" "\<forall>j < n. fds s1 ! j = None" "can_sleep s1 = can_sleep s" by simp_all
  from Suc.prems(1) have n: "n < 16" by simp
  from held_close_slot [OF h(1) n s1(2)] h(2,3) held_fds [OF h(1)] n show ?case by (auto simp: less_Suc_eq nth_list_update)
qed simp

lemma exit_view:
  assumes "thread_exit inq status st sc = (ev, st', sc')" "sc_ring sc = t # ts" "t_fds t = replicate 16 None"
    "t_state t \<noteq> THREAD_ZOMBIE"
  shows "\<exists>M. profile sc = add_mset (replicate 16 None, False) M \<and> profile sc' = add_mset (replicate 16 None, True) M"
    "waiters sc' \<subseteq> waiters sc" "sc_ring sc' \<noteq> []"
proof -
  define s1 where "s1 = upd_current (\<lambda>t. t\<lparr>t_fds := replicate 16 None\<rparr>) sc"
  obtain nw st1 where rel: "seat_release_pid (t_id (current s1)) st = (nw, st1)" by force
  define s2 where "s2 = (if nw \<noteq> st_active st \<and> nw > 0 then sched_wake inq s1 else s1)"
  define s3 where "s3 = upd_current (\<lambda>t. t\<lparr>t_exit_status := status, t_state := THREAD_ZOMBIE\<rparr>) s2"
  define s4 where "s4 = s3\<lparr>sc_ring := map (\<lambda>t. if Some (t_id t) = t_parent (current s3) \<and> t_state t = THREAD_SLEEPING
     then set_state THREAD_RUNNABLE t else t) (sc_ring s3)\<rparr>"
  have s': "sc' = schedule s4"
    using assms(1) unfolding thread_exit_def Let_def s1_def [symmetric] rel
    by (simp add: s2_def [symmetric] s3_def [symmetric] s4_def [symmetric])
  have q1: "s1 = sc" using assms(2,3) by (cases t) (simp add: s1_def upd_current_def)
  have q2: "quiet sc s2" by (auto simp: s2_def q1 quiet_def view_wake)
  have "\<exists>t2 ts2. sc_ring s2 = t2 # ts2 \<and> t_fds t2 = replicate 16 None \<and> t_state t2 \<noteq> THREAD_ZOMBIE"
    using assms(2-4) by (cases "nw \<noteq> st_active st \<and> nw > 0") (auto simp: s2_def q1 sched_wake_def)
  then obtain t2 ts2 where r2: "sc_ring s2 = t2 # ts2" "t_fds t2 = replicate 16 None" "t_state t2 \<noteq> THREAD_ZOMBIE" by blast
  define M where "M = image_mset (\<lambda>t. (t_fds t, t_state t = THREAD_ZOMBIE)) (mset ts2)"
  have p: "profile s2 = add_mset (replicate 16 None, False) M" using r2 by (simp add: profile_def M_def)
  have r3: "sc_ring s3 = t2\<lparr>t_exit_status := status, t_state := THREAD_ZOMBIE\<rparr> # ts2" by (simp add: s3_def upd_current_def r2)
  have p3: "profile s3 = add_mset (replicate 16 None, True) M" "waiters s3 \<subseteq> waiters s2"
    using r2 by (auto simp: profile_def M_def r3 waiters_def asleep_def)
  have q4: "quiet s3 s4"
    by (rule quiet_map [where f = "\<lambda>t. if Some (t_id t) = t_parent (current s3) \<and> t_state t = THREAD_SLEEPING
        then set_state THREAD_RUNNABLE t else t"]) (auto simp: s4_def like_def sleeps_less_def asleep_def set_state_def)
  have ne: "sc_ring s4 \<noteq> []" by (simp add: s4_def r3)
  note v = view_schedule [OF ne]
  show "\<exists>M. profile sc = add_mset (replicate 16 None, False) M \<and> profile sc' = add_mset (replicate 16 None, True) M"
    using q2 q4 p p3 v unfolding s' quiet_def by metis
  show "waiters sc' \<subseteq> waiters sc" using q2 q4 p3 v unfolding s' quiet_def by blast
  show "sc_ring sc' \<noteq> []" using profile_ne [OF v(1)] ne by (simp add: s')
qed

text \<open>The invariant speaks of the scheduler through counts and tables only.\<close>

lemma kinv_sched:
  assumes "kinv P s" "\<And>f. refs f sc = refs f (k_sched s)" "tables_ok sc"
  shows "kinv P (s\<lparr>k_sched := sc\<rparr>)"
proof (rule kinvI)
  let ?s = "s\<lparr>k_sched := sc\<rparr>"
  have op: "open_obj ?s x = open_obj s x" for x by (cases x) simp_all
  show "objs_ok ?s" using kinvD(1) [OF assms(1)] by (simp add: objs_ok_def)
  show "tables_ok (k_sched ?s)" using assms(3) by simp
  show "int (refs f (k_sched ?s)) + P f = (case k_files ?s f of None \<Rightarrow> 0 | Some h \<Rightarrow> f_ref h)" for f
    using kinvD(3) [OF assms(1), of f] assms(2) by simp
  show "f_ref h > 0 \<and> single h \<and> (obj h \<noteq> Plain \<longrightarrow> open_obj ?s (obj h))" if "k_files ?s f = Some h" for f h
    using that kinvD(4) [OF assms(1)] unfolding op by simp
  show "\<exists>f h. k_files ?s f = Some h \<and> obj h = x" if "open_obj ?s x" for x
    using that kinvD(5) [OF assms(1)] unfolding op by simp
  show "f = g" if "k_files ?s f = Some h" "k_files ?s g = Some h'" "obj h = obj h'" "obj h \<noteq> Plain" for f g h h'
    using that kinvD(6) [OF assms(1)] by simp
qed

lemma kok_exit:
  assumes "held s (\<lambda>_. 0)" "can_sleep s" "sys_exit E inq status st s = Some (st', s')"
  shows "kok s'"
proof -
  from assms(3) obtain s1 where s1: "fold_option (close_slot E) [0..<16] s = Some s1"
    by (auto simp: sys_exit_def bind_eq_Some_conv)
  obtain ev st1 sc where ex1: "thread_exit inq status st (k_sched s1) = (ev, st1, sc)" by (metis prod_cases3)
  from assms(3) s1 ex1 have s': "s' = s1\<lparr>k_sched := sc\<rparr>" and ex: "thread_exit inq status st (k_sched s1) = (ev, st', sc)"
    by (auto simp: sys_exit_def)
  have h: "held s1 (\<lambda>_. 0)" "\<forall>j < 16. fds s1 ! j = None" "can_sleep s1" using held_close_all [OF _ assms(1) s1] assms(2) by simp_all
  obtain t ts where r: "sc_ring (k_sched s1) = t # ts" using h(1) by (cases "sc_ring (k_sched s1)") (auto simp: held_def dest: runningD)
  have run: "running (k_sched s1)" "wake_ok s1" "kinv (\<lambda>_. 0) s1" using h(1) by (simp_all add: held_def)
  have t: "t_fds t = replicate 16 None" "t_state t \<noteq> THREAD_ZOMBIE"
  proof -
    have "fds s1 = t_fds t" by (simp add: fds_def current_def r)
    then show "t_fds t = replicate 16 None" using h(2) held_fds [OF h(1)] by (auto intro!: nth_equalityI)
    show "t_state t \<noteq> THREAD_ZOMBIE" using runningD [OF run(1)] by (simp add: current_def r)
  qed
  note v = exit_view [OF ex r t]
  from v(1) obtain M where M: "profile (k_sched s1) = add_mset (replicate 16 None, False) M" "profile sc = add_mset (replicate 16 None, True) M" by blast
  have "kinv (\<lambda>_. 0) s'" unfolding s'
    by (rule kinv_sched [OF run(3)]) (use M v(3) kinvD(2) [OF run(3)] in \<open>auto simp: refs_def tables_ok_def\<close>)
  moreover have "wake_ok s'" by (rule wake_frame [OF run(2)]) (use v(2) in \<open>auto simp: s'\<close>)
  moreover have "sched_ok (k_sched s')"
    using sched_ok_exit [OF _ _ ex] run(1) h(3) by (simp add: s' running_def can_sleep_def)
  ultimately show ?thesis by (simp add: kok_def)
qed

lemma kok_wait:
  assumes "held s (\<lambda>_. 0)" "can_sleep s" "sched_wait (k_sched s) = (r, sc)"
  shows "kok (s\<lparr>k_sched := sc\<rparr>)"
proof -
  let ?c = "k_sched s"
  have run: "running ?c" "wake_ok s" "kinv (\<lambda>_. 0) s" using assms(1) by (simp_all add: held_def)
  have ok: "sched_ok ?c" "t_id (current ?c) \<noteq> 0" using run(1) assms(2) by (simp_all add: running_def can_sleep_def)
  have ne: "sc_ring ?c \<noteq> []" using runningD [OF run(1)] by simp
  have sc: "sched_ok sc" by (rule sched_ok_wait [OF ok assms(3)])
  show ?thesis
  proof (cases "List.find (\<lambda>t. t_state t = THREAD_ZOMBIE) (wait_scan ?c)")
    case (Some z)
    note zz = wait_zombie [OF Some ne]
    have r: "sc_ring sc = filter (\<lambda>t. t_id t \<noteq> t_id z) (sc_ring ?c)" using assms(3) Some by (auto simp: sched_wait_def Let_def)
    have inj: "t \<in> set (sc_ring ?c) \<Longrightarrow> t_id t = t_id z \<Longrightarrow> t = z" for t
      using ok(1) zz(1) by (auto simp: sched_ok_def ring_ok_def distinct_map inj_on_def)
    have "mset (sc_ring ?c) = add_mset z (mset (sc_ring sc))"
    proof -
      have "distinct (sc_ring ?c)" using ok(1) by (auto simp: sched_ok_def ring_ok_def distinct_map)
      then have one: "mset (filter (\<lambda>t. t_id t = t_id z) (sc_ring ?c)) = {#z#}"
      proof -
        have "filter (\<lambda>t. t_id t = t_id z) (sc_ring ?c) = filter (\<lambda>t. t = z) (sc_ring ?c)"
          by (rule filter_cong [OF refl]) (use inj in auto)
        moreover have "distinct xs \<Longrightarrow> z \<in> set xs \<Longrightarrow> filter (\<lambda>t. t = z) xs = [z]" for xs
          by (induction xs) (auto simp: filter_empty_conv)
        ultimately show ?thesis using zz(1) \<open>distinct (sc_ring ?c)\<close> by simp
      qed
      have "mset (sc_ring ?c) = mset (filter (\<lambda>t. t_id t = t_id z) (sc_ring ?c)) + mset (sc_ring sc)"
        unfolding r mset_filter by (rule multiset_partition)
      then show ?thesis unfolding one by simp
    qed
    then have p: "profile ?c = add_mset (t_fds z, True) (profile sc)" using zz(2) by (simp add: profile_def)
    have zf: "t_fds z = replicate 16 None" using kinvD(2) [OF run(3)] p by (auto simp: tables_ok_def)
    have zero: "count_list (replicate n (None :: nat option)) (Some f) = 0" for n f by (induction n) simp_all
    have ne': "sc_ring sc \<noteq> []" using sc unfolding sched_ok_def by (metis ring_ok_ne)
    have "refs f sc = refs f ?c" for f by (simp add: refs_def p zf zero)
    moreover have "tables_ok sc" using kinvD(2) [OF run(3)] ne' by (simp add: tables_ok_def p)
    ultimately have "kinv (\<lambda>_. 0) (s\<lparr>k_sched := sc\<rparr>)" using kinv_sched [OF run(3)] by blast
    moreover have "waiters sc \<subseteq> waiters ?c" by (auto simp: waiters_def r)
    then have "wake_ok (s\<lparr>k_sched := sc\<rparr>)" using run(2) unfolding wake_ok_def by auto
    ultimately show ?thesis using sc by (simp add: kok_def)
  next
    case None
    let ?u = "?c\<lparr>sc_foreground := Some (t_id (last (wait_scan ?c)))\<rparr>"
    show ?thesis
    proof (cases "wait_scan ?c = []")
      case True
      with None assms(3) held_kok [OF assms(1)] show ?thesis by (auto simp: sched_wait_def Let_def)
    next
      case False
      have e: "sc = schedule (upd_current (set_state THREAD_SLEEPING) ?u)" using None False assms(3) by (auto simp: sched_wait_def Let_def)
      have st: "t_state (current ?u) = THREAD_RUNNING" "t_wait_chan (current ?u) = 0" "sc_ring ?u \<noteq> []"
        using runningD [OF run(1)] by (simp_all add: current_def)
      note v = view_upd [of ?u "set_state THREAD_SLEEPING", OF st(3)]
      have "profile sc = profile ?c" "waiters sc \<subseteq> insert 0 (waiters ?c)"
        using v st view_schedule [of "upd_current (set_state THREAD_SLEEPING) ?u"]
        by (auto simp: e upd_current_ring like_def asleep_def set_state_def profile_def waiters_def)
      moreover have "chan p \<noteq> 0" if "k_pipes s p = Some q" for p q using run(2) that by (auto simp: wake_ok_def)
      ultimately show ?thesis by (intro kok_sched [OF held_kok [OF assms(1)] sc]) auto
    qed
  qed
qed

end
