(* ===== verification/Files_Props.thy ===== *)
theory Files_Props
  imports Files_Calls
begin

text \<open>
  The states that system calls and interrupts reach from boot, in any order and with any arguments,
  and what holds in all of them: exact reference counts, ends that are open exactly while a process
  has a descriptor for them, and no thread asleep on a pipe without a reason.
\<close>

subsection \<open>Reachable states\<close>

text \<open>A process is inside a system call: it is not the idle thread, and its last wait is over.\<close>

definition in_call :: "('v, 's) kstate \<Rightarrow> bool" where
  "in_call s \<longleftrightarrow> t_wait_chan (current (k_sched s)) = 0 \<and> can_sleep s"

definition booted :: "('v, 's) kstate \<Rightarrow> bool" where
  "booted s \<longleftrightarrow> k_files s = (\<lambda>_. None) \<and> k_pipes s = (\<lambda>_. None) \<and> k_ptys s = (\<lambda>_. None) \<and>
     length (ss_socks (k_socks s)) = NSOCK \<and> (\<forall>x \<in> set (ss_socks (k_socks s)). \<not> so_used x) \<and>
     (\<exists>sc. k_sched s = sched_init sc)"

text \<open>
  A wait for anything but a pipe is on a channel that is not the address of a pipe. A call that slept
  in a pipe or a pty goes on there (\<open>k_pipe_more\<close> with what is left to write).
\<close>

inductive kreach :: "('v, 's) kstate \<Rightarrow> bool" where
  k_boot: "booted s \<Longrightarrow> kreach s"
| k_read: "kreach s \<Longrightarrow> in_call s \<Longrightarrow> sys_read N ip tks key fd len s = Some (r, s') \<Longrightarrow> kreach s'"
| k_write: "kreach s \<Longrightarrow> in_call s \<Longrightarrow> sys_write N ip tks fd bs s = Some (w, s') \<Longrightarrow> kreach s'"
| k_pipe_more: "kreach s \<Longrightarrow> in_call s \<Longrightarrow> kpipe_write p n bs s = Some (w, s') \<Longrightarrow> kreach s'"
| k_open: "kreach s \<Longrightarrow> in_call s \<Longrightarrow> fresh_file a s \<Longrightarrow> sys_openat E N m a path fl s = Some (x, s') \<Longrightarrow> kreach s'"
| k_close: "kreach s \<Longrightarrow> in_call s \<Longrightarrow> sys_close E fd s = Some (x, s') \<Longrightarrow> kreach s'"
| k_dup2: "kreach s \<Longrightarrow> in_call s \<Longrightarrow> fresh_file a s \<Longrightarrow> sys_dup2 E con a old new s = Some (x, s') \<Longrightarrow> kreach s'"
| k_dup3: "kreach s \<Longrightarrow> in_call s \<Longrightarrow> fresh_file a s \<Longrightarrow> sys_dup3 E con a old new s = Some (x, s') \<Longrightarrow> kreach s'"
| k_dupfd: "kreach s \<Longrightarrow> in_call s \<Longrightarrow> fresh_file a s \<Longrightarrow> fcntl_dupfd con a fd mn s = Some (x, s') \<Longrightarrow> kreach s'"
| k_pipe: "kreach s \<Longrightarrow> in_call s \<Longrightarrow> fresh_pipe p s \<Longrightarrow> fresh_file a s \<Longrightarrow> fresh_file b s \<Longrightarrow> a \<noteq> b \<Longrightarrow>
    length raw = PIPE_SIZE \<Longrightarrow> pipe_make E p raw a b s = Some (y, s') \<Longrightarrow> kreach s'"
| k_pty: "kreach s \<Longrightarrow> in_call s \<Longrightarrow> fresh_pty p s \<Longrightarrow> fresh_file a s \<Longrightarrow> fresh_file b s \<Longrightarrow> a \<noteq> b \<Longrightarrow>
    pty_make E p raw3 a b s = Some (y, s') \<Longrightarrow> kreach s'"
| k_lseek: "kreach s \<Longrightarrow> in_call s \<Longrightarrow> sys_lseek N fd off wh s = (x, s') \<Longrightarrow> kreach s'"
| k_socket: "kreach s \<Longrightarrow> in_call s \<Longrightarrow> fresh_file a s \<Longrightarrow> sys_socket E a ty s = Some (x, s') \<Longrightarrow> kreach s'"
| k_accept: "kreach s \<Longrightarrow> in_call s \<Longrightarrow> fresh_file a s \<Longrightarrow> sys_accept E ip start tks tks' a fd s = Some (x, s') \<Longrightarrow> kreach s'"
| k_bind: "kreach s \<Longrightarrow> in_call s \<Longrightarrow> sys_bind fd port s = (x, s') \<Longrightarrow> kreach s'"
| k_fork: "kreach s \<Longrightarrow> in_call s \<Longrightarrow> sys_fork kstack ret as tf s = Some (x, s') \<Longrightarrow> kreach s'"
| k_exit: "kreach s \<Longrightarrow> in_call s \<Longrightarrow> sys_exit E inq status st s = Some (st', s') \<Longrightarrow> kreach s'"
| k_wait: "kreach s \<Longrightarrow> in_call s \<Longrightarrow> sched_wait (k_sched s) = (wr, sc) \<Longrightarrow> kreach (s\<lparr>k_sched := sc\<rparr>)"
| k_kill: "kreach s \<Longrightarrow> sched_kill pid sig (k_sched s) = (x, sc) \<Longrightarrow> kreach (s\<lparr>k_sched := sc\<rparr>)"
| k_setpgid: "kreach s \<Longrightarrow> sched_setpgid pid pg (k_sched s) = (x, sc) \<Longrightarrow> kreach (s\<lparr>k_sched := sc\<rparr>)"
| k_spawn: "kreach s \<Longrightarrow> thread_create_image stack tramp entry utop as prio (k_sched s) = (t, sc) \<Longrightarrow> kreach (s\<lparr>k_sched := sc\<rparr>)"
| k_tick: "kreach s \<Longrightarrow> sched_tick (k_sched s) = (resched, sc) \<Longrightarrow> kreach (s\<lparr>k_sched := sc\<rparr>)"
| k_yield: "kreach s \<Longrightarrow> kreach (s\<lparr>k_sched := yield (k_sched s)\<rparr>)"
| k_resume: "kreach s \<Longrightarrow> kreach (s\<lparr>k_sched := block_resume (k_sched s)\<rparr>)"
| k_wake: "kreach s \<Longrightarrow> kreach (s\<lparr>k_sched := sched_wake c (k_sched s)\<rparr>)"
| k_sleep: "kreach s \<Longrightarrow> in_call s \<Longrightarrow> kreach (s\<lparr>k_sched := sleep_ticks n (k_sched s)\<rparr>)"
| k_event: "kreach s \<Longrightarrow> in_call s \<Longrightarrow> \<forall>p. k_pipes s p \<noteq> None \<longrightarrow> chan p \<noteq> c \<Longrightarrow>
    kreach (s\<lparr>k_sched := sched_wait_event c to (k_sched s)\<rparr>)"

lemma in_call_held: "kok s \<Longrightarrow> in_call s \<Longrightarrow> held s (\<lambda>_. 0) \<and> can_sleep s"
  by (simp add: kok_def in_call_def held_def running_def)

lemma kok_boot: assumes "booted s" shows "kok s"
proof -
  from assms obtain sc where sc: "k_sched s = sched_init sc" by (auto simp: booted_def)
  have r: "sc_ring (k_sched s) = [boot_thread]" by (simp add: sc sched_init_def)
  have p: "profile (k_sched s) = {#(replicate 16 None, False)#}"
    by (simp add: profile_def r) (simp add: boot_thread_def sig_init_def)
  have c: "count_list (replicate n (None :: nat option)) (Some f) = 0" for n f by (induction n) simp_all
  have op: "\<not> open_obj s x" for x
    using assms by (cases x) (auto simp: booted_def sock_def)
  have "kinv (\<lambda>_. 0) s"
    using assms op by (auto simp: kinv_def objs_ok_def booted_def tables_ok_def p refs_def c r)
  moreover have "wake_ok s" using assms by (simp add: wake_ok_def booted_def)
  moreover have "sched_ok (k_sched s)" unfolding sc by (rule sched_run_ok [OF run_init])
  ultimately show ?thesis by (simp add: kok_def)
qed

lemma kok_spawn:
  assumes "kok s" "thread_create_image stack tramp entry utop as prio (k_sched s) = (t, sc)"
  shows "kok (s\<lparr>k_sched := sc\<rparr>)"
proof -
  have ok: "sched_ok (k_sched s)" "kinv (\<lambda>_. 0) s" "wake_ok s" using assms(1) by (simp_all add: kok_def)
  have t: "t_fds t = replicate 16 None" "t_state t = THREAD_RUNNABLE" "t_id t = sc_next_id (k_sched s)"
    and sc: "sc = link_tail t (k_sched s)"
    using assms(2) by (auto simp: thread_create_image_def fresh_thread_def sig_init_def Let_def)
  have ne: "sc_ring (k_sched s) \<noteq> []" using kinvD(2) [OF ok(2)] by (simp add: tables_ok_def)
  have p: "profile sc = add_mset (replicate 16 None, False) (profile (k_sched s))"
    using ne t by (simp add: sc link_tail_def profile_def)
  have c: "count_list (replicate n (None :: nat option)) (Some f) = 0" for n f by (induction n) simp_all
  have ne': "sc_ring sc \<noteq> []" using ne by (simp add: sc link_tail_def)
  have "refs f sc = refs f (k_sched s)" for f by (simp add: refs_def p c)
  moreover have "tables_ok sc" using kinvD(2) [OF ok(2)] ne' by (simp add: tables_ok_def p)
  ultimately have "kinv (\<lambda>_. 0) (s\<lparr>k_sched := sc\<rparr>)" using kinv_sched [OF ok(2)] by blast
  moreover have "waiters sc = waiters (k_sched s)" using ne t by (auto simp: sc link_tail_def waiters_def asleep_def)
  then have "wake_ok (s\<lparr>k_sched := sc\<rparr>)" using ok(3) by (simp add: wake_ok_def)
  moreover have "sched_ok sc" unfolding sc using sched_ok_link [OF ok(1)] t by simp
  ultimately show ?thesis by (simp add: kok_def)
qed

lemma used_lport [simp]: "so_used (xs[i := (xs ! i)\<lparr>so_lport := port\<rparr>] ! j) = so_used (xs ! j)"
  by (cases "i < length xs"; cases "i = j") (simp_all add: list_update_beyond)

lemma kok_bind:
  assumes "held s (\<lambda>_. 0)" "sys_bind fd port s = (x, s')"
  shows "kok s'"
proof (cases "fd_sock fd s")
  case (Some i)
  obtain r k where b: "socket_bind i port (k_socks s) = (r, k)" by force
  then have s': "s' = s\<lparr>k_socks := k\<rparr>" using assms(2) Some by (simp add: sys_bind_def)
  have l: "length (ss_socks (k_socks s)) = NSOCK" by (rule held_len [OF assms(1)])
  have k: "length (ss_socks k) = NSOCK \<and> (\<forall>j < NSOCK. so_used (sock k j) = so_used (sock (k_socks s) j))"
    using b l by (auto simp: socket_bind_def sock_def set_sock_def split: if_splits)
  then have "held (s\<lparr>k_socks := k\<rparr>) (\<lambda>_. 0)" by (intro kinv_socks [OF assms(1)]) auto
  then show ?thesis unfolding s' by (rule held_kok)
qed (use assms held_kok in \<open>simp add: sys_bind_def\<close>)

theorem kreach_ok: "kreach s \<Longrightarrow> kok s"
proof (induction rule: kreach.induct)
  case (k_boot s) then show ?case by (rule kok_boot)
next
  case (k_read s N ip tks key fd len r s')
  have h: "held s (\<lambda>_. 0)" "can_sleep s" using in_call_held [OF k_read.IH k_read.hyps(2)] by simp_all
  show ?case by (rule kok_sys_read) (rule h k_read.hyps)+
next
  case (k_write s N ip tks fd bs w s')
  have h: "held s (\<lambda>_. 0)" "can_sleep s" using in_call_held [OF k_write.IH k_write.hyps(2)] by simp_all
  show ?case by (rule kok_sys_write) (rule h k_write.hyps)+
next
  case (k_pipe_more s p n bs w s')
  have h: "held s (\<lambda>_. 0)" "can_sleep s" using in_call_held [OF k_pipe_more.IH k_pipe_more.hyps(2)] by simp_all
  show ?case by (rule kok_pipe_write) (rule h k_pipe_more.hyps)+
next
  case (k_open s a E N m path fl x s')
  have h: "held s (\<lambda>_. 0)" "can_sleep s" using in_call_held [OF k_open.IH k_open.hyps(2)] by simp_all
  show ?case by (rule held_openat [THEN held_kok]) (rule h k_open.hyps)+
next
  case (k_close s E fd x s')
  have h: "held s (\<lambda>_. 0)" "can_sleep s" using in_call_held [OF k_close.IH k_close.hyps(2)] by simp_all
  show ?case by (rule held_sys_close [THEN held_kok]) (rule h k_close.hyps)+
next
  case (k_dup2 s a E con old new x s')
  have h: "held s (\<lambda>_. 0)" "can_sleep s" using in_call_held [OF k_dup2.IH k_dup2.hyps(2)] by simp_all
  show ?case by (rule held_dup2(1) [THEN held_kok]) (rule h k_dup2.hyps)+
next
  case (k_dup3 s a E con old new x s')
  have h: "held s (\<lambda>_. 0)" "can_sleep s" using in_call_held [OF k_dup3.IH k_dup3.hyps(2)] by simp_all
  show ?case by (rule held_dup2(2) [THEN held_kok]) (rule h k_dup3.hyps)+
next
  case (k_dupfd s a con fd mn x s')
  have h: "held s (\<lambda>_. 0)" "can_sleep s" using in_call_held [OF k_dupfd.IH k_dupfd.hyps(2)] by simp_all
  show ?case by (rule held_dupfd [THEN held_kok]) (rule h k_dupfd.hyps)+
next
  case (k_pipe s p a b raw E y s')
  have h: "held s (\<lambda>_. 0)" "can_sleep s" using in_call_held [OF k_pipe.IH k_pipe.hyps(2)] by simp_all
  show ?case by (rule held_pipe_make [THEN held_kok]) (rule h k_pipe.hyps)+
next
  case (k_pty s p a b E raw3 y s')
  have h: "held s (\<lambda>_. 0)" "can_sleep s" using in_call_held [OF k_pty.IH k_pty.hyps(2)] by simp_all
  show ?case by (rule held_pty_make [THEN held_kok]) (rule h k_pty.hyps)+
next
  case (k_lseek s N fd off wh x s')
  have h: "held s (\<lambda>_. 0)" "can_sleep s" using in_call_held [OF k_lseek.IH k_lseek.hyps(2)] by simp_all
  show ?case by (rule held_lseek [THEN held_kok]) (rule h k_lseek.hyps)+
next
  case (k_socket s a E ty x s')
  have h: "held s (\<lambda>_. 0)" "can_sleep s" using in_call_held [OF k_socket.IH k_socket.hyps(2)] by simp_all
  show ?case by (rule held_sys_socket [THEN held_kok]) (rule h k_socket.hyps)+
next
  case (k_accept s a E ip start tks tks' fd x s')
  have h: "held s (\<lambda>_. 0)" "can_sleep s" using in_call_held [OF k_accept.IH k_accept.hyps(2)] by simp_all
  show ?case by (rule held_sys_accept [THEN held_kok]) (rule h k_accept.hyps)+
next
  case (k_bind s fd port x s')
  have h: "held s (\<lambda>_. 0)" "can_sleep s" using in_call_held [OF k_bind.IH k_bind.hyps(2)] by simp_all
  show ?case by (rule kok_bind) (rule h k_bind.hyps)+
next
  case (k_fork s kstack ret as tf x s')
  have h: "held s (\<lambda>_. 0)" "can_sleep s" using in_call_held [OF k_fork.IH k_fork.hyps(2)] by simp_all
  show ?case by (rule kok_fork) (rule h k_fork.hyps)+
next
  case (k_exit s E inq status st st' s')
  have h: "held s (\<lambda>_. 0)" "can_sleep s" using in_call_held [OF k_exit.IH k_exit.hyps(2)] by simp_all
  show ?case by (rule kok_exit) (rule h k_exit.hyps)+
next
  case (k_wait s wr sc)
  have h: "held s (\<lambda>_. 0)" "can_sleep s" using in_call_held [OF k_wait.IH k_wait.hyps(2)] by simp_all
  show ?case by (rule kok_wait) (rule h k_wait.hyps)+
next
  case (k_kill s pid sig x sc)
  then have "sc = snd (sched_kill pid sig (k_sched s))" by simp
  with k_kill show ?case using kok_quiet quiet_kill sched_ok_kill by (metis kok_def)
next
  case (k_setpgid s pid pg x sc)
  then have "sc = snd (sched_setpgid pid pg (k_sched s))" by simp
  with k_setpgid show ?case using kok_quiet quiet_setpgid sched_ok_setpgid by (metis kok_def)
next
  case (k_spawn s stack tramp entry utop as prio t sc) then show ?case using kok_spawn by blast
next
  case (k_tick s resched sc)
  then have "sc = snd (sched_tick (k_sched s))" by simp
  with k_tick show ?case using kok_quiet quiet_tick sched_ok_tick by (metis kok_def)
next
  case (k_yield s)
  then have "sched_ok (k_sched s)" by (simp add: kok_def)
  moreover have "sc_ring (k_sched s) \<noteq> []" using calculation ring_ok_ne by (auto simp: sched_ok_def)
  ultimately show ?case
    using k_yield kok_quiet [of s "yield (k_sched s)"] quiet_schedule schedule_ok(1) sched_ok_parked by (simp add: yield_def)
next
  case (k_resume s)
  then have ok: "sched_ok (k_sched s)" by (simp add: kok_def)
  moreover have "sc_ring (k_sched s) \<noteq> []" "t_state (current (k_sched s)) = THREAD_RUNNING"
    using ok ring_ok_ne by (auto simp: sched_ok_def)
  moreover have "sched_ok (block_resume (k_sched s))"
    unfolding block_resume_def by (rule sched_ok_upd [OF ok]) (simp add: calm_def)
  ultimately show ?case using k_resume kok_quiet [of s "block_resume (k_sched s)"] quiet_resume by blast
next
  case (k_wake s c)
  then show ?case using kok_quiet [of s "sched_wake c (k_sched s)"] steady_wake steady_quiet sched_ok_wake by (metis kok_def)
next
  case (k_sleep s n)
  then have h: "running (k_sched s)" "can_sleep s" "wake_ok s" using in_call_held by (auto simp: held_def)
  note r = runningD [OF h(1)]
  have sc: "sched_ok (sleep_ticks n (k_sched s))" using h sched_ok_sleep by (simp add: running_def can_sleep_def)
  show ?case
    by (rule kok_sched [OF k_sleep.IH sc])
      (use view_sleep(5,6) [of "k_sched s" n] r h(3) in \<open>auto simp: wake_ok_def\<close>)
next
  case (k_event s c to)
  then have h: "running (k_sched s)" "can_sleep s" using in_call_held by (auto simp: held_def)
  note r = runningD [OF h(1)]
  have sc: "sched_ok (sched_wait_event c to (k_sched s))" using h sched_ok_event by (simp add: running_def can_sleep_def)
  show ?case
    by (rule kok_sched [OF k_event.IH sc]) (use view_sleep(3,4) [of "k_sched s" c to] r k_event.hyps in auto)
qed

subsection \<open>What holds in every reachable state\<close>

text \<open>Thread \<open>t\<close> has a descriptor for the object \<open>x\<close>.\<close>

definition has_fd :: "('v, 's) kstate \<Rightarrow> kobj \<Rightarrow> thread \<Rightarrow> bool" where
  "has_fd s x t \<longleftrightarrow> (\<exists>f h. Some f \<in> set (t_fds t) \<and> k_files s f = Some h \<and> obj h = x)"

definition has_holder :: "('v, 's) kstate \<Rightarrow> kobj \<Rightarrow> bool" where
  "has_holder s x \<longleftrightarrow> (\<exists>t \<in> set (sc_ring (k_sched s)). has_fd s x t)"

lemma refs_ring: "refs f sc = (\<Sum>t\<leftarrow>sc_ring sc. count_list (t_fds t) (Some f))"
  by (simp add: refs_def profile_def image_mset.compositionality comp_def flip: sum_mset_sum_list)

lemma refs_pos: "refs f sc > 0 \<longleftrightarrow> (\<exists>t \<in> set (sc_ring sc). Some f \<in> set (t_fds t))"
proof -
  have "refs f sc = 0 \<longleftrightarrow> (\<forall>t \<in> set (sc_ring sc). Some f \<notin> set (t_fds t))"
    by (auto simp: refs_ring count_list_0_iff)
  then show ?thesis by auto
qed

lemma open_iff_holder:
  assumes "kinv (\<lambda>_. 0) s" "x \<noteq> Plain"
  shows "open_obj s x \<longleftrightarrow> has_holder s x"
proof
  assume "open_obj s x"
  with kinvD(5) [OF assms(1)] obtain f h where h: "k_files s f = Some h" "obj h = x" by blast
  with kinvD(3,4) [OF assms(1)] have "int (refs f (k_sched s)) > 0" by (metis add.right_neutral option.simps(5))
  then obtain t where "t \<in> set (sc_ring (k_sched s))" "Some f \<in> set (t_fds t)" using refs_pos by (metis of_nat_0_less_iff)
  with h show "has_holder s x" unfolding has_holder_def has_fd_def by blast
next
  assume "has_holder s x"
  then obtain f h where "k_files s f = Some h" "obj h = x" by (auto simp: has_holder_def has_fd_def)
  with kinvD(4) [OF assms(1)] assms(2) show "open_obj s x" by blast
qed

text \<open>
  C6. Reference counts are exact in every reachable state: the count of an open file is the number of
  descriptors for it over all processes, at least one, and no descriptor of any process is dangling.
  So a file is freed exactly when its last descriptor goes, by \<open>close\<close>, \<open>dup2\<close>, an exit or the undo of a
  failed call.
\<close>
theorem descriptors_exact:
  assumes "kreach s"
  shows "(case k_files s f of None \<Rightarrow> \<forall>t \<in> set (sc_ring (k_sched s)). Some f \<notin> set (t_fds t)
     | Some h \<Rightarrow> f_ref h > 0 \<and> f_ref h = int (\<Sum>t\<leftarrow>sc_ring (k_sched s). count_list (t_fds t) (Some f)))"
proof -
  have k: "kinv (\<lambda>_. 0) s" using kreach_ok [OF assms] by (simp add: kok_def)
  note c = kinvD(3) [OF k, of f]
  show ?thesis
  proof (cases "k_files s f")
    case None
    with c have "\<not> refs f (k_sched s) > 0" by simp
    with None show ?thesis by (simp add: refs_pos)
  next
    case (Some h)
    with c kinvD(4) [OF k Some] show ?thesis by (simp add: refs_ring)
  qed
qed

text \<open>
  C21. A read of an empty pipe is an end of file exactly when no process is left with a descriptor for
  its write end, and sleeps exactly when one is; a write to a pipe is refused exactly when no process
  is left with a descriptor for its read end.
\<close>
theorem pipe_ends_held:
  assumes "kreach s" "k_pipes s p = Some q" "bs \<noteq> []"
  shows "(p_count q = 0 \<longrightarrow> (fst (pipe_read q len) = Done [] \<longleftrightarrow> \<not> has_holder s (PipeW p)) \<and>
        (fst (pipe_read q len) = Sleep () \<longleftrightarrow> has_holder s (PipeW p))) \<and>
     (map_option fst (pipe_write_loop q 0 bs) = Some (Done (-1)) \<longleftrightarrow> \<not> has_holder s (PipeR p))"
proof -
  have k: "kinv (\<lambda>_. 0) s" using kreach_ok [OF assms(1)] by (simp add: kok_def)
  have wf: "pipe_wf q" using kinvD(1) [OF k] assms(2) by (auto simp: objs_ok_def)
  have w: "has_holder s (PipeW p) \<longleftrightarrow> p_writers q \<noteq> 0" and r: "has_holder s (PipeR p) \<longleftrightarrow> p_readers q \<noteq> 0"
    using open_iff_holder [OF k, of "PipeW p"] open_iff_holder [OF k, of "PipeR p"] assms(2) by auto
  have ok: "pipe_ok q" "p_readers q \<ge> 0" "p_writers q \<ge> 0" using wf by (auto simp: pipe_wf_def)
  have "map_option fst (pipe_write_loop q 0 bs) = Some (Done (-1)) \<longleftrightarrow> \<not> p_readers q \<noteq> 0"
  proof (cases "p_readers q = 0")
    case True
    then show ?thesis using assms(3) by (simp add: pipe_write_loop_broken)
  next
    case False
    then have "0 < p_readers q" using ok(2) by simp
    from pipe_write_loop_spec [OF ok(1) this, of 0 bs] False show ?thesis by simp
  qed
  then show ?thesis unfolding w r using ok(3) by (auto simp: pipe_read_def)
qed

text \<open>
  C13. No wake-up of a pipe is lost: in every reachable state a thread that sleeps on a pipe has a
  reason to. Either the pipe is empty and some process still has its write end, or it is full and some
  process still has its read end.
\<close>
theorem pipe_sleepers:
  assumes "kreach s" "k_pipes s p = Some q" "t \<in> set (sc_ring (k_sched s))"
    "t_state t = THREAD_BLOCKED" "t_wait_chan t = chan p"
  shows "p_count q = 0 \<and> has_holder s (PipeW p) \<or> p_count q = PIPE_SIZE \<and> has_holder s (PipeR p)"
proof -
  have k: "kinv (\<lambda>_. 0) s" "wake_ok s" using kreach_ok [OF assms(1)] by (simp_all add: kok_def)
  have "chan p \<in> waiters (k_sched s)" using assms(3-5) by (force simp: waiters_def asleep_def)
  then have "stuck q" using k(2) assms(2) by (auto simp: wake_ok_def)
  moreover have "has_holder s (PipeW p) \<longleftrightarrow> p_writers q \<noteq> 0" "has_holder s (PipeR p) \<longleftrightarrow> p_readers q \<noteq> 0"
    using open_iff_holder [OF k(1), of "PipeW p"] open_iff_holder [OF k(1), of "PipeR p"] assms(2) by auto
  ultimately show ?thesis by (auto simp: stuck_def)
qed

subsection \<open>poll\<close>

lemma poll_bits_in [simp]:
  "(poll_bits POLLIN (rd, wr, hup) AND POLLIN \<noteq> 0) = rd" "(poll_bits POLLOUT (rd, wr, hup) AND POLLOUT \<noteq> 0) = wr"
  by (simp_all add: poll_bits_def POLLIN_def POLLOUT_def POLLHUP_def)

lemma kinv_fd_file:
  assumes "kinv (\<lambda>_. 0) s" "fd_file fd s = Some f" "sc_ring (k_sched s) \<noteq> []" "length (fds s) = 16"
  obtains h where "k_files s f = Some h"
proof -
  note fd = fd_fileD [OF assms(2)]
  have "current (k_sched s) \<in> set (sc_ring (k_sched s))" using assms(3) by (simp add: current_def)
  moreover have "Some f \<in> set (t_fds (current (k_sched s)))"
    using fd assms(4) unfolding fds_def by (metis nth_mem)
  ultimately have "refs f (k_sched s) > 0" using refs_pos by blast
  with kinvD(3) [OF assms(1), of f] show ?thesis by (cases "k_files s f") (auto intro: that)
qed

lemma kok_fds: assumes "kok s" shows "sc_ring (k_sched s) \<noteq> []" "length (fds s) = 16"
proof -
  have k: "tables_ok (k_sched s)" using kinvD(2) assms by (auto simp: kok_def)
  then show ne: "sc_ring (k_sched s) \<noteq> []" by (simp add: tables_ok_def)
  from k ne show "length (fds s) = 16"
    by (cases "sc_ring (k_sched s)") (auto simp: tables_ok_def profile_def fds_def current_def)
qed

text \<open>The scan never meets a freed object.\<close>

lemma file_ready_some:
  assumes "kinv P s" "k_files s f = Some h"
  shows "\<exists>r. file_ready s h = Some r"
  using kinvD(4) [OF assms] by (auto simp: file_ready_def single_def obj_def split: option.splits if_splits)

lemma poll_one_some: assumes "kok s" shows "\<exists>q. poll_one s p = Some q \<and> pf_fd q = pf_fd p \<and> pf_events q = pf_events p"
proof (cases "pf_fd p < 0 \<or> fd_file (nat (pf_fd p)) s = None")
  case True
  then show ?thesis by (auto simp: poll_one_def)
next
  case False
  then obtain f where f: "\<not> pf_fd p < 0" "fd_file (nat (pf_fd p)) s = Some f" by auto
  have k: "kinv (\<lambda>_. 0) s" using assms by (simp add: kok_def)
  obtain h where h: "k_files s f = Some h" using kinv_fd_file [OF k f(2) kok_fds [OF assms]] .
  from file_ready_some [OF k h] f h show ?thesis by (auto simp: poll_one_def)
qed

text \<open>
  C28. A scan of \<open>poll\<close> in a reachable state touches no freed object: it returns the same descriptors
  and requests, counts the entries it reports, and its count is their number.
\<close>
theorem poll_scan_safe:
  assumes "kreach s"
  shows "\<exists>qs. poll_scan s ps = Some (length (filter (\<lambda>q. pf_revents q \<noteq> 0) qs), qs) \<and>
    map pf_fd qs = map pf_fd ps \<and> map pf_events qs = map pf_events ps \<and>
    (\<forall>q \<in> set qs. pf_fd q < 0 \<longrightarrow> pf_revents q = 0)"
proof (induction ps)
  case (Cons p ps)
  obtain q where q: "poll_one s p = Some q" "pf_fd q = pf_fd p" "pf_events q = pf_events p"
    using poll_one_some [OF kreach_ok [OF assms]] by blast
  have "pf_fd q < 0 \<longrightarrow> pf_revents q = 0" using q by (auto simp: poll_one_def)
  with Cons q show ?case by auto
qed simp


subsection \<open>A process that reads its own empty pipe\<close>

definition demo_nodes :: "(unit, unit) vnodes" where
  "demo_nodes = \<lparr>vn_type = \<lambda>_ _. VN_FILE, vn_size = \<lambda>_ _. 0, vn_ops = \<lambda>_. \<lparr>vo_read = None, vo_write = None, vo_lookup = None,
     vo_create = None, vo_readdir = None, vo_truncate = None, vo_unlink = None, vo_readlink = None, vo_symlink = None,
     vo_rename = None, vo_link = None\<rparr>\<rparr>"

definition demo_boot :: "(unit, unit) kstate" where
  "demo_boot = \<lparr>k_files = \<lambda>_. None, k_pipes = \<lambda>_. None, k_ptys = \<lambda>_. None,
     k_socks = \<lparr>ss_socks = replicate NSOCK \<lparr>so_used = False, so_type = SOCK_STREAM, so_lport = 0, so_queue = [], so_qcount = 0, so_tcp = None\<rparr>,
       ss_next_eph = 0, ss_tcp = \<lparr>ts_conns = [], ts_next_lport = 0, ts_out = []\<rparr>, ss_sent = []\<rparr>, k_fs = (),
     k_sched = sched_init \<lparr>sc_ring = [], sc_next_id = 0, sc_foreground = None, sc_slice = 0, sc_jiffies = 7, sc_started = False\<rparr>,
     k_uart = []\<rparr>"

definition demo_proc :: "(unit, unit) kstate" where
  "demo_proc = demo_boot\<lparr>k_sched := yield (snd (thread_create_image 8192 1 2 3 (Some 1) 5 (k_sched demo_boot)))\<rparr>"

definition demo_env :: close_env where "demo_env = (\<lambda>_. (0, 0, []))"

definition demo_pipes :: "(unit, unit) kstate" where
  "demo_pipes = snd (the (pipe_make demo_env 4096 (replicate PIPE_SIZE 0) 100 200 demo_proc))"

definition demo_asleep :: "(unit, unit) kstate" where
  "demo_asleep = snd (the (sys_read demo_nodes 0 [] None 3 1 demo_pipes))"

lemma demo_proc_reach: "kreach demo_proc"
proof -
  have "booted demo_boot" unfolding booted_def by (auto simp: demo_boot_def)
  from k_yield [OF k_spawn [OF k_boot [OF this] prod.collapse [symmetric]]] show ?thesis by (simp add: demo_proc_def)
qed

lemma demo_proc_view:
  "t_id (current (k_sched demo_proc)) = 1" "fds demo_proc = replicate 16 None" "t_wait_chan (current (k_sched demo_proc)) = 0"
  "k_pipes demo_proc = (\<lambda>_. None)" "k_files demo_proc = (\<lambda>_. None)" "k_ptys demo_proc = (\<lambda>_. None)"
  by (simp_all add: demo_proc_def demo_boot_def thread_create_image_def Let_def fresh_thread_def sig_init_def link_tail_def
      sched_init_def boot_thread_def yield_def schedule_def current_def upd_current_def set_state_def fds_def)

lemma demo_in_call: "in_call demo_proc" by (simp add: in_call_def can_sleep_def demo_proc_view)

lemma demo_ring: "\<exists>t b. sc_ring (k_sched demo_proc) = [t, b] \<and> t_fds t = replicate 16 None \<and> t_id t = 1 \<and>
    t_wait_chan t = 0 \<and> t_state b = THREAD_RUNNABLE"
  by (simp add: demo_proc_def demo_boot_def thread_create_image_def Let_def fresh_thread_def sig_init_def link_tail_def
      sched_init_def boot_thread_def yield_def schedule_def current_def upd_current_def set_state_def)

lemma demo_pipes_step: "\<exists>y. pipe_make demo_env 4096 (replicate PIPE_SIZE 0) 100 200 demo_proc = Some (y, demo_pipes)"
  and demo_pipes_view: "k_pipes demo_pipes 4096 = Some (pipe_alloc (replicate PIPE_SIZE 0))"
    "k_files demo_pipes 100 = Some (new_file None (Some 4096) None None False False)"
    "fd_file 3 demo_pipes = Some 100" "in_call demo_pipes"
    "\<exists>t b. sc_ring (k_sched demo_pipes) = [t, b] \<and> t_state b = THREAD_RUNNABLE"
proof -
  obtain t b where r: "sc_ring (k_sched demo_proc) = [t, b]" "t_fds t = replicate 16 None" "t_id t = 1" "t_wait_chan t = 0"
      "t_state b = THREAD_RUNNABLE"
    using demo_ring by blast
  define s0 where "s0 = put_file 200 (new_file None (Some 4096) None None False True)
    (put_file 100 (new_file None (Some 4096) None None False False)
      (demo_proc\<lparr>k_pipes := (k_pipes demo_proc)(4096 \<mapsto> pipe_alloc (replicate PIPE_SIZE 0))\<rparr>))"
  have r0: "sc_ring (k_sched s0) = [t, b]" by (simp add: s0_def r)
  define s1 where "s1 = set_fd 3 (Some 100) s0"
  define s2 where "s2 = set_fd 4 (Some 200) s1"
  have f0: "fds s0 = replicate 16 None" by (simp add: fds_def current_def r0 r(2))
  have f1: "fds s1 = (replicate 16 None)[3 := Some 100]" by (simp add: s1_def set_fd_def fds_def current_def upd_current_def r0 r(2))
  have f2: "fds s2 = (replicate 16 None)[3 := Some 100, 4 := Some 200]"
    by (simp add: s2_def s1_def set_fd_def fds_def current_def upd_current_def r0 r(2))
  have u: "[3..<16] = 3 # 4 # [5..<16]" by (simp add: upt_rec)
  have m: "pipe_make demo_env 4096 (replicate PIPE_SIZE 0) 100 200 demo_proc = Some (Inr (3, 4), s2)"
    unfolding pipe_make_def Let_def s0_def [symmetric] install2_def free_fd_def f0 u
    by (simp add: s1_def [symmetric] f1 s2_def)
  then have d: "demo_pipes = s2" by (simp add: demo_pipes_def)
  show "\<exists>y. pipe_make demo_env 4096 (replicate PIPE_SIZE 0) 100 200 demo_proc = Some (y, demo_pipes)" using m d by blast
  show "k_pipes demo_pipes 4096 = Some (pipe_alloc (replicate PIPE_SIZE 0))"
    "k_files demo_pipes 100 = Some (new_file None (Some 4096) None None False False)"
    by (simp_all add: d s2_def s1_def s0_def set_fd_def put_file_def)
  show "fd_file 3 demo_pipes = Some 100" by (simp add: fd_file_def d f2)
  show "in_call demo_pipes"
    by (simp add: in_call_def can_sleep_def d s2_def s1_def set_fd_def upd_current_def current_def r0 r)
  show "\<exists>t b. sc_ring (k_sched demo_pipes) = [t, b] \<and> t_state b = THREAD_RUNNABLE"
    by (simp add: d s2_def s1_def set_fd_def upd_current_def r0 r)
qed

lemma demo_pipes_reach: "kreach demo_pipes"
proof -
  obtain y where "pipe_make demo_env 4096 (replicate PIPE_SIZE 0) 100 200 demo_proc = Some (y, demo_pipes)" using demo_pipes_step by blast
  then show ?thesis
    by (intro k_pipe [OF demo_proc_reach demo_in_call, of 4096 100 200 "replicate PIPE_SIZE 0" demo_env y])
      (simp_all add: fresh_pipe_def fresh_file_def demo_proc_view chan_def)
qed

lemma demo_asleep_eq: "sys_read demo_nodes 0 [] None 3 1 demo_pipes = Some (Sleep (), demo_asleep)"
proof -
  have "sys_read demo_nodes 0 [] None 3 1 demo_pipes =
      Some (Sleep (), demo_pipes\<lparr>k_sched := sched_block (chan 4096) (k_sched demo_pipes)\<rparr>)"
    by (simp add: sys_read_def demo_pipes_view new_file_def vfs_read_def kpipe_read_def pipe_read_def pipe_alloc_def)
  then show ?thesis by (simp add: demo_asleep_def)
qed

lemma demo_asleep_reach: "kreach demo_asleep"
  by (rule k_read [OF demo_pipes_reach demo_pipes_view(4) demo_asleep_eq])

theorem descriptors_exact_witness:
  "\<exists>h. k_files demo_pipes 100 = Some h \<and> f_ref h = int (\<Sum>t\<leftarrow>sc_ring (k_sched demo_pipes). count_list (t_fds t) (Some 100))"
  using descriptors_exact [OF demo_pipes_reach, of 100] by (simp add: demo_pipes_view)

theorem pipe_ends_held_witness: "has_holder demo_pipes (PipeW 4096)"
proof -
  have "pipe_ok (pipe_alloc (replicate PIPE_SIZE 0))" by (simp add: pipe_ok_def pipe_alloc_def)
  then show ?thesis
    using pipe_ends_held [OF demo_pipes_reach demo_pipes_view(1), of "[0]" 1] by (simp add: pipe_read_def pipe_alloc_def)
qed

theorem pipe_sleepers_witness:
  "\<exists>t \<in> set (sc_ring (k_sched demo_asleep)). t_state t = THREAD_BLOCKED \<and> t_wait_chan t = chan 4096 \<and>
     has_holder demo_asleep (PipeW 4096)"
proof -
  obtain t b where r: "sc_ring (k_sched demo_pipes) = [t, b]" "t_state b = THREAD_RUNNABLE" using demo_pipes_view(5) by blast
  have d: "demo_asleep = demo_pipes\<lparr>k_sched := sched_block (chan 4096) (k_sched demo_pipes)\<rparr>"
    using demo_asleep_eq
    by (simp add: sys_read_def demo_pipes_view new_file_def vfs_read_def kpipe_read_def pipe_read_def pipe_alloc_def)
  let ?t = "t\<lparr>t_wait_chan := chan 4096, t_state := THREAD_BLOCKED\<rparr>"
  have t: "?t \<in> set (sc_ring (k_sched demo_asleep))"
    using r by (simp add: d sched_block_def schedule_def upd_current_def current_def set_state_def)
  have q: "k_pipes demo_asleep 4096 = Some (pipe_alloc (replicate PIPE_SIZE 0))" by (simp add: d demo_pipes_view)
  have "has_holder demo_asleep (PipeW 4096)"
    using pipe_sleepers [OF demo_asleep_reach q t] by (simp add: pipe_alloc_def PIPE_SIZE_def)
  with t show ?thesis by force
qed

theorem poll_scan_safe_witness:
  "\<exists>qs. poll_scan demo_pipes [\<lparr>pf_fd = 3, pf_events = POLLIN, pf_revents = 0\<rparr>] =
     Some (length (filter (\<lambda>q. pf_revents q \<noteq> 0) qs), qs) \<and> map pf_fd qs = [3]"
  using poll_scan_safe [OF demo_pipes_reach, of "[\<lparr>pf_fd = 3, pf_events = POLLIN, pf_revents = 0\<rparr>]"] by auto


end
