(* ===== verification/Path_Props.thy ===== *)
theory Path_Props
  imports Files
begin

text \<open>
  The paths of the system calls: \<open>resolve_path\<close> of \<open>src/syscall.c\<close>, which edits characters in a
  buffer, against a reference that works on the list of names.
\<close>

subsection \<open>Paths as lists of names\<close>

fun split_slash :: "path \<Rightarrow> path list" where
  "split_slash [] = [[]]"
| "split_slash (c # cs) = (if c = slash then [] # split_slash cs
     else case split_slash cs of [] \<Rightarrow> [[c]] | w # ws \<Rightarrow> (c # w) # ws)"

definition path_names :: "path \<Rightarrow> path list" where
  "path_names p = filter (\<lambda>c. c \<noteq> []) (split_slash p)"

text \<open>One name at a time: \<open>.\<close> stays, \<open>..\<close> goes up and stays at the root.\<close>

definition walk_name :: "path list \<Rightarrow> path \<Rightarrow> path list" where
  "walk_name st c = (if c = [46] then st else if c = [46, 46] then butlast st else st @ [c])"

definition render :: "path list \<Rightarrow> path" where
  "render st = concat (map ((#) slash) st)"

definition plain_name :: "path \<Rightarrow> bool" where
  "plain_name c \<longleftrightarrow> c \<noteq> [] \<and> slash \<notin> set c"

lemma split_slash_ne [simp]: "split_slash p \<noteq> []"
  by (induction p) (auto split: list.split)

lemma split_slash_word: "slash \<notin> set w \<Longrightarrow> split_slash w = [w]"
  by (induction w) auto

lemma split_slash_append: "slash \<notin> set w \<Longrightarrow> split_slash (w @ slash # r) = w # split_slash r"
  by (induction w) auto

lemma split_slash_words: "\<forall>c \<in> set (split_slash p). slash \<notin> set c"
proof (induction p)
  case (Cons c cs)
  then show ?case by (cases "split_slash cs") auto
qed simp

lemma names_plain: "c \<in> set (path_names p) \<Longrightarrow> plain_name c"
  using split_slash_words by (auto simp: path_names_def plain_name_def)

lemma names_slash [simp]: "path_names [] = []" "path_names (slash # p) = path_names p"
  by (simp_all add: path_names_def)

lemma names_drop: "path_names (dropWhile (\<lambda>c. c = slash) p) = path_names p"
  by (induction p) auto

lemma names_split: "slash \<notin> set w \<Longrightarrow> w \<noteq> [] \<Longrightarrow> r = [] \<or> hd r = slash \<Longrightarrow> path_names (w @ r) = w # path_names r"
  by (cases r) (auto simp: path_names_def split_slash_word split_slash_append)

lemma names_append: "path_names (p @ slash # q) = path_names p @ path_names q"
proof -
  have "split_slash (p @ slash # q) = split_slash p @ split_slash q"
  proof (induction p)
    case (Cons c cs)
    then show ?case by (cases "split_slash cs") auto
  qed simp
  then show ?thesis by (simp add: path_names_def)
qed

lemma names_end: "path_names (p @ [slash]) = path_names p"
  using names_append [of p "[]"] by simp

subsection \<open>The buffer\<close>

lemma render_simps [simp]: "render [] = []" "render (st @ [c]) = render st @ slash # c"
  by (simp_all add: render_def)

lemma render_eq_Nil [simp]: "render st = [] \<longleftrightarrow> st = []"
  by (cases st) (simp_all add: render_def)

lemma pop_render: "slash \<notin> set c \<Longrightarrow> pop_component (render st @ slash # c) = render st"
proof -
  assume "slash \<notin> set c"
  then have "dropWhile (\<lambda>c. c \<noteq> slash) (rev c @ slash # rev (render st)) = slash # rev (render st)"
    by (subst dropWhile_append2) auto
  then show ?thesis by (simp add: pop_component_def)
qed

lemma add_render:
  assumes "\<forall>c \<in> set st. slash \<notin> set c" "length (render st) + 1 + length c \<le> sz - 1"
  shows "add_component sz c (render st) = render (walk_name st c)"
proof (cases "c = [46, 46]")
  case True
  show ?thesis
  proof (cases st rule: rev_cases)
    case Nil
    then show ?thesis by (simp add: add_component_def walk_name_def True pop_component_def)
  next
    case (snoc us u)
    with assms(1) show ?thesis using pop_render [of u us] by (simp add: add_component_def walk_name_def True)
  qed
qed (use assms(2) in \<open>auto simp: add_component_def walk_name_def\<close>)

lemma walk_plain: "\<forall>x \<in> set st. plain_name x \<and> x \<noteq> [46] \<and> x \<noteq> [46, 46] \<Longrightarrow> plain_name c \<Longrightarrow>
    \<forall>x \<in> set (walk_name st c). plain_name x \<and> x \<noteq> [46] \<and> x \<noteq> [46, 46]"
  by (auto simp: walk_name_def dest: in_set_butlastD)

lemma length_walk: "length (render (walk_name st c)) \<le> length (render st) + 1 + length c"
proof (cases "c = [46, 46]")
  case True
  then show ?thesis by (cases st rule: rev_cases) (simp_all add: walk_name_def)
qed (simp add: walk_name_def)

lemma canon_names:
  assumes "\<forall>c \<in> set st. plain_name c \<and> c \<noteq> [46] \<and> c \<noteq> [46, 46]" "tmp = [] \<or> hd tmp = slash"
    "length (render st) + length tmp \<le> sz - 1"
  shows "canon sz tmp (render st) = render (foldl walk_name st (path_names tmp))"
  using assms
proof (induction "length tmp" arbitrary: tmp st rule: less_induct)
  case less
  define t1 where "t1 = dropWhile (\<lambda>c. c = slash) tmp"
  have n1: "path_names tmp = path_names t1" by (simp add: t1_def names_drop)
  show ?case
  proof (cases "t1 = []")
    case True
    with n1 show ?thesis by (subst canon.simps) (simp add: t1_def [symmetric])
  next
    case False
    define w where "w = takeWhile (\<lambda>c. c \<noteq> slash) t1"
    define r where "r = dropWhile (\<lambda>c. c \<noteq> slash) t1"
    have wr: "t1 = w @ r" by (simp add: w_def r_def)
    have ns: "slash \<notin> set w" unfolding w_def by (metis (mono_tags) set_takeWhileD)
    have hdt: "hd t1 \<noteq> slash" using hd_dropWhile [of "\<lambda>c. c = slash" tmp] False by (simp add: t1_def)
    have wn: "w \<noteq> []" using False hdt by (cases t1) (auto simp: w_def)
    have rs: "r = [] \<or> hd r = slash" using hd_dropWhile [of "\<lambda>c. c \<noteq> slash" t1] by (auto simp: r_def)
    have tn: "tmp \<noteq> []" using False by (auto simp: t1_def)
    then obtain q where "tmp = slash # q" using less.prems(2) by (cases tmp) auto
    then have "length t1 < length tmp" using length_dropWhile_le [of "\<lambda>c. c = slash" q] by (simp add: t1_def)
    then have len: "1 + length w + length r \<le> length tmp" by (simp add: wr)
    have "canon sz tmp (render st) = canon sz r (add_component sz w (render st))"
      by (subst canon.simps) (simp add: t1_def [symmetric] w_def [symmetric] r_def [symmetric] False Let_def)
    also have "add_component sz w (render st) = render (walk_name st w)"
      by (rule add_render) (use less.prems len in \<open>auto simp: plain_name_def\<close>)
    also have "canon sz r \<dots> = render (foldl walk_name (walk_name st w) (path_names r))"
    proof (rule less.hyps)
      show "length r < length tmp" using len by simp
      show "\<forall>c \<in> set (walk_name st w). plain_name c \<and> c \<noteq> [46] \<and> c \<noteq> [46, 46]"
        by (rule walk_plain [OF less.prems(1)]) (use ns wn in \<open>simp add: plain_name_def\<close>)
      show "length (render (walk_name st w)) + length r \<le> sz - 1"
        using length_walk [of st w] less.prems(3) len by simp
    qed (rule rs)
    also have "foldl walk_name (walk_name st w) (path_names r) = foldl walk_name st (path_names tmp)"
      by (simp add: n1 wr names_split [OF ns wn rs])
    finally show ?thesis .
  qed
qed

lemma fold_plain:
  "\<forall>x \<in> set st. plain_name x \<and> x \<noteq> [46] \<and> x \<noteq> [46, 46] \<Longrightarrow> \<forall>c \<in> set cs. plain_name c \<Longrightarrow>
    \<forall>x \<in> set (foldl walk_name st cs). plain_name x \<and> x \<noteq> [46] \<and> x \<noteq> [46, 46]"
proof (induction cs arbitrary: st)
  case (Cons c cs)
  have "plain_name c" "\<forall>c \<in> set cs. plain_name c" using Cons.prems(2) by simp_all
  from Cons.IH [OF walk_plain [OF Cons.prems(1) this(1)] this(2)] show ?case by simp
qed simp

lemma joined_names:
  assumes "length cwd + length p + 1 < 512" "cwd = [] \<or> hd cwd = slash"
  shows "path_names (joined_path cwd p) = (if p \<noteq> [] \<and> hd p = slash then [] else path_names cwd) @ path_names p"
    "joined_path cwd p = [] \<or> hd (joined_path cwd p) = slash" "length (joined_path cwd p) \<le> length cwd + length p + 1"
proof -
  have t: "take 511 xs = xs" if "length xs < 512" for xs :: path using that by simp
  have abs: "joined_path cwd p = (if p \<noteq> [] \<and> hd p = slash then p
      else if cwd = [] \<or> last cwd \<noteq> slash then cwd @ slash # p else cwd @ p)"
    using assms(1) by (auto simp: joined_path_def Let_def t)
  have "path_names (cwd @ p) = path_names cwd @ path_names p" if "cwd \<noteq> []" "last cwd = slash"
  proof -
    from that obtain u where "cwd = u @ [slash]" by (metis append_butlast_last_id)
    then show ?thesis by (simp add: names_append names_end)
  qed
  then show "path_names (joined_path cwd p) = (if p \<noteq> [] \<and> hd p = slash then [] else path_names cwd) @ path_names p"
    by (simp add: abs names_append)
  show "joined_path cwd p = [] \<or> hd (joined_path cwd p) = slash" unfolding abs using assms(2) by (cases cwd) auto
  show "length (joined_path cwd p) \<le> length cwd + length p + 1" by (simp add: abs)
qed

text \<open>
  C20. \<open>resolve_path\<close> is path resolution on names: for a working directory that is absolute and a path
  that fits the buffers, the result is the names of the working directory (unless the path is absolute)
  followed by those of the path, each \<open>.\<close> dropped and each \<open>..\<close> taking back the name before it, never
  above the root; it starts with a slash and has no empty, \<open>.\<close> or \<open>..\<close> name left.
\<close>
theorem resolve_path_canonical:
  assumes "cwd = [] \<or> hd cwd = slash" "length cwd + length p + 1 < sz" "sz \<le> 512"
  shows "\<exists>st. resolve_path cwd p sz = (if st = [] then [slash] else concat (map ((#) slash) st)) \<and>
    st = foldl walk_name [] ((if p \<noteq> [] \<and> hd p = slash then [] else path_names cwd) @ path_names p) \<and>
    (\<forall>c \<in> set st. c \<noteq> [] \<and> slash \<notin> set c \<and> c \<noteq> [46] \<and> c \<noteq> [46, 46])"
proof -
  have l: "length cwd + length p + 1 < 512" using assms by simp
  note j = joined_names [OF l assms(1)]
  define st where "st = foldl walk_name [] (path_names (joined_path cwd p))"
  have "canon sz (joined_path cwd p) (render []) = render st"
    unfolding st_def
  proof (rule canon_names)
    show "joined_path cwd p = [] \<or> hd (joined_path cwd p) = slash" by (rule j(2))
    show "length (render []) + length (joined_path cwd p) \<le> sz - 1" using j(3) assms(2) by (simp del: length_greater_0_conv)
  qed simp
  then have "resolve_path cwd p sz = (if st = [] then [slash] else concat (map ((#) slash) st))"
    by (simp add: resolve_path_def Let_def render_def [of st, symmetric])
  moreover have "\<forall>c \<in> set st. plain_name c \<and> c \<noteq> [46] \<and> c \<noteq> [46, 46]"
    unfolding st_def by (rule fold_plain) (auto dest: names_plain)
  then have "\<forall>c \<in> set st. c \<noteq> [] \<and> slash \<notin> set c \<and> c \<noteq> [46] \<and> c \<noteq> [46, 46]" unfolding plain_name_def by blast
  ultimately show ?thesis unfolding st_def j(1) [symmetric] by blast
qed

text \<open>From \<open>/a\<close>, the path \<open>b/../c\<close> is \<open>/a/c\<close>.\<close>

theorem resolve_path_canonical_witness: "resolve_path [47, 97] [98, 47, 46, 46, 47, 99] 256 = [47, 97, 47, 99]"
  using resolve_path_canonical [of "[47, 97]" "[98, 47, 46, 46, 47, 99]" 256]
  by (auto simp: path_names_def walk_name_def split: if_splits)

end
