(* ===== verification/Proc.thy ===== *)
theory Proc
  imports Files Vm
begin

text \<open>
  Programs: \<open>src/proc.c\<close>. A program is read through the file layer, its image becomes an address
  space, and \<open>proc_setup_argv\<close> writes the arguments on the top page of its stack in the layout of the
  Linux ABI. The state is that of the files and that of memory. \<open>None\<close> is a write outside the page
  the code has translated (it does not check), a use of a freed object, or a read of a program that
  sleeps, which no file system does.
\<close>

subsection \<open>The initial stack\<close>

definition ARGV_MAX :: nat where "ARGV_MAX = 32"
definition AT_NULL :: u64 where "AT_NULL = 0"
definition AT_PAGESZ :: u64 where "AT_PAGESZ = 6"
definition AT_RANDOM :: u64 where "AT_RANDOM = 25"

text \<open>The top page of the stack; its bytes are a function of the offset.\<close>

definition stack_page :: u64 where "stack_page = USER_STACK_TOP - 4096"

definition put_byte :: "u64 \<Rightarrow> u8 \<Rightarrow> (nat \<Rightarrow> u8) \<Rightarrow> (nat \<Rightarrow> u8) option" where
  "put_byte v b pg = (let i = unat (v - stack_page) in if i < 4096 then Some (pg(i := b)) else None)"

primrec put_bytes :: "u64 \<Rightarrow> u8 list \<Rightarrow> (nat \<Rightarrow> u8) \<Rightarrow> (nat \<Rightarrow> u8) option" where
  "put_bytes v [] pg = Some pg"
| "put_bytes v (b # bs) pg = do { pg \<leftarrow> put_byte v b pg; put_bytes (v + 1) bs pg }"

definition word_bytes :: "u64 \<Rightarrow> u8 list" where
  "word_bytes x = map (\<lambda>b. ucast (drop_bit (8 * b) x)) [0..<8]"

primrec put64s :: "u64 \<Rightarrow> u64 list \<Rightarrow> (nat \<Rightarrow> u8) \<Rightarrow> (nat \<Rightarrow> u8) option" where
  "put64s v [] pg = Some pg"
| "put64s v (x # xs) pg = do { pg \<leftarrow> put_bytes v (word_bytes x) pg; put64s (v + 8) xs pg }"

text \<open>The strings, the last one first, each with its terminator; the result has their addresses.\<close>

primrec put_strings :: "u8 list list \<Rightarrow> u64 \<Rightarrow> (nat \<Rightarrow> u8) \<Rightarrow> (u64 list \<times> u64 \<times> (nat \<Rightarrow> u8)) option" where
  "put_strings [] sp pg = Some ([], sp, pg)"
| "put_strings (s # ss) sp pg = do {
     (us, sp, pg) \<leftarrow> put_strings ss sp pg;
     let sp = sp - of_nat (length s + 1);
     pg \<leftarrow> put_bytes sp (s @ [0]) pg;
     Some (sp # us, sp, pg) }"

primrec rand_bytes :: "nat \<Rightarrow> u64 \<Rightarrow> u8 list \<times> u64" where
  "rand_bytes 0 seed = ([], seed)"
| "rand_bytes (Suc n) seed =
     (let seed = seed * 6364136223846793005 + 1 in
      case rand_bytes n seed of (bs, seed') \<Rightarrow> (ucast (drop_bit 56 seed) # bs, seed'))"

definition stack_words :: "nat \<Rightarrow> u64 list \<Rightarrow> u64 \<Rightarrow> u64 list" where
  "stack_words argc us rnd = [of_nat argc] @ us @ [0, 0, AT_PAGESZ, 4096, AT_RANDOM, rnd, AT_NULL, 0]"

definition setup_page :: "u64 \<Rightarrow> u8 list list \<Rightarrow> (nat \<Rightarrow> u8) \<Rightarrow> (nat \<times> u64 \<times> u64 \<times> u64 \<times> (nat \<Rightarrow> u8)) option" where
  "setup_page seed argv pg = do {
     let args = take ARGV_MAX argv;
     let argc = length args;
     (us, sp, pg) \<leftarrow> put_strings args USER_STACK_TOP pg;
     let rnd = sp - 16;
     let (bs, seed) = rand_bytes 16 seed;
     pg \<leftarrow> put_bytes rnd bs pg;
     let sp = (rnd - of_nat ((1 + (argc + 1) + 1 + 6) * 8)) AND NOT 15;
     pg \<leftarrow> put64s sp (stack_words argc us rnd) pg;
     Some (argc, sp + 8, sp, seed, pg) }"

text \<open>The results are argc, the address of argv, the stack pointer and the next seed.\<close>

definition proc_setup_argv :: "u64 \<Rightarrow> u64 \<Rightarrow> u8 list list \<Rightarrow> 'a vm_scheme \<Rightarrow> (nat \<times> u64 \<times> u64 \<times> u64 \<times> 'a vm_scheme) option" where
  "proc_setup_argv seed a argv v = do {
     let page = as_translate a stack_page v;
     (argc, av, sp, seed, pg) \<leftarrow> setup_page seed argv (page_byte v page);
     Some (argc, av, sp, seed, fill_page page pg v) }"

subsection \<open>Loading a program\<close>

text \<open>The common start of \<open>proc_spawn\<close> and \<open>proc_exec\<close>; \<open>a\<close> is the address of the file.\<close>

definition read_program :: "close_env \<Rightarrow> ('v, 's) vnodes \<Rightarrow> 'v vfs \<Rightarrow> nat \<Rightarrow> path \<Rightarrow> ('v, 's) kstate \<Rightarrow> (u8 list option \<times> ('v, 's) kstate) option" where
  "read_program E N m a path s = do {
     (f, s) \<leftarrow> vfs_open N m a path s;
     (case f of None \<Rightarrow> Some (None, s)
      | Some f \<Rightarrow> do {
          h \<leftarrow> k_files s f;
          vn \<leftarrow> f_vnode h;
          (r, s) \<leftarrow> vfs_read N f (vn_size N (k_fs s) vn) (put_file f (h\<lparr>f_off := 0\<rparr>) s);
          s \<leftarrow> vfs_close E f s;
          (case r of Sleep _ \<Rightarrow> None | Done (n, bs) \<Rightarrow> Some (if n \<le> 0 then None else Some bs, s)) }) }"

text \<open>The image as the loader sees it: the bytes read, and \<open>beyond\<close> them whatever memory holds.\<close>

definition image_of :: "(u64 \<Rightarrow> u8) \<Rightarrow> u8 list \<Rightarrow> u64 \<Rightarrow> u8" where
  "image_of beyond bs i = (if unat i < length bs then bs ! unat i else beyond i)"

definition proc_spawn :: "close_env \<Rightarrow> ('v, 's) vnodes \<Rightarrow> 'v vfs \<Rightarrow> nat \<Rightarrow> (u64 \<Rightarrow> u8) \<Rightarrow> u64 \<Rightarrow> u64 \<Rightarrow> path \<Rightarrow> int \<Rightarrow>
    ('v, 's) kstate \<Rightarrow> 'a vm_scheme \<Rightarrow> (thread option \<times> ('v, 's) kstate \<times> 'a vm_scheme) option" where
  "proc_spawn E N m fa beyond stack tramp path prio s v = do {
     (img, s) \<leftarrow> read_program E N m fa path s;
     (case img of None \<Rightarrow> Some (None, s, v)
      | Some bs \<Rightarrow> do {
          (a, entry, v) \<leftarrow> as_create_elf (image_of beyond bs) (of_nat (length bs)) v;
          let (t, sc) = thread_create_image stack tramp (case entry of None \<Rightarrow> 0 | Some e \<Rightarrow> e) USER_STACK_TOP
            (if entry = None then None else Some (unat a)) prio (k_sched s);
          Some (Some t, s\<lparr>k_sched := sc\<rparr>, v) }) }"

text \<open>A result of -1 leaves the caller as it was; otherwise it is argc and the frame starts the program.\<close>

definition proc_exec :: "close_env \<Rightarrow> ('v, 's) vnodes \<Rightarrow> 'v vfs \<Rightarrow> nat \<Rightarrow> (u64 \<Rightarrow> u8) \<Rightarrow> u64 \<Rightarrow> trapframe \<Rightarrow> path \<Rightarrow> u8 list list \<Rightarrow>
    ('v, 's) kstate \<Rightarrow> 'a vm_scheme \<Rightarrow> (int \<times> trapframe \<times> u64 \<times> ('v, 's) kstate \<times> 'a vm_scheme) option" where
  "proc_exec E N m fa beyond seed tf path argv s v = do {
     (img, s) \<leftarrow> read_program E N m fa path s;
     (case img of None \<Rightarrow> Some (-1, tf, seed, s, v)
      | Some bs \<Rightarrow> do {
          (a, entry, v) \<leftarrow> as_create_elf (image_of beyond bs) (of_nat (length bs)) v;
          (case entry of None \<Rightarrow> Some (-1, tf, seed, s, v)
           | Some e \<Rightarrow> do {
               (argc, av, sp, seed, v) \<leftarrow> proc_setup_argv seed a argv v;
               let old = t_as (current (k_sched s));
               let s = s\<lparr>k_sched := sched_set_current_as (Some (unat a)) (k_sched s)\<rparr>;
               let v = as_switch a v;
               let tf = \<lparr>tf_x = (replicate 31 0)[1 := av], tf_elr = e, tf_spsr = 0, tf_sp_el0 = sp\<rparr>;
               v \<leftarrow> (case old of None \<Rightarrow> Some v | Some o' \<Rightarrow> as_destroy (of_nat o') v);
               Some (int argc, tf, seed, s, v) }) }) }"

subsection \<open>Bytes of the page\<close>

text \<open>Byte \<open>j\<close> of \<open>bs\<close> is byte \<open>j\<close> after the address \<open>k\<close> below the top.\<close>

definition page_at :: "(nat \<Rightarrow> u8) \<Rightarrow> nat \<Rightarrow> u8 list \<Rightarrow> bool" where
  "page_at pg k bs \<longleftrightarrow> k \<le> 4096 \<and> length bs \<le> k \<and> (\<forall>j < length bs. pg (4096 - k + j) = bs ! j)"

lemma put_byte_at:
  assumes "0 < k" "k < 2 ^ 39"
  shows "put_byte (USER_STACK_TOP - of_nat k) b pg = (if k \<le> 4096 then Some (pg(4096 - k := b)) else None)"
proof -
  have d: "(USER_STACK_TOP - of_nat k) - stack_page = 4096 - (of_nat k :: u64)" by (simp add: stack_page_def)
  have k: "unat (of_nat k :: u64) = k" using assms by (simp add: unsigned_of_nat take_bit_eq_mod)
  have "unat (4096 - of_nat k :: u64) = (if k \<le> 4096 then 4096 - k else 2 ^ 64 - (k - 4096))"
    using k assms by (simp add: unat_sub_if_size word_size word_le_nat_alt unsigned_numeral)
  then show ?thesis unfolding put_byte_def d Let_def using assms by auto
qed

lemma put_bytes_at:
  assumes "length bs \<le> k" "k < 2 ^ 39"
  shows "put_bytes (USER_STACK_TOP - of_nat k) bs pg = (if bs = [] \<or> k \<le> 4096
    then Some (\<lambda>i. if 4096 - k \<le> i \<and> i < 4096 - k + length bs then bs ! (i - (4096 - k)) else pg i) else None)"
  using assms
proof (induction bs arbitrary: k pg)
  case (Cons b bs)
  then obtain k' where k': "k = Suc k'" by (cases k) auto
  have n: "USER_STACK_TOP - of_nat (Suc k') + 1 = (USER_STACK_TOP - of_nat k' :: u64)" by simp
  show ?case
  proof (cases "k \<le> 4096")
    case False
    with Cons.prems show ?thesis by (simp add: put_byte_at)
  next
    case True
    have "put_bytes (USER_STACK_TOP - of_nat k) (b # bs) pg = put_bytes (USER_STACK_TOP - of_nat k') bs (pg(4096 - k := b))"
      using Cons.prems True k' by (simp add: put_byte_at n del: of_nat_Suc)
    also have "\<dots> = Some (\<lambda>i. if 4096 - k' \<le> i \<and> i < 4096 - k' + length bs then bs ! (i - (4096 - k'))
        else (pg(4096 - k := b)) i)"
      using Cons.prems True k' by (subst Cons.IH) auto
    also have "(\<lambda>i. if 4096 - k' \<le> i \<and> i < 4096 - k' + length bs then bs ! (i - (4096 - k')) else (pg(4096 - k := b)) i) =
        (\<lambda>i. if 4096 - k \<le> i \<and> i < 4096 - k + length (b # bs) then (b # bs) ! (i - (4096 - k)) else pg i)"
    proof
      fix i
      consider "i < 4096 - k" | "i = 4096 - k" | "4096 - k < i" by linarith
      then show "(if 4096 - k' \<le> i \<and> i < 4096 - k' + length bs then bs ! (i - (4096 - k')) else (pg(4096 - k := b)) i) =
        (if 4096 - k \<le> i \<and> i < 4096 - k + length (b # bs) then (b # bs) ! (i - (4096 - k)) else pg i)"
      proof cases
        case 3
        then have "i - (4096 - k) = Suc (i - (4096 - k'))" using True k' by simp
        with 3 True k' show ?thesis by auto
      qed (use True k' in auto)
    qed
    finally show ?thesis using True by simp
  qed
qed (auto simp: fun_eq_iff)

lemma put_bytes_append:
  "put_bytes v (xs @ ys) pg = put_bytes v xs pg \<bind> put_bytes (v + of_nat (length xs)) ys"
  by (induction xs arbitrary: v pg) (simp_all add: bind_assoc add_ac)

lemma length_word_bytes [simp]: "length (word_bytes x) = 8" by (simp add: word_bytes_def)

lemma put64s_bytes: "put64s v xs pg = put_bytes v (concat (map word_bytes xs)) pg"
  by (induction xs arbitrary: v pg) (simp_all add: put_bytes_append)

lemma page_at_put:
  assumes "length bs \<le> k" "k \<le> 4096"
  obtains pg' where "put_bytes (USER_STACK_TOP - of_nat k) bs pg = Some pg'" "page_at pg' k bs"
    "\<And>k' bs'. page_at pg k' bs' \<Longrightarrow> k' \<le> k - length bs \<Longrightarrow> page_at pg' k' bs'" "\<And>i. i < 4096 - k \<Longrightarrow> pg' i = pg i"
  by (rule that [OF put_bytes_at [OF assms(1), THEN trans, OF _ if_P]]) (use assms in \<open>auto simp: page_at_def\<close>)

lemma page_at_append: "page_at pg k (xs @ ys) \<Longrightarrow> page_at pg k xs \<and> page_at pg (k - length xs) ys"
proof -
  assume p: "page_at pg k (xs @ ys)"
  have "pg (4096 - (k - length xs) + j) = ys ! j" if "j < length ys" for j
  proof -
    have e: "4096 - (k - length xs) + j = 4096 - k + (length xs + j)" using p by (auto simp: page_at_def)
    from p have all: "\<forall>i < length (xs @ ys). pg (4096 - k + i) = (xs @ ys) ! i" unfolding page_at_def by blast
    have "pg (4096 - k + (length xs + j)) = (xs @ ys) ! (length xs + j)" by (rule all [rule_format]) (use that in simp)
    also have "\<dots> = ys ! j" by simp
    finally show ?thesis unfolding e .
  qed
  moreover have "pg (4096 - k + j) = xs ! j" if "j < length xs" for j
    using p that unfolding page_at_def by (metis length_append nth_append trans_less_add1)
  ultimately show ?thesis using p by (auto simp: page_at_def)
qed

definition strings_size :: "u8 list list \<Rightarrow> nat" where "strings_size ss = (\<Sum>s\<leftarrow>ss. length s + 1)"

lemma put_strings_at:
  assumes "strings_size ss < 2 ^ 39"
  shows "if strings_size ss \<le> 4096
    then \<exists>us pg'. put_strings ss USER_STACK_TOP pg = Some (us, USER_STACK_TOP - of_nat (strings_size ss), pg') \<and>
      length us = length ss \<and> (\<forall>i < length ss. \<exists>k \<le> strings_size ss. us ! i = USER_STACK_TOP - of_nat k \<and> page_at pg' k (ss ! i @ [0])) \<and>
      (\<forall>i < 4096 - strings_size ss. pg' i = pg i)
    else put_strings ss USER_STACK_TOP pg = None"
  using assms
proof (induction ss)
  case Nil
  then show ?case by (simp add: strings_size_def)
next
  case (Cons s ss)
  have sz: "strings_size (s # ss) = strings_size ss + (length s + 1)" by (simp add: strings_size_def)
  show ?case
  proof (cases "strings_size ss \<le> 4096")
    case False
    then show ?thesis using Cons by (simp add: sz)
  next
    case True
    with Cons obtain us pg1 where u: "put_strings ss USER_STACK_TOP pg = Some (us, USER_STACK_TOP - of_nat (strings_size ss), pg1)"
      "length us = length ss" "\<forall>i < length ss. \<exists>k \<le> strings_size ss. us ! i = USER_STACK_TOP - of_nat k \<and> page_at pg1 k (ss ! i @ [0])"
      "\<forall>i < 4096 - strings_size ss. pg1 i = pg i" by (auto simp: sz)
    have a: "USER_STACK_TOP - of_nat (strings_size ss) - of_nat (length s + 1) = (USER_STACK_TOP - of_nat (strings_size (s # ss)) :: u64)"
      by (simp add: sz algebra_simps)
    show ?thesis
    proof (cases "strings_size (s # ss) \<le> 4096")
      case False
      moreover have "put_bytes (USER_STACK_TOP - of_nat (strings_size (s # ss))) (s @ [0]) pg1 = None"
        using False Cons.prems by (subst put_bytes_at) (auto simp: sz)
      then have "put_strings (s # ss) USER_STACK_TOP pg = None"
        unfolding put_strings.simps u(1) by (simp only: bind.bind_lunit prod.case Let_def a bind.bind_lzero)
      ultimately show ?thesis by simp
    next
      case fits: True
      obtain pg2 where p: "put_bytes (USER_STACK_TOP - of_nat (strings_size (s # ss))) (s @ [0]) pg1 = Some pg2"
        "page_at pg2 (strings_size (s # ss)) (s @ [0])"
        "\<And>k' bs'. page_at pg1 k' bs' \<Longrightarrow> k' \<le> strings_size (s # ss) - length (s @ [0]) \<Longrightarrow> page_at pg2 k' bs'"
        "\<And>i. i < 4096 - strings_size (s # ss) \<Longrightarrow> pg2 i = pg1 i"
        by (rule page_at_put [of "s @ [0]" "strings_size (s # ss)" pg1]) (use fits in \<open>auto simp: sz\<close>)
      have "put_strings (s # ss) USER_STACK_TOP pg =
          Some ((USER_STACK_TOP - of_nat (strings_size (s # ss))) # us, USER_STACK_TOP - of_nat (strings_size (s # ss)), pg2)"
        unfolding put_strings.simps u(1) by (simp only: bind.bind_lunit prod.case Let_def a p(1))
      moreover have "\<exists>k \<le> strings_size (s # ss). ((USER_STACK_TOP - of_nat (strings_size (s # ss))) # us) ! i = USER_STACK_TOP - of_nat k \<and>
          page_at pg2 k ((s # ss) ! i @ [0])" if i: "i < length (s # ss)" for i
      proof (cases i)
        case 0
        then show ?thesis using p(2) by auto
      next
        case (Suc j)
        with i u(3) obtain k where k: "k \<le> strings_size ss" "us ! j = USER_STACK_TOP - of_nat k" "page_at pg1 k (ss ! j @ [0])" by auto
        have "page_at pg2 k (ss ! j @ [0])" by (rule p(3) [OF k(3)]) (use k(1) in \<open>simp add: sz\<close>)
        with k Suc show ?thesis by (intro exI [of _ k]) (simp add: sz)
      qed
      moreover have "pg2 i = pg i" if "i < 4096 - strings_size (s # ss)" for i
        using that p(4) [OF that] u(4) by (simp add: sz)
      ultimately show ?thesis using fits u(2) by auto
    qed
  qed
qed

subsection \<open>What the program finds\<close>

text \<open>Reading the page at user addresses: a word, and a string with its terminator.\<close>

definition page_word :: "(nat \<Rightarrow> u8) \<Rightarrow> u64 \<Rightarrow> u64" where
  "page_word pg v = le64 (map (\<lambda>i. pg (unat (v - stack_page) + i)) [0..<8])"

definition page_string :: "(nat \<Rightarrow> u8) \<Rightarrow> u64 \<Rightarrow> u8 list \<Rightarrow> bool" where
  "page_string pg v s \<longleftrightarrow> (\<forall>i \<le> length s. pg (unat (v - stack_page) + i) = (s @ [0]) ! i)"

lemma join_byte: "(ucast (ucast (y :: u64) :: u8) :: u64) OR push_bit 8 (drop_bit 8 y) = y"
proof (rule bit_word_eqI)
  fix n assume "n < LENGTH(64)"
  then show "bit ((ucast (ucast y :: u8) :: u64) OR push_bit 8 (drop_bit 8 y)) n = bit y n"
    by (cases "n < 8") (simp_all add: bit_simps)
qed

lemma le64_word_bytes [simp]: "le64 (word_bytes x) = x"
proof -
  have "n \<le> 8 \<Longrightarrow> le64 (map (\<lambda>b. ucast (drop_bit (8 * b) x)) [8 - n..<8]) = drop_bit (8 * (8 - n)) x" for n
  proof (induction n)
    case 0
    have "drop_bit 64 x = 0" by (rule bit_word_eqI) (simp add: bit_simps)
    then show ?case by simp
  next
    case (Suc n)
    define m where "m = 8 - Suc n"
    have m: "8 - n = Suc m" "m < 8" using Suc.prems by (simp_all add: m_def)
    have "[m..<8] = m # [Suc m..<8]" using m(2) by (rule upt_conv_Cons)
    moreover have "le64 (map (\<lambda>b. ucast (drop_bit (8 * b) x)) [Suc m..<8]) = drop_bit 8 (drop_bit (8 * m) x)"
      using Suc by (simp add: m)
    ultimately show ?case unfolding m_def [symmetric] using join_byte [of "drop_bit (8 * m) x"] by simp
  qed
  from this [of 8] show ?thesis by (simp add: word_bytes_def)
qed

lemma top_offset: "k \<le> 4096 \<Longrightarrow> unat (USER_STACK_TOP - of_nat k - stack_page :: u64) = 4096 - k"
proof -
  assume k: "k \<le> 4096"
  have "USER_STACK_TOP - of_nat k - stack_page = 4096 - (of_nat k :: u64)" by (simp add: stack_page_def)
  also have "\<dots> = of_nat (4096 - k)" using k by (simp add: of_nat_diff)
  finally show ?thesis using k by (simp only: unsigned_of_nat) (simp add: take_bit_eq_mod)
qed

lemma page_at_word: "page_at pg k (word_bytes x) \<Longrightarrow> page_word pg (USER_STACK_TOP - of_nat k) = x"
proof -
  assume p: "page_at pg k (word_bytes x)"
  then have "map (\<lambda>i. pg (4096 - k + i)) [0..<8] = word_bytes x"
    by (auto simp: page_at_def intro!: nth_equalityI)
  with p show ?thesis by (simp add: page_word_def top_offset page_at_def)
qed

lemma page_at_string: "page_at pg k (s @ [0]) \<Longrightarrow> page_string pg (USER_STACK_TOP - of_nat k) s"
  by (auto simp: page_at_def page_string_def top_offset)

lemma page_at_words:
  "page_at pg k (concat (map word_bytes ws)) \<Longrightarrow> i < length ws \<Longrightarrow> page_word pg (USER_STACK_TOP - of_nat k + 8 * of_nat i) = ws ! i"
proof (induction ws arbitrary: k i)
  case (Cons w ws)
  from Cons.prems(1) page_at_append [of pg k "word_bytes w" "concat (map word_bytes ws)"]
  have w: "page_at pg k (word_bytes w)" "page_at pg (k - 8) (concat (map word_bytes ws))" by simp_all
  show ?case
  proof (cases i)
    case 0
    then show ?thesis using page_at_word [OF w(1)] by simp
  next
    case (Suc j)
    have "8 \<le> k" using w(1) by (simp add: page_at_def)
    then have "USER_STACK_TOP - of_nat k + 8 * of_nat i = (USER_STACK_TOP - of_nat (k - 8) + 8 * of_nat j :: u64)"
      by (simp add: Suc of_nat_diff)
    then have "page_word pg (USER_STACK_TOP - of_nat k + 8 * of_nat i) = page_word pg (USER_STACK_TOP - of_nat (k - 8) + 8 * of_nat j)"
      by (simp only:)
    also have "\<dots> = ws ! j" using Cons.IH [OF w(2), of j] Cons.prems(2) Suc by simp
    finally show ?thesis by (simp only: Suc nth_Cons_Suc)
  qed
qed simp

lemma unat_mask16: "unat ((x :: u64) AND NOT 15) = unat x div 16 * 16"
proof -
  have lt: "unat x < 2 ^ LENGTH(64)" by (rule unsigned_less)
  have m: "(15 :: u64) = mask 4" by (simp add: mask_numeral)
  have "x AND NOT 15 = push_bit 4 (drop_bit 4 x)" unfolding m by (rule bit_word_eqI) (auto simp: bit_simps)
  moreover have "unat (drop_bit 4 x) = unat x div 16" using lt by (simp add: unsigned_drop_bit_eq drop_bit_eq_div [where 'a = nat] take_bit_eq_mod)
  moreover have "unat x div 16 * 16 < 2 ^ 64" using lt by simp
  ultimately show ?thesis unfolding push_bit_eq_mult by (simp add: unat_word_ariths)
qed

lemma top_align:
  assumes "k < 2 ^ 39"
  shows "(USER_STACK_TOP - of_nat k) AND NOT 15 = (USER_STACK_TOP - of_nat ((k + 15) div 16 * 16) :: u64)"
proof -
  have u: "unat (USER_STACK_TOP - of_nat j :: u64) = 0x8030000000 - j" if "j < 0x8030000000" for j
  proof -
    have "USER_STACK_TOP - of_nat j = (of_nat (0x8030000000 - j) :: u64)"
      using that by (simp add: USER_STACK_TOP_def of_nat_diff)
    with that show ?thesis by (simp only: unsigned_of_nat) (simp add: take_bit_eq_mod)
  qed
  define q where "q = (k + 15) div 16"
  have q: "k \<le> q * 16" "q * 16 \<le> k + 15" by (simp_all add: q_def)
  have "(0x8030000000 - k) div 16 = 0x803000000 - q"
    by (rule div_nat_eqI) (use q assms in auto)
  then have "unat ((USER_STACK_TOP - of_nat k) AND NOT 15 :: u64) = (0x803000000 - q) * 16"
    using assms unfolding unat_mask16 by (subst u) simp_all
  moreover have "unat (USER_STACK_TOP - of_nat (q * 16) :: u64) = 0x8030000000 - q * 16"
    by (rule u) (use q assms in simp)
  ultimately show ?thesis unfolding q_def [symmetric] word_unat_eq_iff by simp
qed


text \<open>The bytes the layout takes, rounded up to the alignment of the stack pointer.\<close>

definition stack_need :: "u8 list list \<Rightarrow> nat" where
  "stack_need args = (strings_size args + 16 + 8 * (length args + 9) + 15) div 16 * 16"

lemma rand_length [simp]: "length (fst (rand_bytes n seed)) = n"
  by (induction n arbitrary: seed) (simp_all add: Let_def case_prod_unfold)

lemma words_length: "length (concat (map word_bytes ws)) = 8 * length ws"
  by (induction ws) simp_all

lemma setup_page_at:
  fixes argv :: "u8 list list"
  defines "args \<equiv> take ARGV_MAX argv"
  assumes small: "strings_size args < 2 ^ 38"
  shows "if stack_need args \<le> 4096
    then \<exists>us pg' seed'. setup_page seed argv pg = Some (length args, USER_STACK_TOP - of_nat (stack_need args) + 8,
        USER_STACK_TOP - of_nat (stack_need args), seed', pg') \<and> length us = length args \<and>
      page_at pg' (stack_need args) (concat (map word_bytes (stack_words (length args) us (USER_STACK_TOP - of_nat (strings_size args + 16))))) \<and>
      (\<forall>i < length args. \<exists>j. us ! i = USER_STACK_TOP - of_nat j \<and> page_at pg' j (args ! i @ [0]))
    else setup_page seed argv pg = None"
proof -
  define n where "n = strings_size args"
  define k where "k = stack_need args"
  have len: "length args \<le> 32" by (simp add: args_def ARGV_MAX_def)
  obtain bs seed' where rb: "rand_bytes 16 seed = (bs, seed')" by force
  then have lb: "length bs = 16" using rand_length [of 16 seed] by simp
  have r: "(USER_STACK_TOP - of_nat n - 16 :: u64) = USER_STACK_TOP - of_nat (n + 16)" by simp
  have "(USER_STACK_TOP - of_nat (n + 16) - of_nat ((1 + (length args + 1) + 1 + 6) * 8) :: u64) =
      USER_STACK_TOP - of_nat (n + 16 + 8 * (length args + 9))" by simp
  moreover have "n + 16 + 8 * (length args + 9) < 2 ^ 39" using small len by (simp add: n_def)
  ultimately have al: "(USER_STACK_TOP - of_nat (n + 16) - of_nat ((1 + (length args + 1) + 1 + 6) * 8) :: u64) AND NOT 15 =
      USER_STACK_TOP - of_nat k" using top_align by (simp only: k_def stack_need_def n_def)
  have kb: "n + 16 + 8 * (length args + 9) \<le> k" "k < 2 ^ 39" using small len by (auto simp: k_def stack_need_def n_def)
  note ps = put_strings_at [of args pg, folded n_def]
  show ?thesis
  proof (cases "n + 16 \<le> 4096")
    case False
    then have "\<not> k \<le> 4096" using kb by simp
    moreover have "setup_page seed argv pg = None"
    proof (cases "n \<le> 4096")
      case True
      with ps small obtain us pg1 where "put_strings args USER_STACK_TOP pg = Some (us, USER_STACK_TOP - of_nat n, pg1)"
        by (auto simp: n_def)
      moreover have "put_bytes (USER_STACK_TOP - of_nat (n + 16)) bs pg1 = None"
        using False lb small by (subst put_bytes_at) (auto simp: n_def)
      ultimately show ?thesis
        unfolding setup_page_def args_def [symmetric] Let_def by (simp only: bind.bind_lunit prod.case r rb bind.bind_lzero)
    next
      case False
      with ps small have "put_strings args USER_STACK_TOP pg = None" by (simp add: n_def)
      then show ?thesis unfolding setup_page_def args_def [symmetric] Let_def by (simp only: bind.bind_lzero)
    qed
    ultimately show ?thesis by (simp add: k_def)
  next
    case True
    with ps small obtain us pg1 where u: "put_strings args USER_STACK_TOP pg = Some (us, USER_STACK_TOP - of_nat n, pg1)"
      "length us = length args" "\<forall>i < length args. \<exists>j \<le> n. us ! i = USER_STACK_TOP - of_nat j \<and> page_at pg1 j (args ! i @ [0])"
      by (auto simp: n_def)
    obtain pg2 where p2: "put_bytes (USER_STACK_TOP - of_nat (n + 16)) bs pg1 = Some pg2"
      "\<And>k' bs'. page_at pg1 k' bs' \<Longrightarrow> k' \<le> n + 16 - length bs \<Longrightarrow> page_at pg2 k' bs'"
      by (rule page_at_put [of bs "n + 16" pg1]) (use True lb in auto)
    define ws where "ws = stack_words (length args) us (USER_STACK_TOP - of_nat (n + 16))"
    have lw: "length (concat (map word_bytes ws)) = 8 * (length args + 9)"
      by (simp add: words_length ws_def stack_words_def u(2))
    have eq: "setup_page seed argv pg = (do {
        pg \<leftarrow> put_bytes (USER_STACK_TOP - of_nat k) (concat (map word_bytes ws)) pg2;
        Some (length args, USER_STACK_TOP - of_nat k + 8, USER_STACK_TOP - of_nat k, seed', pg) })"
      unfolding setup_page_def args_def [symmetric] Let_def
      by (simp only: u(1) bind.bind_lunit prod.case r rb p2(1) al ws_def put64s_bytes)
    show ?thesis
    proof (cases "k \<le> 4096")
      case False
      have ne: "concat (map word_bytes ws) \<noteq> []" using lw by (metis add_is_0 list.size(3) mult_is_0 zero_neq_numeral)
      have "put_bytes (USER_STACK_TOP - of_nat k) (concat (map word_bytes ws)) pg2 = None"
        using put_bytes_at [of "concat (map word_bytes ws)" k pg2] False kb lw ne by simp
      with False eq show ?thesis by (simp add: k_def)
    next
      case fits: True
      obtain pg3 where p3: "put_bytes (USER_STACK_TOP - of_nat k) (concat (map word_bytes ws)) pg2 = Some pg3"
        "page_at pg3 k (concat (map word_bytes ws))"
        "\<And>k' bs'. page_at pg2 k' bs' \<Longrightarrow> k' \<le> k - length (concat (map word_bytes ws)) \<Longrightarrow> page_at pg3 k' bs'"
        by (rule page_at_put [of "concat (map word_bytes ws)" k pg2]) (use fits kb lw in auto)
      have str: "\<exists>j. us ! i = USER_STACK_TOP - of_nat j \<and> page_at pg3 j (args ! i @ [0])" if i: "i < length args" for i
      proof -
        from u(3) i obtain j where j: "j \<le> n" "us ! i = USER_STACK_TOP - of_nat j" "page_at pg1 j (args ! i @ [0])" by blast
        have "page_at pg3 j (args ! i @ [0])"
          by (rule p3(3) [OF p2(2) [OF j(3)]]) (use j(1) kb lw lb in auto)
        with j(2) show ?thesis by blast
      qed
      have "setup_page seed argv pg = Some (length args, USER_STACK_TOP - of_nat k + 8, USER_STACK_TOP - of_nat k, seed', pg3)"
        unfolding eq p3(1) by (rule bind.bind_lunit)
      then show ?thesis using u(2) p3(2) [unfolded ws_def] str
        unfolding k_def [symmetric] n_def [symmetric] if_P [OF fits] by blast
    qed
  qed
qed

text \<open>The page of the model of memory.\<close>

lemma page_byte_word: "le64 (map (\<lambda>i. page_byte v p (8 * w + i)) [0..<8]) = mem v p w"
proof -
  have "map (\<lambda>i. page_byte v p (8 * w + i)) [0..<8] = word_bytes (mem v p w)"
    by (auto simp: word_bytes_def page_byte_def)
  then show ?thesis by simp
qed

lemma le64_byte: "length bs = 8 \<Longrightarrow> k < 8 \<Longrightarrow> (ucast (drop_bit (8 * k) (le64 bs)) :: u8) = bs ! k"
proof -
  have step: "(ucast (drop_bit (8 * k) (le64 bs)) :: u8) = bs ! k" if "k < length bs" "length bs \<le> 8" for k bs
    using that
  proof (induction bs arbitrary: k)
    case (Cons b bs)
    show ?case
    proof (cases k)
      case 0
      have "(ucast (ucast b OR push_bit 8 (le64 bs) :: u64) :: u8) = b" by (rule bit_word_eqI) (auto simp: bit_simps)
      with 0 show ?thesis by simp
    next
      case (Suc j)
      have "drop_bit (8 * Suc j) (ucast b OR push_bit 8 (le64 bs) :: u64) = drop_bit (8 * j) (take_bit 56 (le64 bs))"
        by (rule bit_word_eqI) (auto simp: bit_simps dest: bit_imp_le_length)
      moreover have "(ucast (drop_bit (8 * j) (take_bit 56 (le64 bs))) :: u8) = ucast (drop_bit (8 * j) (le64 bs))"
        using Cons.prems Suc by (intro bit_word_eqI) (auto simp: bit_simps)
      moreover have "(ucast (drop_bit (8 * j) (le64 bs)) :: u8) = bs ! j"
        using Cons.IH [of j] Cons.prems Suc by simp
      ultimately show ?thesis by (simp only: Suc le64.simps nth_Cons_Suc)
    qed
  qed simp
  assume "length bs = 8" "k < 8"
  then show ?thesis using step [of k bs] by simp
qed

lemma page_byte_fill: "i < 4096 \<Longrightarrow> page_byte (fill_page p f v) p i = f i"
proof -
  assume i: "i < 4096"
  then have w: "i div 8 < 512" by simp
  have "page_byte (fill_page p f v) p i = (ucast (drop_bit (8 * (i mod 8)) (le64 (map (\<lambda>k. f (8 * (i div 8) + k)) [0..<8]))) :: u8)"
    using w by (simp only: page_byte_def fill_page_def) simp
  also have "\<dots> = map (\<lambda>k. f (8 * (i div 8) + k)) [0..<8] ! (i mod 8)" by (rule le64_byte) simp_all
  also have "\<dots> = f i" by simp
  finally show ?thesis .
qed

lemma page_at_cong: "(\<And>i. i < 4096 \<Longrightarrow> f i = g i) \<Longrightarrow> page_at f k bs = page_at g k bs"
  unfolding page_at_def by (intro conj_cong refl all_cong arg_cong2 [where f = "(=)"]) auto

text \<open>
  C17. What a program finds on its stack. If the layout fits one page, \<open>proc_setup_argv\<close> writes only that
  page, the stack pointer is aligned to 16 bytes, and reading from it gives argc, the addresses of the
  arguments, which read back as exactly the first 32 strings of argv, a null pointer, an empty
  environment and the three auxiliary entries. If it does not fit, the code writes outside the page.
\<close>
theorem exec_stack:
  fixes argv :: "u8 list list" and v :: "'a vm_scheme"
  assumes "(\<Sum>s\<leftarrow>take 32 argv. length s + 1) < 2 ^ 38"
  shows "if stack_need (take 32 argv) \<le> 4096
    then \<exists>us rnd seed' v'. proc_setup_argv seed a argv v = Some (length (take 32 argv), USER_STACK_TOP - of_nat (stack_need (take 32 argv)) + 8,
        USER_STACK_TOP - of_nat (stack_need (take 32 argv)), seed', v') \<and>
      16 dvd stack_need (take 32 argv) \<and> length us = length (take 32 argv) \<and>
      (\<forall>i < length us + 9. page_word (page_byte v' (as_translate a (USER_STACK_TOP - 4096) v))
          (USER_STACK_TOP - of_nat (stack_need (take 32 argv)) + 8 * of_nat i) =
        ([of_nat (length us)] @ us @ [0, 0, 6, 4096, 25, rnd, 0, 0]) ! i) \<and>
      (\<forall>i < length us. page_string (page_byte v' (as_translate a (USER_STACK_TOP - 4096) v)) (us ! i) (argv ! i)) \<and>
      (\<forall>q. q \<noteq> as_translate a (USER_STACK_TOP - 4096) v \<longrightarrow> mem v' q = mem v q)
    else proc_setup_argv seed a argv v = None"
proof -
  define args where "args = take 32 argv"
  define p where "p = as_translate a stack_page v"
  have sm: "strings_size args < 2 ^ 38" using assms by (simp add: strings_size_def args_def)
  note at = setup_page_at [of argv seed "page_byte v p", unfolded ARGV_MAX_def, folded args_def, OF sm]
  note fold_defs = args_def [symmetric] stack_page_def [symmetric] p_def [symmetric]
  show ?thesis
  proof (cases "stack_need args \<le> 4096")
    case False
    with at have "setup_page seed argv (page_byte v p) = None" by simp
    then show ?thesis unfolding fold_defs if_not_P [OF False] by (simp add: proc_setup_argv_def Let_def p_def)
  next
    case True
    with at obtain us pg seed' where u: "setup_page seed argv (page_byte v p) = Some (length args,
        USER_STACK_TOP - of_nat (stack_need args) + 8, USER_STACK_TOP - of_nat (stack_need args), seed', pg)" "length us = length args"
      "page_at pg (stack_need args) (concat (map word_bytes (stack_words (length args) us (USER_STACK_TOP - of_nat (strings_size args + 16)))))"
      "\<forall>i < length args. \<exists>j. us ! i = USER_STACK_TOP - of_nat j \<and> page_at pg j (args ! i @ [0])" by auto
    let ?v = "fill_page p pg v" and ?rnd = "USER_STACK_TOP - of_nat (strings_size args + 16)"
    have cong: "page_at (page_byte ?v p) k bs = page_at pg k bs" for k bs by (rule page_at_cong) (rule page_byte_fill)
    have r: "proc_setup_argv seed a argv v = Some (length args, USER_STACK_TOP - of_nat (stack_need args) + 8,
        USER_STACK_TOP - of_nat (stack_need args), seed', ?v)"
      unfolding proc_setup_argv_def Let_def p_def [symmetric] u(1) by simp
    have w: "page_word (page_byte ?v p) (USER_STACK_TOP - of_nat (stack_need args) + 8 * of_nat i) =
        ([of_nat (length us)] @ us @ [0, 0, 6, 4096, 25, ?rnd, 0, 0]) ! i" if "i < length us + 9" for i
      using page_at_words [OF u(3) [folded cong], of i] that u(2) by (simp add: stack_words_def AT_PAGESZ_def AT_RANDOM_def AT_NULL_def)
    have s: "page_string (page_byte ?v p) (us ! i) (argv ! i)" if "i < length us" for i
    proof -
      from u(4) that u(2) obtain j where "us ! i = USER_STACK_TOP - of_nat j" "page_at pg j (args ! i @ [0])" by auto
      moreover have "args ! i = argv ! i" using that u(2) by (simp add: args_def)
      ultimately show ?thesis using page_at_string [of "page_byte ?v p" j "argv ! i"] cong by simp
    qed
    have "\<forall>q. q \<noteq> p \<longrightarrow> mem ?v q = mem v q" "16 dvd stack_need args" by (simp_all add: fill_page_def stack_need_def)
    then show ?thesis unfolding fold_defs if_P [OF True] using r u(2) w s by blast
  qed
qed

text \<open>The program \<open>a b\<close>: two strings of one character, in 112 bytes.\<close>

definition demo_vm :: vm where
  "demo_vm = \<lparr>mem = \<lambda>_ _. 0, bump = 0, free_list = 0, page_ref = \<lambda>_. 0, next_asid = 0, asid_free_list = [],
     asid_free_n = 0, l0_table = 0, tlb = [], ttbr0 = 0\<rparr>"

theorem exec_stack_witness:
  "\<exists>us rnd seed' v'. proc_setup_argv 1 4096 [[97], [98]] demo_vm = Some (2, USER_STACK_TOP - 112 + 8, USER_STACK_TOP - 112, seed', v') \<and>
     page_word (page_byte v' (as_translate 4096 (USER_STACK_TOP - 4096) demo_vm)) (USER_STACK_TOP - 112) = 2 \<and>
     page_string (page_byte v' (as_translate 4096 (USER_STACK_TOP - 4096) demo_vm)) (us ! 1) [98]"
proof -
  have n: "stack_need [[97], [98]] = 112" and t: "take 32 [[97], [98 :: u8]] = [[97], [98]]"
    by (simp_all add: stack_need_def strings_size_def)
  have small: "(\<Sum>s\<leftarrow>take 32 [[97], [98 :: u8]]. length s + 1) < 2 ^ 38" by simp
  have fits: "(112 :: nat) \<le> 4096" by simp
  note w = exec_stack [OF small, of 1 4096 demo_vm, unfolded t n, unfolded if_P [OF fits]]
  from w obtain us rnd seed' v' where
    r: "proc_setup_argv 1 4096 [[97], [98]] demo_vm = Some (length [[97], [98 :: u8]], USER_STACK_TOP - of_nat 112 + 8, USER_STACK_TOP - of_nat 112, seed', v')"
      "length us = length [[97], [98 :: u8]]"
    and rd: "\<forall>i < length us + 9. page_word (page_byte v' (as_translate 4096 (USER_STACK_TOP - 4096) demo_vm))
          (USER_STACK_TOP - of_nat 112 + 8 * of_nat i) = ([of_nat (length us)] @ us @ [0, 0, 6, 4096, 25, rnd, 0, 0]) ! i"
      "\<forall>i < length us. page_string (page_byte v' (as_translate 4096 (USER_STACK_TOP - 4096) demo_vm)) (us ! i) ([[97], [98]] ! i)"
    by blast
  have "page_word (page_byte v' (as_translate 4096 (USER_STACK_TOP - 4096) demo_vm)) (USER_STACK_TOP - 112) = 2"
    using rd(1) [rule_format, of 0] r(2) by simp
  moreover have "page_string (page_byte v' (as_translate 4096 (USER_STACK_TOP - 4096) demo_vm)) (us ! 1) [98]"
    using rd(2) [rule_format, of 1] r(2) by simp
  ultimately show ?thesis using r(1)
    by (intro exI [of _ us] exI [of _ rnd] exI [of _ seed'] exI [of _ v'] conjI) simp_all
qed

text \<open>An argument of 4096 characters is written beyond the page.\<close>

lemma exec_argument_overruns: "proc_setup_argv seed a [replicate 4096 97] v = None"
  using exec_stack [of "[replicate 4096 97]" seed a v] by (simp add: stack_need_def strings_size_def)

subsection \<open>exec and open files\<close>

lemma read_program_files:
  assumes "k_files s fa = None" "read_program E N m fa path s = Some (img, s')"
  shows "s' = s\<lparr>k_fs := k_fs s'\<rparr>"
proof -
  from assms(2) obtain v fs where l: "vfs_lookup N m path (k_fs s) = Some (v, fs)"
    by (auto simp: read_program_def vfs_open_def bind_eq_Some_conv split: option.splits)
  show ?thesis
  proof (cases v)
    case None
    with assms l show ?thesis by (auto simp: read_program_def vfs_open_def)
  next
    case (Some vn)
    let ?h = "new_file (Some vn) None None None False False"
    have o: "vfs_open N m fa path s = Some (Some fa, put_file fa ?h (s\<lparr>k_fs := fs\<rparr>))"
      by (simp add: vfs_open_def l Some)
    have f: "f_vnode ?h = Some vn" "f_pipe ?h = None" "f_pty ?h = None" "f_sock ?h = None" "f_ref ?h = 1"
      by (simp_all add: new_file_def)
    from assms(2) obtain r s2 where
      rd: "vfs_read N fa (vn_size N fs vn) (put_file fa (?h\<lparr>f_off := 0\<rparr>) (put_file fa ?h (s\<lparr>k_fs := fs\<rparr>))) = Some (r, s2)"
      and more: "vfs_close E fa s2 \<bind> (\<lambda>s. case r of Sleep _ \<Rightarrow> None
          | Done (n, bs) \<Rightarrow> Some (if n \<le> 0 then None else Some bs, s)) = Some (img, s')"
      unfolding read_program_def o by (auto simp: put_file_def f bind_eq_Some_conv)
    then obtain s3 where cl: "vfs_close E fa s2 = Some s3" and s': "s' = s3"
      by (cases r) (auto simp: bind_eq_Some_conv)
    have s2: "(\<exists>off. k_files s2 = (k_files s)(fa \<mapsto> ?h\<lparr>f_off := off\<rparr>)) \<and> k_pipes s2 = k_pipes s \<and> k_ptys s2 = k_ptys s \<and>
        k_socks s2 = k_socks s \<and> k_sched s2 = k_sched s \<and> k_uart s2 = k_uart s"
      using rd by (auto simp: vfs_read_def put_file_def f bind_eq_Some_conv split: option.splits if_splits prod.splits)
    then obtain off where off: "k_files s2 = (k_files s)(fa \<mapsto> ?h\<lparr>f_off := off\<rparr>)" by blast
    have "s3 = s2\<lparr>k_files := (k_files s)(fa := None)\<rparr>" using cl by (simp add: vfs_close_def off f)
    moreover have "(k_files s)(fa := None) = k_files s" using assms(1) by auto
    ultimately show ?thesis unfolding s' using s2 by (intro kstate.equality) simp_all
  qed
qed

lemma read_program_same:
  assumes "k_files s fa = None" "read_program E N m fa path s = Some (img, s')"
  shows "k_files s' = k_files s" "k_pipes s' = k_pipes s" "k_ptys s' = k_ptys s" "k_socks s' = k_socks s" "k_sched s' = k_sched s"
  by (subst read_program_files [OF assms], simp)+

text \<open>
  exec replaces the program and nothing else. The file of the program is closed again, so all open
  files, pipes, terminals and sockets and every descriptor table are as before; a failure leaves the
  trap frame and the process alone, and after a success the frame has only the stack pointer, the
  address of argv and the entry, and the result is argc.
\<close>
theorem exec_keeps_files:
  assumes "k_files s fa = None" "proc_exec E N m fa beyond seed tf path argv s v = Some (r, tf', seed', s', v')"
  shows "k_files s' = k_files s \<and> k_pipes s' = k_pipes s \<and> k_ptys s' = k_ptys s \<and> k_socks s' = k_socks s \<and>
    map (\<lambda>t. (t_id t, t_fds t)) (sc_ring (k_sched s')) = map (\<lambda>t. (t_id t, t_fds t)) (sc_ring (k_sched s)) \<and>
    (r = -1 \<and> tf' = tf \<and> k_sched s' = k_sched s \<or>
     r = int (length (take 32 argv)) \<and> tf_x tf' = (replicate 31 0)[1 := tf_sp_el0 tf' + 8] \<and> tf_spsr tf' = 0)"
proof -
  from assms(2) obtain img s1 where rp: "read_program E N m fa path s = Some (img, s1)"
    by (auto simp: proc_exec_def bind_eq_Some_conv)
  note same = read_program_same [OF assms(1) rp]
  show ?thesis
  proof (cases img)
    case None
    with assms(2) rp same show ?thesis by (simp add: proc_exec_def)
  next
    case (Some bs)
    with assms(2) rp obtain a e v1 where el: "as_create_elf (image_of beyond bs) (of_nat (length bs)) v = Some (a, e, v1)"
      by (auto simp: proc_exec_def bind_eq_Some_conv)
    show ?thesis
    proof (cases e)
      case None
      with assms(2) rp Some el same show ?thesis by (simp add: proc_exec_def)
    next
      case e: (Some en)
      from assms(2) rp Some el e obtain argc av sp sd v2 where su: "proc_setup_argv seed a argv v1 = Some (argc, av, sp, sd, v2)"
        by (auto simp: proc_exec_def bind_eq_Some_conv)
      obtain rb rs where rr: "rand_bytes 16 seed = (rb, rs)" by force
      have av: "av = sp + 8" "argc = length (take 32 argv)"
        using su by (auto simp: proc_setup_argv_def setup_page_def Let_def ARGV_MAX_def rr bind_eq_Some_conv)
      have fd: "map (\<lambda>t. (t_id t, t_fds t)) (sc_ring (sched_set_current_as x sc)) = map (\<lambda>t. (t_id t, t_fds t)) (sc_ring sc)" for x sc
        by (cases "sc_ring sc") (simp_all add: sched_set_current_as_def upd_current_def)
      from assms(2) rp Some el e su same show ?thesis
        by (auto simp: proc_exec_def bind_eq_Some_conv Let_def fd av)
    qed
  qed
qed

text \<open>A program that does not exist.\<close>

definition demo_k :: "(unit, unit) kstate" where
  "demo_k = \<lparr>k_files = \<lambda>_. None, k_pipes = \<lambda>_. None, k_ptys = \<lambda>_. None,
     k_socks = \<lparr>ss_socks = [], ss_next_eph = 0, ss_tcp = \<lparr>ts_conns = [], ts_next_lport = 0, ts_out = []\<rparr>, ss_sent = []\<rparr>, k_fs = (),
     k_sched = sched_init \<lparr>sc_ring = [], sc_next_id = 0, sc_foreground = None, sc_slice = 0, sc_jiffies = 7, sc_started = False\<rparr>,
     k_uart = []\<rparr>"

definition empty_nodes :: "(unit, unit) vnodes" where
  "empty_nodes = \<lparr>vn_type = \<lambda>_ _. VN_FILE, vn_size = \<lambda>_ _. 0, vn_ops = \<lambda>_. \<lparr>vo_read = None, vo_write = None, vo_lookup = None,
     vo_create = None, vo_readdir = None, vo_truncate = None, vo_unlink = None, vo_readlink = None, vo_symlink = None,
     vo_rename = None, vo_link = None\<rparr>\<rparr>"

definition demo_tf :: trapframe where
  "demo_tf = \<lparr>tf_x = replicate 31 7, tf_elr = 0, tf_spsr = 0, tf_sp_el0 = 0\<rparr>"

theorem exec_keeps_files_witness:
  "\<exists>s'. proc_exec (\<lambda>_. (0, 0, [])) empty_nodes \<lparr>vfs_root = None, vfs_mounts = []\<rparr> 64 (\<lambda>_. 0) 1 demo_tf [97] [] demo_k demo_vm
      = Some (-1, demo_tf, 1, s', demo_vm) \<and> k_files s' = k_files demo_k \<and> k_sched s' = k_sched demo_k"
proof -
  have e: "proc_exec (\<lambda>_. (0, 0, [])) empty_nodes \<lparr>vfs_root = None, vfs_mounts = []\<rparr> 64 (\<lambda>_. 0) 1 demo_tf [97] [] demo_k demo_vm
      = Some (-1, demo_tf, 1, demo_k, demo_vm)"
    by (simp add: proc_exec_def read_program_def vfs_open_def vfs_lookup_def demo_k_def)
  moreover have "k_files demo_k 64 = None" by (simp add: demo_k_def)
  from exec_keeps_files [OF this e] have "k_files demo_k = k_files demo_k \<and> k_sched demo_k = k_sched demo_k" by blast
  ultimately show ?thesis by blast
qed

end
