(* ===== verification/Ext2_Disk.thy ===== *)
theory Ext2_Disk
  imports Vfs "HOL-Library.Monad_Syntax"
begin

text \<open>
  The on-disk structures of \<open>src/ext2.c\<close>. The code copies the bytes of a packed struct of a
  little-endian machine; here a struct is a record, with a decoding from its bytes and an encoding to
  them. A buffer is the list of its bytes, and \<open>get_buf\<close>, \<open>put_buf\<close> give \<open>None\<close> for an access
  that does not lie inside it, which C leaves undefined.
\<close>

subsection \<open>Little-endian numbers\<close>

primrec le_nat :: "u8 list \<Rightarrow> nat" where
  "le_nat [] = 0"
| "le_nat (b # bs) = unat b + 256 * le_nat bs"

primrec le_bytes :: "nat \<Rightarrow> nat \<Rightarrow> u8 list" where
  "le_bytes 0 k = []"
| "le_bytes (Suc n) k = word_of_nat k # le_bytes n (k div 256)"

definition dec16 :: "u8 list \<Rightarrow> u16" where "dec16 bs = word_of_nat (le_nat bs)"
definition dec32 :: "u8 list \<Rightarrow> u32" where "dec32 bs = word_of_nat (le_nat bs)"
definition enc16 :: "u16 \<Rightarrow> u8 list" where "enc16 w = le_bytes 2 (unat w)"
definition enc32 :: "u32 \<Rightarrow> u8 list" where "enc32 w = le_bytes 4 (unat w)"

text \<open>The field at offset \<open>o\<close> of a struct that lies inside its buffer.\<close>

definition le16 :: "u8 list \<Rightarrow> nat \<Rightarrow> u16" where "le16 bs k = dec16 (take 2 (drop k bs))"
definition le32 :: "u8 list \<Rightarrow> nat \<Rightarrow> u32" where "le32 bs k = dec32 (take 4 (drop k bs))"

lemma length_le_bytes [simp]: "length (le_bytes n k) = n"
  by (induction n arbitrary: k) auto

lemma length_enc [simp]: "length (enc16 w) = 2" "length (enc32 v) = 4"
  by (simp_all add: enc16_def enc32_def)

lemma le_nat_less: "le_nat bs < 256 ^ length bs"
proof (induction bs)
  case (Cons b bs)
  then show ?case using unat_u8_less [of b] by simp
qed simp

lemma le_nat_bytes: "le_nat (le_bytes n k) = k mod 256 ^ n"
proof (induction n arbitrary: k)
  case (Suc n)
  have "unat (word_of_nat k :: u8) = k mod 256" by (simp add: unat_of_nat)
  with Suc show ?case using mod_mult2_eq [of k 256 "256 ^ n"] by simp
qed simp

lemma le_bytes_nat: "le_bytes (length bs) (le_nat bs) = bs"
proof (induction bs)
  case (Cons b bs)
  have "(word_of_nat (unat b + 256 * le_nat bs) :: u8) = b"
    using unat_u8_less [of b] by (simp add: word_unat_eq_iff unat_of_nat del: of_nat_add of_nat_mult)
  moreover have "(unat b + 256 * le_nat bs) div 256 = le_nat bs" using unat_u8_less [of b] by simp
  ultimately show ?case using Cons by simp
qed simp

lemma dec_enc [simp]: "dec16 (enc16 w) = w" "dec32 (enc32 v) = v"
proof -
  have "unat w < 256 ^ 2" "unat v < 256 ^ 4" using unat_u16_less [of w] unat_u32_less [of v] by simp_all
  then show "dec16 (enc16 w) = w" "dec32 (enc32 v) = v"
    by (simp_all add: dec16_def enc16_def dec32_def enc32_def le_nat_bytes)
qed

lemma enc_dec: "length bs = 2 \<Longrightarrow> enc16 (dec16 bs) = bs" "length cs = 4 \<Longrightarrow> enc32 (dec32 cs) = cs"
proof -
  assume l: "length bs = 2"
  then have "unat (dec16 bs) = le_nat bs" using le_nat_less [of bs] by (simp add: dec16_def unat_of_nat)
  with l show "enc16 (dec16 bs) = bs" using le_bytes_nat [of bs] by (simp add: enc16_def)
next
  assume l: "length cs = 4"
  then have "unat (dec32 cs) = le_nat cs" using le_nat_less [of cs] by (simp add: dec32_def unat_of_nat)
  with l show "enc32 (dec32 cs) = cs" using le_bytes_nat [of cs] by (simp add: enc32_def)
qed

subsection \<open>Buffers\<close>

definition get_buf :: "u8 list \<Rightarrow> nat \<Rightarrow> nat \<Rightarrow> u8 list option" where
  "get_buf buf k n = (if k + n \<le> length buf then Some (take n (drop k buf)) else None)"

definition put_buf :: "u8 list \<Rightarrow> nat \<Rightarrow> u8 list \<Rightarrow> u8 list option" where
  "put_buf buf k bs =
     (if k + length bs \<le> length buf then Some (take k buf @ bs @ drop (k + length bs) buf) else None)"

definition buf8 :: "u8 list \<Rightarrow> nat \<Rightarrow> u8 option" where
  "buf8 buf k = (if k < length buf then Some (buf ! k) else None)"

definition buf16 :: "u8 list \<Rightarrow> nat \<Rightarrow> u16 option" where "buf16 buf k = map_option dec16 (get_buf buf k 2)"
definition buf32 :: "u8 list \<Rightarrow> nat \<Rightarrow> u32 option" where "buf32 buf k = map_option dec32 (get_buf buf k 4)"

lemma get_in [simp]:
  "k + n \<le> length buf \<Longrightarrow> get_buf buf k n = Some (take n (drop k buf))"
  "k < length buf \<Longrightarrow> buf8 buf k = Some (buf ! k)"
  "k + 2 \<le> length buf \<Longrightarrow> buf16 buf k = Some (le16 buf k)"
  "k + 4 \<le> length buf \<Longrightarrow> buf32 buf k = Some (le32 buf k)"
  by (simp_all add: get_buf_def buf8_def buf16_def buf32_def le16_def le32_def)

text \<open>A write changes the bytes it covers.\<close>

lemma put_buf_Some: "put_buf buf k bs = Some c \<longleftrightarrow>
   k + length bs \<le> length buf \<and> c = take k buf @ bs @ drop (k + length bs) buf"
  by (auto simp: put_buf_def)

lemma put_length: "put_buf buf k bs = Some c \<Longrightarrow> length c = length buf"
  by (auto simp: put_buf_Some)

lemma put_get_same: "put_buf buf k bs = Some c \<Longrightarrow> take (length bs) (drop k c) = bs"
  by (auto simp: put_buf_Some)

lemma put_get_before: "put_buf buf k bs = Some c \<Longrightarrow> j + n \<le> k \<Longrightarrow> take n (drop j c) = take n (drop j buf)"
  by (auto simp: put_buf_Some drop_take min_def)

lemma put_get_after: "put_buf buf k bs = Some c \<Longrightarrow> k + length bs \<le> j \<Longrightarrow> take n (drop j c) = take n (drop j buf)"
  by (auto simp: put_buf_Some)

lemma put_nth: "put_buf buf k bs = Some c \<Longrightarrow> i < length buf \<Longrightarrow>
   c ! i = (if k \<le> i \<and> i < k + length bs then bs ! (i - k) else buf ! i)"
  by (auto simp: put_buf_Some nth_append)

subsection \<open>The superblock\<close>

record ext2_super =
  s_inodes_count :: u32
  s_blocks_count :: u32
  s_r_blocks_count :: u32
  s_free_blocks_count :: u32
  s_free_inodes_count :: u32
  s_first_data_block :: u32
  s_log_block_size :: u32
  s_log_frag_size :: u32
  s_blocks_per_group :: u32
  s_frags_per_group :: u32
  s_inodes_per_group :: u32
  s_mtime :: u32
  s_wtime :: u32
  s_mnt_count :: u16
  s_max_mnt_count :: u16
  s_magic :: u16
  s_state :: u16
  s_errors :: u16
  s_minor_rev_level :: u16
  s_lastcheck :: u32
  s_checkinterval :: u32
  s_creator_os :: u32
  s_rev_level :: u32
  s_def_resuid :: u16
  s_def_resgid :: u16
  s_first_ino :: u32
  s_inode_size :: u16
  s_reserved :: "u8 list"

definition dec_super :: "u8 list \<Rightarrow> ext2_super" where
  "dec_super b = \<lparr>s_inodes_count = le32 b 0, s_blocks_count = le32 b 4, s_r_blocks_count = le32 b 8,
     s_free_blocks_count = le32 b 12, s_free_inodes_count = le32 b 16, s_first_data_block = le32 b 20,
     s_log_block_size = le32 b 24, s_log_frag_size = le32 b 28, s_blocks_per_group = le32 b 32,
     s_frags_per_group = le32 b 36, s_inodes_per_group = le32 b 40, s_mtime = le32 b 44,
     s_wtime = le32 b 48, s_mnt_count = le16 b 52, s_max_mnt_count = le16 b 54, s_magic = le16 b 56,
     s_state = le16 b 58, s_errors = le16 b 60, s_minor_rev_level = le16 b 62, s_lastcheck = le32 b 64,
     s_checkinterval = le32 b 68, s_creator_os = le32 b 72, s_rev_level = le32 b 76,
     s_def_resuid = le16 b 80, s_def_resgid = le16 b 82, s_first_ino = le32 b 84,
     s_inode_size = le16 b 88, s_reserved = drop 90 b\<rparr>"

definition enc_super :: "ext2_super \<Rightarrow> u8 list" where
  "enc_super s = enc32 (s_inodes_count s) @ enc32 (s_blocks_count s) @ enc32 (s_r_blocks_count s) @
     enc32 (s_free_blocks_count s) @ enc32 (s_free_inodes_count s) @ enc32 (s_first_data_block s) @
     enc32 (s_log_block_size s) @ enc32 (s_log_frag_size s) @ enc32 (s_blocks_per_group s) @
     enc32 (s_frags_per_group s) @ enc32 (s_inodes_per_group s) @ enc32 (s_mtime s) @
     enc32 (s_wtime s) @ enc16 (s_mnt_count s) @ enc16 (s_max_mnt_count s) @ enc16 (s_magic s) @
     enc16 (s_state s) @ enc16 (s_errors s) @ enc16 (s_minor_rev_level s) @ enc32 (s_lastcheck s) @
     enc32 (s_checkinterval s) @ enc32 (s_creator_os s) @ enc32 (s_rev_level s) @
     enc16 (s_def_resuid s) @ enc16 (s_def_resgid s) @ enc32 (s_first_ino s) @
     enc16 (s_inode_size s) @ s_reserved s"

subsection \<open>Group descriptors\<close>

record ext2_group_desc =
  bg_block_bitmap :: u32
  bg_inode_bitmap :: u32
  bg_inode_table :: u32
  bg_free_blocks_count :: u16
  bg_free_inodes_count :: u16
  bg_used_dirs_count :: u16
  bg_pad :: u16
  bg_reserved :: "u8 list"

definition dec_group :: "u8 list \<Rightarrow> ext2_group_desc" where
  "dec_group b = \<lparr>bg_block_bitmap = le32 b 0, bg_inode_bitmap = le32 b 4, bg_inode_table = le32 b 8,
     bg_free_blocks_count = le16 b 12, bg_free_inodes_count = le16 b 14, bg_used_dirs_count = le16 b 16,
     bg_pad = le16 b 18, bg_reserved = take 12 (drop 20 b)\<rparr>"

definition enc_group :: "ext2_group_desc \<Rightarrow> u8 list" where
  "enc_group d = enc32 (bg_block_bitmap d) @ enc32 (bg_inode_bitmap d) @ enc32 (bg_inode_table d) @
     enc16 (bg_free_blocks_count d) @ enc16 (bg_free_inodes_count d) @ enc16 (bg_used_dirs_count d) @
     enc16 (bg_pad d) @ bg_reserved d"

subsection \<open>Inodes\<close>

record ext2_inode =
  i_mode :: u16
  i_uid :: u16
  i_size :: u32
  i_atime :: u32
  i_ctime :: u32
  i_mtime :: u32
  i_dtime :: u32
  i_gid :: u16
  i_links_count :: u16
  i_blocks :: u32
  i_flags :: u32
  i_osd1 :: u32
  i_block :: "u32 list"
  i_generation :: u32
  i_file_acl :: u32
  i_dir_acl :: u32
  i_faddr :: u32
  i_osd2 :: "u8 list"

definition dec_words :: "nat \<Rightarrow> u8 list \<Rightarrow> u32 list" where
  "dec_words n b = map (\<lambda>i. le32 b (4 * i)) [0..<n]"

definition enc_words :: "u32 list \<Rightarrow> u8 list" where "enc_words ws = concat (map enc32 ws)"

definition dec_inode :: "u8 list \<Rightarrow> ext2_inode" where
  "dec_inode b = \<lparr>i_mode = le16 b 0, i_uid = le16 b 2, i_size = le32 b 4, i_atime = le32 b 8,
     i_ctime = le32 b 12, i_mtime = le32 b 16, i_dtime = le32 b 20, i_gid = le16 b 24,
     i_links_count = le16 b 26, i_blocks = le32 b 28, i_flags = le32 b 32, i_osd1 = le32 b 36,
     i_block = dec_words 15 (drop 40 b), i_generation = le32 b 100, i_file_acl = le32 b 104,
     i_dir_acl = le32 b 108, i_faddr = le32 b 112, i_osd2 = take 12 (drop 116 b)\<rparr>"

definition enc_inode :: "ext2_inode \<Rightarrow> u8 list" where
  "enc_inode i = enc16 (i_mode i) @ enc16 (i_uid i) @ enc32 (i_size i) @ enc32 (i_atime i) @
     enc32 (i_ctime i) @ enc32 (i_mtime i) @ enc32 (i_dtime i) @ enc16 (i_gid i) @
     enc16 (i_links_count i) @ enc32 (i_blocks i) @ enc32 (i_flags i) @ enc32 (i_osd1 i) @
     enc_words (i_block i) @ enc32 (i_generation i) @ enc32 (i_file_acl i) @ enc32 (i_dir_acl i) @
     enc32 (i_faddr i) @ i_osd2 i"

text \<open>The structs of a fixed size.\<close>

definition super_ok :: "ext2_super \<Rightarrow> bool" where "super_ok s \<longleftrightarrow> length (s_reserved s) = 934"
definition group_ok :: "ext2_group_desc \<Rightarrow> bool" where "group_ok d \<longleftrightarrow> length (bg_reserved d) = 12"

definition inode_ok :: "ext2_inode \<Rightarrow> bool" where
  "inode_ok i \<longleftrightarrow> length (i_block i) = 15 \<and> length (i_osd2 i) = 12"

subsection \<open>Decoding and encoding are inverse\<close>

lemma length_enc_words [simp]: "length (enc_words ws) = 4 * length ws"
  unfolding enc_words_def by (induction ws) auto

lemma length_enc_struct [simp]:
  "super_ok s \<Longrightarrow> length (enc_super s) = 1024"
  "group_ok d \<Longrightarrow> length (enc_group d) = 32"
  "inode_ok i \<Longrightarrow> length (enc_inode i) = 128"
  by (simp_all add: enc_super_def super_ok_def enc_group_def group_ok_def enc_inode_def inode_ok_def)

lemma le_append [simp]:
  "le16 (enc16 w @ bs) 0 = w" "le32 (enc32 v @ bs) 0 = v"
  "length as \<le> k \<Longrightarrow> le16 (as @ bs) k = le16 bs (k - length as)"
  "length as \<le> k \<Longrightarrow> le32 (as @ bs) k = le32 bs (k - length as)"
  by (simp_all add: le16_def le32_def)

lemma dec_enc_words: "dec_words (length ws) (enc_words ws @ bs) = ws"
proof (induction ws)
  case (Cons w ws)
  have "dec_words (Suc n) (enc32 w @ cs) = w # dec_words n cs" for n cs
    unfolding dec_words_def upt_conv_Cons [OF zero_less_Suc] map_Suc_upt [symmetric]
    by (simp del: upt_Suc)
  with Cons show ?case by (simp add: enc_words_def)
qed (simp add: dec_words_def)

lemma dec_enc_words15: "length ws = 15 \<Longrightarrow> dec_words 15 (enc_words ws @ bs) = ws"
  using dec_enc_words [of ws bs] by simp

lemma dec_enc_super: "dec_super (enc_super s) = s"
  by (simp add: dec_super_def enc_super_def)

lemma dec_enc_group: "group_ok d \<Longrightarrow> dec_group (enc_group d) = d"
  by (simp add: dec_group_def enc_group_def group_ok_def)

lemma dec_enc_inode: "inode_ok i \<Longrightarrow> dec_inode (enc_inode i) = i"
  by (simp add: dec_inode_def enc_inode_def inode_ok_def dec_enc_words15)

text \<open>The other way round, the bytes of a struct are joined field by field.\<close>

lemma join_fields:
  "k + 2 \<le> length b \<Longrightarrow> j = k + 2 \<Longrightarrow> enc16 (le16 b k) @ drop j b = drop k b"
  "k + 4 \<le> length b \<Longrightarrow> j = k + 4 \<Longrightarrow> enc32 (le32 b k) @ drop j b = drop k b"
  using append_take_drop_id [of 2 "drop k b"] append_take_drop_id [of 4 "drop k b"]
  by (simp_all add: le16_def le32_def enc_dec add.commute)

lemma enc_dec_words: "length b = 4 * n \<Longrightarrow> enc_words (dec_words n b) = b"
proof (induction n arbitrary: b)
  case (Suc n)
  have "dec_words (Suc n) b = le32 b 0 # dec_words n (drop 4 b)"
    unfolding dec_words_def upt_conv_Cons [OF zero_less_Suc] map_Suc_upt [symmetric]
    by (simp add: le32_def add.commute del: upt_Suc)
  moreover have "enc32 (le32 b 0) @ drop 4 b = b" using join_fields(2) [of 0 b 4] Suc.prems by simp
  ultimately show ?case using Suc.IH [of "drop 4 b"] Suc.prems by (simp add: enc_words_def)
qed (simp add: dec_words_def enc_words_def)

lemma enc_dec_super: "length b = 1024 \<Longrightarrow> enc_super (dec_super b) = b"
  by (simp add: enc_super_def dec_super_def join_fields)

lemma enc_dec_group: "length b = 32 \<Longrightarrow> enc_group (dec_group b) = b"
  by (simp add: enc_group_def dec_group_def join_fields)

lemma dec_words_take: "dec_words 15 b = dec_words 15 (take 60 b)"
  by (simp add: dec_words_def le32_def drop_take min_def)

lemma enc_dec_inode: 
  assumes "length b = 128" shows "enc_inode (dec_inode b) = b"
proof -
  have "enc_words (dec_words 15 (drop 40 b)) = take 60 (drop 40 b)"
    using enc_dec_words [of "take 60 (drop 40 b)" 15] dec_words_take [of "drop 40 b"] assms by simp
  then have w: "enc_words (dec_words 15 (drop 40 b)) @ drop 100 b = drop 40 b"
    using append_take_drop_id [of 60 "drop 40 b"] by simp
  show ?thesis using assms by (simp add: enc_inode_def dec_inode_def join_fields w)
qed

lemma dec_struct_ok [simp]:
  "length b = 1024 \<Longrightarrow> super_ok (dec_super b)" "length c = 32 \<Longrightarrow> group_ok (dec_group c)"
  "length d = 128 \<Longrightarrow> inode_ok (dec_inode d)"
  by (simp_all add: super_ok_def dec_super_def group_ok_def dec_group_def inode_ok_def dec_inode_def dec_words_def)

end
