(* ===== verification/Ext2.thy ===== *)
theory Ext2
  imports Ext2_Disk
begin

text \<open>
  The ext2 driver of \<open>src/ext2.c\<close> up to the data of a file: blocks, inodes, the bitmaps, the block
  map, read, write and truncate. The state holds the sectors of the disk and the cached metadata of
  the C file. The disk (\<open>virtio_blk.c\<close>) answers -1 for the sectors of \<open>x_rfail\<close> (reading) and
  \<open>x_wfail\<close> (writing); \<open>kmalloc\<close> is an oracle, true where call \<open>k\<close> succeeds. A vnode is its index in
  order of creation. The outer \<open>None\<close> of a result is undefined behaviour: an access outside a buffer or
  a division by zero.
\<close>

subsection \<open>State\<close>

record ext2_vnode =
  xv_type :: vnode_type
  xv_size :: u64
  xv_inum :: u32

record ext2 =
  x_disk :: "u64 \<Rightarrow> u8 list"
  x_rfail :: "u64 \<Rightarrow> bool"
  x_wfail :: "u64 \<Rightarrow> bool"
  x_sb :: ext2_super
  x_gdt :: "ext2_group_desc list"
  x_ngroups :: u32
  x_inode_size :: u32
  x_vnodes :: "ext2_vnode list"
  x_malloc :: "nat \<Rightarrow> bool"
  x_calls :: nat

definition put_sector :: "u64 \<Rightarrow> u8 list \<Rightarrow> ext2 \<Rightarrow> ext2" where
  "put_sector k bs s = s\<lparr>x_disk := (x_disk s)(k := bs)\<rparr>"

definition put_group :: "nat \<Rightarrow> ext2_group_desc \<Rightarrow> ext2 \<Rightarrow> ext2" where
  "put_group g d s = s\<lparr>x_gdt := (x_gdt s)[g := d]\<rparr>"

definition group_at :: "ext2 \<Rightarrow> nat \<Rightarrow> ext2_group_desc option" where
  "group_at s g = (if g < length (x_gdt s) then Some (x_gdt s ! g) else None)"

subsection \<open>Blocks\<close>

text \<open>The result of \<open>eb_read\<close> is \<open>None\<close> for -1.\<close>

definition eb_read :: "ext2 \<Rightarrow> u32 \<Rightarrow> u8 list option" where
  "eb_read s b =
     (let k = ucast b * 2 in
      if x_rfail s k then None
      else if x_rfail s (k + 1) then None
      else Some (x_disk s k @ x_disk s (k + 1)))"

definition eb_write :: "u32 \<Rightarrow> u8 list \<Rightarrow> ext2 \<Rightarrow> int \<times> ext2" where
  "eb_write b buf s =
     (let k = ucast b * 2 in
      if x_wfail s k then (-1, s)
      else let s = put_sector k (take 512 buf) s in
        if x_wfail s (k + 1) then (-1, s)
        else (0, put_sector (k + 1) (drop 512 buf) s))"

subsection \<open>Inodes\<close>

text \<open>The block and the offset of an inode; \<open>Some None\<close> is the early return of -1.\<close>

definition inode_place :: "ext2 \<Rightarrow> u32 \<Rightarrow> (u32 \<times> nat) option option" where
  "inode_place s n =
     (if n = 0 then Some None
      else if s_inodes_per_group (x_sb s) = 0 then None
      else let g = (n - 1) div s_inodes_per_group (x_sb s); idx = (n - 1) mod s_inodes_per_group (x_sb s) in
        if g \<ge> x_ngroups s then Some None
        else do {
          d \<leftarrow> group_at s (unat g);
          let byte = (ucast idx :: u64) * ucast (x_inode_size s);
          Some (Some (bg_inode_table d + ucast (byte div 1024), unat (byte mod 1024))) })"

definition read_inode :: "ext2 \<Rightarrow> u32 \<Rightarrow> ext2_inode option option" where
  "read_inode s n = do {
     p \<leftarrow> inode_place s n;
     (case p of None \<Rightarrow> Some None
      | Some (blk, boff) \<Rightarrow>
          (case eb_read s blk of None \<Rightarrow> Some None
           | Some buf \<Rightarrow> do { bs \<leftarrow> get_buf buf boff 128; Some (Some (dec_inode bs)) })) }"

definition write_inode :: "u32 \<Rightarrow> ext2_inode \<Rightarrow> ext2 \<Rightarrow> (int \<times> ext2) option" where
  "write_inode n ino s = do {
     p \<leftarrow> inode_place s n;
     (case p of None \<Rightarrow> Some (-1, s)
      | Some (blk, boff) \<Rightarrow>
          (case eb_read s blk of None \<Rightarrow> Some (-1, s)
           | Some buf \<Rightarrow> do { buf \<leftarrow> put_buf buf boff (enc_inode ino); Some (eb_write blk buf s) })) }"

subsection \<open>Writing the metadata back\<close>

definition write_super :: "ext2 \<Rightarrow> int \<times> ext2" where
  "write_super s = eb_write (s_first_data_block (x_sb s)) (enc_super (x_sb s)) s"

definition write_group_desc :: "nat \<Rightarrow> ext2 \<Rightarrow> (int \<times> ext2) option" where
  "write_group_desc g s =
     (let gdt_block = s_first_data_block (x_sb s) + 1 + word_of_nat (g div 32) in
      case eb_read s gdt_block of None \<Rightarrow> Some (-1, s)
      | Some buf \<Rightarrow> do {
          d \<leftarrow> group_at s g;
          buf \<leftarrow> put_buf buf (g mod 32 * 32) (enc_group d);
          Some (eb_write gdt_block buf s) })"

text \<open>Both, with their results ignored, as every change of a count does.\<close>

definition sync_counts :: "nat \<Rightarrow> ext2 \<Rightarrow> ext2 option" where
  "sync_counts g s = do { (r, s) \<leftarrow> write_group_desc g s; Some (snd (write_super s)) }"

subsection \<open>Bitmaps\<close>

definition bm_get :: "u8 list \<Rightarrow> nat \<Rightarrow> bool option" where
  "bm_get bm i = do { b \<leftarrow> buf8 bm (i div 8); Some (bit b (i mod 8)) }"

definition bm_set :: "u8 list \<Rightarrow> nat \<Rightarrow> bool \<Rightarrow> u8 list" where
  "bm_set bm i v = bm[i div 8 := (if v then set_bit else unset_bit) (i mod 8) (bm ! (i div 8))]"

primrec bitmap_find_in :: "u8 list \<Rightarrow> nat list \<Rightarrow> nat option option" where
  "bitmap_find_in bm [] = Some None"
| "bitmap_find_in bm (i # is) = do { b \<leftarrow> bm_get bm i; if b then bitmap_find_in bm is else Some (Some i) }"

definition bitmap_find_free :: "u8 list \<Rightarrow> nat \<Rightarrow> nat option option" where
  "bitmap_find_free bm nbits = bitmap_find_in bm [0..<nbits]"

text \<open>Claiming or releasing bit \<open>i\<close> of the bitmap in block \<open>b\<close>, then the counts of group \<open>g\<close>.\<close>

definition commit_bit ::
  "u32 \<Rightarrow> u8 list \<Rightarrow> nat \<Rightarrow> (ext2_group_desc \<Rightarrow> ext2_group_desc) \<Rightarrow> (ext2_super \<Rightarrow> ext2_super) \<Rightarrow> ext2 \<Rightarrow> (bool \<times> ext2) option" where
  "commit_bit b bm g fd fs s =
     (case eb_write b bm s of (r, s) \<Rightarrow>
        if r \<noteq> 0 then Some (False, s)
        else do {
          d \<leftarrow> group_at s g;
          let s = put_group g (fd d) s;
          s \<leftarrow> sync_counts g (s\<lparr>x_sb := fs (x_sb s)\<rparr>);
          Some (True, s) })"

primrec alloc_block_in :: "nat list \<Rightarrow> ext2 \<Rightarrow> (u32 \<times> ext2) option" where
  "alloc_block_in [] s = Some (0, s)"
| "alloc_block_in (g # gs) s = do {
     d \<leftarrow> group_at s g;
     if bg_free_blocks_count d = 0 then alloc_block_in gs s
     else case eb_read s (bg_block_bitmap d) of None \<Rightarrow> Some (0, s)
     | Some bm \<Rightarrow> do {
         r \<leftarrow> bitmap_find_free bm (unat (s_blocks_per_group (x_sb s)));
         (case r of None \<Rightarrow> alloc_block_in gs s
          | Some i \<Rightarrow> do {
              (ok, s') \<leftarrow> commit_bit (bg_block_bitmap d) (bm_set bm i True) g
                 (\<lambda>d. d\<lparr>bg_free_blocks_count := bg_free_blocks_count d - 1\<rparr>)
                 (\<lambda>sb. sb\<lparr>s_free_blocks_count := s_free_blocks_count sb - 1\<rparr>) s;
              Some (if ok then word_of_nat g * s_blocks_per_group (x_sb s') + s_first_data_block (x_sb s') + word_of_nat i
                    else 0, s') }) } }"

definition alloc_block :: "ext2 \<Rightarrow> (u32 \<times> ext2) option" where
  "alloc_block s = alloc_block_in [0..<unat (x_ngroups s)] s"

definition free_block :: "u32 \<Rightarrow> ext2 \<Rightarrow> ext2 option" where
  "free_block b s =
     (if b < s_first_data_block (x_sb s) then Some s
      else if s_blocks_per_group (x_sb s) = 0 then None
      else let rel = b - s_first_data_block (x_sb s); g = rel div s_blocks_per_group (x_sb s);
               i = unat (rel mod s_blocks_per_group (x_sb s)) in
        if g \<ge> x_ngroups s then Some s
        else do {
          d \<leftarrow> group_at s (unat g);
          (case eb_read s (bg_block_bitmap d) of None \<Rightarrow> Some s
           | Some bm \<Rightarrow> do {
               used \<leftarrow> bm_get bm i;
               if \<not> used then Some s
               else map_option snd (commit_bit (bg_block_bitmap d) (bm_set bm i False) (unat g)
                 (\<lambda>d. d\<lparr>bg_free_blocks_count := bg_free_blocks_count d + 1\<rparr>)
                 (\<lambda>sb. sb\<lparr>s_free_blocks_count := s_free_blocks_count sb + 1\<rparr>) s) }) })"

primrec inode_find_in :: "ext2_super \<Rightarrow> nat \<Rightarrow> u8 list \<Rightarrow> nat list \<Rightarrow> (nat \<times> u32) option option" where
  "inode_find_in sb g bm [] = Some None"
| "inode_find_in sb g bm (i # is) = do {
     b \<leftarrow> bm_get bm i;
     if b then inode_find_in sb g bm is
     else let inum = word_of_nat g * s_inodes_per_group sb + word_of_nat i + 1 in
       if inum < s_first_ino sb then inode_find_in sb g bm is else Some (Some (i, inum)) }"

primrec alloc_inode_in :: "bool \<Rightarrow> nat list \<Rightarrow> ext2 \<Rightarrow> (u32 \<times> ext2) option" where
  "alloc_inode_in is_dir [] s = Some (0, s)"
| "alloc_inode_in is_dir (g # gs) s = do {
     d \<leftarrow> group_at s g;
     if bg_free_inodes_count d = 0 then alloc_inode_in is_dir gs s
     else case eb_read s (bg_inode_bitmap d) of None \<Rightarrow> Some (0, s)
     | Some bm \<Rightarrow> do {
         r \<leftarrow> inode_find_in (x_sb s) g bm [0..<unat (s_inodes_per_group (x_sb s))];
         (case r of None \<Rightarrow> alloc_inode_in is_dir gs s
          | Some (i, inum) \<Rightarrow> do {
              (ok, s) \<leftarrow> commit_bit (bg_inode_bitmap d) (bm_set bm i True) g
                 (\<lambda>d. d\<lparr>bg_free_inodes_count := bg_free_inodes_count d - 1,
                        bg_used_dirs_count := bg_used_dirs_count d + (if is_dir then 1 else 0)\<rparr>)
                 (\<lambda>sb. sb\<lparr>s_free_inodes_count := s_free_inodes_count sb - 1\<rparr>) s;
              Some (if ok then inum else 0, s) }) } }"

definition alloc_inode :: "bool \<Rightarrow> ext2 \<Rightarrow> (u32 \<times> ext2) option" where
  "alloc_inode is_dir s = alloc_inode_in is_dir [0..<unat (x_ngroups s)] s"

definition free_inode :: "u32 \<Rightarrow> bool \<Rightarrow> ext2 \<Rightarrow> ext2 option" where
  "free_inode n was_dir s =
     (if n = 0 then Some s
      else if s_inodes_per_group (x_sb s) = 0 then None
      else let g = (n - 1) div s_inodes_per_group (x_sb s); i = unat ((n - 1) mod s_inodes_per_group (x_sb s)) in
        if g \<ge> x_ngroups s then Some s
        else do {
          d \<leftarrow> group_at s (unat g);
          (case eb_read s (bg_inode_bitmap d) of None \<Rightarrow> Some s
           | Some bm \<Rightarrow> do {
               b \<leftarrow> bm_get bm i;
               map_option snd (commit_bit (bg_inode_bitmap d) (bm_set bm i False) (unat g)
                 (\<lambda>d. d\<lparr>bg_free_inodes_count := bg_free_inodes_count d + 1,
                        bg_used_dirs_count := bg_used_dirs_count d -
                          (if was_dir \<and> bg_used_dirs_count d > 0 then 1 else 0)\<rparr>)
                 (\<lambda>sb. sb\<lparr>s_free_inodes_count := s_free_inodes_count sb + 1\<rparr>) s) }) })"

subsection \<open>The block map\<close>

definition ind_entry :: "ext2 \<Rightarrow> u32 \<Rightarrow> nat \<Rightarrow> u32 option" where
  "ind_entry s blk i =
     (if blk = 0 then Some 0
      else case eb_read s blk of None \<Rightarrow> Some 0 | Some buf \<Rightarrow> buf32 buf (i * 4))"

definition bmap :: "ext2 \<Rightarrow> ext2_inode \<Rightarrow> u32 \<Rightarrow> u32 option" where
  "bmap s ino b =
     (if b < 12 then Some (i_block ino ! unat b)
      else let b = b - 12 in
      if b < 256 then ind_entry s (i_block ino ! 12) (unat b)
      else let b = b - 256 in
      if b < 65536 then do {
        mid \<leftarrow> ind_entry s (i_block ino ! 13) (unat (b div 256));
        ind_entry s mid (unat (b mod 256)) }
      else let b = b - 65536 in do {
        hi \<leftarrow> ind_entry s (i_block ino ! 14) (unat (b div 65536));
        mid \<leftarrow> ind_entry s hi (unat (b div 256 mod 256));
        ind_entry s mid (unat (b mod 256)) })"

definition ptr_get :: "ext2 \<Rightarrow> u32 \<Rightarrow> nat \<Rightarrow> u32 option" where
  "ptr_get s blk i = (case eb_read s blk of None \<Rightarrow> Some 0 | Some buf \<Rightarrow> buf32 buf (i * 4))"

definition ptr_set :: "u32 \<Rightarrow> nat \<Rightarrow> u32 \<Rightarrow> ext2 \<Rightarrow> (int \<times> ext2) option" where
  "ptr_set blk i v s =
     (case eb_read s blk of None \<Rightarrow> Some (-1, s)
      | Some buf \<Rightarrow> do { buf \<leftarrow> put_buf buf (i * 4) (enc32 v); Some (eb_write blk buf s) })"

definition alloc_zeroed_block :: "ext2 \<Rightarrow> (u32 \<times> ext2) option" where
  "alloc_zeroed_block s = do {
     (b, s) \<leftarrow> alloc_block s;
     if b = 0 then Some (0, s)
     else case eb_write b (replicate 1024 0) s of (r, s) \<Rightarrow> Some (if r \<noteq> 0 then 0 else b, s) }"

definition count_block :: "ext2_inode \<Rightarrow> ext2_inode" where
  "count_block ino = ino\<lparr>i_blocks := i_blocks ino + 2\<rparr>"

text \<open>The block of a slot of the inode, allocated where it is missing; 0 for no space.\<close>

definition ensure_root :: "nat \<Rightarrow> ext2_inode \<Rightarrow> ext2 \<Rightarrow> (u32 \<times> ext2_inode \<times> ext2) option" where
  "ensure_root k ino s =
     (if i_block ino ! k = 0 then do {
        (nb, s) \<leftarrow> alloc_zeroed_block s;
        Some (if nb = 0 then (0, ino, s)
              else (nb, count_block (ino\<lparr>i_block := (i_block ino)[k := nb]\<rparr>), s)) }
      else Some (i_block ino ! k, ino, s))"

text \<open>The same for entry \<open>i\<close> of the pointer block \<open>blk\<close>.\<close>

definition ensure_child :: "u32 \<Rightarrow> nat \<Rightarrow> ext2_inode \<Rightarrow> ext2 \<Rightarrow> (u32 \<times> ext2_inode \<times> ext2) option" where
  "ensure_child blk i ino s = do {
     v \<leftarrow> ptr_get s blk i;
     if v \<noteq> 0 then Some (v, ino, s)
     else do {
       (nb, s) \<leftarrow> alloc_zeroed_block s;
       if nb = 0 then Some (0, ino, s)
       else do {
         (r, s) \<leftarrow> ptr_set blk i nb s;
         Some (if r \<noteq> 0 then (0, ino, s) else (nb, count_block ino, s)) } } }"

definition bmap_alloc :: "ext2_inode \<Rightarrow> u32 \<Rightarrow> ext2 \<Rightarrow> (u32 \<times> ext2_inode \<times> ext2) option" where
  "bmap_alloc ino b s =
     (if b < 12 then ensure_root (unat b) ino s
      else let b = b - 12 in
      if b < 256 then do {
        (ind, ino, s) \<leftarrow> ensure_root 12 ino s;
        if ind = 0 then Some (0, ino, s) else ensure_child ind (unat b) ino s }
      else let b = b - 256 in
      if b < 65536 then do {
        (dind, ino, s) \<leftarrow> ensure_root 13 ino s;
        if dind = 0 then Some (0, ino, s) else do {
          (mid, ino, s) \<leftarrow> ensure_child dind (unat (b div 256)) ino s;
          if mid = 0 then Some (0, ino, s) else ensure_child mid (unat (b mod 256)) ino s } }
      else let b = b - 65536 in do {
        (tind, ino, s) \<leftarrow> ensure_root 14 ino s;
        if tind = 0 then Some (0, ino, s) else do {
          (hi, ino, s) \<leftarrow> ensure_child tind (unat (b div 65536)) ino s;
          if hi = 0 then Some (0, ino, s) else do {
            (mid, ino, s) \<leftarrow> ensure_child hi (unat (b div 256 mod 256)) ino s;
            if mid = 0 then Some (0, ino, s) else ensure_child mid (unat (b mod 256)) ino s } } })"

subsection \<open>Vnodes\<close>

definition mkvnode :: "u32 \<Rightarrow> ext2 \<Rightarrow> (nat option \<times> ext2) option" where
  "mkvnode inum s = do {
     r \<leftarrow> read_inode s inum;
     (case r of None \<Rightarrow> Some (None, s)
      | Some ino \<Rightarrow>
          let s' = s\<lparr>x_calls := Suc (x_calls s)\<rparr> in
          if \<not> x_malloc s (x_calls s) then Some (None, s')
          else let fmt = i_mode ino AND 0xF000;
                   t = (if fmt = 0x4000 then VN_DIR else if fmt = 0xA000 then VN_SYMLINK else VN_FILE)
            in Some (Some (length (x_vnodes s)), s'\<lparr>x_vnodes := x_vnodes s @
                 [\<lparr>xv_type = t, xv_size = ucast (i_size ino), xv_inum = inum\<rparr>]\<rparr>)) }"

definition inum_of :: "ext2 \<Rightarrow> nat \<Rightarrow> u32" where "inum_of s vn = xv_inum (x_vnodes s ! vn)"

definition set_vnode_size :: "nat \<Rightarrow> u32 \<Rightarrow> ext2 \<Rightarrow> ext2" where
  "set_vnode_size vn sz s = s\<lparr>x_vnodes := (x_vnodes s)[vn := (x_vnodes s ! vn)\<lparr>xv_size := ucast sz\<rparr>]\<rparr>"

subsection \<open>Reading and writing data\<close>

text \<open>\<open>done\<close> bytes are copied, to the buffer or from it; \<open>blk_slice\<close> is what the next turn covers.\<close>

definition blk_slice :: "u64 \<Rightarrow> nat \<Rightarrow> nat \<Rightarrow> u32 \<times> nat \<times> nat" where
  "blk_slice off k len =
     (let pos = off + word_of_nat k; boff = unat (pos mod 1024)
      in (ucast (pos div 1024), boff, min (1024 - boff) (len - k)))"

lemma blk_slice_progress: "blk_slice off k len = (bi, boff, n) \<Longrightarrow> k < len \<Longrightarrow> 0 < n \<and> boff + n \<le> 1024 \<and> k + n \<le> len"
proof -
  assume s: "blk_slice off k len = (bi, boff, n)" and k: "k < len"
  from s have b: "boff = unat ((off + word_of_nat k) mod 1024)" and n: "n = min (1024 - boff) (len - k)"
    unfolding blk_slice_def Let_def prod.inject by blast+
  have "unat ((off + word_of_nat k) mod 1024) = unat (off + word_of_nat k) mod 1024"
    by (simp add: unat_mod)
  then have "boff < 1024" unfolding b by simp
  with n k show ?thesis by auto
qed

function ext2_read_loop :: "ext2 \<Rightarrow> ext2_inode \<Rightarrow> u64 \<Rightarrow> nat \<Rightarrow> u8 list \<Rightarrow> u8 list option" where
  "ext2_read_loop s ino off len out =
     (if length out < len then
        (case blk_slice off (length out) len of (bi, boff, n) \<Rightarrow>
           (case bmap s ino bi of None \<Rightarrow> None
            | Some phys \<Rightarrow>
                if phys = 0 then ext2_read_loop s ino off len (out @ replicate n 0)
                else case eb_read s phys of None \<Rightarrow> Some out
                | Some blk \<Rightarrow> ext2_read_loop s ino off len (out @ map (\<lambda>i. blk ! (boff + i)) [0..<n])))
      else Some out)"
  by pat_completeness auto
termination
  by (relation "measure (\<lambda>(s, ino, off, len, out). len - length out)")
    (auto dest!: sym [of "(_, _)" "blk_slice _ _ _"] dest: blk_slice_progress)

declare ext2_read_loop.simps [simp del]

definition ext2_read :: "nat \<Rightarrow> u64 \<Rightarrow> u64 \<Rightarrow> ext2 \<Rightarrow> ((int \<times> u8 list) \<times> ext2) option" where
  "ext2_read vn off len s = do {
     r \<leftarrow> read_inode s (inum_of s vn);
     (case r of None \<Rightarrow> Some ((-1, []), s)
      | Some ino \<Rightarrow>
          let size = ucast (i_size ino) :: u64 in
          if off \<ge> size then Some ((0, []), s)
          else let len = (if off + len > size then size - off else len) in do {
            out \<leftarrow> ext2_read_loop s ino off (unat len) [];
            Some ((int_of_u64 (word_of_nat (length out)), out), s) }) }"

function ext2_write_loop :: "u64 \<Rightarrow> u8 list \<Rightarrow> nat \<Rightarrow> ext2_inode \<Rightarrow> ext2 \<Rightarrow> (nat \<times> ext2_inode \<times> ext2) option" where
  "ext2_write_loop off src k ino s =
     (if k < length src then
        (case blk_slice off k (length src) of (bi, boff, n) \<Rightarrow>
           (case bmap_alloc ino bi s of None \<Rightarrow> None
            | Some (phys, ino, s) \<Rightarrow>
                if phys = 0 then Some (k, ino, s)
                else case eb_read s phys of None \<Rightarrow> Some (k, ino, s)
                | Some blk \<Rightarrow>
                    (case put_buf blk boff (take n (drop k src)) of None \<Rightarrow> None
                     | Some blk \<Rightarrow>
                         (case eb_write phys blk s of (r, s) \<Rightarrow>
                            if r \<noteq> 0 then Some (k, ino, s) else ext2_write_loop off src (k + n) ino s))))
      else Some (k, ino, s))"
  by pat_completeness auto
termination
  by (relation "measure (\<lambda>(off, src, k, ino, s). length src - k)")
    (auto dest!: sym [of "(_, _)" "blk_slice _ _ _"] dest: blk_slice_progress)

declare ext2_write_loop.simps [simp del]

definition ext2_write :: "nat \<Rightarrow> u64 \<Rightarrow> u8 list \<Rightarrow> ext2 \<Rightarrow> (int \<times> ext2) option" where
  "ext2_write vn off src s = do {
     let inum = inum_of s vn;
     r \<leftarrow> read_inode s inum;
     (case r of None \<Rightarrow> Some (-1, s)
      | Some ino \<Rightarrow> do {
          (k, ino, s) \<leftarrow> ext2_write_loop off src 0 ino s;
          let end = off + word_of_nat k;
          let ino = (if end > ucast (i_size ino) then ino\<lparr>i_size := ucast end\<rparr> else ino);
          (r, s) \<leftarrow> write_inode inum ino s;
          Some (if r \<noteq> 0 then (-1, s)
                else (int_of_u64 (word_of_nat k), set_vnode_size vn (i_size ino) s)) }) }"

subsection \<open>Freeing the blocks of a file\<close>

text \<open>A tree of \<open>l\<close> levels of pointer blocks: what its entries lead to, then the block itself.\<close>

primrec free_tree :: "nat \<Rightarrow> u32 \<Rightarrow> ext2 \<Rightarrow> ext2 option" where
  "free_tree 0 b s = free_block b s"
| "free_tree (Suc l) b s = do {
     s \<leftarrow> fold_option (\<lambda>i s. do { d \<leftarrow> ptr_get s b i; if d = 0 then Some s else free_tree l d s }) [0..<256] s;
     free_block b s }"

definition free_root :: "nat \<Rightarrow> nat \<Rightarrow> ext2_inode \<times> ext2 \<Rightarrow> (ext2_inode \<times> ext2) option" where
  "free_root l k = (\<lambda>(ino, s).
     if i_block ino ! k = 0 then Some (ino, s)
     else do { s \<leftarrow> free_tree l (i_block ino ! k) s; Some (ino\<lparr>i_block := (i_block ino)[k := 0]\<rparr>, s) })"

definition free_inode_blocks :: "ext2_inode \<Rightarrow> ext2 \<Rightarrow> (ext2_inode \<times> ext2) option" where
  "free_inode_blocks ino s = do {
     x \<leftarrow> fold_option (free_root 0) [0..<12] (ino, s);
     x \<leftarrow> free_root 1 12 x;
     x \<leftarrow> free_root 2 13 x;
     free_root 3 14 x }"

definition ext2_truncate :: "nat \<Rightarrow> ext2 \<Rightarrow> (int \<times> ext2) option" where
  "ext2_truncate vn s = do {
     let inum = inum_of s vn;
     r \<leftarrow> read_inode s inum;
     (case r of None \<Rightarrow> Some (-1, s)
      | Some ino \<Rightarrow> do {
          (ino, s) \<leftarrow> free_inode_blocks ino s;
          (r, s) \<leftarrow> write_inode inum (ino\<lparr>i_size := 0, i_blocks := 0\<rparr>) s;
          Some (if r \<noteq> 0 then (-1, s) else (0, set_vnode_size vn 0 s)) }) }"

end
