(* ===== verification/Ext2_Blocks.thy ===== *)
theory Ext2_Blocks
  imports Ext2
begin

text \<open>
  Inodes and bitmaps on a disk that answers every request: what the metadata of \<open>Ext2\<close> keeps, and the
  set of blocks in use as the abstract state of the allocator.
\<close>

subsection \<open>A disk that works\<close>

definition io_ok :: "ext2 \<Rightarrow> bool" where
  "io_ok s \<longleftrightarrow> (\<forall>k. \<not> x_rfail s k \<and> \<not> x_wfail s k \<and> length (x_disk s k) = 512)"

definition eblock :: "ext2 \<Rightarrow> u32 \<Rightarrow> u8 list" where
  "eblock s b = x_disk s (ucast b * 2) @ x_disk s (ucast b * 2 + 1)"

definition put_block :: "u32 \<Rightarrow> u8 list \<Rightarrow> ext2 \<Rightarrow> ext2" where
  "put_block b buf s = put_sector (ucast b * 2 + 1) (drop 512 buf) (put_sector (ucast b * 2) (take 512 buf) s)"

lemma unat_sectors:
  "unat (ucast (b :: u32) * 2 :: u64) = 2 * unat b" "unat (ucast b * 2 + 1 :: u64) = 2 * unat b + 1"
proof -
  have u: "unat (ucast b :: u64) = unat b"
    using unat_u32_less [of b] by (simp add: unsigned_ucast_eq unsigned_take_bit_eq take_bit_nat_eq_self)
  then show d: "unat (ucast b * 2 :: u64) = 2 * unat b"
    using unat_u32_less [of b] by (simp add: unat_word_ariths)
  show "unat (ucast b * 2 + 1 :: u64) = 2 * unat b + 1"
    using d u unat_u32_less [of b] by (simp add: unat_word_ariths)
qed

lemma sectors_inj [simp]:
  "(ucast (b :: u32) * 2 :: u64) = ucast c * 2 \<longleftrightarrow> b = c"
  "(ucast b * 2 + 1 :: u64) = ucast c * 2 + 1 \<longleftrightarrow> b = c"
  "(ucast b * 2 + 1 :: u64) \<noteq> ucast c * 2" "(ucast b * 2 :: u64) \<noteq> ucast c * 2 + 1"
  by (auto simp only: word_unat_eq_iff unat_sectors) presburger+

lemma eb_read_ok [simp]: "io_ok s \<Longrightarrow> eb_read s b = Some (eblock s b)"
  by (simp add: eb_read_def io_ok_def eblock_def Let_def)

lemma length_eblock [simp]: "io_ok s \<Longrightarrow> length (eblock s b) = 1024"
  by (simp add: io_ok_def eblock_def)

lemma eb_write_ok [simp]: "io_ok s \<Longrightarrow> eb_write b buf s = (0, put_block b buf s)"
  by (simp add: eb_write_def io_ok_def put_block_def put_sector_def Let_def)

lemma eblock_put_block [simp]: "eblock (put_block b buf s) c = (if c = b then buf else eblock s c)"
  by (simp add: eblock_def put_block_def put_sector_def)

lemma put_block_fields [simp]:
  "x_sb (put_block b buf s) = x_sb s" "x_gdt (put_block b buf s) = x_gdt s"
  "x_ngroups (put_block b buf s) = x_ngroups s" "x_inode_size (put_block b buf s) = x_inode_size s"
  "x_vnodes (put_block b buf s) = x_vnodes s"
  by (simp_all add: put_block_def put_sector_def)

lemma io_ok_put_block [simp]: "io_ok s \<Longrightarrow> length buf = 1024 \<Longrightarrow> io_ok (put_block b buf s)"
  by (simp add: io_ok_def put_block_def put_sector_def)

lemma eblock_update [simp]:
  "eblock (x_sb_update f s) c = eblock s c" "eblock (x_gdt_update h s) c = eblock s c"
  "io_ok (x_sb_update f s) = io_ok s" "io_ok (x_gdt_update h s) = io_ok s"
  by (simp_all add: eblock_def io_ok_def)

subsection \<open>Where an inode lies\<close>

text \<open>
  The geometry that \<open>mke2fs\<close> lays down and the mount does not check: an inode of a size that divides
  a block, and inode tables that lie apart.
\<close>

definition itab_len :: "ext2 \<Rightarrow> nat" where
  "itab_len s = (unat (s_inodes_per_group (x_sb s)) * unat (x_inode_size s) + 1023) div 1024"

definition itab :: "ext2 \<Rightarrow> nat \<Rightarrow> nat" where "itab s g = unat (bg_inode_table (x_gdt s ! g))"

definition itab_ok :: "ext2 \<Rightarrow> bool" where
  "itab_ok s \<longleftrightarrow> 0 < unat (s_inodes_per_group (x_sb s)) \<and> length (x_gdt s) = unat (x_ngroups s) \<and>
     128 \<le> unat (x_inode_size s) \<and> unat (x_inode_size s) dvd 1024 \<and>
     (\<forall>g < unat (x_ngroups s). itab s g + itab_len s < 2 ^ 32) \<and>
     (\<forall>g < unat (x_ngroups s). \<forall>h < unat (x_ngroups s). g \<noteq> h \<longrightarrow>
        itab s g + itab_len s \<le> itab s h \<or> itab s h + itab_len s \<le> itab s g)"

definition inode_group :: "ext2 \<Rightarrow> u32 \<Rightarrow> nat" where
  "inode_group s n = (unat n - 1) div unat (s_inodes_per_group (x_sb s))"

definition inode_pos :: "ext2 \<Rightarrow> u32 \<Rightarrow> nat" where
  "inode_pos s n = (unat n - 1) mod unat (s_inodes_per_group (x_sb s)) * unat (x_inode_size s)"

text \<open>The inode numbers that the driver accepts.\<close>

definition valid_inum :: "ext2 \<Rightarrow> u32 \<Rightarrow> bool" where
  "valid_inum s n \<longleftrightarrow> n \<noteq> 0 \<and> inode_group s n < unat (x_ngroups s)"

lemma itab_okD:
  assumes "itab_ok s"
  shows "0 < unat (s_inodes_per_group (x_sb s))" "length (x_gdt s) = unat (x_ngroups s)"
    "128 \<le> unat (x_inode_size s)" "unat (x_inode_size s) dvd 1024"
    "g < unat (x_ngroups s) \<Longrightarrow> itab s g + itab_len s < 2 ^ 32"
    "g < unat (x_ngroups s) \<Longrightarrow> h < unat (x_ngroups s) \<Longrightarrow> g \<noteq> h \<Longrightarrow>
       itab s g + itab_len s \<le> itab s h \<or> itab s h + itab_len s \<le> itab s g"
  using assms unfolding itab_ok_def by blast+

lemma inode_pos_less: "itab_ok s \<Longrightarrow> inode_pos s n div 1024 < itab_len s"
proof -
  assume ok: "itab_ok s"
  let ?p = "unat (s_inodes_per_group (x_sb s))" and ?z = "unat (x_inode_size s)"
  have "inode_pos s n < ?p * ?z"
    using itab_okD(1,3) [OF ok] by (simp add: inode_pos_def)
  moreover have "?p * ?z \<le> itab_len s * 1024" unfolding itab_len_def by linarith
  ultimately show ?thesis by (simp add: less_mult_imp_div_less)
qed

text \<open>An inode does not cross the end of its block.\<close>

lemma inode_pos_fits: "itab_ok s \<Longrightarrow> inode_pos s n mod 1024 + 128 \<le> 1024"
proof -
  assume ok: "itab_ok s"
  let ?z = "unat (x_inode_size s)"
  obtain q where q: "1024 = ?z * q" using itab_okD(4) [OF ok] by (rule dvdE)
  then have q0: "0 < q" by (cases q) auto
  define i where "i = (unat n - 1) mod unat (s_inodes_per_group (x_sb s))"
  have "inode_pos s n mod 1024 = ?z * (i mod q)"
    unfolding inode_pos_def i_def [symmetric] q by (simp add: mult.commute mult_mod_right)
  also have "\<dots> + ?z \<le> ?z * q"
  proof -
    have "Suc (i mod q) \<le> q" using q0 by (simp add: Suc_leI)
    then have "?z * Suc (i mod q) \<le> ?z * q" by (rule mult_le_mono2)
    then show ?thesis by simp
  qed
  finally show ?thesis using q itab_okD(3) [OF ok] by linarith
qed

lemma inode_place_ok:
  assumes ok: "itab_ok s" and v: "valid_inum s n"
  shows "\<exists>b. inode_place s n = Some (Some (b, inode_pos s n mod 1024)) \<and>
     unat b = itab s (inode_group s n) + inode_pos s n div 1024"
proof -
  let ?p = "s_inodes_per_group (x_sb s)" and ?z = "x_inode_size s"
  have n: "n \<noteq> 0" "inode_group s n < unat (x_ngroups s)" using v by (simp_all add: valid_inum_def)
  have u: "unat (n - 1) = unat n - 1" using n(1) by (simp add: unat_minus_one)
  have g: "unat ((n - 1) div ?p) = inode_group s n" "unat ((n - 1) mod ?p) = (unat n - 1) mod unat ?p"
    by (simp_all add: inode_group_def unat_div unat_mod u)
  define byte :: u64 where "byte = ucast ((n - 1) mod ?p) * ucast ?z"
  have c: "unat (ucast w :: u64) = unat w" for w :: u32
    using unat_u32_less [of w] by (simp add: unsigned_ucast_eq unsigned_take_bit_eq take_bit_nat_eq_self)
  have byte: "unat byte = inode_pos s n"
  proof -
    have z: "unat ?z \<le> 1024" using itab_okD(4) [OF ok] by (rule dvd_imp_le) simp
    have "unat ((n - 1) mod ?p) * unat ?z < 4294967296 * 1025"
      using unat_u32_less [of "(n - 1) mod ?p"] z by (intro mult_strict_mono) auto
    then show ?thesis unfolding byte_def inode_pos_def g(2) [symmetric] by (simp add: unat_word_ariths c)
  qed
  have d: "unat (ucast (byte div 1024) :: u32) = inode_pos s n div 1024"
  proof -
    have "inode_pos s n div 1024 < 2 ^ 32" using inode_pos_less [OF ok, of n] itab_okD(5) [OF ok n(2)] by linarith
    then show ?thesis
      using byte by (simp add: unsigned_ucast_eq unsigned_take_bit_eq take_bit_nat_eq_self unat_div)
  qed
  define b where "b = bg_inode_table (x_gdt s ! inode_group s n) + ucast (byte div 1024)"
  have "unat b = itab s (inode_group s n) + inode_pos s n div 1024"
    using inode_pos_less [OF ok, of n] itab_okD(5) [OF ok n(2)] d
    by (simp add: b_def itab_def unat_word_ariths)
  moreover have "inode_place s n = Some (Some (b, inode_pos s n mod 1024))"
  proof -
    have "\<not> x_ngroups s \<le> (n - 1) div ?p" using n(2) g(1) by (simp add: word_le_nat_alt)
    moreover have "?p \<noteq> 0" using itab_okD(1) [OF ok] by auto
    moreover have "unat (byte mod 1024) = inode_pos s n mod 1024" using byte by (simp add: unat_mod)
    ultimately show ?thesis
      using n itab_okD(2) [OF ok] g(1)
      by (simp add: inode_place_def Let_def group_at_def b_def byte_def)
  qed
  ultimately show ?thesis by blast
qed

text \<open>Two inodes lie in different blocks or apart in one block.\<close>

lemma mult_apart: "i < j \<Longrightarrow> i * z + z \<le> j * (z :: nat)"
  using mult_le_mono1 [of "Suc i" j z] by simp

lemma same_block_apart:
  "(p :: nat) + z \<le> q \<Longrightarrow> p div 1024 = q div 1024 \<Longrightarrow> p mod 1024 + z \<le> q mod 1024"
  using div_mult_mod_eq [of p 1024] div_mult_mod_eq [of q 1024] by linarith

lemma inodes_apart:
  assumes ok: "itab_ok s" and v: "valid_inum s m" "valid_inum s n" "m \<noteq> n"
  shows "itab s (inode_group s m) + inode_pos s m div 1024 \<noteq> itab s (inode_group s n) + inode_pos s n div 1024 \<or>
     inode_pos s m mod 1024 + 128 \<le> inode_pos s n mod 1024 \<or> inode_pos s n mod 1024 + 128 \<le> inode_pos s m mod 1024"
proof (cases "inode_group s m = inode_group s n")
  case False
  have l: "inode_pos s m div 1024 < itab_len s" "inode_pos s n div 1024 < itab_len s"
    using inode_pos_less [OF ok] by simp_all
  have "inode_group s m < unat (x_ngroups s)" "inode_group s n < unat (x_ngroups s)"
    using v by (simp_all add: valid_inum_def)
  from itab_okD(6) [OF ok this False] l show ?thesis by linarith
next
  case True
  let ?p = "unat (s_inodes_per_group (x_sb s))" and ?z = "unat (x_inode_size s)"
  let ?i = "(unat m - 1) mod ?p" and ?j = "(unat n - 1) mod ?p"
  have "unat m \<noteq> 0" "unat n \<noteq> 0" using v by (simp_all add: valid_inum_def unat_eq_0)
  moreover have "unat m \<noteq> unat n" using v(3) by (simp add: word_unat_eq_iff)
  ultimately have "unat m - 1 \<noteq> unat n - 1" by linarith
  then have "?i \<noteq> ?j" using True unfolding inode_group_def by (metis div_mult_mod_eq)
  then have "inode_pos s m + ?z \<le> inode_pos s n \<or> inode_pos s n + ?z \<le> inode_pos s m"
    unfolding inode_pos_def using mult_apart [of ?i ?j ?z] mult_apart [of ?j ?i ?z] by (meson linorder_neqE_nat)
  then have "inode_pos s m + 128 \<le> inode_pos s n \<or> inode_pos s n + 128 \<le> inode_pos s m"
    using itab_okD(3) [OF ok] by linarith
  then show ?thesis
    using same_block_apart [of "inode_pos s m" 128 "inode_pos s n"]
      same_block_apart [of "inode_pos s n" 128 "inode_pos s m"] True by auto
qed

lemma inode_place_put [simp]: "inode_place (put_block b buf s) n = inode_place s n"
  by (simp add: inode_place_def group_at_def Let_def)

lemma itab_ok_put [simp]: "itab_ok (put_block b buf s) = itab_ok s"
  by (simp add: itab_ok_def itab_len_def itab_def)

lemma inode_place_invalid:
  assumes ok: "itab_ok s" and v: "\<not> valid_inum s n"
  shows "inode_place s n = Some None"
proof (cases "n = 0")
  case False
  then have u: "unat (n - 1) = unat n - 1" by (simp add: unat_minus_one)
  from False v have "x_ngroups s \<le> (n - 1) div s_inodes_per_group (x_sb s)"
    by (simp add: valid_inum_def inode_group_def word_le_nat_alt unat_div u)
  then show ?thesis using False itab_okD(1) [OF ok] by (auto simp: inode_place_def Let_def)
qed (simp add: inode_place_def)

lemma write_inode_ok:
  assumes io: "io_ok s" and ok: "itab_ok s" and v: "valid_inum s n" and ino: "inode_ok ino"
  shows "\<exists>b buf. write_inode n ino s = Some (0, put_block b buf s) \<and> length buf = 1024 \<and>
     unat b = itab s (inode_group s n) + inode_pos s n div 1024 \<and>
     read_inode (put_block b buf s) n = Some (Some ino) \<and>
     (\<forall>m. m \<noteq> n \<longrightarrow> read_inode (put_block b buf s) m = read_inode s m)"
proof -
  let ?k = "inode_pos s n mod 1024"
  obtain b where b: "inode_place s n = Some (Some (b, ?k))" "unat b = itab s (inode_group s n) + inode_pos s n div 1024"
    using inode_place_ok [OF ok v] by blast
  have fit: "inode_pos s m mod 1024 + 128 \<le> length (eblock s c)" for m c
    using inode_pos_fits [OF ok] io by simp
  obtain buf where buf: "put_buf (eblock s b) ?k (enc_inode ino) = Some buf"
    using fit ino by (simp add: put_buf_def)
  have l: "length buf = 1024" using put_length [OF buf] io by simp
  define s' where "s' = put_block b buf s"
  have "write_inode n ino s = Some (0, s')" using io b(1) buf by (simp add: write_inode_def s'_def)
  moreover have "read_inode s' n = Some (Some ino)"
    using io b(1) l put_get_same [OF buf] inode_pos_fits [OF ok, of n] ino
    by (simp add: read_inode_def s'_def dec_enc_inode)
  moreover have "read_inode s' m = read_inode s m" if m: "m \<noteq> n" for m
  proof (cases "valid_inum s m")
    case False
    then show ?thesis using inode_place_invalid [OF ok] by (simp add: read_inode_def s'_def)
  next
    case True
    let ?j = "inode_pos s m mod 1024"
    obtain c where c: "inode_place s m = Some (Some (c, ?j))" "unat c = itab s (inode_group s m) + inode_pos s m div 1024"
      using inode_place_ok [OF ok True] by blast
    have "c \<noteq> b \<or> ?j + 128 \<le> ?k \<or> ?k + 128 \<le> ?j"
      using inodes_apart [OF ok True v m] b(2) c(2) by (auto simp: word_unat_eq_iff)
    then have "take 128 (drop ?j (eblock s' c)) = take 128 (drop ?j (eblock s c))"
      using put_get_before [OF buf] put_get_after [OF buf] ino by (auto simp: s'_def)
    then show ?thesis using io c(1) l inode_pos_fits [OF ok, of m] by (simp add: read_inode_def s'_def)
  qed
  ultimately show ?thesis using l b(2) unfolding s'_def by blast
qed

text \<open>
  C16. An inode is a cell of the inode tables. With tables that lie apart and a disk that answers,
  \<open>write_inode\<close> succeeds, \<open>read_inode\<close> then gives back the inode that was written, field by field, and
  no other inode has changed, also in the same block.
\<close>

theorem inode_roundtrip:
  assumes io: "io_ok s" and ok: "itab_ok s" and v: "valid_inum s n" and ino: "inode_ok ino"
  shows "\<exists>s'. write_inode n ino s = Some (0, s') \<and> io_ok s' \<and> itab_ok s' \<and>
     read_inode s' n = Some (Some ino) \<and> (\<forall>m. m \<noteq> n \<longrightarrow> read_inode s' m = read_inode s m)"
  using write_inode_ok [OF assms] io ok by auto

text \<open>A disk of zeros with one group: inode table in block 5, 16 inodes of 128 bytes; a vnode of inode 12.\<close>

definition blank_disk :: ext2 where
  "blank_disk = \<lparr>x_disk = \<lambda>_. replicate 512 0, x_rfail = \<lambda>_. False, x_wfail = \<lambda>_. False,
     x_sb = (dec_super (replicate 1024 0))\<lparr>s_blocks_count := 65, s_free_blocks_count := 64,
       s_first_data_block := 1, s_blocks_per_group := 64, s_inodes_per_group := 16, s_first_ino := 11\<rparr>,
     x_gdt = [(dec_group (replicate 32 0))\<lparr>bg_block_bitmap := 3, bg_inode_bitmap := 4, bg_inode_table := 5,
       bg_free_blocks_count := 64, bg_free_inodes_count := 16\<rparr>],
     x_ngroups = 1, x_inode_size = 128,
     x_vnodes = [\<lparr>xv_type = VN_FILE, xv_size = 5, xv_inum = 12\<rparr>], x_malloc = \<lambda>_. True, x_calls = 0\<rparr>"

lemma inode_roundtrip_witness:
  "\<exists>s'. write_inode 12 (dec_inode (replicate 128 7)) blank_disk = Some (0, s') \<and> io_ok s' \<and> itab_ok s' \<and>
     read_inode s' 12 = Some (Some (dec_inode (replicate 128 7))) \<and>
     (\<forall>m. m \<noteq> 12 \<longrightarrow> read_inode s' m = read_inode blank_disk m)"
  by (rule inode_roundtrip)
    (simp_all add: io_ok_def itab_ok_def itab_def itab_len_def valid_inum_def inode_group_def blank_disk_def)

subsection \<open>Bits\<close>

lemma bm_get_in: "i div 8 < length bm \<Longrightarrow> bm_get bm i = Some (bit (bm ! (i div 8)) (i mod 8))"
  by (simp add: bm_get_def)

lemma length_bm_set [simp]: "length (bm_set bm i v) = length bm"
  by (simp add: bm_set_def)

lemma div_mod_8: "i div 8 = j div 8 \<Longrightarrow> i mod 8 = j mod 8 \<Longrightarrow> i = (j :: nat)"
  by (metis div_mult_mod_eq)

lemma bit_bm_set:
  "i div 8 < length bm \<Longrightarrow> j div 8 < length bm \<Longrightarrow>
   bit (bm_set bm i v ! (j div 8)) (j mod 8) = (if j = i then v else bit (bm ! (j div 8)) (j mod 8))"
proof (cases "j div 8 = i div 8")
  case True
  then have "j mod 8 = i mod 8 \<longleftrightarrow> j = i" by (meson div_mod_8)
  with True show "i div 8 < length bm \<Longrightarrow> j div 8 < length bm \<Longrightarrow> ?thesis"
    by (auto simp: bm_set_def bit_set_bit_iff bit_unset_bit_iff)
qed (auto simp: bm_set_def)

lemma bitmap_find_in_exact:
  assumes "\<forall>i \<in> set is. i div 8 < length bm"
  shows "\<exists>r. bitmap_find_in bm is = Some r \<and>
     (case r of None \<Rightarrow> \<forall>i \<in> set is. bit (bm ! (i div 8)) (i mod 8)
      | Some i \<Rightarrow> i \<in> set is \<and> \<not> bit (bm ! (i div 8)) (i mod 8))"
  using assms
proof (induction "is")
  case (Cons i "is")
  then obtain r where "bitmap_find_in bm is = Some r" "case r of None \<Rightarrow> \<forall>i \<in> set is. bit (bm ! (i div 8)) (i mod 8)
      | Some i \<Rightarrow> i \<in> set is \<and> \<not> bit (bm ! (i div 8)) (i mod 8)" by auto
  with Cons.prems show ?case by (cases r) (auto simp: bm_get_in)
qed simp

subsection \<open>The blocks in use\<close>

definition bit_used :: "ext2 \<Rightarrow> nat \<Rightarrow> nat \<Rightarrow> bool" where
  "bit_used s g i = bit (eblock s (bg_block_bitmap (x_gdt s ! g)) ! (i div 8)) (i mod 8)"

definition n_groups :: "ext2 \<Rightarrow> nat" where "n_groups s = unat (x_ngroups s)"
definition group_blocks :: "ext2 \<Rightarrow> nat" where "group_blocks s = unat (s_blocks_per_group (x_sb s))"
definition first_block :: "ext2 \<Rightarrow> nat" where "first_block s = unat (s_first_data_block (x_sb s))"

definition used_blocks :: "ext2 \<Rightarrow> nat set" where
  "used_blocks s = {first_block s + g * group_blocks s + i | g i. g < n_groups s \<and> i < group_blocks s \<and> bit_used s g i}"

definition all_blocks :: "ext2 \<Rightarrow> nat set" where
  "all_blocks s = {first_block s..<first_block s + n_groups s * group_blocks s}"

definition free_bits :: "ext2 \<Rightarrow> nat \<Rightarrow> nat" where
  "free_bits s g = card {i. i < group_blocks s \<and> \<not> bit_used s g i}"

definition gdt_blk :: "ext2 \<Rightarrow> nat \<Rightarrow> u32" where
  "gdt_blk s g = s_first_data_block (x_sb s) + 1 + word_of_nat (g div 32)"

text \<open>The blocks that an allocation writes: the superblock, the descriptors and the bitmaps.\<close>

definition meta_blocks :: "ext2 \<Rightarrow> u32 set" where
  "meta_blocks s = {s_first_data_block (x_sb s)} \<union> gdt_blk s ` {..<n_groups s} \<union>
     (\<lambda>d. bg_block_bitmap d) ` set (x_gdt s)"

definition layout_ok :: "ext2 \<Rightarrow> bool" where
  "layout_ok s \<longleftrightarrow> super_ok (x_sb s) \<and> (\<forall>d \<in> set (x_gdt s). group_ok d) \<and> length (x_gdt s) = n_groups s \<and>
     0 < first_block s \<and> 0 < group_blocks s \<and> group_blocks s \<le> 8192 \<and>
     first_block s + n_groups s * group_blocks s \<le> 2 ^ 32 \<and> distinct (map bg_block_bitmap (x_gdt s)) \<and>
     (\<forall>d \<in> set (x_gdt s). bg_block_bitmap d \<noteq> s_first_data_block (x_sb s) \<and>
        (\<forall>h < n_groups s. bg_block_bitmap d \<noteq> gdt_blk s h))"

definition counts_ok :: "ext2 \<Rightarrow> bool" where
  "counts_ok s \<longleftrightarrow> (\<forall>g < n_groups s. unat (bg_free_blocks_count (x_gdt s ! g)) = free_bits s g) \<and>
     unat (s_free_blocks_count (x_sb s)) = (\<Sum>g < n_groups s. free_bits s g)"

definition alloc_ok :: "ext2 \<Rightarrow> bool" where
  "alloc_ok s \<longleftrightarrow> io_ok s \<and> layout_ok s \<and> counts_ok s"

lemma layout_okD:
  assumes "layout_ok s"
  shows "super_ok (x_sb s)" "g < n_groups s \<Longrightarrow> group_ok (x_gdt s ! g)" "length (x_gdt s) = n_groups s"
    "0 < first_block s" "0 < group_blocks s" "group_blocks s \<le> 8192"
    "first_block s + n_groups s * group_blocks s \<le> 2 ^ 32"
    "g < n_groups s \<Longrightarrow> h < n_groups s \<Longrightarrow> (bg_block_bitmap (x_gdt s ! g) = bg_block_bitmap (x_gdt s ! h)) = (g = h)"
    "g < n_groups s \<Longrightarrow> bg_block_bitmap (x_gdt s ! g) \<noteq> s_first_data_block (x_sb s)"
    "g < n_groups s \<Longrightarrow> h < n_groups s \<Longrightarrow> bg_block_bitmap (x_gdt s ! g) \<noteq> gdt_blk s h"
proof -
  have d: "distinct (map bg_block_bitmap (x_gdt s))" "length (x_gdt s) = n_groups s"
    using assms by (simp_all add: layout_ok_def)
  show "g < n_groups s \<Longrightarrow> h < n_groups s \<Longrightarrow> (bg_block_bitmap (x_gdt s ! g) = bg_block_bitmap (x_gdt s ! h)) = (g = h)"
    using nth_eq_iff_index_eq [OF d(1), of g h] d(2) by simp
qed (use assms in \<open>auto simp: layout_ok_def\<close>)

text \<open>The counts are written back over whatever the blocks of the superblock and the descriptors held.\<close>

lemma sync_counts_ok:
  assumes io: "io_ok s" and g: "g < length (x_gdt s)" "group_ok (x_gdt s ! g)" and sup: "super_ok (x_sb s)"
  shows "\<exists>buf. length buf = 1024 \<and> sync_counts g s = Some (put_block (s_first_data_block (x_sb s)) (enc_super (x_sb s))
     (put_block (gdt_blk s g) buf s))"
proof -
  have "g mod 32 * 32 + 32 \<le> 1024" using mod_less_divisor [of 32 g] by linarith
  then obtain buf where b: "put_buf (eblock s (gdt_blk s g)) (g mod 32 * 32) (enc_group (x_gdt s ! g)) = Some buf"
    using io g(2) by (simp add: put_buf_def)
  then have l: "length buf = 1024" using put_length [OF b] io by simp
  have "write_group_desc g s = Some (0, put_block (gdt_blk s g) buf s)"
    using io g(1) b by (simp add: write_group_desc_def gdt_blk_def group_at_def)
  then show ?thesis using io l by (auto simp: sync_counts_def write_super_def)
qed

definition bump :: "bool \<Rightarrow> 'a::len word \<Rightarrow> 'a word" where "bump v c = (if v then c - 1 else c + 1)"

lemma card_toggle:
  assumes i: "i < (n :: nat)" "P i \<noteq> v"
  shows "card {j. j < n \<and> \<not> (if j = i then v else P j)} + (if v then 1 else 0) =
    card {j. j < n \<and> \<not> P j} + (if v then 0 else (1 :: nat))"
proof (cases v)
  case True
  let ?A = "{j. j < n \<and> \<not> (if j = i then v else P j)}"
  have "{j. j < n \<and> \<not> P j} = insert i ?A" "i \<notin> ?A" using i True by auto
  moreover have "finite ?A" by (rule finite_subset [of _ "{..<n}"]) auto
  ultimately show ?thesis using True by (simp only: card_insert_disjoint if_True) simp
next
  case False
  let ?A = "{j. j < n \<and> \<not> P j}"
  have "{j. j < n \<and> \<not> (if j = i then v else P j)} = insert i ?A" "i \<notin> ?A" using i False by auto
  moreover have "finite ?A" by simp
  ultimately show ?thesis using False by (simp only: card_insert_disjoint if_False) simp
qed

text \<open>What the place of an inode depends on.\<close>

definition inode_geo :: "ext2 \<Rightarrow> u32 \<times> u32 \<times> u32 \<times> u32 list" where
  "inode_geo s = (s_inodes_per_group (x_sb s), x_ngroups s, x_inode_size s, map bg_inode_table (x_gdt s))"

lemma inode_geo_table:
  assumes "inode_geo s = inode_geo t"
  shows "length (x_gdt s) = length (x_gdt t)"
    "i < length (x_gdt t) \<Longrightarrow> bg_inode_table (x_gdt s ! i) = bg_inode_table (x_gdt t ! i)"
proof -
  have m: "map bg_inode_table (x_gdt s) = map bg_inode_table (x_gdt t)" using assms by (simp add: inode_geo_def)
  then show l: "length (x_gdt s) = length (x_gdt t)" by (rule map_eq_imp_length_eq)
  show "i < length (x_gdt t) \<Longrightarrow> bg_inode_table (x_gdt s ! i) = bg_inode_table (x_gdt t ! i)"
    using arg_cong [OF m, of "\<lambda>xs. xs ! i"] l by simp
qed

lemma inode_geo_place: "inode_geo s = inode_geo t \<Longrightarrow> inode_place s n = inode_place t n"
  using inode_geo_table [of s t] by (simp add: inode_place_def group_at_def inode_geo_def Let_def)

lemma inode_geo_itab:
  assumes g: "inode_geo s = inode_geo t" and ok: "itab_ok t"
  shows "itab_ok s" "itab_len s = itab_len t" "g < unat (x_ngroups t) \<Longrightarrow> itab s g = itab t g" "valid_inum s n = valid_inum t n"
proof -
  note l = inode_geo_table [OF g]
  have e: "itab s i = itab t i" if "i < unat (x_ngroups t)" for i
    using that l itab_okD(2) [OF ok] by (simp add: itab_def)
  then show "g < unat (x_ngroups t) \<Longrightarrow> itab s g = itab t g" .
  show len: "itab_len s = itab_len t" using g by (simp add: itab_len_def inode_geo_def)
  show "itab_ok s" using ok g l e len unfolding itab_ok_def by (simp add: inode_geo_def)
  show "valid_inum s n = valid_inum t n" using g by (simp add: valid_inum_def inode_group_def inode_geo_def)
qed

text \<open>The relation of two states that differ in bit \<open>i\<close> of group \<open>g\<close> and its counts.\<close>

definition flipped :: "nat \<Rightarrow> nat \<Rightarrow> bool \<Rightarrow> ext2 \<Rightarrow> ext2 \<Rightarrow> bool" where
  "flipped g i v s s' \<longleftrightarrow> io_ok s' \<and> layout_ok s' \<and>
     first_block s' = first_block s \<and> group_blocks s' = group_blocks s \<and> n_groups s' = n_groups s \<and>
     s_blocks_per_group (x_sb s') = s_blocks_per_group (x_sb s) \<and>
     s_first_data_block (x_sb s') = s_first_data_block (x_sb s) \<and>
     (\<forall>h < n_groups s. \<forall>j < group_blocks s. bit_used s' h j = (if h = g \<and> j = i then v else bit_used s h j)) \<and>
     (\<forall>h < n_groups s. bg_free_blocks_count (x_gdt s' ! h) =
        (if h = g then bump v (bg_free_blocks_count (x_gdt s ! h)) else bg_free_blocks_count (x_gdt s ! h))) \<and>
     s_free_blocks_count (x_sb s') = bump v (s_free_blocks_count (x_sb s)) \<and>
     meta_blocks s' = meta_blocks s \<and> inode_geo s' = inode_geo s \<and> x_vnodes s' = x_vnodes s \<and>
     (\<forall>c. c \<notin> meta_blocks s \<longrightarrow> eblock s' c = eblock s c)"

lemma commit_flips:
  assumes io: "io_ok s" and lay: "layout_ok s" and g: "g < n_groups s" and i: "i < group_blocks s"
    and bm: "bm = eblock s (bg_block_bitmap (x_gdt s ! g))"
    and fd: "\<And>d. fd d = d\<lparr>bg_free_blocks_count := bump v (bg_free_blocks_count d)\<rparr>"
    and fs: "\<And>sb. fs sb = sb\<lparr>s_free_blocks_count := bump v (s_free_blocks_count sb)\<rparr>"
  shows "\<exists>s'. commit_bit (bg_block_bitmap (x_gdt s ! g)) (bm_set bm i v) g fd fs s = Some (True, s') \<and> flipped g i v s s'"
proof -
  let ?d = "x_gdt s ! g" and ?b = "bg_block_bitmap (x_gdt s ! g)"
  define t where "t = (put_group g (fd ?d) (put_block ?b (bm_set bm i v) s))\<lparr>x_sb := fs (x_sb s)\<rparr>"
  have len: "length (x_gdt s) = n_groups s" using layout_okD(3) [OF lay] .
  have lbm: "length bm = 1024" using io by (simp add: bm)
  have io_t: "io_ok t" using io lbm by (simp add: t_def put_group_def)
  have t: "x_gdt t = (x_gdt s)[g := fd ?d]" "x_sb t = fs (x_sb s)" "x_ngroups t = x_ngroups s"
    by (simp_all add: t_def put_group_def)
  have ok: "group_ok (x_gdt t ! h)" if "h < n_groups s" for h
    using layout_okD(2) [OF lay that] that g len by (simp add: t fd nth_list_update group_ok_def)
  have sup: "super_ok (x_sb t)" using layout_okD(1) [OF lay] by (simp add: t fs super_ok_def)
  obtain buf where buf: "length buf = 1024"
    "sync_counts g t = Some (put_block (s_first_data_block (x_sb t)) (enc_super (x_sb t)) (put_block (gdt_blk t g) buf t))"
    using sync_counts_ok [of t g] io_t ok [OF g] sup g len by (auto simp: t(1))
  define s' where "s' = put_block (s_first_data_block (x_sb t)) (enc_super (x_sb t)) (put_block (gdt_blk t g) buf t)"
  have "commit_bit ?b (bm_set bm i v) g fd fs s = Some (True, s')"
    using io g len buf(2) by (simp add: commit_bit_def group_at_def Let_def s'_def t_def put_group_def)
  moreover have io': "io_ok s'" using io_t buf(1) sup by (simp add: s'_def)
  have f: "x_gdt s' = (x_gdt s)[g := fd ?d]" "x_sb s' = fs (x_sb s)" "x_ngroups s' = x_ngroups s"
    by (simp_all add: s'_def t)
  then have geo: "first_block s' = first_block s" "group_blocks s' = group_blocks s" "n_groups s' = n_groups s"
    "s_blocks_per_group (x_sb s') = s_blocks_per_group (x_sb s)"
    "s_first_data_block (x_sb s') = s_first_data_block (x_sb s)" "gdt_blk s' h = gdt_blk s h" for h
    by (simp_all add: first_block_def group_blocks_def n_groups_def gdt_blk_def fs)
  have gb: "gdt_blk t g = gdt_blk s g" "s_first_data_block (x_sb t) = s_first_data_block (x_sb s)"
    by (simp_all add: gdt_blk_def t fs)
  have bmap_same: "bg_block_bitmap (x_gdt s' ! h) = bg_block_bitmap (x_gdt s ! h)" if "h < n_groups s" for h
    using that g len by (simp add: f fd nth_list_update)
  have et: "eblock t c = (if c = ?b then bm_set bm i v else eblock s c)" for c
    by (simp add: t_def put_group_def)
  have eb: "eblock s' c = (if c = s_first_data_block (x_sb s) then enc_super (x_sb t) else
      if c = gdt_blk s g then buf else if c = ?b then bm_set bm i v else eblock s c)" for c
    unfolding s'_def gb eblock_put_block by (simp add: et)
  have bits: "bit_used s' h j = (if h = g \<and> j = i then v else bit_used s h j)"
    if h: "h < n_groups s" and j: "j < group_blocks s" for h j
  proof -
    have "i div 8 < 1024" "j div 8 < 1024" using i j layout_okD(6) [OF lay] by (simp_all add: div_less_iff_less_mult)
    then show ?thesis
      using layout_okD(8) [OF lay h g] layout_okD(9) [OF lay h] layout_okD(10) [OF lay h g] bit_bm_set [of i bm j v] lbm
      by (auto simp: bit_used_def bmap_same [OF h] eb bm)
  qed
  have m: "map bg_block_bitmap (x_gdt s') = map bg_block_bitmap (x_gdt s)"
      using g len by (simp add: f map_update fd list_update_same_conv)
  then have b: "bg_block_bitmap ` set (x_gdt s') = bg_block_bitmap ` set (x_gdt s)" by (metis list.set_map)
  have lay': "layout_ok s'"
  proof -
    have "\<forall>d \<in> set (x_gdt s'). group_ok d"
    proof
      fix d assume "d \<in> set (x_gdt s')"
      then obtain h where "h < length (x_gdt t)" "d = x_gdt t ! h" using f(1) t(1) by (metis in_set_conv_nth)
      then show "group_ok d" using ok [of h] len by (simp add: t(1))
    qed
    moreover have "\<forall>d \<in> set (x_gdt s'). bg_block_bitmap d \<noteq> s_first_data_block (x_sb s) \<and>
        (\<forall>h < n_groups s. bg_block_bitmap d \<noteq> gdt_blk s h)"
    proof
      fix d assume "d \<in> set (x_gdt s')"
      then obtain e where "e \<in> set (x_gdt s)" "bg_block_bitmap d = bg_block_bitmap e" using b by blast
      then show "bg_block_bitmap d \<noteq> s_first_data_block (x_sb s) \<and> (\<forall>h < n_groups s. bg_block_bitmap d \<noteq> gdt_blk s h)"
        using lay by (simp add: layout_ok_def)
    qed
    ultimately show ?thesis using lay m sup unfolding layout_ok_def geo by (simp add: f t)
  qed
  have "flipped g i v s s'"
    unfolding flipped_def
  proof (intro conjI allI impI)
    show "eblock s' c = eblock s c" if "c \<notin> meta_blocks s" for c
      using that g len nth_mem [of g "x_gdt s"] by (auto simp: eb meta_blocks_def)
    show "bg_free_blocks_count (x_gdt s' ! h) =
        (if h = g then bump v (bg_free_blocks_count (x_gdt s ! h)) else bg_free_blocks_count (x_gdt s ! h))"
      if "h < n_groups s" for h using that g len by (simp add: f fd nth_list_update)
    have "gdt_blk s' ` {..<n_groups s} = gdt_blk s ` {..<n_groups s}" by (simp add: geo)
    then show "meta_blocks s' = meta_blocks s" unfolding meta_blocks_def b geo by simp
    have "x_inode_size s' = x_inode_size s" "x_vnodes s' = x_vnodes s" by (simp_all add: s'_def t_def put_group_def)
    then show "inode_geo s' = inode_geo s" "x_vnodes s' = x_vnodes s"
      using g len by (simp_all add: inode_geo_def f fs fd map_update list_update_same_conv)
  qed (use io' lay' geo bits in \<open>simp_all add: f fs\<close>)
  ultimately show ?thesis by blast
qed

lemma unat_bump:
  assumes "v \<Longrightarrow> 0 < unat c" "\<not> v \<Longrightarrow> unat (c :: 'a::len word) + 1 < 2 ^ LENGTH('a)"
  shows "unat (bump v c) + (if v then 1 else 0) = unat c + (if v then 0 else 1)"
proof (cases v)
  case True
  then have "c \<noteq> 0" using assms(1) by auto
  then show ?thesis using True assms(1) by (simp add: bump_def unat_minus_one)
next
  case False
  then show ?thesis using assms(2) by (simp add: bump_def unat_word_ariths)
qed

lemma free_bits_le: "free_bits s g \<le> group_blocks s"
  unfolding free_bits_def using card_mono [of "{..<group_blocks s}" "{i. i < group_blocks s \<and> \<not> bit_used s g i}"] by auto

lemma flipped_free_bits:
  assumes f: "flipped g i v s s'" and g: "g < n_groups s" and i: "i < group_blocks s" "bit_used s g i \<noteq> v"
  shows "free_bits s' g + (if v then 1 else 0) = free_bits s g + (if v then 0 else 1)"
    "h < n_groups s \<Longrightarrow> h \<noteq> g \<Longrightarrow> free_bits s' h = free_bits s h"
proof -
  have b: "group_blocks s' = group_blocks s"
    "\<And>h j. h < n_groups s \<Longrightarrow> j < group_blocks s \<Longrightarrow> bit_used s' h j = (if h = g \<and> j = i then v else bit_used s h j)"
    using f by (simp_all add: flipped_def)
  have "{j. j < group_blocks s' \<and> \<not> bit_used s' g j} =
      {j. j < group_blocks s \<and> \<not> (if j = i then v else bit_used s g j)}"
    using b(1) b(2) [OF g] by (auto split: if_splits)
  then show "free_bits s' g + (if v then 1 else 0) = free_bits s g + (if v then 0 else 1)"
    unfolding free_bits_def using card_toggle [OF i(1), of "bit_used s g" v] i(2) by simp
  have "{j. j < group_blocks s' \<and> \<not> bit_used s' h j} = {j. j < group_blocks s \<and> \<not> bit_used s h j}"
    if "h < n_groups s" "h \<noteq> g" using b(1) b(2) [OF that(1)] that(2) by auto
  then show "h < n_groups s \<Longrightarrow> h \<noteq> g \<Longrightarrow> free_bits s' h = free_bits s h" by (simp add: free_bits_def)
qed

lemma sum_toggle:
  assumes g: "g < (n :: nat)" "f' g + a = f g + b" "\<And>h. h < n \<Longrightarrow> h \<noteq> g \<Longrightarrow> f' h = f h"
  shows "(\<Sum>h < n. f' h) + a = (\<Sum>h < n. f h) + (b :: nat)"
proof -
  have "(\<Sum>h < n. f' h) = f' g + sum f' ({..<n} - {g})" "(\<Sum>h < n. f h) = f g + sum f ({..<n} - {g})"
    using g(1) by (simp_all add: sum.remove)
  moreover have "sum f' ({..<n} - {g}) = sum f ({..<n} - {g})" using g(3) by (intro sum.cong) auto
  ultimately show ?thesis using g(2) by simp
qed

lemma flipped_ok:
  assumes ok: "alloc_ok s" and f: "flipped g i v s s'" and g: "g < n_groups s"
    and i: "i < group_blocks s" "bit_used s g i \<noteq> v"
  shows "alloc_ok s'"
proof -
  have lay: "layout_ok s" and cnt: "counts_ok s" using ok by (simp_all add: alloc_ok_def)
  note fb = flipped_free_bits [OF f g i]
  have geo: "n_groups s' = n_groups s" "group_blocks s' = group_blocks s" "io_ok s'" "layout_ok s'"
    "s_free_blocks_count (x_sb s') = bump v (s_free_blocks_count (x_sb s))"
    "\<And>h. h < n_groups s \<Longrightarrow> bg_free_blocks_count (x_gdt s' ! h) =
        (if h = g then bump v (bg_free_blocks_count (x_gdt s ! h)) else bg_free_blocks_count (x_gdt s ! h))"
    using f by (simp_all add: flipped_def)
  have c: "unat (bg_free_blocks_count (x_gdt s ! h)) = free_bits s h" if "h < n_groups s" for h
    using cnt that by (simp add: counts_ok_def)
  have t: "unat (s_free_blocks_count (x_sb s)) = (\<Sum>h < n_groups s. free_bits s h)"
    using cnt by (simp add: counts_ok_def)
  have sum: "(\<Sum>h < n_groups s. free_bits s' h) + (if v then 1 else 0) = (\<Sum>h < n_groups s. free_bits s h) + (if v then 0 else 1)"
    using g fb by (rule sum_toggle)
  have "free_bits s' g \<le> 8192" using free_bits_le [of s' g] layout_okD(6) [OF lay] geo(2) by simp
  then have "unat (bump v (bg_free_blocks_count (x_gdt s ! g))) + (if v then 1 else 0) = free_bits s g + (if v then 0 else 1)"
    using unat_bump [of v "bg_free_blocks_count (x_gdt s ! g)"] fb(1) c [OF g] by (cases v) auto
  then have 1: "unat (bg_free_blocks_count (x_gdt s' ! h)) = free_bits s' h" if "h < n_groups s" for h
    using fb c that geo(6) [OF that] by (cases "h = g") simp_all
  have "(\<Sum>h < n_groups s. free_bits s' h) \<le> n_groups s * group_blocks s"
    using sum_bounded_above [of "{..<n_groups s}" "free_bits s'" "group_blocks s"] free_bits_le [of s'] geo(2) by simp
  then have "(\<Sum>h < n_groups s. free_bits s' h) < 2 ^ 32" using layout_okD(4,7) [OF lay] by linarith
  moreover have "v \<Longrightarrow> 0 < (\<Sum>h < n_groups s. free_bits s h)" using sum by simp
  ultimately have "unat (bump v (s_free_blocks_count (x_sb s))) + (if v then 1 else 0) =
      (\<Sum>h < n_groups s. free_bits s h) + (if v then 0 else 1)"
    using unat_bump [of v "s_free_blocks_count (x_sb s)"] sum t by (cases v) auto
  then have "unat (s_free_blocks_count (x_sb s')) = (\<Sum>h < n_groups s. free_bits s' h)" using sum geo(5) by simp
  with 1 show ?thesis using geo by (simp add: alloc_ok_def counts_ok_def)
qed

lemma block_number_inj:
  "(a :: nat) + g * n + i = a + h * n + j \<Longrightarrow> i < n \<Longrightarrow> j < n \<Longrightarrow> g = h \<and> i = j"
proof -
  assume e: "a + g * n + i = a + h * n + j" and l: "i < n" "j < n"
  then have "(g * n + i) div n = (h * n + j) div n" "(g * n + i) mod n = (h * n + j) mod n" by simp_all
  with l show ?thesis by simp
qed

lemma flipped_used:
  assumes f: "flipped g i v s s'" and g: "g < n_groups s" and i: "i < group_blocks s"
  shows "used_blocks s' = (if v then insert (first_block s + g * group_blocks s + i) (used_blocks s)
     else used_blocks s - {first_block s + g * group_blocks s + i})" (is "_ = (if v then insert ?x _ else _)")
proof -
  have geo: "n_groups s' = n_groups s" "group_blocks s' = group_blocks s" "first_block s' = first_block s"
    and b: "\<And>h j. h < n_groups s \<Longrightarrow> j < group_blocks s \<Longrightarrow> bit_used s' h j = (if h = g \<and> j = i then v else bit_used s h j)"
    using f by (simp_all add: flipped_def)
  have m: "y \<in> used_blocks s' \<longleftrightarrow> (if y = ?x then v else y \<in> used_blocks s)" for y
  proof (cases "y = ?x")
    case True
    have "y \<in> used_blocks s' \<longleftrightarrow> bit_used s' g i"
    proof
      assume "y \<in> used_blocks s'"
      then obtain h j where "y = first_block s + h * group_blocks s + j" "j < group_blocks s" "bit_used s' h j"
        by (auto simp: used_blocks_def geo)
      with block_number_inj [of "first_block s" h "group_blocks s" j g i] True i show "bit_used s' g i" by simp
    qed (use True g i geo in \<open>auto simp: used_blocks_def\<close>)
    then show ?thesis using True b [OF g i] by simp
  next
    case False
    have "h < n_groups s \<and> j < group_blocks s \<and> y = first_block s + h * group_blocks s + j \<Longrightarrow>
        bit_used s' h j = bit_used s h j" for h j using b [of h j] False by auto
    then have "(\<exists>h j. y = first_block s + h * group_blocks s + j \<and> h < n_groups s \<and> j < group_blocks s \<and> bit_used s' h j) \<longleftrightarrow>
        (\<exists>h j. y = first_block s + h * group_blocks s + j \<and> h < n_groups s \<and> j < group_blocks s \<and> bit_used s h j)"
      by (intro ex_cong1 conj_cong refl) blast
    then show ?thesis using False by (simp only: used_blocks_def geo mem_Collect_eq if_False)
  qed
  show ?thesis
  proof (rule set_eqI)
    fix y
    show "y \<in> used_blocks s' \<longleftrightarrow> y \<in> (if v then insert ?x (used_blocks s) else used_blocks s - {?x})"
      unfolding m by (cases v; cases "y = ?x") simp_all
  qed
qed

subsection \<open>Allocating and freeing a block\<close>

lemma cell_less: "g < n \<Longrightarrow> i < m \<Longrightarrow> g * m + i < n * (m :: nat)"
  using mult_le_mono1 [of "Suc g" n m] by simp

lemma block_word:
  assumes lay: "layout_ok s" and g: "g < n_groups s" and i: "i < group_blocks s"
  shows "unat (word_of_nat g * s_blocks_per_group (x_sb s) + s_first_data_block (x_sb s) + word_of_nat i) =
      first_block s + g * group_blocks s + i"
    "first_block s + g * group_blocks s + i \<in> all_blocks s"
proof -
  have l: "first_block s + g * group_blocks s + i < first_block s + n_groups s * group_blocks s"
    using cell_less [OF g i] by simp
  then have "first_block s + g * group_blocks s + i < 4294967296" using layout_okD(7) [OF lay] by simp
  moreover have "word_of_nat g * s_blocks_per_group (x_sb s) + s_first_data_block (x_sb s) + word_of_nat i =
      word_of_nat (first_block s + g * group_blocks s + i)"
    by (simp add: first_block_def group_blocks_def)
  ultimately show "unat (word_of_nat g * s_blocks_per_group (x_sb s) + s_first_data_block (x_sb s) + word_of_nat i) =
      first_block s + g * group_blocks s + i" by (simp only: unat_of_nat_u32)
  show "first_block s + g * group_blocks s + i \<in> all_blocks s" using l by (simp add: all_blocks_def)
qed

lemma bit_byte: "i < group_blocks s \<Longrightarrow> layout_ok s \<Longrightarrow> i div 8 < 1024"
  using layout_okD(6) [of s] by (simp add: div_less_iff_less_mult)

lemma no_free_bits:
  assumes "free_bits s g = 0" "i < group_blocks s" shows "bit_used s g i"
proof -
  have "finite {i. i < group_blocks s \<and> \<not> bit_used s g i}" by simp
  with assms show ?thesis unfolding free_bits_def by auto
qed

lemma alloc_block_in_ok:
  assumes ok: "alloc_ok s" and gs: "set gs \<subseteq> {..<n_groups s}"
  shows "\<exists>b s'. alloc_block_in gs s = Some (b, s') \<and>
     (if b = 0 then s' = s \<and> (\<forall>g \<in> set gs. \<forall>i < group_blocks s. bit_used s g i)
      else \<exists>g i. g < n_groups s \<and> i < group_blocks s \<and> \<not> bit_used s g i \<and>
        unat b = first_block s + g * group_blocks s + i \<and> flipped g i True s s')"
  using gs
proof (induction gs)
  case (Cons g gs)
  have io: "io_ok s" and lay: "layout_ok s" and cnt: "counts_ok s" using ok by (simp_all add: alloc_ok_def)
  have g: "g < n_groups s" using Cons.prems by simp
  then have grp: "group_at s g = Some (x_gdt s ! g)" using layout_okD(3) [OF lay] by (simp add: group_at_def)
  obtain b s' where IH: "alloc_block_in gs s = Some (b, s')"
     "if b = 0 then s' = s \<and> (\<forall>g \<in> set gs. \<forall>i < group_blocks s. bit_used s g i)
      else \<exists>g i. g < n_groups s \<and> i < group_blocks s \<and> \<not> bit_used s g i \<and>
        unat b = first_block s + g * group_blocks s + i \<and> flipped g i True s s'"
    using Cons by auto
  let ?bm = "eblock s (bg_block_bitmap (x_gdt s ! g))"
  have skip: "?case" if full: "\<forall>i < group_blocks s. bit_used s g i" "alloc_block_in (g # gs) s = alloc_block_in gs s"
    using IH full by (cases "b = 0") auto
  show ?case
  proof (cases "bg_free_blocks_count (x_gdt s ! g) = 0")
    case True
    have "unat (bg_free_blocks_count (x_gdt s ! g)) = free_bits s g" using cnt g by (simp add: counts_ok_def)
    then have "free_bits s g = 0" using True by simp
    with no_free_bits have "\<forall>i < group_blocks s. bit_used s g i" by blast
    then show ?thesis using True grp by (intro skip) simp_all
  next
    case False
    have "\<forall>i \<in> set [0..<group_blocks s]. i div 8 < length ?bm" using bit_byte [OF _ lay] io by simp
    from bitmap_find_in_exact [OF this]
    obtain r where r: "bitmap_find_free ?bm (group_blocks s) = Some r"
      "case r of None \<Rightarrow> \<forall>i \<in> set [0..<group_blocks s]. bit_used s g i | Some i \<Rightarrow> i < group_blocks s \<and> \<not> bit_used s g i"
      by (auto simp: bitmap_find_free_def bit_used_def split: option.splits)
    show ?thesis
    proof (cases r)
      case None
      then show ?thesis using False grp r io by (intro skip) (simp_all add: group_blocks_def)
    next
      case (Some i)
      then have i: "i < group_blocks s" "\<not> bit_used s g i" using r(2) by simp_all
      obtain s1 where s1: "commit_bit (bg_block_bitmap (x_gdt s ! g)) (bm_set ?bm i True) g
          (\<lambda>d. d\<lparr>bg_free_blocks_count := bg_free_blocks_count d - 1\<rparr>)
          (\<lambda>sb. sb\<lparr>s_free_blocks_count := s_free_blocks_count sb - 1\<rparr>) s = Some (True, s1)" "flipped g i True s s1"
        using commit_flips [OF io lay g i(1) refl, of "\<lambda>d. d\<lparr>bg_free_blocks_count := bg_free_blocks_count d - 1\<rparr>" True
          "\<lambda>sb. sb\<lparr>s_free_blocks_count := s_free_blocks_count sb - 1\<rparr>"] by (auto simp: bump_def)
      let ?b = "word_of_nat g * s_blocks_per_group (x_sb s) + s_first_data_block (x_sb s) + word_of_nat i"
      have u: "unat ?b = first_block s + g * group_blocks s + i" by (rule block_word [OF lay g i(1)])
      then have nz: "?b \<noteq> 0" using layout_okD(4) [OF lay] by (metis add_eq_0_iff_both_eq_0 neq0_conv unsigned_0)
      have "alloc_block_in (g # gs) s = Some (?b, s1)"
        using False grp r(1) Some io s1 by (simp add: group_blocks_def flipped_def)
      then show ?thesis using u nz g i s1(2) by auto
    qed
  qed
qed simp

lemma full_set:
  assumes "\<forall>g < n_groups s. \<forall>i < group_blocks s. bit_used s g i" "0 < group_blocks s"
  shows "used_blocks s = all_blocks s"
proof
  show "all_blocks s \<subseteq> used_blocks s"
  proof
    fix x assume x: "x \<in> all_blocks s"
    let ?g = "(x - first_block s) div group_blocks s" and ?i = "(x - first_block s) mod group_blocks s"
    have "x = first_block s + ?g * group_blocks s + ?i" using x by (simp add: all_blocks_def)
    moreover have "?g < n_groups s" using x assms(2) by (auto simp: all_blocks_def div_less_iff_less_mult)
    moreover have "?i < group_blocks s" using assms(2) by simp
    ultimately show "x \<in> used_blocks s" using assms(1) unfolding used_blocks_def by blast
  qed
qed (use cell_less in \<open>fastforce simp: used_blocks_def all_blocks_def\<close>)

lemma alloc_block_ok:
  assumes ok: "alloc_ok s"
  shows "\<exists>b s'. alloc_block s = Some (b, s') \<and> alloc_ok s' \<and>
       (if b = 0 then s' = s \<and> used_blocks s = all_blocks s
        else unat b \<in> all_blocks s - used_blocks s \<and> used_blocks s' = insert (unat b) (used_blocks s)) \<and>
       meta_blocks s' = meta_blocks s \<and> inode_geo s' = inode_geo s \<and> x_vnodes s' = x_vnodes s \<and> (\<forall>c. c \<notin> meta_blocks s \<longrightarrow> eblock s' c = eblock s c)"
proof -
  have io: "io_ok s" and lay: "layout_ok s" using ok by (simp_all add: alloc_ok_def)
  have "set [0..<unat (x_ngroups s)] \<subseteq> {..<n_groups s}" by (auto simp: n_groups_def)
  from alloc_block_in_ok [OF ok this] obtain b s' where b: "alloc_block s = Some (b, s')"
    "if b = 0 then s' = s \<and> (\<forall>g \<in> set [0..<unat (x_ngroups s)]. \<forall>i < group_blocks s. bit_used s g i)
      else \<exists>g i. g < n_groups s \<and> i < group_blocks s \<and> \<not> bit_used s g i \<and>
        unat b = first_block s + g * group_blocks s + i \<and> flipped g i True s s'"
    unfolding alloc_block_def by blast
  show ?thesis
  proof (cases "b = 0")
    case True
    then show ?thesis using b ok full_set [OF _ layout_okD(5) [OF lay]] by (auto simp: n_groups_def)
  next
    case False
    then obtain g i where gi: "g < n_groups s" "i < group_blocks s" "\<not> bit_used s g i"
        "unat b = first_block s + g * group_blocks s + i" "flipped g i True s s'" using b(2) by auto
    have "unat b \<notin> used_blocks s"
    proof
      assume "unat b \<in> used_blocks s"
      then obtain h j where "unat b = first_block s + h * group_blocks s + j" "j < group_blocks s" "bit_used s h j"
        by (auto simp: used_blocks_def)
      with block_number_inj [of "first_block s" h "group_blocks s" j g i] gi show False by simp
    qed
    then show ?thesis
      using b(1) False flipped_ok [OF ok gi(5,1,2)] flipped_used [OF gi(5,1,2)] gi block_word(2) [OF lay gi(1,2)]
      by (auto simp: flipped_def)
  qed
qed

lemma free_block_ok:
  assumes ok: "alloc_ok s"
  shows "\<exists>s'. free_block c s = Some s' \<and> alloc_ok s' \<and> used_blocks s' = used_blocks s - {unat c} \<and>
       meta_blocks s' = meta_blocks s \<and> inode_geo s' = inode_geo s \<and> x_vnodes s' = x_vnodes s \<and> (\<forall>d. d \<notin> meta_blocks s \<longrightarrow> eblock s' d = eblock s d)"
proof -
  have io: "io_ok s" and lay: "layout_ok s" using ok by (simp_all add: alloc_ok_def)
  let ?bpg = "s_blocks_per_group (x_sb s)" and ?rel = "c - s_first_data_block (x_sb s)"
  define g where "g = unat (?rel div ?bpg)"
  define i where "i = unat (?rel mod ?bpg)"
  show ?thesis
  proof (cases "c < s_first_data_block (x_sb s)")
    case True
    then have "unat c \<notin> used_blocks s" by (auto simp: used_blocks_def first_block_def word_less_nat_alt)
    then show ?thesis using True ok by (auto simp: free_block_def)
  next
    case False
    then have rel: "unat ?rel = unat c - first_block s" "first_block s \<le> unat c"
      by (simp_all add: first_block_def not_less word_le_nat_alt unat_sub)
    have gi: "unat c = first_block s + g * group_blocks s + i" "i < group_blocks s"
      using rel layout_okD(5) [OF lay] by (simp_all add: g_def i_def unat_div unat_mod group_blocks_def)
    have bpg: "?bpg \<noteq> 0" using layout_okD(5) [OF lay] by (auto simp: group_blocks_def)
    have only: "unat c \<in> used_blocks s \<longleftrightarrow> g < n_groups s \<and> bit_used s g i"
    proof
      assume "unat c \<in> used_blocks s"
      then obtain h j where "unat c = first_block s + h * group_blocks s + j" "j < group_blocks s" "bit_used s h j" "h < n_groups s"
        by (auto simp: used_blocks_def)
      with block_number_inj [of "first_block s" h "group_blocks s" j g i] gi show "g < n_groups s \<and> bit_used s g i" by simp
    qed (use gi in \<open>auto simp: used_blocks_def\<close>)
    show ?thesis
    proof (cases "g < n_groups s")
      case False
      then have "x_ngroups s \<le> ?rel div ?bpg" by (simp add: g_def n_groups_def word_le_nat_alt)
      then have "free_block c s = Some s" using bpg \<open>\<not> c < _\<close> by (simp add: free_block_def Let_def)
      then show ?thesis using ok only False by simp
    next
      case True
      let ?bm = "eblock s (bg_block_bitmap (x_gdt s ! g))"
      have ng: "\<not> x_ngroups s \<le> ?rel div ?bpg" using True by (simp add: g_def n_groups_def word_le_nat_alt)
      have grp: "group_at s g = Some (x_gdt s ! g)" using True layout_okD(3) [OF lay] by (simp add: group_at_def)
      have get: "bm_get ?bm i = Some (bit_used s g i)"
        using bit_byte [OF gi(2) lay] io by (simp add: bm_get_in bit_used_def)
      have run: "free_block c s = (if \<not> bit_used s g i then Some s
          else map_option snd (commit_bit (bg_block_bitmap (x_gdt s ! g)) (bm_set ?bm i False) g
                 (\<lambda>d. d\<lparr>bg_free_blocks_count := bg_free_blocks_count d + 1\<rparr>)
                 (\<lambda>sb. sb\<lparr>s_free_blocks_count := s_free_blocks_count sb + 1\<rparr>) s))"
        using False bpg ng grp get io by (simp add: free_block_def Let_def g_def [symmetric] i_def [symmetric])
      show ?thesis
      proof (cases "bit_used s g i")
        case False
        then show ?thesis using run ok only by simp
      next
        case used: True
        obtain s1 where s1: "free_block c s = Some s1" "flipped g i False s s1"
          using commit_flips [OF io lay True gi(2) refl, of "\<lambda>d. d\<lparr>bg_free_blocks_count := bg_free_blocks_count d + 1\<rparr>" False
            "\<lambda>sb. sb\<lparr>s_free_blocks_count := s_free_blocks_count sb + 1\<rparr>"] run used by (auto simp: bump_def)
        then show ?thesis
          using flipped_ok [OF ok s1(2) True gi(2)] flipped_used [OF s1(2) True gi(2)] used gi(1)
          by (auto simp: flipped_def)
      qed
    qed
  qed
qed

text \<open>
  C11. The allocator keeps a set of blocks. On a file system whose metadata lie apart and whose counts
  agree with the bitmaps, \<open>alloc_block\<close> either returns a block that no file has and puts it into the
  set, or returns 0, and then every block is in use; \<open>free_block\<close> takes its block out of the set,
  whatever its argument. Both keep the counts right, leave the metadata where they are and touch no
  other block.
\<close>

theorem block_allocator:
  assumes ok: "alloc_ok s"
  shows "(\<exists>b s'. alloc_block s = Some (b, s') \<and> alloc_ok s' \<and>
       (if b = 0 then s' = s \<and> used_blocks s = all_blocks s
        else unat b \<in> all_blocks s - used_blocks s \<and> used_blocks s' = insert (unat b) (used_blocks s)) \<and>
       meta_blocks s' = meta_blocks s \<and> (\<forall>c. c \<notin> meta_blocks s \<longrightarrow> eblock s' c = eblock s c)) \<and>
     (\<exists>s'. free_block c s = Some s' \<and> alloc_ok s' \<and> used_blocks s' = used_blocks s - {unat c} \<and>
       meta_blocks s' = meta_blocks s \<and> (\<forall>d. d \<notin> meta_blocks s \<longrightarrow> eblock s' d = eblock s d))"
  using alloc_block_ok [OF ok] free_block_ok [OF ok, of c] by blast

lemma blank_disk_ok: "alloc_ok blank_disk"
proof -
  have geo: "n_groups blank_disk = 1" "group_blocks blank_disk = 64" "first_block blank_disk = 1"
    "gdt_blk blank_disk 0 = 2"
    by (simp_all add: n_groups_def group_blocks_def first_block_def gdt_blk_def blank_disk_def)
  have io: "io_ok blank_disk" by (simp add: io_ok_def blank_disk_def)
  have "eblock blank_disk b = replicate 1024 0" for b
    by (simp add: eblock_def blank_disk_def replicate_add [symmetric])
  then have "\<not> bit_used blank_disk 0 i" if "i < 64" for i
    using that by (simp add: bit_used_def nth_replicate div_less_iff_less_mult)
  then have "{i. i < group_blocks blank_disk \<and> \<not> bit_used blank_disk 0 i} = {..<64}" using geo by auto
  then have "free_bits blank_disk 0 = 64" by (simp add: free_bits_def)
  then have "counts_ok blank_disk" unfolding counts_ok_def geo by (simp add: blank_disk_def)
  moreover have "layout_ok blank_disk"
    unfolding layout_ok_def geo using geo
    by (simp add: blank_disk_def super_ok_def dec_super_def group_ok_def dec_group_def)
  ultimately show ?thesis using io by (simp add: alloc_ok_def)
qed

lemma block_allocator_witness:
  "\<exists>b s'. alloc_block blank_disk = Some (b, s') \<and> alloc_ok s' \<and>
     (if b = 0 then s' = blank_disk \<and> used_blocks blank_disk = all_blocks blank_disk
      else unat b \<in> all_blocks blank_disk - used_blocks blank_disk \<and>
        used_blocks s' = insert (unat b) (used_blocks blank_disk)) \<and>
     meta_blocks s' = meta_blocks blank_disk \<and> (\<forall>c. c \<notin> meta_blocks blank_disk \<longrightarrow> eblock s' c = eblock blank_disk c)"
  using block_allocator [OF blank_disk_ok, of 7] by blast

end
