(* ===== verification/Ext2_Dir.thy ===== *)
theory Ext2_Dir
  imports Ext2
begin

text \<open>
  The directories of \<open>src/ext2.c\<close> and the operations on them, up to the mount. A directory entry is
  read and written in its block: the inode number at its offset, the length of the record at 4, the
  length of the name at 6, the file type at 7 and the name from 8. The pointer of a vnode is its index.
\<close>

subsection \<open>Entries\<close>

fun name_eq :: "u8 list \<Rightarrow> nat \<Rightarrow> nat \<Rightarrow> path \<Rightarrow> bool option" where
  "name_eq blk p 0 name = Some (name = [])"
| "name_eq blk p (Suc n) [] = Some False"
| "name_eq blk p (Suc n) (c # cs) = do {
     e \<leftarrow> buf8 blk p;
     if c \<noteq> e then Some False else name_eq blk (Suc p) n cs }"

definition de_matches :: "u8 list \<Rightarrow> nat \<Rightarrow> path \<Rightarrow> bool option" where
  "de_matches blk k name = do {
     i \<leftarrow> buf32 blk k;
     if i = 0 then Some False
     else do { l \<leftarrow> buf8 blk (k + 6); name_eq blk (k + 8) (unat l) name } }"

lemma de_step: "r \<noteq> 0 \<Longrightarrow> k < 1024 \<Longrightarrow> 1024 - (k + unat (r :: u16)) < 1024 - k"
  using unat_eq_0 [of r] by simp

text \<open>
  The first entry of a name in a block, with the entry before it. An empty record ends the walk.
\<close>

function de_find :: "u8 list \<Rightarrow> path \<Rightarrow> nat \<Rightarrow> nat option \<Rightarrow> (nat \<times> nat option) option option" where
  "de_find blk name k prev =
     (if k < 1024 then
        (case buf16 blk (k + 4) of None \<Rightarrow> None
         | Some r \<Rightarrow>
             if r = 0 then Some None
             else case de_matches blk k name of None \<Rightarrow> None
             | Some m \<Rightarrow> if m then Some (Some (k, prev)) else de_find blk name (k + unat r) (Some k))
      else Some None)"
  by pat_completeness auto
termination
  by (relation "measure (\<lambda>(blk, name, k, prev). 1024 - k)") (auto simp: de_step)

declare de_find.simps [simp del]

definition dir_nblocks :: "ext2_inode \<Rightarrow> nat" where
  "dir_nblocks dino = unat ((i_size dino + 1024 - 1) div 1024)"

primrec dir_find_in :: "ext2 \<Rightarrow> ext2_inode \<Rightarrow> path \<Rightarrow> nat list \<Rightarrow> (u32 \<times> u8 list \<times> nat \<times> nat option) option option" where
  "dir_find_in s dino name [] = Some None"
| "dir_find_in s dino name (bi # bis) = do {
     phys \<leftarrow> bmap s dino (word_of_nat bi);
     if phys = 0 then dir_find_in s dino name bis
     else case eb_read s phys of None \<Rightarrow> dir_find_in s dino name bis
     | Some blk \<Rightarrow> do {
         r \<leftarrow> de_find blk name 0 None;
         (case r of None \<Rightarrow> dir_find_in s dino name bis
          | Some (k, prev) \<Rightarrow> Some (Some (phys, blk, k, prev))) } }"

definition dir_find :: "ext2 \<Rightarrow> ext2_inode \<Rightarrow> path \<Rightarrow> (u32 \<times> u8 list \<times> nat \<times> nat option) option option" where
  "dir_find s dino name = dir_find_in s dino name [0..<dir_nblocks dino]"

definition ext2_lookup :: "nat \<Rightarrow> path \<Rightarrow> ext2 \<Rightarrow> (nat option \<times> ext2) option" where
  "ext2_lookup dir name s = do {
     r \<leftarrow> read_inode s (inum_of s dir);
     (case r of None \<Rightarrow> Some (None, s)
      | Some dino \<Rightarrow> do {
          f \<leftarrow> dir_find s dino name;
          (case f of None \<Rightarrow> Some (None, s)
           | Some (phys, blk, k, prev) \<Rightarrow> mkvnode (le32 blk k) s) }) }"

subsection \<open>Listing\<close>

text \<open>\<open>Inl\<close> the entries seen so far, or \<open>Inr\<close> the name; the caller reads it up to a NUL.\<close>

function de_nth :: "u8 list \<Rightarrow> int \<Rightarrow> nat \<Rightarrow> nat \<Rightarrow> (nat + path) option" where
  "de_nth blk index seen k =
     (if k < 1024 then
        (case buf16 blk (k + 4) of None \<Rightarrow> None
         | Some r \<Rightarrow>
             if r = 0 then Some (Inl seen)
             else case buf32 blk k of None \<Rightarrow> None
             | Some i \<Rightarrow>
                 if i = 0 then de_nth blk index seen (k + unat r)
                 else if int seen = index then do {
                   l \<leftarrow> buf8 blk (k + 6);
                   bs \<leftarrow> get_buf blk (k + 8) (min (unat l) 31);
                   Some (Inr (takeWhile (\<lambda>c. c \<noteq> 0) bs)) }
                 else de_nth blk index (Suc seen) (k + unat r))
      else Some (Inl seen))"
  by pat_completeness auto
termination
  by (relation "measure (\<lambda>(blk, index, seen, k). 1024 - k)") (auto simp: de_step)

declare de_nth.simps [simp del]

primrec dir_nth_in :: "ext2 \<Rightarrow> ext2_inode \<Rightarrow> int \<Rightarrow> nat list \<Rightarrow> nat \<Rightarrow> path option option" where
  "dir_nth_in s dino index [] seen = Some None"
| "dir_nth_in s dino index (bi # bis) seen = do {
     phys \<leftarrow> bmap s dino (word_of_nat bi);
     if phys = 0 then dir_nth_in s dino index bis seen
     else case eb_read s phys of None \<Rightarrow> dir_nth_in s dino index bis seen
     | Some blk \<Rightarrow> do {
         r \<leftarrow> de_nth blk index seen 0;
         (case r of Inl seen \<Rightarrow> dir_nth_in s dino index bis seen | Inr name \<Rightarrow> Some (Some name)) } }"

definition ext2_readdir :: "nat \<Rightarrow> int \<Rightarrow> ext2 \<Rightarrow> (path option \<times> ext2) option" where
  "ext2_readdir dir index s = do {
     r \<leftarrow> read_inode s (inum_of s dir);
     (case r of None \<Rightarrow> Some (None, s)
      | Some dino \<Rightarrow> do {
          n \<leftarrow> dir_nth_in s dino index [0..<dir_nblocks dino] 0;
          Some (n, s) }) }"

text \<open>The target of a symbolic link: the bytes of \<open>i_block\<close>, or the first block.\<close>

definition ext2_readlink :: "nat \<Rightarrow> nat \<Rightarrow> ext2 \<Rightarrow> (u8 list option \<times> ext2) option" where
  "ext2_readlink vn len s = do {
     r \<leftarrow> read_inode s (inum_of s vn);
     (case r of None \<Rightarrow> Some (None, s)
      | Some ino \<Rightarrow>
          let sz = min (sint (i_size ino)) (int len) in
          if sz \<le> 0 then Some (Some [], s)
          else if i_blocks ino = 0 then do {
            bs \<leftarrow> get_buf (enc_inode ino) 40 (nat sz);
            Some (Some bs, s) }
          else do {
            pb \<leftarrow> bmap s ino 0;
            (case (if pb = 0 then None else eb_read s pb) of None \<Rightarrow> Some (None, s)
             | Some tmp \<Rightarrow> do { bs \<leftarrow> get_buf tmp 0 (nat sz); Some (Some bs, s) }) }) }"

subsection \<open>Adding an entry\<close>

text \<open>The header and the name rounded up to a multiple of 4.\<close>

definition de_real_len :: "nat \<Rightarrow> nat" where "de_real_len n = (8 + n + 3) div 4 * 4"

text \<open>The inode, the length of the name, the type and the name at offset \<open>k\<close>; not the record length.\<close>

definition de_put :: "u8 list \<Rightarrow> nat \<Rightarrow> u32 \<Rightarrow> path \<Rightarrow> u8 \<Rightarrow> u8 list option" where
  "de_put blk k child name ft = do {
     blk \<leftarrow> put_buf blk k (enc32 child);
     blk \<leftarrow> put_buf blk (k + 6) [word_of_nat (length name), ft];
     put_buf blk (k + 8) name }"

text \<open>The first record with room for \<open>need\<close> bytes, and the bytes in use there.\<close>

function de_slot :: "u8 list \<Rightarrow> nat \<Rightarrow> nat \<Rightarrow> (nat \<times> nat) option option" where
  "de_slot blk need k =
     (if k < 1024 then
        (case buf16 blk (k + 4) of None \<Rightarrow> None
         | Some r \<Rightarrow>
             if r = 0 then Some None
             else case (do { i \<leftarrow> buf32 blk k;
                            if i = 0 then Some 0 else do { l \<leftarrow> buf8 blk (k + 6); Some (de_real_len (unat l)) } })
               of None \<Rightarrow> None
             | Some used \<Rightarrow>
                 if (ucast r :: u32) - word_of_nat used \<ge> word_of_nat need then Some (Some (k, used))
                 else de_slot blk need (k + unat r))
      else Some None)"
  by pat_completeness auto
termination
  by (relation "measure (\<lambda>(blk, need, k). 1024 - k)") (auto simp: de_step)

declare de_slot.simps [simp del]

text \<open>The empty record is reused whole; of another one the tail becomes the new entry.\<close>

definition de_insert :: "u8 list \<Rightarrow> nat \<Rightarrow> nat \<Rightarrow> u32 \<Rightarrow> path \<Rightarrow> u8 \<Rightarrow> u8 list option" where
  "de_insert blk k used child name ft = do {
     i \<leftarrow> buf32 blk k;
     if i = 0 then de_put blk k child name ft
     else do {
       old_rec \<leftarrow> buf16 blk (k + 4);
       blk \<leftarrow> put_buf blk (k + 4) (enc16 (word_of_nat used));
       blk \<leftarrow> put_buf blk (k + used + 4) (enc16 (old_rec - word_of_nat used));
       de_put blk (k + used) child name ft } }"

primrec dir_slot_in :: "ext2 \<Rightarrow> ext2_inode \<Rightarrow> nat \<Rightarrow> nat list \<Rightarrow> (u32 \<times> u8 list \<times> nat \<times> nat) option option" where
  "dir_slot_in s dino need [] = Some None"
| "dir_slot_in s dino need (bi # bis) = do {
     phys \<leftarrow> bmap s dino (word_of_nat bi);
     if phys = 0 then dir_slot_in s dino need bis
     else case eb_read s phys of None \<Rightarrow> dir_slot_in s dino need bis
     | Some blk \<Rightarrow> do {
         r \<leftarrow> de_slot blk need 0;
         (case r of None \<Rightarrow> dir_slot_in s dino need bis
          | Some (k, used) \<Rightarrow> Some (Some (phys, blk, k, used))) } }"

text \<open>The name has been cut to 255 bytes, as the callers do.\<close>

definition dir_add_entry :: "ext2_inode \<Rightarrow> u32 \<Rightarrow> path \<Rightarrow> u8 \<Rightarrow> ext2 \<Rightarrow> (int \<times> ext2_inode \<times> ext2) option" where
  "dir_add_entry dino child name ft s = do {
     let nblocks = dir_nblocks dino;
     r \<leftarrow> dir_slot_in s dino (de_real_len (length name)) [0..<nblocks];
     (case r of
        Some (phys, blk, k, used) \<Rightarrow> do {
          blk \<leftarrow> de_insert blk k used child name ft;
          (case eb_write phys blk s of (r, s) \<Rightarrow> Some (r, dino, s)) }
      | None \<Rightarrow> do {
          (phys, dino, s) \<leftarrow> bmap_alloc dino (word_of_nat nblocks) s;
          if phys = 0 then Some (-1, dino, s)
          else do {
            blk \<leftarrow> put_buf (replicate 1024 0) 4 (enc16 1024);
            blk \<leftarrow> de_put blk 0 child name ft;
            (case eb_write phys blk s of (r, s) \<Rightarrow>
               Some (if r \<noteq> 0 then (-1, dino, s) else (0, dino\<lparr>i_size := i_size dino + 1024\<rparr>, s))) } }) }"

definition cut_name :: "path \<Rightarrow> path" where "cut_name name = take 255 name"

subsection \<open>Creating\<close>

definition zero_inode :: ext2_inode where
  "zero_inode = dec_inode (replicate 128 0)"

text \<open>The first block of a new directory: the entries \<open>.\<close> and \<open>..\<close>.\<close>

definition dot_block :: "u32 \<Rightarrow> u32 \<Rightarrow> u8 list" where
  "dot_block inum dinum =
     enc32 inum @ enc16 12 @ [1, 2, 46] @ replicate 3 0 @
     enc32 dinum @ enc16 1012 @ [2, 2, 46, 46] @ replicate 1002 0"

definition undo_inode :: "bool \<Rightarrow> u32 \<Rightarrow> ext2_inode \<Rightarrow> ext2 \<Rightarrow> ext2 option" where
  "undo_inode is_dir inum ino s = do {
     (ino, s) \<leftarrow> (if is_dir then free_inode_blocks ino s else Some (ino, s));
     free_inode inum is_dir s }"

text \<open>The end of \<open>ext2_create\<close>, once the inode is initialised and a directory has its block.\<close>

definition create_link :: "nat \<Rightarrow> u32 \<Rightarrow> ext2_inode \<Rightarrow> path \<Rightarrow> bool \<Rightarrow> u32 \<Rightarrow> ext2_inode \<Rightarrow> ext2 \<Rightarrow> (nat option \<times> ext2) option" where
  "create_link dir dinum dino name is_dir inum ino s = do {
     (r, s) \<leftarrow> write_inode inum ino s;
     if r \<noteq> 0 then map_option (\<lambda>s. (None, s)) (undo_inode is_dir inum ino s)
     else do {
       (r, dino, s) \<leftarrow> dir_add_entry dino inum (cut_name name) (if is_dir then 2 else 1) s;
       if r \<noteq> 0 then map_option (\<lambda>s. (None, s)) (undo_inode is_dir inum ino s)
       else do {
         let dino = (if is_dir then dino\<lparr>i_links_count := i_links_count dino + 1\<rparr> else dino);
         (r, s) \<leftarrow> write_inode dinum dino s;
         if r \<noteq> 0 then Some (None, s)
         else mkvnode inum (set_vnode_size dir (i_size dino) s) } } }"

definition ext2_create :: "nat \<Rightarrow> path \<Rightarrow> vnode_type \<Rightarrow> ext2 \<Rightarrow> (nat option \<times> ext2) option" where
  "ext2_create dir name t s = do {
     let dinum = inum_of s dir;
     r \<leftarrow> read_inode s dinum;
     (case r of None \<Rightarrow> Some (None, s)
      | Some dino \<Rightarrow> do {
          let is_dir = (t = VN_DIR);
          (inum, s) \<leftarrow> alloc_inode is_dir s;
          if inum = 0 then Some (None, s)
          else let ino = zero_inode\<lparr>i_mode := if is_dir then 0x41ED else 0x81A4,
                                    i_links_count := if is_dir then 2 else 1\<rparr> in
            if is_dir then do {
              (db, ino, s) \<leftarrow> bmap_alloc ino 0 s;
              if db = 0 then map_option (\<lambda>s. (None, s)) (free_inode inum True s)
              else let ino = ino\<lparr>i_size := 1024\<rparr> in
                (case eb_write db (dot_block inum dinum) s of (r, s) \<Rightarrow>
                   if r \<noteq> 0 then map_option (\<lambda>s. (None, s)) (undo_inode True inum ino s)
                   else create_link dir dinum dino name True inum ino s) }
            else create_link dir dinum dino name False inum ino s }) }"

definition ext2_symlink :: "nat \<Rightarrow> path \<Rightarrow> path \<Rightarrow> ext2 \<Rightarrow> (int \<times> ext2) option" where
  "ext2_symlink dir name target s = do {
     let dinum = inum_of s dir;
     r \<leftarrow> read_inode s dinum;
     (case r of None \<Rightarrow> Some (-1, s)
      | Some dino \<Rightarrow>
          if target = [] \<or> length target > 60 then Some (-1, s)
          else do {
            (inum, s) \<leftarrow> alloc_inode False s;
            if inum = 0 then Some (-1, s)
            else do {
              let ino = zero_inode\<lparr>i_mode := 0xA1FF, i_links_count := 1, i_size := word_of_nat (length target),
                          i_block := dec_words 15 (target @ replicate (60 - length target) 0)\<rparr>;
              (r, s) \<leftarrow> write_inode inum ino s;
              if r \<noteq> 0 then map_option (\<lambda>s. (-1, s)) (free_inode inum False s)
              else do {
                (r, dino, s) \<leftarrow> dir_add_entry dino inum (cut_name name) 7 s;
                if r \<noteq> 0 then map_option (\<lambda>s. (-1, s)) (free_inode inum False s)
                else do {
                  (r, s) \<leftarrow> write_inode dinum dino s;
                  Some (if r \<noteq> 0 then (-1, s) else (0, set_vnode_size dir (i_size dino) s)) } } } }) }"

subsection \<open>Removing\<close>

text \<open>
  The record of the entry is absorbed by the one before it; the first record of a block becomes empty.
\<close>

definition de_remove :: "u8 list \<Rightarrow> nat \<Rightarrow> nat option \<Rightarrow> u8 list option" where
  "de_remove blk k prev =
     (case prev of
        Some p \<Rightarrow> do {
          a \<leftarrow> buf16 blk (p + 4);
          b \<leftarrow> buf16 blk (k + 4);
          put_buf blk (p + 4) (enc16 (a + b)) }
      | None \<Rightarrow> put_buf blk k (enc32 0))"

text \<open>One link less; without links the blocks and the inode are freed.\<close>

definition drop_link :: "u32 \<Rightarrow> ext2 \<Rightarrow> ext2 option" where
  "drop_link target s = do {
     r \<leftarrow> read_inode s target;
     (case r of None \<Rightarrow> Some s
      | Some tino \<Rightarrow>
          let tino = (if i_links_count tino > 0 then tino\<lparr>i_links_count := i_links_count tino - 1\<rparr> else tino);
              was_dir = (i_mode tino AND 0xF000 = 0x4000) in
          if i_links_count tino = 0 then do {
            (tino, s) \<leftarrow> free_inode_blocks tino s;
            (r, s) \<leftarrow> write_inode target (tino\<lparr>i_size := 0, i_blocks := 0\<rparr>) s;
            free_inode target was_dir s }
          else map_option snd (write_inode target tino s)) }"

definition ext2_unlink :: "nat \<Rightarrow> path \<Rightarrow> ext2 \<Rightarrow> (int \<times> ext2) option" where
  "ext2_unlink dir name s = do {
     r \<leftarrow> read_inode s (inum_of s dir);
     (case r of None \<Rightarrow> Some (-1, s)
      | Some dino \<Rightarrow> do {
          f \<leftarrow> dir_find s dino name;
          (case f of None \<Rightarrow> Some (-1, s)
           | Some (phys, blk, k, prev) \<Rightarrow> do {
               let target = le32 blk k;
               t \<leftarrow> read_inode s target;
               let is_dir = (case t of Some tchk \<Rightarrow> i_mode tchk AND 0xF000 = 0x4000 | None \<Rightarrow> False);
               if is_dir then Some (-1, s)
               else do {
                 blk \<leftarrow> de_remove blk k prev;
                 (case eb_write phys blk s of (r, s) \<Rightarrow>
                    if r \<noteq> 0 then Some (-1, s)
                    else map_option (\<lambda>s. (0, s)) (drop_link target s)) } }) }) }"

text \<open>The result is the inode of the entry that was removed, or 0.\<close>

definition dir_unlink_entry :: "ext2_inode \<Rightarrow> path \<Rightarrow> ext2 \<Rightarrow> (u32 \<times> ext2) option" where
  "dir_unlink_entry dino name s = do {
     f \<leftarrow> dir_find s dino name;
     (case f of None \<Rightarrow> Some (0, s)
      | Some (phys, blk, k, prev) \<Rightarrow> do {
          let inum = le32 blk k;
          blk \<leftarrow> de_remove blk k prev;
          (case eb_write phys blk s of (r, s) \<Rightarrow> Some (if r \<noteq> 0 then 0 else inum, s)) }) }"

subsection \<open>Renaming and linking\<close>

abbreviation (input) dotdot :: path where "dotdot \<equiv> [46, 46]"

definition update_dotdot :: "u32 \<Rightarrow> u32 \<Rightarrow> ext2 \<Rightarrow> (int \<times> ext2) option" where
  "update_dotdot dir_inum new_parent s = do {
     r \<leftarrow> read_inode s dir_inum;
     (case r of None \<Rightarrow> Some (-1, s)
      | Some ino \<Rightarrow> do {
          phys \<leftarrow> bmap s ino 0;
          (case (if phys = 0 then None else eb_read s phys) of None \<Rightarrow> Some (-1, s)
           | Some blk \<Rightarrow> do {
               f \<leftarrow> de_find blk dotdot 0 None;
               (case f of None \<Rightarrow> Some (-1, s)
                | Some (k, prev) \<Rightarrow> do {
                    blk \<leftarrow> put_buf blk k (enc32 new_parent);
                    Some (eb_write phys blk s) }) }) }) }"

text \<open>The link counts of the two parents, when a directory has moved.\<close>

definition move_links :: "u32 \<Rightarrow> u32 \<Rightarrow> u32 \<Rightarrow> ext2 \<Rightarrow> ext2 option" where
  "move_links src_inum oinum ninum s = do {
     (r, s) \<leftarrow> update_dotdot src_inum ninum s;
     r \<leftarrow> read_inode s oinum;
     s \<leftarrow> (case r of None \<Rightarrow> Some s
       | Some od \<Rightarrow> map_option snd (write_inode oinum
           (if i_links_count od > 0 then od\<lparr>i_links_count := i_links_count od - 1\<rparr> else od) s));
     r \<leftarrow> read_inode s ninum;
     (case r of None \<Rightarrow> Some s
      | Some nd \<Rightarrow> map_option snd (write_inode ninum (nd\<lparr>i_links_count := i_links_count nd + 1\<rparr>) s)) }"

text \<open>Once the destination is free: link the new name, drop the old one, move the links.\<close>

definition rename_entries :: "u32 \<Rightarrow> path \<Rightarrow> u32 \<Rightarrow> path \<Rightarrow> u32 \<Rightarrow> u8 \<Rightarrow> bool \<Rightarrow> ext2 \<Rightarrow> (int \<times> ext2) option" where
  "rename_entries oinum oldname ninum newname src_inum ft is_dir s = do {
     r \<leftarrow> read_inode s ninum;
     (case r of None \<Rightarrow> Some (-1, s)
      | Some nd \<Rightarrow> do {
          (r, nd, s) \<leftarrow> dir_add_entry nd src_inum (cut_name newname) ft s;
          if r \<noteq> 0 then Some (-1, s)
          else do {
            (r, s) \<leftarrow> write_inode ninum nd s;
            if r \<noteq> 0 then Some (-1, s)
            else do {
              r \<leftarrow> read_inode s oinum;
              (case r of None \<Rightarrow> Some (-1, s)
               | Some od \<Rightarrow> do {
                   (i, s) \<leftarrow> dir_unlink_entry od oldname s;
                   if i = 0 then Some (-1, s)
                   else do {
                     (r, s) \<leftarrow> write_inode oinum od s;
                     if r \<noteq> 0 then Some (-1, s)
                     else if is_dir \<and> oinum \<noteq> ninum then
                       map_option (\<lambda>s. (0, s)) (move_links src_inum oinum ninum s)
                     else Some (0, s) } }) } } }) }"

definition ext2_rename :: "nat \<Rightarrow> path \<Rightarrow> nat \<Rightarrow> path \<Rightarrow> ext2 \<Rightarrow> (int \<times> ext2) option" where
  "ext2_rename odir oldname ndir newname s = do {
     let oinum = inum_of s odir;
     let ninum = inum_of s ndir;
     (sv, s) \<leftarrow> ext2_lookup odir oldname s;
     (case sv of None \<Rightarrow> Some (-1, s)
      | Some srcvn \<Rightarrow> do {
          let src_inum = inum_of s srcvn;
          r \<leftarrow> read_inode s src_inum;
          (case r of None \<Rightarrow> Some (-1, s)
           | Some src \<Rightarrow> do {
               let fmt = i_mode src AND 0xF000;
               let ft = (if fmt = 0x4000 then 2 else if fmt = 0xA000 then 7 else 1 :: u8);
               (dv, s) \<leftarrow> ext2_lookup ndir newname s;
               (case dv of
                  None \<Rightarrow> rename_entries oinum oldname ninum newname src_inum ft (fmt = 0x4000) s
                | Some dstvn \<Rightarrow>
                    if xv_type (x_vnodes s ! dstvn) = VN_DIR then Some (-1, s)
                    else do {
                      (r, s) \<leftarrow> ext2_unlink ndir newname s;
                      if r \<noteq> 0 then Some (-1, s)
                      else rename_entries oinum oldname ninum newname src_inum ft (fmt = 0x4000) s }) }) }) }"

definition ext2_link :: "nat \<Rightarrow> path \<Rightarrow> nat \<Rightarrow> ext2 \<Rightarrow> (int \<times> ext2) option" where
  "ext2_link dir name target s = do {
     let dinum = inum_of s dir;
     let tinum = inum_of s target;
     rd \<leftarrow> read_inode s dinum;
     (case rd of None \<Rightarrow> Some (-1, s)
      | Some dino \<Rightarrow> do {
          rt \<leftarrow> read_inode s tinum;
          (case rt of None \<Rightarrow> Some (-1, s)
           | Some tino \<Rightarrow>
               let fmt = i_mode tino AND 0xF000 in
               if fmt = 0x4000 then Some (-1, s)
               else do {
                 (r, dino, s) \<leftarrow> dir_add_entry dino tinum (cut_name name) (if fmt = 0xA000 then 7 else 1) s;
                 if r \<noteq> 0 then Some (-1, s)
                 else do {
                   (r, s) \<leftarrow> write_inode dinum dino s;
                   if r \<noteq> 0 then Some (-1, s)
                   else do {
                     (r, s) \<leftarrow> write_inode tinum (tino\<lparr>i_links_count := i_links_count tino + 1\<rparr>)
                        (set_vnode_size dir (i_size dino) s);
                     Some (if r \<noteq> 0 then -1 else 0, s) } } }) }) }"

definition ext2_ops :: "(nat, ext2) vnode_ops" where
  "ext2_ops = \<lparr>vo_read = Some ext2_read, vo_write = Some ext2_write, vo_lookup = Some ext2_lookup,
     vo_create = Some ext2_create, vo_readdir = Some ext2_readdir, vo_truncate = Some ext2_truncate,
     vo_unlink = Some ext2_unlink, vo_readlink = Some ext2_readlink, vo_symlink = Some ext2_symlink,
     vo_rename = Some ext2_rename, vo_link = Some ext2_link\<rparr>"

definition ext2_vnodes :: "(nat, ext2) vnodes" where
  "ext2_vnodes = \<lparr>vn_type = \<lambda>s v. xv_type (x_vnodes s ! v), vn_size = \<lambda>s v. xv_size (x_vnodes s ! v),
     vn_ops = \<lambda>_. ext2_ops\<rparr>"

subsection \<open>Mounting\<close>

text \<open>
  The descriptors are copied into a fresh array; \<open>fill_gdt\<close> is its prefix so far. A read that fails
  leaves what was cached until then. The first read goes into the cached superblock itself.
\<close>

primrec fill_gdt :: "ext2 \<Rightarrow> u32 \<Rightarrow> nat list \<Rightarrow> u8 list \<Rightarrow> ext2_group_desc list \<Rightarrow> bool \<times> ext2_group_desc list" where
  "fill_gdt s gdt_block [] buf ds = (True, ds)"
| "fill_gdt s gdt_block (g # gs) buf ds =
     (case (if g mod 32 = 0 then eb_read s (gdt_block + word_of_nat (g div 32)) else Some buf) of
        None \<Rightarrow> (False, ds)
      | Some buf \<Rightarrow> fill_gdt s gdt_block gs buf (ds @ [dec_group (take 32 (drop (g mod 32 * 32) buf))]))"

definition read_super :: "ext2 \<Rightarrow> bool \<times> ext2" where
  "read_super s =
     (if x_rfail s 2 then (False, s)
      else if x_rfail s 3 then (False, s\<lparr>x_sb := dec_super (x_disk s 2 @ drop 512 (enc_super (x_sb s)))\<rparr>)
      else (True, s\<lparr>x_sb := dec_super (x_disk s 2 @ x_disk s 3)\<rparr>))"

definition ext2_mount :: "ext2 \<Rightarrow> (nat option \<times> ext2) option" where
  "ext2_mount s =
     (case read_super s of (ok, s) \<Rightarrow>
        let sb = x_sb s in
        if \<not> ok then Some (None, s)
        else if s_magic sb \<noteq> 0xEF53 then Some (None, s)
        else if s_log_block_size sb \<noteq> 0 then Some (None, s)
        else let s = s\<lparr>x_inode_size := if s_rev_level sb \<ge> 1 \<and> s_inode_size sb \<noteq> 0 then ucast (s_inode_size sb) else 128\<rparr> in
          if s_blocks_per_group sb = 0 then None
          else let ng = (s_blocks_count sb - s_first_data_block sb + s_blocks_per_group sb - 1) div s_blocks_per_group sb;
                   s = s\<lparr>x_ngroups := ng\<rparr> in
            if ng = 0 then Some (None, s)
            else let s' = s\<lparr>x_calls := Suc (x_calls s)\<rparr> in
              if \<not> x_malloc s (x_calls s) then Some (None, s'\<lparr>x_gdt := []\<rparr>)
              else case fill_gdt s' (s_first_data_block sb + 1) [0..<unat ng] [] [] of
                (ok, ds) \<Rightarrow>
                  let s = s'\<lparr>x_gdt := ds\<rparr> in
                  if ok then mkvnode 2 s else Some (None, s))"

end
