(* ===== verification/Ext2_Entries.thy ===== *)
theory Ext2_Entries
  imports Ext2_Dir "HOL-Library.Multiset"
begin

text \<open>
  A directory block as a list of entries. The block is the concatenation of its records; lookup,
  insertion and removal in the bytes are shown to be those operations on a finite map from names to
  inode numbers.
\<close>

subsection \<open>Records\<close>

record dent =
  d_inode :: u32
  d_nlen :: u8
  d_type :: u8
  d_body :: "u8 list"

definition d_len :: "dent \<Rightarrow> nat" where "d_len e = 8 + length (d_body e)"
definition d_name :: "dent \<Rightarrow> path" where "d_name e = take (unat (d_nlen e)) (d_body e)"

definition enc_dent :: "dent \<Rightarrow> u8 list" where
  "enc_dent e = enc32 (d_inode e) @ enc16 (word_of_nat (d_len e)) @ [d_nlen e, d_type e] @ d_body e"

definition enc_dents :: "dent list \<Rightarrow> u8 list" where "enc_dents es = concat (map enc_dent es)"

text \<open>A record is a multiple of 4 bytes and holds its name; the length field of an empty one is free.\<close>

definition dent_ok :: "dent \<Rightarrow> bool" where
  "dent_ok e \<longleftrightarrow> length (d_body e) mod 4 = 0 \<and> (d_inode e \<noteq> 0 \<longrightarrow> unat (d_nlen e) \<le> length (d_body e))"

definition dents :: "dent list \<Rightarrow> (path \<times> u32) list" where
  "dents es = map (\<lambda>e. (d_name e, d_inode e)) (filter (\<lambda>e. d_inode e \<noteq> 0) es)"

definition dir_rep :: "u8 list \<Rightarrow> dent list \<Rightarrow> bool" where
  "dir_rep blk es \<longleftrightarrow> blk = enc_dents es \<and> length blk = 1024 \<and> (\<forall>e \<in> set es. dent_ok e) \<and> distinct (map fst (dents es))"

lemma length_enc_dent [simp]: "length (enc_dent e) = d_len e"
  by (simp add: enc_dent_def d_len_def)

lemma enc_dents_simps [simp]:
  "enc_dents [] = []" "enc_dents (e # es) = enc_dent e @ enc_dents es" "enc_dents (xs @ ys) = enc_dents xs @ enc_dents ys"
  by (simp_all add: enc_dents_def)

lemma dents_simps [simp]:
  "dents [] = []" "dents (e # es) = (if d_inode e \<noteq> 0 then (d_name e, d_inode e) # dents es else dents es)"
  "dents (xs @ ys) = dents xs @ dents ys"
  by (simp_all add: dents_def)

lemma d_len_pos: "8 \<le> d_len e" by (simp add: d_len_def)

text \<open>What the accesses of the code find in a record.\<close>

lemma nth_dent:
  "(pre @ enc_dent e @ post) ! (length pre + 6) = d_nlen e"
  by (simp add: nth_append enc_dent_def)

lemma fields_dent:
  assumes "blk = pre @ enc_dent e @ post" "length blk = 1024"
  shows "buf32 blk (length pre) = Some (d_inode e)" "le32 blk (length pre) = d_inode e"
    "buf16 blk (length pre + 4) = Some (word_of_nat (d_len e))" "buf8 blk (length pre + 6) = Some (d_nlen e)"
    "get_buf blk (length pre + 8) n = (if n \<le> 1016 - length pre then Some (take n (d_body e @ post)) else None)"
    "length pre + d_len e \<le> 1024" "unat (word_of_nat (d_len e) :: u16) = d_len e"
proof -
  have l: "length pre + d_len e + length post = 1024" using assms by simp
  then show "length pre + d_len e \<le> 1024" by simp
  then have "d_len e < 65536" by simp
  then show u: "unat (word_of_nat (d_len e) :: u16) = d_len e" by (simp add: unat_of_nat)
  have l8: "length pre + 8 \<le> length blk" using l d_len_pos [of e] assms(2) by simp
  have "le32 blk (length pre) = d_inode e" "le16 blk (length pre + 4) = word_of_nat (d_len e)"
    unfolding assms(1) by (simp_all add: enc_dent_def)
  then show "buf32 blk (length pre) = Some (d_inode e)" "le32 blk (length pre) = d_inode e"
    "buf16 blk (length pre + 4) = Some (word_of_nat (d_len e))"
    using l8 by simp_all
  show "buf8 blk (length pre + 6) = Some (d_nlen e)" using l8 nth_dent [of pre e post] assms(1) by simp
  have "drop (length pre + 8) blk = d_body e @ post" unfolding assms(1) by (simp add: enc_dent_def)
  then show "get_buf blk (length pre + 8) n = (if n \<le> 1016 - length pre then Some (take n (d_body e @ post)) else None)"
    using l8 assms(2) by (auto simp: get_buf_def)
qed

lemma name_eq_exact:
  "p + n \<le> length blk \<Longrightarrow> name_eq blk p n name = Some (take n (drop p blk) = name)"
proof (induction blk p n name rule: name_eq.induct)
  case (3 blk p n c cs)
  then have "drop p blk = blk ! p # drop (Suc p) blk" by (intro Cons_nth_drop_Suc [symmetric]) simp
  with 3 show ?case by auto
next
  case (2 blk p n)
  then show ?case by simp
qed auto

subsection \<open>Finding a name\<close>

primrec find_dent :: "path \<Rightarrow> nat \<Rightarrow> nat option \<Rightarrow> dent list \<Rightarrow> (nat \<times> nat option) option" where
  "find_dent name k prev [] = None"
| "find_dent name k prev (e # es) =
     (if d_inode e \<noteq> 0 \<and> d_name e = name then Some (k, prev) else find_dent name (k + d_len e) (Some k) es)"

lemma de_matches_exact:
  assumes b: "blk = pre @ enc_dent e @ post" "length blk = 1024" and e: "dent_ok e"
  shows "de_matches blk (length pre) name = Some (d_inode e \<noteq> 0 \<and> d_name e = name)"
proof (cases "d_inode e = 0")
  case False
  then have n: "unat (d_nlen e) \<le> length (d_body e)" using e by (simp add: dent_ok_def)
  have "length pre + 8 + unat (d_nlen e) \<le> length blk" using n fields_dent(6) [OF b] b(2) by (simp add: d_len_def)
  then have "name_eq blk (length pre + 8) (unat (d_nlen e)) name =
      Some (take (unat (d_nlen e)) (drop (length pre + 8) blk) = name)" by (rule name_eq_exact)
  moreover have "drop (length pre + 8) blk = d_body e @ post" unfolding b(1) by (simp add: enc_dent_def)
  ultimately show ?thesis using False n fields_dent(1,4) [OF b] by (simp add: de_matches_def d_name_def)
qed (use fields_dent(1) [OF b] in \<open>simp add: de_matches_def\<close>)

lemma de_find_exact:
  assumes "blk = enc_dents (xs @ es)" "length blk = 1024" "\<forall>e \<in> set es. dent_ok e"
  shows "de_find blk name (length (enc_dents xs)) prev = Some (find_dent name (length (enc_dents xs)) prev es)"
  using assms
proof (induction es arbitrary: xs prev)
  case Nil
  then show ?case by (simp add: de_find.simps)
next
  case (Cons e es)
  let ?k = "length (enc_dents xs)"
  have b: "blk = enc_dents xs @ enc_dent e @ enc_dents es" using Cons.prems(1) by simp
  note f = fields_dent [OF b Cons.prems(2)]
  have IH: "de_find blk name (?k + d_len e) p = Some (find_dent name (?k + d_len e) p es)" for p
    using Cons.IH [of "xs @ [e]" p] Cons.prems by simp
  have "(word_of_nat (d_len e) :: u16) \<noteq> 0" using f(7) d_len_pos [of e] by auto
  moreover have "?k < 1024" using f(6) d_len_pos [of e] by simp
  ultimately show ?case
    using f(3,7) de_matches_exact [OF b Cons.prems(2), of name] Cons.prems(3) IH
    by (subst de_find.simps) simp
qed

text \<open>The entry that is found, the record before it, and what the name maps to.\<close>

lemma find_dent_Some:
  "find_dent name k prev es = Some (j, p) \<Longrightarrow> \<exists>xs e ys. es = xs @ e # ys \<and> d_inode e \<noteq> 0 \<and> d_name e = name \<and>
     name \<notin> fst ` set (dents xs) \<and> j = k + length (enc_dents xs) \<and>
     p = (if xs = [] then prev else Some (k + length (enc_dents (butlast xs))))"
proof (induction es arbitrary: k prev)
  case (Cons e es)
  show ?case
  proof (cases "d_inode e \<noteq> 0 \<and> d_name e = name")
    case True
    with Cons.prems have "e # es = [] @ e # es \<and> d_inode e \<noteq> 0 \<and> d_name e = name \<and> name \<notin> fst ` set (dents []) \<and>
       j = k + length (enc_dents []) \<and> p = (if [] = [] then prev else Some (k + length (enc_dents (butlast []))))" by auto
    then show ?thesis by blast
  next
    case False
    then have "find_dent name (k + d_len e) (Some k) es = Some (j, p)" using Cons.prems by auto
    from Cons.IH [OF this] obtain xs e' ys where x: "es = xs @ e' # ys" "d_inode e' \<noteq> 0" "d_name e' = name"
       "name \<notin> fst ` set (dents xs)" "j = k + d_len e + length (enc_dents xs)"
       "p = (if xs = [] then Some k else Some (k + d_len e + length (enc_dents (butlast xs))))" by blast
    then have "e # es = (e # xs) @ e' # ys \<and> d_inode e' \<noteq> 0 \<and> d_name e' = name \<and> name \<notin> fst ` set (dents (e # xs)) \<and>
       j = k + length (enc_dents (e # xs)) \<and>
       p = (if e # xs = [] then prev else Some (k + length (enc_dents (butlast (e # xs)))))" using False by auto
    then show ?thesis by blast
  qed
qed simp

lemma find_dent_None: "find_dent name k prev es = None \<longleftrightarrow> map_of (dents es) name = None"
  by (induction es arbitrary: k prev) auto

lemma map_of_dents:
  assumes "es = xs @ e # ys" "d_inode e \<noteq> 0" "name \<notin> fst ` set (dents xs)" "d_name e = name"
  shows "map_of (dents es) name = Some (d_inode e)"
  using assms by (simp add: map_add_def map_of_eq_None_iff [THEN iffD2])

subsection \<open>Adding a name\<close>

definition d_used :: "dent \<Rightarrow> nat" where "d_used e = (if d_inode e = 0 then 0 else de_real_len (unat (d_nlen e)))"

primrec find_slot :: "nat \<Rightarrow> nat \<Rightarrow> dent list \<Rightarrow> (nat \<times> nat) option" where
  "find_slot need k [] = None"
| "find_slot need k (e # es) = (if d_used e + need \<le> d_len e then Some (k, d_used e) else find_slot need (k + d_len e) es)"

lemma real_len_le: "n \<le> m \<Longrightarrow> m mod 4 = 0 \<Longrightarrow> de_real_len n \<le> 8 + m" "8 + n \<le> de_real_len n" "de_real_len n mod 4 = 0"
proof -
  assume n: "n \<le> m" and m: "m mod 4 = 0"
  have "(8 + n + 3) div 4 \<le> (8 + m + 3) div 4" using n by (intro div_le_mono) simp
  moreover have "(8 + m + 3) div 4 * 4 = 8 + m" using m by presburger
  ultimately show "de_real_len n \<le> 8 + m" unfolding de_real_len_def by linarith
next
  show "8 + n \<le> de_real_len n" unfolding de_real_len_def by presburger
  show "de_real_len n mod 4 = 0" by (simp add: de_real_len_def)
qed

lemma d_used_le: "dent_ok e \<Longrightarrow> d_used e \<le> d_len e"
  using real_len_le(1) [of "unat (d_nlen e)" "length (d_body e)"] by (auto simp: d_used_def dent_ok_def d_len_def)

lemma de_slot_exact:
  assumes "blk = enc_dents (xs @ es)" "length blk = 1024" "\<forall>e \<in> set es. dent_ok e" "need \<le> 1024"
  shows "de_slot blk need (length (enc_dents xs)) = Some (find_slot need (length (enc_dents xs)) es)"
  using assms
proof (induction es arbitrary: xs)
  case Nil
  then show ?case by (simp add: de_slot.simps)
next
  case (Cons e es)
  let ?k = "length (enc_dents xs)"
  have b: "blk = enc_dents xs @ enc_dent e @ enc_dents es" using Cons.prems(1) by simp
  note f = fields_dent [OF b Cons.prems(2)]
  have IH: "de_slot blk need (?k + d_len e) = Some (find_slot need (?k + d_len e) es)"
    using Cons.IH [of "xs @ [e]"] Cons.prems by simp
  have u: "d_used e \<le> d_len e" using Cons.prems(3) d_used_le by simp
  have l: "d_len e \<le> 1024" using f(6) by simp
  have "(ucast (word_of_nat (d_len e) :: u16) :: u32) = word_of_nat (d_len e)"
    using l by (simp add: word_unat_eq_iff unsigned_ucast_eq unsigned_take_bit_eq unat_of_nat take_bit_eq_mod)
  then have "(ucast (word_of_nat (d_len e) :: u16) :: u32) - word_of_nat (d_used e) = word_of_nat (d_len e - d_used e)"
    using u by (simp add: of_nat_diff)
  moreover have "(word_of_nat need :: u32) \<le> word_of_nat m \<longleftrightarrow> need \<le> m" if "m \<le> 1024" for m
    using that Cons.prems(4) by (simp add: word_le_nat_alt unat_of_nat)
  ultimately have slack: "(word_of_nat need :: u32) \<le> ucast (word_of_nat (d_len e) :: u16) - word_of_nat (d_used e) \<longleftrightarrow> d_used e + need \<le> d_len e"
    using l u by (metis add.commute diff_le_self le_diff_conv2 le_trans)
  have used: "(do { i \<leftarrow> buf32 blk ?k; if i = 0 then Some 0 else do { l \<leftarrow> buf8 blk (?k + 6); Some (de_real_len (unat l)) } }) = Some (d_used e)"
    using f(1,4) by (simp add: d_used_def)
  have "(word_of_nat (d_len e) :: u16) \<noteq> 0" using f(7) d_len_pos [of e] by auto
  moreover have "?k < 1024" using f(6) d_len_pos [of e] by simp
  ultimately show ?case using f(3,7) slack used IH by (subst de_slot.simps) simp
qed

lemma find_slot_Some:
  "find_slot need k es = Some (j, u) \<Longrightarrow> \<exists>xs e ys. es = xs @ e # ys \<and> j = k + length (enc_dents xs) \<and>
     u = d_used e \<and> d_used e + need \<le> d_len e"
proof (induction es arbitrary: k)
  case (Cons e es)
  show ?case
  proof (cases "d_used e + need \<le> d_len e")
    case True
    then have "e # es = [] @ e # es \<and> j = k + length (enc_dents []) \<and> u = d_used e \<and> d_used e + need \<le> d_len e"
      using Cons.prems by simp
    then show ?thesis by blast
  next
    case False
    then obtain xs e' ys where "es = xs @ e' # ys" "j = k + d_len e + length (enc_dents xs)" "u = d_used e'" "d_used e' + need \<le> d_len e'"
      using Cons.IH [of "k + d_len e"] Cons.prems by auto
    then have "e # es = (e # xs) @ e' # ys \<and> j = k + length (enc_dents (e # xs)) \<and> u = d_used e' \<and> d_used e' + need \<le> d_len e'" by simp
    then show ?thesis by blast
  qed
qed simp

text \<open>Overwriting a part of a buffer.\<close>

lemma put_at: "buf = pre @ old @ post \<Longrightarrow> length bs = length old \<Longrightarrow> k = length pre \<Longrightarrow> put_buf buf k bs = Some (pre @ bs @ post)"
  by (simp add: put_buf_def)

lemma de_put_at:
  assumes "buf = pre @ a @ b @ c @ d @ post" "length a = 4" "length b = 2" "length c = 2" "length d = length name"
  shows "de_put buf (length pre) child name ft =
    Some (pre @ enc32 child @ b @ [word_of_nat (length name), ft] @ name @ post)"
proof -
  have 1: "put_buf buf (length pre) (enc32 child) = Some (pre @ enc32 child @ b @ c @ d @ post)"
    using assms by (intro put_at [where old = a]) simp_all
  have 2: "put_buf (pre @ enc32 child @ b @ c @ d @ post) (length pre + 6) [word_of_nat (length name), ft] =
      Some ((pre @ enc32 child @ b) @ [word_of_nat (length name), ft] @ d @ post)"
    using assms by (intro put_at [where old = c]) simp_all
  have 3: "put_buf ((pre @ enc32 child @ b) @ [word_of_nat (length name), ft] @ d @ post) (length pre + 8) name =
      Some ((pre @ enc32 child @ b @ [word_of_nat (length name), ft]) @ name @ post)"
    using assms by (intro put_at [where old = d]) simp_all
  show ?thesis unfolding de_put_def using 1 2 3 by simp
qed

definition new_dent :: "u32 \<Rightarrow> path \<Rightarrow> u8 \<Rightarrow> u8 list \<Rightarrow> dent" where
  "new_dent child name ft old = \<lparr>d_inode = child, d_nlen = word_of_nat (length name), d_type = ft,
     d_body = name @ drop (length name) old\<rparr>"

text \<open>An empty record is taken over; another one is cut after its name and a new one follows.\<close>

definition insert_dent :: "dent \<Rightarrow> u32 \<Rightarrow> path \<Rightarrow> u8 \<Rightarrow> dent list" where
  "insert_dent e child name ft =
     (if d_inode e = 0 then [new_dent child name ft (d_body e)]
      else [e\<lparr>d_body := take (d_used e - 8) (d_body e)\<rparr>, new_dent child name ft (drop (d_used e) (d_body e))])"

lemma de_insert_exact:
  assumes b: "blk = enc_dents (xs @ e # ys)" "length blk = 1024" and room: "d_used e + de_real_len (length name) \<le> d_len e"
  shows "de_insert blk (length (enc_dents xs)) (d_used e) child name ft = Some (enc_dents (xs @ insert_dent e child name ft @ ys))"
proof (cases "d_inode e = 0")
  case True
  have b': "blk = enc_dents xs @ enc_dent e @ enc_dents ys" using b(1) by simp
  have n: "length name \<le> length (d_body e)" using room real_len_le(2) [of "length name"] by (simp add: d_len_def)
  have "de_put blk (length (enc_dents xs)) child name ft = Some (enc_dents xs @ enc32 child @ enc16 (word_of_nat (d_len e)) @
      [word_of_nat (length name), ft] @ name @ drop (length name) (d_body e) @ enc_dents ys)"
  proof (rule de_put_at [where a = "enc32 (d_inode e)" and c = "[d_nlen e, d_type e]" and d = "take (length name) (d_body e)"])
    show "blk = enc_dents xs @ enc32 (d_inode e) @ enc16 (word_of_nat (d_len e)) @ [d_nlen e, d_type e] @
        take (length name) (d_body e) @ drop (length name) (d_body e) @ enc_dents ys"
      unfolding b' by (simp add: enc_dent_def)
  qed (use n in \<open>simp_all add: length_enc\<close>)
  then show ?thesis using True n fields_dent(1) [OF b' b(2)]
    by (simp add: de_insert_def insert_dent_def new_dent_def enc_dent_def d_len_def)
next
  case False
  have b': "blk = enc_dents xs @ enc_dent e @ enc_dents ys" using b(1) by simp
  note f = fields_dent [OF b' b(2)]
  let ?P = "enc_dents xs" and ?u = "d_used e" and ?L = "d_len e" and ?B = "d_body e"
  have u: "8 \<le> ?u" using False real_len_le(2) [of "unat (d_nlen e)"] by (simp add: d_used_def)
  have room': "?u + 8 + length name \<le> 8 + length ?B" using room real_len_le(2) [of "length name"] by (simp add: d_len_def)
  define B1 where "B1 = take (?u - 8) ?B"
  define h where "h = take 8 (drop (?u - 8) ?B)"
  define R where "R = drop ?u ?B"
  have B: "?B = B1 @ take 4 h @ take 2 (drop 4 h) @ drop 6 h @ take (length name) R @ drop (length name) R"
  proof -
    have "h = take 4 h @ take 2 (drop 4 h) @ drop 6 h"
      using append_take_drop_id [of 4 h] append_take_drop_id [of 2 "drop 4 h"] by simp
    moreover have "?B = B1 @ h @ R"
      using u append_take_drop_id [of "?u - 8" ?B] append_take_drop_id [of 8 "drop (?u - 8) ?B"] by (simp add: B1_def h_def R_def)
    ultimately show ?thesis by simp
  qed
  have len: "length B1 = ?u - 8" "length h = 8" "length name \<le> length R"
    using u room' by (simp_all add: B1_def h_def R_def)
  let ?hd = "?P @ enc32 (d_inode e) @ enc16 (word_of_nat ?u) @ [d_nlen e, d_type e] @ B1"
  let ?L2 = "word_of_nat ?L - word_of_nat ?u :: u16"
  have 1: "put_buf blk (length ?P + 4) (enc16 (word_of_nat ?u)) =
      Some ((?P @ enc32 (d_inode e)) @ enc16 (word_of_nat ?u) @ [d_nlen e, d_type e] @ ?B @ enc_dents ys)"
    by (rule put_at [where old = "enc16 (word_of_nat ?L)"]) (simp_all add: b' enc_dent_def)
  have 2: "put_buf ((?P @ enc32 (d_inode e)) @ enc16 (word_of_nat ?u) @ [d_nlen e, d_type e] @ ?B @ enc_dents ys)
      (length ?P + ?u + 4) (enc16 ?L2) =
      Some ((?hd @ take 4 h) @ enc16 ?L2 @ drop 6 h @ take (length name) R @ drop (length name) R @ enc_dents ys)"
    using len u by (intro put_at [where old = "take 2 (drop 4 h)"]) (subst B, simp_all)
  have 3: "de_put ((?hd @ take 4 h) @ enc16 ?L2 @ drop 6 h @ take (length name) R @ drop (length name) R @ enc_dents ys)
      (length ?hd) child name ft =
      Some (?hd @ enc32 child @ enc16 ?L2 @ [word_of_nat (length name), ft] @ name @ drop (length name) R @ enc_dents ys)"
    using len by (intro de_put_at [where a = "take 4 h" and c = "drop 6 h" and d = "take (length name) R"]) simp_all
  have hd: "length ?hd = length ?P + ?u" using len(1) u by simp
  have "d_len (new_dent child name ft R) = ?L - ?u" using len(3) room' u by (simp add: d_len_def new_dent_def R_def)
  then have L2: "word_of_nat (d_len (new_dent child name ft R)) = ?L2" using room by (simp add: of_nat_diff)
  have "enc_dents (xs @ insert_dent e child name ft @ ys) =
      ?hd @ enc32 child @ enc16 ?L2 @ [word_of_nat (length name), ft] @ name @ drop (length name) R @ enc_dents ys"
  proof -
    have "d_len (e\<lparr>d_body := B1\<rparr>) = ?u" using len(1) u by (simp add: d_len_def)
    then show ?thesis using False
      by (simp add: insert_dent_def B1_def [symmetric] R_def [symmetric] enc_dent_def [of "new_dent child name ft R"]
          enc_dent_def [of "e\<lparr>d_body := B1\<rparr>"] L2) (simp add: new_dent_def)
  qed
  then show ?thesis using False f(1,3) 1 2 3 unfolding hd by (simp add: de_insert_def)
qed

lemma insert_dent_ok:
  assumes e: "dent_ok e" and room: "d_used e + de_real_len (length name) \<le> d_len e" and n: "length name < 256"
  shows "\<forall>x \<in> set (insert_dent e child name ft). dent_ok x"
    "length (enc_dents (insert_dent e child name ft)) = d_len e"
    "child \<noteq> 0 \<Longrightarrow> dents (insert_dent e child name ft) = dents [e] @ [(name, child)]"
proof -
  have m: "length (d_body e) mod 4 = 0" using e by (simp add: dent_ok_def)
  have un: "unat (word_of_nat (length name) :: u8) = length name" using n by (simp add: unat_of_nat)
  have u: "d_used e = 0 \<or> 8 + unat (d_nlen e) \<le> d_used e" "d_used e mod 4 = 0" "d_inode e \<noteq> 0 \<Longrightarrow> d_used e \<noteq> 0"
    using real_len_le(2,3) [of "unat (d_nlen e)"] by (auto simp: d_used_def)
  have r: "d_used e + 8 + length name \<le> 8 + length (d_body e)" using room real_len_le(2) [of "length name"] by (simp add: d_len_def)
  have md: "(a - b) mod 4 = 0" if "a mod 4 = 0" "b mod 4 = 0" for a b :: nat using that by presburger
  have u8: "d_inode e \<noteq> 0 \<Longrightarrow> (d_used e - 8) mod 4 = 0 \<and> unat (d_nlen e) \<le> d_used e - 8 \<and> 8 \<le> d_used e"
    using u md [of "d_used e" 8] by auto
  have body: "length (d_body e) - d_used e mod 4 = length (d_body e)" using u(2) by simp
  show "\<forall>x \<in> set (insert_dent e child name ft). dent_ok x"
    using m un u8 r md [OF m u(2)] by (auto simp: insert_dent_def new_dent_def dent_ok_def min_def)
  show "length (enc_dents (insert_dent e child name ft)) = d_len e"
    using r u8 by (auto simp: insert_dent_def new_dent_def d_len_def d_used_def)
  show "child \<noteq> 0 \<Longrightarrow> dents (insert_dent e child name ft) = dents [e] @ [(name, child)]"
    using un u8 by (auto simp: insert_dent_def new_dent_def d_name_def min_def)
qed

subsection \<open>Removing a name\<close>

lemma de_remove_first:
  assumes "blk = enc_dents (e # ys)"
  shows "de_remove blk 0 None = Some (enc_dents (e\<lparr>d_inode := 0\<rparr> # ys))"
proof -
  have "put_buf blk 0 (enc32 0) = Some ([] @ enc32 0 @ enc16 (word_of_nat (d_len e)) @ [d_nlen e, d_type e] @ d_body e @ enc_dents ys)"
    by (rule put_at [where old = "enc32 (d_inode e)"]) (simp_all add: assms enc_dent_def)
  then show ?thesis by (simp add: de_remove_def enc_dent_def d_len_def)
qed

lemma de_remove_next:
  assumes "blk = enc_dents (xs @ p # e # ys)" "length blk = 1024"
  shows "de_remove blk (length (enc_dents (xs @ [p]))) (Some (length (enc_dents xs))) =
    Some (enc_dents (xs @ p\<lparr>d_body := d_body p @ enc_dent e\<rparr> # ys))"
proof -
  have a: "blk = enc_dents xs @ enc_dent p @ enc_dents (e # ys)" using assms(1) by simp
  have b: "blk = enc_dents (xs @ [p]) @ enc_dent e @ enc_dents ys" using assms(1) by simp
  let ?r = "word_of_nat (d_len p) + word_of_nat (d_len e) :: u16"
  have "put_buf blk (length (enc_dents xs) + 4) (enc16 ?r) =
      Some ((enc_dents xs @ enc32 (d_inode p)) @ enc16 ?r @ [d_nlen p, d_type p] @ d_body p @ enc_dents (e # ys))"
    by (rule put_at [where old = "enc16 (word_of_nat (d_len p))"]) (simp_all add: a enc_dent_def)
  moreover have "word_of_nat (d_len (p\<lparr>d_body := d_body p @ enc_dent e\<rparr>)) = ?r" by (simp add: d_len_def)
  ultimately show ?thesis
    using fields_dent(3) [OF a assms(2)] fields_dent(3) [OF b assms(2)]
    by (simp add: de_remove_def enc_dent_def [of "p\<lparr>d_body := d_body p @ enc_dent e\<rparr>"])
qed

subsection \<open>The directory block as a map\<close>

definition dir_map :: "dent list \<Rightarrow> path \<rightharpoonup> u32" where "dir_map es = map_of (dents es)"

lemma dir_repD:
  assumes "dir_rep blk es"
  shows "blk = enc_dents es" "length blk = 1024" "\<forall>e \<in> set es. dent_ok e" "distinct (map fst (dents es))"
  using assms unfolding dir_rep_def by blast+

lemma dir_find_map:
  assumes "dir_rep blk es"
  shows "case dir_map es name of
      None \<Rightarrow> de_find blk name 0 None = Some None
    | Some i \<Rightarrow> \<exists>k p. de_find blk name 0 None = Some (Some (k, p)) \<and> le32 blk k = i"
proof -
  have blk: "blk = enc_dents es" "length blk = 1024" "\<forall>e \<in> set es. dent_ok e" using dir_repD [OF assms] by blast+
  have f: "de_find blk name 0 None = Some (find_dent name 0 None es)"
    using de_find_exact [of blk "[]" es name None] blk by simp
  show ?thesis
  proof (cases "find_dent name 0 None es")
    case None
    then show ?thesis using f by (simp add: dir_map_def find_dent_None)
  next
    case (Some r)
    obtain k p where kp: "r = (k, p)" by force
    from Some have "find_dent name 0 None es = Some (k, p)" by (simp add: kp)
    from find_dent_Some [OF this] obtain xs e ys where r: "es = xs @ e # ys" "d_inode e \<noteq> 0" "d_name e = name"
      "name \<notin> fst ` set (dents xs)" "k = length (enc_dents xs)" by auto
    have "blk = enc_dents xs @ enc_dent e @ enc_dents ys" using blk(1) r(1) by simp
    then have "le32 blk k = d_inode e" using fields_dent(2) blk(2) r(5) by blast
    then show ?thesis using f Some kp map_of_dents [OF r(1,2,4,3)] by (simp add: dir_map_def)
  qed
qed

lemma dir_insert_map:
  assumes rep: "dir_rep blk es" and n: "length name < 256" "dir_map es name = None" "child \<noteq> 0"
    and slot: "de_slot blk (de_real_len (length name)) 0 = Some (Some (k, u))"
  shows "\<exists>blk' es'. de_insert blk k u child name ft = Some blk' \<and> dir_rep blk' es' \<and> dir_map es' = (dir_map es)(name \<mapsto> child)"
proof -
  have blk: "blk = enc_dents es" "length blk = 1024" "\<forall>e \<in> set es. dent_ok e" "distinct (map fst (dents es))"
    using dir_repD [OF rep] .
  have "de_real_len (length name) \<le> 1024" using n(1) unfolding de_real_len_def by linarith
  then have "find_slot (de_real_len (length name)) 0 es = Some (k, u)"
    using de_slot_exact [of blk "[]" es] blk slot by simp
  from find_slot_Some [OF this] obtain xs e ys where e: "es = xs @ e # ys" "k = length (enc_dents xs)" "u = d_used e"
    "d_used e + de_real_len (length name) \<le> d_len e" by auto
  let ?es = "xs @ insert_dent e child name ft @ ys"
  have ins: "de_insert blk k u child name ft = Some (enc_dents ?es)"
    using de_insert_exact [OF blk(1)[unfolded e(1)] blk(2) e(4)] e(2,3) by simp
  have ok: "dent_ok e" using blk(3) e(1) by simp
  note io = insert_dent_ok [OF ok e(4) n(1), of child ft]
  have d: "dents ?es = dents xs @ dents [e] @ (name, child) # dents ys" using io(3) n(3) by simp
  have fresh: "name \<notin> fst ` set (dents es)" using n(2) by (simp add: dir_map_def map_of_eq_None_iff)
  have dis: "distinct (map fst (dents ?es))" using blk(4) fresh unfolding d e(1) by (auto split: if_splits)
  have "length (enc_dents ?es) = 1024" using blk(1,2) io(2) unfolding e(1) by simp
  then have "dir_rep (enc_dents ?es) ?es" using io(1) blk(3) dis e(1) by (auto simp: dir_rep_def)
  moreover have "dir_map ?es = (dir_map es)(name \<mapsto> child)"
  proof -
    have "mset (dents ?es) = mset ((name, child) # dents es)" unfolding d e(1) by simp
    then have "set (dents ?es) = set ((name, child) # dents es)" by (rule mset_eq_setD)
    moreover have "distinct (map fst ((name, child) # dents es))" using blk(4) fresh by simp
    ultimately have "map_of (dents ?es) = map_of ((name, child) # dents es)" using dis by (simp only: map_of_inject_set)
    then show ?thesis by (simp add: dir_map_def)
  qed
  ultimately show ?thesis using ins by blast
qed

lemma dir_remove_map:
  assumes rep: "dir_rep blk es" and f: "de_find blk name 0 None = Some (Some (k, p))"
  shows "\<exists>blk' es'. de_remove blk k p = Some blk' \<and> dir_rep blk' es' \<and> dir_map es' = (dir_map es)(name := None)"
proof -
  have blk: "blk = enc_dents es" "length blk = 1024" "\<forall>e \<in> set es. dent_ok e" "distinct (map fst (dents es))"
    using dir_repD [OF rep] .
  have "find_dent name 0 None es = Some (k, p)" using de_find_exact [of blk "[]" es name None] blk f by simp
  from find_dent_Some [OF this] obtain xs e ys where e: "es = xs @ e # ys" "d_inode e \<noteq> 0" "d_name e = name"
     "name \<notin> fst ` set (dents xs)" "k = length (enc_dents xs)" "p = (if xs = [] then None else Some (length (enc_dents (butlast xs))))"
    by auto
  have ys: "name \<notin> fst ` set (dents ys)" using blk(4) e(2,3) unfolding e(1) by auto
  have map: "dir_map es' = (dir_map es)(name := None)" if "dents es' = dents xs @ dents ys" for es'
  proof
    fix x show "dir_map es' x = ((dir_map es)(name := None)) x"
      using that e(2-4) ys unfolding dir_map_def e(1)
      by (cases "x = name") (auto simp: map_add_def map_of_eq_None_iff [THEN iffD2] split: option.split)
  qed
  have dis: "distinct (map fst (dents xs @ dents ys))" using blk(4) e(2) unfolding e(1) by auto
  show ?thesis
  proof (cases xs rule: rev_cases)
    case Nil
    let ?es = "e\<lparr>d_inode := 0\<rparr> # ys"
    have "de_remove blk k p = Some (enc_dents ?es)"
      using de_remove_first [of blk e ys] blk(1) e(1,5,6) Nil by simp
    moreover have "dir_rep (enc_dents ?es) ?es"
      using blk dis Nil e(1) by (auto simp: dir_rep_def dent_ok_def d_len_def)
    ultimately show ?thesis using map [of ?es] Nil by auto
  next
    case (snoc zs q)
    let ?q = "q\<lparr>d_body := d_body q @ enc_dent e\<rparr>" and ?es = "zs @ q\<lparr>d_body := d_body q @ enc_dent e\<rparr> # ys"
    have q: "dent_ok q" "dent_ok e" using blk(3) e(1) snoc by simp_all
    have "de_remove blk k p = Some (enc_dents ?es)"
      using de_remove_next [of blk zs q e ys] blk(1,2) e(1,5,6) snoc by simp
    moreover have d: "dents ?es = dents xs @ dents ys" using q(1) snoc by (auto simp: d_name_def dent_ok_def)
    moreover have "dir_rep (enc_dents ?es) ?es"
    proof -
      have "d_len ?q = d_len q + d_len e" by (simp add: d_len_def)
      moreover have "dent_ok ?q" using q by (auto simp: dent_ok_def d_len_def mod_add_eq [symmetric])
      ultimately show ?thesis using blk dis d e(1) snoc by (auto simp: dir_rep_def)
    qed
    ultimately show ?thesis using map [OF d] by auto
  qed
qed

text \<open>The block that a new directory starts with.\<close>

definition dot_dents :: "u32 \<Rightarrow> u32 \<Rightarrow> dent list" where
  "dot_dents inum dinum =
     [\<lparr>d_inode = inum, d_nlen = 1, d_type = 2, d_body = [46, 0, 0, 0]\<rparr>,
      \<lparr>d_inode = dinum, d_nlen = 2, d_type = 2, d_body = [46, 46] @ replicate 1002 0\<rparr>]"

lemma dot_block_rep:
  assumes "inum \<noteq> 0" "dinum \<noteq> 0"
  shows "dir_rep (dot_block inum dinum) (dot_dents inum dinum)" "dir_map (dot_dents inum dinum) = [[46] \<mapsto> inum, dotdot \<mapsto> dinum]"
proof -
  have "dents (dot_dents inum dinum) = [([46], inum), (dotdot, dinum)]"
    using assms by (simp add: dot_dents_def d_name_def)
  moreover have "dot_block inum dinum = enc_dents (dot_dents inum dinum)"
    by (simp add: dot_block_def dot_dents_def enc_dent_def d_len_def numeral_eq_Suc)
  moreover have "\<forall>e \<in> set (dot_dents inum dinum). dent_ok e" by (simp add: dot_dents_def dent_ok_def)
  moreover have "length (dot_block inum dinum) = 1024" by (simp add: dot_block_def)
  ultimately show "dir_rep (dot_block inum dinum) (dot_dents inum dinum)"
    "dir_map (dot_dents inum dinum) = [[46] \<mapsto> inum, dotdot \<mapsto> dinum]" by (auto simp: dir_rep_def dir_map_def)
qed

end
