(* ===== verification/Ext2_Props.thy ===== *)
theory Ext2_Props
  imports Ext2_Blocks Ext2_Entries
begin

text \<open>
  Directories as maps. A directory whose blocks are direct is a map from names to inode numbers; adding
  an entry, with a new block where no record has room, finding one and removing one are the operations
  of that map, and they leave all other blocks of the file system as they were.
\<close>

subsection \<open>The blocks of a directory together\<close>

primrec dmap :: "dent list list \<Rightarrow> path \<rightharpoonup> u32" where
  "dmap [] = Map.empty"
| "dmap (es # ess) = dmap ess ++ dir_map es"

definition apart :: "dent list list \<Rightarrow> bool" where
  "apart ess \<longleftrightarrow> (\<forall>a < length ess. \<forall>b < length ess. a \<noteq> b \<longrightarrow> dom (dir_map (ess ! a)) \<inter> dom (dir_map (ess ! b)) = {})"

lemma apartD: "apart ess \<Longrightarrow> a < length ess \<Longrightarrow> b < length ess \<Longrightarrow> dir_map (ess ! a) k = Some v \<Longrightarrow>
   dir_map (ess ! b) k = Some w \<Longrightarrow> a = b"
  unfolding apart_def by blast

lemma apartI: "(\<And>a b k v w. a < length ess \<Longrightarrow> b < length ess \<Longrightarrow> dir_map (ess ! a) k = Some v \<Longrightarrow>
   dir_map (ess ! b) k = Some w \<Longrightarrow> a = b) \<Longrightarrow> apart ess"
  unfolding apart_def by blast

lemma dmap_None: "dmap ess k = None \<longleftrightarrow> (\<forall>b < length ess. dir_map (ess ! b) k = None)"
  by (induction ess) (auto simp: less_Suc_eq_0_disj)

lemma dmap_SomeD: "dmap ess k = Some v \<Longrightarrow> \<exists>b < length ess. dir_map (ess ! b) k = Some v"
proof (induction ess)
  case (Cons es ess)
  show ?case
  proof (cases "dir_map es k")
    case None
    with Cons obtain b where "b < length ess" "dir_map (ess ! b) k = Some v" by (auto simp: map_add_def)
    then have "Suc b < length (es # ess) \<and> dir_map ((es # ess) ! Suc b) k = Some v" by simp
    then show ?thesis by blast
  next
    case (Some w)
    with Cons.prems show ?thesis by (intro exI [of _ 0]) (simp add: map_add_def)
  qed
qed simp

lemma dmap_Some:
  assumes "apart ess"
  shows "dmap ess k = Some v \<longleftrightarrow> (\<exists>b < length ess. dir_map (ess ! b) k = Some v)"
proof
  assume "\<exists>b < length ess. dir_map (ess ! b) k = Some v"
  then obtain b where b: "b < length ess" "dir_map (ess ! b) k = Some v" by blast
  then obtain w where w: "dmap ess k = Some w" using dmap_None [of ess k] by (cases "dmap ess k") auto
  from dmap_SomeD [OF w] obtain a where a: "a < length ess" "dir_map (ess ! a) k = Some w" by blast
  then have "a = b" using apartD [OF assms] b by blast
  then show "dmap ess k = Some v" using a b w by simp
qed (rule dmap_SomeD)

lemma dmap_cong:
  "length xs = length ys \<Longrightarrow> (\<And>b. b < length ys \<Longrightarrow> dir_map (xs ! b) k = dir_map (ys ! b) k) \<Longrightarrow> dmap xs k = dmap ys k"
proof (induction xs ys rule: list_induct2)
  case (Cons x xs y ys)
  have "dir_map x k = dir_map y k" using Cons.prems [of 0] by simp
  moreover have "dmap xs k = dmap ys k" using Cons.prems [of "Suc b" for b] by (intro Cons.IH) fastforce
  ultimately show ?case by (simp add: map_add_def split: option.split)
qed simp

lemma dmap_snoc: "dmap (ess @ [es]) k = (case dmap ess k of None \<Rightarrow> dir_map es k | Some v \<Rightarrow> Some v)"
  by (induction ess) (auto simp: map_add_def split: option.split)

text \<open>One block changes in one name.\<close>

lemma dmap_add:
  assumes ap: "apart ess" and b: "b < length ess" and n: "dmap ess name = None"
    and es: "dir_map es = (dir_map (ess ! b))(name \<mapsto> child)"
  shows "apart (ess[b := es])" "dmap (ess[b := es]) = (dmap ess)(name \<mapsto> child)"
proof -
  have at: "dir_map (ess[b := es] ! a) k = (if a = b \<and> k = name then Some child else dir_map (ess ! a) k)"
    if "a < length ess" for a k using that b es by (auto simp: nth_list_update)
  have no: "dir_map (ess ! a) name = None" if "a < length ess" for a using n dmap_None that by blast
  show ap': "apart (ess[b := es])"
  proof (rule apartI)
    fix a c k v w assume "a < length (ess[b := es])" "c < length (ess[b := es])"
      "dir_map (ess[b := es] ! a) k = Some v" "dir_map (ess[b := es] ! c) k = Some w"
    then show "a = c" using at [of a k] at [of c k] no [of a] no [of c] apartD [OF ap, of a c k v w]
      by (cases "k = name") (auto split: if_splits)
  qed
  show "dmap (ess[b := es]) = (dmap ess)(name \<mapsto> child)"
  proof
    fix k show "dmap (ess[b := es]) k = ((dmap ess)(name \<mapsto> child)) k"
    proof (cases "k = name")
      case True
      have "dir_map (ess[b := es] ! b) name = Some child" using at [OF b] by simp
      then have "dmap (ess[b := es]) name = Some child" using b by (subst dmap_Some [OF ap']) auto
      then show ?thesis using True by simp
    next
      case False
      then have "dmap (ess[b := es]) k = dmap ess k" using at by (intro dmap_cong) simp_all
      then show ?thesis using False by simp
    qed
  qed
qed

lemma dmap_remove:
  assumes ap: "apart ess" and b: "b < length ess" and n: "dir_map (ess ! b) name = Some v"
    and es: "dir_map es = (dir_map (ess ! b))(name := None)"
  shows "apart (ess[b := es])" "dmap (ess[b := es]) = (dmap ess)(name := None)"
proof -
  have at: "dir_map (ess[b := es] ! a) k = (if a = b \<and> k = name then None else dir_map (ess ! a) k)"
    if "a < length ess" for a k using that b es by (auto simp: nth_list_update)
  have no: "dir_map (ess ! a) name = None" if "a < length ess" "a \<noteq> b" for a
    using apartD [OF ap that(1) b _ n] that(2) by (cases "dir_map (ess ! a) name") auto
  show "apart (ess[b := es])"
  proof (rule apartI)
    fix a c k v w assume "a < length (ess[b := es])" "c < length (ess[b := es])"
      "dir_map (ess[b := es] ! a) k = Some v" "dir_map (ess[b := es] ! c) k = Some w"
    then show "a = c" using at [of a k] at [of c k] apartD [OF ap, of a c k v w] by (auto split: if_splits)
  qed
  show "dmap (ess[b := es]) = (dmap ess)(name := None)"
  proof
    fix k show "dmap (ess[b := es]) k = ((dmap ess)(name := None)) k"
    proof (cases "k = name")
      case True
      have "dmap (ess[b := es]) name = None" using at no by (subst dmap_None) auto
      then show ?thesis using True by simp
    next
      case False
      then have "dmap (ess[b := es]) k = dmap ess k" using at by (intro dmap_cong) simp_all
      then show ?thesis using False by simp
    qed
  qed
qed

lemma dmap_append:
  assumes ap: "apart ess" and n: "dmap ess name = None" and es: "dir_map es = [name \<mapsto> child]"
  shows "apart (ess @ [es])" "dmap (ess @ [es]) = (dmap ess)(name \<mapsto> child)"
proof -
  have no: "dir_map (ess ! a) name = None" if "a < length ess" for a using n dmap_None that by blast
  show "apart (ess @ [es])"
  proof (rule apartI)
    fix a c k v w assume "a < length (ess @ [es])" "c < length (ess @ [es])"
      "dir_map ((ess @ [es]) ! a) k = Some v" "dir_map ((ess @ [es]) ! c) k = Some w"
    then show "a = c" using es no [of a] no [of c] apartD [OF ap, of a c k v w]
      by (auto simp: nth_append less_Suc_eq split: if_splits)
  qed
  show "dmap (ess @ [es]) = (dmap ess)(name \<mapsto> child)"
    using n es by (auto simp: dmap_snoc split: option.split)
qed

subsection \<open>Writing a block of data\<close>

lemma put_data_block:
  assumes "alloc_ok s" "b \<notin> meta_blocks s" "length buf = 1024"
  shows "alloc_ok (put_block b buf s)" "used_blocks (put_block b buf s) = used_blocks s"
    "meta_blocks (put_block b buf s) = meta_blocks s" "all_blocks (put_block b buf s) = all_blocks s"
proof -
  let ?t = "put_block b buf s"
  have lay: "layout_ok s" and io: "io_ok s" and cnt: "counts_ok s" using assms(1) by (simp_all add: alloc_ok_def)
  have geo: "n_groups ?t = n_groups s" "group_blocks ?t = group_blocks s" "first_block ?t = first_block s"
    "gdt_blk ?t h = gdt_blk s h" for h
    by (simp_all add: n_groups_def group_blocks_def first_block_def gdt_blk_def)
  show m: "meta_blocks ?t = meta_blocks s" by (simp add: meta_blocks_def geo cong: image_cong_simp)
  have bits: "bit_used ?t g i = bit_used s g i" if "g < n_groups s" for g i
  proof -
    have "x_gdt s ! g \<in> set (x_gdt s)" using that layout_okD(3) [OF lay] by simp
    then have "bg_block_bitmap (x_gdt s ! g) \<in> meta_blocks s" by (simp add: meta_blocks_def)
    then show ?thesis using assms(2) by (auto simp: bit_used_def)
  qed
  show "used_blocks ?t = used_blocks s" unfolding used_blocks_def geo using bits by blast
  show "all_blocks ?t = all_blocks s" by (simp add: all_blocks_def geo)
  have "free_bits ?t g = free_bits s g" if "g < n_groups s" for g
    by (simp add: free_bits_def geo bits [OF that])
  then have "counts_ok ?t" using cnt by (simp add: counts_ok_def geo)
  moreover have "layout_ok ?t" using lay by (simp add: layout_ok_def geo)
  ultimately show "alloc_ok ?t" using io assms(3) by (simp add: alloc_ok_def)
qed

subsection \<open>A directory on disk\<close>

text \<open>
  The first blocks of \<open>i_block\<close> hold the records \<open>ess\<close>; they are different blocks in use, and no
  metadata. The metadata themselves are marked as in use, as \<open>mke2fs\<close> does.
\<close>

definition meta_used :: "ext2 \<Rightarrow> bool" where "meta_used s \<longleftrightarrow> unat ` meta_blocks s \<subseteq> used_blocks s"

definition dir_ok :: "ext2 \<Rightarrow> ext2_inode \<Rightarrow> dent list list \<Rightarrow> bool" where
  "dir_ok s dino ess \<longleftrightarrow> alloc_ok s \<and> meta_used s \<and> length (i_block dino) = 15 \<and> length ess \<le> 12 \<and>
     i_size dino = word_of_nat (1024 * length ess) \<and> apart ess \<and>
     distinct (take (length ess) (i_block dino)) \<and>
     (\<forall>a < length ess. i_block dino ! a \<noteq> 0 \<and> unat (i_block dino ! a) \<in> used_blocks s \<and>
        i_block dino ! a \<notin> meta_blocks s \<and> dir_rep (eblock s (i_block dino ! a)) (ess ! a)) \<and>
     (\<forall>a < 12. length ess \<le> a \<longrightarrow> i_block dino ! a = 0)"

lemma dir_okD:
  assumes "dir_ok s dino ess"
  shows "alloc_ok s" "io_ok s" "meta_used s" "length (i_block dino) = 15" "length ess \<le> 12"
    "i_size dino = word_of_nat (1024 * length ess)" "apart ess" "distinct (take (length ess) (i_block dino))"
    "a < length ess \<Longrightarrow> i_block dino ! a \<noteq> 0" "a < length ess \<Longrightarrow> unat (i_block dino ! a) \<in> used_blocks s"
    "a < length ess \<Longrightarrow> i_block dino ! a \<notin> meta_blocks s"
    "a < length ess \<Longrightarrow> dir_rep (eblock s (i_block dino ! a)) (ess ! a)"
    "a < 12 \<Longrightarrow> length ess \<le> a \<Longrightarrow> i_block dino ! a = 0"
    "a < length ess \<Longrightarrow> c < length ess \<Longrightarrow> (i_block dino ! a = i_block dino ! c) = (a = c)"
proof -
  have d: "distinct (take (length ess) (i_block dino))" "length (i_block dino) = 15" "length ess \<le> 12"
    using assms unfolding dir_ok_def by blast+
  show "a < length ess \<Longrightarrow> c < length ess \<Longrightarrow> (i_block dino ! a = i_block dino ! c) = (a = c)"
    using nth_eq_iff_index_eq [OF d(1), of a c] d(2,3) by simp
qed (use assms in \<open>unfold dir_ok_def alloc_ok_def, blast+\<close>)

lemma dir_nblocks_ok: "dir_ok s dino ess \<Longrightarrow> dir_nblocks dino = length ess"
proof -
  assume d: "dir_ok s dino ess"
  let ?n = "length ess"
  have "?n \<le> 12" "i_size dino = word_of_nat (1024 * ?n)" using dir_okD(5,6) [OF d] .
  then have "unat (i_size dino + 1024 - 1) = 1024 * ?n + 1023"
    by (simp add: unat_word_ariths unat_of_nat)
  then show ?thesis by (simp add: dir_nblocks_def unat_div)
qed

lemma bmap_direct: "a < 12 \<Longrightarrow> bmap s dino (word_of_nat a) = Some (i_block dino ! a)"
  by (simp add: bmap_def word_less_nat_alt unat_of_nat)

text \<open>Searching the blocks one after the other.\<close>

lemma dir_find_in_ok:
  assumes d: "dir_ok s dino ess" and "set as \<subseteq> {..<length ess}"
  shows "\<exists>r. dir_find_in s dino name as = Some r \<and> (case r of None \<Rightarrow> \<forall>a \<in> set as. dir_map (ess ! a) name = None
     | Some (phys, blk, k, p) \<Rightarrow> \<exists>a < length ess. phys = i_block dino ! a \<and> blk = eblock s phys \<and>
         de_find blk name 0 None = Some (Some (k, p)) \<and> dir_map (ess ! a) name = Some (le32 blk k))"
  using assms(2)
proof (induction as)
  case (Cons a as)
  then have a: "a < length ess" by simp
  have bm: "bmap s dino (word_of_nat a) = Some (i_block dino ! a)" using a dir_okD(5) [OF d] by (intro bmap_direct) simp
  let ?blk = "eblock s (i_block dino ! a)"
  obtain r where IH: "dir_find_in s dino name as = Some r" "case r of None \<Rightarrow> \<forall>a \<in> set as. dir_map (ess ! a) name = None
     | Some (phys, blk, k, p) \<Rightarrow> \<exists>a < length ess. phys = i_block dino ! a \<and> blk = eblock s phys \<and>
         de_find blk name 0 None = Some (Some (k, p)) \<and> dir_map (ess ! a) name = Some (le32 blk k)"
    using Cons by auto
  note run = bm dir_okD(2) [OF d] dir_okD(9) [OF d a]
  show ?case
  proof (cases "dir_map (ess ! a) name")
    case None
    then have "de_find ?blk name 0 None = Some None"
      using dir_find_map [OF dir_okD(12) [OF d a], of name] by simp
    then have "dir_find_in s dino name (a # as) = Some r" using run IH(1) by simp
    then show ?thesis using IH(2) None by (cases r) auto
  next
    case (Some i)
    then obtain k p where f: "de_find ?blk name 0 None = Some (Some (k, p))" "le32 ?blk k = i"
      using dir_find_map [OF dir_okD(12) [OF d a], of name] by auto
    then have "dir_find_in s dino name (a # as) = Some (Some (i_block dino ! a, ?blk, k, p))" using run by simp
    then show ?thesis using f Some a by (intro exI [of _ "Some (i_block dino ! a, ?blk, k, p)"]) auto
  qed
qed simp

lemma dir_find_ok:
  assumes d: "dir_ok s dino ess"
  shows "case dmap ess name of None \<Rightarrow> dir_find s dino name = Some None
     | Some i \<Rightarrow> \<exists>a k p. a < length ess \<and> dir_map (ess ! a) name = Some i \<and> le32 (eblock s (i_block dino ! a)) k = i \<and>
         de_find (eblock s (i_block dino ! a)) name 0 None = Some (Some (k, p)) \<and>
         dir_find s dino name = Some (Some (i_block dino ! a, eblock s (i_block dino ! a), k, p))"
proof -
  have "set [0..<dir_nblocks dino] \<subseteq> {..<length ess}" using dir_nblocks_ok [OF d] by auto
  from dir_find_in_ok [OF d this, of name] obtain r where r: "dir_find s dino name = Some r"
    "case r of None \<Rightarrow> \<forall>a \<in> set [0..<dir_nblocks dino]. dir_map (ess ! a) name = None
     | Some (phys, blk, k, p) \<Rightarrow> \<exists>a < length ess. phys = i_block dino ! a \<and> blk = eblock s phys \<and>
         de_find blk name 0 None = Some (Some (k, p)) \<and> dir_map (ess ! a) name = Some (le32 blk k)"
    unfolding dir_find_def by blast
  show ?thesis
  proof (cases r)
    case None
    then have "dmap ess name = None" using r(2) dir_nblocks_ok [OF d] by (simp add: dmap_None)
    then show ?thesis using r(1) None by simp
  next
    case (Some x)
    obtain phys blk k p where x: "x = (phys, blk, k, p)" by (cases x) auto
    then obtain a where a: "a < length ess" "phys = i_block dino ! a" "blk = eblock s phys"
       "de_find blk name 0 None = Some (Some (k, p))" "dir_map (ess ! a) name = Some (le32 blk k)"
      using r(2) Some by auto
    have "dmap ess name = Some (le32 blk k)" using a dmap_Some [OF dir_okD(7) [OF d]] by blast
    then show ?thesis using r(1) Some x a by auto
  qed
qed

subsection \<open>Changing a directory\<close>

lemma dir_ok_update:
  assumes d: "dir_ok s dino ess" and a: "a < length ess" and rep: "dir_rep buf es" and ap: "apart (ess[a := es])"
  shows "dir_ok (put_block (i_block dino ! a) buf s) dino (ess[a := es])"
proof -
  let ?b = "i_block dino ! a"
  have l: "length buf = 1024" using dir_repD(2) [OF rep] .
  note p = put_data_block [OF dir_okD(1) [OF d] dir_okD(11) [OF d a] l]
  have "dir_rep (eblock (put_block ?b buf s) (i_block dino ! c)) (ess[a := es] ! c)" if "c < length ess" for c
    using dir_okD(12) [OF d that] dir_okD(14) [OF d that a] rep that a by simp
  then show ?thesis
    using d ap p unfolding dir_ok_def meta_used_def by simp
qed

lemma dir_unlink_ok:
  assumes d: "dir_ok s dino ess"
  shows "case dmap ess name of None \<Rightarrow> dir_unlink_entry dino name s = Some (0, s)
     | Some i \<Rightarrow> \<exists>s' ess'. dir_unlink_entry dino name s = Some (i, s') \<and> dir_ok s' dino ess' \<and>
         dmap ess' = (dmap ess)(name := None) \<and> used_blocks s' = used_blocks s \<and>
         (\<forall>c. c \<notin> set (take (length ess) (i_block dino)) \<longrightarrow> eblock s' c = eblock s c)"
proof (cases "dmap ess name")
  case None
  then have "dir_find s dino name = Some None" using dir_find_ok [OF d, of name] by simp
  then show ?thesis using None by (simp add: dir_unlink_entry_def)
next
  case (Some i)
  from dir_find_ok [OF d, of name] Some obtain a k p where a: "a < length ess" "dir_map (ess ! a) name = Some i"
    "le32 (eblock s (i_block dino ! a)) k = i" "de_find (eblock s (i_block dino ! a)) name 0 None = Some (Some (k, p))"
    "dir_find s dino name = Some (Some (i_block dino ! a, eblock s (i_block dino ! a), k, p))" by auto
  obtain buf es where r: "de_remove (eblock s (i_block dino ! a)) k p = Some buf" "dir_rep buf es"
    "dir_map es = (dir_map (ess ! a))(name := None)"
    using dir_remove_map [OF dir_okD(12) [OF d a(1)] a(4)] by blast
  note m = dmap_remove [OF dir_okD(7) [OF d] a(1,2) r(3)]
  let ?s = "put_block (i_block dino ! a) buf s"
  have "dir_unlink_entry dino name s = Some (i, ?s)"
    using a(3,5) r(1) dir_okD(2) [OF d] by (simp add: dir_unlink_entry_def)
  moreover have "used_blocks ?s = used_blocks s"
    using put_data_block(2) [OF dir_okD(1) [OF d] dir_okD(11) [OF d a(1)] dir_repD(2) [OF r(2)]] .
  moreover have "i_block dino ! a \<in> set (take (length ess) (i_block dino))"
    using a(1) dir_okD(4,5) [OF d] by (auto simp: in_set_conv_nth intro!: exI [of _ a])
  ultimately show ?thesis using Some dir_ok_update [OF d a(1) r(2) m(1)] m(2) by auto
qed

lemma dir_slot_in_ok:
  assumes d: "dir_ok s dino ess" and need: "need \<le> 1024" and "set as \<subseteq> {..<length ess}"
  shows "\<exists>r. dir_slot_in s dino need as = Some r \<and> (case r of None \<Rightarrow> True
     | Some (phys, blk, k, u) \<Rightarrow> \<exists>a < length ess. phys = i_block dino ! a \<and> blk = eblock s phys \<and>
         de_slot blk need 0 = Some (Some (k, u)))"
  using assms(3)
proof (induction as)
  case (Cons a as)
  then have a: "a < length ess" by simp
  have bm: "bmap s dino (word_of_nat a) = Some (i_block dino ! a)" using a dir_okD(5) [OF d] by (intro bmap_direct) simp
  let ?blk = "eblock s (i_block dino ! a)"
  obtain r where IH: "dir_slot_in s dino need as = Some r" "case r of None \<Rightarrow> True
     | Some (phys, blk, k, u) \<Rightarrow> \<exists>a < length ess. phys = i_block dino ! a \<and> blk = eblock s phys \<and>
         de_slot blk need 0 = Some (Some (k, u))"
    using Cons by auto
  note run = bm dir_okD(2) [OF d] dir_okD(9) [OF d a]
  have "de_slot ?blk need 0 = Some (find_slot need 0 (ess ! a))"
    using de_slot_exact [of ?blk "[]" "ess ! a" need] dir_repD [OF dir_okD(12) [OF d a]] need by simp
  then show ?case
  proof (cases "find_slot need 0 (ess ! a)")
    case None
    then have "dir_slot_in s dino need (a # as) = Some r" using run IH(1) \<open>de_slot _ _ _ = _\<close> by simp
    then show ?thesis using IH(2) by blast
  next
    case (Some x)
    obtain k u where x: "x = (k, u)" by force
    then have "dir_slot_in s dino need (a # as) = Some (Some (i_block dino ! a, ?blk, k, u))"
      using run Some \<open>de_slot _ _ _ = _\<close> by simp
    then show ?thesis using Some x a \<open>de_slot _ _ _ = _\<close>
      by (intro exI [of _ "Some (i_block dino ! a, ?blk, k, u)"]) auto
  qed
qed simp

text \<open>The block of a directory that grows.\<close>

definition new_dents :: "u32 \<Rightarrow> path \<Rightarrow> u8 \<Rightarrow> dent list" where
  "new_dents child name ft = [\<lparr>d_inode = child, d_nlen = word_of_nat (length name), d_type = ft,
     d_body = name @ replicate (1016 - length name) 0\<rparr>]"

lemma new_block_rep:
  assumes n: "length name < 256" and c: "child \<noteq> 0"
  shows "\<exists>buf. (do { blk \<leftarrow> put_buf (replicate 1024 0) 4 (enc16 1024); de_put blk 0 child name ft }) = Some buf \<and>
     dir_rep buf (new_dents child name ft)" "dir_map (new_dents child name ft) = [name \<mapsto> child]"
proof -
  let ?z = "\<lambda>n. replicate n (0 :: u8)"
  have "put_buf (replicate 1024 0) 4 (enc16 1024) = Some (?z 4 @ enc16 1024 @ ?z 1018)"
    by (rule put_at [where old = "?z 2"]) (simp_all add: replicate_add [symmetric])
  moreover have "de_put (?z 4 @ enc16 1024 @ ?z 1018) (length ([] :: u8 list)) child name ft =
      Some ([] @ enc32 child @ enc16 1024 @ [word_of_nat (length name), ft] @ name @ ?z (1016 - length name))"
    by (rule de_put_at [where a = "?z 4" and c = "?z 2" and d = "?z (length name)"])
      (use n in \<open>simp_all add: replicate_add [symmetric]\<close>)
  moreover have un: "unat (word_of_nat (length name) :: u8) = length name" using n by (simp add: unat_of_nat)
  have "enc_dents (new_dents child name ft) =
      enc32 child @ enc16 1024 @ [word_of_nat (length name), ft] @ name @ ?z (1016 - length name)"
    using n by (simp add: new_dents_def enc_dent_def d_len_def)
  moreover have "dir_rep (enc_dents (new_dents child name ft)) (new_dents child name ft)"
    using n un by (simp add: dir_rep_def new_dents_def dent_ok_def d_len_def)
  ultimately show "\<exists>buf. (do { blk \<leftarrow> put_buf (replicate 1024 0) 4 (enc16 1024); de_put blk 0 child name ft }) = Some buf \<and>
     dir_rep buf (new_dents child name ft)" by simp
  show "dir_map (new_dents child name ft) = [name \<mapsto> child]"
    using c un by (simp add: dir_map_def new_dents_def d_name_def)
qed

text \<open>A fresh block for the next slot of the inode.\<close>

lemma grow_dir:
  assumes d: "dir_ok s dino ess" and n: "length ess < 12"
  shows "\<exists>b dino' s'. bmap_alloc dino (word_of_nat (length ess)) s = Some (b, dino', s') \<and>
     (if b = 0 then s' = s \<and> dino' = dino \<and> used_blocks s = all_blocks s
      else unat b \<notin> used_blocks s \<and> b \<notin> meta_blocks s \<and> alloc_ok s' \<and> meta_blocks s' = meta_blocks s \<and>
        used_blocks s' = insert (unat b) (used_blocks s) \<and>
        i_block dino' = (i_block dino)[length ess := b] \<and> i_size dino' = i_size dino \<and>
        (\<forall>c. c \<noteq> b \<longrightarrow> c \<notin> meta_blocks s \<longrightarrow> eblock s' c = eblock s c))"
proof -
  let ?n = "length ess"
  have slot: "i_block dino ! ?n = 0" using dir_okD(13) [OF d n] by simp
  have bm: "bmap_alloc dino (word_of_nat ?n) s = ensure_root ?n dino s"
    using n by (simp add: bmap_alloc_def word_less_nat_alt unat_of_nat)
  obtain b s1 where al: "alloc_block s = Some (b, s1)" "alloc_ok s1" "meta_blocks s1 = meta_blocks s"
     "if b = 0 then s1 = s \<and> used_blocks s = all_blocks s
        else unat b \<in> all_blocks s - used_blocks s \<and> used_blocks s1 = insert (unat b) (used_blocks s)"
     "\<forall>c. c \<notin> meta_blocks s \<longrightarrow> eblock s1 c = eblock s c"
    using alloc_block_ok [OF dir_okD(1) [OF d]] by blast
  have io: "io_ok s1" using al(2) by (simp add: alloc_ok_def)
  show ?thesis
  proof (cases "b = 0")
    case True
    then have "bmap_alloc dino (word_of_nat ?n) s = Some (0, dino, s)"
      using bm slot al(1,4) by (simp add: ensure_root_def alloc_zeroed_block_def)
    then show ?thesis using al(4) True by auto
  next
    case False
    let ?s = "put_block b (replicate 1024 0) s1" and ?d = "count_block (dino\<lparr>i_block := (i_block dino)[?n := b]\<rparr>)"
    have fresh: "unat b \<notin> used_blocks s" "used_blocks s1 = insert (unat b) (used_blocks s)" using al(4) False by simp_all
    then have nm: "b \<notin> meta_blocks s" using dir_okD(3) [OF d] by (auto simp: meta_used_def)
    have "bmap_alloc dino (word_of_nat ?n) s = Some (b, ?d, ?s)"
      using bm slot al(1) False io by (simp add: ensure_root_def alloc_zeroed_block_def)
    moreover note put_data_block [OF al(2), of b "replicate 1024 0"]
    ultimately show ?thesis using False fresh nm al(3,5) by (auto simp: count_block_def)
  qed
qed

text \<open>What adding a name does, whether a record has room or the directory grows.\<close>

definition added :: "ext2 \<Rightarrow> ext2_inode \<Rightarrow> dent list list \<Rightarrow> path \<Rightarrow> u32 \<Rightarrow> ext2_inode \<Rightarrow> ext2 \<Rightarrow> bool" where
  "added s dino ess name child dino' s' \<longleftrightarrow> (\<exists>ess'. dir_ok s' dino' ess' \<and> dmap ess' = (dmap ess)(name \<mapsto> child)) \<and>
     used_blocks s \<subseteq> used_blocks s' \<and>
     (\<forall>c. unat c \<in> used_blocks s \<longrightarrow> c \<notin> meta_blocks s \<longrightarrow> c \<notin> set (take (length ess) (i_block dino)) \<longrightarrow>
        eblock s' c = eblock s c)"

lemma added_in_slot:
  assumes d: "dir_ok s dino ess" and a: "a < length ess" and n: "length name < 256" "dmap ess name = None" "child \<noteq> 0"
    and slot: "de_slot (eblock s (i_block dino ! a)) (de_real_len (length name)) 0 = Some (Some (k, u))"
  shows "\<exists>buf. de_insert (eblock s (i_block dino ! a)) k u child name ft = Some buf \<and>
     added s dino ess name child dino (put_block (i_block dino ! a) buf s)"
proof -
  have "dir_map (ess ! a) name = None" using n(2) a dmap_None by blast
  from dir_insert_map [OF dir_okD(12) [OF d a] n(1) this n(3) slot, of ft] obtain buf es where
    r: "de_insert (eblock s (i_block dino ! a)) k u child name ft = Some buf" "dir_rep buf es"
      "dir_map es = (dir_map (ess ! a))(name \<mapsto> child)" by blast
  note m = dmap_add [OF dir_okD(7) [OF d] a n(2) r(3)]
  have "i_block dino ! a \<in> set (take (length ess) (i_block dino))"
    using a dir_okD(4,5) [OF d] by (auto simp: in_set_conv_nth intro!: exI [of _ a])
  then have "added s dino ess name child dino (put_block (i_block dino ! a) buf s)"
    unfolding added_def
    using dir_ok_update [OF d a r(2) m(1)] m(2)
      put_data_block(2) [OF dir_okD(1) [OF d] dir_okD(11) [OF d a] dir_repD(2) [OF r(2)]] by auto
  then show ?thesis using r(1) by blast
qed

lemma added_by_growth:
  assumes d: "dir_ok s dino ess" and l: "length ess < 12" and n: "dmap ess name = None"
    and b: "b \<noteq> 0" "unat b \<notin> used_blocks s" "b \<notin> meta_blocks s" "alloc_ok s1" "meta_blocks s1 = meta_blocks s"
      "used_blocks s1 = insert (unat b) (used_blocks s)" "i_block dino1 = (i_block dino)[length ess := b]"
      "i_size dino1 = i_size dino" "\<forall>c. c \<noteq> b \<longrightarrow> c \<notin> meta_blocks s \<longrightarrow> eblock s1 c = eblock s c"
    and rep: "dir_rep buf es" "dir_map es = [name \<mapsto> child]"
  shows "added s dino ess name child (dino1\<lparr>i_size := i_size dino1 + 1024\<rparr>) (put_block b buf s1)"
proof -
  let ?n = "length ess" and ?s = "put_block b buf s1" and ?d = "dino1\<lparr>i_size := i_size dino1 + 1024\<rparr>"
  note p = put_data_block [OF b(4), of b buf]
  have nm: "b \<notin> meta_blocks s1" "length buf = 1024" using b(3,5) dir_repD(2) [OF rep(1)] by simp_all
  note m = dmap_append [OF dir_okD(7) [OF d] n rep(2)]
  have ne: "i_block dino ! a \<noteq> b" if "a < ?n" for a using dir_okD(10) [OF d that] b(2) by auto
  have blks: "i_block ?d ! a = (if a = ?n then b else i_block dino ! a)" if "a < 12" for a
    using that dir_okD(4) [OF d] by (auto simp: b(7) nth_list_update)
  have us: "used_blocks ?s = insert (unat b) (used_blocks s)" using p(2) [OF nm] b(6) by simp
  have ms: "meta_blocks ?s = meta_blocks s" using p(3) [OF nm] b(5) by simp
  have "dir_ok ?s ?d (ess @ [es])"
    unfolding dir_ok_def
  proof (intro conjI allI impI)
    show "alloc_ok ?s" using p(1) nm by blast
    show "meta_used ?s" using dir_okD(3) [OF d] unfolding meta_used_def us ms by blast
    show "length (i_block ?d) = 15" using dir_okD(4) [OF d] b(7) by simp
    show "length (ess @ [es]) \<le> 12" using l by simp
    show "i_size ?d = word_of_nat (1024 * length (ess @ [es]))" using dir_okD(6) [OF d] b(8) by (simp add: algebra_simps)
    show "apart (ess @ [es])" by (rule m(1))
    have "take (length (ess @ [es])) (i_block ?d) = take ?n (i_block dino) @ [b]"
      using l dir_okD(4) [OF d] by (simp add: b(7) take_Suc_conv_app_nth)
    moreover have "b \<notin> set (take ?n (i_block dino))" using ne dir_okD(4) [OF d] l by (auto simp: in_set_conv_nth)
    ultimately show "distinct (take (length (ess @ [es])) (i_block ?d))" using dir_okD(8) [OF d] by simp
  next
    fix a assume a: "a < length (ess @ [es])"
    have c: "a = ?n \<or> a < ?n" using a by auto
    have old: "i_block dino ! a \<noteq> 0 \<and> unat (i_block dino ! a) \<in> used_blocks s \<and> i_block dino ! a \<notin> meta_blocks s" if "a < ?n"
      using dir_okD(9-11) [OF d that] by blast
    have "i_block ?d ! a \<noteq> 0 \<and> unat (i_block ?d ! a) \<in> used_blocks ?s \<and> i_block ?d ! a \<notin> meta_blocks ?s"
      unfolding us ms using blks [of a] old c l b(1,3) by (cases "a = ?n") simp_all
    then show "i_block ?d ! a \<noteq> 0" "unat (i_block ?d ! a) \<in> used_blocks ?s" "i_block ?d ! a \<notin> meta_blocks ?s" by blast+
    show "dir_rep (eblock ?s (i_block ?d ! a)) ((ess @ [es]) ! a)"
    proof (cases "a = ?n")
      case True
      then show ?thesis using blks [of a] l rep(1) by simp
    next
      case False
      then have "a < ?n" using c by simp
      then show ?thesis
        using blks [of a] l ne [of a] b(9) dir_okD(11) [OF d, of a] dir_okD(12) [OF d, of a]
        by (simp add: nth_append)
    qed
  next
    fix a :: nat assume "a < 12" "length (ess @ [es]) \<le> a"
    then show "i_block ?d ! a = 0" using blks [of a] dir_okD(13) [OF d, of a] by simp
  qed
  with m(2) have 1: "\<exists>ess'. dir_ok ?s ?d ess' \<and> dmap ess' = (dmap ess)(name \<mapsto> child)" by blast
  have 2: "used_blocks s \<subseteq> used_blocks ?s" using us by blast
  have "eblock ?s c = eblock s c" if "unat c \<in> used_blocks s" "c \<notin> meta_blocks s" for c
  proof -
    have "c \<noteq> b" using that(1) b(2) by auto
    then show ?thesis using that(2) b(9) by simp
  qed
  with 1 2 show ?thesis unfolding added_def by blast
qed

lemma dir_add_ok:
  assumes d: "dir_ok s dino ess" and l: "length ess < 12" and n: "length name < 256" "dmap ess name = None" "child \<noteq> 0"
  shows "\<exists>r dino' s'. dir_add_entry dino child name ft s = Some (r, dino', s') \<and>
     (if r = 0 then added s dino ess name child dino' s' else s' = s \<and> dino' = dino \<and> used_blocks s = all_blocks s)"
proof -
  let ?need = "de_real_len (length name)"
  have "?need \<le> 1024" using n(1) unfolding de_real_len_def by linarith
  moreover have "set [0..<length ess] \<subseteq> {..<length ess}" by auto
  ultimately obtain r where r: "dir_slot_in s dino ?need [0..<length ess] = Some r" "case r of None \<Rightarrow> True
     | Some (phys, blk, k, u) \<Rightarrow> \<exists>a < length ess. phys = i_block dino ! a \<and> blk = eblock s phys \<and> de_slot blk ?need 0 = Some (Some (k, u))"
    using dir_slot_in_ok [OF d] by blast
  have io: "io_ok s" and nb: "dir_nblocks dino = length ess" using dir_okD(2) [OF d] dir_nblocks_ok [OF d] .
  show ?thesis
  proof (cases r)
    case (Some x)
    obtain phys blk k u where x: "x = (phys, blk, k, u)" by (cases x) auto
    obtain a where a: "a < length ess" "phys = i_block dino ! a" "blk = eblock s (i_block dino ! a)"
      "de_slot (eblock s (i_block dino ! a)) ?need 0 = Some (Some (k, u))" using r(2) unfolding Some x by auto
    from added_in_slot [OF d a(1) n a(4), of ft] obtain buf where
      b: "de_insert (eblock s (i_block dino ! a)) k u child name ft = Some buf"
        "added s dino ess name child dino (put_block (i_block dino ! a) buf s)" by blast
    have "dir_add_entry dino child name ft s = Some (0, dino, put_block (i_block dino ! a) buf s)"
      using r(1) b(1) io by (simp add: dir_add_entry_def nb Some x a(2,3))
    then show ?thesis using b(2) by auto
  next
    case None
    from grow_dir [OF d l] obtain b dino1 s1 where g: "bmap_alloc dino (word_of_nat (length ess)) s = Some (b, dino1, s1)"
     "if b = 0 then s1 = s \<and> dino1 = dino \<and> used_blocks s = all_blocks s
      else unat b \<notin> used_blocks s \<and> b \<notin> meta_blocks s \<and> alloc_ok s1 \<and> meta_blocks s1 = meta_blocks s \<and>
        used_blocks s1 = insert (unat b) (used_blocks s) \<and>
        i_block dino1 = (i_block dino)[length ess := b] \<and> i_size dino1 = i_size dino \<and>
        (\<forall>c. c \<noteq> b \<longrightarrow> c \<notin> meta_blocks s \<longrightarrow> eblock s1 c = eblock s c)" by blast
    show ?thesis
    proof (cases "b = 0")
      case True
      then have "dir_add_entry dino child name ft s = Some (-1, dino, s)"
        using r(1) None g by (simp add: dir_add_entry_def nb)
      then show ?thesis using g(2) True by auto
    next
      case False
      obtain blk0 buf where nb2: "put_buf (replicate 1024 0) 4 (enc16 1024) = Some blk0" "de_put blk0 0 child name ft = Some buf"
        "dir_rep buf (new_dents child name ft)" using new_block_rep(1) [OF n(1,3), of ft] by (auto simp: bind_eq_Some_conv)
      have "io_ok s1" using g(2) False by (simp add: alloc_ok_def)
      then have "dir_add_entry dino child name ft s = Some (0, dino1\<lparr>i_size := i_size dino1 + 1024\<rparr>, put_block b buf s1)"
        using r(1) None g(1) False nb2(1,2) by (simp add: dir_add_entry_def nb)
      moreover have "added s dino ess name child (dino1\<lparr>i_size := i_size dino1 + 1024\<rparr>) (put_block b buf s1)"
        using g(2) False by (intro added_by_growth [OF d l n(2) False _ _ _ _ _ _ _ _ nb2(3) new_block_rep(2) [OF n(1,3)]]) simp_all
      ultimately show ?thesis by auto
    qed
  qed
qed

text \<open>
  C9. A directory is a map. For a directory of direct blocks on a consistent file system, \<open>dir_find\<close>
  gives the inode number that the map has for a name, or none; \<open>dir_add_entry\<close> with a name that is not
  there makes the directory the map with the name added, in the first record with room or in a block
  of its own that nothing else uses, or fails because the disk is full, and then nothing has changed;
  no block in use outside the directory is touched. \<open>dir_unlink_entry\<close> takes the name out, returns its
  inode number, or 0, and changes no other name.
\<close>

theorem directory_map:
  assumes d: "dir_ok s dino ess" and l: "length ess < 12" and n: "length name < 256" "dmap ess name = None" "child \<noteq> 0"
  shows "map_option (map_option (\<lambda>(phys, blk, k, prev). le32 blk k)) (dir_find s dino x) = Some (dmap ess x) \<and>
     (\<exists>r dino' s'. dir_add_entry dino child name ft s = Some (r, dino', s') \<and>
        (if r = 0 then (\<exists>ess'. dir_ok s' dino' ess' \<and> dmap ess' = (dmap ess)(name \<mapsto> child)) \<and>
             (\<forall>c. unat c \<in> used_blocks s \<longrightarrow> c \<notin> meta_blocks s \<longrightarrow> c \<notin> set (take (length ess) (i_block dino)) \<longrightarrow>
                eblock s' c = eblock s c)
         else s' = s \<and> dino' = dino \<and> used_blocks s = all_blocks s)) \<and>
     (\<exists>s' ess'. dir_unlink_entry dino x s = Some (case dmap ess x of None \<Rightarrow> 0 | Some i \<Rightarrow> i, s') \<and>
        dir_ok s' dino ess' \<and> dmap ess' = (dmap ess)(x := None))"
proof (intro conjI)
  show "map_option (map_option (\<lambda>(phys, blk, k, prev). le32 blk k)) (dir_find s dino x) = Some (dmap ess x)"
    using dir_find_ok [OF d, of x] by (auto split: option.splits)
  show "\<exists>r dino' s'. dir_add_entry dino child name ft s = Some (r, dino', s') \<and>
        (if r = 0 then (\<exists>ess'. dir_ok s' dino' ess' \<and> dmap ess' = (dmap ess)(name \<mapsto> child)) \<and>
             (\<forall>c. unat c \<in> used_blocks s \<longrightarrow> c \<notin> meta_blocks s \<longrightarrow> c \<notin> set (take (length ess) (i_block dino)) \<longrightarrow>
                eblock s' c = eblock s c)
         else s' = s \<and> dino' = dino \<and> used_blocks s = all_blocks s)"
  proof -
    obtain r dino' s' where "dir_add_entry dino child name ft s = Some (r, dino', s')"
      "if r = 0 then added s dino ess name child dino' s' else s' = s \<and> dino' = dino \<and> used_blocks s = all_blocks s"
      using dir_add_ok [OF d l n, of ft] by blast
    then show ?thesis by (intro exI [of _ r] exI [of _ dino'] exI [of _ s']) (cases "r = 0"; simp add: added_def)
  qed
  show "\<exists>s' ess'. dir_unlink_entry dino x s = Some (case dmap ess x of None \<Rightarrow> 0 | Some i \<Rightarrow> i, s') \<and>
        dir_ok s' dino ess' \<and> dmap ess' = (dmap ess)(x := None)"
  proof (cases "dmap ess x")
    case None
    then have "(dmap ess)(x := None) = dmap ess" by (simp add: fun_upd_idem)
    then show ?thesis using dir_unlink_ok [OF d, of x] None d by (intro exI [of _ s] exI [of _ ess]) simp
  next
    case (Some i)
    then show ?thesis using dir_unlink_ok [OF d, of x] by auto
  qed
qed

text \<open>The disk of \<open>mke2fs\<close> in small: blocks 1 to 6 for the metadata and the inodes, and the root directory in block 7.\<close>

definition root_disk :: ext2 where
  "root_disk = put_block 7 (dot_block 2 2) (put_block 3 (127 # replicate 1023 0)
     (blank_disk\<lparr>x_sb := (x_sb blank_disk)\<lparr>s_free_blocks_count := 57\<rparr>,
        x_gdt := [(hd (x_gdt blank_disk))\<lparr>bg_free_blocks_count := 57\<rparr>]\<rparr>))"

definition root_inode :: ext2_inode where
  "root_inode = zero_inode\<lparr>i_mode := 0x41ED, i_links_count := 2, i_size := 1024, i_blocks := 2,
     i_block := 7 # replicate 14 0\<rparr>"

lemma root_disk_geo:
  "n_groups root_disk = 1" "group_blocks root_disk = 64" "first_block root_disk = 1" "gdt_blk root_disk 0 = 2"
  "meta_blocks root_disk = {1, 2, 3}"
proof -
  show geo: "n_groups root_disk = 1" "group_blocks root_disk = 64" "first_block root_disk = 1" "gdt_blk root_disk 0 = 2"
    by (simp_all add: n_groups_def group_blocks_def first_block_def gdt_blk_def root_disk_def blank_disk_def)
  have "{..<1 :: nat} = {0}" by auto
  then show "meta_blocks root_disk = {1, 2, 3}"
    unfolding meta_blocks_def geo using geo(4) by (auto simp: root_disk_def blank_disk_def)
qed

lemma root_disk_bits:
  assumes "i < 64" shows "bit_used root_disk 0 i \<longleftrightarrow> i < 7"
proof -
  have e: "eblock root_disk 3 = 127 # replicate 1023 0" by (simp add: root_disk_def)
  have b: "bg_block_bitmap (x_gdt root_disk ! 0) = 3" by (simp add: root_disk_def blank_disk_def)
  show ?thesis
  proof (cases "i < 8")
    case True
    then have "i \<in> {0, 1, 2, 3, 4, 5, 6, 7}" by auto
    then show ?thesis by (auto simp: bit_used_def b e bit_iff_odd)
  next
    case False
    then have "0 < i div 8" "i div 8 < 1024" using assms by (simp_all add: div_greater_zero_iff div_less_iff_less_mult)
    then have "(127 # replicate 1023 0 :: u8 list) ! (i div 8) = 0" by (simp add: nth_Cons')
    then show ?thesis using False by (simp add: bit_used_def b e)
  qed
qed

lemma root_disk_used: "0 < k \<Longrightarrow> k < 8 \<Longrightarrow> k \<in> used_blocks root_disk"
  unfolding used_blocks_def root_disk_geo using root_disk_bits [of "k - 1"] by (auto intro!: exI [of _ "k - 1"])

lemma root_disk_ok: "dir_ok root_disk root_inode [dot_dents 2 2]"
proof -
  note geo = root_disk_geo
  have dot: "length (dot_block 2 2) = 1024" using dir_repD(2) [OF dot_block_rep(1) [of 2 2]] by simp
  have io: "io_ok root_disk"
    unfolding root_disk_def using blank_disk_ok dot by (simp add: alloc_ok_def)
  have f: "{i. i < 64 \<and> \<not> bit_used root_disk 0 i} = {7..<64}" using root_disk_bits by auto
  then have "free_bits root_disk 0 = 57" by (simp add: free_bits_def geo)
  then have "counts_ok root_disk" unfolding counts_ok_def geo by (simp add: root_disk_def blank_disk_def)
  moreover have "layout_ok root_disk"
    unfolding layout_ok_def geo using geo(4)
    by (simp add: root_disk_def blank_disk_def super_ok_def dec_super_def group_ok_def dec_group_def)
  ultimately have ok: "alloc_ok root_disk" using io by (simp add: alloc_ok_def)
  have "apart [dot_dents 2 2]" by (rule apartI) simp
  moreover have "eblock root_disk 7 = dot_block 2 2" by (simp add: root_disk_def)
  ultimately show ?thesis
    unfolding dir_ok_def meta_used_def geo using ok root_disk_used [of 1] root_disk_used [of 2] root_disk_used [of 3] root_disk_used [of 7] dot_block_rep(1) [of 2 2]
    by (simp add: root_inode_def nth_Cons')
qed

lemma directory_map_witness:
  "map_option (map_option (\<lambda>(phys, blk, k, prev). le32 blk k)) (dir_find root_disk root_inode dotdot) =
     Some (dmap [dot_dents 2 2] dotdot) \<and> dmap [dot_dents 2 2] dotdot = Some 2"
  using directory_map [OF root_disk_ok, of "[97]" 11 dotdot 1] dot_block_rep(2) [of 2 2] by simp

end
