(* ===== verification/Ext2_Data.thy ===== *)
theory Ext2_Data
  imports Ext2_Props
begin

text \<open>
  The data of a file: reading is a slice of the bytes that the block map leads to, for files of any
  size; writing within the direct blocks sets the bytes it is given and no others, in this file and in
  all the others.
\<close>

subsection \<open>The bytes of a file\<close>

definition byte_at :: "ext2 \<Rightarrow> ext2_inode \<Rightarrow> nat \<Rightarrow> u8" where
  "byte_at s ino p = (case bmap s ino (word_of_nat (p div 1024)) of
     Some b \<Rightarrow> if b = 0 then 0 else eblock s b ! (p mod 1024) | None \<Rightarrow> 0)"

definition file_bytes :: "ext2 \<Rightarrow> ext2_inode \<Rightarrow> u8 list" where
  "file_bytes s ino = map (byte_at s ino) [0..<unat (i_size ino)]"

lemma ind_entry_total: "io_ok s \<Longrightarrow> i < 256 \<Longrightarrow> \<exists>v. ind_entry s blk i = Some v"
  by (simp add: ind_entry_def)

text \<open>Up to 4 GiB the index into the last block of pointers stays inside it.\<close>

lemma bmap_total:
  assumes io: "io_ok s" and b: "unat b < 4194304"
  shows "\<exists>v. bmap s ino b = Some v"
proof -
  have ind: "\<exists>v. ind_entry s blk i = Some v" if "i < 256" for blk i using ind_entry_total [OF io that] .
  have 1: "unat (b - 12) = unat b - 12" if "\<not> b < 12" using that by (simp add: not_less unat_sub)
  have 2: "unat (b - 12 - 256) = unat b - 268" if "\<not> b < 12" "\<not> b - 12 < 256"
    using that 1 unat_sub [of 256 "b - 12"] by (simp add: not_less)
  have 3: "unat (b - 12 - 256 - 65536) = unat b - 65804" if "\<not> b < 12" "\<not> b - 12 < 256" "\<not> b - 12 - 256 < 65536"
    using that 2 unat_sub [of 65536 "b - 12 - 256"] by (simp add: not_less)
  show ?thesis
  proof (cases "b < 12")
    case True then show ?thesis by (simp add: bmap_def)
  next
    case f1: False
    show ?thesis
    proof (cases "b - 12 < 256")
      case True
      then have "unat (b - 12) < 256" by (simp add: word_less_nat_alt)
      then show ?thesis using f1 True ind by (simp add: bmap_def Let_def)
    next
      case f2: False
      show ?thesis
      proof (cases "b - 12 - 256 < 65536")
        case True
        let ?c = "b - 12 - 256"
        have "unat ?c < 65536" using True by (simp add: word_less_nat_alt)
        then have "unat (?c div 256) < 256" "unat (?c mod 256) < 256"
          by (simp_all add: unat_div unat_mod div_less_iff_less_mult)
        then obtain m v where "ind_entry s (i_block ino ! 13) (unat (?c div 256)) = Some m"
            "ind_entry s m (unat (?c mod 256)) = Some v" using ind by meson
        then show ?thesis using f1 f2 True by (simp add: bmap_def Let_def)
      next
        case f3: False
        let ?c = "b - 12 - 256 - 65536"
        have "unat ?c < 4194304" using 3 f1 f2 f3 b by simp
        then have "unat (?c div 65536) < 256" "unat (?c div 256 mod 256) < 256" "unat (?c mod 256) < 256"
          by (simp_all add: unat_div unat_mod div_less_iff_less_mult)
        then obtain h m v where "ind_entry s (i_block ino ! 14) (unat (?c div 65536)) = Some h"
            "ind_entry s h (unat (?c div 256 mod 256)) = Some m" "ind_entry s m (unat (?c mod 256)) = Some v"
          using ind by meson
        then show ?thesis using f1 f2 f3 by (simp add: bmap_def Let_def)
      qed
    qed
  qed
qed

lemma blk_slice_ok:
  assumes "unat off + len \<le> 4294967296" "k < len"
  shows "blk_slice off k len = (word_of_nat ((unat off + k) div 1024), (unat off + k) mod 1024,
     min (1024 - (unat off + k) mod 1024) (len - k))"
proof -
  have u: "unat (off + word_of_nat k) = unat off + k"
    using assms by (simp add: unat_word_ariths unat_of_nat)
  have d: "unat ((off + word_of_nat k) div 1024) = (unat off + k) div 1024"
    "unat ((off + word_of_nat k) mod 1024) = (unat off + k) mod 1024"
    by (simp_all add: unat_div unat_mod u)
  have "(ucast ((off + word_of_nat k) div 1024) :: u32) = word_of_nat ((unat off + k) div 1024)"
    by (simp only: word_unat_eq_iff unsigned_ucast_eq unsigned_take_bit_eq d unat_of_nat take_bit_eq_mod)
  then show ?thesis unfolding blk_slice_def Let_def d by simp
qed

lemma byte_at_block:
  assumes "p mod 1024 + i < 1024" "bmap s ino (word_of_nat (p div 1024)) = Some b"
  shows "byte_at s ino (p + i) = (if b = 0 then 0 else eblock s b ! (p mod 1024 + i))"
proof -
  have "p + i = (p mod 1024 + i) + p div 1024 * 1024" by (metis add.assoc add.commute div_mult_mod_eq)
  then have d: "(p + i) div 1024 = p div 1024" using assms(1) by (simp only: div_mult_self1 div_less)
  have "(p + i) mod 1024 = (p mod 1024 + i) mod 1024" by (simp only: mod_add_left_eq)
  with assms(1) have "(p + i) mod 1024 = p mod 1024 + i" by (simp only: mod_less)
  then show ?thesis using assms(2) d by (simp add: byte_at_def)
qed

subsection \<open>Reading\<close>

lemma read_loop_ok:
  assumes "io_ok s" "unat off + len \<le> 4294967296" "length out \<le> len"
  shows "ext2_read_loop s ino off len out =
    Some (out @ map (byte_at s ino) [unat off + length out..<unat off + len])"
  using assms
proof (induction s ino off len out rule: ext2_read_loop.induct)
  case (1 s ino off len out)
  show ?case
  proof (cases "length out < len")
    case False
    then show ?thesis using "1.prems"(3) by (simp add: ext2_read_loop.simps)
  next
    case True
    let ?p = "unat off + length out"
    let ?n = "min (1024 - ?p mod 1024) (len - length out)"
    have sl: "blk_slice off (length out) len = (word_of_nat (?p div 1024), ?p mod 1024, ?n)"
      using blk_slice_ok [OF "1.prems"(2) True] .
    have "unat (word_of_nat (?p div 1024) :: u32) < 4194304" using "1.prems"(2) True by (simp add: unat_of_nat)
    then obtain b where b: "bmap s ino (word_of_nat (?p div 1024)) = Some b" using bmap_total [OF "1.prems"(1)] by blast
    have n: "0 < ?n" "length out + ?n \<le> len" using True by auto
    define chunk where "chunk = (if b = 0 then replicate ?n 0 else map (\<lambda>i. eblock s b ! (?p mod 1024 + i)) [0..<?n])"
    have "byte_at s ino (?p + i) = chunk ! i" if "i < ?n" for i
      using byte_at_block [OF _ b, of i] that by (auto simp: chunk_def)
    moreover have l: "length chunk = ?n" by (simp add: chunk_def)
    ultimately have ch: "map (byte_at s ino) [?p..<?p + ?n] = chunk" by (intro nth_equalityI) simp_all
    have "ext2_read_loop s ino off len out = ext2_read_loop s ino off len (out @ chunk)"
      using True sl b "1.prems"(1) by (subst ext2_read_loop.simps) (simp add: chunk_def)
    also have "\<dots> = Some ((out @ chunk) @ map (byte_at s ino) [unat off + length (out @ chunk)..<unat off + len])"
    proof (cases "b = 0")
      case True
      then show ?thesis using "1.IH"(1) [OF \<open>length out < len\<close> sl [symmetric] refl b] "1.prems" n by (simp add: chunk_def)
    next
      case False
      have "eb_read s b = Some (eblock s b)" using "1.prems"(1) by simp
      from "1.IH"(2) [OF \<open>length out < len\<close> sl [symmetric] refl b False this] False "1.prems" n
      show ?thesis by (simp add: chunk_def)
    qed
    also have "(out @ chunk) @ map (byte_at s ino) [unat off + length (out @ chunk)..<unat off + len] =
        out @ map (byte_at s ino) [?p..<unat off + len]"
    proof -
      have "[?p..<unat off + len] = [?p..<?p + ?n] @ [?p + ?n..<unat off + len]"
        using n upt_add_eq_append [of ?p "?p + ?n" "unat off + len - (?p + ?n)"] by simp
      then show ?thesis using ch l by (simp add: add.assoc)
    qed
    finally show ?thesis .
  qed
qed

text \<open>
  C23. Reading an ext2 file gives the bytes that its block map leads to, holes as zeros: as many as were
  asked for and are there, at the offset, for direct and indirect blocks alike. A length whose sum with
  the offset does not wrap is clamped to the size of the file.
\<close>

theorem ext2_read_exact:
  assumes io: "io_ok s" and ino: "read_inode s (inum_of s vn) = Some (Some ino)"
    and len: "unat len < 2 ^ 31" "unat off + unat len < 2 ^ 64"
  shows "ext2_read vn off len s =
    (let d = take (unat len) (drop (unat off) (file_bytes s ino)) in Some ((int (length d), d), s))"
proof -
  let ?z = "unat (i_size ino)"
  have z: "unat (ucast (i_size ino) :: u64) = ?z"
    using unat_u32_less [of "i_size ino"] by (simp add: unsigned_ucast_eq unsigned_take_bit_eq take_bit_nat_eq_self)
  show ?thesis
  proof (cases "?z \<le> unat off")
    case True
    then have "ext2_read vn off len s = Some ((0, []), s)" using ino by (simp add: ext2_read_def word_le_nat_alt z)
    then show ?thesis using True by (simp add: file_bytes_def)
  next
    case False
    let ?len = "if off + len > ucast (i_size ino) then ucast (i_size ino) - off else len"
    have e: "unat (off + len) = unat off + unat len" using len(2) by (simp add: unat_word_ariths)
    have l: "unat ?len = min (unat len) (?z - unat off)"
      using False z e by (auto simp: word_less_nat_alt unat_sub word_le_nat_alt)
    have d: "take (unat len) (drop (unat off) (file_bytes s ino)) =
        map (byte_at s ino) [unat off..<unat off + unat ?len]"
      unfolding file_bytes_def l using False
      by (simp add: drop_map take_map take_upt min_def)
    have "unat off + unat ?len \<le> 4294967296" using l unat_u32_less [of "i_size ino"] False by linarith
    from read_loop_ok [OF io this, of "[]"]
    have r: "ext2_read_loop s ino off (unat ?len) [] = Some (map (byte_at s ino) [unat off..<unat off + unat ?len])" by simp
    have "unat ?len < 2 ^ 31" using l len(1) by simp
    from int_of_u64_small [OF this] have i: "int_of_u64 (word_of_nat (unat ?len)) = int (unat ?len)" .
    have "ext2_read vn off len s = Some ((int (unat ?len), map (byte_at s ino) [unat off..<unat off + unat ?len]), s)"
      using ino False r i by (simp add: ext2_read_def word_le_nat_alt z Let_def)
    then show ?thesis unfolding d by simp
  qed
qed

subsection \<open>A file system with its inode tables, and a file in it\<close>

definition itab_blocks :: "ext2 \<Rightarrow> u32 set" where
  "itab_blocks s = {c. \<exists>g < unat (x_ngroups s). itab s g \<le> unat c \<and> unat c < itab s g + itab_len s}"

definition fs_ok :: "ext2 \<Rightarrow> bool" where
  "fs_ok s \<longleftrightarrow> alloc_ok s \<and> meta_used s \<and> itab_ok s \<and> unat ` itab_blocks s \<subseteq> used_blocks s \<and>
     itab_blocks s \<inter> meta_blocks s = {}"

text \<open>The blocks in the direct slots are blocks of its own, in use.\<close>

definition file_blocks :: "ext2_inode \<Rightarrow> u32 set" where
  "file_blocks ino = {i_block ino ! a | a. a < 12 \<and> i_block ino ! a \<noteq> 0}"

definition file_ok :: "ext2 \<Rightarrow> ext2_inode \<Rightarrow> bool" where
  "file_ok s ino \<longleftrightarrow> inode_ok ino \<and> unat ` file_blocks ino \<subseteq> used_blocks s \<and>
     file_blocks ino \<inter> (meta_blocks s \<union> itab_blocks s) = {} \<and>
     (\<forall>a < 12. \<forall>c < 12. i_block ino ! a \<noteq> 0 \<longrightarrow> i_block ino ! a = i_block ino ! c \<longrightarrow> a = c)"

text \<open>The second state is the first with more blocks for the file; what the others hold is unchanged.\<close>

definition file_grown :: "ext2 \<Rightarrow> ext2_inode \<Rightarrow> ext2 \<Rightarrow> ext2_inode \<Rightarrow> bool" where
  "file_grown s ino s' ino' \<longleftrightarrow> fs_ok s' \<and> file_ok s' ino' \<and> used_blocks s \<subseteq> used_blocks s' \<and>
     meta_blocks s' = meta_blocks s \<and> inode_geo s' = inode_geo s \<and> x_vnodes s' = x_vnodes s \<and>
     i_size ino' = i_size ino \<and>
     (\<forall>c \<in> file_blocks ino'. unat c \<in> used_blocks s \<longrightarrow> c \<in> file_blocks ino) \<and>
     (\<forall>c. unat c \<in> used_blocks s \<longrightarrow> c \<notin> meta_blocks s \<union> file_blocks ino \<longrightarrow> eblock s' c = eblock s c)"

lemma itab_blocks_geo: "inode_geo s = inode_geo t \<Longrightarrow> itab_ok t \<Longrightarrow> itab_blocks s = itab_blocks t"
  using inode_geo_itab(2,3) [of s t] by (auto simp: itab_blocks_def inode_geo_def)

lemma file_grown_refl: "fs_ok s \<Longrightarrow> file_ok s ino \<Longrightarrow> file_grown s ino s ino"
  by (simp add: file_grown_def)

lemma file_grown_trans:
  assumes "file_grown s i t j" "file_grown t j u k" shows "file_grown s i u k"
proof -
  have "eblock u c = eblock s c" if "unat c \<in> used_blocks s" "c \<notin> meta_blocks s \<union> file_blocks i" for c
  proof -
    have "eblock t c = eblock s c" using assms(1) that unfolding file_grown_def by blast
    moreover have "c \<notin> file_blocks j" using assms(1) that unfolding file_grown_def by blast
    then have "eblock u c = eblock t c" using assms that unfolding file_grown_def by blast
    ultimately show ?thesis by simp
  qed
  moreover have "\<forall>c \<in> file_blocks k. unat c \<in> used_blocks s \<longrightarrow> c \<in> file_blocks i" using assms unfolding file_grown_def by blast
  moreover have "used_blocks s \<subseteq> used_blocks u" using assms unfolding file_grown_def by blast
  ultimately show ?thesis using assms unfolding file_grown_def by simp
qed

text \<open>Storing into one of its blocks.\<close>

lemma inode_geo_put [simp]: "inode_geo (put_block b buf s) = inode_geo s"
  by (simp add: inode_geo_def)

lemma fs_ok_put:
  assumes "fs_ok s" "b \<notin> meta_blocks s" "length buf = 1024"
  shows "fs_ok (put_block b buf s)"
proof -
  have "alloc_ok s" "itab_ok s" using assms(1) by (simp_all add: fs_ok_def)
  note p = put_data_block [OF this(1) assms(2,3)]
  have "itab_blocks (put_block b buf s) = itab_blocks s" by (simp add: itab_blocks_def itab_def itab_len_def)
  then show ?thesis using assms(1) p by (simp add: fs_ok_def meta_used_def)
qed

lemma file_grown_put:
  assumes fs: "fs_ok s" and f: "file_ok s ino" and b: "b \<in> file_blocks ino" "length buf = 1024"
  shows "file_grown s ino (put_block b buf s) ino"
proof -
  have nm: "b \<notin> meta_blocks s" using f b(1) unfolding file_ok_def by blast
  have "alloc_ok s" using fs by (simp add: fs_ok_def)
  note p = put_data_block [OF this nm b(2)]
  have "itab_blocks (put_block b buf s) = itab_blocks s" by (simp add: itab_blocks_def itab_def itab_len_def)
  then have "file_ok (put_block b buf s) ino" using f p by (simp add: file_ok_def)
  then show ?thesis using fs_ok_put [OF fs nm b(2)] p b(1) by (auto simp: file_grown_def)
qed

text \<open>A block for slot \<open>a\<close>.\<close>

lemma grow_file:
  assumes fs: "fs_ok s" and f: "file_ok s ino" and a: "a < 12"
  shows "\<exists>b ino' s'. bmap_alloc ino (word_of_nat a) s = Some (b, ino', s') \<and>
     (if b = 0 then s' = s \<and> ino' = ino \<and> used_blocks s = all_blocks s
      else file_grown s ino s' ino' \<and> i_block ino' ! a = b \<and> (\<forall>p < 12288. byte_at s' ino' p = byte_at s ino p))"
proof -
  have bm: "bmap_alloc ino (word_of_nat a) s = ensure_root a ino s"
    using a by (simp add: bmap_alloc_def word_less_nat_alt unat_of_nat)
  show ?thesis
  proof (cases "i_block ino ! a = 0")
    case False
    then have "bmap_alloc ino (word_of_nat a) s = Some (i_block ino ! a, ino, s)" using bm by (simp add: ensure_root_def)
    then show ?thesis using False file_grown_refl [OF fs f] by auto
  next
    case True
    have ok: "alloc_ok s" and mu: "meta_used s" and it: "itab_ok s" using fs by (simp_all add: fs_ok_def)
    have l15: "length (i_block ino) = 15" using f by (simp add: file_ok_def inode_ok_def)
    obtain b s1 where al: "alloc_block s = Some (b, s1)" "alloc_ok s1" "meta_blocks s1 = meta_blocks s"
       "inode_geo s1 = inode_geo s" "x_vnodes s1 = x_vnodes s"
       "if b = 0 then s1 = s \<and> used_blocks s = all_blocks s
          else unat b \<in> all_blocks s - used_blocks s \<and> used_blocks s1 = insert (unat b) (used_blocks s)"
       "\<forall>c. c \<notin> meta_blocks s \<longrightarrow> eblock s1 c = eblock s c"
      using alloc_block_ok [OF ok] by blast
    have io: "io_ok s1" using al(2) by (simp add: alloc_ok_def)
    show ?thesis
    proof (cases "b = 0")
      case b0: True
      then have "bmap_alloc ino (word_of_nat a) s = Some (0, ino, s)"
        using bm True al(1,6) by (simp add: ensure_root_def alloc_zeroed_block_def)
      then show ?thesis using al(6) b0 by auto
    next
      case b0: False
      let ?s = "put_block b (replicate 1024 0) s1" and ?i = "count_block (ino\<lparr>i_block := (i_block ino)[a := b]\<rparr>)"
      have fresh: "unat b \<notin> used_blocks s" "used_blocks s1 = insert (unat b) (used_blocks s)" using al(6) b0 by simp_all
      have nm: "b \<notin> meta_blocks s" using fresh(1) mu by (auto simp: meta_used_def)
      have ni: "b \<notin> itab_blocks s" using fresh(1) fs by (auto simp: fs_ok_def)
      have it1: "itab_ok s1" "itab_blocks s1 = itab_blocks s"
        using inode_geo_itab(1) [OF al(4) it] itab_blocks_geo [OF al(4) it] .
      have fs1: "fs_ok s1" using fs al(2,3) it1 fresh(2) by (auto simp: fs_ok_def meta_used_def)
      have fs2: "fs_ok ?s" using fs_ok_put [OF fs1, of b] nm al(3) by simp
      note p = put_data_block [OF al(2), of b "replicate 1024 0"]
      have p': "used_blocks ?s = insert (unat b) (used_blocks s)" "meta_blocks ?s = meta_blocks s" "itab_blocks ?s = itab_blocks s"
        using p nm al(3) fresh(2) it1(2) by (simp_all add: itab_blocks_def itab_def itab_len_def)
      have slots: "i_block ?i ! c = (if c = a then b else i_block ino ! c)" if "c < 12" for c
        using that l15 by (simp add: count_block_def nth_list_update)
      have nb: "i_block ino ! c \<noteq> b" if "c < 12" for c
      proof
        assume e: "i_block ino ! c = b"
        then have "b \<in> file_blocks ino" using that b0 by (auto simp: file_blocks_def)
        then show False using f fresh(1) by (auto simp: file_ok_def)
      qed
      have fb: "file_blocks ?i = insert b (file_blocks ino)"
        using slots True a b0 by (auto simp: file_blocks_def split: if_splits) metis+
      have fo: "file_ok ?s ?i"
        unfolding file_ok_def
      proof (intro conjI allI impI)
        show "inode_ok ?i" using f by (simp add: file_ok_def inode_ok_def count_block_def)
        show "unat ` file_blocks ?i \<subseteq> used_blocks ?s" using f by (auto simp: fb p' file_ok_def)
        show "file_blocks ?i \<inter> (meta_blocks ?s \<union> itab_blocks ?s) = {}"
          using f nm ni unfolding fb p' file_ok_def by blast
        fix c e assume "c < 12" "e < 12" "i_block ?i ! c \<noteq> 0" "i_block ?i ! c = i_block ?i ! e"
        then show "c = e" using slots [of c] slots [of e] nb [of c] nb [of e] f by (auto simp: file_ok_def split: if_splits)
      qed
      have "file_grown s ino ?s ?i"
        unfolding file_grown_def
      proof (intro conjI)
        show "\<forall>c \<in> file_blocks ?i. unat c \<in> used_blocks s \<longrightarrow> c \<in> file_blocks ino" using fresh(1) unfolding fb by auto
        show "\<forall>c. unat c \<in> used_blocks s \<longrightarrow> c \<notin> meta_blocks s \<union> file_blocks ino \<longrightarrow> eblock ?s c = eblock s c"
          using fresh(1) al(7) by auto
      qed (use fs2 fo p' al(4,5) in \<open>auto simp: count_block_def\<close>)
      moreover have "byte_at ?s ?i q = byte_at s ino q" if q: "q < 12288" for q
      proof -
        let ?c = "q div 1024"
        have c: "?c < 12" using q by (simp add: div_less_iff_less_mult)
        show ?thesis
        proof (cases "?c = a")
          case True2: True
          then show ?thesis using c slots [OF c] True b0 by (simp add: byte_at_def bmap_direct)
        next
          case False
          have "i_block ino ! ?c \<noteq> 0 \<Longrightarrow> eblock ?s (i_block ino ! ?c) = eblock s (i_block ino ! ?c)"
          proof -
            assume "i_block ino ! ?c \<noteq> 0"
            then have "i_block ino ! ?c \<in> file_blocks ino" using c by (auto simp: file_blocks_def)
            then have "i_block ino ! ?c \<notin> meta_blocks s" using f unfolding file_ok_def by blast
            then show ?thesis using al(7) nb [OF c] by simp
          qed
          then show ?thesis using c slots [OF c] False by (simp add: byte_at_def bmap_direct)
        qed
      qed
      moreover have "bmap_alloc ino (word_of_nat a) s = Some (b, ?i, ?s)"
        using bm True al(1) b0 io by (simp add: ensure_root_def alloc_zeroed_block_def)
      ultimately show ?thesis using b0 slots [OF a] by auto
    qed
  qed
qed

subsection \<open>Writing\<close>

lemma before_next: "q < p + m \<Longrightarrow> d * 1024 + r = p \<Longrightarrow> m + r \<le> 1024 \<Longrightarrow> q < (d + 1) * (1024 :: nat)"
  by simp

lemma same_offset: "d * 1024 + r = p \<Longrightarrow> d * 1024 + t = q \<Longrightarrow> p \<le> q \<Longrightarrow> q < p + m \<Longrightarrow> r \<le> t \<and> t < r + (m :: nat)"
  by linarith

lemma same_block:
  assumes "m \<le> 1024 - p mod 1024"
  shows "p \<le> q \<and> q < p + m \<longleftrightarrow> q div 1024 = p div 1024 \<and> p mod 1024 \<le> q mod 1024 \<and> q mod 1024 < p mod 1024 + (m :: nat)"
proof
  assume a: "p \<le> q \<and> q < p + m"
  have "q div 1024 = p div 1024"
  proof (rule antisym)
    show "p div 1024 \<le> q div 1024" using a by (intro div_le_mono) simp
    have "m + p mod 1024 \<le> 1024"
    proof -
      have "p mod 1024 < 1024" by simp
      with assms show ?thesis by linarith
    qed
    with conjunct2 [OF a] div_mult_mod_eq [of p 1024] have "q < (p div 1024 + 1) * 1024" by (rule before_next)
    then show "q div 1024 \<le> p div 1024" using less_mult_imp_div_less [of q "p div 1024 + 1" 1024] by simp
  qed
  moreover from this have "p div 1024 * 1024 + q mod 1024 = q" using div_mult_mod_eq [of q 1024] by (simp only:)
  then have "p mod 1024 \<le> q mod 1024 \<and> q mod 1024 < p mod 1024 + m"
    using same_offset [OF div_mult_mod_eq [of p 1024]] a by blast
  ultimately show "q div 1024 = p div 1024 \<and> p mod 1024 \<le> q mod 1024 \<and> q mod 1024 < p mod 1024 + m" by blast
next
  assume "q div 1024 = p div 1024 \<and> p mod 1024 \<le> q mod 1024 \<and> q mod 1024 < p mod 1024 + m"
  then show "p \<le> q \<and> q < p + m" using div_mult_mod_eq [of p 1024] div_mult_mod_eq [of q 1024] by linarith
qed

lemma store_bytes:
  assumes f: "file_ok s ino" and a: "p < 12288" "i_block ino ! (p div 1024) = b" "b \<noteq> 0" and io: "io_ok s"
    and put: "put_buf (eblock s b) (p mod 1024) bs = Some buf" and q: "q < 12288"
  shows "byte_at (put_block b buf s) ino q = (if p \<le> q \<and> q < p + length bs then bs ! (q - p) else byte_at s ino q)"
proof -
  have m: "length bs \<le> 1024 - p mod 1024" using put io by (auto simp: put_buf_Some)
  have c: "q div 1024 < 12" "p div 1024 < 12" using q a(1) by (simp_all add: div_less_iff_less_mult)
  show ?thesis
  proof (cases "q div 1024 = p div 1024")
    case True
    have "q mod 1024 < 1024" by simp
    then have "buf ! (q mod 1024) = (if p mod 1024 \<le> q mod 1024 \<and> q mod 1024 < p mod 1024 + length bs
        then bs ! (q mod 1024 - p mod 1024) else eblock s b ! (q mod 1024))"
      using put_nth [OF put, of "q mod 1024"] io by simp
    moreover have "q mod 1024 - p mod 1024 = q - p"
      using True div_mult_mod_eq [of p 1024] div_mult_mod_eq [of q 1024] by linarith
    ultimately show ?thesis
      using same_block [OF m, of q] True a(2,3) c by (simp add: byte_at_def bmap_direct)
  next
    case False
    then have "i_block ino ! (q div 1024) \<noteq> b" using f c a(2,3) by (auto simp: file_ok_def)
    moreover have no: "\<not> (p \<le> q \<and> q < p + length bs)" using same_block [OF m, of q] False by blast
    ultimately show ?thesis unfolding if_not_P [OF no] using c by (simp add: byte_at_def bmap_direct)
  qed
qed

lemma write_loop_ok:
  assumes "fs_ok s" "file_ok s ino" "unat off + length src \<le> 12288" "k \<le> length src"
  shows "\<exists>n ino' s'. ext2_write_loop off src k ino s = Some (n, ino', s') \<and> k \<le> n \<and> n \<le> length src \<and>
     (n < length src \<longrightarrow> used_blocks s' = all_blocks s') \<and> file_grown s ino s' ino' \<and>
     (\<forall>q < 12288. byte_at s' ino' q =
        (if unat off + k \<le> q \<and> q < unat off + n then src ! (q - unat off) else byte_at s ino q))"
  using assms
proof (induction "length src - k" arbitrary: k ino s rule: less_induct)
  case less
  note fs = less.prems(1) and f = less.prems(2) and off = less.prems(3)
  show ?case
  proof (cases "k < length src")
    case False
    then have "ext2_write_loop off src k ino s = Some (k, ino, s)" by (simp add: ext2_write_loop.simps)
    then show ?thesis using False less.prems(4) file_grown_refl [OF fs f] by auto
  next
    case True
    let ?p = "unat off + k"
    let ?n = "min (1024 - ?p mod 1024) (length src - k)" and ?a = "?p div 1024"
    have p: "?p < 12288" using off True by simp
    then have a: "?a < 12" by (simp add: div_less_iff_less_mult)
    have n: "0 < ?n" "k + ?n \<le> length src" "?n \<le> 1024 - ?p mod 1024" using True by auto
    have sl: "blk_slice off k (length src) = (word_of_nat ?a, ?p mod 1024, ?n)"
      using off by (intro blk_slice_ok [OF _ True]) simp
    from grow_file [OF fs f a] obtain b ino1 s1 where
      g: "bmap_alloc ino (word_of_nat ?a) s = Some (b, ino1, s1)"
        "if b = 0 then s1 = s \<and> ino1 = ino \<and> used_blocks s = all_blocks s
         else file_grown s ino s1 ino1 \<and> i_block ino1 ! ?a = b \<and> (\<forall>q < 12288. byte_at s1 ino1 q = byte_at s ino q)" by blast
    show ?thesis
    proof (cases "b = 0")
      case b0: True
      then have "ext2_write_loop off src k ino s = Some (k, ino, s)"
        using True sl g by (subst ext2_write_loop.simps) simp
      then show ?thesis using b0 g(2) True file_grown_refl [OF fs f] by auto
    next
      case b0: False
      then have gr: "file_grown s ino s1 ino1" "i_block ino1 ! ?a = b" "\<forall>q < 12288. byte_at s1 ino1 q = byte_at s ino q"
        using g(2) by simp_all
      have fs1: "fs_ok s1" "file_ok s1 ino1" using gr(1) by (simp_all add: file_grown_def)
      then have io: "io_ok s1" by (simp add: fs_ok_def alloc_ok_def)
      let ?bs = "take ?n (drop k src)"
      have lbs: "length ?bs = ?n" using n by simp
      have "?p mod 1024 + length ?bs \<le> length (eblock s1 b)" unfolding lbs using n(3) io by simp
      then have "\<exists>buf. put_buf (eblock s1 b) (?p mod 1024) ?bs = Some buf" unfolding put_buf_def by (simp only: if_True) blast
      then obtain buf where put: "put_buf (eblock s1 b) (?p mod 1024) ?bs = Some buf" by blast
      have lb: "length buf = 1024" using put_length [OF put] io by simp
      let ?s = "put_block b buf s1"
      have "b \<in> file_blocks ino1" using gr(2) a b0 by (auto simp: file_blocks_def)
      from file_grown_put [OF fs1 this lb] have gp: "file_grown s1 ino1 ?s ino1" .
      then have fs2: "fs_ok ?s" "file_ok ?s ino1" by (simp_all add: file_grown_def)
      have by_s: "byte_at ?s ino1 q = (if ?p \<le> q \<and> q < ?p + ?n then src ! (q - unat off) else byte_at s ino q)"
        if q: "q < 12288" for q
      proof -
        have "?bs ! (q - ?p) = src ! (q - unat off)" if "?p \<le> q \<and> q < ?p + ?n"
        proof -
          have "q - ?p < ?n" using that by linarith
          moreover have "k + (q - ?p) = q - unat off" "k \<le> length src" using that n by linarith+
          ultimately show ?thesis by simp
        qed
        then show ?thesis using store_bytes [OF fs1(2) p gr(2) b0 io put q] gr(3) q unfolding lbs by simp
      qed
      have "length src - (k + ?n) < length src - k" by (rule diff_less_mono2) (use n True in linarith)+
      from less.hyps [OF this fs2 off n(2)] obtain m ino' s' where
        r: "ext2_write_loop off src (k + ?n) ino1 ?s = Some (m, ino', s')" "k + ?n \<le> m" "m \<le> length src"
          "m < length src \<longrightarrow> used_blocks s' = all_blocks s'" "file_grown ?s ino1 s' ino'"
          "\<forall>q < 12288. byte_at s' ino' q =
             (if unat off + (k + ?n) \<le> q \<and> q < unat off + m then src ! (q - unat off) else byte_at ?s ino1 q)" by blast
      have "ext2_write_loop off src k ino s = Some (m, ino', s')"
        using True sl g(1) b0 io put r(1) by (subst ext2_write_loop.simps) simp
      moreover have "file_grown s ino s' ino'" using file_grown_trans [OF gr(1) file_grown_trans [OF gp r(5)]] .
      moreover have "byte_at s' ino' q = (if ?p \<le> q \<and> q < unat off + m then src ! (q - unat off) else byte_at s ino q)"
        if q: "q < 12288" for q using r(2,6) by_s [OF q] q by auto
      moreover have "k \<le> m" using r(2) by simp
      ultimately show ?thesis using r(3,4) by blast
    qed
  qed
qed

text \<open>An inode is written in a block of its table.\<close>

lemma itab_block: "itab_ok s \<Longrightarrow> valid_inum s n \<Longrightarrow> unat b = itab s (inode_group s n) + inode_pos s n div 1024 \<Longrightarrow> b \<in> itab_blocks s"
  using inode_pos_less [of s n] by (auto simp: itab_blocks_def valid_inum_def)

lemma read_inode_same:
  assumes fs: "fs_ok s" "io_ok t" and g: "inode_geo t = inode_geo s" and c: "\<And>c. c \<in> itab_blocks s \<Longrightarrow> eblock t c = eblock s c"
  shows "read_inode t n = read_inode s n"
proof -
  have io: "io_ok s" and it: "itab_ok s" using fs(1) by (simp_all add: fs_ok_def alloc_ok_def)
  have pl: "inode_place t n = inode_place s n" using inode_geo_place [OF g] .
  show ?thesis
  proof (cases "valid_inum s n")
    case False
    then show ?thesis using inode_place_invalid [OF it] pl by (simp add: read_inode_def)
  next
    case True
    then obtain b where b: "inode_place s n = Some (Some (b, inode_pos s n mod 1024))"
        "unat b = itab s (inode_group s n) + inode_pos s n div 1024" using inode_place_ok [OF it] by blast
    then show ?thesis using c [OF itab_block [OF it True b(2)]] pl io fs(2) by (simp add: read_inode_def)
  qed
qed

lemma file_grown_read_inode:
  assumes fs: "fs_ok s" and f: "file_ok s ino" and g: "file_grown s ino s' ino'"
  shows "read_inode s' n = read_inode s n"
proof (rule read_inode_same [OF fs])
  show "io_ok s'" using g by (simp add: file_grown_def fs_ok_def alloc_ok_def)
  show "inode_geo s' = inode_geo s" using g by (simp add: file_grown_def)
  fix c assume c: "c \<in> itab_blocks s"
  then have "unat c \<in> used_blocks s" "c \<notin> meta_blocks s \<union> file_blocks ino"
    using fs f unfolding fs_ok_def file_ok_def by blast+
  then show "eblock s' c = eblock s c" using g unfolding file_grown_def by blast
qed

lemma set_vnode_size_fields [simp]:
  "eblock (set_vnode_size vn z s) c = eblock s c" "io_ok (set_vnode_size vn z s) = io_ok s"
  "x_sb (set_vnode_size vn z s) = x_sb s" "x_gdt (set_vnode_size vn z s) = x_gdt s"
  "x_ngroups (set_vnode_size vn z s) = x_ngroups s" "x_inode_size (set_vnode_size vn z s) = x_inode_size s"
  by (simp_all add: set_vnode_size_def eblock_def io_ok_def)

lemma read_inode_vnode_size [simp]: "read_inode (set_vnode_size vn z s) n = read_inode s n"
  by (simp add: read_inode_def inode_place_def group_at_def eb_read_def set_vnode_size_def Let_def)

lemma eb_read_vnode_size [simp]: "eb_read (set_vnode_size vn z s) b = eb_read s b"
  by (simp add: eb_read_def set_vnode_size_def Let_def)

lemma bmap_vnode_size [simp]: "bmap (set_vnode_size vn z s) ino b = bmap s ino b"
proof -
  have "ind_entry (set_vnode_size vn z s) = ind_entry s" by (intro ext) (simp add: ind_entry_def)
  then show ?thesis by (simp add: bmap_def Let_def)
qed

lemma byte_at_vnode_size [simp]: "byte_at (set_vnode_size vn z s) ino q = byte_at s ino q"
  by (simp add: byte_at_def split: option.split)

lemma byte_at_size [simp]: "byte_at s (ino\<lparr>i_size := z\<rparr>) q = byte_at s ino q"
  by (simp add: byte_at_def bmap_def Let_def)

lemma file_ok_size: "file_ok s (ino\<lparr>i_size := z\<rparr>) = file_ok s ino"
  by (simp add: file_ok_def file_blocks_def inode_ok_def)

lemma fs_ok_vnode_size [simp]: "fs_ok (set_vnode_size vn z s) = fs_ok s"
proof -
  let ?t = "set_vnode_size vn z s"
  have geo: "n_groups ?t = n_groups s" "group_blocks ?t = group_blocks s" "first_block ?t = first_block s"
    "bit_used ?t = bit_used s" "gdt_blk ?t = gdt_blk s"
    by (simp_all add: n_groups_def group_blocks_def first_block_def bit_used_def gdt_blk_def fun_eq_iff)
  have "used_blocks ?t = used_blocks s" "meta_blocks ?t = meta_blocks s" "itab_blocks ?t = itab_blocks s"
    "layout_ok ?t = layout_ok s" "counts_ok ?t = counts_ok s" "itab_ok ?t = itab_ok s"
    by (simp_all add: used_blocks_def meta_blocks_def itab_blocks_def itab_def itab_len_def layout_ok_def
        counts_ok_def itab_ok_def free_bits_def geo)
  then show ?thesis by (simp add: fs_ok_def alloc_ok_def meta_used_def)
qed

lemma blocks_vnode_size [simp]:
  "used_blocks (set_vnode_size vn z s) = used_blocks s" "meta_blocks (set_vnode_size vn z s) = meta_blocks s"
  "all_blocks (set_vnode_size vn z s) = all_blocks s" "itab_blocks (set_vnode_size vn z s) = itab_blocks s"
  by (simp_all add: used_blocks_def meta_blocks_def all_blocks_def itab_blocks_def itab_def itab_len_def
      n_groups_def group_blocks_def first_block_def bit_used_def gdt_blk_def)

lemma inode_written:
  assumes fs: "fs_ok s" and f: "file_ok s ino" and v: "valid_inum s n"
  shows "\<exists>b buf. write_inode n ino s = Some (0, put_block b buf s) \<and> b \<in> itab_blocks s \<and>
     fs_ok (put_block b buf s) \<and> file_ok (put_block b buf s) ino \<and>
     read_inode (put_block b buf s) n = Some (Some ino) \<and>
     (\<forall>m. m \<noteq> n \<longrightarrow> read_inode (put_block b buf s) m = read_inode s m) \<and>
     used_blocks (put_block b buf s) = used_blocks s \<and> all_blocks (put_block b buf s) = all_blocks s \<and>
     (\<forall>q < 12288. byte_at (put_block b buf s) ino q = byte_at s ino q)"
proof -
  have ok: "io_ok s" "itab_ok s" "alloc_ok s" using fs by (simp_all add: fs_ok_def alloc_ok_def)
  have "inode_ok ino" using f by (simp add: file_ok_def)
  from write_inode_ok [OF ok(1,2) v this] obtain b buf where
    wi: "write_inode n ino s = Some (0, put_block b buf s)" "length buf = 1024"
      "unat b = itab s (inode_group s n) + inode_pos s n div 1024"
      "read_inode (put_block b buf s) n = Some (Some ino)"
      "\<forall>m. m \<noteq> n \<longrightarrow> read_inode (put_block b buf s) m = read_inode s m" by blast
  have b: "b \<in> itab_blocks s" using itab_block [OF ok(2) v wi(3)] .
  then have nm: "b \<notin> meta_blocks s" using fs by (auto simp: fs_ok_def)
  note p = put_data_block [OF ok(3) nm wi(2)]
  have "itab_blocks (put_block b buf s) = itab_blocks s" by (simp add: itab_blocks_def itab_def itab_len_def)
  then have fo: "file_ok (put_block b buf s) ino" using f p by (simp add: file_ok_def)
  have "byte_at (put_block b buf s) ino q = byte_at s ino q" if q: "q < 12288" for q
  proof -
    have c: "q div 1024 < 12" using q by (simp add: div_less_iff_less_mult)
    then have "i_block ino ! (q div 1024) \<noteq> 0 \<Longrightarrow> i_block ino ! (q div 1024) \<noteq> b"
      using f b by (auto simp: file_ok_def file_blocks_def)
    then show ?thesis using c by (simp add: byte_at_def bmap_direct)
  qed
  then show ?thesis using wi b fs_ok_put [OF fs nm wi(2)] fo p by blast
qed

text \<open>
  C10. Writing within the direct blocks of a file sets bytes. On a consistent file system \<open>ext2_write\<close>
  stores a prefix of its bytes at the offset, all of them unless the disk is full then, and returns how
  many; with none stored it still moves the end of the file to the offset; every other byte of the file, the zeros of a hole and the bytes between the old end and the
  offset included, stays as it was, the size becomes the maximum of the old one and the end of what was
  written, and the inode read back is the new one. No other inode changes and no block of another
  file; the file system stays consistent.
\<close>

theorem ext2_write_exact:
  assumes fs: "fs_ok s" and v: "valid_inum s (inum_of s vn)" and ino: "read_inode s (inum_of s vn) = Some (Some ino)"
    and f: "file_ok s ino" and off: "unat off + length bs \<le> 12288"
  shows "\<exists>n ino' s'. ext2_write vn off bs s = Some (int n, s') \<and> n \<le> length bs \<and>
     (n < length bs \<longrightarrow> used_blocks s' = all_blocks s') \<and> fs_ok s' \<and> file_ok s' ino' \<and>
     read_inode s' (inum_of s vn) = Some (Some ino') \<and> (\<forall>m. m \<noteq> inum_of s vn \<longrightarrow> read_inode s' m = read_inode s m) \<and>
     unat (i_size ino') = max (unat (i_size ino)) (unat off + n) \<and>
     (\<forall>q < 12288. byte_at s' ino' q =
        (if unat off \<le> q \<and> q < unat off + n then bs ! (q - unat off) else byte_at s ino q)) \<and>
     (\<forall>c. unat c \<in> used_blocks s \<longrightarrow> c \<notin> meta_blocks s \<union> itab_blocks s \<union> file_blocks ino \<longrightarrow> eblock s' c = eblock s c)"
proof -
  let ?i = "inum_of s vn"
  obtain n ino1 s1 where w: "ext2_write_loop off bs 0 ino s = Some (n, ino1, s1)" "n \<le> length bs"
      "n < length bs \<longrightarrow> used_blocks s1 = all_blocks s1" "file_grown s ino s1 ino1"
      "\<forall>q < 12288. byte_at s1 ino1 q =
        (if unat off \<le> q \<and> q < unat off + n then bs ! (q - unat off) else byte_at s ino q)"
    using write_loop_ok [OF fs f off, of 0] by auto
  have fs1: "fs_ok s1" "file_ok s1 ino1" and geo: "inode_geo s1 = inode_geo s" "meta_blocks s1 = meta_blocks s"
      "i_size ino1 = i_size ino" "used_blocks s \<subseteq> used_blocks s1" using w(4) by (simp_all add: file_grown_def)
  have it: "itab_ok s" using fs by (simp add: fs_ok_def)
  have ib: "itab_blocks s1 = itab_blocks s" using itab_blocks_geo [OF geo(1) it] .
  have v1: "valid_inum s1 ?i" using inode_geo_itab(4) [OF geo(1) it] v by simp
  define fin where "fin = off + word_of_nat n"
  define ino2 where "ino2 = (if fin > ucast (i_size ino1) then ino1\<lparr>i_size := ucast fin\<rparr> else ino1)"
  have ue: "unat fin = unat off + n" using off w(2) by (simp add: fin_def unat_word_ariths unat_of_nat)
  then have uc: "unat (ucast fin :: u32) = unat off + n" "unat (ucast (i_size ino1) :: u64) = unat (i_size ino1)"
    using off w(2) unat_u32_less [of "i_size ino1"]
    by (simp_all add: unsigned_ucast_eq unsigned_take_bit_eq take_bit_nat_eq_self)
  have size: "unat (i_size ino2) = max (unat (i_size ino)) (unat off + n)"
    using uc ue geo(3) by (auto simp: ino2_def word_less_nat_alt)
  have f2: "file_ok s1 ino2" using fs1(2) file_ok_size by (simp add: ino2_def)
  from inode_written [OF fs1(1) f2 v1] obtain b buf where
    wi: "write_inode ?i ino2 s1 = Some (0, put_block b buf s1)" "b \<in> itab_blocks s1"
      "fs_ok (put_block b buf s1)" "file_ok (put_block b buf s1) ino2" "read_inode (put_block b buf s1) ?i = Some (Some ino2)"
      "\<forall>m. m \<noteq> ?i \<longrightarrow> read_inode (put_block b buf s1) m = read_inode s1 m"
      "used_blocks (put_block b buf s1) = used_blocks s1" "all_blocks (put_block b buf s1) = all_blocks s1"
      "\<forall>q < 12288. byte_at (put_block b buf s1) ino2 q = byte_at s1 ino2 q" by blast
  let ?s = "set_vnode_size vn (i_size ino2) (put_block b buf s1)"
  have "n < 2 ^ 31" using off w(2) by simp
  from int_of_u64_small [OF this] have run: "ext2_write vn off bs s = Some (int n, ?s)"
    unfolding ext2_write_def Let_def ino bind.bind_lunit option.case w(1) prod.case
      fin_def [symmetric] ino2_def [symmetric] wi(1) by simp
  have "byte_at s1 ino2 q = byte_at s1 ino1 q" for q by (simp add: ino2_def)
  then have bytes: "\<forall>q < 12288. byte_at ?s ino2 q =
        (if unat off \<le> q \<and> q < unat off + n then bs ! (q - unat off) else byte_at s ino q)" using w(5) wi(9) by simp
  have "read_inode ?s m = read_inode s m" if "m \<noteq> ?i" for m
    using wi(6) that file_grown_read_inode [OF fs f w(4)] by simp
  moreover have "eblock ?s c = eblock s c" if "unat c \<in> used_blocks s" "c \<notin> meta_blocks s \<union> itab_blocks s \<union> file_blocks ino" for c
    using w(4) that wi(2) ib unfolding file_grown_def by auto
  moreover have "n < length bs \<longrightarrow> used_blocks ?s = all_blocks ?s" using w(3) wi(7,8) by simp
  moreover have "fs_ok ?s" "file_ok ?s ino2" "read_inode ?s ?i = Some (Some ino2)"
    using wi(3-5) by (simp_all add: file_ok_def)
  ultimately show ?thesis using run w(2) size bytes by blast
qed

text \<open>A file of five zeros without a block, inode 12 of the small disk.\<close>

definition hole_inode :: ext2_inode where
  "hole_inode = (dec_inode (replicate 128 0))\<lparr>i_mode := 0x81A4, i_links_count := 1, i_size := 5\<rparr>"

definition file_disk :: ext2 where
  "file_disk = put_block 6 (replicate 384 0 @ enc_inode hole_inode @ replicate 512 0) root_disk"

lemma hole_inode_ok: "inode_ok hole_inode" "a < 15 \<Longrightarrow> i_block hole_inode ! a = 0"
proof -
  have "le32 (replicate n 0) k = 0" for n k
  proof -
    have "le_nat (replicate m 0) = 0" for m by (induction m) simp_all
    then show ?thesis by (simp add: le32_def dec32_def)
  qed
  then show "a < 15 \<Longrightarrow> i_block hole_inode ! a = 0" by (simp add: hole_inode_def dec_inode_def dec_words_def)
  show "inode_ok hole_inode" by (simp add: hole_inode_def inode_ok_def dec_inode_def dec_words_def)
qed

lemma file_disk_ok:
  "fs_ok file_disk" "file_ok file_disk hole_inode" "inum_of file_disk 0 = 12" "valid_inum file_disk 12"
  "read_inode file_disk 12 = Some (Some hole_inode)"
proof -
  have root: "alloc_ok root_disk" "meta_used root_disk" using root_disk_ok by (simp_all add: dir_ok_def)
  have itab: "itab root_disk 0 = 5" "itab_len root_disk = 2" "x_ngroups root_disk = 1"
    by (simp_all add: itab_def itab_len_def root_disk_def blank_disk_def)
  have "itab_ok root_disk"
    unfolding itab_ok_def itab by (simp add: itab) (simp add: root_disk_def blank_disk_def)
  moreover have ib: "itab_blocks root_disk = {5, 6}"
    unfolding itab_blocks_def itab by (auto simp: itab word_unat_eq_iff)
  ultimately have fs: "fs_ok root_disk"
    using root root_disk_used [of 5] root_disk_used [of 6] by (simp add: fs_ok_def root_disk_geo)
  have len: "length (replicate 384 0 @ enc_inode hole_inode @ replicate 512 0) = 1024" using hole_inode_ok(1) by simp
  show fd: "fs_ok file_disk" unfolding file_disk_def by (rule fs_ok_put [OF fs _ len]) (simp add: root_disk_geo)
  have "file_blocks hole_inode = {}" using hole_inode_ok(2) by (auto simp: file_blocks_def)
  then show "file_ok file_disk hole_inode" using hole_inode_ok by (simp add: file_ok_def)
  show "inum_of file_disk 0 = 12" by (simp add: inum_of_def file_disk_def root_disk_def blank_disk_def)
  show "valid_inum file_disk 12"
    by (simp add: valid_inum_def inode_group_def file_disk_def root_disk_def blank_disk_def)
  have "inode_place file_disk 12 = Some (Some (6, 384))"
    by (simp add: inode_place_def group_at_def file_disk_def root_disk_def blank_disk_def Let_def)
  moreover have "io_ok file_disk" using fd by (simp add: fs_ok_def alloc_ok_def)
  moreover have "eblock file_disk 6 = replicate 384 0 @ enc_inode hole_inode @ replicate 512 0" by (simp add: file_disk_def)
  ultimately show "read_inode file_disk 12 = Some (Some hole_inode)"
    using hole_inode_ok(1) by (simp add: read_inode_def dec_enc_inode)
qed

lemma ext2_read_exact_witness:
  "ext2_read 0 2 10 file_disk =
    (let d = take (unat (10 :: u64)) (drop (unat (2 :: u64)) (file_bytes file_disk hole_inode)) in Some ((int (length d), d), file_disk))"
  by (rule ext2_read_exact) (use file_disk_ok in \<open>simp_all add: fs_ok_def alloc_ok_def\<close>)

lemma ext2_write_exact_witness:
  "\<exists>n ino' s'. ext2_write 0 2000 [1, 2, 3] file_disk = Some (int n, s') \<and> n \<le> 3 \<and> fs_ok s' \<and>
     read_inode s' 12 = Some (Some ino') \<and> unat (i_size ino') = 2000 + n"
proof -
  have "unat (2000 :: u64) + length [1, 2, 3 :: u8] \<le> 12288" "unat (i_size hole_inode) = 5"
    by (simp_all add: hole_inode_def)
  with ext2_write_exact [of file_disk 0 hole_inode 2000 "[1, 2, 3]"] file_disk_ok show ?thesis by fastforce
qed

end
