(* ===== verification/Spec2Isabelle.thy ===== *)
theory Spec2Isabelle
  imports Pipe Pty Seat Sched_Props Signal Tcp_Api_Props Kheap Vm_Example Shm Netstack_Props Ramfs Kstring Files_Props Path_Props Proc Ext2_Data
begin

text \<open>
  \<^bold>\<open>A verification library of the MyOSv2 kernel.\<close>

  MyOSv2 is a teaching kernel for AArch64 with a preemptive scheduler, address spaces with
  copy-on-write fork, pipes, pseudo terminals, signals, file systems and a TCP/IP stack. The library
  translates its components from C (\<open>src/src\<close>) into definitions and proves what makes each correct.

  \<^bold>\<open>Theories and sources.\<close>
  \<^item> \<open>Prelude\<close>: word types, the outcome of calls that sleep, ring buffers as lists, and the locale
    \<open>bounded_fifo\<close>, whose laws the rings of \<open>pipe.c\<close>, \<open>pty.c\<close> and \<open>tcp.c\<close> are shown to obey.
  \<^item> \<open>Pipe\<close> (\<open>pipe.c\<close>), \<open>Pty\<close> (\<open>pty.c\<close>), \<open>Seat\<close> (\<open>seat.c\<close>), \<open>Shm\<close> (\<open>shm.c\<close>), \<open>Signal\<close>
    (\<open>signal.c\<close>).
  \<^item> \<open>Sched\<close>, \<open>Sched_Props\<close> (\<open>sched.c\<close>): threads as a ring; reachability from \<open>sched_init\<close> under
    every call, and the invariant of all reachable states.
  \<^item> \<open>Pmm\<close> (\<open>pmm.c\<close>), \<open>Kheap\<close> (\<open>kheap.c\<close>): page frames and the heap over one memory of words, so
    that free lists and block headers lie in the memory they manage.
  \<^item> \<open>Vm\<close>, \<open>Vm_Tables\<close>, \<open>Vm_Refs\<close>, \<open>Vm_Props\<close>, \<open>Vm_Fork\<close>, \<open>Vm_Example\<close> (\<open>vm.c\<close>, \<open>elf.c\<close>, the
    tables of \<open>mmu.c\<close>): page tables as pages of that memory, reference counts, mmap, the
    copy-on-write fault and fork.
  \<^item> \<open>Net_Bytes\<close>: byte order and checksums. \<open>Tcp_Reasm\<close>, \<open>Tcp_Rto\<close>, \<open>Tcp_Cc\<close>, \<open>Tcp\<close>,
    \<open>Tcp_Props\<close>, \<open>Tcp_Stream\<close>, \<open>Tcp_Api\<close>, \<open>Tcp_Api_Props\<close> (\<open>tcp*.c\<close>): the queue, the timers, the
    segment handler, the stream it delivers and the blocking calls.
  \<^item> \<open>Net_Dns\<close>, \<open>Net_Dhcp\<close>, \<open>Netstack\<close>, \<open>Netstack_Props\<close> (\<open>netstack.c\<close>): parsers with checked
    reads, and the layers from Ethernet to UDP with the resolver and the DHCP client.
  \<^item> \<open>Socket\<close> (\<open>socket.c\<close>): sockets over the TCP calls, and the datagram queues.
  \<^item> \<open>Kstring\<close> (\<open>string.c\<close>): the memory functions over overlapping ranges.
  \<^item> \<open>Vfs\<close> (\<open>vfs.c\<close>), \<open>Ramfs\<close> (\<open>ramfs.c\<close>): path resolution over a table of vnode operations, and the
    file system in memory behind it.
  \<^item> \<open>Files\<close>, \<open>Files_Inv\<close>, \<open>Files_Calls\<close>, \<open>Files_Props\<close> (the handles of \<open>vfs.c\<close>, the calls on
    descriptors of \<open>syscall.c\<close>, fork and exit, \<open>poll.c\<close>): open files over the scheduler, pipes,
    terminals, sockets and a file system; reachability under these calls and its invariant.
  \<^item> \<open>Path_Props\<close> (\<open>resolve_path\<close> of \<open>syscall.c\<close>): working directories and canonical paths.
  \<^item> \<open>Proc\<close> (\<open>proc.c\<close>): starting a program, and the argument block that exec puts on its stack.
  \<^item> \<open>Ext2_Disk\<close>, \<open>Ext2\<close>, \<open>Ext2_Dir\<close> (\<open>ext2.c\<close>): the structures on disk with their encodings, blocks,
    bitmaps, the block map and file data, directories and all vnode operations, the mount.
    \<open>Ext2_Blocks\<close>: inodes as cells and the allocator as a set. \<open>Ext2_Entries\<close>: a directory block as
    a list of records and as a map from names to inodes. \<open>Ext2_Props\<close>, \<open>Ext2_Data\<close>: whole
    directories and the bytes of files, over the allocator.

  \<^bold>\<open>How code becomes definitions.\<close> A struct is a record, an enum a datatype, a fixed-width integer
  a word where it can wrap and a number where an invariant keeps it far from its width. A function is
  a function on the state; a return code of -1 is that number or \<open>None\<close>, as each theory says. A call
  that sleeps returns an outcome with the loop variables it keeps, or takes a list of ticks with what
  the machine supplies. Memory that is managed by the code itself (free lists, heap blocks, page
  tables) is a map from pages to words; objects only the C language manages (nodes of lists) are
  values. What the code relies on outside of it (the clock, the network card, pending signals, the
  results of the allocator and of the disk for the file systems) is an argument or an oracle in the
  state. Access outside a buffer, a null pointer and a division by zero are the result \<open>None\<close>, so a
  property that gives \<open>Some\<close> says that they do not occur.

  \<^bold>\<open>What the lemmas show.\<close> Each component has an invariant that every operation keeps, the behaviour
  of each operation on every branch, and an abstract counterpart where it has one: lists for rings
  and the heap, byte arrays for files, the address map for page tables, the RFC 793 table for the
  teardown of a connection, the stream of the peer for TCP, names for paths, a set of blocks for the
  allocator of ext2. The invariants of the scheduler and of open files hold in all states that the
  calls reach. Lemmas beside the properties record where the code does less than its comments say.

  \<^bold>\<open>Bounds and fuel.\<close> Loops over memory that a bad state could make circular (\<open>first_fit\<close>,
  \<open>on_free_list\<close>) are partial functions with \<open>None\<close> for not returning, and the properties show that
  they return. The network stack calls itself through \<open>net_pump\<close>: its definitions take the pump as an
  argument, and \<open>net_pump n\<close> is the pump with nesting and waiting loops bounded by \<open>n\<close>; its properties
  hold for every bound and every run that comes back within it, and they speak of what was done until
  then, so no bound has to be enough. All other recursions terminate as they are.

  \<^bold>\<open>Not modelled.\<close> The C of the devices, of the boot sequence and of exceptions, whose other side is
  hardware or assembly; the console and its fonts, which only write to the frame buffer; the
  self-tests; the user programs and the vendored libraries under \<open>src/user\<close>. Of \<open>syscall.c\<close> the calls
  that only pass their arguments on to a modelled function (the path calls), and those on terminals'
  settings, time and graphics. The Lisp machine (\<open>lm_core.c\<close>, \<open>rd_core.c\<close>), whose evaluator leaves its
  C stack by \<open>longjmp\<close>: a library of its own beside the kernel. Two threads that interleave inside one
  component are covered where the component sleeps (pipes, terminals, TCP calls), not between two
  instructions: the kernel is not preempted inside a system call.
\<close>

end
